(* ===== verification/Prelude.thy ===== *)
theory Prelude
  imports Main "HOL-Library.Word"
begin

text \<open>
  Shared vocabulary of the development: the machine types of the C code, the error
  sum in which every fallible routine returns its result, and the generic lemmas on
  lists, maps and words that several components use.

  A routine that can fail returns a value of \<open>'e + 'a\<close>: \<open>Inl e\<close> for a panic or
  another way of not returning, \<open>Inr x\<close> for a normal return.  \<open>bindR\<close> sequences
  two of them the way a C statement list does.
\<close>

section \<open>Machine types\<close>

type_synonym byte = "8 word"
type_synonym uint = "32 word"

text \<open>Byte-addressed memory: a pointer of the C code is the index of the byte it names.\<close>

type_synonym bmem = "nat \<Rightarrow> byte"

section \<open>Sequencing of fallible routines\<close>

named_theorems res_simps \<open>evaluation of sequences of fallible routines\<close>

definition bindR :: "'e + 'a \<Rightarrow> ('a \<Rightarrow> 'e + 'b) \<Rightarrow> 'e + 'b" where
  "bindR m f = (case m of Inl e \<Rightarrow> Inl e | Inr x \<Rightarrow> f x)"

lemma bindR_Inl [simp]: "bindR (Inl e) f = Inl e"
  by (simp add: bindR_def)

lemma bindR_Inr [simp]: "bindR (Inr x) f = f x"
  by (simp add: bindR_def)

lemma bindR_eq_Inr [res_simps]: "(bindR m f = Inr y) \<longleftrightarrow> (\<exists>x. m = Inr x \<and> f x = Inr y)"
  by (cases m) auto

lemma bindR_eq_Inl [res_simps]:
  "(bindR m f = Inl e) \<longleftrightarrow> (m = Inl e \<or> (\<exists>x. m = Inr x \<and> f x = Inl e))"
  by (cases m) auto

lemma bindR_assoc: "bindR (bindR m f) g = bindR m (\<lambda>x. bindR (f x) g)"
  by (cases m) auto

lemma bindR_cong [fundef_cong]:
  "m = m' \<Longrightarrow> (\<And>x. m' = Inr x \<Longrightarrow> f x = f' x) \<Longrightarrow> bindR m f = bindR m' f'"
  by (cases m') auto

section \<open>Rings\<close>

text \<open>
  Two positions less than a ring of \<open>m\<close> places apart are different places; a counter of 32 bits that
  wraps keeps its place when \<open>m\<close> divides \<open>2\<^sup>3\<^sup>2\<close>.
\<close>

lemma mod_apart:
  fixes m :: nat
  assumes "i \<le> j" and "j < m" and "(n + i) mod m = (n + j) mod m"
  shows "i = j"
proof -
  have "m dvd (n + j) - (n + i)"
    using assms(1,3) mod_eq_dvd_iff_nat [of "n + i" "n + j" m] by simp
  then have "m dvd j - i" by simp
  with assms(1,2) show ?thesis using dvd_imp_le [of m "j - i"] by (cases "j - i") auto
qed

lemma counter_mod:
  assumes "m dvd 2 ^ 32"
  shows "unat (a + of_nat i :: uint) mod m = (unat a + i) mod m"
proof -
  have "unat (a + of_nat i) = (unat a + i) mod 2 ^ 32"
    by (simp add: unat_word_ariths unat_of_nat mod_add_right_eq)
  with assms show ?thesis by (simp add: mod_mod_cancel)
qed

section \<open>32-bit words\<close>

lemma sint_small:
  assumes "n < 2 ^ 31"
  shows "sint (of_nat n :: uint) = int n"
proof -
  have "signed_take_bit 31 (int n) = int n"
    using assms by (intro signed_take_bit_int_eq_self) auto
  then show ?thesis by (simp add: signed_of_nat)
qed

lemma add_wraps: "a + b < a \<longleftrightarrow> \<not> unat a + unat b < 2 ^ 32" for a b :: uint
proof (cases "unat a + unat b < 2 ^ 32")
  case True
  then have "unat (a + b) = unat a + unat b" by (subst unat_add_lem [THEN iffD1]) simp_all
  with True show ?thesis by (simp add: word_less_nat_alt)
next
  case False
  have b: "unat b < 2 ^ 32" "unat a < 2 ^ 32" using unsigned_less [of b] unsigned_less [of a] by simp_all
  have "unat (a + b) = (unat a + unat b) mod 2 ^ 32" by (simp add: unat_word_ariths)
  also have "\<dots> = unat a + unat b - 2 ^ 32" using False b by (subst le_mod_geq) auto
  finally show ?thesis using False b by (simp add: word_less_nat_alt)
qed

end
