(* ===== verification/Machine.thy ===== *)
theory Machine
  imports Prelude
begin

text \<open>
  What every kernel component shares: the names of the locks and of the sleep channels,
  the ways a kernel routine can fail to return, the per-CPU state and the lock table.
  The state of each component extends \<open>mach\<close> with its own fields, so that the lock
  routines act on the states of all of them.
\<close>

section \<open>Names\<close>

text \<open>
  A lock is named by the object that holds its \<^verbatim>\<open>struct spinlock\<close>: the global tables,
  a pipe (by the page it lives in), or a slot of the process table (its \<^verbatim>\<open>guard\<close> and
  \<^verbatim>\<open>mem_lock\<close> fields).
\<close>

datatype lockid =
    PtableLk | KmemLk | BcacheLk | IdeLk | IcacheLk | FtableLk | TicksLk | ConsLk | InputLk
  | PipeLk nat | GuardLk nat | MemLk nat

text \<open>
  A sleep channel is an address: a process slot, a buffer, a cached inode, the
  \<^verbatim>\<open>nread\<close> or \<^verbatim>\<open>nwrite\<close> field of a pipe, the tick counter, the console input, or the address of a lock
  word of a user program.
\<close>

datatype chan =
    ChProc nat | ChBuf nat | ChInode nat | ChNread nat | ChNwrite nat | ChTicks | ChInput
  | ChUser uint

text \<open>
  How a kernel routine can fail to return to its caller: it panics, it spins for ever on
  a lock that no running CPU can release, dereferences a null or wild pointer, or walks a
  linked structure for ever.
\<close>

datatype kerr = Panic string | Spins lockid | Fault | Loops

section \<open>CPUs and locks\<close>

record spinlock =
  lk_locked :: bool
  lk_name :: string
  lk_cpu :: "nat option"

text \<open>
  The fields of \<^verbatim>\<open>struct cpu\<close> the kernel's own code reads and writes, and two registers
  of the CPU itself: \<open>iflag\<close> is the interrupt flag of \<^verbatim>\<open>eflags\<close>, \<open>cr3\<close> the page
  directory in use.  \<open>ts_esp0\<close> is the kernel stack pointer in the task state segment,
  \<open>cproc\<close> the slot of the process the CPU runs.
\<close>

record cpu =
  ncli :: int
  intena :: bool
  iflag :: bool
  cproc :: "nat option"
  ts_esp0 :: nat
  cr3 :: nat

record mach =
  cpus :: "nat \<Rightarrow> cpu"
  lks :: "lockid \<Rightarrow> spinlock"
  me :: nat

abbreviation this_cpu :: "'a mach_scheme \<Rightarrow> cpu" where
  "this_cpu s \<equiv> cpus s (me s)"

definition set_cpu :: "cpu \<Rightarrow> 'a mach_scheme \<Rightarrow> 'a mach_scheme" where
  "set_cpu c s = s\<lparr>cpus := (cpus s)(me s := c)\<rparr>"

definition set_lk :: "lockid \<Rightarrow> spinlock \<Rightarrow> 'a mach_scheme \<Rightarrow> 'a mach_scheme" where
  "set_lk lk v s = s\<lparr>lks := (lks s)(lk := v)\<rparr>"

lemma set_cpu_sel [simp]:
  "cpus (set_cpu c s) = (cpus s)(me s := c)" "lks (set_cpu c s) = lks s"
  "me (set_cpu c s) = me s" "mach.more (set_cpu c s) = mach.more s"
  by (simp_all add: set_cpu_def)

lemma set_lk_sel [simp]:
  "lks (set_lk lk v s) = (lks s)(lk := v)" "cpus (set_lk lk v s) = cpus s"
  "me (set_lk lk v s) = me s" "mach.more (set_lk lk v s) = mach.more s"
  by (simp_all add: set_lk_def)

end
