(* ===== verification/Spinlock.thy ===== *)
theory Spinlock
  imports Machine
begin

text \<open>
  Spin locks (\<^verbatim>\<open>kernel/spinlock.c\<close>).  The first part models each routine as one function
  on the state, run by the CPU \<open>me\<close> with no other CPU moving; the second lets all CPUs
  interleave at the grain of the atomic \<^verbatim>\<open>xchg\<close> and proves mutual exclusion.  The
  debugging call stack \<^verbatim>\<open>pcs\<close> is not part of the state.
\<close>

section \<open>The routines\<close>

definition initlock :: "lockid \<Rightarrow> string \<Rightarrow> 'a mach_scheme \<Rightarrow> 'a mach_scheme" where
  "initlock lk nm s = set_lk lk \<lparr>lk_locked = False, lk_name = nm, lk_cpu = None\<rparr> s"

definition holding :: "lockid \<Rightarrow> 'a mach_scheme \<Rightarrow> bool" where
  "holding lk s \<longleftrightarrow> lk_locked (lks s lk) \<and> lk_cpu (lks s lk) = Some (me s)"

definition pushcli :: "'a mach_scheme \<Rightarrow> 'a mach_scheme" where
  "pushcli s =
     (let c = this_cpu s; eflags_if = iflag c; c1 = c\<lparr>iflag := False\<rparr>;
          c2 = (if ncli c1 = 0 then c1\<lparr>intena := eflags_if\<rparr> else c1)
      in set_cpu (c2\<lparr>ncli := ncli c2 + 1\<rparr>) s)"

definition popcli :: "'a mach_scheme \<Rightarrow> kerr + 'a mach_scheme" where
  "popcli s =
     (let c = this_cpu s in
      if iflag c then Inl (Panic ''popcli - interruptible'')
      else let c1 = c\<lparr>ncli := ncli c - 1\<rparr> in
        if ncli c1 < 0 then Inl (Panic ''popcli'')
        else if ncli c1 = 0 \<and> intena c1 then Inr (set_cpu (c1\<lparr>iflag := True\<rparr>) s)
        else Inr (set_cpu c1 s))"

text \<open>
  \<^verbatim>\<open>acquire\<close>: with no other CPU running, the \<^verbatim>\<open>xchg\<close> loop is left at once when the
  lock is free and never when it is taken.
\<close>

definition acquire :: "lockid \<Rightarrow> 'a mach_scheme \<Rightarrow> kerr + 'a mach_scheme" where
  "acquire lk s =
     (let s1 = pushcli s in
      if holding lk s1 then Inl (Panic ''acquire'')
      else if lk_locked (lks s1 lk) then Inl (Spins lk)
      else Inr (set_lk lk ((lks s1 lk)\<lparr>lk_locked := True, lk_cpu := Some (me s1)\<rparr>) s1))"

definition release :: "lockid \<Rightarrow> 'a mach_scheme \<Rightarrow> kerr + 'a mach_scheme" where
  "release lk s =
     (if \<not> holding lk s then Inl (Panic ''release'')
      else popcli (set_lk lk ((lks s lk)\<lparr>lk_cpu := None, lk_locked := False\<rparr>) s))"

section \<open>The effect of the routines\<close>

text \<open>The lock table and CPU are the only parts of the state a lock routine writes.\<close>

lemma pushcli_sel [simp]:
  "lks (pushcli s) = lks s" "me (pushcli s) = me s" "mach.more (pushcli s) = mach.more s"
  "c \<noteq> me s \<Longrightarrow> cpus (pushcli s) c = cpus s c"
  by (simp_all add: pushcli_def Let_def)

lemma pushcli_this [simp]:
  "iflag (cpus (pushcli s) (me s)) = False"
  "ncli (cpus (pushcli s) (me s)) = ncli (this_cpu s) + 1"
  "cproc (cpus (pushcli s) (me s)) = cproc (this_cpu s)"
  "cr3 (cpus (pushcli s) (me s)) = cr3 (this_cpu s)"
  "intena (cpus (pushcli s) (me s)) =
     (if ncli (this_cpu s) = 0 then iflag (this_cpu s) else intena (this_cpu s))"
  by (simp_all add: pushcli_def Let_def)

text \<open>A lock is free when no CPU has it; the state after \<open>release\<close> leaves it so.\<close>

definition lk_free :: "spinlock \<Rightarrow> bool" where
  "lk_free l \<longleftrightarrow> \<not> lk_locked l \<and> lk_cpu l = None"

text \<open>
  The state \<open>locked lk s\<close> is what \<open>acquire\<close> leaves: interrupts off, one more level of
  \<open>pushcli\<close>, the lock taken by this CPU.
\<close>

definition locked :: "lockid \<Rightarrow> 'a mach_scheme \<Rightarrow> 'a mach_scheme" where
  "locked lk s =
     set_lk lk ((lks s lk)\<lparr>lk_locked := True, lk_cpu := Some (me s)\<rparr>) (pushcli s)"

lemma acquire_free: "lk_free (lks s lk) \<Longrightarrow> acquire lk s = Inr (locked lk s)"
  by (simp add: acquire_def locked_def lk_free_def holding_def)

lemma holding_locked [simp]: "holding lk (locked lk s)"
  by (simp add: holding_def locked_def)

lemma locked_sel [simp]:
  "me (locked lk s) = me s" "mach.more (locked lk s) = mach.more s"
  "lks (locked lk s) = (lks s)(lk := (lks s lk)\<lparr>lk_locked := True, lk_cpu := Some (me s)\<rparr>)"
  "c \<noteq> me s \<Longrightarrow> cpus (locked lk s) c = cpus s c"
  by (simp_all add: locked_def)

text \<open>
  A CPU is well nested when its interrupt flag and its \<open>pushcli\<close> depth agree: off at
  every depth above 0.
\<close>

definition cli_ok :: "'a mach_scheme \<Rightarrow> bool" where
  "cli_ok s \<longleftrightarrow> 0 \<le> ncli (this_cpu s) \<and> (0 < ncli (this_cpu s) \<longrightarrow> \<not> iflag (this_cpu s))"

text \<open>
  A lock taken and released leaves the state as it was, but for the interrupt flag that
  \<^verbatim>\<open>pushcli\<close> saved at depth 0: \<open>quiet s\<close>.
\<close>

definition quiet_cpu :: "cpu \<Rightarrow> cpu" where
  "quiet_cpu c = (if ncli c = 0 then c\<lparr>intena := iflag c\<rparr> else c)"

definition quiet :: "'a mach_scheme \<Rightarrow> 'a mach_scheme" where
  "quiet s = set_cpu (quiet_cpu (this_cpu s)) s"

lemma quiet_sel [simp]:
  "lks (quiet s) = lks s" "me (quiet s) = me s"
  "ncli (cpus (quiet s) c) = ncli (cpus s c)" "iflag (cpus (quiet s) c) = iflag (cpus s c)"
  "cproc (cpus (quiet s) c) = cproc (cpus s c)"
  "cr3 (cpus (quiet s) c) = cr3 (cpus s c)"
  by (simp_all add: quiet_def quiet_cpu_def)

lemma quiet_idem [simp]: "quiet (quiet s) = quiet s"
  by (simp add: quiet_def quiet_cpu_def set_cpu_def)

lemma cli_ok_quiet [simp]: "cli_ok (quiet s) = cli_ok s"
  by (simp add: cli_ok_def)

lemma popcli_pushcli:
  assumes "cli_ok s"
  shows "popcli (pushcli s) = Inr (quiet s)"
  using assms
  by (cases "this_cpu s")
     (auto simp: popcli_def pushcli_def Let_def cli_ok_def quiet_def quiet_cpu_def set_cpu_def)

lemma release_locked:
  assumes "cli_ok s" and "lk_free (lks s lk)"
  shows "release lk (locked lk s) = Inr (quiet s)"
proof -
  have "(lks s lk)\<lparr>lk_cpu := None, lk_locked := False\<rparr> = lks s lk"
    using assms(2) by (cases "lks s lk") (simp add: lk_free_def)
  then have "set_lk lk ((lks (locked lk s) lk)\<lparr>lk_cpu := None, lk_locked := False\<rparr>)
      (locked lk s) = pushcli s"
    by (simp add: locked_def set_lk_def pushcli_def Let_def set_cpu_def)
  then show ?thesis
    using popcli_pushcli [OF assms(1)] by (simp add: release_def)
qed

section \<open>All CPUs interleaving\<close>

text \<open>
  Where a CPU is in the lock code: outside it, spinning on \<^verbatim>\<open>xchg\<close>, between a successful
  \<^verbatim>\<open>xchg\<close> and the write of \<^verbatim>\<open>lk->cpu\<close>, between clearing \<^verbatim>\<open>lk->cpu\<close> and the
  releasing \<^verbatim>\<open>xchg\<close>, or stopped in \<^verbatim>\<open>panic\<close>.  \<open>crit\<close> is a ghost: the locks whose
  critical section the CPU is in, that is, whose \<^verbatim>\<open>acquire\<close> has returned and whose
  \<^verbatim>\<open>release\<close> has not been called.
\<close>

datatype lpc = Running | AcqSpin lockid | AcqRecord lockid | RelXchg lockid | Halted

record smp = mach +
  pc :: "nat \<Rightarrow> lpc"
  crit :: "nat \<Rightarrow> lockid set"

abbreviation lk_write :: "lockid \<Rightarrow> (spinlock \<Rightarrow> spinlock) \<Rightarrow> smp \<Rightarrow> smp" where
  "lk_write lk f s \<equiv> s\<lparr>lks := (lks s)(lk := f (lks s lk))\<rparr>"

text \<open>One step of CPU \<open>c\<close>; the locks it takes and the order it takes them in are arbitrary.\<close>

inductive lstep :: "smp \<Rightarrow> smp \<Rightarrow> bool" where
  acq_call: "pc s c = Running \<Longrightarrow> \<not> holding lk (s\<lparr>me := c\<rparr>) \<Longrightarrow>
    lstep s ((pushcli (s\<lparr>me := c\<rparr>))\<lparr>pc := (pc s)(c := AcqSpin lk)\<rparr>)"
| acq_panic: "pc s c = Running \<Longrightarrow> holding lk (s\<lparr>me := c\<rparr>) \<Longrightarrow>
    lstep s ((pushcli (s\<lparr>me := c\<rparr>))\<lparr>pc := (pc s)(c := Halted)\<rparr>)"
| spin: "pc s c = AcqSpin lk \<Longrightarrow> lk_locked (lks s lk) \<Longrightarrow> lstep s s"
| take_lock: "pc s c = AcqSpin lk \<Longrightarrow> \<not> lk_locked (lks s lk) \<Longrightarrow>
    lstep s ((lk_write lk (lk_locked_update (\<lambda>_. True)) s)\<lparr>pc := (pc s)(c := AcqRecord lk)\<rparr>)"
| record_cpu: "pc s c = AcqRecord lk \<Longrightarrow>
    lstep s ((lk_write lk (lk_cpu_update (\<lambda>_. Some c)) s)
      \<lparr>pc := (pc s)(c := Running), crit := (crit s)(c := insert lk (crit s c))\<rparr>)"
| rel_call: "pc s c = Running \<Longrightarrow> holding lk (s\<lparr>me := c\<rparr>) \<Longrightarrow>
    lstep s ((lk_write lk (lk_cpu_update (\<lambda>_. None)) s)
      \<lparr>pc := (pc s)(c := RelXchg lk), crit := (crit s)(c := crit s c - {lk})\<rparr>)"
| rel_panic: "pc s c = Running \<Longrightarrow> \<not> holding lk (s\<lparr>me := c\<rparr>) \<Longrightarrow>
    lstep s (s\<lparr>pc := (pc s)(c := Halted)\<rparr>)"
| rel_xchg: "pc s c = RelXchg lk \<Longrightarrow>
    popcli ((lk_write lk (lk_locked_update (\<lambda>_. False)) s)\<lparr>me := c\<rparr>) = Inr s' \<Longrightarrow>
    lstep s (s'\<lparr>pc := (pc s)(c := Running)\<rparr>)"
| rel_xchg_panic: "pc s c = RelXchg lk \<Longrightarrow>
    popcli ((lk_write lk (lk_locked_update (\<lambda>_. False)) s)\<lparr>me := c\<rparr>) = Inl e \<Longrightarrow>
    lstep s (s\<lparr>pc := (pc s)(c := Halted)\<rparr>)"

text \<open>At boot every lock is free and every CPU runs with interrupts on.\<close>

definition smp_init :: "smp \<Rightarrow> bool" where
  "smp_init s \<longleftrightarrow> (\<forall>lk. lk_free (lks s lk)) \<and>
     (\<forall>c. pc s c = Running \<and> crit s c = {} \<and> ncli (cpus s c) = 0 \<and> iflag (cpus s c))"

inductive smp_reach :: "smp \<Rightarrow> bool" where
  boot: "smp_init s \<Longrightarrow> smp_reach s"
| step: "smp_reach s \<Longrightarrow> lstep s t \<Longrightarrow> smp_reach t"

section \<open>Mutual exclusion\<close>

definition owns :: "smp \<Rightarrow> nat \<Rightarrow> lockid \<Rightarrow> bool" where
  "owns s c lk \<longleftrightarrow> lk \<in> crit s c \<or> pc s c = AcqRecord lk \<or> pc s c = RelXchg lk"

text \<open>
  The invariant of a lock: taken exactly when some CPU owns it, that CPU is the only
  owner, and the recorded CPU is the one in the critical section.
\<close>

definition lock_inv :: "smp \<Rightarrow> bool" where
  "lock_inv s \<longleftrightarrow>
     (\<forall>lk. (\<exists>c. owns s c lk) \<longrightarrow> lk_locked (lks s lk)) \<and>
     (\<forall>lk c d. owns s c lk \<longrightarrow> owns s d lk \<longrightarrow> c = d) \<and>
     (\<forall>lk c. lk_cpu (lks s lk) = Some c \<longleftrightarrow> lk \<in> crit s c) \<and>
     (\<forall>lk c. pc s c = AcqRecord lk \<or> pc s c = RelXchg lk \<longrightarrow> lk \<notin> crit s c)"

text \<open>
  The invariant of a CPU that has not stopped: its \<^verbatim>\<open>pushcli\<close> depth counts the locks it
  is in or moving through, and interrupts are off at every depth above 0 and on at 0.
\<close>

definition moving :: "lpc \<Rightarrow> nat" where
  "moving p = (case p of Running \<Rightarrow> 0 | _ \<Rightarrow> 1)"

definition cpu_inv :: "smp \<Rightarrow> bool" where
  "cpu_inv s \<longleftrightarrow> (\<forall>c. finite (crit s c) \<and> (pc s c \<noteq> Halted \<longrightarrow>
     ncli (cpus s c) = int (card (crit s c) + moving (pc s c)) \<and>
     (0 < ncli (cpus s c) \<longrightarrow> \<not> iflag (cpus s c) \<and> intena (cpus s c)) \<and>
     (ncli (cpus s c) = 0 \<longrightarrow> iflag (cpus s c))))"

lemma lock_inv_init: "smp_init s \<Longrightarrow> lock_inv s"
  by (auto simp: smp_init_def lock_inv_def owns_def lk_free_def)

lemma cpu_inv_init: "smp_init s \<Longrightarrow> cpu_inv s"
  by (auto simp: smp_init_def cpu_inv_def moving_def)

text \<open>
  The write steps of the lock code as updates of \<open>pc\<close>, \<open>crit\<close> and the lock table; the
  CPU table plays no part in \<open>lock_inv\<close>.
\<close>

lemma popcli_frame:
  "popcli s = Inr s' \<Longrightarrow> lks s' = lks s \<and> mach.more s' = mach.more s \<and>
     (\<forall>c. c \<noteq> me s \<longrightarrow> cpus s' c = cpus s c)"
  by (auto simp: popcli_def Let_def split: if_splits)

lemma smp_more: "mach.more s' = mach.more s \<Longrightarrow> pc s' = pc s \<and> crit s' = crit s"
  for s s' :: smp
  by (cases s; cases s') simp

lemma pushcli_smp [simp]: "pc (pushcli s) = pc s" "crit (pushcli s) = crit s" for s :: smp
  using smp_more [of "pushcli s" s] by simp_all

lemma popcli_smp:
  fixes s s' :: smp
  assumes "popcli s = Inr s'"
  shows "lks s' = lks s" "pc s' = pc s" "crit s' = crit s"
    "c \<noteq> me s \<Longrightarrow> cpus s' c = cpus s c"
  using popcli_frame [OF assms] smp_more [of s' s] by auto

lemma lock_inv_step: "lstep s t \<Longrightarrow> lock_inv s \<Longrightarrow> lock_inv t"
proof (induction rule: lstep.induct)
  case (rel_xchg s c lk s')
  note pop = popcli_smp [OF rel_xchg.hyps(2)]
  show ?case using rel_xchg.prems rel_xchg.hyps(1)
    by (auto simp: lock_inv_def owns_def pop split: if_splits)
qed (auto simp: lock_inv_def owns_def holding_def split: if_splits)

lemma moving_simps [simp]:
  "moving Running = 0" "moving (AcqSpin lk) = 1" "moving (AcqRecord lk) = 1"
  "moving (RelXchg lk) = 1"
  by (simp_all add: moving_def)

text \<open>The invariant of one CPU, and the steps of the CPU that moves.\<close>

definition one_cpu_inv :: "cpu \<Rightarrow> lpc \<Rightarrow> lockid set \<Rightarrow> bool" where
  "one_cpu_inv v p L \<longleftrightarrow> finite L \<and> (p \<noteq> Halted \<longrightarrow>
     ncli v = int (card L + moving p) \<and>
     (0 < ncli v \<longrightarrow> \<not> iflag v \<and> intena v) \<and> (ncli v = 0 \<longrightarrow> iflag v))"

lemma cpu_inv_alt: "cpu_inv s \<longleftrightarrow> (\<forall>c. one_cpu_inv (cpus s c) (pc s c) (crit s c))"
  by (simp add: cpu_inv_def one_cpu_inv_def)

lemma one_cpu_pushcli:
  "one_cpu_inv (cpus s c) Running L \<Longrightarrow>
   one_cpu_inv (cpus (pushcli (s\<lparr>me := c\<rparr>)) c) (AcqSpin lk) L"
  using pushcli_this [of "s\<lparr>me := c\<rparr>"] by (auto simp: one_cpu_inv_def)

lemma popcli_ok:
  assumes "one_cpu_inv (cpus s (me s)) (RelXchg lk) L"
  obtains s' where "popcli s = Inr s'" "one_cpu_inv (cpus s' (me s)) Running L"
  using assms by (cases "L = {}") (auto simp: one_cpu_inv_def popcli_def Let_def)

lemma cpu_inv_step:
  assumes "lstep s t" and "lock_inv s" and "cpu_inv s"
  shows "cpu_inv t"
  using assms
proof (induction rule: lstep.induct)
  case (acq_call s c lk)
  then have "one_cpu_inv (cpus s c) Running (crit s c)" by (metis cpu_inv_alt)
  then have "one_cpu_inv (cpus (pushcli (s\<lparr>me := c\<rparr>)) c) (AcqSpin lk) (crit s c)"
    by (rule one_cpu_pushcli)
  then show ?case using acq_call.prems by (auto simp: cpu_inv_alt)
next
  case (acq_panic s c lk)
  then show ?case by (auto simp: cpu_inv_alt one_cpu_inv_def)
next
  case (record_cpu s c lk)
  then have "lk \<notin> crit s c" by (simp add: lock_inv_def)
  then show ?case using record_cpu
    by (auto simp: cpu_inv_alt one_cpu_inv_def dest: spec [of _ c])
next
  case (rel_call s c lk)
  then have "lk \<in> crit s c" by (simp add: lock_inv_def holding_def)
  moreover from rel_call have "finite (crit s c)" by (simp add: cpu_inv_def)
  ultimately have "card (crit s c) = Suc (card (crit s c - {lk}))"
    by (metis card.remove)
  then show ?case using rel_call
    by (auto simp: cpu_inv_alt one_cpu_inv_def dest: spec [of _ c])
next
  case (rel_xchg s c lk s')
  note pop = popcli_smp [OF rel_xchg.hyps(2)]
  let ?s = "(lk_write lk (lk_locked_update (\<lambda>_. False)) s)\<lparr>me := c\<rparr>"
  have "one_cpu_inv (cpus ?s (me ?s)) (RelXchg lk) (crit s c)"
    using rel_xchg by (simp add: cpu_inv_alt) metis
  from popcli_ok [OF this] rel_xchg.hyps(2)
  have "one_cpu_inv (cpus s' c) Running (crit s c)" by force
  then show ?case using rel_xchg.prems pop by (auto simp: cpu_inv_alt)
qed (auto simp: cpu_inv_alt one_cpu_inv_def dest: spec)

lemma smp_reach_inv: "smp_reach s \<Longrightarrow> lock_inv s \<and> cpu_inv s"
proof (induction rule: smp_reach.induct)
  case (boot s)
  then show ?case by (simp add: lock_inv_init cpu_inv_init)
next
  case (step s t)
  then show ?case by (blast intro: lock_inv_step cpu_inv_step)
qed

section \<open>The routines as sequences of steps\<close>

lemma acquire_steps:
  fixes s s' :: smp
  assumes run: "pc s (me s) = Running" and acq: "acquire lk s = Inr s'"
  shows "lstep\<^sup>*\<^sup>* s (s'\<lparr>crit := (crit s)(me s := insert lk (crit s (me s)))\<rparr>)"
proof -
  let ?c = "me s"
  let ?s1 = "(pushcli (s\<lparr>me := ?c\<rparr>))\<lparr>pc := (pc s)(?c := AcqSpin lk)\<rparr>"
  let ?s2 = "(lk_write lk (lk_locked_update (\<lambda>_. True)) ?s1)\<lparr>pc := (pc ?s1)(?c := AcqRecord lk)\<rparr>"
  let ?s3 = "(lk_write lk (lk_cpu_update (\<lambda>_. Some ?c)) ?s2)
      \<lparr>pc := (pc ?s2)(?c := Running), crit := (crit ?s2)(?c := insert lk (crit ?s2 ?c))\<rparr>"
  from acq have free: "\<not> lk_locked (lks s lk)" and s': "s' = locked lk s"
    by (auto simp: acquire_def locked_def Let_def split: if_splits)
  have 1: "lstep s ?s1"
    using lstep.acq_call [of s ?c lk] run free by (simp add: holding_def)
  have 2: "lstep ?s1 ?s2"
    by (rule lstep.take_lock) (use free in auto)
  have 3: "lstep ?s2 ?s3"
    by (rule lstep.record_cpu) simp
  have "?s3 = s'\<lparr>crit := (crit s)(?c := insert lk (crit s ?c))\<rparr>"
    using run by (simp add: s' locked_def set_lk_def pushcli_def set_cpu_def Let_def fun_upd_idem)
  with 1 2 3 show ?thesis by (metis (no_types, lifting) rtranclp.simps)
qed

lemma release_steps:
  fixes s s' :: smp
  assumes run: "pc s (me s) = Running" and rel: "release lk s = Inr s'"
  shows "lstep\<^sup>*\<^sup>* s (s'\<lparr>crit := (crit s)(me s := crit s (me s) - {lk})\<rparr>)"
proof -
  let ?c = "me s"
  let ?s1 = "(lk_write lk (lk_cpu_update (\<lambda>_. None)) s)
      \<lparr>pc := (pc s)(?c := RelXchg lk), crit := (crit s)(?c := crit s ?c - {lk})\<rparr>"
  let ?u = "set_lk lk ((lks s lk)\<lparr>lk_cpu := None, lk_locked := False\<rparr>) s"
  let ?w = "(lk_write lk (lk_locked_update (\<lambda>_. False)) ?s1)\<lparr>me := ?c\<rparr>"
  from rel have hold: "holding lk s" and pop: "popcli ?u = Inr s'"
    by (auto simp: release_def split: if_splits)
  have 1: "lstep s ?s1"
    using lstep.rel_call [of s ?c lk] run hold by simp
  have w: "?w = ?u\<lparr>pc := pc ?s1, crit := crit ?s1\<rparr>"
    by (simp add: set_lk_def)
  have popw: "popcli ?w = Inr (s'\<lparr>pc := pc ?s1, crit := crit ?s1\<rparr>)"
    using pop unfolding w by (auto simp: popcli_def Let_def set_cpu_def split: if_splits)
  have "lstep ?s1 ((s'\<lparr>pc := pc ?s1, crit := crit ?s1\<rparr>)\<lparr>pc := (pc ?s1)(?c := Running)\<rparr>)"
    by (rule lstep.rel_xchg [OF _ popw]) simp
  moreover have "pc s' = pc s"
    using popcli_smp (2) [OF pop] by (simp add: set_lk_def)
  then have "s'\<lparr>crit := K, pc := pc s\<rparr> = s'\<lparr>crit := K\<rparr>" for K
    by (cases s') simp
  ultimately have "lstep ?s1 (s'\<lparr>crit := (crit s)(?c := crit s ?c - {lk})\<rparr>)"
    using run by (simp add: fun_upd_idem)
  with 1 show ?thesis by (metis (no_types, lifting) rtranclp.simps)
qed

section \<open>Properties\<close>

text \<open>
  Claim C1.  Mutual exclusion: in every state the CPUs of the machine can reach,
  whichever locks they acquire and release in whatever order and interleaving, no two
  CPUs are in the critical section of the same lock.
\<close>

theorem spinlock_mutual_exclusion:
  assumes "smp_reach s" and "lk \<in> crit s c" and "lk \<in> crit s d"
  shows "c = d"
  using smp_reach_inv [OF assms(1)] assms(2,3) by (auto simp: lock_inv_def owns_def)

definition smp_boot :: smp where
  "smp_boot = \<lparr>cpus = (\<lambda>_. \<lparr>ncli = 0, intena = False, iflag = True, cproc = None,
       ts_esp0 = 0, cr3 = 0\<rparr>),
     lks = (\<lambda>_. \<lparr>lk_locked = False, lk_name = ''kmem'', lk_cpu = None\<rparr>), me = 0,
     pc = (\<lambda>_. Running), crit = (\<lambda>_. {})\<rparr>"

lemma smp_boot_reach: "smp_reach smp_boot"
  by (rule smp_reach.boot) (simp add: smp_boot_def smp_init_def lk_free_def)

text \<open>A reachable state: CPU 0 has acquired the lock of the page allocator.\<close>

definition smp_one :: smp where
  "smp_one = (locked KmemLk smp_boot)\<lparr>crit := (\<lambda>_. {})(0 := {KmemLk})\<rparr>"

lemma smp_reach_steps: "lstep\<^sup>*\<^sup>* s t \<Longrightarrow> smp_reach s \<Longrightarrow> smp_reach t"
  by (induction rule: rtranclp_induct) (auto intro: smp_reach.step)

lemma smp_one_reach: "smp_reach smp_one"
proof -
  have "acquire KmemLk smp_boot = Inr (locked KmemLk smp_boot)"
    by (rule acquire_free) (simp add: smp_boot_def lk_free_def)
  from acquire_steps [OF _ this]
  have "lstep\<^sup>*\<^sup>* smp_boot smp_one"
    by (simp add: smp_one_def smp_boot_def)
  then show ?thesis using smp_boot_reach by (rule smp_reach_steps)
qed

theorem spinlock_mutual_exclusion_witness:
  "KmemLk \<in> crit smp_one 0 \<and> KmemLk \<notin> crit smp_one 1"
  using spinlock_mutual_exclusion [OF smp_one_reach, of KmemLk 0 1] by (auto simp: smp_one_def)

text \<open>
  Nesting of \<^verbatim>\<open>pushcli\<close>: on every CPU that has not panicked the depth
  \<^verbatim>\<open>ncli\<close> is the number of locks it holds or is moving through, interrupts are off
  whenever that is not 0, and on again whenever it is 0.
\<close>

theorem spinlock_interrupts_nested:
  assumes "smp_reach s" and "pc s c \<noteq> Halted"
  shows "finite (crit s c) \<and> ncli (cpus s c) = int (card (crit s c) + moving (pc s c)) \<and>
    iflag (cpus s c) = (crit s c = {} \<and> pc s c = Running)"
proof -
  have inv: "one_cpu_inv (cpus s c) (pc s c) (crit s c)"
    using smp_reach_inv [OF assms(1)] by (simp add: cpu_inv_alt)
  then have "(ncli (cpus s c) = 0) = (crit s c = {} \<and> pc s c = Running)"
    using assms(2) by (cases "pc s c") (auto simp: one_cpu_inv_def)
  moreover have "iflag (cpus s c) = (ncli (cpus s c) = 0)"
    using inv assms(2) by (cases "ncli (cpus s c) = 0") (auto simp: one_cpu_inv_def)
  ultimately show ?thesis using inv assms(2) by (simp add: one_cpu_inv_def)
qed

theorem spinlock_interrupts_nested_witness:
  "ncli (cpus smp_one 0) = 1 \<and> \<not> iflag (cpus smp_one 0)"
proof -
  have "pc smp_one 0 \<noteq> Halted" and "pc smp_one 0 = Running"
    by (simp_all add: smp_one_def smp_boot_def locked_def set_lk_def pushcli_def set_cpu_def Let_def)
  with spinlock_interrupts_nested [OF smp_one_reach this(1)] show ?thesis
    by (simp add: smp_one_def)
qed

text \<open>
  Claim C21.  The one-CPU routines are what the interleaved steps do when no other CPU
  moves: a normal return of \<^verbatim>\<open>acquire\<close> or \<^verbatim>\<open>release\<close> is a sequence of steps from the
  state before to the state after, entering or leaving the critical section.
\<close>

theorem spinlock_calls_are_steps:
  fixes s s' :: smp
  assumes "pc s (me s) = Running"
  shows "(acquire lk s = Inr s' \<longrightarrow>
       lstep\<^sup>*\<^sup>* s (s'\<lparr>crit := (crit s)(me s := insert lk (crit s (me s)))\<rparr>)) \<and>
     (release lk s = Inr s' \<longrightarrow>
       lstep\<^sup>*\<^sup>* s (s'\<lparr>crit := (crit s)(me s := crit s (me s) - {lk})\<rparr>))"
  using acquire_steps [OF assms] release_steps [OF assms] by blast

theorem spinlock_calls_are_steps_witness:
  "lstep\<^sup>*\<^sup>* smp_boot ((locked KmemLk smp_boot)\<lparr>crit := (\<lambda>_. {})(0 := {KmemLk})\<rparr>)"
proof -
  have "acquire KmemLk smp_boot = Inr (locked KmemLk smp_boot)"
    by (rule acquire_free) (simp add: smp_boot_def lk_free_def)
  moreover have "pc smp_boot (me smp_boot) = Running" by (simp add: smp_boot_def)
  ultimately have "lstep\<^sup>*\<^sup>* smp_boot ((locked KmemLk smp_boot)
      \<lparr>crit := (crit smp_boot)(me smp_boot := insert KmemLk (crit smp_boot (me smp_boot)))\<rparr>)"
    using spinlock_calls_are_steps by blast
  then show ?thesis by (simp add: smp_boot_def)
qed

end
