(* ===== verification/XvString.thy ===== *)
theory XvString
  imports Prelude
begin

text \<open>
  The memory and string routines of the kernel (\<^verbatim>\<open>kernel/string.c\<close>) over byte
  memory.  Pointers are byte indices; a loop that counts \<open>n\<close> down is a recursion on
  the number of iterations left; every routine returns the pointer the C code returns
  together with the new memory.  The lemmas give each routine its closed form: which
  bytes it writes, with what, and that it writes nothing else.
\<close>

section \<open>Filling and copying\<close>

text \<open>\<^verbatim>\<open>stosb\<close>: the \<^verbatim>\<open>rep stosb\<close> instruction, one byte per iteration.\<close>

fun stosb :: "bmem \<Rightarrow> nat \<Rightarrow> byte \<Rightarrow> nat \<Rightarrow> bmem" where
  "stosb m dst c 0 = m"
| "stosb m dst c (Suc n) = stosb (m(dst := c)) (dst + 1) c n"

definition memset :: "bmem \<Rightarrow> nat \<Rightarrow> uint \<Rightarrow> nat \<Rightarrow> nat \<times> bmem" where
  "memset m dst c n = (dst, stosb m dst (ucast c) n)"

fun memcmp :: "bmem \<Rightarrow> nat \<Rightarrow> nat \<Rightarrow> nat \<Rightarrow> int" where
  "memcmp m s1 s2 0 = 0"
| "memcmp m s1 s2 (Suc n) =
     (if m s1 \<noteq> m s2 then uint (m s1) - uint (m s2) else memcmp m (s1 + 1) (s2 + 1) n)"

text \<open>The two copying loops of \<^verbatim>\<open>memmove\<close>: \<^verbatim>\<open>*d++ = *s++\<close> and \<^verbatim>\<open>*--d = *--s\<close>.\<close>

fun copy_up :: "bmem \<Rightarrow> nat \<Rightarrow> nat \<Rightarrow> nat \<Rightarrow> bmem" where
  "copy_up m d s 0 = m"
| "copy_up m d s (Suc n) = copy_up (m(d := m s)) (d + 1) (s + 1) n"

fun copy_down :: "bmem \<Rightarrow> nat \<Rightarrow> nat \<Rightarrow> nat \<Rightarrow> bmem" where
  "copy_down m d s 0 = m"
| "copy_down m d s (Suc n) = copy_down (m(d - 1 := m (s - 1))) (d - 1) (s - 1) n"

definition memmove :: "bmem \<Rightarrow> nat \<Rightarrow> nat \<Rightarrow> nat \<Rightarrow> nat \<times> bmem" where
  "memmove m dst src n =
     (if src < dst \<and> src + n > dst
      then (dst, copy_down m (dst + n) (src + n) n)
      else (dst, copy_up m dst src n))"

definition memcpy :: "bmem \<Rightarrow> nat \<Rightarrow> nat \<Rightarrow> nat \<Rightarrow> nat \<times> bmem" where
  "memcpy m dst src n = memmove m dst src n"

section \<open>Strings\<close>

fun strncmp :: "bmem \<Rightarrow> nat \<Rightarrow> nat \<Rightarrow> nat \<Rightarrow> int" where
  "strncmp m p q 0 = 0"
| "strncmp m p q (Suc n) =
     (if m p \<noteq> 0 \<and> m p = m q then strncmp m (p + 1) (q + 1) n
      else uint (m p) - uint (m q))"

text \<open>
  \<^verbatim>\<open>strncpy\<close> has a copying loop, left at a NUL byte, and a padding loop that writes
  NUL bytes over what is left of the field.
\<close>

fun strncpy_pad :: "bmem \<Rightarrow> nat \<Rightarrow> nat \<Rightarrow> bmem" where
  "strncpy_pad m s 0 = m"
| "strncpy_pad m s (Suc n) = strncpy_pad (m(s := 0)) (s + 1) n"

fun strncpy_copy :: "bmem \<Rightarrow> nat \<Rightarrow> nat \<Rightarrow> nat \<Rightarrow> bmem" where
  "strncpy_copy m s t 0 = m"
| "strncpy_copy m s t (Suc n) =
     (if m t \<noteq> 0 then strncpy_copy (m(s := m t)) (s + 1) (t + 1) n
      else strncpy_pad (m(s := m t)) (s + 1) n)"

definition strncpy :: "bmem \<Rightarrow> nat \<Rightarrow> nat \<Rightarrow> int \<Rightarrow> nat \<times> bmem" where
  "strncpy m s t n = (s, strncpy_copy m s t (nat n))"

text \<open>The loop of \<^verbatim>\<open>safestrcpy\<close>, with \<open>n\<close> the bytes it may still copy, and the final NUL.\<close>

fun safestrcpy_loop :: "bmem \<Rightarrow> nat \<Rightarrow> nat \<Rightarrow> nat \<Rightarrow> bmem" where
  "safestrcpy_loop m s t 0 = m(s := 0)"
| "safestrcpy_loop m s t (Suc n) =
     (if m t \<noteq> 0 then safestrcpy_loop (m(s := m t)) (s + 1) (t + 1) n
      else (m(s := m t))(s + 1 := 0))"

definition safestrcpy :: "bmem \<Rightarrow> nat \<Rightarrow> nat \<Rightarrow> int \<Rightarrow> nat \<times> bmem" where
  "safestrcpy m s t n =
     (if n \<le> 0 then (s, m) else (s, safestrcpy_loop m s t (nat (n - 1))))"

text \<open>\<^verbatim>\<open>strlen\<close> scans until a NUL byte; without one it does not return.\<close>

partial_function (option) strlen_from :: "bmem \<Rightarrow> nat \<Rightarrow> nat \<Rightarrow> nat option" where
  "strlen_from m s n = (if m (s + n) = 0 then Some n else strlen_from m s (Suc n))"

definition strlen :: "bmem \<Rightarrow> nat \<Rightarrow> nat option" where
  "strlen m s = strlen_from m s 0"

section \<open>Closed forms\<close>

lemma stosb_eq: "stosb m dst c n a = (if dst \<le> a \<and> a < dst + n then c else m a)"
  by (induction n arbitrary: m dst) auto

lemma strncpy_pad_eq: "strncpy_pad m s n a = (if s \<le> a \<and> a < s + n then 0 else m a)"
  by (induction n arbitrary: m s) auto

lemma copy_up_eq:
  "d \<le> s \<or> s + n \<le> d \<Longrightarrow>
   copy_up m d s n a = (if d \<le> a \<and> a < d + n then m (s + (a - d)) else m a)"
proof (induction n arbitrary: m d s)
  case 0
  then show ?case by auto
next
  case (Suc n)
  have "copy_up m d s (Suc n) a = (if d + 1 \<le> a \<and> a < d + 1 + n
      then (m(d := m s)) (s + 1 + (a - (d + 1))) else (m(d := m s)) a)"
    using Suc.prems by (subst copy_up.simps, subst Suc.IH) auto
  also have "\<dots> = (if d \<le> a \<and> a < d + Suc n then m (s + (a - d)) else m a)"
    using Suc.prems by (auto simp: Suc_diff_Suc)
  finally show ?case .
qed

lemma copy_down_eq:
  "n \<le> d \<Longrightarrow> n \<le> s \<Longrightarrow> s \<le> d \<Longrightarrow>
   copy_down m d s n a = (if d - n \<le> a \<and> a < d then m (s - n + (a - (d - n))) else m a)"
proof (induction n arbitrary: m d s)
  case 0
  then show ?case by auto
next
  case (Suc n)
  have IH: "copy_down m d s (Suc n) a = (if d - 1 - n \<le> a \<and> a < d - 1
      then (m(d - 1 := m (s - 1))) (s - 1 - n + (a - (d - 1 - n)))
      else (m(d - 1 := m (s - 1))) a)"
    using Suc.prems by (subst copy_down.simps, subst Suc.IH) auto
  consider "a < d - Suc n" | "d - Suc n \<le> a" "a < d - 1" | "a = d - 1" | "d \<le> a"
    using Suc.prems by linarith
  then show ?case unfolding IH using Suc.prems by cases auto
qed

text \<open>
  \<^verbatim>\<open>memmove\<close> picks the direction that reads every source byte before it is
  overwritten, so overlap never shows.
\<close>

lemma memmove_eq:
  "snd (memmove m dst src n) a =
     (if dst \<le> a \<and> a < dst + n then m (src + (a - dst)) else m a)"
proof (cases "src < dst \<and> src + n > dst")
  case True
  then show ?thesis by (simp add: memmove_def copy_down_eq)
next
  case False
  then have "dst \<le> src \<or> src + n \<le> dst" by linarith
  then have "copy_up m dst src n a = (if dst \<le> a \<and> a < dst + n then m (src + (a - dst)) else m a)"
    by (rule copy_up_eq)
  with False show ?thesis by (simp only: memmove_def if_False snd_conv)
qed

section \<open>Comparing strings\<close>

lemma strncmp_eq_0_iff:
  "strncmp m p q n = 0 \<longleftrightarrow> (\<forall>i<n. (\<forall>j<i. m (p + j) \<noteq> 0) \<longrightarrow> m (p + i) = m (q + i))"
proof (induction n arbitrary: p q)
  case 0
  then show ?case by simp
next
  case (Suc n)
  show ?case
    using Suc.IH [of "p + 1" "q + 1"]
    by (auto simp: All_less_Suc2 word_uint_eq_iff [symmetric])
qed

lemma memcmp_eq_0_iff: "memcmp m p q n = 0 \<longleftrightarrow> (\<forall>i<n. m (p + i) = m (q + i))"
proof (induction n arbitrary: p q)
  case 0
  then show ?case by simp
next
  case (Suc n)
  show ?case
    using Suc.IH [of "p + 1" "q + 1"]
    by (auto simp: All_less_Suc2 word_uint_eq_iff [symmetric])
qed

section \<open>Copying strings\<close>

lemma strncpy_copy_frame: "a < s \<or> s + n \<le> a \<Longrightarrow> strncpy_copy m s t n a = m a"
  by (induction n arbitrary: m s t) (auto simp: strncpy_pad_eq)

lemma strncpy_copy_in:
  "s + n \<le> t \<or> t + n \<le> s \<Longrightarrow> i < n \<Longrightarrow>
   strncpy_copy m s t n (s + i) = (if \<exists>j<i. m (t + j) = 0 then 0 else m (t + i))"
proof (induction n arbitrary: m s t i)
  case 0
  then show ?case by simp
next
  case (Suc n)
  show ?case
  proof (cases i)
    case 0
    then show ?thesis by (simp add: strncpy_copy_frame strncpy_pad_eq)
  next
    case (Suc k)
    show ?thesis
    proof (cases "m t = 0")
      case True
      moreover have "\<exists>j<i. m (t + j) = 0" using True Suc by (intro exI [of _ 0]) simp
      ultimately show ?thesis using Suc Suc.prems by (simp add: strncpy_pad_eq)
    next
      case False
      have same: "(m(s := m t)) (t + 1 + j) = m (t + Suc j)" if "j \<le> k" for j
        using that Suc Suc.prems by auto
      have "strncpy_copy (m(s := m t)) (s + 1) (t + 1) n (s + 1 + k) =
          (if \<exists>j<k. (m(s := m t)) (t + 1 + j) = 0 then 0 else (m(s := m t)) (t + 1 + k))"
        using Suc Suc.prems by (intro Suc.IH) auto
      also have "\<dots> = (if \<exists>j<k. m (t + Suc j) = 0 then 0 else m (t + Suc k))"
        using same by (metis le_refl less_imp_le)
      finally show ?thesis using False Suc by (auto simp: Ex_less_Suc2)
    qed
  qed
qed

lemma safestrcpy_loop_copies:
  "s + n < t \<or> t + n \<le> s \<Longrightarrow> i < n \<Longrightarrow> \<forall>j<i. m (t + j) \<noteq> 0 \<Longrightarrow>
   safestrcpy_loop m s t n (s + i) = m (t + i)"
proof (induction n arbitrary: m s t i)
  case 0
  then show ?case by simp
next
  case (Suc n)
  have frame: "safestrcpy_loop m' (s + 1) t' n' s = m' s" for m' t' n'
  proof -
    have "a < s'' \<Longrightarrow> safestrcpy_loop m' s'' t' n' a = m' a" for a s''
      by (induction n' arbitrary: m' s'' t') auto
    then show ?thesis by simp
  qed
  show ?case
  proof (cases i)
    case 0
    then show ?thesis using frame by auto
  next
    case (Suc k)
    with Suc.prems have nz: "m t \<noteq> 0" by (auto dest: spec [of _ 0])
    have "safestrcpy_loop (m(s := m t)) (s + 1) (t + 1) n (s + 1 + k) = (m(s := m t)) (t + 1 + k)"
    proof (rule Suc.IH)
      show "s + 1 + n < t + 1 \<or> t + 1 + n \<le> s + 1" using Suc.prems by auto
      show "k < n" using Suc.prems Suc by simp
      show "\<forall>j<k. (m(s := m t)) (t + 1 + j) \<noteq> 0"
        using Suc.prems Suc nz by auto
    qed
    moreover have "t + 1 + k \<noteq> s" using Suc.prems Suc by auto
    ultimately show ?thesis using nz Suc by simp
  qed
qed

lemma safestrcpy_loop_terminated: "\<exists>k\<le>n. safestrcpy_loop m s t n (s + k) = 0"
proof (induction n arbitrary: m s t)
  case 0
  then show ?case by simp
next
  case (Suc n)
  show ?case
  proof (cases "m t = 0")
    case True
    then show ?thesis by (intro exI [of _ 1]) auto
  next
    case False
    obtain k where "k \<le> n" "safestrcpy_loop (m(s := m t)) (s + 1) (t + 1) n (s + 1 + k) = 0"
      using Suc.IH by blast
    then show ?thesis using False by (intro exI [of _ "Suc k"]) auto
  qed
qed

lemma safestrcpy_loop_frame:
  "a < s \<or> s + n < a \<Longrightarrow> safestrcpy_loop m s t n a = m a"
  by (induction n arbitrary: m s t) auto

section \<open>Length\<close>

lemma strlen_from_skip:
  "\<forall>j<k. m (s + n + j) \<noteq> 0 \<Longrightarrow> strlen_from m s n = strlen_from m s (n + k)"
proof (induction k arbitrary: n)
  case 0
  then show ?case by simp
next
  case (Suc k)
  have "m (s + n) \<noteq> 0" using Suc.prems by (auto dest: spec [of _ 0])
  then have "strlen_from m s n = strlen_from m s (Suc n)"
    by (subst strlen_from.simps) simp
  also have "\<dots> = strlen_from m s (Suc n + k)"
    using Suc.prems by (intro Suc.IH) (auto dest: spec [of _ "Suc _"])
  finally show ?case by simp
qed

lemma strlen_from_Some:
  assumes "strlen_from m s n = Some k"
  shows "n \<le> k \<and> m (s + k) = 0 \<and> (\<forall>j. n \<le> j \<and> j < k \<longrightarrow> m (s + j) \<noteq> 0)"
proof (rule strlen_from.raw_induct [OF _ assms])
  fix f m s n r
  assume IH: "\<And>m s n r. f m s n = Some r \<Longrightarrow>
      n \<le> r \<and> m (s + r) = 0 \<and> (\<forall>j. n \<le> j \<and> j < r \<longrightarrow> m (s + j) \<noteq> 0)"
    and eq: "(if m (s + n) = 0 then Some n else f m s (Suc n)) = Some r"
  show "n \<le> r \<and> m (s + r) = 0 \<and> (\<forall>j. n \<le> j \<and> j < r \<longrightarrow> m (s + j) \<noteq> 0)"
  proof (cases "m (s + n) = 0")
    case True
    with eq show ?thesis by auto
  next
    case False
    with eq have "f m s (Suc n) = Some r" by simp
    from IH [OF this] False show ?thesis
      by (metis Suc_leD Suc_leI le_neq_implies_less)
  qed
qed

lemma strlen_Some_iff:
  "strlen m s = Some k \<longleftrightarrow> m (s + k) = 0 \<and> (\<forall>j<k. m (s + j) \<noteq> 0)"
proof
  assume "strlen m s = Some k"
  then show "m (s + k) = 0 \<and> (\<forall>j<k. m (s + j) \<noteq> 0)"
    using strlen_from_Some [of m s 0 k] by (auto simp: strlen_def)
next
  assume h: "m (s + k) = 0 \<and> (\<forall>j<k. m (s + j) \<noteq> 0)"
  then have "strlen_from m s 0 = strlen_from m s k"
    using strlen_from_skip [of k m s 0] by simp
  also have "\<dots> = Some k" using h by (subst strlen_from.simps) simp
  finally show "strlen m s = Some k" by (simp add: strlen_def)
qed

section \<open>Properties\<close>

text \<open>
  \<^verbatim>\<open>memmove\<close> moves the source field as it was before the call, for every
  placement of the two fields, overlapping or not: byte \<open>a\<close> of the destination field
  is the old byte at the same offset of the source, and no other byte changes.
\<close>

theorem memmove_moves_old_field:
  "fst (memmove m dst src n) = dst \<and>
   snd (memmove m dst src n) =
     (\<lambda>a. if dst \<le> a \<and> a < dst + n then m (src + (a - dst)) else m a)"
  by (auto simp: fun_eq_iff memmove_eq) (simp add: memmove_def)

text \<open>
  \<^verbatim>\<open>safestrcpy\<close> into a field of \<open>n > 0\<close> bytes that does not overlap its
  source keeps the longest prefix that fits, always leaves a NUL inside the field, and
  writes nothing outside it.
\<close>

theorem safestrcpy_terminates_in_field:
  assumes "0 < n" and "s + nat n \<le> t \<or> t + nat n \<le> s"
  shows "let m' = snd (safestrcpy m s t n) in
     (\<exists>k<nat n. m' (s + k) = 0) \<and>
     (\<forall>i<nat n - 1. (\<forall>j<i. m (t + j) \<noteq> 0) \<longrightarrow> m' (s + i) = m (t + i)) \<and>
     (\<forall>a. a < s \<or> s + nat n \<le> a \<longrightarrow> m' a = m a)"
proof -
  define k where "k = nat (n - 1)"
  have k: "nat n = Suc k" using assms(1) by (simp add: k_def)
  let ?m = "safestrcpy_loop m s t k"
  have m': "snd (safestrcpy m s t n) = ?m"
    using assms(1) by (simp add: k_def safestrcpy_def)
  have "\<exists>z<nat n. ?m (s + z) = 0"
    using safestrcpy_loop_terminated [of k m s t] k by (auto simp: less_Suc_eq_le)
  moreover have "\<forall>i<nat n - 1. (\<forall>j<i. m (t + j) \<noteq> 0) \<longrightarrow> ?m (s + i) = m (t + i)"
    using assms(2) k by (auto intro!: safestrcpy_loop_copies)
  moreover have "\<forall>a. a < s \<or> s + nat n \<le> a \<longrightarrow> ?m a = m a"
    using k by (auto intro!: safestrcpy_loop_frame)
  ultimately show ?thesis by (simp add: m' Let_def)
qed

theorem safestrcpy_terminates_in_field_witness:
  "(\<exists>k<4. snd (safestrcpy (\<lambda>_. 65) 10 0 4) (10 + k) = 0) \<and>
   snd (safestrcpy (\<lambda>_. 65) 10 0 4) 14 = 65"
  using safestrcpy_terminates_in_field [of 4 10 0 "\<lambda>_. 65"] by (simp add: Let_def)

text \<open>
  \<^verbatim>\<open>strncmp\<close> returns 0 exactly when the two strings agree up to and
  including the first NUL, or on the first \<open>n\<close> bytes when there is none among them.
\<close>

theorem strncmp_zero_iff_equal_prefix:
  "strncmp m p q n = 0 \<longleftrightarrow> (\<forall>i<n. (\<forall>j<i. m (p + j) \<noteq> 0) \<longrightarrow> m (p + i) = m (q + i))"
  by (rule strncmp_eq_0_iff)

theorem strncmp_zero_iff_equal_prefix_witness:
  "strncmp (\<lambda>a. if a = 1 \<or> a = 11 then 0 else if a < 20 then 7 else 9) 0 10 14 = 0 \<and>
   strncmp (\<lambda>a. if a = 1 \<or> a = 11 then 0 else if a < 20 then 7 else 9) 0 20 14 \<noteq> 0"
proof -
  let ?m = "\<lambda>a::nat. if a = 1 \<or> a = 11 then 0 else if a < 20 then 7 else (9 :: byte)"
  have "?m (0 + i) = ?m (10 + i)" if "\<forall>j<i. ?m (0 + j) \<noteq> 0" for i
    using that by (cases i; cases "i = 1") (auto dest: spec [of _ 1])
  then have "strncmp ?m 0 10 14 = 0"
    unfolding strncmp_zero_iff_equal_prefix by blast
  moreover have "strncmp ?m 0 20 14 \<noteq> 0"
    unfolding strncmp_zero_iff_equal_prefix by (auto intro!: exI [of _ 0])
  ultimately show ?thesis by blast
qed

end
