(* ===== verification/Kalloc.thy ===== *)
theory Kalloc
  imports Spinlock Memory XvString
begin

text \<open>
  The physical page allocator (\<^verbatim>\<open>kernel/kalloc.c\<close>).  Its free list is threaded through
  the free pages themselves: the first word of a free page is the address of the next
  one.  The state is the physical memory, the head of the list, two addresses the
  linker fixes (\<^verbatim>\<open>data\<close>, the start of the kernel's data, and \<^verbatim>\<open>end\<close>, the first byte
  after the kernel) and the kernel's own page directory \<^verbatim>\<open>kpgdir\<close> of
  \<^verbatim>\<open>kernel/vm.c\<close>.
\<close>

section \<open>State and operations\<close>

record physmem =
  ram :: bmem
  freelist :: nat
  kernel_data :: nat
  kernel_end :: nat
  kpgdir :: nat

record kphys = mach +
  phys :: physmem

definition PHYSTOP :: nat where
  "PHYSTOP = 0x1000000"

definition kfree :: "nat \<Rightarrow> 'a kphys_scheme \<Rightarrow> kerr + 'a kphys_scheme" where
  "kfree v s =
     (if v mod PGSIZE \<noteq> 0 \<or> v < kernel_end (phys s) \<or> v \<ge> PHYSTOP then Inl (Panic ''kfree'')
      else
        let s1 = s\<lparr>phys := (phys s)\<lparr>ram := snd (memset (ram (phys s)) v 1 PGSIZE)\<rparr>\<rparr> in
        bindR (acquire KmemLk s1) (\<lambda>s2.
        let p = phys s2;
            s3 = s2\<lparr>phys := p\<lparr>ram := store32 (ram p) v (of_nat (freelist p)), freelist := v\<rparr>\<rparr>
        in release KmemLk s3))"

definition kalloc :: "'a kphys_scheme \<Rightarrow> kerr + nat \<times> 'a kphys_scheme" where
  "kalloc s =
     bindR (acquire KmemLk s) (\<lambda>s1.
     let p = phys s1; r = freelist p;
         s2 = (if r \<noteq> 0 then s1\<lparr>phys := p\<lparr>freelist := unat (load32 (ram p) r)\<rparr>\<rparr> else s1)
     in bindR (release KmemLk s2) (\<lambda>s3. Inr (r, s3)))"

text \<open>The loop of \<^verbatim>\<open>kinit\<close>, freeing page after page up to \<^verbatim>\<open>PHYSTOP\<close>.\<close>

function kinit_loop :: "nat \<Rightarrow> 'a kphys_scheme \<Rightarrow> kerr + 'a kphys_scheme" where
  "kinit_loop p s =
     (if p + PGSIZE \<le> PHYSTOP then bindR (kfree p s) (kinit_loop (p + PGSIZE)) else Inr s)"
  by pat_completeness auto
termination
  by (relation "measure (\<lambda>(p, s). PHYSTOP - p)") (auto simp: PGSIZE_def)

declare kinit_loop.simps [simp del]

definition kinit :: "'a kphys_scheme \<Rightarrow> kerr + 'a kphys_scheme" where
  "kinit s =
     (let s1 = initlock KmemLk ''kmem'' s
      in kinit_loop (unat (PGROUNDUP (of_nat (kernel_end (phys s1))))) s1)"

section \<open>The field \<open>phys\<close> and the lock routines\<close>

lemma phys_lock [simp]:
  "phys (set_cpu c s) = phys s" "phys (set_lk lk l s) = phys s"
  "phys (pushcli s) = phys s" "phys (locked lk s) = phys s" "phys (quiet s) = phys s"
  "phys (initlock lk nm s) = phys s"
  by (simp_all add: set_cpu_def set_lk_def pushcli_def locked_def quiet_def initlock_def Let_def)

lemma phys_upd_lock [simp]:
  "set_cpu c (s\<lparr>phys := p\<rparr>) = (set_cpu c s)\<lparr>phys := p\<rparr>"
  "set_lk lk l (s\<lparr>phys := p\<rparr>) = (set_lk lk l s)\<lparr>phys := p\<rparr>"
  "pushcli (s\<lparr>phys := p\<rparr>) = (pushcli s)\<lparr>phys := p\<rparr>"
  "locked lk (s\<lparr>phys := p\<rparr>) = (locked lk s)\<lparr>phys := p\<rparr>"
  "quiet (s\<lparr>phys := p\<rparr>) = (quiet s)\<lparr>phys := p\<rparr>"
  "cli_ok (s\<lparr>phys := p\<rparr>) = cli_ok s"
  by (simp_all add: set_cpu_def set_lk_def pushcli_def locked_def quiet_def cli_ok_def Let_def)

lemma release_phys [simp]:
  "release lk (s\<lparr>phys := p\<rparr>) = map_sum id (\<lambda>s. s\<lparr>phys := p\<rparr>) (release lk s)"
  by (simp add: release_def holding_def popcli_def set_lk_def set_cpu_def Let_def)

section \<open>The free list\<close>

text \<open>\<open>on_list m p ps\<close>: the pages from \<open>p\<close> on, following the links in memory, are \<open>ps\<close>.\<close>

primrec on_list :: "bmem \<Rightarrow> nat \<Rightarrow> nat list \<Rightarrow> bool" where
  "on_list m p [] \<longleftrightarrow> p = 0"
| "on_list m p (a # as) \<longleftrightarrow> p = a \<and> p \<noteq> 0 \<and> on_list m (unat (load32 m p)) as"

definition page_ok :: "nat \<Rightarrow> nat \<Rightarrow> bool" where
  "page_ok kend p \<longleftrightarrow> p mod PGSIZE = 0 \<and> kend \<le> p \<and> p < PHYSTOP"

definition free_list :: "physmem \<Rightarrow> nat list \<Rightarrow> bool" where
  "free_list p ps \<longleftrightarrow> on_list (ram p) (freelist p) ps \<and> distinct ps \<and>
     (\<forall>a\<in>set ps. page_ok (kernel_end p) a) \<and> 0 < kernel_end p"

text \<open>Pages are disjoint: a write inside one does not reach the first word of another.\<close>

lemma page_apart:
  assumes "a mod PGSIZE = 0" "b mod PGSIZE = 0" "a \<noteq> b" "a \<le> x" "x < a + PGSIZE"
  shows "x < b \<or> b + 4 \<le> x"
proof -
  obtain i j where "a = 4096 * i" "b = 4096 * j"
    using assms(1,2) by (metis PGSIZE_def dvdE mod_eq_0_iff_dvd)
  with assms(3-5) show ?thesis by (auto simp: PGSIZE_def)
qed

lemma on_list_cong:
  "(\<And>a x. a \<in> set ps \<Longrightarrow> a \<le> x \<Longrightarrow> x < a + 4 \<Longrightarrow> m x = m' x) \<Longrightarrow> on_list m p ps = on_list m' p ps"
proof (induction ps arbitrary: p)
  case Nil
  then show ?case by simp
next
  case (Cons a ps)
  have "load32 m a = load32 m' a"
    by (rule load32_cong) (rule Cons.prems [of a], simp_all)
  moreover have "on_list m q ps = on_list m' q ps" for q
    by (rule Cons.IH) (rule Cons.prems, simp_all)
  ultimately show ?case by (cases "p = a") simp_all
qed

lemma on_list_unique: "on_list m p ps \<Longrightarrow> on_list m p qs \<Longrightarrow> ps = qs"
proof (induction ps arbitrary: p qs)
  case Nil
  then show ?case by (cases qs) auto
next
  case (Cons a ps)
  then show ?case by (cases qs) auto
qed

section \<open>Closed forms\<close>

definition kfreed :: "nat \<Rightarrow> physmem \<Rightarrow> physmem" where
  "kfreed v p = p\<lparr>ram := store32 (stosb (ram p) v 1 PGSIZE) v (of_nat (freelist p)), freelist := v\<rparr>"

lemma kfree_eq:
  assumes "cli_ok s" and "lk_free (lks s KmemLk)" and "page_ok (kernel_end (phys s)) v"
  shows "kfree v s = Inr ((quiet s)\<lparr>phys := kfreed v (phys s)\<rparr>)"
  using assms
  by (simp add: kfree_def page_ok_def memset_def acquire_free release_locked Let_def kfreed_def)

lemma kfree_panics:
  "\<not> page_ok (kernel_end (phys s)) v \<Longrightarrow> kfree v s = Inl (Panic ''kfree'')"
  by (auto simp: kfree_def page_ok_def)

definition kalloced :: "physmem \<Rightarrow> physmem" where
  "kalloced p = (if freelist p \<noteq> 0
     then p\<lparr>freelist := unat (load32 (ram p) (freelist p))\<rparr> else p)"

lemma kalloc_eq:
  assumes "cli_ok s" and "lk_free (lks s KmemLk)"
  shows "kalloc s = Inr (freelist (phys s), (quiet s)\<lparr>phys := kalloced (phys s)\<rparr>)"
proof (cases "freelist (phys s) = 0")
  case True
  have "(quiet s)\<lparr>phys := phys s\<rparr> = quiet s"
    using phys_lock(5) [of s] by (metis kphys.surjective kphys.update_convs(1) kphys.select_convs(1))
  with True assms show ?thesis
    by (simp add: kalloc_def acquire_free release_locked Let_def kalloced_def)
next
  case False
  with assms show ?thesis
    by (simp add: kalloc_def acquire_free release_locked Let_def kalloced_def)
qed

lemma free_list_kfreed:
  assumes "free_list p ps" and "page_ok (kernel_end p) v" and "v \<notin> set ps"
  shows "free_list (kfreed v p) (v # ps)"
proof -
  have "freelist p < 2 ^ 32"
    using assms(1) by (cases ps) (auto simp: free_list_def page_ok_def PHYSTOP_def)
  then have "unat (of_nat (freelist p) :: uint) = freelist p"
    by (simp add: unat_of_nat)
  moreover have "on_list (ram (kfreed v p)) (freelist p) ps = on_list (ram p) (freelist p) ps"
  proof (rule on_list_cong)
    fix a x
    assume a: "a \<in> set ps" and x: "a \<le> x" "x < a + 4"
    have "page_ok (kernel_end p) a" "a \<noteq> v" using assms a by (auto simp: free_list_def)
    then have "x < v \<or> v + PGSIZE \<le> x"
      using page_apart [of v a x] assms(2) x by (metis leI le_neq_implies_less not_le page_ok_def)
    then show "ram (kfreed v p) x = ram p x"
      by (auto simp: kfreed_def stosb_eq PGSIZE_def)
  qed
  ultimately show ?thesis
    using assms by (auto simp: free_list_def kfreed_def page_ok_def)
qed

lemma free_list_kalloced:
  assumes "free_list p ps"
  shows "freelist p = (case ps of [] \<Rightarrow> 0 | a # _ \<Rightarrow> a) \<and> free_list (kalloced p) (tl ps)"
  using assms by (cases ps) (auto simp: free_list_def kalloced_def)

section \<open>The interface of a page allocator\<close>

text \<open>
  What the clients of \<^verbatim>\<open>kalloc\<close> and \<^verbatim>\<open>kfree\<close> rely on.  \<open>pages s ps\<close> says that the
  state \<open>s\<close> is sound and its free pages are \<open>ps\<close>, the next to be handed out first;
  \<open>ok s p\<close> that \<open>p\<close> is a page the allocator manages.
\<close>

fun alloc_many :: "('s \<Rightarrow> kerr + nat \<times> 's) \<Rightarrow> nat \<Rightarrow> 's \<Rightarrow> kerr + nat list \<times> 's" where
  "alloc_many alloc 0 s = Inr ([], s)"
| "alloc_many alloc (Suc n) s =
     bindR (alloc s) (\<lambda>(a, s1).
     bindR (alloc_many alloc n s1) (\<lambda>(as, s2). Inr (a # as, s2)))"

locale page_allocator =
  fixes alloc :: "'s \<Rightarrow> kerr + nat \<times> 's"
    and free :: "nat \<Rightarrow> 's \<Rightarrow> kerr + 's"
    and pages :: "'s \<Rightarrow> nat list \<Rightarrow> bool"
    and ok :: "'s \<Rightarrow> nat \<Rightarrow> bool"
  assumes pages_distinct: "pages s ps \<Longrightarrow> distinct ps \<and> (\<forall>a\<in>set ps. ok s a \<and> a \<noteq> 0)"
    and alloc_some: "pages s (a # ps) \<Longrightarrow>
      \<exists>s'. alloc s = Inr (a, s') \<and> pages s' ps \<and> ok s' = ok s"
    and alloc_none: "pages s [] \<Longrightarrow> \<exists>s'. alloc s = Inr (0, s') \<and> pages s' [] \<and> ok s' = ok s"
    and free_ok: "pages s ps \<Longrightarrow> ok s a \<Longrightarrow> a \<notin> set ps \<Longrightarrow>
      \<exists>s'. free a s = Inr s' \<and> pages s' (a # ps) \<and> ok s' = ok s"
begin

lemma alloc_free:
  assumes "pages s (a # ps)"
  shows "\<exists>s' s''. alloc s = Inr (a, s') \<and> free a s' = Inr s'' \<and> pages s'' (a # ps)"
proof -
  obtain s' where s': "alloc s = Inr (a, s')" "pages s' ps" "ok s' = ok s"
    using alloc_some [OF assms] by blast
  have "ok s' a" "a \<notin> set ps" using pages_distinct [OF assms] s'(3) by auto
  from free_ok [OF s'(2) this] s'(1) show ?thesis by blast
qed

lemma alloc_many_takes:
  "pages s (as @ ps) \<Longrightarrow> \<exists>s'. alloc_many alloc (length as) s = Inr (as, s') \<and> pages s' ps"
proof (induction as arbitrary: s)
  case Nil
  then show ?case by simp
next
  case (Cons a as)
  then obtain s1 where s1: "alloc s = Inr (a, s1)" "pages s1 (as @ ps)"
    using alloc_some [of s a "as @ ps"] by auto
  from Cons.IH [OF s1(2)] s1(1) show ?case by auto
qed

end

text \<open>The kernel's allocator keeps the contract.\<close>

definition kpages :: "'a kphys_scheme \<Rightarrow> nat list \<Rightarrow> bool" where
  "kpages s ps \<longleftrightarrow> cli_ok s \<and> lk_free (lks s KmemLk) \<and> free_list (phys s) ps"

definition kpage_ok :: "'a kphys_scheme \<Rightarrow> nat \<Rightarrow> bool" where
  "kpage_ok s p \<longleftrightarrow> page_ok (kernel_end (phys s)) p"

lemma kfreed_end [simp]: "kernel_end (kfreed v p) = kernel_end p"
  by (simp add: kfreed_def)

lemma kalloced_end [simp]: "kernel_end (kalloced p) = kernel_end p"
  by (simp add: kalloced_def)

lemma kalloc_pages:
  assumes "kpages s ps"
  shows "\<exists>s'. kalloc s = Inr (case ps of [] \<Rightarrow> 0 | a # _ \<Rightarrow> a, s') \<and> kpages s' (tl ps) \<and>
     kernel_end (phys s') = kernel_end (phys s)"
  using assms free_list_kalloced [of "phys s" ps]
  by (simp add: kpages_def kalloc_eq)

lemma kfree_pages:
  assumes "kpages s ps" and "kpage_ok s v" and "v \<notin> set ps"
  shows "\<exists>s'. kfree v s = Inr s' \<and> kpages s' (v # ps) \<and> kernel_end (phys s') = kernel_end (phys s)"
  using assms free_list_kfreed [of "phys s" ps v]
  by (simp add: kpages_def kpage_ok_def kfree_eq)

interpretation ka: page_allocator "kalloc :: 'a kphys_scheme \<Rightarrow> _" kfree kpages kpage_ok
proof unfold_locales
  fix s :: "'a kphys_scheme" and ps a
  show "kpages s ps \<Longrightarrow> distinct ps \<and> (\<forall>a\<in>set ps. kpage_ok s a \<and> a \<noteq> 0)"
    by (auto simp: kpages_def free_list_def kpage_ok_def page_ok_def)
  show "kpages s (a # ps) \<Longrightarrow>
      \<exists>s'. kalloc s = Inr (a, s') \<and> kpages s' ps \<and> kpage_ok s' = kpage_ok s"
    using kalloc_pages [of s "a # ps"] by (auto simp: kpage_ok_def fun_eq_iff)
  show "kpages s [] \<Longrightarrow> \<exists>s'. kalloc s = Inr (0, s') \<and> kpages s' [] \<and> kpage_ok s' = kpage_ok s"
    using kalloc_pages [of s "[]"] by (auto simp: kpage_ok_def fun_eq_iff)
  show "kpages s ps \<Longrightarrow> kpage_ok s a \<Longrightarrow> a \<notin> set ps \<Longrightarrow>
      \<exists>s'. kfree a s = Inr s' \<and> kpages s' (a # ps) \<and> kpage_ok s' = kpage_ok s"
    using kfree_pages [of s ps a] by (auto simp: kpage_ok_def fun_eq_iff)
qed

section \<open>Initialisation\<close>

lemma kinit_loop_pages:
  assumes "kpages s ps" and "p mod PGSIZE = 0" and "kernel_end (phys s) \<le> p"
    and "\<forall>a\<in>set ps. a < p"
  shows "\<exists>s' qs. kinit_loop p s = Inr s' \<and> kpages s' qs \<and>
     set qs = set ps \<union> {a. a mod PGSIZE = 0 \<and> p \<le> a \<and> a < PHYSTOP} \<and>
     kernel_end (phys s') = kernel_end (phys s)"
  using assms
proof (induction p s arbitrary: ps rule: kinit_loop.induct)
  case (1 p s)
  show ?case
  proof (cases "p + PGSIZE \<le> PHYSTOP")
    case True
    then have "kpage_ok s p" and "p \<notin> set ps"
      using "1.prems" by (auto simp: kpage_ok_def page_ok_def PGSIZE_def)
    then obtain s1 where s1: "kfree p s = Inr s1" "kpages s1 (p # ps)"
      "kernel_end (phys s1) = kernel_end (phys s)"
      using kfree_pages [OF "1.prems"(1)] by blast
    have "\<exists>s' qs. kinit_loop (p + PGSIZE) s1 = Inr s' \<and> kpages s' qs \<and>
       set qs = set (p # ps) \<union> {a. a mod PGSIZE = 0 \<and> p + PGSIZE \<le> a \<and> a < PHYSTOP} \<and>
       kernel_end (phys s') = kernel_end (phys s1)"
      using "1.prems" s1
      by (intro "1.IH" [OF True]) (auto simp: PGSIZE_def intro: less_trans)
    moreover have "{a. a mod PGSIZE = 0 \<and> p \<le> a \<and> a < PHYSTOP} =
        insert p {a. a mod PGSIZE = 0 \<and> p + PGSIZE \<le> a \<and> a < PHYSTOP}"
    proof -
      have "p + PGSIZE \<le> a" if "a mod PGSIZE = 0" "p \<le> a" "a \<noteq> p" for a
        using page_apart [of p a a] "1.prems"(2) that
        by (metis add_le_same_cancel1 leI not_numeral_le_zero not_less_iff_gr_or_eq)
      then show ?thesis using True "1.prems"(2) by (auto simp: PGSIZE_def)
    qed
    ultimately show ?thesis using s1 True by (subst kinit_loop.simps) auto
  next
    case False
    have "\<not> (a mod PGSIZE = 0 \<and> p \<le> a \<and> a < PHYSTOP)" for a
    proof
      assume a: "a mod PGSIZE = 0 \<and> p \<le> a \<and> a < PHYSTOP"
      then obtain i where "a = 4096 * i" by (metis PGSIZE_def dvdE mod_eq_0_iff_dvd)
      moreover obtain j where "p = 4096 * j"
        using "1.prems"(2) by (metis PGSIZE_def dvdE mod_eq_0_iff_dvd)
      ultimately show False using a False by (simp add: PGSIZE_def PHYSTOP_def)
    qed
    then have "{a. a mod PGSIZE = 0 \<and> p \<le> a \<and> a < PHYSTOP} = {}"
      unfolding Collect_empty_eq by (rule allI)
    moreover have "kinit_loop p s = Inr s" using False by (subst kinit_loop.simps) simp
    ultimately show ?thesis using "1.prems"(1) by (metis Un_empty_right)
  qed
qed

text \<open>The first page boundary at or above \<open>e\<close>.\<close>

definition first_page :: "nat \<Rightarrow> nat" where
  "first_page e = (e + 4095) div 4096 * 4096"

lemma first_page_le: "e \<le> first_page e" "first_page e mod PGSIZE = 0"
proof -
  have "(e + 4095) mod 4096 < 4096" by simp
  then show "e \<le> first_page e"
    using div_mult_mod_eq [of "e + 4095" 4096] unfolding first_page_def by linarith
  show "first_page e mod PGSIZE = 0" by (simp add: first_page_def PGSIZE_def)
qed

lemma first_page_least:
  assumes "a mod PGSIZE = 0" and "e \<le> a"
  shows "first_page e \<le> a"
proof -
  obtain i where a: "a = 4096 * i" using assms(1) by (metis PGSIZE_def dvdE mod_eq_0_iff_dvd)
  have "(e + 4095) div 4096 \<le> (4095 + 4096 * i) div 4096"
    using assms(2) a by (intro div_le_mono) simp
  also have "\<dots> = i" by (subst div_mult_self2) simp_all
  finally show ?thesis by (simp add: first_page_def a)
qed

lemma page_ok_first_page: "page_ok e a \<longleftrightarrow> a mod PGSIZE = 0 \<and> first_page e \<le> a \<and> a < PHYSTOP"
  using first_page_le(1) [of e] first_page_least [of a e] by (auto simp: page_ok_def)

lemma kinit_pages:
  assumes "cli_ok s" and "freelist (phys s) = 0" and "0 < kernel_end (phys s)"
    and "kernel_end (phys s) \<le> PHYSTOP"
  shows "\<exists>s' ps. kinit s = Inr s' \<and> kpages s' ps \<and>
     set ps = {a. page_ok (kernel_end (phys s)) a}"
proof -
  let ?s = "initlock KmemLk ''kmem'' s" and ?e = "kernel_end (phys s)"
  have u: "unat (of_nat ?e :: uint) = ?e"
    using assms(4) by (subst unat_of_nat) (simp add: PHYSTOP_def)
  have small: "unat (of_nat ?e :: uint) + 4095 < 2 ^ 32"
    using assms(4) unfolding u by (simp add: PHYSTOP_def)
  have p: "unat (PGROUNDUP (of_nat ?e)) = first_page ?e"
    unfolding unat_PGROUNDUP [OF small] u first_page_def by (rule refl)
  have sound: "kpages ?s []"
    using assms by (simp add: kpages_def free_list_def initlock_def lk_free_def cli_ok_def)
  have "\<exists>s' qs. kinit_loop (first_page ?e) ?s = Inr s' \<and> kpages s' qs \<and>
     set qs = set [] \<union> {a. a mod PGSIZE = 0 \<and> first_page ?e \<le> a \<and> a < PHYSTOP} \<and>
     kernel_end (phys s') = kernel_end (phys ?s)"
    by (rule kinit_loop_pages [OF sound first_page_le(2)]) (simp_all add: first_page_le)
  then obtain s' qs where qs: "kinit_loop (first_page ?e) ?s = Inr s'" "kpages s' qs"
    "set qs = {a. a mod PGSIZE = 0 \<and> first_page ?e \<le> a \<and> a < PHYSTOP}"
    by auto
  have "kinit s = Inr s'"
    using qs(1) p by (simp add: kinit_def Let_def)
  moreover have "set qs = {a. page_ok ?e a}"
    unfolding qs(3) page_ok_first_page by simp
  ultimately show ?thesis using qs(2) by blast
qed

section \<open>Properties\<close>

text \<open>
  \<^verbatim>\<open>kinit\<close> puts on the free list every page between the end of the kernel and
  \<^verbatim>\<open>PHYSTOP\<close>, each once and nothing else, and leaves the allocator sound.
\<close>

theorem kinit_frees_every_page:
  assumes "cli_ok s" and "freelist (phys s) = 0"
    and "0 < kernel_end (phys s)" and "kernel_end (phys s) \<le> PHYSTOP"
  shows "\<exists>s' ps. kinit s = Inr s' \<and> kpages s' ps \<and> distinct ps \<and>
     set ps = {a. a mod PGSIZE = 0 \<and> kernel_end (phys s) \<le> a \<and> a < PHYSTOP}"
  using kinit_pages [OF assms] by (auto simp: kpages_def free_list_def page_ok_def)

definition phys_boot :: "nat \<Rightarrow> kphys" where
  "phys_boot e = \<lparr>cpus = (\<lambda>_. \<lparr>ncli = 0, intena = False, iflag = True, cproc = None,
       ts_esp0 = 0, cr3 = 0\<rparr>),
     lks = (\<lambda>_. \<lparr>lk_locked = False, lk_name = [], lk_cpu = None\<rparr>), me = 0,
     phys = \<lparr>ram = (\<lambda>_. 0), freelist = 0, kernel_data = 0x100000, kernel_end = e, kpgdir = 0\<rparr>\<rparr>"

theorem kinit_frees_every_page_witness:
  "\<exists>s' ps. kinit (phys_boot 0x101234) = Inr s' \<and> kpages s' ps \<and> distinct ps \<and>
     set ps = {a. a mod PGSIZE = 0 \<and> 0x101234 \<le> a \<and> a < PHYSTOP}"
  using kinit_frees_every_page [of "phys_boot 0x101234"]
  by (simp add: phys_boot_def cli_ok_def PHYSTOP_def)

text \<open>
  The page allocator is a stack of free pages: from a sound state with free
  pages \<open>ps\<close>, \<^verbatim>\<open>kalloc\<close> returns the first of them, or 0 when there is none, and
  \<^verbatim>\<open>kfree\<close> of a page that is not free puts it in front; \<^verbatim>\<open>kfree\<close> of an address that
  is not a page of the pool panics.
\<close>

theorem page_allocator_is_stack:
  assumes "kpages s ps"
  shows "(\<exists>s'. kalloc s = Inr (case ps of [] \<Rightarrow> 0 | a # _ \<Rightarrow> a, s') \<and> kpages s' (tl ps)) \<and>
     (kpage_ok s v \<longrightarrow> v \<notin> set ps \<longrightarrow> (\<exists>s'. kfree v s = Inr s' \<and> kpages s' (v # ps))) \<and>
     (\<not> kpage_ok s v \<longrightarrow> kfree v s = Inl (Panic ''kfree''))"
  using kalloc_pages [OF assms] kfree_pages [OF assms, of v] kfree_panics [of s v]
  by (auto simp: kpage_ok_def)

theorem page_allocator_is_stack_witness:
  "(\<exists>s'. kfree 0x400000 (phys_boot 0x101234) = Inr s' \<and> kpages s' [0x400000]) \<and>
   kfree 0x400001 (phys_boot 0x101234) = Inl (Panic ''kfree'')"
proof -
  have "kpages (phys_boot 0x101234) []"
    by (simp add: kpages_def phys_boot_def cli_ok_def lk_free_def free_list_def)
  from page_allocator_is_stack [OF this, of "0x400000"] page_allocator_is_stack [OF this, of "0x400001"]
  show ?thesis by (simp add: kpage_ok_def page_ok_def phys_boot_def PGSIZE_def PHYSTOP_def)
qed

text \<open>
  Pages handed out by successive calls of \<^verbatim>\<open>kalloc\<close> are pairwise different,
  and none of them is still on the free list.
\<close>

theorem kalloc_pages_distinct:
  assumes "kpages s (as @ ps)"
  shows "\<exists>s'. alloc_many kalloc (length as) s = Inr (as, s') \<and> kpages s' ps \<and>
     distinct as \<and> set as \<inter> set ps = {}"
proof -
  have "distinct (as @ ps)" using ka.pages_distinct [OF assms] by blast
  with ka.alloc_many_takes [OF assms] show ?thesis by auto
qed

theorem kalloc_pages_distinct_witness:
  "\<exists>s s'. kfree 0x400000 (phys_boot 0x101234) = Inr s \<and> alloc_many kalloc 1 s = Inr ([0x400000], s')"
proof -
  have "kpages (phys_boot 0x101234) []"
    by (simp add: kpages_def phys_boot_def cli_ok_def lk_free_def free_list_def)
  moreover have "kpage_ok (phys_boot 0x101234) 0x400000"
    by (simp add: kpage_ok_def page_ok_def phys_boot_def PGSIZE_def PHYSTOP_def)
  ultimately obtain s where s: "kfree 0x400000 (phys_boot 0x101234) = Inr s" "kpages s [0x400000]"
    using kfree_pages [of "phys_boot 0x101234" "[]" "0x400000"] by auto
  with kalloc_pages_distinct [of s "[0x400000]" "[]"] show ?thesis by auto
qed

end
