(* ===== verification/Vm.thy ===== *)
theory Vm
  imports Kalloc
begin

text \<open>
  Page tables and address spaces (\<^verbatim>\<open>kernel/vm.c\<close>) over the physical memory.  A page
  directory is the address of its page; directory and table entries are the 32-bit words
  in those pages, read and written where the code reads and writes them.  The kernel's
  own addresses are mapped one to one, so a kernel pointer is a physical address.
\<close>

section \<open>Addresses and entries\<close>

definition USERTOP :: uint where "USERTOP = 0xA0000"
definition PTE_P :: uint where "PTE_P = 0x001"
definition PTE_W :: uint where "PTE_W = 0x002"
definition PTE_U :: uint where "PTE_U = 0x004"
definition NPDENTRIES :: nat where "NPDENTRIES = 1024"

definition PDX :: "uint \<Rightarrow> nat" where
  "PDX la = unat (drop_bit 22 la AND 0x3FF)"

definition PTX :: "uint \<Rightarrow> nat" where
  "PTX la = unat (drop_bit 12 la AND 0x3FF)"

definition PTE_ADDR :: "uint \<Rightarrow> uint" where
  "PTE_ADDR pte = pte AND NOT 0xFFF"

definition ram_upd :: "(bmem \<Rightarrow> bmem) \<Rightarrow> 'a kphys_scheme \<Rightarrow> 'a kphys_scheme" where
  "ram_upd f s = s\<lparr>phys := (phys s)\<lparr>ram := f (ram (phys s))\<rparr>\<rparr>"

abbreviation rd :: "'a kphys_scheme \<Rightarrow> nat \<Rightarrow> uint" where
  "rd s a \<equiv> load32 (ram (phys s)) a"

section \<open>Walking and mapping\<close>

text \<open>\<^verbatim>\<open>walkpgdir\<close>: the address of the page table entry for \<open>va\<close>, 0 when there is none.\<close>

definition walkpgdir :: "nat \<Rightarrow> uint \<Rightarrow> bool \<Rightarrow> 'a kphys_scheme \<Rightarrow> kerr + nat \<times> 'a kphys_scheme" where
  "walkpgdir pgdir va create s =
     (let pde = pgdir + 4 * PDX va in
      if rd s pde AND PTE_P \<noteq> 0 then Inr (unat (PTE_ADDR (rd s pde)) + 4 * PTX va, s)
      else if \<not> create then Inr (0, s)
      else bindR (kalloc s) (\<lambda>(pgtab, s1).
        if pgtab = 0 then Inr (0, s1)
        else
          let s2 = ram_upd (\<lambda>m. snd (memset m pgtab 0 PGSIZE)) s1;
              s3 = ram_upd (\<lambda>m. store32 m pde (of_nat pgtab OR PTE_P OR PTE_W OR PTE_U)) s2
          in Inr (pgtab + 4 * PTX va, s3)))"

text \<open>
  The loop of \<^verbatim>\<open>mappages\<close> over the pages from \<open>a\<close> to \<open>last\<close>, both page aligned: \<open>n\<close> is
  the number of pages still to come after the one at \<open>a\<close>, so \<open>n = 0\<close> is the test
  \<^verbatim>\<open>a == last\<close>.
\<close>

fun mappages_loop :: "nat \<Rightarrow> nat \<Rightarrow> uint \<Rightarrow> uint \<Rightarrow> uint \<Rightarrow> 'a kphys_scheme \<Rightarrow>
    kerr + int \<times> 'a kphys_scheme" where
  "mappages_loop n pgdir a pa perm s =
     bindR (walkpgdir pgdir a True s) (\<lambda>(pte, s1).
     if pte = 0 then Inr (-1, s1)
     else if rd s1 pte AND PTE_P \<noteq> 0 then Inl (Panic ''remap'')
     else
       let s2 = ram_upd (\<lambda>m. store32 m pte (pa OR perm OR PTE_P)) s1 in
       case n of 0 \<Rightarrow> Inr (0, s2)
       | Suc k \<Rightarrow> mappages_loop k pgdir (a + 4096) (pa + 4096) perm s2)"

declare mappages_loop.simps [simp del]

definition mappages :: "nat \<Rightarrow> uint \<Rightarrow> uint \<Rightarrow> uint \<Rightarrow> uint \<Rightarrow> 'a kphys_scheme \<Rightarrow>
    kerr + int \<times> 'a kphys_scheme" where
  "mappages pgdir la len pa perm s =
     (let a = PGROUNDDOWN la; last = PGROUNDDOWN (la + len - 1)
      in mappages_loop (unat (last - a) div PGSIZE) pgdir a pa perm s)"

section \<open>The kernel part of a page table\<close>

definition kmap :: "'a kphys_scheme \<Rightarrow> (uint \<times> uint \<times> uint) list" where
  "kmap s =
     [(USERTOP, 0x100000, PTE_W),
      (0x100000, of_nat (kernel_data (phys s)), 0),
      (of_nat (kernel_data (phys s)), of_nat PHYSTOP, PTE_W),
      (0xFE000000, 0, PTE_W)]"

fun setupkvm_loop :: "(uint \<times> uint \<times> uint) list \<Rightarrow> nat \<Rightarrow> 'a kphys_scheme \<Rightarrow>
    kerr + nat \<times> 'a kphys_scheme" where
  "setupkvm_loop [] pgdir s = Inr (pgdir, s)"
| "setupkvm_loop ((p, e, perm) # ks) pgdir s =
     bindR (mappages pgdir p (e - p) p perm s) (\<lambda>(rc, s1).
     if rc < 0 then Inr (0, s1) else setupkvm_loop ks pgdir s1)"

definition setupkvm :: "'a kphys_scheme \<Rightarrow> kerr + nat \<times> 'a kphys_scheme" where
  "setupkvm s =
     bindR (kalloc s) (\<lambda>(pgdir, s1).
     if pgdir = 0 then Inr (0, s1)
     else
       let s2 = ram_upd (\<lambda>m. snd (memset m pgdir 0 PGSIZE)) s1
       in setupkvm_loop (kmap s2) pgdir s2)"

definition kvmalloc :: "'a kphys_scheme \<Rightarrow> kerr + 'a kphys_scheme" where
  "kvmalloc s =
     bindR (setupkvm s) (\<lambda>(d, s1). Inr (s1\<lparr>phys := (phys s1)\<lparr>kpgdir := d\<rparr>\<rparr>))"

definition switchkvm :: "'a kphys_scheme \<Rightarrow> 'a kphys_scheme" where
  "switchkvm s = set_cpu ((this_cpu s)\<lparr>cr3 := kpgdir (phys s)\<rparr>) s"

section \<open>User memory\<close>

definition inituvm :: "nat \<Rightarrow> nat \<Rightarrow> nat \<Rightarrow> 'a kphys_scheme \<Rightarrow> kerr + 'a kphys_scheme" where
  "inituvm pgdir init sz s =
     (if sz \<ge> PGSIZE then Inl (Panic ''inituvm: more than a page'')
      else bindR (kalloc s) (\<lambda>(mem, s1).
        let s2 = ram_upd (\<lambda>m. snd (memset m mem 0 PGSIZE)) s1 in
        bindR (mappages pgdir 0 4096 (of_nat mem) (PTE_W OR PTE_U) s2) (\<lambda>(_, s3).
        Inr (ram_upd (\<lambda>m. snd (memmove m mem init sz)) s3))))"

function deallocuvm_loop :: "nat \<Rightarrow> nat \<Rightarrow> nat \<Rightarrow> 'a kphys_scheme \<Rightarrow> kerr + 'a kphys_scheme" where
  "deallocuvm_loop pgdir oldsz a s =
     (if a < oldsz then
        bindR (walkpgdir pgdir (of_nat a) False s) (\<lambda>(pte, s1).
        if pte \<noteq> 0 \<and> rd s1 pte AND PTE_P \<noteq> 0 then
          let pa = unat (PTE_ADDR (rd s1 pte)) in
          if pa = 0 then Inl (Panic ''kfree'')
          else bindR (kfree pa s1) (\<lambda>s2.
            deallocuvm_loop pgdir oldsz (a + PGSIZE) (ram_upd (\<lambda>m. store32 m pte 0) s2))
        else deallocuvm_loop pgdir oldsz (a + PGSIZE) s1)
      else Inr s)"
  by pat_completeness auto
termination
  by (relation "measure (\<lambda>(pgdir, oldsz, a, s). oldsz - a)") (auto simp: PGSIZE_def)

declare deallocuvm_loop.simps [simp del]

definition deallocuvm :: "nat \<Rightarrow> uint \<Rightarrow> uint \<Rightarrow> 'a kphys_scheme \<Rightarrow> kerr + uint \<times> 'a kphys_scheme" where
  "deallocuvm pgdir oldsz newsz s =
     (if newsz \<ge> oldsz then Inr (oldsz, s)
      else bindR (deallocuvm_loop pgdir (unat oldsz) (unat (PGROUNDUP newsz)) s) (\<lambda>s1.
        Inr (newsz, s1)))"

text \<open>
  The loop of \<^verbatim>\<open>allocuvm\<close>.  The result of \<^verbatim>\<open>mappages\<close> is not looked at, as in the code.
\<close>

function allocuvm_loop :: "nat \<Rightarrow> uint \<Rightarrow> uint \<Rightarrow> nat \<Rightarrow> 'a kphys_scheme \<Rightarrow>
    kerr + uint \<times> 'a kphys_scheme" where
  "allocuvm_loop pgdir oldsz newsz a s =
     (if a < unat newsz then
        bindR (kalloc s) (\<lambda>(mem, s1).
        if mem = 0 then
          bindR (deallocuvm pgdir newsz oldsz s1) (\<lambda>(_, s2). Inr (0, s2))
        else
          let s2 = ram_upd (\<lambda>m. snd (memset m mem 0 PGSIZE)) s1 in
          bindR (mappages pgdir (of_nat a) 4096 (of_nat mem) (PTE_W OR PTE_U) s2) (\<lambda>(_, s3).
          allocuvm_loop pgdir oldsz newsz (a + PGSIZE) s3))
      else Inr (newsz, s))"
  by pat_completeness auto
termination
  by (relation "measure (\<lambda>(pgdir, oldsz, newsz, a, s). unat newsz - a)") (auto simp: PGSIZE_def)

declare allocuvm_loop.simps [simp del]

definition allocuvm :: "nat \<Rightarrow> uint \<Rightarrow> uint \<Rightarrow> 'a kphys_scheme \<Rightarrow> kerr + uint \<times> 'a kphys_scheme" where
  "allocuvm pgdir oldsz newsz s =
     (if newsz > USERTOP then Inr (0, s)
      else if newsz < oldsz then Inr (oldsz, s)
      else allocuvm_loop pgdir oldsz newsz (unat (PGROUNDUP oldsz)) s)"

text \<open>The page table pages are freed by index, each entry read when its turn comes.\<close>

fun freevm_tables :: "nat list \<Rightarrow> nat \<Rightarrow> 'a kphys_scheme \<Rightarrow> kerr + 'a kphys_scheme" where
  "freevm_tables [] pgdir s = Inr s"
| "freevm_tables (i # is) pgdir s =
     (let pde = rd s (pgdir + 4 * i) in
      if pde AND PTE_P \<noteq> 0
      then bindR (kfree (unat (PTE_ADDR pde)) s) (freevm_tables is pgdir)
      else freevm_tables is pgdir s)"

definition freevm :: "nat \<Rightarrow> 'a kphys_scheme \<Rightarrow> kerr + 'a kphys_scheme" where
  "freevm pgdir s =
     (if pgdir = 0 then Inl (Panic ''freevm: no pgdir'')
      else bindR (deallocuvm pgdir USERTOP 0 s) (\<lambda>(_, s1).
        bindR (freevm_tables [0..<NPDENTRIES] pgdir s1) (\<lambda>s2.
        kfree pgdir s2)))"

function copyuvm_loop :: "nat \<Rightarrow> nat \<Rightarrow> nat \<Rightarrow> nat \<Rightarrow> 'a kphys_scheme \<Rightarrow>
    kerr + nat \<times> 'a kphys_scheme" where
  "copyuvm_loop pgdir sz d i s =
     (if i < sz then
        bindR (walkpgdir pgdir (of_nat i) False s) (\<lambda>(pte, s1).
        if pte = 0 then Inl (Panic ''copyuvm: pte should exist'')
        else if rd s1 pte AND PTE_P = 0 then Inl (Panic ''copyuvm: page not present'')
        else
          let pa = unat (PTE_ADDR (rd s1 pte)) in
          bindR (kalloc s1) (\<lambda>(mem, s2).
          if mem = 0 then bindR (freevm d s2) (\<lambda>s3. Inr (0, s3))
          else
            let s3 = ram_upd (\<lambda>m. snd (memmove m mem pa PGSIZE)) s2 in
            bindR (mappages d (of_nat i) 4096 (of_nat mem) (PTE_W OR PTE_U) s3) (\<lambda>(rc, s4).
            if rc < 0 then bindR (freevm d s4) (\<lambda>s5. Inr (0, s5))
            else copyuvm_loop pgdir sz d (i + PGSIZE) s4)))
      else Inr (d, s))"
  by pat_completeness auto
termination
  by (relation "measure (\<lambda>(pgdir, sz, d, i, s). sz - i)") (auto simp: PGSIZE_def)

declare copyuvm_loop.simps [simp del]

definition copyuvm :: "nat \<Rightarrow> uint \<Rightarrow> 'a kphys_scheme \<Rightarrow> kerr + nat \<times> 'a kphys_scheme" where
  "copyuvm pgdir sz s =
     bindR (setupkvm s) (\<lambda>(d, s1).
     if d = 0 then Inr (0, s1) else copyuvm_loop pgdir (unat sz) d 0 s1)"

text \<open>
  \<^verbatim>\<open>uva2ka\<close> reads the entry \<^verbatim>\<open>walkpgdir\<close> returns without testing it for null.
\<close>

definition uva2ka :: "nat \<Rightarrow> uint \<Rightarrow> 'a kphys_scheme \<Rightarrow> kerr + nat \<times> 'a kphys_scheme" where
  "uva2ka pgdir uva s =
     bindR (walkpgdir pgdir uva False s) (\<lambda>(pte, s1).
     if pte = 0 then Inl Fault
     else if rd s1 pte AND PTE_P = 0 then Inr (0, s1)
     else if rd s1 pte AND PTE_U = 0 then Inr (0, s1)
     else Inr (unat (PTE_ADDR (rd s1 pte)), s1))"

lemma page_offset: "unat (va - PGROUNDDOWN va) = unat va mod PGSIZE"
proof -
  have "PGROUNDDOWN va \<le> va"
    by (simp add: word_le_nat_alt unat_PGROUNDDOWN)
  then have "unat (va - PGROUNDDOWN va) = unat va - unat va div 4096 * 4096"
    by (simp add: unat_sub unat_PGROUNDDOWN)
  also have "\<dots> = unat va mod 4096" by (rule minus_div_mult_eq_mod)
  finally show ?thesis by (simp add: PGSIZE_def)
qed

text \<open>The loop of \<^verbatim>\<open>copyout\<close>; \<open>p\<close> is the kernel address of the bytes still to copy.\<close>

function copyout :: "nat \<Rightarrow> uint \<Rightarrow> nat \<Rightarrow> nat \<Rightarrow> 'a kphys_scheme \<Rightarrow> kerr + int \<times> 'a kphys_scheme" where
  "copyout pgdir va p len s =
     (if 0 < len then
        let va0 = PGROUNDDOWN va in
        bindR (uva2ka pgdir va0 s) (\<lambda>(pa0, s1).
        if pa0 = 0 then Inr (-1, s1)
        else
          let n0 = PGSIZE - unat (va - va0); n = (if n0 > len then len else n0);
              s2 = ram_upd (\<lambda>m. snd (memmove m (pa0 + unat (va - va0)) p n)) s1
          in copyout pgdir (va0 + 4096) (p + n) (len - n) s2)
      else Inr (0, s))"
  by pat_completeness auto
termination
  by (relation "measure (\<lambda>(pgdir, va, p, len, s). len)")
     (auto simp: page_offset PGSIZE_def)

declare copyout.simps [simp del]


section \<open>Decomposing addresses\<close>

lemma PDX_eq: "PDX va = unat va div 4194304"
proof -
  have "unat va < 2 ^ 32" using unsigned_less [where w = va] by simp
  then have lt: "unat va div 4194304 < 1024" by auto
  have "PDX va = unat (drop_bit 22 va AND mask 10)"
    by (simp add: PDX_def mask_eq_exp_minus_1)
  also have "\<dots> = unat va div 4194304 mod 1024"
    by (simp add: take_bit_eq_mask [symmetric] take_bit_eq_mod drop_bit_eq_div
        unat_mod_distrib unat_div_distrib)
  finally show ?thesis using lt by simp
qed

lemma PTX_eq: "PTX va = unat va div 4096 mod 1024"
proof -
  have "PTX va = unat (drop_bit 12 va AND mask 10)"
    by (simp add: PTX_def mask_eq_exp_minus_1)
  also have "\<dots> = unat va div 4096 mod 1024"
    by (simp add: take_bit_eq_mask [symmetric] take_bit_eq_mod drop_bit_eq_div
        unat_mod_distrib unat_div_distrib)
  finally show ?thesis .
qed

lemma PDX_less: "PDX va < 1024"
proof -
  have "unat va < 2 ^ 32" using unsigned_less [where w = va] by simp
  then show ?thesis by (simp add: PDX_eq)
qed

lemma PTX_less: "PTX va < 1024"
  by (simp add: PTX_eq)

text \<open>The two indices together are the page number.\<close>

lemma page_number: "unat va div 4096 = PDX va * 1024 + PTX va"
proof -
  have "unat va div 4194304 = unat va div 4096 div 1024"
    by (simp add: div_mult2_eq [symmetric])
  then show ?thesis by (simp add: PDX_eq PTX_eq)
qed

lemma same_page_iff:
  "PGROUNDDOWN va = PGROUNDDOWN la \<longleftrightarrow> PDX va = PDX la \<and> PTX va = PTX la"
proof
  assume "PGROUNDDOWN va = PGROUNDDOWN la"
  then have "unat va div 4096 * 4096 = unat la div 4096 * 4096"
    by (metis unat_PGROUNDDOWN)
  then have "unat va div 4096 = unat la div 4096" by simp
  then have "PDX va * 1024 + PTX va = PDX la * 1024 + PTX la"
    by (simp only: page_number)
  then show "PDX va = PDX la \<and> PTX va = PTX la"
    using PTX_less [of va] PTX_less [of la]
    by (cases "PDX va" "PDX la" rule: linorder_cases) linarith+
next
  assume "PDX va = PDX la \<and> PTX va = PTX la"
  then have "unat va div 4096 = unat la div 4096" by (simp add: page_number)
  then show "PGROUNDDOWN va = PGROUNDDOWN la"
    by (simp add: word_unat_eq_iff unat_PGROUNDDOWN)
qed

section \<open>Entries\<close>

text \<open>A page address and flag bits share a word without touching each other.\<close>

lemma entry_fields:
  assumes "w AND 0xFFF = 0" and "f AND NOT 0xFFF = 0"
  shows "PTE_ADDR (w OR f) = w" and "(w OR f) AND 0xFFF = f"
proof -
  have m: "(0xFFF :: uint) = mask 12" by (simp add: mask_eq_exp_minus_1)
  have w: "\<not> bit w n" if "n < 12" for n
    using arg_cong [OF assms(1), of "\<lambda>x. bit x n"] that unfolding m by (auto simp: bit_simps)
  have f: "n < 12" if "bit f n" for n
    using arg_cong [OF assms(2), of "\<lambda>x. bit x n"] that bit_imp_le_length [of f n]
    unfolding m by (auto simp: bit_simps)
  show "PTE_ADDR (w OR f) = w"
    unfolding PTE_ADDR_def m by (rule bit_word_eqI) (use w f in \<open>auto simp: bit_simps not_le\<close>)
  show "(w OR f) AND 0xFFF = f"
    unfolding m by (rule bit_word_eqI) (use w f in \<open>auto simp: bit_simps not_le\<close>)
qed

lemma aligned_word:
  assumes "a mod PGSIZE = 0"
  shows "(of_nat a :: uint) AND 0xFFF = 0"
proof -
  have m: "(0xFFF :: uint) = mask 12" by (simp add: mask_eq_exp_minus_1)
  have "(of_nat a :: uint) AND mask 12 = take_bit 12 (of_nat a)"
    by (simp add: take_bit_eq_mask)
  also have "\<dots> = of_nat (take_bit 12 a)"
    by (rule take_bit_of_nat)
  also have "take_bit 12 a = 0"
    using assms by (simp add: take_bit_eq_mod PGSIZE_def)
  finally show ?thesis unfolding m by simp
qed

section \<open>Reads and writes of entries\<close>

lemma entry_apart:
  assumes "p mod PGSIZE = 0" "q mod PGSIZE = 0" "i < 1024" "j < 1024" "p \<noteq> q \<or> i \<noteq> j"
  shows "q + 4 * j + 4 \<le> p + 4 * i \<or> p + 4 * i + 4 \<le> q + 4 * j"
proof (cases "p = q")
  case True
  then show ?thesis using assms(5) by auto
next
  case False
  obtain k l where kl: "p = 4096 * k" "q = 4096 * l"
    using assms(1,2) by (metis PGSIZE_def dvdE mod_eq_0_iff_dvd)
  then have "k < l \<or> l < k" using False by auto
  then show ?thesis using assms(3,4) kl by auto
qed

lemma read_entry_write:
  assumes "p mod PGSIZE = 0" "q mod PGSIZE = 0" "i < 1024" "j < 1024"
  shows "load32 (store32 m (p + 4 * i) w) (q + 4 * j) =
     (if p = q \<and> i = j then w else load32 m (q + 4 * j))"
proof (cases "p = q \<and> i = j")
  case True
  then show ?thesis by simp
next
  case False
  with assms have "q + 4 * j + 4 \<le> p + 4 * i \<or> p + 4 * i + 4 \<le> q + 4 * j"
    by (intro entry_apart) auto
  then show ?thesis using False by (simp only: load32_store32_other if_False)
qed

lemma page_byte:
  assumes "p mod PGSIZE = 0" "q mod PGSIZE = 0" "p \<le> x" "x < p + PGSIZE"
  shows "q \<le> x \<and> x < q + PGSIZE \<longleftrightarrow> p = q"
proof -
  obtain k l where kl: "p = 4096 * k" "q = 4096 * l"
    using assms(1,2) by (metis PGSIZE_def dvdE mod_eq_0_iff_dvd)
  have "k = l" if "4096 * l \<le> x" "x < 4096 * l + 4096"
    using that assms(3,4) kl by (simp add: PGSIZE_def)
  then show ?thesis using assms kl by (auto simp: PGSIZE_def)
qed

lemma read_entry_zeroed:
  assumes "p mod PGSIZE = 0" "q mod PGSIZE = 0" "j < 1024"
  shows "load32 (stosb m p 0 PGSIZE) (q + 4 * j) = (if p = q then 0 else load32 m (q + 4 * j))"
proof (cases "p = q")
  case True
  then show ?thesis using assms(3) by (simp add: load32_def stosb_eq PGSIZE_def)
next
  case False
  have "load32 (stosb m p 0 PGSIZE) (q + 4 * j) = load32 m (q + 4 * j)"
  proof (rule load32_cong)
    fix b assume "q + 4 * j \<le> b" "b < q + 4 * j + 4"
    then have "q \<le> b" "b < q + PGSIZE" using assms(3) by (auto simp: PGSIZE_def)
    then show "stosb m p 0 PGSIZE b = m b"
      using page_byte [OF assms(2,1)] False by (auto simp: stosb_eq)
  qed
  then show ?thesis using False by simp
qed

section \<open>Translation\<close>

text \<open>What the memory management unit computes from a page directory.\<close>

definition present :: "bmem \<Rightarrow> nat \<Rightarrow> nat \<Rightarrow> bool" where
  "present m pgdir i \<longleftrightarrow> load32 m (pgdir + 4 * i) AND PTE_P \<noteq> 0"

definition table :: "bmem \<Rightarrow> nat \<Rightarrow> nat \<Rightarrow> nat" where
  "table m pgdir i = unat (PTE_ADDR (load32 m (pgdir + 4 * i)))"

definition entry :: "bmem \<Rightarrow> nat \<Rightarrow> uint \<Rightarrow> uint" where
  "entry m pgdir va =
     (if present m pgdir (PDX va) then load32 m (table m pgdir (PDX va) + 4 * PTX va) else 0)"

definition va2pa :: "bmem \<Rightarrow> nat \<Rightarrow> uint \<Rightarrow> uint option" where
  "va2pa m pgdir va =
     (let e = entry m pgdir va in
      if e AND PTE_P = 0 then None else Some (PTE_ADDR e OR (va AND 0xFFF)))"

text \<open>
  A sound page directory beside a sound allocator: its own page and its table pages come
  from the pool, none of them is free, and no table serves two directory entries.
\<close>

definition pt_ok :: "'a kphys_scheme \<Rightarrow> nat \<Rightarrow> nat list \<Rightarrow> bool" where
  "pt_ok s pgdir ps \<longleftrightarrow> kpages s ps \<and> kpage_ok s pgdir \<and> pgdir \<notin> set ps \<and>
     (\<forall>i<1024. present (ram (phys s)) pgdir i \<longrightarrow>
        kpage_ok s (table (ram (phys s)) pgdir i) \<and> table (ram (phys s)) pgdir i \<notin> set ps \<and>
        table (ram (phys s)) pgdir i \<noteq> pgdir) \<and>
     (\<forall>i<1024. \<forall>j<1024. present (ram (phys s)) pgdir i \<longrightarrow> present (ram (phys s)) pgdir j \<longrightarrow>
        table (ram (phys s)) pgdir i = table (ram (phys s)) pgdir j \<longrightarrow> i = j)"

lemma phys_ram_upd [simp]:
  "ram (phys (ram_upd f s)) = f (ram (phys s))" "freelist (phys (ram_upd f s)) = freelist (phys s)"
  "kernel_end (phys (ram_upd f s)) = kernel_end (phys s)" "lks (ram_upd f s) = lks s"
  "cli_ok (ram_upd f s) = cli_ok s" "me (ram_upd f s) = me s" "cpus (ram_upd f s) = cpus s"
  by (simp_all add: ram_upd_def)

lemma kpage_ok_ram_upd [simp]: "kpage_ok (ram_upd f s) = kpage_ok s"
  by (simp add: kpage_ok_def fun_eq_iff)

text \<open>Writing a page that is not free does not disturb the free list.\<close>

lemma kpages_write:
  assumes "kpages s ps" and "q mod PGSIZE = 0" and "q \<notin> set ps"
    and "\<And>x. x < q \<or> q + PGSIZE \<le> x \<Longrightarrow> f (ram (phys s)) x = ram (phys s) x"
  shows "kpages (ram_upd f s) ps"
proof -
  have "on_list (f (ram (phys s))) p ps = on_list (ram (phys s)) p ps" for p
  proof (rule on_list_cong)
    fix a x assume a: "a \<in> set ps" and x: "a \<le> x" "x < a + 4"
    then have al: "a mod PGSIZE = 0" "a \<noteq> q"
      using assms(1,3) by (auto simp: kpages_def free_list_def page_ok_def)
    then have "\<not> (q \<le> x \<and> x < q + PGSIZE)"
      using page_byte [OF al(1) assms(2), of x] x by (simp add: PGSIZE_def)
    then show "f (ram (phys s)) x = ram (phys s) x" by (intro assms(4)) linarith
  qed
  then show ?thesis using assms(1) by (simp add: kpages_def free_list_def)
qed

lemma store_in_page:
  "i < 1024 \<Longrightarrow> x < q \<or> q + PGSIZE \<le> x \<Longrightarrow> store32 m (q + 4 * i) w x = m x"
  by (intro store32_other) (auto simp: PGSIZE_def)

lemma kpage_okD: "kpage_ok s p \<Longrightarrow> p mod PGSIZE = 0 \<and> p < PHYSTOP"
  by (simp add: kpage_ok_def page_ok_def)

lemma page_word:
  assumes "kpage_ok s p"
  shows "unat (of_nat p :: uint) = p" and "(of_nat p :: uint) AND 0xFFF = 0"
  using kpage_okD [OF assms] by (simp_all add: unat_of_nat PHYSTOP_def aligned_word)

text \<open>The directory entry \<^verbatim>\<open>walkpgdir\<close> writes for a fresh table.\<close>

definition pde_of :: "nat \<Rightarrow> uint" where
  "pde_of t = of_nat t OR PTE_P OR PTE_W OR PTE_U"

lemma pde_of_fields:
  assumes "kpage_ok s t"
  shows "pde_of t AND PTE_P \<noteq> 0" and "unat (PTE_ADDR (pde_of t)) = t"
proof -
  let ?f = "PTE_P OR PTE_W OR PTE_U"
  have f: "?f AND NOT 0xFFF = 0" "?f AND 0xFFF = ?f"
    by (simp_all add: PTE_P_def PTE_W_def PTE_U_def)
  note ef = entry_fields [OF page_word(2) [OF assms] f(1)]
  show "unat (PTE_ADDR (pde_of t)) = t"
    using ef(1) page_word(1) [OF assms] by (simp add: pde_of_def)
  have "(of_nat t OR ?f) AND PTE_P = ((of_nat t OR ?f) AND 0xFFF) AND PTE_P"
    by (simp add: PTE_P_def and.assoc)
  also have "\<dots> = PTE_P" unfolding ef(2) by (simp add: PTE_P_def PTE_W_def PTE_U_def)
  finally show "pde_of t AND PTE_P \<noteq> 0"
    by (simp add: pde_of_def or.assoc PTE_P_def)
qed

text \<open>The memory after \<^verbatim>\<open>walkpgdir\<close> has hung the zeroed table \<open>t\<close> into the directory.\<close>

definition hang_table :: "nat \<Rightarrow> uint \<Rightarrow> nat \<Rightarrow> bmem \<Rightarrow> bmem" where
  "hang_table pgdir va t m = store32 (stosb m t 0 PGSIZE) (pgdir + 4 * PDX va) (pde_of t)"

lemma hang_table_entries:
  assumes "kpage_ok s t" "pgdir mod PGSIZE = 0" "t \<noteq> pgdir" "i < 1024"
  shows "load32 (hang_table pgdir va t m) (pgdir + 4 * i) =
      (if i = PDX va then pde_of t else load32 m (pgdir + 4 * i))"
    and "q mod PGSIZE = 0 \<Longrightarrow> q \<noteq> pgdir \<Longrightarrow> load32 (hang_table pgdir va t m) (q + 4 * i) =
      (if q = t then 0 else load32 m (q + 4 * i))"
  using assms kpage_okD [OF assms(1)]
  by (auto simp: hang_table_def read_entry_write read_entry_zeroed PDX_less)

lemma hang_table_walk:
  assumes ok: "pt_ok s pgdir (t # ps)" and new: "\<not> present (ram (phys s)) pgdir (PDX va)"
    and t: "kpage_ok s t" "t \<noteq> pgdir"
  defines "m \<equiv> ram (phys s)" and "m' \<equiv> hang_table pgdir va t (ram (phys s))"
  shows "i < 1024 \<Longrightarrow> present m' pgdir i = (i = PDX va \<or> present m pgdir i)"
    and "i < 1024 \<Longrightarrow> table m' pgdir i = (if i = PDX va then t else table m pgdir i)"
    and "entry m' pgdir v = entry m pgdir v"
proof -
  have pg: "pgdir mod PGSIZE = 0" using ok kpage_okD by (auto simp: pt_ok_def)
  note ents = hang_table_entries [OF t(1) pg t(2)]
  have pres: "present m' pgdir i = (i = PDX va \<or> present m pgdir i)" if "i < 1024" for i
    using pde_of_fields [OF t(1)] ents(1) [OF that] by (simp add: present_def m_def m'_def)
  have tab: "table m' pgdir i = (if i = PDX va then t else table m pgdir i)" if "i < 1024" for i
    using pde_of_fields [OF t(1)] ents(1) [OF that] by (simp add: table_def m_def m'_def)
  show "i < 1024 \<Longrightarrow> present m' pgdir i = (i = PDX va \<or> present m pgdir i)"
    by (rule pres)
  show "i < 1024 \<Longrightarrow> table m' pgdir i = (if i = PDX va then t else table m pgdir i)"
    by (rule tab)
  show "entry m' pgdir v = entry m pgdir v"
  proof (cases "PDX v = PDX va")
    case True
    then show ?thesis
      using new pres [OF PDX_less, of v] tab [OF PDX_less, of v] ents(2) [OF PTX_less, of t va _ v]
        kpage_okD [OF t(1)] t(2)
      by (simp add: entry_def m_def m'_def)
  next
    case False
    show ?thesis
    proof (cases "present m pgdir (PDX v)")
      case True
      then have "table m pgdir (PDX v) \<notin> set (t # ps)" "table m pgdir (PDX v) \<noteq> pgdir"
        "kpage_ok s (table m pgdir (PDX v))"
        using ok PDX_less [of v] by (auto simp: pt_ok_def m_def)
      then show ?thesis
        using True False pres [OF PDX_less, of v] tab [OF PDX_less, of v]
          ents(2) [OF PTX_less, of "table m pgdir (PDX v)" va _ v]
          kpage_okD [of s "table m pgdir (PDX v)"]
        by (simp add: entry_def m_def m'_def)
    next
      case False
      then show ?thesis using \<open>PDX v \<noteq> PDX va\<close> pres [OF PDX_less, of v] by (simp add: entry_def)
    qed
  qed
qed

section \<open>Walking with \<^verbatim>\<open>create\<close> set\<close>

lemma kalloc_ram:
  assumes "kpages s (t # ps)"
  shows "\<exists>s'. kalloc s = Inr (t, s') \<and> kpages s' ps \<and> ram (phys s') = ram (phys s) \<and>
     kernel_end (phys s') = kernel_end (phys s)"
proof -
  have "kalloc s = Inr (freelist (phys s), (quiet s)\<lparr>phys := kalloced (phys s)\<rparr>)"
    using assms by (intro kalloc_eq) (auto simp: kpages_def)
  moreover have "ram (kalloced (phys s)) = ram (phys s)" by (simp add: kalloced_def)
  ultimately show ?thesis using kalloc_pages [OF assms] by auto
qed

lemma pt_ok_hang:
  assumes ok: "pt_ok s pgdir (t # ps)" and new: "\<not> present (ram (phys s)) pgdir (PDX va)"
    and s': "kpages s' ps" "ram (phys s') = hang_table pgdir va t (ram (phys s))"
      "kernel_end (phys s') = kernel_end (phys s)"
  shows "pt_ok s' pgdir ps"
proof -
  have kp: "kpages s (t # ps)" "t \<noteq> pgdir" "t \<notin> set ps"
    using ok by (auto simp: pt_ok_def kpages_def free_list_def)
  from ka.pages_distinct [OF kp(1)] have t: "kpage_ok s t" by simp
  have same: "kpage_ok s' = kpage_ok s" using s'(3) by (simp add: kpage_ok_def fun_eq_iff)
  note walk = hang_table_walk(1,2) [OF ok new t kp(2)]
  have new_t: "i < 1024 \<Longrightarrow> present (ram (phys s)) pgdir i \<Longrightarrow> table (ram (phys s)) pgdir i \<noteq> t" for i
    using ok by (auto simp: pt_ok_def)
  show ?thesis
    using ok s'(1) kp(2,3) t walk new_t unfolding pt_ok_def same s'(2)
    by (auto split: if_splits)
qed

lemma walkpgdir_create:
  assumes ok: "pt_ok s pgdir ps" and room: "present (ram (phys s)) pgdir (PDX va) \<or> ps \<noteq> []"
  shows "\<exists>s' ps'. walkpgdir pgdir va True s =
        Inr (table (ram (phys s')) pgdir (PDX va) + 4 * PTX va, s') \<and>
      pt_ok s' pgdir ps' \<and> present (ram (phys s')) pgdir (PDX va) \<and>
      (\<forall>v. entry (ram (phys s')) pgdir v = entry (ram (phys s)) pgdir v) \<and>
      kernel_end (phys s') = kernel_end (phys s) \<and> length ps \<le> Suc (length ps')"
proof (cases "present (ram (phys s)) pgdir (PDX va)")
  case True
  then have "walkpgdir pgdir va True s =
      Inr (table (ram (phys s)) pgdir (PDX va) + 4 * PTX va, s)"
    by (simp add: walkpgdir_def present_def table_def Let_def)
  with True ok show ?thesis by (metis le_SucI le_refl)
next
  case False
  with room obtain t ps0 where ps: "ps = t # ps0" by (cases ps) auto
  with ok have okt: "pt_ok s pgdir (t # ps0)" by simp
  then have kp: "kpages s (t # ps0)" by (simp add: pt_ok_def)
  then have t: "kpage_ok s t" "t \<noteq> 0" "t \<notin> set ps0" "t \<noteq> pgdir"
    using ka.pages_distinct [OF kp] okt by (auto simp: pt_ok_def)
  obtain s1 where s1: "kalloc s = Inr (t, s1)" "kpages s1 ps0" "ram (phys s1) = ram (phys s)"
    "kernel_end (phys s1) = kernel_end (phys s)"
    using kalloc_ram [OF kp] by blast
  let ?s2 = "ram_upd (\<lambda>m. snd (memset m t 0 PGSIZE)) s1"
  let ?s3 = "ram_upd (\<lambda>m. store32 m (pgdir + 4 * PDX va) (of_nat t OR PTE_P OR PTE_W OR PTE_U)) ?s2"
  have pg: "pgdir mod PGSIZE = 0" "pgdir \<notin> set ps0"
    using okt kpage_okD [of s pgdir] by (auto simp: pt_ok_def)
  have "kpages ?s2 ps0"
    using s1(2) t kpage_okD [OF t(1)]
    by (intro kpages_write [of s1 ps0 t]) (auto simp: memset_def stosb_eq)
  then have s3: "kpages ?s3 ps0"
    using pg by (intro kpages_write [of ?s2 ps0 pgdir]) (simp_all add: store_in_page PDX_less)
  have ram3: "ram (phys ?s3) = hang_table pgdir va t (ram (phys s))"
    using s1(3) by (simp add: hang_table_def pde_of_def memset_def)
  have end3: "kernel_end (phys ?s3) = kernel_end (phys s)" using s1(4) by simp
  note walk = hang_table_walk [OF okt False t(1) t(4)]
  have "walkpgdir pgdir va True s = Inr (t + 4 * PTX va, ?s3)"
    using False s1(1) t(2) by (simp add: walkpgdir_def present_def Let_def)
  moreover have "pt_ok ?s3 pgdir ps0"
    by (rule pt_ok_hang [OF okt False s3 ram3 end3])
  moreover have "present (ram (phys ?s3)) pgdir (PDX va)" "table (ram (phys ?s3)) pgdir (PDX va) = t"
    "\<forall>v. entry (ram (phys ?s3)) pgdir v = entry (ram (phys s)) pgdir v"
    unfolding ram3 using walk PDX_less by auto
  ultimately show ?thesis using end3 ps by (intro exI [of _ ?s3] exI [of _ ps0]) auto
qed

section \<open>Mapping one page\<close>

text \<open>The memory after \<^verbatim>\<open>mappages\<close> has written the entry \<open>e\<close> for \<open>va\<close>.\<close>

lemma set_entry:
  fixes e :: uint
  assumes ok: "pt_ok s pgdir ps" and pres: "present (ram (phys s)) pgdir (PDX va)"
  defines "m \<equiv> ram (phys s)"
  defines "m' \<equiv> store32 m (table m pgdir (PDX va) + 4 * PTX va) e"
  shows "entry m' pgdir v = (if PGROUNDDOWN v = PGROUNDDOWN va then e else entry m pgdir v)"
    and "pt_ok (ram_upd (\<lambda>m. store32 m (table m pgdir (PDX va) + 4 * PTX va) e) s) pgdir ps"
proof -
  let ?t = "table m pgdir (PDX va)"
  have t: "kpage_ok s ?t" "?t \<noteq> pgdir" "?t \<notin> set ps" and pg: "kpage_ok s pgdir"
    using ok pres PDX_less [of va] by (auto simp: pt_ok_def m_def)
  note al = kpage_okD [OF t(1)] kpage_okD [OF pg]
  have dir: "load32 m' (pgdir + 4 * i) = load32 m (pgdir + 4 * i)" if "i < 1024" for i
    using that al t(2) by (simp add: m'_def read_entry_write PTX_less)
  have same: "present m' pgdir i = present m pgdir i" "table m' pgdir i = table m pgdir i"
    if "i < 1024" for i
    using dir [OF that] by (simp_all add: present_def table_def)
  show "entry m' pgdir v = (if PGROUNDDOWN v = PGROUNDDOWN va then e else entry m pgdir v)"
  proof (cases "present m pgdir (PDX v)")
    case True
    then have tv: "kpage_ok s (table m pgdir (PDX v))"
      and inj: "(table m pgdir (PDX v) = ?t) = (PDX v = PDX va)"
      using ok PDX_less [of v] PDX_less [of va] pres by (auto simp: pt_ok_def m_def)
    have "load32 m' (table m pgdir (PDX v) + 4 * PTX v) =
        (if ?t = table m pgdir (PDX v) \<and> PTX va = PTX v then e
         else load32 m (table m pgdir (PDX v) + 4 * PTX v))"
      unfolding m'_def using al kpage_okD [OF tv] by (intro read_entry_write) (auto simp: PTX_less)
    then show ?thesis
      using True inj same [OF PDX_less] by (auto simp: entry_def same_page_iff)
  next
    case False
    then have "PDX v \<noteq> PDX va" using pres by (auto simp: m_def)
    then show ?thesis using False same [OF PDX_less] by (simp add: entry_def same_page_iff)
  qed
  let ?s' = "ram_upd (\<lambda>m. store32 m (table m pgdir (PDX va) + 4 * PTX va) e) s"
  have "ram (phys ?s') = m'" by (simp add: m'_def m_def)
  moreover have "kpages ?s' ps"
    using ok t al by (intro kpages_write [of s ps ?t])
      (auto simp: pt_ok_def m_def store_in_page PTX_less)
  ultimately show "pt_ok ?s' pgdir ps"
    using ok same by (simp add: pt_ok_def m_def)
qed

lemma mappages_one:
  assumes ok: "pt_ok s pgdir ps" and room: "present (ram (phys s)) pgdir (PDX la) \<or> ps \<noteq> []"
    and al: "PGROUNDDOWN la = la" and free: "entry (ram (phys s)) pgdir la AND PTE_P = 0"
  shows "\<exists>s' ps'. mappages pgdir la 4096 pa perm s = Inr (0, s') \<and> pt_ok s' pgdir ps' \<and>
     (\<forall>v. entry (ram (phys s')) pgdir v =
        (if PGROUNDDOWN v = la then pa OR perm OR PTE_P else entry (ram (phys s)) pgdir v)) \<and>
     kernel_end (phys s') = kernel_end (phys s) \<and> length ps \<le> Suc (length ps')"
proof -
  obtain s1 ps1 where s1: "walkpgdir pgdir la True s =
        Inr (table (ram (phys s1)) pgdir (PDX la) + 4 * PTX la, s1)"
      "pt_ok s1 pgdir ps1" "present (ram (phys s1)) pgdir (PDX la)"
      "\<forall>v. entry (ram (phys s1)) pgdir v = entry (ram (phys s)) pgdir v"
      "kernel_end (phys s1) = kernel_end (phys s)" "length ps \<le> Suc (length ps1)"
    using walkpgdir_create [OF ok room] by blast
  let ?t = "table (ram (phys s1)) pgdir (PDX la)"
  have t: "kpage_ok s1 ?t" "?t \<noteq> 0"
    using s1(2,3) PDX_less [of la]
    by (auto simp: pt_ok_def kpages_def free_list_def kpage_ok_def page_ok_def)
  have read: "rd s1 (?t + 4 * PTX la) AND PTE_P = 0"
    using free s1(3) s1(4) [rule_format, of la] by (simp add: entry_def [of "ram (phys s1)"])
  have last: "PGROUNDDOWN (la + 4096 - 1) = la"
  proof -
    have "unat la mod 4096 = 0"
      using al by (metis mod_mult_self2_is_0 unat_PGROUNDDOWN)
    moreover have "unat la < 2 ^ 32" using unsigned_less [where w = la] by simp
    ultimately have small: "unat la + 4095 < 2 ^ 32" by auto
    have "unat (la + 4095) = unat la + 4095"
      using small by (simp add: unat_word_ariths)
    then have "unat (PGROUNDDOWN (la + 4095)) = unat la"
      using \<open>unat la mod 4096 = 0\<close> by (auto simp: unat_PGROUNDDOWN elim!: dvdE)
    then have "PGROUNDDOWN (la + 4095) = la" by (simp add: word_unat_eq_iff)
    then show ?thesis by (simp add: add.commute)
  qed
  let ?f = "\<lambda>m. store32 m (table m pgdir (PDX la) + 4 * PTX la) (pa OR perm OR PTE_P)"
  have "ram_upd (\<lambda>m. store32 m (?t + 4 * PTX la) (pa OR perm OR PTE_P)) s1 = ram_upd ?f s1"
    by (simp add: ram_upd_def)
  then have "mappages pgdir la 4096 pa perm s = Inr (0, ram_upd ?f s1)"
    using s1(1) t(2) read last al
    by (simp add: mappages_def Let_def mappages_loop.simps)
  moreover have "pt_ok (ram_upd ?f s1) pgdir ps1"
    by (rule set_entry(2) [OF s1(2,3)])
  moreover have "entry (ram (phys (ram_upd ?f s1))) pgdir v =
      (if PGROUNDDOWN v = la then pa OR perm OR PTE_P else entry (ram (phys s)) pgdir v)" for v
    using set_entry(1) [OF s1(2,3), of "pa OR perm OR PTE_P" v] s1(4) al by simp
  ultimately show ?thesis using s1(5,6)
    by (intro exI [of _ "ram_upd ?f s1"] exI [of _ ps1]) auto
qed

section \<open>Growing an address space\<close>

text \<open>Writes to a page that is neither the directory nor one of its tables.\<close>

lemma entry_frame:
  assumes ok: "pt_ok s pgdir ps" and q: "q mod PGSIZE = 0" "q \<noteq> pgdir"
    and nt: "\<forall>i<1024. present (ram (phys s)) pgdir i \<longrightarrow> table (ram (phys s)) pgdir i \<noteq> q"
    and out: "\<And>x. x < q \<or> q + PGSIZE \<le> x \<Longrightarrow> m' x = ram (phys s) x"
  shows "i < 1024 \<Longrightarrow> present m' pgdir i = present (ram (phys s)) pgdir i"
    and "i < 1024 \<Longrightarrow> table m' pgdir i = table (ram (phys s)) pgdir i"
    and "entry m' pgdir v = entry (ram (phys s)) pgdir v"
proof -
  have same: "load32 m' (p + 4 * j) = rd s (p + 4 * j)"
    if "p mod PGSIZE = 0" "p \<noteq> q" "j < 1024" for p j
  proof (rule load32_cong)
    fix b assume "p + 4 * j \<le> b" "b < p + 4 * j + 4"
    then have "\<not> (q \<le> b \<and> b < q + PGSIZE)"
      using page_byte [OF that(1) q(1), of b] that(2,3) by (simp add: PGSIZE_def)
    then show "m' b = ram (phys s) b" by (intro out) linarith
  qed
  have pg: "pgdir mod PGSIZE = 0" using ok kpage_okD by (auto simp: pt_ok_def)
  have p: "present m' pgdir i = present (ram (phys s)) pgdir i"
    and t: "table m' pgdir i = table (ram (phys s)) pgdir i" if "i < 1024" for i
    using same [OF pg _ that] q(2) by (auto simp: present_def table_def)
  then show "i < 1024 \<Longrightarrow> present m' pgdir i = present (ram (phys s)) pgdir i"
    and "i < 1024 \<Longrightarrow> table m' pgdir i = table (ram (phys s)) pgdir i" by blast+
  show "entry m' pgdir v = entry (ram (phys s)) pgdir v"
  proof (cases "present (ram (phys s)) pgdir (PDX v)")
    case True
    then have "kpage_ok s (table (ram (phys s)) pgdir (PDX v))"
      using ok PDX_less [of v] by (auto simp: pt_ok_def)
    from same [of "table (ram (phys s)) pgdir (PDX v)" "PTX v"] kpage_okD [OF this] True
    show ?thesis using nt PDX_less [of v] p [OF PDX_less] t [OF PDX_less] PTX_less [of v]
      by (simp add: entry_def)
  next
    case False
    then show ?thesis using p [OF PDX_less] by (simp add: entry_def)
  qed
qed

text \<open>A page is allocated and zeroed for the user.\<close>

lemma user_page:
  assumes ok: "pt_ok s pgdir (q # ps)"
  shows "\<exists>s1. kalloc s = Inr (q, s1) \<and>
     pt_ok (ram_upd (\<lambda>m. snd (memset m q 0 PGSIZE)) s1) pgdir ps \<and>
     kernel_end (phys s1) = kernel_end (phys s) \<and>
     (\<forall>v. entry (ram (phys (ram_upd (\<lambda>m. snd (memset m q 0 PGSIZE)) s1))) pgdir v =
          entry (ram (phys s)) pgdir v)"
proof -
  have kp: "kpages s (q # ps)" using ok by (simp add: pt_ok_def)
  obtain s1 where s1: "kalloc s = Inr (q, s1)" "kpages s1 ps" "ram (phys s1) = ram (phys s)"
    "kernel_end (phys s1) = kernel_end (phys s)"
    using kalloc_ram [OF kp] by blast
  have q: "kpage_ok s q" "q \<notin> set ps" "q \<noteq> pgdir"
    using ka.pages_distinct [OF kp] ok by (auto simp: pt_ok_def)
  have same: "kpage_ok s1 = kpage_ok s" using s1(4) by (simp add: kpage_ok_def fun_eq_iff)
  have ok1: "pt_ok s1 pgdir ps"
    using ok s1 by (simp add: pt_ok_def same)
  have nt: "\<forall>i<1024. present (ram (phys s1)) pgdir i \<longrightarrow> table (ram (phys s1)) pgdir i \<noteq> q"
    using ok s1(3) by (auto simp: pt_ok_def)
  let ?s2 = "ram_upd (\<lambda>m. snd (memset m q 0 PGSIZE)) s1"
  have out: "ram (phys ?s2) x = ram (phys s1) x" if "x < q \<or> q + PGSIZE \<le> x" for x
    using that by (auto simp: memset_def stosb_eq)
  note fr = entry_frame [OF ok1 conjunct1 [OF kpage_okD [OF q(1)]] q(3) nt out]
  have "kpages ?s2 ps"
    using s1(2) q kpage_okD [OF q(1)] by (intro kpages_write) (auto simp: memset_def stosb_eq)
  then have "pt_ok ?s2 pgdir ps"
    using ok1 fr(1,2) by (simp add: pt_ok_def)
  then show ?thesis using s1 fr(3) by auto
qed

text \<open>How many pages a loop from \<open>a\<close> up to \<open>n\<close> visits.\<close>

definition pages_upto :: "nat \<Rightarrow> nat \<Rightarrow> nat" where
  "pages_upto a n = (n - a + 4095) div 4096"

lemma page_ceiling: "0 < d \<Longrightarrow> (d + 4095) div 4096 = Suc ((d - 4096 + 4095) div 4096)" for d :: nat
proof (cases "d \<le> 4096")
  case True
  assume "0 < d"
  then have "(d + 4095) div 4096 = 1" using True by (intro div_nat_eqI) auto
  then show ?thesis using True by simp
next
  case False
  then have "d + 4095 = (d - 4096 + 4095) + 4096" by simp
  then have "(d + 4095) div 4096 = ((d - 4096 + 4095) + 4096) div 4096" by (simp only:)
  also have "\<dots> = Suc ((d - 4096 + 4095) div 4096)" by (subst div_add_self2) simp_all
  finally show ?thesis .
qed

lemma pages_upto_step: "a < n \<Longrightarrow> pages_upto a n = Suc (pages_upto (a + PGSIZE) n)"
  using page_ceiling [of "n - a"] by (simp only: pages_upto_def PGSIZE_def diff_diff_left zero_less_diff)

lemma PGROUNDDOWN_of_nat:
  assumes "a mod PGSIZE = 0" and "a < 2 ^ 32"
  shows "PGROUNDDOWN (of_nat a) = of_nat a" and "unat (of_nat a :: uint) = a"
proof -
  show u: "unat (of_nat a :: uint) = a" using assms(2) by (simp add: unat_of_nat)
  show "PGROUNDDOWN (of_nat a) = of_nat a"
    using assms(1) u by (auto simp: word_unat_eq_iff unat_PGROUNDDOWN PGSIZE_def)
qed

lemma va2pa_entry: "va2pa m pgdir v = None \<longleftrightarrow> entry m pgdir v AND PTE_P = 0"
  by (simp add: va2pa_def Let_def)

text \<open>One round of the loop: a zeroed page of the pool is mapped at \<open>a\<close>.\<close>

lemma same_page_range:
  assumes "a mod PGSIZE = 0" and "a < 2 ^ 32"
  shows "(PGROUNDDOWN v = of_nat a) = (a \<le> unat v \<and> unat v < a + PGSIZE)"
proof -
  obtain k where k: "a = 4096 * k"
    using assms(1) by (metis PGSIZE_def dvdE mod_eq_0_iff_dvd)
  have "(PGROUNDDOWN v = of_nat a) = (unat v div 4096 = k)"
    using PGROUNDDOWN_of_nat(2) [OF assms] by (simp add: word_unat_eq_iff unat_PGROUNDDOWN k)
  also have "\<dots> = (a \<le> unat v \<and> unat v < a + PGSIZE)"
    unfolding k PGSIZE_def by (auto simp: div_nat_eqI dividend_less_times_div)
  finally show ?thesis .
qed

lemma allocuvm_round:
  assumes ok: "pt_ok s pgdir (q # r # ps)" and a: "a mod PGSIZE = 0" "a < 2 ^ 32"
    and free: "va2pa (ram (phys s)) pgdir (of_nat a) = None"
  shows "\<exists>s1 s3 ps3. kalloc s = Inr (q, s1) \<and> q \<noteq> 0 \<and>
     mappages pgdir (of_nat a) 4096 (of_nat q) (PTE_W OR PTE_U)
       (ram_upd (\<lambda>m. snd (memset m q 0 PGSIZE)) s1) = Inr (0, s3) \<and>
     pt_ok s3 pgdir ps3 \<and> length ps \<le> length ps3 \<and>
     (\<forall>v. if a \<le> unat v \<and> unat v < a + PGSIZE then va2pa (ram (phys s3)) pgdir v \<noteq> None
          else va2pa (ram (phys s3)) pgdir v = va2pa (ram (phys s)) pgdir v)"
proof -
  let ?la = "of_nat a :: uint"
  note la = PGROUNDDOWN_of_nat [OF a]
  obtain s1 where s1: "kalloc s = Inr (q, s1)"
    "pt_ok (ram_upd (\<lambda>m. snd (memset m q 0 PGSIZE)) s1) pgdir (r # ps)"
    "\<forall>v. entry (ram (phys (ram_upd (\<lambda>m. snd (memset m q 0 PGSIZE)) s1))) pgdir v =
        entry (ram (phys s)) pgdir v"
    using user_page [OF ok] by auto
  let ?s2 = "ram_upd (\<lambda>m. snd (memset m q 0 PGSIZE)) s1"
  have q0: "q \<noteq> 0"
    using ok ka.pages_distinct [of s "q # r # ps"] by (auto simp: pt_ok_def)
  have "entry (ram (phys ?s2)) pgdir ?la AND PTE_P = 0"
    using s1(3) free by (simp add: va2pa_entry)
  then obtain s3 ps3 where s3:
    "mappages pgdir ?la 4096 (of_nat q) (PTE_W OR PTE_U) ?s2 = Inr (0, s3)"
    "pt_ok s3 pgdir ps3" "length (r # ps) \<le> Suc (length ps3)"
    "\<forall>v. entry (ram (phys s3)) pgdir v = (if PGROUNDDOWN v = ?la
        then of_nat q OR (PTE_W OR PTE_U) OR PTE_P else entry (ram (phys ?s2)) pgdir v)"
    using mappages_one [OF s1(2) _ la(1), of "of_nat q" "PTE_W OR PTE_U"] by auto
  have "(of_nat q OR (PTE_W OR PTE_U) OR PTE_P) AND PTE_P = PTE_P"
    by (simp add: bit_eq_iff bit_simps) blast
  then have "if PGROUNDDOWN v = ?la then va2pa (ram (phys s3)) pgdir v \<noteq> None
      else va2pa (ram (phys s3)) pgdir v = va2pa (ram (phys s)) pgdir v" for v
    using s3(4) s1(3) by (simp add: va2pa_def PTE_P_def)
  then show ?thesis
    using s1(1) q0 s3(1-3) same_page_range [OF a]
    by (intro exI [of _ s1] exI [of _ s3] exI [of _ ps3]) auto
qed

lemma allocuvm_loop_maps:
  "pt_ok s pgdir ps \<Longrightarrow> a mod PGSIZE = 0 \<Longrightarrow> unat newsz \<le> 0xA0000 \<Longrightarrow>
   \<forall>v. a \<le> unat v \<and> unat v < unat newsz \<longrightarrow> va2pa (ram (phys s)) pgdir v = None \<Longrightarrow>
   2 * pages_upto a (unat newsz) \<le> length ps \<Longrightarrow>
   \<exists>s' ps'. allocuvm_loop pgdir oldsz newsz a s = Inr (newsz, s') \<and> pt_ok s' pgdir ps' \<and>
     (\<forall>v. a \<le> unat v \<and> unat v < unat newsz \<longrightarrow> va2pa (ram (phys s')) pgdir v \<noteq> None) \<and>
     (\<forall>v. unat v < a \<or> unat newsz \<le> unat (PGROUNDDOWN v) \<longrightarrow>
        va2pa (ram (phys s')) pgdir v = va2pa (ram (phys s)) pgdir v)"
proof (induction pgdir oldsz newsz a s arbitrary: ps rule: allocuvm_loop.induct)
  case (1 pgdir oldsz newsz a s)
  show ?case
  proof (cases "a < unat newsz")
    case False
    then show ?thesis using "1.prems" by (subst allocuvm_loop.simps) auto
  next
    case True
    have a32: "a < 2 ^ 32" using True "1.prems"(3) by simp
    have n: "pages_upto a (unat newsz) = Suc (pages_upto (a + PGSIZE) (unat newsz))"
      by (rule pages_upto_step [OF True])
    then obtain q r ps0 where ps: "ps = q # r # ps0"
      using "1.prems"(5) by (cases ps; cases "tl ps") auto
    have "va2pa (ram (phys s)) pgdir (of_nat a) = None"
      using "1.prems"(2,4) True PGROUNDDOWN_of_nat(2) a32 by simp
    from allocuvm_round [OF "1.prems"(1) [unfolded ps] "1.prems"(2) a32 this]
    obtain s1 s3 ps3 where r: "kalloc s = Inr (q, s1)" "q \<noteq> 0"
      "mappages pgdir (of_nat a) 4096 (of_nat q) (PTE_W OR PTE_U)
         (ram_upd (\<lambda>m. snd (memset m q 0 PGSIZE)) s1) = Inr (0, s3)"
      "pt_ok s3 pgdir ps3" "length ps0 \<le> length ps3"
      "\<And>v. if a \<le> unat v \<and> unat v < a + PGSIZE then va2pa (ram (phys s3)) pgdir v \<noteq> None
          else va2pa (ram (phys s3)) pgdir v = va2pa (ram (phys s)) pgdir v"
      by blast
    have "\<exists>s' ps'. allocuvm_loop pgdir oldsz newsz (a + PGSIZE) s3 = Inr (newsz, s') \<and>
       pt_ok s' pgdir ps' \<and>
       (\<forall>v. a + PGSIZE \<le> unat v \<and> unat v < unat newsz \<longrightarrow>
          va2pa (ram (phys s')) pgdir v \<noteq> None) \<and>
       (\<forall>v. unat v < a + PGSIZE \<or> unat newsz \<le> unat (PGROUNDDOWN v) \<longrightarrow>
          va2pa (ram (phys s')) pgdir v = va2pa (ram (phys s3)) pgdir v)"
    proof (rule "1.IH" [OF True r(1) refl r(2) refl r(3) refl r(4)])
      show "\<forall>v. a + PGSIZE \<le> unat v \<and> unat v < unat newsz \<longrightarrow>
          va2pa (ram (phys s3)) pgdir v = None"
        using "1.prems"(4) r(6) by (metis add_leD1 not_le)
    qed (use "1.prems" r(5) n ps in \<open>auto simp: PGSIZE_def\<close>)
    then obtain s' ps' where s': "allocuvm_loop pgdir oldsz newsz (a + PGSIZE) s3 = Inr (newsz, s')"
      "pt_ok s' pgdir ps'"
      "\<And>v. a + PGSIZE \<le> unat v \<and> unat v < unat newsz \<Longrightarrow> va2pa (ram (phys s')) pgdir v \<noteq> None"
      "\<And>v. unat v < a + PGSIZE \<or> unat newsz \<le> unat (PGROUNDDOWN v) \<Longrightarrow>
          va2pa (ram (phys s')) pgdir v = va2pa (ram (phys s3)) pgdir v"
      by blast
    have "allocuvm_loop pgdir oldsz newsz a s = Inr (newsz, s')"
      using True r(1-3) s'(1) by (subst allocuvm_loop.simps) (simp add: Let_def)
    moreover have "va2pa (ram (phys s')) pgdir v \<noteq> None" if "a \<le> unat v \<and> unat v < unat newsz" for v
      using s'(3,4) [of v] r(6) [of v] that by (cases "unat v < a + PGSIZE") auto
    moreover have "va2pa (ram (phys s')) pgdir v = va2pa (ram (phys s)) pgdir v"
      if "unat v < a \<or> unat newsz \<le> unat (PGROUNDDOWN v)" for v
    proof -
      have "\<not> (a \<le> unat v \<and> unat v < a + PGSIZE)"
        using that same_page_range [OF "1.prems"(2) a32, of v] True
          PGROUNDDOWN_of_nat(2) [OF "1.prems"(2) a32] by auto
      then show ?thesis using that s'(4) [of v] r(6) [of v] by auto
    qed
    ultimately show ?thesis using s'(2) by blast
  qed
qed

section \<open>A fresh directory\<close>

lemma fresh_directory:
  assumes "kpages s (d # ps)"
  shows "\<exists>s1. kalloc s = Inr (d, s1) \<and>
     pt_ok (ram_upd (\<lambda>m. snd (memset m d 0 PGSIZE)) s1) d ps \<and>
     (\<forall>v. va2pa (ram (phys (ram_upd (\<lambda>m. snd (memset m d 0 PGSIZE)) s1))) d v = None)"
proof -
  obtain s1 where s1: "kalloc s = Inr (d, s1)" "kpages s1 ps" "kernel_end (phys s1) = kernel_end (phys s)"
    using kalloc_ram [OF assms] by blast
  have d: "kpage_ok s d" "d \<notin> set ps" using ka.pages_distinct [OF assms] by auto
  have same: "kpage_ok s1 = kpage_ok s" using s1(3) by (simp add: kpage_ok_def fun_eq_iff)
  let ?s2 = "ram_upd (\<lambda>m. snd (memset m d 0 PGSIZE)) s1"
  have zero: "load32 (ram (phys ?s2)) (d + 4 * i) = 0" if "i < 1024" for i
    using read_entry_zeroed [of d d i] kpage_okD [OF d(1)] that by (simp add: memset_def)
  then have np: "\<not> present (ram (phys ?s2)) d i" if "i < 1024" for i
    using that by (simp add: present_def)
  have "kpages ?s2 ps"
    using s1(2) d kpage_okD [OF d(1)] by (intro kpages_write) (auto simp: memset_def stosb_eq)
  then have "pt_ok ?s2 d ps" using d np same by (simp add: pt_ok_def)
  moreover have "va2pa (ram (phys ?s2)) d v = None" for v
    using np [OF PDX_less] by (simp add: va2pa_entry entry_def)
  ultimately show ?thesis using s1(1) by blast
qed

text \<open>A machine whose pool is any given list of pages, for concrete runs.\<close>

lemma pool_of:
  "distinct ps \<Longrightarrow> \<forall>a\<in>set ps. page_ok e a \<Longrightarrow> 0 < e \<Longrightarrow>
   \<exists>s. kpages (s :: kphys) ps \<and> kernel_end (phys s) = e"
proof (induction ps)
  case Nil
  have "kpages (phys_boot e) []"
    using Nil by (simp add: kpages_def phys_boot_def cli_ok_def lk_free_def free_list_def)
  then show ?case by (metis phys_boot_def kphys.select_convs(1) physmem.select_convs(4))
next
  case (Cons a ps)
  then obtain s :: kphys where "kpages s ps" "kernel_end (phys s) = e" by auto
  with kfree_pages [of s ps a] Cons.prems show ?case by (auto simp: kpage_ok_def)
qed

section \<open>Properties\<close>

text \<open>
  Mapping one page: in a sound directory with room for a table,
  \<^verbatim>\<open>mappages\<close> of a page that is not mapped returns 0, the addresses of that page are
  then translated to the given physical page with the same offset, every other address
  is translated as before, and the directory stays sound.
\<close>

theorem mappages_translates:
  assumes "pt_ok s pgdir ps" and "present (ram (phys s)) pgdir (PDX la) \<or> ps \<noteq> []"
    and "PGROUNDDOWN la = la" and "pa AND 0xFFF = 0" and "perm AND NOT 0xFFF = 0"
    and "va2pa (ram (phys s)) pgdir la = None"
  shows "\<exists>s' ps'. mappages pgdir la 4096 pa perm s = Inr (0, s') \<and> pt_ok s' pgdir ps' \<and>
     (\<forall>v. va2pa (ram (phys s')) pgdir v =
        (if PGROUNDDOWN v = la then Some (pa OR (v AND 0xFFF))
         else va2pa (ram (phys s)) pgdir v))"
proof -
  have "(perm OR PTE_P) AND NOT 0xFFF = 0"
    using assms(5) by (simp add: PTE_P_def bit.conj_disj_distrib2)
  from entry_fields(1) [OF assms(4) this]
  have "PTE_ADDR (pa OR perm OR PTE_P) = pa" by (simp add: or.assoc)
  moreover have "(pa OR perm OR PTE_P) AND PTE_P \<noteq> 0"
    by (simp add: bit_eq_iff bit_simps PTE_P_def) (rule exI [of _ 0], simp)
  ultimately show ?thesis
    using mappages_one [OF assms(1-3), of pa perm] assms(6)
    by (fastforce simp: va2pa_def Let_def)
qed

text \<open>A machine with six free pages and a fresh directory at \<open>0x200000\<close>.\<close>

lemma six_pages:
  "\<exists>s :: kphys. pt_ok s 0x200000 [0x201000, 0x202000, 0x203000, 0x204000, 0x205000] \<and>
     (\<forall>v. va2pa (ram (phys s)) 0x200000 v = None)"
proof -
  let ?ps = "[0x200000, 0x201000, 0x202000, 0x203000, 0x204000, 0x205000] :: nat list"
  have "distinct ?ps" "\<forall>a\<in>set ?ps. page_ok 0x101000 a" "0 < (0x101000 :: nat)"
    by (simp_all add: page_ok_def PGSIZE_def PHYSTOP_def)
  then obtain s :: kphys where "kpages s ?ps" using pool_of by blast
  from fresh_directory [OF this] show ?thesis by blast
qed

theorem mappages_translates_witness:
  "\<exists>(s :: kphys) s'. mappages 0x200000 0x3000 4096 0x205000 PTE_W s = Inr (0, s') \<and>
     va2pa (ram (phys s')) 0x200000 0x3004 = Some 0x205004"
proof -
  obtain s :: kphys where s: "pt_ok s 0x200000 [0x201000, 0x202000, 0x203000, 0x204000, 0x205000]"
    "\<forall>v. va2pa (ram (phys s)) 0x200000 v = None"
    using six_pages by blast
  have "PGROUNDDOWN 0x3000 = 0x3000" "PGROUNDDOWN 0x3004 = 0x3000"
    by (simp_all add: PGROUNDDOWN_def)
  with mappages_translates [OF s(1), of "0x3000" "0x205000" PTE_W] s(2)
  obtain s' where s': "mappages 0x200000 0x3000 4096 0x205000 PTE_W s = Inr (0, s')"
    "\<forall>v. va2pa (ram (phys s')) 0x200000 v =
       (if PGROUNDDOWN v = 0x3000 then Some (0x205000 OR (v AND 0xFFF))
        else va2pa (ram (phys s)) 0x200000 v)"
    by (auto simp: PTE_W_def)
  from spec [OF s'(2), of "0x3004"] \<open>PGROUNDDOWN 0x3004 = 0x3000\<close>
  have "va2pa (ram (phys s')) 0x200000 0x3004 = Some 0x205004" by simp
  with s'(1) show ?thesis by blast
qed

text \<open>
  Claim C4.  Growing an address space: with two free pages for every page to be added,
  \<^verbatim>\<open>allocuvm\<close> returns the new size, every address from the first page boundary after
  the old size up to the new size is then mapped, no other page changes its
  translation, and the directory stays sound.
\<close>

theorem allocuvm_grows:
  assumes "pt_ok s pgdir ps" and "oldsz \<le> newsz" and "newsz \<le> USERTOP"
    and "\<forall>v. PGROUNDUP oldsz \<le> v \<and> v < newsz \<longrightarrow> va2pa (ram (phys s)) pgdir v = None"
    and "2 * pages_upto (unat (PGROUNDUP oldsz)) (unat newsz) \<le> length ps"
  shows "\<exists>s' ps'. allocuvm pgdir oldsz newsz s = Inr (newsz, s') \<and> pt_ok s' pgdir ps' \<and>
     (\<forall>v. PGROUNDUP oldsz \<le> v \<and> v < newsz \<longrightarrow> va2pa (ram (phys s')) pgdir v \<noteq> None) \<and>
     (\<forall>v. v < PGROUNDUP oldsz \<or> newsz \<le> PGROUNDDOWN v \<longrightarrow>
        va2pa (ram (phys s')) pgdir v = va2pa (ram (phys s)) pgdir v)"
proof -
  have "unat newsz \<le> 0xA0000"
    using assms(3) by (simp add: USERTOP_def word_le_nat_alt)
  moreover have "unat (PGROUNDUP oldsz) mod PGSIZE = 0"
    by (simp add: PGROUNDUP_down unat_PGROUNDDOWN PGSIZE_def)
  ultimately show ?thesis
    using allocuvm_loop_maps [OF assms(1), of "unat (PGROUNDUP oldsz)" newsz oldsz] assms(2-5)
    by (simp add: allocuvm_def word_le_nat_alt word_less_nat_alt)
qed

theorem allocuvm_grows_witness:
  "\<exists>(s :: kphys) s'. allocuvm 0x200000 0 0x1800 s = Inr (0x1800, s') \<and>
     va2pa (ram (phys s')) 0x200000 0x17FF \<noteq> None"
proof -
  obtain s :: kphys where s: "pt_ok s 0x200000 [0x201000, 0x202000, 0x203000, 0x204000, 0x205000]"
    "\<forall>v. va2pa (ram (phys s)) 0x200000 v = None"
    using six_pages by blast
  have "PGROUNDUP 0 = 0" by (simp add: PGROUNDUP_def)
  moreover have "pages_upto 0 0x1800 = 2" by (simp add: pages_upto_def)
  ultimately obtain s' where s': "allocuvm 0x200000 0 0x1800 s = Inr (0x1800, s')"
    "\<forall>v. v < 0x1800 \<longrightarrow> va2pa (ram (phys s')) 0x200000 v \<noteq> None"
    using allocuvm_grows [OF s(1), of 0 "0x1800"] s(2) by (auto simp: USERTOP_def)
  have "va2pa (ram (phys s')) 0x200000 0x17FF \<noteq> None"
    by (rule mp [OF spec [OF s'(2)]]) simp
  with s'(1) show ?thesis by blast
qed

section \<open>Access through the page table in use\<close>

text \<open>
  The kernel reaches user memory through the page directory in \<^verbatim>\<open>cr3\<close>; an address
  with no present entry faults, and a fault in the kernel is fatal (\<^verbatim>\<open>trap\<close> panics).
\<close>

definition vload8 :: "'a kphys_scheme \<Rightarrow> uint \<Rightarrow> kerr + byte" where
  "vload8 s va = (case va2pa (ram (phys s)) (cr3 (this_cpu s)) va of
     None \<Rightarrow> Inl Fault | Some pa \<Rightarrow> Inr (ram (phys s) (unat pa)))"

definition vstore8 :: "uint \<Rightarrow> byte \<Rightarrow> 'a kphys_scheme \<Rightarrow> kerr + 'a kphys_scheme" where
  "vstore8 va b s = (case va2pa (ram (phys s)) (cr3 (this_cpu s)) va of
     None \<Rightarrow> Inl Fault | Some pa \<Rightarrow> Inr (ram_upd (\<lambda>m. m(unat pa := b)) s))"

definition vload32 :: "'a kphys_scheme \<Rightarrow> uint \<Rightarrow> kerr + uint" where
  "vload32 s va =
     bindR (vload8 s va) (\<lambda>b0. bindR (vload8 s (va + 1)) (\<lambda>b1.
     bindR (vload8 s (va + 2)) (\<lambda>b2. bindR (vload8 s (va + 3)) (\<lambda>b3.
     Inr (ucast b0 OR push_bit 8 (ucast b1) OR push_bit 16 (ucast b2) OR push_bit 24 (ucast b3))))))"

definition vstore32 :: "uint \<Rightarrow> uint \<Rightarrow> 'a kphys_scheme \<Rightarrow> kerr + 'a kphys_scheme" where
  "vstore32 va w s =
     bindR (vstore8 va (ucast w) s) (\<lambda>s. bindR (vstore8 (va + 1) (ucast (drop_bit 8 w)) s) (\<lambda>s.
     bindR (vstore8 (va + 2) (ucast (drop_bit 16 w)) s) (\<lambda>s.
     vstore8 (va + 3) (ucast (drop_bit 24 w)) s)))"

end
