(* ===== verification/Coroutine.thy ===== *)
theory Coroutine
  imports Machine
begin

text \<open>
  Kernel code that may give up the CPU.  A routine that reaches \<^verbatim>\<open>swtch\<close> stops there with
  the state it leaves to the rest of the machine, and goes on later from whatever state it
  is resumed in.  Its behaviour is a \<open>run\<close>: a normal return with a result and a state,
  a failure, or a switch with the state at the switch and the continuation.  Nothing is
  assumed of what happens between a switch and the resumption.
\<close>

section \<open>Runs\<close>

codatatype ('s, 'a) run =
    Ret 'a 's
  | Err kerr
  | Swtch 's "'s \<Rightarrow> ('s, 'a) run"

text \<open>Sequencing: \<open>bindK m f\<close> goes on with \<open>f\<close> where \<open>m\<close> returns.\<close>

primcorec bindK :: "('s, 'a) run \<Rightarrow> ('a \<Rightarrow> 's \<Rightarrow> ('s, 'b) run) \<Rightarrow> ('s, 'b) run" where
  "bindK m f =
     (case m of Ret x s \<Rightarrow> f x s | Err e \<Rightarrow> Err e | Swtch s k \<Rightarrow> Swtch s (\<lambda>s'. bindK (k s') f))"

lemma bindK_simps [simp]:
  "bindK (Ret x s) f = f x s"
  "bindK (Err e) f = Err e"
  "bindK (Swtch s k) f = Swtch s (\<lambda>s'. bindK (k s') f)"
  by (subst bindK.code; simp)+

text \<open>A routine that never switches, called from one that may.\<close>

definition doE :: "kerr + 'x \<Rightarrow> ('x \<Rightarrow> ('s, 'a) run) \<Rightarrow> ('s, 'a) run" where
  "doE m f = (case m of Inl e \<Rightarrow> Err e | Inr x \<Rightarrow> f x)"

lemma doE_simps [simp]: "doE (Inl e) f = Err e" "doE (Inr x) f = f x"
  by (simp_all add: doE_def)

lemma doE_bindR: "doE (bindR m g) f = doE m (\<lambda>x. doE (g x) f)"
  by (cases m) simp_all

lemma bindK_doE: "bindK (doE m g) f = doE m (\<lambda>x. bindK (g x) f)"
  by (cases m) simp_all

lemma bindK_assoc: "bindK (bindK m f) g = bindK m (\<lambda>x s. bindK (f x s) g)"
proof (coinduction arbitrary: m rule: run.coinduct_strong)
  case (Eq_run m)
  show ?case
    by (cases m) (auto simp: rel_fun_def)
qed

lemma doE_split:
  "P (doE m f) \<longleftrightarrow> (\<forall>e. m = Inl e \<longrightarrow> P (Err e)) \<and> (\<forall>x. m = Inr x \<longrightarrow> P (f x))"
  by (cases m) simp_all

section \<open>Loops that sleep\<close>

text \<open>
  One turn of a \<^verbatim>\<open>for(;;)\<close> loop whose only way round is through a \<^verbatim>\<open>sleep\<close>: it ends
  the loop with the rest of the routine, or naps, switching away in a state and doing
  \<open>post\<close> when resumed, before the next turn.  Such a loop may nap for ever.
\<close>

datatype ('s, 'a) turn = Leave (the_leave: "('s, 'a) run") | Nap (at_nap: 's) (after_nap: "'s \<Rightarrow> kerr + 's")

primcorec turns :: "('s \<Rightarrow> ('s, 'a) turn) \<Rightarrow> kerr + 's \<Rightarrow> ('s, 'a) run" where
  "turns b r =
     (case r of Inl e \<Rightarrow> Err e
      | Inr s \<Rightarrow> (case b s of Leave m \<Rightarrow> m | Nap s1 post \<Rightarrow> Swtch s1 (\<lambda>s'. turns b (post s'))))"

definition loopK :: "('s \<Rightarrow> ('s, 'a) turn) \<Rightarrow> 's \<Rightarrow> ('s, 'a) run" where
  "loopK b s = turns b (Inr s)"

lemma loopK_unfold:
  "loopK b s = (case b s of Leave m \<Rightarrow> m
     | Nap s1 post \<Rightarrow> Swtch s1 (\<lambda>s'. doE (post s') (loopK b)))"
proof (cases "b s")
  case (Leave m)
  then show ?thesis by (simp add: loopK_def turns.code)
next
  case (Nap s1 post)
  have "turns b (post s') = doE (post s') (loopK b)" for s'
    by (cases "post s'") (simp_all add: loopK_def turns.code [of b "Inl _"])
  with Nap show ?thesis by (simp add: loopK_def turns.code [of b "Inr s"])
qed

section \<open>What a run keeps\<close>

text \<open>
  \<open>keeps R G Q m\<close>: wherever \<open>m\<close> switches away \<open>G\<close> holds, and if it is always resumed
  in a state that satisfies \<open>R\<close> then it goes on so, and where it returns \<open>Q\<close> holds of
  the result and the state.  A failure, which stops the machine, satisfies it.
\<close>

coinductive keeps :: "('s \<Rightarrow> bool) \<Rightarrow> ('s \<Rightarrow> bool) \<Rightarrow> ('a \<Rightarrow> 's \<Rightarrow> bool) \<Rightarrow> ('s, 'a) run \<Rightarrow> bool"
  for R G :: "'s \<Rightarrow> bool" and Q :: "'a \<Rightarrow> 's \<Rightarrow> bool" where
  Ret: "Q x s \<Longrightarrow> keeps R G Q (Ret x s)"
| Err: "keeps R G Q (Err e)"
| Swtch: "G s \<Longrightarrow> (\<And>s'. R s' \<Longrightarrow> keeps R G Q (k s')) \<Longrightarrow> keeps R G Q (Swtch s k)"

inductive_simps keeps_simps [simp]:
  "keeps R G Q (Ret x s)" "keeps R G Q (Err e)" "keeps R G Q (Swtch s k)"

lemma keeps_doE: "(\<And>x. m = Inr x \<Longrightarrow> keeps R G Q (f x)) \<Longrightarrow> keeps R G Q (doE m f)"
  by (cases m) simp_all

lemma keeps_bindK:
  assumes "keeps R G P m" and "\<And>x s. P x s \<Longrightarrow> keeps R G Q (f x s)"
  shows "keeps R G Q (bindK m f)"
proof -
  have "\<exists>m'. n = bindK m' f \<and> keeps R G P m' \<or> keeps R G Q n \<Longrightarrow> keeps R G Q n" for n
  proof (coinduction arbitrary: n)
    case keeps
    then consider m' where "n = bindK m' f" "keeps R G P m'" | "keeps R G Q n" by auto
    then show ?case
    proof cases
      case 1
      show ?thesis
      proof (cases m')
        case (Ret x s)
        with 1 have "keeps R G Q n" using assms(2) by simp
        then show ?thesis by cases auto
      next
        case (Err e)
        with 1 show ?thesis by simp
      next
        case (Swtch s k)
        with 1 show ?thesis by auto
      qed
    next
      case 2
      then show ?thesis by cases auto
    qed
  qed
  with assms(1) show ?thesis by blast
qed

lemma keeps_loopK:
  assumes "P s"
    and leave: "\<And>s m. P s \<Longrightarrow> b s = Leave m \<Longrightarrow> keeps R G Q m"
    and nap: "\<And>s s1 post. P s \<Longrightarrow> b s = Nap s1 post \<Longrightarrow>
      G s1 \<and> (\<forall>s' s2. R s' \<longrightarrow> post s' = Inr s2 \<longrightarrow> P s2)"
  shows "keeps R G Q (loopK b s)"
proof -
  have "(\<exists>s. n = loopK b s \<and> P s) \<or> keeps R G Q n \<Longrightarrow> keeps R G Q n" for n
  proof (coinduction arbitrary: n)
    case keeps
    then consider s where "n = loopK b s" "P s" | "keeps R G Q n" by auto
    then show ?case
    proof cases
      case 1
      show ?thesis
      proof (cases "b s")
        case (Leave m)
        with leave 1 have "keeps R G Q n" by (simp add: loopK_unfold [of b s])
        then show ?thesis by cases auto
      next
        case (Nap s1 post)
        have "(\<exists>s. doE (post s') (loopK b) = loopK b s \<and> P s) \<or> keeps R G Q (doE (post s') (loopK b))"
          if "R s'" for s'
          using nap [OF 1(2) Nap] that by (cases "post s'") auto
        with nap [OF 1(2) Nap] Nap 1 show ?thesis by (simp add: loopK_unfold [of b s])
      qed
    next
      case 2
      then show ?thesis by cases auto
    qed
  qed
  with assms(1) show ?thesis by blast
qed

lemma keeps_mono:
  assumes "keeps R G Q m" and "\<And>s. R' s \<Longrightarrow> R s" and "\<And>s. G s \<Longrightarrow> G' s"
    and "\<And>x s. Q x s \<Longrightarrow> Q' x s"
  shows "keeps R' G' Q' m"
  using assms(1)
proof (coinduction arbitrary: m)
  case keeps
  then show ?case by cases (use assms(2-4) in auto)
qed

end
