(* ===== verification/Frame.thy ===== *)
theory Frame
  imports Vm Coroutine
begin

text \<open>
  Frame conditions of the lower routines: what a routine of the lock, page or address
  space layer leaves alone, whatever record extends its state.  Each routine of a layer
  keeps the whole extension, so the layers above need no case per field.
\<close>

section \<open>Lock routines\<close>

text \<open>Another record extension, another interrupt state: what all lock routines keep.\<close>

definition same_cpu :: "'a mach_scheme \<Rightarrow> 'a mach_scheme \<Rightarrow> bool" where
  "same_cpu s s' \<longleftrightarrow> mach.more s' = mach.more s \<and> me s' = me s \<and>
     cproc (this_cpu s') = cproc (this_cpu s)"

lemma popcli_same_cpu: "popcli s = Inr s' \<Longrightarrow> same_cpu s s'"
  by (auto simp: popcli_def Let_def same_cpu_def split: if_splits)

lemma acquire_frame: "acquire lk s = Inr s' \<Longrightarrow> same_cpu s s'"
  by (auto simp: acquire_def Let_def same_cpu_def split: if_splits)

lemma release_frame: "release lk s = Inr s' \<Longrightarrow> same_cpu s s'"
  by (auto simp: release_def same_cpu_def split: if_splits dest!: popcli_same_cpu)

lemma phys_more:
  fixes s s' :: "'a kphys_scheme"
  assumes "mach.more s' = mach.more s"
  shows "phys s' = phys s" "kphys.more s' = kphys.more s"
  using assms by (cases s, cases s', simp)+

lemma initlock_more [simp]: "mach.more (initlock lk nm s) = mach.more s"
  by (simp add: initlock_def)

lemma map_sum_eq_Inr [res_simps]: "map_sum id f m = Inr y \<longleftrightarrow> (\<exists>x. m = Inr x \<and> y = f x)"
  by (cases m) auto

text \<open>The layers above the physical memory, and the process the CPU runs.\<close>

definition same_rest :: "'a kphys_scheme \<Rightarrow> 'a kphys_scheme \<Rightarrow> bool" where
  "same_rest s s' \<longleftrightarrow> kphys.more s' = kphys.more s \<and>
     kernel_end (phys s') = kernel_end (phys s) \<and> me s' = me s \<and>
     cproc (this_cpu s') = cproc (this_cpu s)"

named_theorems frames \<open>routines that keep the layers above them\<close>

lemma same_rest_refl [simp]: "same_rest s s"
  by (simp add: same_rest_def)

lemma same_rest_trans: "same_rest s t \<Longrightarrow> same_rest t u \<Longrightarrow> same_rest s u"
  by (auto simp: same_rest_def)

lemma same_cpu_rest: "same_cpu s s' \<Longrightarrow> same_rest s s'"
  by (auto simp: same_cpu_def same_rest_def phys_more [of s' s])

lemma lock_rest [frames]:
  fixes s s' :: "'a kphys_scheme"
  shows "acquire lk s = Inr s' \<Longrightarrow> same_rest s s'"
    "release lk s = Inr s' \<Longrightarrow> same_rest s s'"
    "popcli s = Inr s' \<Longrightarrow> same_rest s s'"
  by (blast intro: same_cpu_rest acquire_frame release_frame popcli_same_cpu)+

lemma ram_upd_sel [simp]:
  "me (ram_upd f s) = me s" "cpus (ram_upd f s) = cpus s" "lks (ram_upd f s) = lks s"
  "kphys.more (ram_upd f s) = kphys.more s" "kernel_end (phys (ram_upd f s)) = kernel_end (phys s)"
  "freelist (phys (ram_upd f s)) = freelist (phys s)"
  by (simp_all add: ram_upd_def)

lemma initlock_sel [simp]:
  "me (initlock lk nm s) = me s" "cpus (initlock lk nm s) = cpus s"
  by (simp_all add: initlock_def)

lemma same_rest_upd [simp]:
  "same_rest s (ram_upd f t) \<longleftrightarrow> same_rest s t"
  "same_rest (ram_upd f s) t \<longleftrightarrow> same_rest s t"
  "same_rest s (pushcli t) \<longleftrightarrow> same_rest s t"
  "cproc c = cproc (this_cpu t) \<Longrightarrow> same_rest s (set_cpu c t) \<longleftrightarrow> same_rest s t"
  "same_rest s (initlock lk nm t) \<longleftrightarrow> same_rest s t"
  "same_rest (pushcli s) t \<longleftrightarrow> same_rest s t"
  "cproc c = cproc (this_cpu s) \<Longrightarrow> same_rest (set_cpu c s) t \<longleftrightarrow> same_rest s t"
  by (auto simp: same_rest_def phys_more(2) [of "pushcli t" t]
      phys_more(2) [of "set_cpu c t" t] phys_more(2) [of "initlock lk nm t" t]
      phys_more(2) [of "pushcli s" s] phys_more(2) [of "set_cpu c s" s])

section \<open>Changes of the layers above\<close>

text \<open>
  A change of the state that reads and writes nothing of the CPUs and the locks commutes
  with every lock routine.
\<close>

definition upper :: "('a mach_scheme \<Rightarrow> 'a mach_scheme) \<Rightarrow> bool" where
  "upper F \<longleftrightarrow> (\<forall>s c l v. cpus (F s) = cpus s \<and> lks (F s) = lks s \<and> me (F s) = me s \<and>
     set_cpu c (F s) = F (set_cpu c s) \<and> set_lk l v (F s) = F (set_lk l v s))"

lemma upper_lock:
  assumes "upper F"
  shows "cpus (F s) = cpus s" "lks (F s) = lks s" "me (F s) = me s"
    "set_cpu c (F s) = F (set_cpu c s)" "set_lk l v (F s) = F (set_lk l v s)"
    "pushcli (F s) = F (pushcli s)" "locked l (F s) = F (locked l s)" "quiet (F s) = F (quiet s)"
    "initlock l nm (F s) = F (initlock l nm s)"
    "cli_ok (F s) = cli_ok s" "holding l (F s) = holding l s"
    "acquire l (F s) = map_sum id F (acquire l s)"
    "release l (F s) = map_sum id F (release l s)"
  using assms
  by (simp_all add: upper_def pushcli_def locked_def quiet_def initlock_def cli_ok_def
      holding_def acquire_def release_def popcli_def Let_def)

section \<open>Pages and address spaces\<close>

lemma kalloc_rest [frames]: "kalloc s = Inr (p, s') \<Longrightarrow> same_rest s s'"
  by (auto simp: kalloc_def Let_def res_simps split: if_splits dest!: lock_rest)
     (auto simp: same_rest_def)

lemma kfree_rest [frames]: "kfree v s = Inr s' \<Longrightarrow> same_rest s s'"
  by (auto simp: kfree_def Let_def res_simps split: if_splits dest!: lock_rest)
     (auto simp: same_rest_def)

lemma walkpgdir_rest [frames]: "walkpgdir d va c s = Inr (p, s') \<Longrightarrow> same_rest s s'"
  by (auto simp: walkpgdir_def Let_def res_simps split: if_splits dest!: kalloc_rest)

lemma mappages_loop_rest:
  "mappages_loop n d a pa perm s = Inr (rc, s') \<Longrightarrow> same_rest s s'"
proof (induction n arbitrary: a pa s)
  case 0
  then show ?case
    by (subst (asm) mappages_loop.simps)
       (auto simp: Let_def res_simps split: if_splits dest!: walkpgdir_rest)
next
  case (Suc n)
  from Suc.prems obtain p t where t: "walkpgdir d a True s = Inr (p, t)"
    and "p = 0 \<and> t = s' \<or>
      mappages_loop n d (a + 4096) (pa + 4096) perm
        (ram_upd (\<lambda>m. store32 m p (pa OR perm OR PTE_P)) t) = Inr (rc, s')"
    by (subst (asm) mappages_loop.simps) (auto simp: Let_def res_simps split: if_splits)
  then show ?case
    using walkpgdir_rest [OF t] Suc.IH by (fastforce dest: same_rest_trans)
qed

lemma mappages_rest [frames]: "mappages d la n pa perm s = Inr (rc, s') \<Longrightarrow> same_rest s s'"
  by (auto simp: mappages_def Let_def dest: mappages_loop_rest)

lemma setupkvm_loop_rest: "setupkvm_loop ks d s = Inr (p, s') \<Longrightarrow> same_rest s s'"
proof (induction ks d s rule: setupkvm_loop.induct)
  case (2 p e perm ks pgdir s)
  then show ?case
    by (fastforce simp: res_simps split: if_splits dest: mappages_rest same_rest_trans)
qed simp

lemma setupkvm_rest [frames]: "setupkvm s = Inr (d, s') \<Longrightarrow> same_rest s s'"
  by (fastforce simp: setupkvm_def Let_def res_simps split: if_splits
      dest: kalloc_rest setupkvm_loop_rest same_rest_trans)

lemma inituvm_rest [frames]: "inituvm d i n s = Inr s' \<Longrightarrow> same_rest s s'"
  by (fastforce simp: inituvm_def Let_def res_simps split: if_splits
      dest: kalloc_rest mappages_rest same_rest_trans)

lemma deallocuvm_loop_rest: "deallocuvm_loop d oldsz a s = Inr s' \<Longrightarrow> same_rest s s'"
proof (induction d oldsz a s rule: deallocuvm_loop.induct)
  case (1 d oldsz a s)
  note prems = 1
  show ?case
  proof (cases "a < oldsz")
    case False
    then show ?thesis using prems(3) by (simp add: deallocuvm_loop.simps [of d oldsz a s])
  next
    case True
    with prems(3) obtain p t where w: "walkpgdir d (of_nat a) False s = Inr (p, t)"
      by (subst (asm) deallocuvm_loop.simps) (auto simp: res_simps)
    show ?thesis
    proof (cases "p \<noteq> 0 \<and> rd t p AND PTE_P \<noteq> 0")
      case False
      with w True prems(3) have "deallocuvm_loop d oldsz (a + PGSIZE) t = Inr s'"
        by (subst (asm) deallocuvm_loop.simps) (auto simp: res_simps)
      with prems(2) [OF True w refl] False walkpgdir_rest [OF w] show ?thesis
        by (blast intro: same_rest_trans)
    next
      case pres: True
      with w True prems(3) obtain u where u: "kfree (unat (PTE_ADDR (rd t p))) t = Inr u"
        and l: "deallocuvm_loop d oldsz (a + PGSIZE) (ram_upd (\<lambda>m. store32 m p 0) u) = Inr s'"
        and z: "unat (PTE_ADDR (rd t p)) \<noteq> 0"
        by (subst (asm) deallocuvm_loop.simps) (auto simp: res_simps Let_def split: if_splits)
      have "same_rest (ram_upd (\<lambda>m. store32 m p 0) u) s'"
        using prems(1) [OF True w refl pres refl z u] l by simp
      then show ?thesis
        using walkpgdir_rest [OF w] kfree_rest [OF u] by (auto simp: same_rest_def)
    qed
  qed
qed

lemma deallocuvm_rest [frames]: "deallocuvm d oldsz newsz s = Inr (sz, s') \<Longrightarrow> same_rest s s'"
  by (auto simp: deallocuvm_def res_simps split: if_splits dest: deallocuvm_loop_rest)

lemma allocuvm_loop_rest: "allocuvm_loop d oldsz newsz a s = Inr (sz, s') \<Longrightarrow> same_rest s s'"
proof (induction d oldsz newsz a s rule: allocuvm_loop.induct)
  case (1 d oldsz newsz a s)
  note prems = 1
  show ?case
  proof (cases "a < unat newsz")
    case False
    then show ?thesis using prems(2) by (simp add: allocuvm_loop.simps [of d oldsz newsz a s])
  next
    case True
    with prems(2) obtain p t where k: "kalloc s = Inr (p, t)"
      by (subst (asm) allocuvm_loop.simps) (auto simp: res_simps)
    show ?thesis
    proof (cases "p = 0")
      case z: True
      with k True prems(2) show ?thesis
        by (subst (asm) allocuvm_loop.simps)
           (auto simp: res_simps dest!: deallocuvm_rest kalloc_rest intro: same_rest_trans)
    next
      case False
      let ?t = "ram_upd (\<lambda>m. snd (memset m p 0 PGSIZE)) t"
      from False k True prems(2) obtain rc u
        where u: "mappages d (of_nat a) 4096 (of_nat p) (PTE_W OR PTE_U) ?t = Inr (rc, u)"
          and l: "allocuvm_loop d oldsz newsz (a + PGSIZE) u = Inr (sz, s')"
        by (subst (asm) allocuvm_loop.simps) (auto simp: res_simps Let_def)
      have "same_rest u s'" using prems(1) [OF True k refl False refl u refl] l by simp
      then show ?thesis
        using kalloc_rest [OF k] mappages_rest [OF u] by (auto simp: same_rest_def)
    qed
  qed
qed

lemma allocuvm_rest [frames]: "allocuvm d oldsz newsz s = Inr (sz, s') \<Longrightarrow> same_rest s s'"
  by (auto simp: allocuvm_def split: if_splits dest: allocuvm_loop_rest)

lemma freevm_tables_rest: "freevm_tables is d s = Inr s' \<Longrightarrow> same_rest s s'"
  by (induction "is" d s rule: freevm_tables.induct)
     (fastforce simp: Let_def res_simps split: if_splits dest: kfree_rest same_rest_trans)+

lemma freevm_rest [frames]: "freevm d s = Inr s' \<Longrightarrow> same_rest s s'"
  by (fastforce simp: freevm_def res_simps split: if_splits
      dest: deallocuvm_rest freevm_tables_rest kfree_rest same_rest_trans)

lemma vstore8_rest [frames]: "vstore8 va b s = Inr s' \<Longrightarrow> same_rest s s'"
  by (auto simp: vstore8_def split: option.splits)

lemma vstore32_rest [frames]: "vstore32 va w s = Inr s' \<Longrightarrow> same_rest s s'"
  by (fastforce simp: vstore32_def res_simps dest: vstore8_rest same_rest_trans)

lemma uva2ka_rest [frames]: "uva2ka d va s = Inr (p, s') \<Longrightarrow> same_rest s s'"
  by (auto simp: uva2ka_def res_simps split: if_splits dest: walkpgdir_rest)

lemma copyuvm_loop_rest: "copyuvm_loop pd sz d i s = Inr (r, s') \<Longrightarrow> same_rest s s'"
proof (induction pd sz d i s rule: copyuvm_loop.induct)
  case (1 pd sz d i s)
  note prems = 1
  show ?case
  proof (cases "i < sz")
    case False
    then show ?thesis using prems(2) by (simp add: copyuvm_loop.simps [of pd sz d i s])
  next
    case True
    from True prems(2) obtain p t m u where w: "walkpgdir pd (of_nat i) False s = Inr (p, t)"
      and k: "kalloc t = Inr (m, u)" and p: "p \<noteq> 0" "rd t p AND PTE_P \<noteq> 0"
      by (subst (asm) copyuvm_loop.simps) (auto simp: res_simps Let_def split: if_splits)
    have su: "same_rest s u"
      using walkpgdir_rest [OF w] kalloc_rest [OF k] by (rule same_rest_trans)
    show ?thesis
    proof (cases "m = 0")
      case m: True
      with True prems(2) w k p have "freevm d u = Inr s'"
        by (subst (asm) copyuvm_loop.simps) (auto simp: res_simps Let_def)
      then show ?thesis using su freevm_rest same_rest_trans by blast
    next
      case m: False
      define pa where "pa = unat (PTE_ADDR (rd t p))"
      define u1 where "u1 = ram_upd (\<lambda>b. snd (memmove b m pa PGSIZE)) u"
      from m True prems(2) w k p obtain rc v
        where v: "mappages d (of_nat i) 4096 (of_nat m) (PTE_W OR PTE_U) u1 = Inr (rc, v)"
          and l: "if rc < 0 then freevm d v = Inr s'
            else copyuvm_loop pd sz d (i + PGSIZE) v = Inr (r, s')"
        by (subst (asm) copyuvm_loop.simps)
           (auto simp: res_simps Let_def u1_def pa_def split: if_splits)
      have "same_rest v s'"
      proof (cases "rc < 0")
        case True
        with l show ?thesis using freevm_rest by simp
      next
        case False
        show ?thesis
          using prems(1) [OF True w refl _ _ pa_def k refl m u1_def v refl False] False l p by simp
      qed
      moreover have "same_rest s v"
        using su mappages_rest [OF v] same_rest_trans by (fastforce simp: u1_def)
      ultimately show ?thesis by (rule same_rest_trans [rotated])
    qed
  qed
qed

lemma copyuvm_rest [frames]: "copyuvm pd sz s = Inr (d, s') \<Longrightarrow> same_rest s s'"
  by (fastforce simp: copyuvm_def res_simps split: if_splits
      dest: setupkvm_rest copyuvm_loop_rest same_rest_trans)

lemma copyout_rest [frames]: "copyout d va p len s = Inr (rc, s') \<Longrightarrow> same_rest s s'"
proof (induction d va p len s rule: copyout.induct)
  case (1 d va p len s)
  note prems = 1
  show ?case
  proof (cases "0 < len")
    case False
    with prems(2) show ?thesis by (subst (asm) copyout.simps) simp
  next
    case True
    from True prems(2) obtain pa t where u: "uva2ka d (PGROUNDDOWN va) s = Inr (pa, t)"
      by (subst (asm) copyout.simps) (auto simp: res_simps Let_def)
    show ?thesis
    proof (cases "pa = 0")
      case z: True
      with True prems(2) u have "t = s'"
        by (subst (asm) copyout.simps) (auto simp: res_simps Let_def)
      then show ?thesis using uva2ka_rest [OF u] by simp
    next
      case False
      define off where "off = unat (va - PGROUNDDOWN va)"
      define n where "n = (if PGSIZE - off > len then len else PGSIZE - off)"
      define t1 where "t1 = ram_upd (\<lambda>m. snd (memmove m (pa + off) p n)) t"
      from False True prems(2) u
      have "copyout d (PGROUNDDOWN va + 4096) (p + n) (len - n) t1 = Inr (rc, s')"
        by (subst (asm) copyout.simps) (simp add: Let_def n_def t1_def off_def split: if_splits)
      moreover have "t1 = ram_upd (\<lambda>m. snd (memmove m (pa + unat (va - PGROUNDDOWN va)) p n)) t"
        by (simp add: t1_def off_def)
      ultimately have "same_rest t1 s'"
        using prems(1) [OF True refl u refl False refl n_def [unfolded off_def]] by blast
      then have "same_rest t s'" by (simp add: t1_def)
      then show ?thesis using uva2ka_rest [OF u] same_rest_trans by blast
    qed
  qed
qed

end
