(* ===== verification/Proc.thy ===== *)
theory Proc
  imports Frame
begin

text \<open>
  The process table and the scheduler's side of processes (\<^verbatim>\<open>kernel/proc.c\<close>, with
  \<^verbatim>\<open>struct proc\<close> of \<^verbatim>\<open>kernel/proc.h\<close> and \<^verbatim>\<open>switchuvm\<close> of \<^verbatim>\<open>kernel/vm.c\<close>).  A process is
  named by its slot.  The trap frame and the saved context live on the kernel stack page
  and are read and written there.  Routines that need the file layer (\<^verbatim>\<open>fork\<close>,
  \<^verbatim>\<open>clone\<close>, \<^verbatim>\<open>exit\<close>, \<^verbatim>\<open>userinit\<close>) are in a later theory.
\<close>

unbundle bit_operations_syntax

section \<open>State\<close>

datatype procstate = UNUSED | EMBRYO | SLEEPING | RUNNABLE | RUNNING | ZOMBIE

text \<open>
  The \<^verbatim>\<open>guard\<close> and \<^verbatim>\<open>mem_lock\<close> fields of slot \<open>i\<close> are the locks \<open>GuardLk i\<close> and
  \<open>MemLk i\<close>.  \<open>p_ofile\<close> and \<open>p_cwd\<close> index the file table and the inode cache.
\<close>

record proc =
  p_sz :: uint
  p_pgdir :: nat
  p_kstack :: nat
  p_state :: procstate
  p_pid :: int
  p_parent :: "nat option"
  p_tf :: nat
  p_context :: nat
  p_chan :: "chan option"
  p_killed :: bool
  p_ofile :: "nat \<Rightarrow> nat option"
  p_cwd :: "nat option"
  p_name :: "nat \<Rightarrow> byte"
  p_mem_lock_ptr :: lockid

text \<open>\<open>trapret\<close> and \<open>forkret_at\<close> are the addresses of those routines.\<close>

record ptab =
  procs :: "nat \<Rightarrow> proc"
  nextpid :: int
  initproc :: "nat option"
  trapret :: uint
  forkret_at :: uint

record kproc = kphys +
  ptable :: ptab

definition NPROC :: nat where "NPROC = 64"
definition NOFILE :: nat where "NOFILE = 16"
definition KSTACKSIZE :: nat where "KSTACKSIZE = 4096"

text \<open>Sizes and field offsets of \<^verbatim>\<open>struct trapframe\<close> and \<^verbatim>\<open>struct context\<close>.\<close>

definition TF_SIZE :: nat where "TF_SIZE = 76"
definition TF_EBP :: nat where "TF_EBP = 8"
definition TF_EAX :: nat where "TF_EAX = 28"
definition TF_EIP :: nat where "TF_EIP = 56"
definition TF_ESP :: nat where "TF_ESP = 68"
definition CTX_SIZE :: nat where "CTX_SIZE = 20"
definition CTX_EIP :: nat where "CTX_EIP = 16"

abbreviation pr :: "'a kproc_scheme \<Rightarrow> nat \<Rightarrow> proc" where
  "pr s i \<equiv> procs (ptable s) i"

definition upd_proc :: "nat \<Rightarrow> (proc \<Rightarrow> proc) \<Rightarrow> 'a kproc_scheme \<Rightarrow> 'a kproc_scheme" where
  "upd_proc i f s = s\<lparr>ptable := (ptable s)\<lparr>procs := (procs (ptable s))(i := f (pr s i))\<rparr>\<rparr>"

text \<open>A loop over the table whose body changes only the slot it is at.\<close>

definition for_procs :: "(proc \<Rightarrow> proc) \<Rightarrow> 'a kproc_scheme \<Rightarrow> 'a kproc_scheme" where
  "for_procs f s = s\<lparr>ptable := (ptable s)\<lparr>procs := (\<lambda>i. if i < NPROC then f (pr s i) else pr s i)\<rparr>\<rparr>"

definition find_proc :: "(proc \<Rightarrow> bool) \<Rightarrow> 'a kproc_scheme \<Rightarrow> nat option" where
  "find_proc P s = find (\<lambda>i. P (pr s i)) [0..<NPROC]"

text \<open>The per-CPU \<^verbatim>\<open>proc\<close>; using it when it is null faults.\<close>

definition curproc :: "'a mach_scheme \<Rightarrow> kerr + nat" where
  "curproc s = (case cproc (this_cpu s) of None \<Rightarrow> Inl Fault | Some p \<Rightarrow> Inr p)"

section \<open>Allocation of a slot\<close>

definition pinit :: "'a kproc_scheme \<Rightarrow> 'a kproc_scheme" where
  "pinit s = initlock PtableLk ''ptable'' s"

text \<open>
  The kernel stack of a new process: a trap frame at the top, below it the return address
  \<^verbatim>\<open>trapret\<close> and a cleared context that starts at \<^verbatim>\<open>forkret\<close>.
\<close>

definition setup_kstack :: "nat \<Rightarrow> nat \<Rightarrow> 'a kproc_scheme \<Rightarrow> 'a kproc_scheme" where
  "setup_kstack i ks s =
     (let sp = ks + KSTACKSIZE; sp1 = sp - TF_SIZE; sp2 = sp1 - 4; sp3 = sp2 - CTX_SIZE;
          s1 = upd_proc i (\<lambda>p. p\<lparr>p_kstack := ks, p_tf := sp1, p_context := sp3\<rparr>) s
      in ram_upd (\<lambda>m. store32 (snd (memset (store32 m sp2 (trapret (ptable s))) sp3 0 CTX_SIZE))
           (sp3 + CTX_EIP) (forkret_at (ptable s))) s1)"

definition allocproc :: "'a kproc_scheme \<Rightarrow> kerr + nat option \<times> 'a kproc_scheme" where
  "allocproc s =
     bindR (acquire PtableLk s) (\<lambda>s1.
     case find_proc (\<lambda>p. p_state p = UNUSED) s1 of
       None \<Rightarrow> bindR (release PtableLk s1) (\<lambda>s2. Inr (None, s2))
     | Some i \<Rightarrow>
       let s2 = upd_proc i (\<lambda>p. p\<lparr>p_state := EMBRYO, p_pid := nextpid (ptable s1)\<rparr>) s1;
           s3 = s2\<lparr>ptable := (ptable s2)\<lparr>nextpid := nextpid (ptable s2) + 1\<rparr>\<rparr>
       in bindR (release PtableLk s3) (\<lambda>s4.
       let s5 = initlock (MemLk i) ''mem_lock'' (initlock (GuardLk i) ''guard'' s4);
           s6 = upd_proc i (\<lambda>p. p\<lparr>p_mem_lock_ptr := MemLk i\<rparr>) s5
       in bindR (kalloc s6) (\<lambda>(ks, s7).
       if ks = 0 then Inr (None, upd_proc i (\<lambda>p. p\<lparr>p_kstack := 0, p_state := UNUSED\<rparr>) s7)
       else Inr (Some i, setup_kstack i ks s7))))"

section \<open>Address spaces of processes\<close>

definition switchuvm :: "nat \<Rightarrow> 'a kproc_scheme \<Rightarrow> kerr + 'a kproc_scheme" where
  "switchuvm i s =
     (let s1 = pushcli s in
      bindR (curproc s1) (\<lambda>cur.
      let s2 = set_cpu ((this_cpu s1)\<lparr>ts_esp0 := p_kstack (pr s1 cur) + KSTACKSIZE\<rparr>) s1 in
      if p_pgdir (pr s2 i) = 0 then Inl (Panic ''switchuvm: no pgdir'')
      else popcli (set_cpu ((this_cpu s2)\<lparr>cr3 := p_pgdir (pr s2 i)\<rparr>) s2)))"

text \<open>
  \<^verbatim>\<open>growproc\<close>: the new size is stored in every process that shares the page directory.
\<close>

definition growproc :: "int \<Rightarrow> 'a kproc_scheme \<Rightarrow> kerr + int \<times> 'a kproc_scheme" where
  "growproc n s =
     bindR (curproc s) (\<lambda>cur.
     let pg = p_pgdir (pr s cur); sz0 = p_sz (pr s cur) in
     bindR (if n > 0 then allocuvm pg sz0 (sz0 + of_int n) s
            else if n < 0 then deallocuvm pg sz0 (sz0 + of_int n) s
            else Inr (sz0, s)) (\<lambda>(sz, s1).
     if n \<noteq> 0 \<and> sz = 0 then Inr (-1, s1)
     else
       let s2 = upd_proc cur (\<lambda>p. p\<lparr>p_sz := sz\<rparr>) s1 in
       bindR (acquire PtableLk s2) (\<lambda>s3.
       let s4 = for_procs (\<lambda>p. if p_pgdir p = p_pgdir (pr s3 cur)
                                then p\<lparr>p_sz := p_sz (pr s3 cur)\<rparr> else p) s3 in
       bindR (release PtableLk s4) (\<lambda>s5.
       bindR (switchuvm cur s5) (\<lambda>s6. Inr (0, s6))))))"

section \<open>Sleeping and waking\<close>

text \<open>
  What \<^verbatim>\<open>sched\<close> checks and saves before \<^verbatim>\<open>swtch\<close>: the result is \<^verbatim>\<open>cpu->intena\<close>.
\<close>

definition sched_enter :: "'a kproc_scheme \<Rightarrow> kerr + bool" where
  "sched_enter s =
     (if \<not> holding PtableLk s then Inl (Panic ''sched ptable.lock'')
      else if ncli (this_cpu s) \<noteq> 1 then Inl (Panic ''sched locks'')
      else bindR (curproc s) (\<lambda>cur.
        if p_state (pr s cur) = RUNNING then Inl (Panic ''sched running'')
        else if iflag (this_cpu s) then Inl (Panic ''sched interruptible'')
        else Inr (intena (this_cpu s))))"

definition sched_leave :: "bool \<Rightarrow> 'a kproc_scheme \<Rightarrow> 'a kproc_scheme" where
  "sched_leave i s = set_cpu ((this_cpu s)\<lparr>intena := i\<rparr>) s"

definition sched :: "'a kproc_scheme \<Rightarrow> ('a kproc_scheme, unit) run" where
  "sched s = doE (sched_enter s) (\<lambda>i. Swtch s (\<lambda>s'. Ret () (sched_leave i s')))"

definition yield :: "'a kproc_scheme \<Rightarrow> ('a kproc_scheme, unit) run" where
  "yield s =
     doE (acquire PtableLk s) (\<lambda>s1.
     doE (curproc s1) (\<lambda>cur.
     bindK (sched (upd_proc cur (\<lambda>p. p\<lparr>p_state := RUNNABLE\<rparr>) s1)) (\<lambda>_ s2.
     doE (release PtableLk s2) (Ret ()))))"

text \<open>\<^verbatim>\<open>sleep\<close> up to its call of \<^verbatim>\<open>sched\<close>, and after it.\<close>

definition sleep_enter :: "chan \<Rightarrow> lockid \<Rightarrow> 'a kproc_scheme \<Rightarrow> kerr + 'a kproc_scheme" where
  "sleep_enter ch lk s =
     (case cproc (this_cpu s) of
        None \<Rightarrow> Inl (Panic ''sleep'')
      | Some cur \<Rightarrow>
        bindR (if lk \<noteq> PtableLk then bindR (acquire PtableLk s) (release lk) else Inr s) (\<lambda>s1.
        Inr (upd_proc cur (\<lambda>p. p\<lparr>p_chan := Some ch, p_state := SLEEPING\<rparr>) s1)))"

definition sleep_leave :: "lockid \<Rightarrow> 'a kproc_scheme \<Rightarrow> kerr + 'a kproc_scheme" where
  "sleep_leave lk s =
     bindR (curproc s) (\<lambda>cur.
     let s1 = upd_proc cur (\<lambda>p. p\<lparr>p_chan := None\<rparr>) s in
     if lk \<noteq> PtableLk then bindR (release PtableLk s1) (acquire lk) else Inr s1)"

definition sleep :: "chan \<Rightarrow> lockid \<Rightarrow> 'a kproc_scheme \<Rightarrow> ('a kproc_scheme, unit) run" where
  "sleep ch lk s =
     doE (sleep_enter ch lk s) (\<lambda>s1. bindK (sched s1) (\<lambda>_ s2. doE (sleep_leave lk s2) (Ret ())))"

text \<open>A turn of a loop that ends in \<^verbatim>\<open>sleep(ch, lk)\<close>.\<close>

definition nap :: "chan \<Rightarrow> lockid \<Rightarrow> 'a kproc_scheme \<Rightarrow> ('a kproc_scheme, 'b) turn" where
  "nap ch lk s =
     (case bindR (sleep_enter ch lk s) (\<lambda>s1. bindR (sched_enter s1) (\<lambda>i. Inr (i, s1))) of
        Inl e \<Rightarrow> Leave (Err e)
      | Inr (i, s1) \<Rightarrow> Nap s1 (\<lambda>s2. sleep_leave lk (sched_leave i s2)))"

lemma loopK_nap:
  assumes "b s = nap ch lk s0"
  shows "loopK b s = bindK (sleep ch lk s0) (\<lambda>_. loopK b)"
proof (cases "sleep_enter ch lk s0")
  case (Inl e)
  with assms show ?thesis by (simp add: loopK_unfold [of b s] nap_def sleep_def)
next
  case (Inr s1)
  with assms show ?thesis
    by (cases "sched_enter s1")
       (simp_all add: loopK_unfold [of b s] nap_def sleep_def sched_def bindK_doE)
qed

definition wakeup1 :: "chan \<Rightarrow> 'a kproc_scheme \<Rightarrow> 'a kproc_scheme" where
  "wakeup1 ch s =
     for_procs (\<lambda>p. if p_state p = SLEEPING \<and> p_chan p = Some ch
                    then p\<lparr>p_state := RUNNABLE\<rparr> else p) s"

definition wakeup :: "chan \<Rightarrow> 'a kproc_scheme \<Rightarrow> kerr + 'a kproc_scheme" where
  "wakeup ch s = bindR (acquire PtableLk s) (\<lambda>s1. release PtableLk (wakeup1 ch s1))"

definition kill :: "int \<Rightarrow> 'a kproc_scheme \<Rightarrow> kerr + int \<times> 'a kproc_scheme" where
  "kill pid s =
     bindR (acquire PtableLk s) (\<lambda>s1.
     case find_proc (\<lambda>p. p_pid p = pid) s1 of
       None \<Rightarrow> bindR (release PtableLk s1) (\<lambda>s2. Inr (-1, s2))
     | Some i \<Rightarrow>
       bindR (release PtableLk (upd_proc i (\<lambda>p. p\<lparr>p_killed := True,
           p_state := (if p_state p = SLEEPING then RUNNABLE else p_state p)\<rparr>) s1)) (\<lambda>s2.
       Inr (0, s2)))"

section \<open>The scheduler\<close>

text \<open>
  One pass of a CPU's scheduler over the slots still to visit: a runnable process gets the
  CPU, its page directory and the state \<^verbatim>\<open>RUNNING\<close>; the pass goes on, from whatever
  state that process leaves, when it switches back.
\<close>

fun sched_pass :: "nat list \<Rightarrow> 'a kproc_scheme \<Rightarrow> ('a kproc_scheme, unit) run" where
  "sched_pass [] s = Ret () s"
| "sched_pass (i # is) s =
     (if p_state (pr s i) \<noteq> RUNNABLE then sched_pass is s
      else
        let s1 = set_cpu ((this_cpu s)\<lparr>cproc := Some i\<rparr>) s in
        doE (switchuvm i s1) (\<lambda>s2.
        Swtch (upd_proc i (\<lambda>p. p\<lparr>p_state := RUNNING\<rparr>) s2) (\<lambda>s3.
        let s4 = switchkvm s3; s5 = set_cpu ((this_cpu s4)\<lparr>cproc := None\<rparr>) s4 in
        sched_pass is s5)))"

text \<open>One turn of the \<^verbatim>\<open>for(;;)\<close> of \<^verbatim>\<open>scheduler\<close>.\<close>

definition scheduler_turn :: "'a kproc_scheme \<Rightarrow> ('a kproc_scheme, unit) run" where
  "scheduler_turn s =
     (let s1 = set_cpu ((this_cpu s)\<lparr>iflag := True\<rparr>) s in
      doE (acquire PtableLk s1) (\<lambda>s2.
      bindK (sched_pass [0..<NPROC] s2) (\<lambda>_ s3.
      doE (release PtableLk s3) (Ret ()))))"

definition forkret :: "'a kproc_scheme \<Rightarrow> kerr + 'a kproc_scheme" where
  "forkret s = release PtableLk s"

section \<open>Waiting for children and threads\<close>

definition reap_slot :: "nat \<Rightarrow> 'a kproc_scheme \<Rightarrow> 'a kproc_scheme" where
  "reap_slot i = upd_proc i (\<lambda>p. p\<lparr>p_state := UNUSED, p_pid := 0, p_parent := None,
     p_name := (p_name p)(0 := 0), p_killed := False\<rparr>)"

text \<open>
  The body of the \<^verbatim>\<open>for(;;)\<close> of \<^verbatim>\<open>wait\<close>: a child is a process with this parent and
  another page directory.  A zombie that init has adopted is reported and not reaped.
\<close>

definition wait_body :: "'a kproc_scheme \<Rightarrow> ('a kproc_scheme, int) turn" where
  "wait_body s =
     (case curproc s of Inl e \<Rightarrow> Leave (Err e) | Inr cur \<Rightarrow>
      let child = (\<lambda>p. p_parent p = Some cur \<and> p_pgdir p \<noteq> p_pgdir (pr s cur)) in
      case find_proc (\<lambda>p. child p \<and> p_state p = ZOMBIE) s of
        Some i \<Rightarrow> Leave
          (let pid = p_pid (pr s i) in
           doE (if \<not> (p_parent (pr s i) = initproc (ptable s) \<and> p_pid (pr s i) > 2)
                then bindR (kfree (p_kstack (pr s i)) s) (\<lambda>s1.
                  let s2 = upd_proc i (\<lambda>p. p\<lparr>p_kstack := 0\<rparr>) s1 in
                  bindR (freevm (p_pgdir (pr s2 i)) s2) (\<lambda>s3. Inr (reap_slot i s3)))
                else Inr s) (\<lambda>s4.
           doE (release PtableLk s4) (Ret pid)))
      | None \<Rightarrow>
          if find_proc child s = None \<or> p_killed (pr s cur)
          then Leave (doE (release PtableLk s) (Ret (-1)))
          else nap (ChProc cur) PtableLk s)"

definition wait :: "'a kproc_scheme \<Rightarrow> ('a kproc_scheme, int) run" where
  "wait s = doE (acquire PtableLk s) (loopK wait_body)"

text \<open>\<^verbatim>\<open>join\<close> waits for a thread: a process with this parent and the same page directory.\<close>

definition join_body :: "'a kproc_scheme \<Rightarrow> ('a kproc_scheme, int) turn" where
  "join_body s =
     (case curproc s of Inl e \<Rightarrow> Leave (Err e) | Inr cur \<Rightarrow>
      let thread = (\<lambda>p. p_parent p = Some cur \<and> p_pgdir p = p_pgdir (pr s cur)) in
      case find_proc (\<lambda>p. thread p \<and> p_state p = ZOMBIE) s of
        Some i \<Rightarrow> Leave
          (let pid = p_pid (pr s i) in
           doE (kfree (p_kstack (pr s i)) s) (\<lambda>s1.
           doE (release PtableLk (reap_slot i (upd_proc i (\<lambda>p. p\<lparr>p_kstack := 0\<rparr>) s1))) (Ret pid)))
      | None \<Rightarrow>
          if find_proc thread s = None \<or> p_killed (pr s cur)
          then Leave (doE (release PtableLk s) (Ret (-1)))
          else nap (ChProc cur) PtableLk s)"

definition join :: "'a kproc_scheme \<Rightarrow> ('a kproc_scheme, int) run" where
  "join s = doE (acquire PtableLk s) (loopK join_body)"

text \<open>
  \<^verbatim>\<open>orphanage\<close>: the search for a last sibling has no effect, its only use being commented
  out in the code.
\<close>

definition orphanage :: "int \<Rightarrow> 'a kproc_scheme \<Rightarrow> kerr + int \<times> 'a kproc_scheme" where
  "orphanage pid s =
     bindR (acquire PtableLk s) (\<lambda>s1.
     case find_proc (\<lambda>p. p_pid p = pid) s1 of
       None \<Rightarrow> bindR (release PtableLk s1) (\<lambda>s2. Inr (-1, s2))
     | Some i \<Rightarrow>
       bindR (kfree (p_kstack (pr s1 i)) s1) (\<lambda>s2.
       bindR (release PtableLk (reap_slot i (upd_proc i (\<lambda>p. p\<lparr>p_kstack := 0\<rparr>) s2))) (\<lambda>s3.
       Inr (pid, s3))))"

section \<open>Locks of user threads\<close>

text \<open>The lock word is the user address \<open>l\<close>; the guard is that of the calling process.\<close>

definition lock_body :: "uint \<Rightarrow> 'a kproc_scheme \<Rightarrow> ('a kproc_scheme, int) turn" where
  "lock_body l s =
     (case bindR (curproc s) (\<lambda>cur. bindR (vload32 s l) (\<lambda>w. Inr (cur, w))) of
        Inl e \<Rightarrow> Leave (Err e)
      | Inr (cur, w) \<Rightarrow>
        if w = 1 then nap (ChUser l) (GuardLk cur) s
        else Leave (doE (vstore32 l 1 s) (\<lambda>s1. doE (release (GuardLk cur) s1) (Ret 0))))"

definition lock :: "uint \<Rightarrow> 'a kproc_scheme \<Rightarrow> ('a kproc_scheme, int) run" where
  "lock l s = doE (curproc s) (\<lambda>cur. doE (acquire (GuardLk cur) s) (loopK (lock_body l)))"

definition unlock :: "uint \<Rightarrow> 'a kproc_scheme \<Rightarrow> kerr + int \<times> 'a kproc_scheme" where
  "unlock l s =
     bindR (curproc s) (\<lambda>cur.
     bindR (acquire (GuardLk cur) s) (\<lambda>s1.
     bindR (vstore32 l 0 s1) (\<lambda>s2.
     bindR (wakeup (ChUser l) s2) (\<lambda>s3.
     bindR (release (GuardLk cur) s3) (\<lambda>s4. Inr (0, s4))))))"

end
