(* ===== verification/ProcInv.thy ===== *)
theory ProcInv
  imports Proc
begin

text \<open>
  What the process-table routines of \<^verbatim>\<open>kernel/proc.c\<close> keep and do: the invariant of the
  process identifiers, the contract of \<^verbatim>\<open>sleep\<close> and \<^verbatim>\<open>wakeup\<close>, \<^verbatim>\<open>join\<close> and the choice the
  scheduler makes.
\<close>


section \<open>The process table and the routines below\<close>

lemma same_rest_ptable:
  fixes s s' :: "'a kproc_scheme"
  assumes "same_rest s s'"
  shows "ptable s' = ptable s" "kproc.more s' = kproc.more s" "me s' = me s"
    "cproc (cpus s' (me s)) = cproc (cpus s (me s))"
proof -
  have "kphys.more s' = kphys.more s" using assms by (simp add: same_rest_def)
  then show "ptable s' = ptable s" "kproc.more s' = kproc.more s"
    by (cases s, cases s', simp)+
qed (use assms in \<open>auto simp: same_rest_def\<close>)

lemma ptable_below [simp]:
  "ptable (ram_upd f s) = ptable s" "ptable (set_cpu c s) = ptable s"
  "ptable (pushcli s) = ptable s" "ptable (initlock lk nm s) = ptable s"
  "ptable (set_lk lk l s) = ptable s" "ptable (s\<lparr>phys := q\<rparr>) = ptable s"
  "ptable (locked lk s) = ptable s" "ptable (quiet s) = ptable s"
  by (simp_all add: ram_upd_def set_cpu_def pushcli_def initlock_def set_lk_def locked_def
      quiet_def Let_def)

lemma upd_proc_sel [simp]:
  "procs (ptable (upd_proc i f s)) = (procs (ptable s))(i := f (pr s i))"
  "nextpid (ptable (upd_proc i f s)) = nextpid (ptable s)"
  "initproc (ptable (upd_proc i f s)) = initproc (ptable s)"
  "cpus (upd_proc i f s) = cpus s" "lks (upd_proc i f s) = lks s" "me (upd_proc i f s) = me s"
  "phys (upd_proc i f s) = phys s"
  by (simp_all add: upd_proc_def)

lemma for_procs_sel [simp]:
  "procs (ptable (for_procs f s)) = (\<lambda>i. if i < NPROC then f (pr s i) else pr s i)"
  "nextpid (ptable (for_procs f s)) = nextpid (ptable s)"
  "initproc (ptable (for_procs f s)) = initproc (ptable s)"
  "cpus (for_procs f s) = cpus s" "lks (for_procs f s) = lks s" "me (for_procs f s) = me s"
  "phys (for_procs f s) = phys s"
  by (simp_all add: for_procs_def)

lemma find_proc_Some: "find_proc P s = Some i \<Longrightarrow> i < NPROC \<and> P (pr s i) \<and> (\<forall>j<i. \<not> P (pr s j))"
  by (auto simp: find_proc_def find_Some_iff)

lemma find_proc_None: "find_proc P s = None \<longleftrightarrow> (\<forall>i<NPROC. \<not> P (pr s i))"
  by (auto simp: find_proc_def find_None_iff)

lemma curproc_Inr: "curproc s = Inr p \<longleftrightarrow> cproc (this_cpu s) = Some p"
  by (simp add: curproc_def split: option.splits)

section \<open>Process identifiers\<close>

text \<open>
  The invariant of the table: every slot in use has a positive identifier that was handed
  out before, and no two of them share one.
\<close>

definition ptab_ok :: "ptab \<Rightarrow> bool" where
  "ptab_ok t \<longleftrightarrow> 0 < nextpid t \<and>
     (\<forall>i<NPROC. p_state (procs t i) \<noteq> UNUSED \<longrightarrow> 0 < p_pid (procs t i) \<and> p_pid (procs t i) < nextpid t) \<and>
     (\<forall>i<NPROC. \<forall>j<NPROC. p_state (procs t i) \<noteq> UNUSED \<longrightarrow> p_state (procs t j) \<noteq> UNUSED \<longrightarrow>
        p_pid (procs t i) = p_pid (procs t j) \<longrightarrow> i = j)"

text \<open>The running process of this CPU, and the state a process is resumed in.\<close>

definition cur_running :: "'a kproc_scheme \<Rightarrow> bool" where
  "cur_running s \<longleftrightarrow> (\<forall>p. cproc (this_cpu s) = Some p \<longrightarrow> p < NPROC \<and> p_state (pr s p) = RUNNING)"

definition table_ok :: "'a kproc_scheme \<Rightarrow> bool" where
  "table_ok s \<longleftrightarrow> ptab_ok (ptable s)"

definition going :: "'a kproc_scheme \<Rightarrow> bool" where
  "going s \<longleftrightarrow> table_ok s \<and> cur_running s"

lemma going_below:
  assumes "same_rest s s'"
  shows "table_ok s' = table_ok s" "cur_running s' = cur_running s" "going s' = going s"
  using same_rest_ptable [OF assms] by (simp_all add: going_def cur_running_def table_ok_def)

text \<open>A change of slots that frees them or keeps their identifiers keeps the invariant.\<close>

lemma table_ok_change:
  assumes "table_ok s" and "nextpid (ptable s') = nextpid (ptable s)"
    and "\<And>i. i < NPROC \<Longrightarrow> p_state (pr s' i) \<noteq> UNUSED \<Longrightarrow>
      p_state (pr s i) \<noteq> UNUSED \<and> p_pid (pr s' i) = p_pid (pr s i)"
  shows "table_ok s'"
  using assms unfolding table_ok_def ptab_ok_def by metis

lemma table_ok_upd [simp]:
  "table_ok (ram_upd f s) = table_ok s" "table_ok (set_cpu c s) = table_ok s"
  "table_ok (initlock lk nm s) = table_ok s" "table_ok (pushcli s) = table_ok s"
  by (simp_all add: table_ok_def)

lemma allocproc_keeps:
  assumes "going s" and "allocproc s = Inr (r, s')"
  shows "going s' \<and> (\<forall>i. r = Some i \<longrightarrow> i < NPROC \<and> p_state (pr s i) = UNUSED \<and>
    p_state (pr s' i) = EMBRYO \<and> p_pid (pr s' i) = nextpid (ptable s) \<and>
    (\<forall>j. j \<noteq> i \<longrightarrow> pr s' j = pr s j))"
proof -
  obtain s1 where a: "acquire PtableLk s = Inr s1"
    using assms(2) by (auto simp: allocproc_def res_simps)
  note r1 = same_rest_ptable [OF lock_rest(1) [OF a]]
  show ?thesis
  proof (cases "find_proc (\<lambda>p. p_state p = UNUSED) s1")
    case None
    with a assms(2) have "release PtableLk s1 = Inr s'" "r = None"
      by (auto simp: allocproc_def res_simps)
    with going_below(3) [OF lock_rest(1) [OF a]] assms(1)
      going_below(3) [OF lock_rest(2) [OF \<open>release PtableLk s1 = Inr s'\<close>]]
    show ?thesis by simp
  next
    case (Some i)
    note i = find_proc_Some [OF Some]
    let ?s2 = "upd_proc i (\<lambda>p. p\<lparr>p_state := EMBRYO, p_pid := nextpid (ptable s1)\<rparr>) s1"
    let ?s3 = "?s2\<lparr>ptable := (ptable ?s2)\<lparr>nextpid := nextpid (ptable ?s2) + 1\<rparr>\<rparr>"
    from a Some assms(2) obtain s4 ks s7 where r: "release PtableLk ?s3 = Inr s4"
      and k: "kalloc (upd_proc i (\<lambda>p. p\<lparr>p_mem_lock_ptr := MemLk i\<rparr>)
          (initlock (MemLk i) ''mem_lock'' (initlock (GuardLk i) ''guard'' s4))) = Inr (ks, s7)"
      and e: "if ks = 0 then r = None \<and> s' = upd_proc i (\<lambda>p. p\<lparr>p_kstack := 0, p_state := UNUSED\<rparr>) s7
        else r = Some i \<and> s' = setup_kstack i ks s7"
      by (auto simp: allocproc_def res_simps Let_def split: if_splits)
    note r4 = same_rest_ptable [OF lock_rest(2) [OF r]]
    note r7 = same_rest_ptable [OF kalloc_rest [OF k]]
    have p7: "procs (ptable s7) = (procs (ptable s))(i := (pr s i)\<lparr>p_state := EMBRYO,
        p_pid := nextpid (ptable s), p_mem_lock_ptr := MemLk i\<rparr>)"
      and n7: "nextpid (ptable s7) = nextpid (ptable s) + 1"
      by (simp_all add: r7 r4 r1)
    have c7: "cproc (this_cpu s7) = cproc (this_cpu s)"
      using r7(4) r4(4) r1(4) r7(3) r4(3) r1(3) by simp
    have st: "p_state (pr s i) = UNUSED" using i by (simp add: r1)
    have cur: "cproc (this_cpu s) = Some p \<Longrightarrow> p < NPROC \<and> p_state (pr s p) = RUNNING \<and> p \<noteq> i" for p
      using assms(1) st by (auto simp: going_def cur_running_def)
    show ?thesis
    proof (cases "ks = 0")
      case True
      with e have s': "r = None" "s' = upd_proc i (\<lambda>p. p\<lparr>p_kstack := 0, p_state := UNUSED\<rparr>) s7"
        by simp_all
      have "table_ok s'"
        using assms(1) i unfolding s' table_ok_def ptab_ok_def going_def
        by (auto simp: p7 n7)
      moreover have "cur_running s'"
        using cur by (auto simp: s' cur_running_def c7 p7)
      ultimately show ?thesis by (simp add: going_def s')
    next
      case False
      with e have s': "r = Some i" "s' = setup_kstack i ks s7" by simp_all
      have "table_ok s'"
        using assms(1) i unfolding s' table_ok_def ptab_ok_def going_def
        by (auto simp: setup_kstack_def Let_def p7 n7)
      moreover have "cur_running s'"
        using cur by (auto simp: s' setup_kstack_def Let_def cur_running_def c7 p7)
      ultimately show ?thesis using i st by (simp add: going_def s' setup_kstack_def Let_def p7)
    qed
  qed
qed

lemmas lock_going = going_below [OF lock_rest(1)] going_below [OF lock_rest(2)]
  going_below [OF lock_rest(3)]

lemma going_upd [simp]:
  "cproc c = cproc (this_cpu s) \<Longrightarrow> going (set_cpu c s) = going s"
  "going (pushcli s) = going s" "going (ram_upd f s) = going s"
  by (simp_all add: going_def cur_running_def)

text \<open>A process that is in use may take any other state in use.\<close>

lemma table_ok_state:
  assumes "table_ok s" and "i < NPROC \<Longrightarrow> p_state (pr s i) \<noteq> UNUSED"
    and "p_pid (f (pr s i)) = p_pid (pr s i)"
  shows "table_ok (upd_proc i f s)"
  by (rule table_ok_change [OF assms(1)]) (use assms(2,3) in \<open>auto split: if_splits\<close>)

lemma table_ok_keep:
  assumes "table_ok s" and "p_state (f (pr s i)) \<noteq> UNUSED \<Longrightarrow> p_state (pr s i) \<noteq> UNUSED"
    and "p_pid (f (pr s i)) = p_pid (pr s i)"
  shows "table_ok (upd_proc i f s)"
  by (rule table_ok_change [OF assms(1)]) (use assms(2,3) in \<open>auto split: if_splits\<close>)

lemma table_ok_free:
  assumes "table_ok s" and "p_state (f (pr s i)) = UNUSED"
  shows "table_ok (upd_proc i f s)"
  by (rule table_ok_change [OF assms(1)]) (use assms(2) in \<open>auto split: if_splits\<close>)

lemma table_ok_for_procs:
  assumes "table_ok s" and "\<And>p. p_state (f p) \<noteq> UNUSED \<Longrightarrow> p_state p \<noteq> UNUSED"
    and "\<And>p. p_pid (f p) = p_pid p"
  shows "table_ok (for_procs f s)"
  by (rule table_ok_change [OF assms(1)]) (use assms(2,3) in \<open>auto split: if_splits\<close>)

lemma cur_running_for_procs:
  assumes "cur_running s" and "\<And>p. p_state p = RUNNING \<Longrightarrow> p_state (f p) = RUNNING"
  shows "cur_running (for_procs f s)"
  using assms by (simp add: cur_running_def)

lemma cur_running_other:
  assumes "cur_running s" and "p_state (pr s i) \<noteq> RUNNING \<or> p_state (f (pr s i)) = RUNNING"
  shows "cur_running (upd_proc i f s)"
  using assms by (auto simp: cur_running_def)

section \<open>Every routine keeps the identifiers sound\<close>

lemma wakeup1_keeps: "going s \<Longrightarrow> going (wakeup1 ch s)"
  by (auto simp: going_def wakeup1_def intro!: table_ok_for_procs cur_running_for_procs split: if_splits)

lemma wakeup_keeps:
  assumes "going s" and "wakeup ch s = Inr s'"
  shows "going s'"
proof -
  from assms(2) obtain s1 where a: "acquire PtableLk s = Inr s1"
    and r: "release PtableLk (wakeup1 ch s1) = Inr s'"
    by (auto simp: wakeup_def res_simps)
  from assms(1) lock_going(3) [OF a] wakeup1_keeps lock_going(6) [OF r] show ?thesis by blast
qed

lemma sleep_enter_keeps:
  assumes "going s" and "sleep_enter ch lk s = Inr s1"
  shows "table_ok s1"
proof -
  from assms(2) obtain p t where p: "cproc (this_cpu s) = Some p"
    and t: "(if lk \<noteq> PtableLk then bindR (acquire PtableLk s) (release lk) else Inr s) = Inr t"
    and s1: "s1 = upd_proc p (\<lambda>q. q\<lparr>p_chan := Some ch, p_state := SLEEPING\<rparr>) t"
    by (auto simp: sleep_enter_def res_simps split: option.splits)
  have st: "same_rest s t"
    using t by (auto simp: res_simps split: if_splits dest!: lock_rest intro: same_rest_trans)
  have "p < NPROC \<and> p_state (pr s p) = RUNNING"
    using assms(1) p by (simp add: going_def cur_running_def)
  moreover have "table_ok t" using assms(1) going_below [OF st] by (simp add: going_def)
  ultimately show ?thesis
    unfolding s1 by (intro table_ok_state) (auto simp: same_rest_ptable [OF st])
qed

lemma sleep_leave_keeps:
  assumes "going s" and "sleep_leave lk s = Inr s1"
  shows "going s1"
proof -
  from assms(2) obtain p where p: "cproc (this_cpu s) = Some p"
    and t: "(if lk \<noteq> PtableLk then
        bindR (release PtableLk (upd_proc p (\<lambda>q. q\<lparr>p_chan := None\<rparr>) s)) (acquire lk)
      else Inr (upd_proc p (\<lambda>q. q\<lparr>p_chan := None\<rparr>) s)) = Inr s1"
    by (auto simp: sleep_leave_def bindR_eq_Inr [of "curproc s"] curproc_Inr Let_def)
  have "p < NPROC \<and> p_state (pr s p) = RUNNING"
    using assms(1) p by (simp add: going_def cur_running_def)
  then have "going (upd_proc p (\<lambda>q. q\<lparr>p_chan := None\<rparr>) s)"
    using assms(1) by (auto simp: going_def intro: table_ok_state cur_running_other)
  moreover have "same_rest (upd_proc p (\<lambda>q. q\<lparr>p_chan := None\<rparr>) s) s1"
    using t by (auto simp: res_simps split: if_splits dest!: lock_rest intro: same_rest_trans)
  ultimately show ?thesis using going_below(3) by blast
qed

lemma going_sched_leave [simp]: "going (sched_leave i s) = going s"
  by (simp add: sched_leave_def)

lemma sched_keeps:
  assumes "table_ok s"
  shows "keeps going table_ok (\<lambda>_. going) (sched s)"
  unfolding sched_def using assms by (intro keeps_doE) simp

lemma sleep_keeps:
  assumes "going s"
  shows "keeps going table_ok (\<lambda>_. going) (sleep ch lk s)"
  unfolding sleep_def
  by (intro keeps_doE keeps_bindK [OF sched_keeps])
     (auto dest: sleep_enter_keeps [OF assms] sleep_leave_keeps)

lemma nap_keeps:
  assumes "going s" and "nap ch lk s = Nap s1 post"
  shows "table_ok s1 \<and> (\<forall>s' s2. going s' \<longrightarrow> post s' = Inr s2 \<longrightarrow> going s2)"
  using assms by (auto simp: nap_def res_simps split: sum.splits dest: sleep_enter_keeps
      intro: sleep_leave_keeps [OF iffD2 [OF going_sched_leave]])

lemma nap_leave: "nap ch lk s = Leave m \<Longrightarrow> keeps R G Q m"
  by (auto simp: nap_def split: sum.splits)

lemma yield_keeps:
  assumes "going s"
  shows "keeps going table_ok (\<lambda>_. going) (yield s)"
proof -
  have "table_ok (upd_proc p (\<lambda>q. q\<lparr>p_state := RUNNABLE\<rparr>) t)"
    if "acquire PtableLk s = Inr t" "curproc t = Inr p" for t p
    using assms lock_going(3) [OF that(1)] that(2)
    by (intro table_ok_state) (auto simp: going_def cur_running_def curproc_Inr)
  then show ?thesis
    unfolding yield_def
    by (intro keeps_doE keeps_bindK [OF sched_keeps]) (auto simp: lock_going(6))
qed

lemma reap_keeps:
  assumes "going s" and "p_state (pr s i) \<noteq> RUNNING"
  shows "going (reap_slot i s)"
  unfolding reap_slot_def going_def using assms
  by (auto simp: going_def intro: table_ok_free cur_running_other)

lemma wait_keeps:
  assumes "going s"
  shows "keeps going table_ok (\<lambda>_. going) (wait s)"
proof -
  have reap: "going s4"
    if g: "going t" and z: "p_state (pr t i) = ZOMBIE"
      and r: "bindR (kfree (p_kstack (pr t i)) t) (\<lambda>s1.
          let s2 = upd_proc i (\<lambda>p. p\<lparr>p_kstack := 0\<rparr>) s1 in
          bindR (freevm (p_pgdir (pr s2 i)) s2) (\<lambda>s3. Inr (reap_slot i s3))) = Inr s4"
    for t i s4 and e :: int
  proof -
    from r obtain s1 s3 where k: "kfree (p_kstack (pr t i)) t = Inr s1"
      and f: "freevm (p_pgdir (pr (upd_proc i (\<lambda>p. p\<lparr>p_kstack := 0\<rparr>) s1) i))
        (upd_proc i (\<lambda>p. p\<lparr>p_kstack := 0\<rparr>) s1) = Inr s3" and s4: "s4 = reap_slot i s3"
      by (auto simp: Let_def res_simps)
    have g1: "going s1" "pr s1 i = pr t i"
      using g going_below(3) [OF kfree_rest [OF k]] same_rest_ptable(1) [OF kfree_rest [OF k]] by simp_all
    then have "going (upd_proc i (\<lambda>p. p\<lparr>p_kstack := 0\<rparr>) s1)"
      using z by (auto simp: going_def intro: table_ok_state cur_running_other)
    with going_below(3) [OF freevm_rest [OF f]] have "going s3" by simp
    moreover have "p_state (pr s3 i) \<noteq> RUNNING"
      using same_rest_ptable(1) [OF freevm_rest [OF f]] g1 z by simp
    ultimately show ?thesis unfolding s4 by (rule reap_keeps)
  qed
  show ?thesis
    unfolding wait_def
  proof (rule keeps_doE)
    fix t
    assume "acquire PtableLk s = Inr t"
    then have "going t" using assms lock_going(3) by blast
    then show "keeps going table_ok (\<lambda>_. going) (loopK wait_body t)"
    proof (rule keeps_loopK)
      fix t :: "'a kproc_scheme" and m :: "('a kproc_scheme, int) run"
      assume t: "going t" and m: "wait_body t = Leave m"
      then show "keeps going table_ok (\<lambda>_. going) m"
        using reap [OF t]
        by (auto simp: wait_body_def Let_def lock_going split: sum.splits option.splits if_splits
            intro!: keeps_doE dest: nap_leave find_proc_Some)
    next
      fix t t1 :: "'a kproc_scheme" and post
      assume t: "going t" and n: "(wait_body t :: ('a kproc_scheme, int) turn) = Nap t1 post"
      then show "table_ok t1 \<and> (\<forall>s' s2. going s' \<longrightarrow> post s' = Inr s2 \<longrightarrow> going s2)"
        by (auto simp: wait_body_def Let_def split: sum.splits option.splits if_splits
            dest: nap_keeps)
    qed
  qed
qed

lemma join_keeps:
  assumes "going s"
  shows "keeps going table_ok (\<lambda>_. going) (join s)"
proof -
  have reap: "going (reap_slot i (upd_proc i (\<lambda>p. p\<lparr>p_kstack := 0\<rparr>) s1))"
    if g: "going t" and z: "p_state (pr t i) = ZOMBIE" and k: "kfree (p_kstack (pr t i)) t = Inr s1"
    for t :: "'a kproc_scheme" and i s1
  proof -
    have "going s1" "pr s1 i = pr t i"
      using g going_below(3) [OF kfree_rest [OF k]] same_rest_ptable(1) [OF kfree_rest [OF k]] by simp_all
    with z show ?thesis
      by (intro reap_keeps) (auto simp: going_def intro: table_ok_state cur_running_other)
  qed
  show ?thesis
    unfolding join_def
  proof (rule keeps_doE)
    fix t
    assume "acquire PtableLk s = Inr t"
    then have "going t" using assms lock_going(3) by blast
    then show "keeps going table_ok (\<lambda>_. going) (loopK join_body t)"
    proof (rule keeps_loopK)
      fix t :: "'a kproc_scheme" and m :: "('a kproc_scheme, int) run"
      assume t: "going t" and m: "join_body t = Leave m"
      then show "keeps going table_ok (\<lambda>_. going) m"
        using reap [OF t]
        by (auto simp: join_body_def Let_def lock_going split: sum.splits option.splits if_splits
            intro!: keeps_doE dest: nap_leave find_proc_Some)
    next
      fix t t1 :: "'a kproc_scheme" and post
      assume t: "going t" and n: "(join_body t :: ('a kproc_scheme, int) turn) = Nap t1 post"
      then show "table_ok t1 \<and> (\<forall>s' s2. going s' \<longrightarrow> post s' = Inr s2 \<longrightarrow> going s2)"
        by (auto simp: join_body_def Let_def split: sum.splits option.splits if_splits
            dest: nap_keeps)
    qed
  qed
qed

lemma kill_keeps:
  assumes "going s" and "kill pid s = Inr (r, s')"
  shows "going s'"
proof -
  from assms(2) obtain t where a: "acquire PtableLk s = Inr t" by (auto simp: kill_def res_simps)
  have g: "going t" using assms(1) lock_going(3) [OF a] by simp
  have "going (upd_proc i (\<lambda>p. p\<lparr>p_killed := True,
      p_state := (if p_state p = SLEEPING then RUNNABLE else p_state p)\<rparr>) t)" for i
    unfolding going_def using g
    by (intro conjI table_ok_keep cur_running_other) (auto simp: going_def split: if_splits)
  note keep = this
  show ?thesis
  proof (cases "find_proc (\<lambda>p. p_pid p = pid) t")
    case None
    with a assms(2) have "release PtableLk t = Inr s'" by (auto simp: kill_def res_simps)
    with g show ?thesis using lock_going(6) by blast
  next
    case (Some i)
    with a assms(2) have "release PtableLk (upd_proc i (\<lambda>p. p\<lparr>p_killed := True,
        p_state := (if p_state p = SLEEPING then RUNNABLE else p_state p)\<rparr>) t) = Inr s'"
      by (auto simp: kill_def res_simps)
    from keep [of i] lock_going(6) [OF this] show ?thesis by simp
  qed
qed

lemma orphanage_keeps:
  assumes "going s" and "orphanage pid s = Inr (r, s')"
  shows "table_ok s'"
proof -
  from assms(2) obtain t where a: "acquire PtableLk s = Inr t" by (auto simp: orphanage_def res_simps)
  have g: "table_ok t" using assms(1) lock_going(3) [OF a] by (simp add: going_def)
  have "table_ok (reap_slot i (upd_proc i (\<lambda>p. p\<lparr>p_kstack := 0\<rparr>) u))"
    if "kfree (p_kstack (pr t i)) t = Inr u" for i u
  proof (rule table_ok_change [of t])
    show "table_ok t" by (rule g)
  qed (use same_rest_ptable(1) [OF kfree_rest [OF that]] in \<open>auto simp: reap_slot_def split: if_splits\<close>)
  note keep = this
  show ?thesis
  proof (cases "find_proc (\<lambda>p. p_pid p = pid) t")
    case None
    with a assms(2) have "release PtableLk t = Inr s'" by (auto simp: orphanage_def res_simps)
    with g show ?thesis using lock_going(4) by blast
  next
    case (Some i)
    with a assms(2) obtain u where k: "kfree (p_kstack (pr t i)) t = Inr u"
      and r: "release PtableLk (reap_slot i (upd_proc i (\<lambda>p. p\<lparr>p_kstack := 0\<rparr>) u)) = Inr s'"
      by (auto simp: orphanage_def res_simps)
    show ?thesis using keep [OF k] lock_going(4) [OF r] by simp
  qed
qed

lemma switchuvm_rest: "switchuvm i s = Inr s' \<Longrightarrow> same_rest s s'"
  by (auto simp: switchuvm_def Let_def res_simps split: if_splits dest!: lock_rest(3))

lemma growproc_keeps:
  assumes "going s" and "growproc n s = Inr (r, s')"
  shows "going s'"
proof -
  from assms(2) obtain p sz s1 where p: "cproc (this_cpu s) = Some p"
    and u: "(if n > 0 then allocuvm (p_pgdir (pr s p)) (p_sz (pr s p)) (p_sz (pr s p) + of_int n) s
      else if n < 0 then deallocuvm (p_pgdir (pr s p)) (p_sz (pr s p)) (p_sz (pr s p) + of_int n) s
      else Inr (p_sz (pr s p), s)) = Inr (sz, s1)"
    and g: "(if n \<noteq> 0 \<and> sz = 0 then Inr (-1, s1) else
      bindR (acquire PtableLk (upd_proc p (\<lambda>p. p\<lparr>p_sz := sz\<rparr>) s1)) (\<lambda>s3.
      bindR (release PtableLk (for_procs (\<lambda>q. if p_pgdir q = p_pgdir (pr s3 p)
        then q\<lparr>p_sz := p_sz (pr s3 p)\<rparr> else q) s3)) (\<lambda>s5.
      bindR (switchuvm p s5) (\<lambda>s6. Inr (0, s6))))) = Inr (r, s')"
    unfolding growproc_def Let_def
    by (simp only: bindR_eq_Inr [of "curproc s"] curproc_Inr bindR_eq_Inr [of "if _ then _ else _"]
        split_paired_Ex prod.case) blast
  from g have e: "n \<noteq> 0 \<and> sz = 0 \<and> s' = s1 \<or> (\<exists>s3 s5.
      acquire PtableLk (upd_proc p (\<lambda>p. p\<lparr>p_sz := sz\<rparr>) s1) = Inr s3 \<and>
      release PtableLk (for_procs (\<lambda>q. if p_pgdir q = p_pgdir (pr s3 p)
        then q\<lparr>p_sz := p_sz (pr s3 p)\<rparr> else q) s3) = Inr s5 \<and> switchuvm p s5 = Inr s')"
  proof (cases "n \<noteq> 0 \<and> sz = 0")
    case True
    with g show ?thesis by simp
  next
    case False
    from g [unfolded if_not_P [OF False]] show ?thesis by (simp only: bindR_eq_Inr) auto
  qed
  have g1: "going s1"
    using u assms(1)
    by (auto split: if_splits dest!: allocuvm_rest deallocuvm_rest simp: going_below)
  from e show ?thesis
  proof
    assume "\<exists>s3 s5. acquire PtableLk (upd_proc p (\<lambda>p. p\<lparr>p_sz := sz\<rparr>) s1) = Inr s3 \<and>
      release PtableLk (for_procs (\<lambda>q. if p_pgdir q = p_pgdir (pr s3 p)
        then q\<lparr>p_sz := p_sz (pr s3 p)\<rparr> else q) s3) = Inr s5 \<and> switchuvm p s5 = Inr s'"
    then obtain s3 s5 where a: "acquire PtableLk (upd_proc p (\<lambda>p. p\<lparr>p_sz := sz\<rparr>) s1) = Inr s3"
      and r: "release PtableLk (for_procs (\<lambda>q. if p_pgdir q = p_pgdir (pr s3 p)
        then q\<lparr>p_sz := p_sz (pr s3 p)\<rparr> else q) s3) = Inr s5"
      and w: "switchuvm p s5 = Inr s'" by blast
    have "going (upd_proc p (\<lambda>p. p\<lparr>p_sz := sz\<rparr>) s1)"
      unfolding going_def using g1
      by (intro conjI table_ok_keep cur_running_other) (auto simp: going_def split: if_splits)
    then have "going s3" using lock_going(3) [OF a] by simp
    then have "going (for_procs (\<lambda>q. if p_pgdir q = p_pgdir (pr s3 p)
        then q\<lparr>p_sz := p_sz (pr s3 p)\<rparr> else q) s3)"
      by (auto simp: going_def intro!: table_ok_for_procs cur_running_for_procs split: if_splits)
    then show ?thesis using lock_going(6) [OF r] going_below(3) [OF switchuvm_rest [OF w]] by simp
  qed (use g1 in simp)
qed

lemma lock_body_keeps:
  assumes "going s"
  shows "keeps going table_ok (\<lambda>_. going) (lock l s)"
  unfolding lock_def
proof (intro keeps_doE)
  fix p t
  assume "acquire (GuardLk p) s = Inr t"
  then have "going t" using assms lock_going(3) by blast
  then show "keeps going table_ok (\<lambda>_. going) (loopK (lock_body l) t)"
  proof (rule keeps_loopK)
    fix t :: "'a kproc_scheme" and m :: "('a kproc_scheme, int) run"
    assume "going t" and "lock_body l t = Leave m"
    then show "keeps going table_ok (\<lambda>_. going) m"
      by (auto simp: lock_body_def lock_going going_below(3) [OF vstore32_rest]
          split: sum.splits option.splits if_splits intro!: keeps_doE dest: nap_leave)
  next
    fix t t1 :: "'a kproc_scheme" and post
    assume "going t" and "(lock_body l t :: ('a kproc_scheme, int) turn) = Nap t1 post"
    then show "table_ok t1 \<and> (\<forall>s' s2. going s' \<longrightarrow> post s' = Inr s2 \<longrightarrow> going s2)"
      by (auto simp: lock_body_def split: sum.splits option.splits if_splits dest: nap_keeps)
  qed
qed

lemma unlock_keeps:
  assumes "going s" and "unlock l s = Inr (r, s')"
  shows "going s'"
proof -
  from assms(2) obtain p s1 s2 s3 where a: "acquire (GuardLk p) s = Inr s1"
    and v: "vstore32 l 0 s1 = Inr s2" and w: "wakeup (ChUser l) s2 = Inr s3"
    and r: "release (GuardLk p) s3 = Inr s'"
    by (auto simp: unlock_def res_simps)
  have "going s2" using assms(1) lock_going(3) [OF a] going_below(3) [OF vstore32_rest [OF v]] by simp
  from wakeup_keeps [OF this w] lock_going(6) [OF r] show ?thesis by simp
qed

lemma sched_pass_keeps:
  assumes "table_ok s" and "\<And>i. i \<in> set is \<Longrightarrow> i < NPROC"
  shows "keeps table_ok table_ok (\<lambda>_. table_ok) (sched_pass is s)"
  using assms
proof (induction "is" arbitrary: s)
  case Nil
  then show ?case by simp
next
  case (Cons i "is")
  show ?case
  proof (cases "p_state (pr s i) = RUNNABLE")
    case False
    with Cons show ?thesis by simp
  next
    case True
    have "table_ok (upd_proc i (\<lambda>p. p\<lparr>p_state := RUNNING\<rparr>) t)"
      if "switchuvm i (set_cpu ((this_cpu s)\<lparr>cproc := Some i\<rparr>) s) = Inr t" for t
    proof (rule table_ok_state)
      note t = switchuvm_rest [OF that]
      show "table_ok t" using going_below(1) [OF t] Cons.prems(1) by simp
      show "p_state (pr t i) \<noteq> UNUSED" using True same_rest_ptable(1) [OF t] by simp
    qed simp
    moreover have "table_ok (set_cpu c (switchkvm u)) = table_ok u" for c and u :: "'a kproc_scheme"
      by (simp add: switchkvm_def)
    ultimately show ?thesis
      using True Cons by (auto simp: Let_def intro!: keeps_doE)
  qed
qed



lemma pushcli_at [simp]:
  "m = me s \<Longrightarrow> iflag (cpus (pushcli s) m) = False"
  "m = me s \<Longrightarrow> ncli (cpus (pushcli s) m) = ncli (cpus s m) + 1"
  "m = me s \<Longrightarrow> cproc (cpus (pushcli s) m) = cproc (cpus s m)"
  "m = me s \<Longrightarrow> cr3 (cpus (pushcli s) m) = cr3 (cpus s m)"
  by simp_all

section \<open>Lock routines and changes of the table commute\<close>

lemma upper_upd_proc: "upper (upd_proc i f)"
  by (simp add: upper_def upd_proc_def set_cpu_def set_lk_def)

lemma upper_for_procs: "upper (for_procs f)"
  by (simp add: upper_def for_procs_def set_cpu_def set_lk_def cong: if_cong)

lemma upper_wakeup1: "upper (wakeup1 ch)"
  unfolding wakeup1_def by (rule upper_for_procs)

lemmas proc_lock [simp] = upper_lock [OF upper_upd_proc] upper_lock [OF upper_for_procs]
  upper_lock [OF upper_wakeup1]

lemma upd_proc_upd_proc [simp]: "upd_proc i f (upd_proc i g s) = upd_proc i (\<lambda>p. f (g p)) s"
  by (simp add: upd_proc_def)

lemma quiet_locked: "cli_ok s \<Longrightarrow> quiet (locked lk s) = locked lk s"
  by (auto simp: quiet_def quiet_cpu_def set_cpu_def locked_def cli_ok_def)

lemma cli_ok_locked [simp]: "cli_ok s \<Longrightarrow> cli_ok (locked lk s)"
  by (auto simp: cli_ok_def locked_def)

lemma locked_at [simp]:
  "m = me s \<Longrightarrow> iflag (cpus (locked lk s) m) = False"
  "m = me s \<Longrightarrow> ncli (cpus (locked lk s) m) = ncli (cpus s m) + 1"
  "m = me s \<Longrightarrow> cproc (cpus (locked lk s) m) = cproc (cpus s m)"
  "m = me s \<Longrightarrow> cr3 (cpus (locked lk s) m) = cr3 (cpus s m)"
  by (simp_all add: locked_def)

section \<open>Sleeping and waking\<close>

text \<open>The state of a CPU whose process holds one lock only, or none.\<close>

definition one_lock :: "'a mach_scheme \<Rightarrow> lockid \<Rightarrow> bool" where
  "one_lock s lk \<longleftrightarrow> holding lk s \<and> ncli (this_cpu s) = 1 \<and> \<not> iflag (this_cpu s)"

lemma swap_locks:
  assumes "one_lock s lk" and "lk_free (lks s lk')" and "lk \<noteq> lk'"
  shows "\<exists>t. bindR (acquire lk' s) (release lk) = Inr t \<and> one_lock t lk' \<and> lk_free (lks t lk) \<and>
     same_cpu s t \<and> intena (this_cpu t) = intena (this_cpu s)"
proof -
  let ?t = "locked lk' s"
  have "holding lk ?t" using assms by (simp add: one_lock_def holding_def)
  moreover have "ncli (this_cpu ?t) = 2" "\<not> iflag (this_cpu ?t)"
    "intena (this_cpu ?t) = intena (this_cpu s)"
    using assms by (simp_all add: one_lock_def locked_def)
  ultimately have "release lk ?t = Inr (set_cpu ((this_cpu ?t)\<lparr>ncli := 1\<rparr>)
      (set_lk lk ((lks ?t lk)\<lparr>lk_cpu := None, lk_locked := False\<rparr>) ?t))"
    by (simp add: release_def popcli_def Let_def)
  moreover have "same_cpu s (set_cpu ((this_cpu ?t)\<lparr>ncli := 1\<rparr>)
      (set_lk lk ((lks ?t lk)\<lparr>lk_cpu := None, lk_locked := False\<rparr>) ?t))"
    by (simp add: same_cpu_def)
  ultimately show ?thesis
    using assms by (auto simp: acquire_free one_lock_def holding_def lk_free_def locked_def)
qed

text \<open>The way back: \<^verbatim>\<open>ptable.lock\<close> released, which may turn interrupts on, then \<open>lk\<close> taken.\<close>

lemma swap_locks_back:
  assumes "one_lock s lk" and "lk_free (lks s lk')" and "lk \<noteq> lk'"
  shows "\<exists>t. bindR (release lk s) (acquire lk') = Inr t \<and> one_lock t lk' \<and> lk_free (lks t lk) \<and>
     same_cpu s t"
proof -
  let ?s = "set_lk lk ((lks s lk)\<lparr>lk_cpu := None, lk_locked := False\<rparr>) s"
  obtain c where r: "release lk s = Inr (set_cpu c ?s)" and c: "ncli c = 0" "cproc c = cproc (this_cpu s)"
    using assms(1) by (cases "intena (this_cpu s)") (auto simp: one_lock_def release_def popcli_def Let_def)
  have "lk_free (lks (set_cpu c ?s) lk')" using assms(2,3) by simp
  from acquire_free [OF this]
  have "bindR (release lk s) (acquire lk') = Inr (locked lk' (set_cpu c ?s))" by (simp add: r)
  moreover have "one_lock (locked lk' (set_cpu c ?s)) lk'"
    by (simp add: one_lock_def holding_def locked_def c)
  moreover have "lk_free (lks (locked lk' (set_cpu c ?s)) lk)"
    using assms(3) by (simp add: lk_free_def)
  moreover have "same_cpu s (locked lk' (set_cpu c ?s))"
    by (simp add: same_cpu_def c)
  ultimately show ?thesis by blast
qed

text \<open>Another process table and another state of the CPU: what sleeping keeps.\<close>

definition upto_procs :: "'a kproc_scheme \<Rightarrow> 'a kproc_scheme \<Rightarrow> bool" where
  "upto_procs s s' \<longleftrightarrow> kproc.more s' = kproc.more s \<and> phys s' = phys s \<and> me s' = me s \<and>
     cproc (this_cpu s') = cproc (this_cpu s)"

lemma same_cpu_upto:
  fixes s s' :: "'a kproc_scheme"
  assumes "same_cpu s s'"
  shows "upto_procs s s'"
proof -
  have "mach.more s' = mach.more s" using assms by (simp add: same_cpu_def)
  then have "kproc.more s' = kproc.more s \<and> phys s' = phys s" by (cases s; cases s') simp
  with assms show ?thesis by (auto simp: upto_procs_def same_cpu_def)
qed

lemma upto_procs_upd [simp]:
  "upto_procs s (upd_proc i f t) \<longleftrightarrow> upto_procs s t" "upto_procs (upd_proc i f s) t \<longleftrightarrow> upto_procs s t"
  "cproc c = cproc (this_cpu s) \<Longrightarrow> upto_procs (set_cpu c s) t \<longleftrightarrow> upto_procs s t"
  by (cases s, cases t, auto simp: upto_procs_def upd_proc_def set_cpu_def)+

lemma sleep_once:
  fixes s :: "'a kproc_scheme"
  assumes "cproc (this_cpu s) = Some p" and "p < NPROC"
    and "one_lock s lk" and "lk \<noteq> PtableLk" and "lk_free (lks s PtableLk)"
  shows "\<exists>s1 k. sleep ch lk s = Swtch s1 k \<and>
     one_lock s1 PtableLk \<and> lk_free (lks s1 lk) \<and> upto_procs s s1 \<and>
     p_state (pr s1 p) = SLEEPING \<and> p_chan (pr s1 p) = Some ch \<and>
     (\<forall>ch'. p_state (pr (wakeup1 ch' s1) p) = (if ch' = ch then RUNNABLE else SLEEPING)) \<and>
     (\<forall>s2. cproc (this_cpu s2) = Some p \<and> one_lock s2 PtableLk \<and> lk_free (lks s2 lk) \<longrightarrow>
        (\<exists>s3. k s2 = Ret () s3 \<and> upto_procs s2 s3 \<and> one_lock s3 lk \<and> lk_free (lks s3 PtableLk) \<and>
           pr s3 = (pr s2)(p := (pr s2 p)\<lparr>p_chan := None\<rparr>)))"
proof -
  let ?zz = "upd_proc p (\<lambda>q. q\<lparr>p_chan := Some ch, p_state := SLEEPING\<rparr>)"
  obtain t where t: "bindR (acquire PtableLk s) (release lk) = Inr t" "one_lock t PtableLk"
    "lk_free (lks t lk)" "same_cpu s t"
    using swap_locks [OF assms(3,5,4)] by blast
  note up = same_cpu_upto [OF t(4)]
  have ct: "cproc (this_cpu t) = Some p" "ptable t = ptable s"
    using t(4) assms(1) same_rest_ptable(1) [OF same_cpu_rest [OF t(4)]] by (auto simp: same_cpu_def)
  have e: "sleep_enter ch lk s = Inr (?zz t)"
    using assms(1,4) t(1) by (simp add: sleep_enter_def)
  have sc: "sched_enter (?zz t) = Inr (intena (this_cpu t))"
    using t(2) ct by (simp add: sched_enter_def one_lock_def curproc_def)
  have "k2 s2" if "cproc (this_cpu s2) = Some p" "one_lock s2 PtableLk" "lk_free (lks s2 lk)"
    and k2: "k2 = (\<lambda>s2. \<exists>s3. doE (sleep_leave lk (sched_leave (intena (this_cpu t)) s2)) (Ret ()) = Ret () s3 \<and>
       upto_procs s2 s3 \<and> one_lock s3 lk \<and> lk_free (lks s3 PtableLk) \<and> pr s3 = (pr s2)(p := (pr s2 p)\<lparr>p_chan := None\<rparr>))"
    for s2 :: "'a kproc_scheme" and k2
  proof -
    let ?u = "upd_proc p (\<lambda>q. q\<lparr>p_chan := None\<rparr>) (sched_leave (intena (this_cpu t)) s2)"
    have "one_lock ?u PtableLk" "lk_free (lks ?u lk)"
      using that(2,3) by (simp_all add: one_lock_def sched_leave_def holding_def)
    from swap_locks_back [OF this assms(4) [symmetric]] obtain v where
      v: "bindR (release PtableLk ?u) (acquire lk) = Inr v" "one_lock v lk" "lk_free (lks v PtableLk)"
        "same_cpu ?u v" by blast
    have pv: "ptable v = ptable ?u" by (rule same_rest_ptable(1) [OF same_cpu_rest [OF v(4)]])
    have "cproc (this_cpu (sched_leave (intena (this_cpu t)) s2)) = Some p"
      using that(1) by (simp add: sched_leave_def)
    then have "sleep_leave lk (sched_leave (intena (this_cpu t)) s2) = Inr v"
      using v(1) assms(4) by (simp add: sleep_leave_def curproc_def)
    moreover have "upto_procs s2 v" using same_cpu_upto [OF v(4)] by (simp add: sched_leave_def)
    ultimately show ?thesis using v(2,3) pv by (simp add: k2 sched_leave_def)
  qed
  moreover have "sleep ch lk s = Swtch (?zz t)
      (\<lambda>s'. doE (sleep_leave lk (sched_leave (intena (this_cpu t)) s')) (Ret ()))"
    by (simp add: sleep_def e sched_def sc)
  ultimately show ?thesis
    using t(2,3) assms(2) up by (auto simp: wakeup1_def one_lock_def)
qed

text \<open>
  Claim C3.  No wakeup is missed: a process that calls \<^verbatim>\<open>sleep(ch, lk)\<close> with only \<open>lk\<close>
  held gives up the CPU exactly once, in a state where it holds only \<^verbatim>\<open>ptable.lock\<close>, has
  released \<open>lk\<close> and is asleep on \<open>ch\<close>, so that a \<^verbatim>\<open>wakeup1\<close> on \<open>ch\<close> from there on makes it
  runnable and one on another channel leaves it asleep; resumed by the scheduler it
  returns with \<open>lk\<close> held, \<^verbatim>\<open>ptable.lock\<close> free and its channel cleared.
\<close>

theorem sleep_misses_no_wakeup:
  fixes s :: "'a kproc_scheme"
  assumes "cproc (this_cpu s) = Some p" and "p < NPROC"
    and "one_lock s lk" and "lk \<noteq> PtableLk" and "lk_free (lks s PtableLk)"
  shows "\<exists>s1 k. sleep ch lk s = Swtch s1 k \<and>
     one_lock s1 PtableLk \<and> lk_free (lks s1 lk) \<and>
     p_state (pr s1 p) = SLEEPING \<and> p_chan (pr s1 p) = Some ch \<and>
     (\<forall>ch'. p_state (pr (wakeup1 ch' s1) p) = (if ch' = ch then RUNNABLE else SLEEPING)) \<and>
     (\<forall>s2. cproc (this_cpu s2) = Some p \<and> one_lock s2 PtableLk \<and> lk_free (lks s2 lk) \<longrightarrow>
        (\<exists>s3. k s2 = Ret () s3 \<and> one_lock s3 lk \<and> lk_free (lks s3 PtableLk) \<and>
           pr s3 = (pr s2)(p := (pr s2 p)\<lparr>p_chan := None\<rparr>)))"
  using sleep_once [OF assms] by metis


lemma wakeup_eq:
  assumes "cli_ok s" and "lk_free (lks s PtableLk)"
  shows "wakeup ch s = Inr (wakeup1 ch (quiet s))"
  by (simp add: wakeup_def acquire_free [OF assms(2)] release_locked [OF assms])

section \<open>Waiting\<close>

text \<open>
  \<^verbatim>\<open>join\<close>: with a zombie thread in the table the first one is reaped, its
  kernel stack page goes back to the allocator, its slot is free again, every other slot is
  untouched and its identifier is returned; with no thread at all, or after a kill, the
  result is -1 and the table is untouched; else the caller goes to sleep on its own slot.
\<close>

theorem join_reaps_first_zombie:
  fixes s :: "'a kproc_scheme" and c :: nat
  defines "thread \<equiv> (\<lambda>p. p_parent p = Some c \<and> p_pgdir p = p_pgdir (pr s c))"
  assumes "cproc (this_cpu s) = Some c" and "kpages s ps" and "lk_free (lks s PtableLk)"
    and "ncli (this_cpu s) = 0"
  shows "(\<forall>i. find_proc (\<lambda>p. thread p \<and> p_state p = ZOMBIE) s = Some i \<longrightarrow>
       kpage_ok s (p_kstack (pr s i)) \<longrightarrow> p_kstack (pr s i) \<notin> set ps \<longrightarrow>
       (\<exists>s'. join s = Ret (p_pid (pr s i)) s' \<and> kpages s' (p_kstack (pr s i) # ps) \<and>
          p_state (pr s' i) = UNUSED \<and> p_kstack (pr s' i) = 0 \<and>
          (\<forall>j. j \<noteq> i \<longrightarrow> pr s' j = pr s j))) \<and>
     (find_proc (\<lambda>p. thread p \<and> p_state p = ZOMBIE) s = None \<longrightarrow>
       (if find_proc thread s = None \<or> p_killed (pr s c)
        then join s = Ret (-1) (quiet s)
        else \<exists>s1 k. join s = Swtch s1 k \<and> p_state (pr s1 c) = SLEEPING \<and>
          p_chan (pr s1 c) = Some (ChProc c) \<and> (\<forall>j. j \<noteq> c \<longrightarrow> pr s1 j = pr s j)))"
proof -
  let ?t = "locked PtableLk s"
  have cli: "cli_ok s" using assms(3) by (simp add: kpages_def)
  have acq: "acquire PtableLk s = Inr ?t" by (rule acquire_free [OF assms(4)])
  have cur: "curproc ?t = Inr c" using assms(2) by (simp add: curproc_def)
  have fp: "find_proc P ?t = find_proc P s" for P by (simp add: find_proc_def)
  have kp: "kpages ?t ps" using assms(3) by (simp add: kpages_def)
  have "\<exists>s'. join s = Ret (p_pid (pr s i)) s' \<and> kpages s' (p_kstack (pr s i) # ps) \<and>
      p_state (pr s' i) = UNUSED \<and> p_kstack (pr s' i) = 0 \<and> (\<forall>j. j \<noteq> i \<longrightarrow> pr s' j = pr s j)"
    if i: "find_proc (\<lambda>p. thread p \<and> p_state p = ZOMBIE) s = Some i"
      and k: "kpage_ok s (p_kstack (pr s i))" "p_kstack (pr s i) \<notin> set ps" for i
  proof -
    let ?ks = "p_kstack (pr s i)" and ?p = "kfreed (p_kstack (pr s i)) (phys s)"
    let ?f = "\<lambda>p. p\<lparr>p_kstack := 0, p_state := UNUSED, p_pid := 0, p_parent := None,
      p_name := (p_name p)(0 := 0), p_killed := False\<rparr>"
    have free: "kfree ?ks ?t = Inr (?t\<lparr>phys := ?p\<rparr>)"
      using kfree_eq [of ?t ?ks] kp k(1) cli by (simp add: kpages_def kpage_ok_def quiet_locked)
    have upd: "reap_slot i (upd_proc i (\<lambda>p. p\<lparr>p_kstack := 0\<rparr>) u) = upd_proc i ?f u" for u :: "'a kproc_scheme"
      by (simp add: reap_slot_def)
    let ?s' = "upd_proc i ?f ((quiet s)\<lparr>phys := ?p\<rparr>)"
    have "release PtableLk (upd_proc i ?f (?t\<lparr>phys := ?p\<rparr>)) = Inr ?s'"
      using release_locked [OF cli assms(4)] by simp
    with i free cur have "join s = Ret (p_pid (pr s i)) ?s'"
      by (simp add: join_def acq loopK_unfold join_body_def fp upd thread_def Let_def)
    moreover have "kpages ?s' (?ks # ps)"
      using free_list_kfreed [of "phys s" ps ?ks] assms(3) k by (simp add: kpages_def kpage_ok_def)
    ultimately show ?thesis by auto
  qed
  moreover have "if find_proc thread s = None \<or> p_killed (pr s c) then join s = Ret (-1) (quiet s)
    else \<exists>s1 k. join s = Swtch s1 k \<and> p_state (pr s1 c) = SLEEPING \<and>
      p_chan (pr s1 c) = Some (ChProc c) \<and> (\<forall>j. j \<noteq> c \<longrightarrow> pr s1 j = pr s j)"
    if n: "find_proc (\<lambda>p. thread p \<and> p_state p = ZOMBIE) s = None"
  proof (cases "find_proc thread s = None \<or> p_killed (pr s c)")
    case True
    with n cur release_locked [OF cli assms(4)] show ?thesis
      by (auto simp: join_def acq loopK_unfold join_body_def fp thread_def Let_def)
  next
    case False
    let ?u = "upd_proc c (\<lambda>q. q\<lparr>p_chan := Some (ChProc c), p_state := SLEEPING\<rparr>) ?t"
    have "sleep_enter (ChProc c) PtableLk ?t = Inr ?u"
      using cur by (simp add: sleep_enter_def curproc_def split: option.splits)
    moreover have "sched_enter ?u = Inr (intena (this_cpu ?t))"
      using cur assms(5) by (simp add: sched_enter_def curproc_def split: option.splits)
    ultimately have "join s = Swtch ?u (\<lambda>s'. doE (sleep_leave PtableLk
        (sched_leave (intena (this_cpu ?t)) s')) (loopK join_body))"
      using n False cur
      by (auto simp: join_def acq loopK_unfold [of join_body ?t] join_body_def fp thread_def Let_def nap_def)
    with False show ?thesis by auto
  qed
  ultimately show ?thesis by blast
qed

section \<open>The scheduler\<close>

text \<open>
  The scheduler gives the CPU to the first runnable process from its position
  on and to no other: that process is then \<^verbatim>\<open>RUNNING\<close>, is the CPU's current process, and
  its page directory and kernel stack are in use; when there is none, the pass ends.
\<close>

theorem scheduler_picks_next_runnable:
  fixes s :: "'a kproc_scheme"
  assumes "one_lock s PtableLk"
  shows "case find (\<lambda>i. p_state (pr s i) = RUNNABLE) is of
      None \<Rightarrow> sched_pass is s = Ret () s
    | Some i \<Rightarrow> (if p_pgdir (pr s i) = 0
        then sched_pass is s = Err (Panic ''switchuvm: no pgdir'')
        else \<exists>s1 k. sched_pass is s = Swtch s1 k \<and> one_lock s1 PtableLk \<and>
          cproc (this_cpu s1) = Some i \<and> cr3 (this_cpu s1) = p_pgdir (pr s i) \<and>
          ts_esp0 (this_cpu s1) = p_kstack (pr s i) + KSTACKSIZE \<and>
          pr s1 = (pr s)(i := (pr s i)\<lparr>p_state := RUNNING\<rparr>))"
  using assms
proof (induction "is")
  case Nil
  then show ?case by simp
next
  case (Cons i "is")
  show ?case
  proof (cases "p_state (pr s i) = RUNNABLE")
    case False
    then have "sched_pass (i # is) s = sched_pass is s"
      and "find (\<lambda>i. p_state (pr s i) = RUNNABLE) (i # is) =
        find (\<lambda>i. p_state (pr s i) = RUNNABLE) is" by simp_all
    then show ?thesis using Cons.IH [OF Cons.prems] by (simp only:)
  next
    case True
    show ?thesis
    proof (cases "p_pgdir (pr s i) = 0")
      case zero: True
      then show ?thesis using True by (simp add: switchuvm_def curproc_def Let_def)
    next
      case False
      let ?c = "(this_cpu s)\<lparr>cproc := Some i, iflag := False,
        ts_esp0 := p_kstack (pr s i) + KSTACKSIZE, cr3 := p_pgdir (pr s i), ncli := 1\<rparr>"
      have "switchuvm i (set_cpu ((this_cpu s)\<lparr>cproc := Some i\<rparr>) s) = Inr (set_cpu ?c s)"
        using Cons.prems False
        by (simp add: switchuvm_def curproc_def Let_def popcli_def one_lock_def)
           (simp add: pushcli_def Let_def set_cpu_def)
      with True False Cons.prems show ?thesis
        by (auto simp: Let_def one_lock_def holding_def)
    qed
  qed
qed


section \<open>Orphans\<close>

text \<open>
  \<^verbatim>\<open>orphanage\<close> called with 0, the identifier of every slot that is not in use,
  stops the kernel: it frees the null kernel stack of the first such slot.
\<close>

theorem orphanage_of_unused_panics:
  fixes s :: "'a kproc_scheme"
  assumes "find_proc (\<lambda>p. p_pid p = 0) s = Some i" and "p_kstack (pr s i) = 0"
    and "0 < kernel_end (phys s)" and "lk_free (lks s PtableLk)"
  shows "orphanage 0 s = Inl (Panic ''kfree'')"
proof -
  have "find_proc (\<lambda>p. p_pid p = 0) (locked PtableLk s) = Some i"
    using assms(1) by (simp add: find_proc_def)
  moreover have "kfree 0 (locked PtableLk s) = Inl (Panic ''kfree'')"
    by (rule kfree_panics) (use assms(3) in \<open>simp add: page_ok_def\<close>)
  ultimately show ?thesis
    using assms(2) by (simp add: orphanage_def acquire_free [OF assms(4)])
qed

section \<open>Identifiers\<close>


section \<open>A concrete machine\<close>

text \<open>
  An idle CPU with an empty process table, and the same machine with process 1 in slot 0
  running and its thread, a zombie, in slot 1.
\<close>

definition no_proc :: proc where
  "no_proc = \<lparr>p_sz = 0, p_pgdir = 0, p_kstack = 0, p_state = UNUSED, p_pid = 0, p_parent = None,
     p_tf = 0, p_context = 0, p_chan = None, p_killed = False, p_ofile = (\<lambda>_. None), p_cwd = None,
     p_name = (\<lambda>_. 0), p_mem_lock_ptr = MemLk 0\<rparr>"

definition proc_boot :: kproc where
  "proc_boot = \<lparr>cpus = cpus (phys_boot 0x101000), lks = lks (phys_boot 0x101000), me = 0,
     phys = phys (phys_boot 0x101000), ptable = \<lparr>procs = (\<lambda>_. no_proc), nextpid = 1,
       initproc = None, trapret = 0x102000, forkret_at = 0x102004\<rparr>\<rparr>"

definition two_threads :: kproc where
  "two_threads =
     upd_proc 0 (\<lambda>p. p\<lparr>p_pgdir := 0x200000, p_kstack := 0x300000, p_state := RUNNING, p_pid := 1\<rparr>)
     (upd_proc 1 (\<lambda>p. p\<lparr>p_pgdir := 0x200000, p_kstack := 0x301000, p_state := ZOMBIE, p_pid := 2,
        p_parent := Some 0\<rparr>)
     (set_cpu ((this_cpu proc_boot)\<lparr>cproc := Some 0\<rparr>) proc_boot))"

lemmas boot_defs = proc_boot_def phys_boot_def no_proc_def

lemma find_first: "P (pr s 0) \<Longrightarrow> find_proc P s = Some 0"
  by (simp add: find_proc_def NPROC_def upt_rec)

lemma find_second: "\<not> P (pr s 0) \<Longrightarrow> P (pr s 1) \<Longrightarrow> find_proc P s = Some 1"
  by (simp add: find_proc_def NPROC_def upt_rec)


theorem orphanage_of_unused_panics_witness: "orphanage 0 proc_boot = Inl (Panic ''kfree'')"
  by (rule orphanage_of_unused_panics [OF find_first])
     (simp_all add: boot_defs lk_free_def)

theorem join_reaps_first_zombie_witness:
  "\<exists>s'. join two_threads = Ret 2 s' \<and> kpages s' [0x301000] \<and> p_state (pr s' 1) = UNUSED"
proof -
  have "find_proc (\<lambda>p. (p_parent p = Some 0 \<and> p_pgdir p = p_pgdir (pr two_threads 0)) \<and> p_state p = ZOMBIE)
      two_threads = Some 1"
    by (rule find_second) (simp_all add: two_threads_def boot_defs)
  moreover have "cproc (this_cpu two_threads) = Some 0" "lk_free (lks two_threads PtableLk)"
    "ncli (this_cpu two_threads) = 0" "kpages two_threads []"
    "kpage_ok two_threads (p_kstack (pr two_threads 1))"
    "p_pid (pr two_threads 1) = 2" "p_kstack (pr two_threads 1) = 0x301000"
    by (simp_all add: two_threads_def boot_defs lk_free_def kpages_def cli_ok_def free_list_def
        kpage_ok_def page_ok_def PGSIZE_def PHYSTOP_def)
  ultimately show ?thesis
    using join_reaps_first_zombie [of two_threads 0 "[]"] by auto
qed

theorem scheduler_picks_next_runnable_witness:
  "sched_pass [0..<NPROC] (locked PtableLk proc_boot) = Ret () (locked PtableLk proc_boot)"
proof -
  have "one_lock (locked PtableLk proc_boot) PtableLk"
    by (simp add: one_lock_def) (simp add: boot_defs)
  note scheduler_picks_next_runnable [OF this, of "[0..<NPROC]"]
  moreover have "find (\<lambda>i. p_state (pr (locked PtableLk proc_boot) i) = RUNNABLE) [0..<NPROC] = None"
    by (simp add: boot_defs find_None_iff)
  ultimately show ?thesis by simp
qed

theorem sleep_misses_no_wakeup_witness:
  "\<exists>s1 k. sleep ChTicks TicksLk (locked TicksLk two_threads) = Swtch s1 k \<and>
     p_state (pr (wakeup1 ChTicks s1) 0) = RUNNABLE"
proof -
  have "cproc (this_cpu (locked TicksLk two_threads)) = Some 0" "(0::nat) < NPROC"
    "one_lock (locked TicksLk two_threads) TicksLk" "TicksLk \<noteq> PtableLk"
    "lk_free (lks (locked TicksLk two_threads) PtableLk)"
    by (simp_all add: one_lock_def two_threads_def boot_defs lk_free_def NPROC_def)
  from sleep_misses_no_wakeup [OF this, of ChTicks] show ?thesis by fastforce
qed

end
