(* ===== verification/Bio.thy ===== *)
theory Bio
  imports ProcInv
begin

text \<open>
  The buffer cache (\<^verbatim>\<open>kernel/bio.c\<close>, \<^verbatim>\<open>kernel/buf.h\<close>): a fixed array of buffers on a doubly
  linked ring through a head, the most recently released first.  The ring is kept as the
  pointers the code keeps, the head being the extra index \<open>NBUF\<close>.  The disk driver is the
  contract of \<^verbatim>\<open>iderw\<close> of \<^verbatim>\<open>kernel/ide.c\<close>: its checks, and the transfer it makes before it
  returns.
\<close>

unbundle bit_operations_syntax

section \<open>State\<close>

text \<open>The bits \<^verbatim>\<open>B_BUSY\<close>, \<^verbatim>\<open>B_VALID\<close>, \<^verbatim>\<open>B_DIRTY\<close> of \<^verbatim>\<open>flags\<close> are three fields.\<close>

record buf =
  b_busy :: bool
  b_valid :: bool
  b_dirty :: bool
  b_dev :: uint
  b_sector :: uint
  b_prev :: nat
  b_next :: nat
  b_data :: "nat \<Rightarrow> byte"

text \<open>
  \<open>disk\<close> holds the sectors of the two drives; \<^verbatim>\<open>idestart\<close> sends one bit of the device
  number and 28 bits of the sector number.
\<close>

record bio =
  bufs :: "nat \<Rightarrow> buf"
  disk :: "uint \<times> uint \<Rightarrow> nat \<Rightarrow> byte"
  havedisk1 :: bool

record kbio = kproc +
  bcache :: bio

definition NBUF :: nat where "NBUF = 10"
definition BSIZE :: nat where "BSIZE = 512"

definition blk :: "uint \<Rightarrow> uint \<Rightarrow> uint \<times> uint" where
  "blk dev sector = (dev AND 1, sector AND 0x0FFFFFFF)"

abbreviation bf :: "'a kbio_scheme \<Rightarrow> nat \<Rightarrow> buf" where
  "bf s b \<equiv> bufs (bcache s) b"

definition bufs_upd :: "((nat \<Rightarrow> buf) \<Rightarrow> nat \<Rightarrow> buf) \<Rightarrow> 'a kbio_scheme \<Rightarrow> 'a kbio_scheme" where
  "bufs_upd f s = s\<lparr>bcache := (bcache s)\<lparr>bufs := f (bufs (bcache s))\<rparr>\<rparr>"

definition buf_upd :: "nat \<Rightarrow> (buf \<Rightarrow> buf) \<Rightarrow> 'a kbio_scheme \<Rightarrow> 'a kbio_scheme" where
  "buf_upd b f = bufs_upd (\<lambda>m. m(b := f (m b)))"

section \<open>The ring\<close>

text \<open>
  The insertion of \<open>b\<close> behind the head, and its removal: one assignment of the code after
  the other, each seeing the pointers the one before left.
\<close>

definition set_prev :: "nat \<Rightarrow> nat \<Rightarrow> (nat \<Rightarrow> buf) \<Rightarrow> nat \<Rightarrow> buf" where
  "set_prev b p m = m(b := (m b)\<lparr>b_prev := p\<rparr>)"

definition set_next :: "nat \<Rightarrow> nat \<Rightarrow> (nat \<Rightarrow> buf) \<Rightarrow> nat \<Rightarrow> buf" where
  "set_next b n m = m(b := (m b)\<lparr>b_next := n\<rparr>)"

definition ring_insert :: "nat \<Rightarrow> (nat \<Rightarrow> buf) \<Rightarrow> nat \<Rightarrow> buf" where
  "ring_insert b m0 =
     (let m1 = set_next b (b_next (m0 NBUF)) m0;
          m2 = set_prev b NBUF m1;
          m3 = set_prev (b_next (m2 NBUF)) b m2
      in set_next NBUF b m3)"

definition ring_remove :: "nat \<Rightarrow> (nat \<Rightarrow> buf) \<Rightarrow> nat \<Rightarrow> buf" where
  "ring_remove b m0 =
     (let m1 = set_prev (b_next (m0 b)) (b_prev (m0 b)) m0
      in set_next (b_prev (m1 b)) (b_next (m1 b)) m1)"

text \<open>
  \<^verbatim>\<open>binit\<close>: the ring grows by one buffer per turn of the loop, each marked with the device
  number -1.
\<close>

fun binit_loop :: "nat list \<Rightarrow> (nat \<Rightarrow> buf) \<Rightarrow> nat \<Rightarrow> buf" where
  "binit_loop [] m = m"
| "binit_loop (b # bs) m =
     binit_loop bs (ring_insert b (m(b := (m b)\<lparr>b_dev := -1\<rparr>)))"

definition binit :: "'a kbio_scheme \<Rightarrow> 'a kbio_scheme" where
  "binit s =
     bufs_upd (\<lambda>m. binit_loop [0..<NBUF] (set_next NBUF NBUF (set_prev NBUF NBUF m)))
       (initlock BcacheLk ''bcache'' s)"

text \<open>
  A search along the ring, from \<open>b\<close> on by \<open>step\<close>, up to the head.  \<open>n\<close> bounds the number
  of buffers looked at; a ring of more than \<open>NBUF\<close> buffers would be walked for ever.
\<close>

fun walk :: "nat \<Rightarrow> (nat \<Rightarrow> nat) \<Rightarrow> (nat \<Rightarrow> bool) \<Rightarrow> nat \<Rightarrow> kerr + nat option" where
  "walk n step P b =
     (if b = NBUF then Inr None
      else if P b then Inr (Some b)
      else case n of 0 \<Rightarrow> Inl Loops | Suc k \<Rightarrow> walk k step P (step b))"

declare walk.simps [simp del]

section \<open>The operations\<close>

text \<open>The loop of \<^verbatim>\<open>bget\<close> from the label \<^verbatim>\<open>loop\<close> on, with the cache locked.\<close>

definition bget_body :: "uint \<Rightarrow> uint \<Rightarrow> 'a kbio_scheme \<Rightarrow> ('a kbio_scheme, nat) turn" where
  "bget_body dev sector s =
     (case walk NBUF (\<lambda>b. b_next (bf s b)) (\<lambda>b. b_dev (bf s b) = dev \<and> b_sector (bf s b) = sector)
         (b_next (bf s NBUF)) of
        Inl e \<Rightarrow> Leave (Err e)
      | Inr (Some b) \<Rightarrow>
          if \<not> b_busy (bf s b)
          then Leave (doE (release BcacheLk (buf_upd b (\<lambda>c. c\<lparr>b_busy := True\<rparr>) s)) (Ret b))
          else nap (ChBuf b) BcacheLk s
      | Inr None \<Rightarrow>
          (case walk NBUF (\<lambda>b. b_prev (bf s b)) (\<lambda>b. \<not> b_busy (bf s b)) (b_prev (bf s NBUF)) of
             Inl e \<Rightarrow> Leave (Err e)
           | Inr None \<Rightarrow> Leave (Err (Panic ''bget: no buffers''))
           | Inr (Some b) \<Rightarrow> Leave (doE (release BcacheLk (buf_upd b (\<lambda>c. c\<lparr>b_dev := dev,
               b_sector := sector, b_busy := True, b_valid := False, b_dirty := False\<rparr>) s)) (Ret b))))"

definition bget :: "uint \<Rightarrow> uint \<Rightarrow> 'a kbio_scheme \<Rightarrow> ('a kbio_scheme, nat) run" where
  "bget dev sector s = doE (acquire BcacheLk s) (loopK (bget_body dev sector))"

text \<open>
  The contract of \<^verbatim>\<open>iderw\<close>: a dirty buffer is written, any other is read; then it is valid
  and clean.
\<close>

definition disk_rw :: "nat \<Rightarrow> 'a kbio_scheme \<Rightarrow> kerr + 'a kbio_scheme" where
  "disk_rw b s =
     (let c = bf s b; a = blk (b_dev c) (b_sector c) in
      if \<not> b_busy c then Inl (Panic ''iderw: buf not busy'')
      else if b_valid c \<and> \<not> b_dirty c then Inl (Panic ''iderw: nothing to do'')
      else if b_dev c \<noteq> 0 \<and> \<not> havedisk1 (bcache s) then Inl (Panic ''iderw: ide disk 1 not present'')
      else if b_dirty c
      then Inr (buf_upd b (\<lambda>c. c\<lparr>b_valid := True, b_dirty := False\<rparr>)
             (s\<lparr>bcache := (bcache s)\<lparr>disk := (disk (bcache s))(a := b_data c)\<rparr>\<rparr>))
      else Inr (buf_upd b (\<lambda>c. c\<lparr>b_valid := True, b_data := disk (bcache s) a\<rparr>) s))"

definition bread :: "uint \<Rightarrow> uint \<Rightarrow> 'a kbio_scheme \<Rightarrow> ('a kbio_scheme, nat) run" where
  "bread dev sector s =
     bindK (bget dev sector s) (\<lambda>b s1.
     if \<not> b_valid (bf s1 b) then doE (disk_rw b s1) (Ret b) else Ret b s1)"

definition bwrite :: "nat \<Rightarrow> 'a kbio_scheme \<Rightarrow> kerr + 'a kbio_scheme" where
  "bwrite b s =
     (if \<not> b_busy (bf s b) then Inl (Panic ''bwrite'')
      else disk_rw b (buf_upd b (\<lambda>c. c\<lparr>b_dirty := True\<rparr>) s))"

definition brelse :: "nat \<Rightarrow> 'a kbio_scheme \<Rightarrow> kerr + 'a kbio_scheme" where
  "brelse b s =
     (if \<not> b_busy (bf s b) then Inl (Panic ''brelse'')
      else
        bindR (acquire BcacheLk s) (\<lambda>s1.
        let s2 = bufs_upd (\<lambda>m. ring_insert b (ring_remove b m)) s1;
            s3 = buf_upd b (\<lambda>c. c\<lparr>b_busy := False\<rparr>) s2
        in bindR (wakeup (ChBuf b) s3) (release BcacheLk)))"

end
