(* ===== verification/BioInv.thy ===== *)
theory BioInv
  imports Bio
begin

text \<open>
  Correctness of the buffer cache (\<^verbatim>\<open>kernel/bio.c\<close>): the ring of buffers as a list, the
  invariant of the cache, the effect of \<^verbatim>\<open>bread\<close>, \<^verbatim>\<open>bwrite\<close> and \<^verbatim>\<open>brelse\<close>, and the contract
  \<open>block_cache\<close> through which the file system uses them.
\<close>

unbundle bit_operations_syntax


section \<open>Doubly linked paths\<close>

text \<open>\<open>links m x as y\<close>: from \<open>x\<close> the buffers \<open>as\<close> and then \<open>y\<close> follow, linked both ways.\<close>

primrec links :: "(nat \<Rightarrow> buf) \<Rightarrow> nat \<Rightarrow> nat list \<Rightarrow> nat \<Rightarrow> bool" where
  "links m x [] y \<longleftrightarrow> b_next (m x) = y \<and> b_prev (m y) = x"
| "links m x (a # as) y \<longleftrightarrow> b_next (m x) = a \<and> b_prev (m a) = x \<and> links m a as y"

lemma links_append: "links m x (as @ b # bs) y \<longleftrightarrow> links m x as b \<and> links m b bs y"
  by (induction as arbitrary: x) auto

lemma links_cong:
  assumes "\<And>z. z = x \<or> z \<in> set as \<Longrightarrow> b_next (m z) = b_next (m' z)"
    and "\<And>z. z = y \<or> z \<in> set as \<Longrightarrow> b_prev (m z) = b_prev (m' z)"
  shows "links m x as y = links m' x as y"
  using assms by (induction as arbitrary: x) auto

text \<open>The ring of the cache, most recently released buffer first.\<close>

definition ring :: "(nat \<Rightarrow> buf) \<Rightarrow> nat list \<Rightarrow> bool" where
  "ring m bs \<longleftrightarrow> links m NBUF bs NBUF \<and> distinct bs \<and> set bs = {..<NBUF}"

lemma ring_insert_links:
  assumes "links m NBUF bs NBUF" and "b \<notin> set bs" and "b \<noteq> NBUF" and "NBUF \<notin> set bs" and "distinct bs"
  shows "links (ring_insert b m) NBUF (b # bs) NBUF"
proof (cases bs)
  case Nil
  with assms show ?thesis
    by (auto simp: ring_insert_def set_next_def set_prev_def Let_def)
next
  case (Cons a as)
  have "links (ring_insert b m) a as NBUF = links m a as NBUF"
    using assms Cons
    by (intro links_cong) (auto simp: ring_insert_def set_next_def set_prev_def Let_def)
  with assms Cons show ?thesis
    by (auto simp: ring_insert_def set_next_def set_prev_def Let_def)
qed

lemma ring_remove_links:
  assumes "links m NBUF (as @ b # bs) NBUF" and "distinct (as @ b # bs)"
    and "NBUF \<notin> set (as @ b # bs)"
  shows "links (ring_remove b m) NBUF (as @ bs) NBUF"
proof -
  define p where "p = last (NBUF # as)"
  define n where "n = hd (bs @ [NBUF])"
  have rm: "ring_remove b m = set_next p n (set_prev n p m)"
  proof -
    have "b_prev (m b) = p" "b_next (m b) = n"
      using assms(1) unfolding links_append p_def n_def
      by (cases as rule: rev_cases, auto simp: links_append, cases bs, auto)
    moreover have "n \<noteq> b" using assms(2,3) unfolding n_def by (cases bs) auto
    moreover have "p \<noteq> b" using assms(2,3) unfolding p_def by (cases as rule: rev_cases) auto
    ultimately show ?thesis
      by (simp add: ring_remove_def Let_def set_prev_def set_next_def)
  qed
  have np: "p \<in> set (NBUF # as)" "n \<in> set (bs @ [NBUF])"
    by (simp_all add: p_def n_def) (cases bs, auto)
  show ?thesis
  proof (cases as rule: rev_cases)
    case Nil
    note as = this
    show ?thesis
    proof (cases bs)
      case Nil
      with as assms rm show ?thesis by (simp add: p_def n_def set_prev_def set_next_def)
    next
      case (Cons c cs)
      have "links (set_next p n (set_prev n p m)) c cs NBUF = links m c cs NBUF"
        using as Cons assms(2,3)
        by (intro links_cong) (auto simp: p_def n_def set_prev_def set_next_def)
      with as Cons assms rm show ?thesis by (auto simp: p_def n_def set_prev_def set_next_def)
    qed
  next
    case (snoc as' q)
    note as = this
    have l1: "links (set_next p n (set_prev n p m)) NBUF as' q = links m NBUF as' q"
      using as assms(2,3) np(2)
      by (intro links_cong) (auto simp: p_def set_prev_def set_next_def)
    show ?thesis
    proof (cases bs)
      case Nil
      with as assms rm l1 show ?thesis
        by (auto simp: p_def n_def set_prev_def set_next_def links_append)
    next
      case (Cons c cs)
      have "links (set_next p n (set_prev n p m)) c cs NBUF = links m c cs NBUF"
        using as Cons assms(2,3)
        by (intro links_cong) (auto simp: p_def n_def set_prev_def set_next_def)
      with as Cons assms rm l1 show ?thesis
        by (auto simp: p_def n_def set_prev_def set_next_def links_append)
    qed
  qed
qed

lemma ring_cong:
  assumes "\<And>z. b_next (m z) = b_next (m' z)" and "\<And>z. b_prev (m z) = b_prev (m' z)"
  shows "ring m bs = ring m' bs"
proof -
  have "links m NBUF bs NBUF = links m' NBUF bs NBUF" by (rule links_cong) (rule assms)+
  then show ?thesis by (simp only: ring_def)
qed

lemma ring_release:
  assumes "ring m bs" and "b < NBUF"
  shows "ring (ring_insert b (ring_remove b m)) (b # remove1 b bs)"
proof -
  have "b \<in> set bs" using assms by (auto simp: ring_def)
  then obtain as cs where bs: "bs = as @ b # cs" "b \<notin> set as" by (meson split_list_first)
  have N: "NBUF \<notin> set bs" using assms(1) by (auto simp: ring_def)
  then have "links (ring_remove b m) NBUF (as @ cs) NBUF"
    using assms(1) bs by (intro ring_remove_links) (auto simp: ring_def)
  then have "links (ring_insert b (ring_remove b m)) NBUF (b # as @ cs) NBUF"
    using assms bs N by (intro ring_insert_links) (auto simp: ring_def)
  moreover have "remove1 b bs = as @ cs" using bs by (simp add: remove1_append)
  ultimately show ?thesis using assms bs by (auto simp: ring_def)
qed

lemma set_link_fields [simp]:
  "b_busy (set_next b n m x) = b_busy (m x)" "b_busy (set_prev b n m x) = b_busy (m x)"
  "b_valid (set_next b n m x) = b_valid (m x)" "b_valid (set_prev b n m x) = b_valid (m x)"
  "b_dirty (set_next b n m x) = b_dirty (m x)" "b_dirty (set_prev b n m x) = b_dirty (m x)"
  "b_dev (set_next b n m x) = b_dev (m x)" "b_dev (set_prev b n m x) = b_dev (m x)"
  "b_sector (set_next b n m x) = b_sector (m x)" "b_sector (set_prev b n m x) = b_sector (m x)"
  "b_data (set_next b n m x) = b_data (m x)" "b_data (set_prev b n m x) = b_data (m x)"
  by (simp_all add: set_next_def set_prev_def)

lemma ring_moves_only_links [simp]:
  "b_busy (ring_insert b (ring_remove b m) x) = b_busy (m x)"
  "b_valid (ring_insert b (ring_remove b m) x) = b_valid (m x)"
  "b_dirty (ring_insert b (ring_remove b m) x) = b_dirty (m x)"
  "b_dev (ring_insert b (ring_remove b m) x) = b_dev (m x)"
  "b_sector (ring_insert b (ring_remove b m) x) = b_sector (m x)"
  "b_data (ring_insert b (ring_remove b m) x) = b_data (m x)"
  by (simp_all add: ring_insert_def ring_remove_def Let_def)

section \<open>Searching\<close>

lemma walk_next:
  assumes "links m x bs NBUF" and "NBUF \<notin> set bs" and "length bs \<le> n"
  shows "walk n (\<lambda>b. b_next (m b)) P (b_next (m x)) = Inr (find P bs)"
  using assms
proof (induction bs arbitrary: x n)
  case Nil
  then show ?case by (simp add: walk.simps)
next
  case (Cons a as)
  then obtain k where "n = Suc k" by (cases n) auto
  with Cons show ?case by (subst walk.simps) auto
qed

lemma walk_prev:
  assumes "links m NBUF bs y" and "NBUF \<notin> set bs" and "length bs \<le> n"
  shows "walk n (\<lambda>b. b_prev (m b)) P (b_prev (m y)) = Inr (find P (rev bs))"
  using assms
proof (induction bs arbitrary: y n rule: rev_induct)
  case Nil
  then show ?case by (simp add: walk.simps)
next
  case (snoc a as)
  then obtain k where "n = Suc k" by (cases n) auto
  with snoc show ?case by (subst walk.simps) (auto simp: links_append)
qed

lemma ring_len: "ring m bs \<Longrightarrow> length bs = NBUF"
  unfolding ring_def by (metis card_lessThan distinct_card)

lemma ring_walk:
  assumes "ring m bs"
  shows "walk NBUF (\<lambda>b. b_next (m b)) P (b_next (m NBUF)) = Inr (find P bs)"
    and "walk NBUF (\<lambda>b. b_prev (m b)) P (b_prev (m NBUF)) = Inr (find P (rev bs))"
proof -
  have l: "links m NBUF bs NBUF" "NBUF \<notin> set bs" "length bs \<le> NBUF"
    using assms ring_len [OF assms] by (auto simp: ring_def)
  show "walk NBUF (\<lambda>b. b_next (m b)) P (b_next (m NBUF)) = Inr (find P bs)"
    by (rule walk_next [OF l])
  show "walk NBUF (\<lambda>b. b_prev (m b)) P (b_prev (m NBUF)) = Inr (find P (rev bs))"
    by (rule walk_prev [OF l])
qed

lemma binit_loop_links:
  assumes "links m NBUF bs NBUF" and "distinct (rev as @ bs)" and "NBUF \<notin> set (as @ bs)"
  shows "links (binit_loop as m) NBUF (rev as @ bs) NBUF"
  using assms
proof (induction as arbitrary: m bs)
  case Nil
  then show ?case by simp
next
  case (Cons a as)
  let ?m = "m(a := (m a)\<lparr>b_dev := -1\<rparr>)"
  have "links ?m NBUF bs NBUF" using Cons.prems(1) by (subst links_cong [of _ _ _ m]) auto
  then have "links (ring_insert a ?m) NBUF (a # bs) NBUF"
    using Cons.prems by (intro ring_insert_links) auto
  with Cons.IH [of "ring_insert a ?m" "a # bs"] Cons.prems show ?case by simp
qed

lemma binit_loop_fields:
  "b_dev (binit_loop as m b) = (if b \<in> set as then -1 else b_dev (m b))"
  "b_busy (binit_loop as m b) = b_busy (m b)" "b_valid (binit_loop as m b) = b_valid (m b)"
  "b_dirty (binit_loop as m b) = b_dirty (m b)"
  by (induction as arbitrary: m) (auto simp: ring_insert_def Let_def)

lemma binit_ring: "ring (bufs (bcache (binit s))) (rev [0..<NBUF])"
proof -
  have "links (set_next NBUF NBUF (set_prev NBUF NBUF m)) NBUF [] NBUF" for m
    by (simp add: set_next_def set_prev_def)
  from binit_loop_links [OF this, of "[0..<NBUF]"] show ?thesis
    by (auto simp: ring_def binit_def bufs_upd_def)
qed

section \<open>Lock routines and changes of the cache commute\<close>

lemma upper_bufs_upd: "upper (bufs_upd f)"
  by (simp add: upper_def bufs_upd_def set_cpu_def set_lk_def)

lemma upper_buf_upd: "upper (buf_upd b f)"
  unfolding buf_upd_def by (rule upper_bufs_upd)

lemmas bufs_lock [simp] = upper_lock [OF upper_bufs_upd] upper_lock [OF upper_buf_upd]

lemma bcache_below [simp]:
  "bcache (set_cpu c s) = bcache s" "bcache (set_lk l v s) = bcache s"
  "bcache (pushcli s) = bcache s" "bcache (locked l s) = bcache s" "bcache (quiet s) = bcache s"
  "bcache (initlock l nm s) = bcache s" "bcache (upd_proc i g s) = bcache s"
  "bcache (for_procs g s) = bcache s" "bcache (wakeup1 ch s) = bcache s"
  "bcache (ram_upd h s) = bcache s" "bcache (s\<lparr>ptable := t\<rparr>) = bcache s"
  "bcache (s\<lparr>phys := p\<rparr>) = bcache s"
  by (simp_all add: set_cpu_def set_lk_def pushcli_def locked_def quiet_def initlock_def
      upd_proc_def for_procs_def wakeup1_def ram_upd_def Let_def)

lemma bufs_upd_sel [simp]:
  "bufs (bcache (bufs_upd f s)) = f (bufs (bcache s))"
  "disk (bcache (bufs_upd f s)) = disk (bcache s)"
  "havedisk1 (bcache (bufs_upd f s)) = havedisk1 (bcache s)"
  "ptable (bufs_upd f s) = ptable s" "phys (bufs_upd f s) = phys s"
  by (simp_all add: bufs_upd_def)

lemma buf_upd_sel [simp]:
  "bufs (bcache (buf_upd b f s)) = (bufs (bcache s))(b := f (bf s b))"
  "disk (bcache (buf_upd b f s)) = disk (bcache s)"
  "havedisk1 (bcache (buf_upd b f s)) = havedisk1 (bcache s)"
  "ptable (buf_upd b f s) = ptable s" "phys (buf_upd b f s) = phys s"
  by (simp_all add: buf_upd_def fun_upd_def)

section \<open>The invariant of the cache\<close>

text \<open>
  \<open>cache_ok s bs\<close>: no lock is held that the cache needs; the ring goes through \<open>bs\<close>; a
  block is in one buffer at most, and names one sector of one drive; and a buffer nobody
  holds, if valid, is clean and has the contents of the disk.
\<close>

definition sane :: "uint \<Rightarrow> uint \<Rightarrow> bool" where
  "sane dev sector \<longleftrightarrow> dev < 2 \<and> sector < 0x10000000"

lemma sane_dev: "sane dev sector \<Longrightarrow> dev \<noteq> -1"
proof
  assume "sane dev sector" and "dev = -1"
  moreover have "(-1 :: uint) = 0xFFFFFFFF" by simp
  ultimately show False by (simp add: sane_def)
qed

definition synced :: "bio \<Rightarrow> nat \<Rightarrow> bool" where
  "synced c b \<longleftrightarrow> \<not> b_dirty (bufs c b) \<and> (b_valid (bufs c b) \<longrightarrow>
     b_data (bufs c b) = disk c (blk (b_dev (bufs c b)) (b_sector (bufs c b))))"

definition bio_ok :: "bio \<Rightarrow> nat list \<Rightarrow> bool" where
  "bio_ok c bs \<longleftrightarrow> ring (bufs c) bs \<and>
     (\<forall>b<NBUF. b_dev (bufs c b) = -1 \<or> sane (b_dev (bufs c b)) (b_sector (bufs c b))) \<and>
     (\<forall>b<NBUF. b_dev (bufs c b) = -1 \<longrightarrow> \<not> b_valid (bufs c b) \<and> \<not> b_busy (bufs c b)) \<and>
     (\<forall>b<NBUF. \<forall>d<NBUF. b_dev (bufs c b) \<noteq> -1 \<longrightarrow> b_dev (bufs c b) = b_dev (bufs c d) \<longrightarrow>
        b_sector (bufs c b) = b_sector (bufs c d) \<longrightarrow> b = d) \<and>
     (\<forall>b<NBUF. \<not> b_busy (bufs c b) \<longrightarrow> synced c b)"

definition cache_ok :: "'a kbio_scheme \<Rightarrow> nat list \<Rightarrow> bool" where
  "cache_ok s bs \<longleftrightarrow> cli_ok s \<and> lk_free (lks s BcacheLk) \<and> lk_free (lks s PtableLk) \<and>
     bio_ok (bcache s) bs"

lemma blk_id:
  assumes "sane d n"
  shows "blk d n = (d, n)"
proof -
  have low: "x AND mask k = x" if "unat x < 2 ^ k" for x :: uint and k
  proof (rule unsigned_word_eqI)
    show "unat (x AND mask k) = unat x"
      using that by (simp add: take_bit_eq_mask [symmetric] unsigned_take_bit_eq take_bit_nat_eq_self)
  qed
  have "x AND 1 = x" if "x < 2" for x :: uint
    using low [of x 1] that by (simp add: mask_eq_exp_minus_1 word_less_nat_alt)
  moreover have "x AND 0x0FFFFFFF = x" if "x < 0x10000000" for x :: uint
    using low [of x 28] that by (simp add: mask_eq_exp_minus_1 word_less_nat_alt)
  ultimately show ?thesis using assms by (simp add: blk_def sane_def)
qed

lemma blk_sane: "sane d n \<Longrightarrow> sane d' n' \<Longrightarrow> blk d n = blk d' n' \<Longrightarrow> d = d' \<and> n = n'"
  by (simp add: blk_id)

text \<open>Looking for a block: the buffer that has it, or else the last idle one of the ring.\<close>

definition has_block :: "bio \<Rightarrow> uint \<Rightarrow> uint \<Rightarrow> nat \<Rightarrow> bool" where
  "has_block c dev sector b \<longleftrightarrow> b_dev (bufs c b) = dev \<and> b_sector (bufs c b) = sector"

lemma bget_cached:
  assumes "cache_ok s bs" and "b < NBUF" and "has_block (bcache s) dev sector b"
    and "sane dev sector" and "\<not> b_busy (bf s b)"
  shows "bget dev sector s = Ret b (buf_upd b (\<lambda>c. c\<lparr>b_busy := True\<rparr>) (quiet s))"
proof -
  have r: "ring (bufs (bcache s)) bs" using assms(1) by (simp add: cache_ok_def bio_ok_def)
  have dev: "dev \<noteq> -1" by (rule sane_dev [OF assms(4)])
  have uniq: "x = b" if "x < NBUF" "b_dev (bf s x) = dev" "b_sector (bf s x) = sector" for x
    using that assms dev unfolding cache_ok_def bio_ok_def has_block_def by metis
  have "find (\<lambda>b. b_dev (bf s b) = dev \<and> b_sector (bf s b) = sector) bs = Some b"
  proof (cases "find (\<lambda>b. b_dev (bf s b) = dev \<and> b_sector (bf s b) = sector) bs")
    case None
    have "b \<in> set bs" using r assms(2) by (auto simp: ring_def)
    with None assms(3) show ?thesis by (auto simp: find_None_iff has_block_def)
  next
    case (Some x)
    then have "x \<in> set bs" "b_dev (bf s x) = dev" "b_sector (bf s x) = sector"
      by (auto simp: find_Some_iff)
    with uniq r Some show ?thesis by (auto simp: ring_def)
  qed
  moreover have "acquire BcacheLk s = Inr (locked BcacheLk s)" "release BcacheLk (locked BcacheLk s) = Inr (quiet s)"
    using assms(1) by (auto simp: cache_ok_def intro: acquire_free release_locked)
  ultimately show ?thesis
    using assms(5) by (simp add: bget_def loopK_unfold bget_body_def ring_walk [OF r])
qed

lemma bget_fresh:
  assumes "cache_ok s bs" and "\<forall>b<NBUF. \<not> has_block (bcache s) dev sector b"
    and "find (\<lambda>b. \<not> b_busy (bf s b)) (rev bs) = Some b"
  shows "bget dev sector s = Ret b (buf_upd b (\<lambda>c. c\<lparr>b_dev := dev, b_sector := sector, b_busy := True,
    b_valid := False, b_dirty := False\<rparr>) (quiet s))"
proof -
  have r: "ring (bufs (bcache s)) bs" using assms(1) by (simp add: cache_ok_def bio_ok_def)
  have "find (\<lambda>b. b_dev (bf s b) = dev \<and> b_sector (bf s b) = sector) bs = None"
    using assms(2) r by (auto simp: find_None_iff has_block_def ring_def)
  moreover have "acquire BcacheLk s = Inr (locked BcacheLk s)" "release BcacheLk (locked BcacheLk s) = Inr (quiet s)"
    using assms(1) by (auto simp: cache_ok_def intro: acquire_free release_locked)
  ultimately show ?thesis
    using assms(3) by (simp add: bget_def loopK_unfold bget_body_def ring_walk [OF r])
qed

text \<open>A buffer that changes hands: its links stay, its new contents keep the invariant.\<close>

lemma bio_ok_upd:
  assumes "bio_ok c bs" and "b < NBUF"
    and "\<And>x. b_next (f x) = b_next x" "\<And>x. b_prev (f x) = b_prev x"
    and "sane (b_dev (f (bufs c b))) (b_sector (f (bufs c b)))"
    and "\<forall>d<NBUF. d \<noteq> b \<longrightarrow> \<not> has_block c (b_dev (f (bufs c b))) (b_sector (f (bufs c b))) d"
    and "\<not> b_busy (f (bufs c b)) \<Longrightarrow> synced (c\<lparr>bufs := (bufs c)(b := f (bufs c b))\<rparr>) b"
  shows "bio_ok (c\<lparr>bufs := (bufs c)(b := f (bufs c b))\<rparr>) bs"
proof -
  have "ring ((bufs c)(b := f (bufs c b))) bs = ring (bufs c) bs"
    using assms(3,4) by (intro ring_cong) auto
  moreover have "synced (c\<lparr>bufs := (bufs c)(b := f (bufs c b))\<rparr>) d = synced c d" if "d \<noteq> b" for d
    using that by (simp add: synced_def)
  moreover have "b_dev (f (bufs c b)) \<noteq> -1" by (rule sane_dev [OF assms(5)])
  ultimately show ?thesis
    using assms unfolding bio_ok_def has_block_def by (auto split: if_splits)
qed

section \<open>Reading, writing and releasing a block\<close>

text \<open>\<open>has_held c b dev sector\<close>: buffer \<open>b\<close> is held and has that block of the disk.\<close>

definition held :: "bio \<Rightarrow> nat \<Rightarrow> uint \<Rightarrow> uint \<Rightarrow> bool" where
  "held c b dev sector \<longleftrightarrow> b < NBUF \<and> b_busy (bufs c b) \<and> b_valid (bufs c b) \<and>
     \<not> b_dirty (bufs c b) \<and> has_block c dev sector b"

text \<open>The block can be had: it is cached and idle, or not cached and some buffer is idle.\<close>

definition available :: "bio \<Rightarrow> uint \<Rightarrow> uint \<Rightarrow> bool" where
  "available c dev sector \<longleftrightarrow> sane dev sector \<and> (dev = 0 \<or> havedisk1 c) \<and>
     ((\<exists>b<NBUF. has_block c dev sector b \<and> \<not> b_busy (bufs c b)) \<or>
      ((\<forall>b<NBUF. \<not> has_block c dev sector b) \<and> (\<exists>b<NBUF. \<not> b_busy (bufs c b))))"

lemma cache_ok_quiet [simp]:
  "cache_ok s bs \<Longrightarrow> cache_ok ((quiet s)\<lparr>bcache := c\<rparr>) bs \<longleftrightarrow> bio_ok c bs"
  "cache_ok s bs \<Longrightarrow> cache_ok (s\<lparr>bcache := c\<rparr>) bs \<longleftrightarrow> bio_ok c bs"
  by (auto simp: cache_ok_def cli_ok_def)

lemma buf_upd_eq: "buf_upd b f s = s\<lparr>bcache := (bcache s)\<lparr>bufs := (bufs (bcache s))(b := f (bf s b))\<rparr>\<rparr>"
  by (simp add: buf_upd_def bufs_upd_def)

lemma bget_available:
  assumes "cache_ok s bs" and "available (bcache s) dev sector"
  shows "\<exists>b f. bget dev sector s = Ret b (buf_upd b f (quiet s)) \<and> b < NBUF \<and> \<not> b_busy (bf s b) \<and>
     (\<forall>x. b_next (f x) = b_next x \<and> b_prev (f x) = b_prev x \<and> b_data (f x) = b_data x) \<and>
     b_busy (f (bf s b)) \<and> b_dev (f (bf s b)) = dev \<and> b_sector (f (bf s b)) = sector \<and>
     \<not> b_dirty (f (bf s b)) \<and>
     (b_valid (f (bf s b)) \<longrightarrow> b_data (bf s b) = disk (bcache s) (blk dev sector)) \<and>
     (\<forall>d<NBUF. d \<noteq> b \<longrightarrow> \<not> has_block (bcache s) dev sector d)"
proof -
  have sane: "sane dev sector" using assms(2) by (simp add: available_def)
  from assms(2) consider b where "b < NBUF" "has_block (bcache s) dev sector b" "\<not> b_busy (bf s b)"
    | "\<forall>b<NBUF. \<not> has_block (bcache s) dev sector b" "\<exists>b<NBUF. \<not> b_busy (bf s b)"
    by (auto simp: available_def)
  then show ?thesis
  proof cases
    case 1
    have "synced (bcache s) b" using assms(1) 1 by (simp add: cache_ok_def bio_ok_def)
    moreover have "\<forall>d<NBUF. d \<noteq> b \<longrightarrow> \<not> has_block (bcache s) dev sector d"
    proof (intro allI impI notI)
      fix d
      assume d: "d < NBUF" "d \<noteq> b" "has_block (bcache s) dev sector d"
      have "b_dev (bf s b) \<noteq> -1" using sane_dev [OF sane] 1(2) by (simp add: has_block_def)
      then have "b = d" using assms(1) 1 d unfolding cache_ok_def bio_ok_def has_block_def by metis
      with d(2) show False by simp
    qed
    ultimately show ?thesis
      using bget_cached [OF assms(1) 1(1,2) sane 1(3)] 1
      by (intro exI [of _ b] exI [of _ "\<lambda>c. c\<lparr>b_busy := True\<rparr>"]) (auto simp: synced_def has_block_def)
  next
    case 2
    have r: "set bs = {..<NBUF}" using assms(1) by (simp add: cache_ok_def bio_ok_def ring_def)
    obtain b where b: "find (\<lambda>b. \<not> b_busy (bf s b)) (rev bs) = Some b"
      using 2(2) r by (cases "find (\<lambda>b. \<not> b_busy (bf s b)) (rev bs)") (auto simp: find_None_iff)
    then have "b < NBUF" "\<not> b_busy (bf s b)"
      using r by (auto simp: find_Some_iff) (metis length_rev lessThan_iff nth_mem set_rev)
    with bget_fresh [OF assms(1) 2(1) b] 2(1) show ?thesis
      by (intro exI [of _ b] exI [of _ "\<lambda>c. c\<lparr>b_dev := dev, b_sector := sector, b_busy := True,
          b_valid := False, b_dirty := False\<rparr>"]) auto
  qed
qed

lemma bread_available:
  assumes "cache_ok s bs" and "available (bcache s) dev sector"
  shows "\<exists>b c. bread dev sector s = Ret b ((quiet s)\<lparr>bcache := c\<rparr>) \<and> bio_ok c bs \<and>
     \<not> b_busy (bf s b) \<and> held c b dev sector \<and>
     b_data (bufs c b) = disk (bcache s) (blk dev sector) \<and>
     disk c = disk (bcache s) \<and> havedisk1 c = havedisk1 (bcache s) \<and>
     (\<forall>d. d \<noteq> b \<longrightarrow> bufs c d = bf s d)"
proof -
  obtain b f where g: "bget dev sector s = Ret b (buf_upd b f (quiet s))" "b < NBUF" "\<not> b_busy (bf s b)"
    "\<forall>x. b_next (f x) = b_next x \<and> b_prev (f x) = b_prev x \<and> b_data (f x) = b_data x"
    "b_busy (f (bf s b))" "b_dev (f (bf s b)) = dev" "b_sector (f (bf s b)) = sector"
    "\<not> b_dirty (f (bf s b))"
    "b_valid (f (bf s b)) \<longrightarrow> b_data (bf s b) = disk (bcache s) (blk dev sector)"
    "\<forall>d<NBUF. d \<noteq> b \<longrightarrow> \<not> has_block (bcache s) dev sector d"
    using bget_available [OF assms] by blast
  define h where "h x = (if b_valid (f x) then f x
    else (f x)\<lparr>b_valid := True, b_data := disk (bcache s) (blk dev sector)\<rparr>)" for x
  let ?c = "(bcache s)\<lparr>bufs := (bufs (bcache s))(b := h (bf s b))\<rparr>"
  have av: "sane dev sector" "dev = 0 \<or> havedisk1 (bcache s)" using assms(2) by (auto simp: available_def)
  have "bread dev sector s = Ret b ((quiet s)\<lparr>bcache := ?c\<rparr>)"
    using g av by (auto simp: bread_def h_def disk_rw_def buf_upd_eq Let_def)
  moreover have "bio_ok ?c bs"
    using assms(1) g av(1)
    by (intro bio_ok_upd) (auto simp: h_def cache_ok_def)
  moreover have "held ?c b dev sector" "b_data (bufs ?c b) = disk (bcache s) (blk dev sector)"
    using g by (auto simp: held_def h_def has_block_def)
  ultimately show ?thesis using g(3) by (intro exI [of _ b] exI [of _ ?c]) simp
qed

text \<open>The holder of a block may change the data in its buffer; \<open>set_data\<close> says how.\<close>

definition set_data :: "nat \<Rightarrow> (nat \<Rightarrow> byte) \<Rightarrow> 'a kbio_scheme \<Rightarrow> 'a kbio_scheme" where
  "set_data b d = buf_upd b (\<lambda>c. c\<lparr>b_data := d\<rparr>)"

lemma bwrite_held:
  assumes "cache_ok s bs" and "held (bcache s) b dev sector" and "sane dev sector"
    and "dev = 0 \<or> havedisk1 (bcache s)"
  shows "\<exists>c. bwrite b (set_data b d s) = Inr (s\<lparr>bcache := c\<rparr>) \<and> bio_ok c bs \<and>
     held c b dev sector \<and> b_data (bufs c b) = d \<and>
     disk c = (disk (bcache s))(blk dev sector := d) \<and> havedisk1 c = havedisk1 (bcache s) \<and>
     (\<forall>e. e \<noteq> b \<longrightarrow> bufs c e = bf s e)"
proof -
  let ?c1 = "(bcache s)\<lparr>bufs := (bufs (bcache s))(b := (bf s b)\<lparr>b_data := d\<rparr>)\<rparr>"
  let ?c = "?c1\<lparr>disk := (disk (bcache s))(blk dev sector := d)\<rparr>"
  have h: "b < NBUF" "b_busy (bf s b)" "b_valid (bf s b)" "\<not> b_dirty (bf s b)"
    "b_dev (bf s b) = dev" "b_sector (bf s b) = sector"
    using assms(2) by (auto simp: held_def has_block_def)
  have ok: "bio_ok (bcache s) bs" using assms(1) by (simp add: cache_ok_def)
  have other: "\<not> has_block (bcache s) dev sector e" if "e < NBUF" "e \<noteq> b" for e
    using ok that h sane_dev [OF assms(3)] unfolding bio_ok_def has_block_def by metis
  have c1: "bio_ok ?c1 bs"
    using ok h assms(3) other by (intro bio_ok_upd) auto
  have "synced ?c e" if e: "e < NBUF" "synced ?c1 e" "\<not> b_busy (bufs ?c1 e)" for e
  proof (cases "b_dev (bufs ?c1 e) = -1")
    case True
    then have "\<not> b_valid (bufs ?c1 e)" using c1 e(1) by (simp add: bio_ok_def)
    with e(2) show ?thesis by (simp add: synced_def)
  next
    case False
    have "e \<noteq> b" using e(3) h by auto
    then have "blk (b_dev (bf s e)) (b_sector (bf s e)) \<noteq> blk dev sector"
      using other [OF e(1)] blk_sane [OF _ assms(3)] False ok e(1)
      by (auto simp: bio_ok_def has_block_def)
    with e(2) \<open>e \<noteq> b\<close> show ?thesis by (simp add: synced_def)
  qed
  with c1 have "bio_ok ?c bs" by (auto simp: bio_ok_def)
  moreover have "bwrite b (set_data b d s) = Inr (s\<lparr>bcache := ?c\<rparr>)"
    using h assms(4) by (cases "bf s b") (auto simp: bwrite_def set_data_def buf_upd_eq disk_rw_def Let_def)
  ultimately show ?thesis
    using assms(2) by (intro exI [of _ ?c]) (auto simp: held_def has_block_def)
qed

lemma brelse_held:
  assumes "cache_ok s bs" and "held (bcache s) b dev sector"
    and "b_data (bf s b) = disk (bcache s) (blk dev sector)"
  shows "\<exists>c. brelse b s = Inr (wakeup1 (ChBuf b) ((quiet s)\<lparr>bcache := c\<rparr>)) \<and>
     bio_ok c (b # remove1 b bs) \<and> \<not> b_busy (bufs c b) \<and> has_block c dev sector b \<and>
     disk c = disk (bcache s) \<and> havedisk1 c = havedisk1 (bcache s) \<and>
     (\<forall>d. d \<noteq> b \<longrightarrow> b_busy (bufs c d) = b_busy (bf s d)) \<and>
     (\<forall>d x y. has_block c x y d = has_block (bcache s) x y d) \<and>
     (\<forall>d. b_valid (bufs c d) = b_valid (bf s d) \<and> b_dirty (bufs c d) = b_dirty (bf s d) \<and>
        b_data (bufs c d) = b_data (bf s d))"
proof -
  let ?m = "ring_insert b (ring_remove b (bufs (bcache s)))"
  let ?c = "(bcache s)\<lparr>bufs := ?m(b := (?m b)\<lparr>b_busy := False\<rparr>)\<rparr>"
  have h: "b < NBUF" "b_busy (bf s b)" "b_valid (bf s b)" "\<not> b_dirty (bf s b)"
    "b_dev (bf s b) = dev" "b_sector (bf s b) = sector"
    using assms(2) by (auto simp: held_def has_block_def)
  have ok: "bio_ok (bcache s) bs" using assms(1) by (simp add: cache_ok_def)
  have "ring ?m (b # remove1 b bs)" using ok h(1) by (intro ring_release) (auto simp: bio_ok_def)
  then have "ring (?m(b := (?m b)\<lparr>b_busy := False\<rparr>)) (b # remove1 b bs)"
    by (subst ring_cong [of _ ?m]) auto
  moreover define c where "c = ?c"
  ultimately have r: "ring (bufs c) (b # remove1 b bs)" by simp
  have f: "b_dev (bufs c d) = b_dev (bf s d)" "b_sector (bufs c d) = b_sector (bf s d)"
    "b_valid (bufs c d) = b_valid (bf s d)" "b_dirty (bufs c d) = b_dirty (bf s d)"
    "b_data (bufs c d) = b_data (bf s d)" "b_busy (bufs c d) = (d \<noteq> b \<and> b_busy (bf s d))"
    "disk c = disk (bcache s)" "havedisk1 c = havedisk1 (bcache s)" for d
    by (simp_all add: c_def)
  have sy: "synced c d" if "d < NBUF" "d = b \<or> \<not> b_busy (bf s d)" for d
  proof (cases "d = b")
    case True
    with h assms(3) show ?thesis by (simp add: synced_def f)
  next
    case False
    with that ok have "synced (bcache s) d" by (simp add: bio_ok_def)
    then show ?thesis by (simp add: synced_def f)
  qed
  have "bio_ok c (b # remove1 b bs)"
    using ok r sy unfolding bio_ok_def f by blast
  moreover have "brelse b s = Inr (wakeup1 (ChBuf b) ((quiet s)\<lparr>bcache := ?c\<rparr>))"
  proof -
    have l: "cli_ok s" "lk_free (lks s BcacheLk)" "lk_free (lks s PtableLk)"
      using assms(1) by (auto simp: cache_ok_def)
    let ?u = "buf_upd b (\<lambda>c. c\<lparr>b_busy := False\<rparr>) (bufs_upd (\<lambda>m. ring_insert b (ring_remove b m)) (locked BcacheLk s))"
    have "wakeup (ChBuf b) ?u = Inr (wakeup1 (ChBuf b) (quiet ?u))"
      by (rule wakeup_eq) (simp_all add: l)
    then show ?thesis
      using h(2) by (simp add: brelse_def acquire_free l release_locked quiet_locked)
        (simp add: buf_upd_eq bufs_upd_def)
  qed
  ultimately show ?thesis
    unfolding c_def [symmetric] using h by (intro exI [of _ c]) (auto simp: has_block_def f)
qed

section \<open>The interface of a block cache\<close>

text \<open>
  What the file system relies on.  \<open>inv s H\<close> is the invariant of a state in which the
  buffers \<open>H\<close> are held; \<open>which s b\<close> and \<open>contents s b\<close> are the block and the data of a
  buffer, \<open>stored s\<close> the blocks on the disk, \<open>usable s a\<close> that block \<open>a\<close> exists; \<open>rest\<close>
  relates states that agree outside the cache.
\<close>

locale block_cache =
  fixes fetch :: "uint \<Rightarrow> uint \<Rightarrow> 's \<Rightarrow> ('s, nat) run"
    and store :: "nat \<Rightarrow> 's \<Rightarrow> kerr + 's"
    and rel :: "nat \<Rightarrow> 's \<Rightarrow> kerr + 's"
    and put :: "nat \<Rightarrow> (nat \<Rightarrow> byte) \<Rightarrow> 's \<Rightarrow> 's"
    and inv :: "'s \<Rightarrow> nat set \<Rightarrow> bool"
    and which :: "'s \<Rightarrow> nat \<Rightarrow> uint \<times> uint"
    and contents :: "'s \<Rightarrow> nat \<Rightarrow> nat \<Rightarrow> byte"
    and stored :: "'s \<Rightarrow> uint \<times> uint \<Rightarrow> nat \<Rightarrow> byte"
    and usable :: "'s \<Rightarrow> uint \<times> uint \<Rightarrow> bool"
    and rest :: "'s \<Rightarrow> 's \<Rightarrow> bool"
  assumes read_ok: "inv s H \<Longrightarrow> card H < NBUF \<Longrightarrow> usable s (dev, n) \<Longrightarrow> (dev, n) \<notin> which s ` H \<Longrightarrow>
      \<exists>b s'. fetch dev n s = Ret b s' \<and> b \<notin> H \<and> inv s' (insert b H) \<and> which s' b = (dev, n) \<and>
        contents s' b = stored s (dev, n) \<and> stored s' = stored s \<and> usable s' = usable s \<and>
        (\<forall>d\<in>H. which s' d = which s d \<and> contents s' d = contents s d) \<and> rest s s'"
    and write_ok: "inv s H \<Longrightarrow> b \<in> H \<Longrightarrow>
      \<exists>s'. store b (put b x s) = Inr s' \<and> inv s' H \<and> which s' b = which s b \<and> contents s' b = x \<and>
        stored s' = (stored s)(which s b := x) \<and> usable s' = usable s \<and>
        (\<forall>d\<in>H. d \<noteq> b \<longrightarrow> which s' d = which s d \<and> contents s' d = contents s d) \<and> rest s s'"
    and rel_ok: "inv s H \<Longrightarrow> b \<in> H \<Longrightarrow> contents s b = stored s (which s b) \<Longrightarrow>
      \<exists>s'. rel b s = Inr s' \<and> inv s' (H - {b}) \<and> stored s' = stored s \<and> usable s' = usable s \<and>
        (\<forall>d\<in>H - {b}. which s' d = which s d \<and> contents s' d = contents s d) \<and> rest s s'"
    and rest_trans: "rest s t \<Longrightarrow> rest t u \<Longrightarrow> rest s u"
begin

text \<open>Looking at a block: read, a use that changes nothing, release.\<close>

lemma look:
  assumes "inv s H" and "card H < NBUF" and "usable s (dev, n)" and "(dev, n) \<notin> which s ` H"
  shows "\<exists>b s1 s2. fetch dev n s = Ret b s1 \<and> contents s1 b = stored s (dev, n) \<and>
     rel b s1 = Inr s2 \<and> inv s2 H \<and> stored s2 = stored s \<and> usable s2 = usable s \<and>
     (\<forall>d\<in>H. which s2 d = which s d \<and> contents s2 d = contents s d) \<and> rest s s1 \<and> rest s s2"
proof -
  from read_ok [OF assms] obtain b s1 where r: "fetch dev n s = Ret b s1" "b \<notin> H"
    "inv s1 (insert b H)" "which s1 b = (dev, n)" "contents s1 b = stored s (dev, n)"
    "stored s1 = stored s" "usable s1 = usable s"
    "\<forall>d\<in>H. which s1 d = which s d \<and> contents s1 d = contents s d" "rest s s1" by blast
  have "contents s1 b = stored s1 (which s1 b)" using r by simp
  from rel_ok [OF r(3) _ this] obtain s2 where "rel b s1 = Inr s2" "inv s2 (insert b H - {b})"
    "stored s2 = stored s1" "usable s2 = usable s1"
    "\<forall>d\<in>insert b H - {b}. which s2 d = which s1 d \<and> contents s2 d = contents s1 d" "rest s1 s2" by blast
  moreover have "insert b H - {b} = H" using r(2) by blast
  ultimately show ?thesis using r rest_trans by (intro exI [of _ b] exI [of _ s1] exI [of _ s2]) auto
qed

text \<open>Changing a block: read, write of new data computed from the old, release.\<close>

lemma change:
  assumes "inv s H" and "card H < NBUF" and "usable s (dev, n)" and "(dev, n) \<notin> which s ` H"
  shows "\<exists>b s1 s2 s3. fetch dev n s = Ret b s1 \<and> contents s1 b = stored s (dev, n) \<and>
     store b (put b (f (stored s (dev, n))) s1) = Inr s2 \<and> rel b s2 = Inr s3 \<and> inv s3 H \<and>
     stored s3 = (stored s)((dev, n) := f (stored s (dev, n))) \<and> usable s3 = usable s \<and>
     (\<forall>d\<in>H. which s3 d = which s d \<and> contents s3 d = contents s d) \<and>
     rest s s1 \<and> rest s s2 \<and> rest s s3"
proof -
  from read_ok [OF assms] obtain b s1 where r: "fetch dev n s = Ret b s1" "b \<notin> H"
    "inv s1 (insert b H)" "which s1 b = (dev, n)" "contents s1 b = stored s (dev, n)"
    "stored s1 = stored s" "usable s1 = usable s"
    "\<forall>d\<in>H. which s1 d = which s d \<and> contents s1 d = contents s d" "rest s s1" by blast
  let ?x = "f (stored s (dev, n))"
  from write_ok [OF r(3), of b ?x] obtain s2 where w: "store b (put b ?x s1) = Inr s2"
    "inv s2 (insert b H)" "which s2 b = which s1 b" "contents s2 b = ?x"
    "stored s2 = (stored s1)(which s1 b := ?x)" "usable s2 = usable s1"
    "\<forall>d\<in>insert b H. d \<noteq> b \<longrightarrow> which s2 d = which s1 d \<and> contents s2 d = contents s1 d" "rest s1 s2"
    by blast
  have "contents s2 b = stored s2 (which s2 b)" using r w by simp
  from rel_ok [OF w(2) _ this] obtain s3 where l: "rel b s2 = Inr s3" "inv s3 (insert b H - {b})"
    "stored s3 = stored s2" "usable s3 = usable s2"
    "\<forall>d\<in>insert b H - {b}. which s3 d = which s2 d \<and> contents s3 d = contents s2 d" "rest s2 s3" by blast
  have H: "insert b H - {b} = H" using r(2) by blast
  have "\<forall>d\<in>H. which s3 d = which s d \<and> contents s3 d = contents s d"
    using l(5) w(7) r(2,8) by (metis H insertI2)
  moreover have "rest s s2" "rest s s3" using r(9) w(8) l(6) rest_trans by blast+
  ultimately show ?thesis
    using r w l H by (intro exI [of _ b] exI [of _ s1] exI [of _ s2] exI [of _ s3]) auto
qed

end

text \<open>The cache keeps the contract.\<close>

definition bc_inv :: "'a kbio_scheme \<Rightarrow> nat set \<Rightarrow> bool" where
  "bc_inv s H \<longleftrightarrow> (\<exists>bs. cache_ok s bs) \<and> H = {b. b < NBUF \<and> b_busy (bf s b)} \<and>
     (\<forall>b\<in>H. b_valid (bf s b) \<and> \<not> b_dirty (bf s b) \<and>
        (b_dev (bf s b) = 0 \<or> havedisk1 (bcache s)))"

definition bc_which :: "'a kbio_scheme \<Rightarrow> nat \<Rightarrow> uint \<times> uint" where
  "bc_which s b = (b_dev (bf s b), b_sector (bf s b))"

definition bc_contents :: "'a kbio_scheme \<Rightarrow> nat \<Rightarrow> nat \<Rightarrow> byte" where
  "bc_contents s b = b_data (bf s b)"

text \<open>Only the blocks that the two drives have are stored.\<close>

definition bc_stored :: "'a kbio_scheme \<Rightarrow> uint \<times> uint \<Rightarrow> nat \<Rightarrow> byte" where
  "bc_stored s a = (if sane (fst a) (snd a) then disk (bcache s) a else (\<lambda>_. 0))"

definition bc_usable :: "'a kbio_scheme \<Rightarrow> uint \<times> uint \<Rightarrow> bool" where
  "bc_usable s a \<longleftrightarrow> sane (fst a) (snd a) \<and> (fst a = 0 \<or> havedisk1 (bcache s))"

text \<open>Outside the cache only the wakeups of sleepers and the saved interrupt flag differ.\<close>

definition bc_rest :: "'a kbio_scheme \<Rightarrow> 'a kbio_scheme \<Rightarrow> bool" where
  "bc_rest s s' \<longleftrightarrow> phys s' = phys s \<and> kbio.more s' = kbio.more s \<and> me s' = me s \<and> lks s' = lks s \<and>
     (\<forall>c. cproc (cpus s' c) = cproc (cpus s c) \<and> cr3 (cpus s' c) = cr3 (cpus s c) \<and>
        ncli (cpus s' c) = ncli (cpus s c) \<and> iflag (cpus s' c) = iflag (cpus s c)) \<and>
     nextpid (ptable s') = nextpid (ptable s) \<and> initproc (ptable s') = initproc (ptable s) \<and>
     (\<forall>i. \<exists>st. pr s' i = (pr s i)\<lparr>p_state := st\<rparr> \<and>
        (st = p_state (pr s i) \<or> p_state (pr s i) = SLEEPING \<and> st = RUNNABLE))"

lemma bc_rest_quiet:
  "bc_rest s ((quiet s)\<lparr>bcache := c\<rparr>)" "bc_rest s (s\<lparr>bcache := c\<rparr>)"
  "bc_rest s (wakeup1 ch ((quiet s)\<lparr>bcache := c\<rparr>))"
proof -
  have more: "kbio.more (quiet s) = kbio.more s" "kbio.more (for_procs f t) = kbio.more t" for f and t :: "'a kbio_scheme"
    by (simp_all add: quiet_def set_cpu_def for_procs_def)
  have same: "\<exists>st. p = p\<lparr>p_state := st\<rparr> \<and> (st = p_state p \<or> p_state p = SLEEPING \<and> st = RUNNABLE)" for p :: proc
    by (rule exI [of _ "p_state p"]) simp
  show "bc_rest s ((quiet s)\<lparr>bcache := c\<rparr>)" "bc_rest s (s\<lparr>bcache := c\<rparr>)"
    using same by (simp_all add: bc_rest_def more)
  show "bc_rest s (wakeup1 ch ((quiet s)\<lparr>bcache := c\<rparr>))"
    using same by (auto simp: bc_rest_def wakeup1_def more intro: exI [of _ RUNNABLE])
qed

lemma bc_rest_trans:
  assumes "bc_rest s t" and "bc_rest t u"
  shows "bc_rest s u"
proof -
  have "\<exists>st. pr u i = (pr s i)\<lparr>p_state := st\<rparr> \<and>
      (st = p_state (pr s i) \<or> p_state (pr s i) = SLEEPING \<and> st = RUNNABLE)" for i
  proof -
    obtain a where a: "pr t i = (pr s i)\<lparr>p_state := a\<rparr>"
      "a = p_state (pr s i) \<or> p_state (pr s i) = SLEEPING \<and> a = RUNNABLE"
      using assms(1) unfolding bc_rest_def by blast
    obtain b where b: "pr u i = (pr t i)\<lparr>p_state := b\<rparr>"
      "b = p_state (pr t i) \<or> p_state (pr t i) = SLEEPING \<and> b = RUNNABLE"
      using assms(2) unfolding bc_rest_def by blast
    from a b show ?thesis by (intro exI [of _ b]) auto
  qed
  with assms show ?thesis unfolding bc_rest_def by simp
qed

lemma bc_stored_id: "sane d n \<Longrightarrow> bc_stored s (d, n) = disk (bcache s) (blk d n)"
  by (simp add: bc_stored_def blk_id)

lemma bc_inv_held:
  assumes "bc_inv s H" and "b \<in> H"
  shows "\<exists>bs. cache_ok s bs \<and> held (bcache s) b (b_dev (bf s b)) (b_sector (bf s b)) \<and>
     sane (b_dev (bf s b)) (b_sector (bf s b)) \<and> (b_dev (bf s b) = 0 \<or> havedisk1 (bcache s))"
proof -
  obtain bs where bs: "cache_ok s bs" using assms(1) by (auto simp: bc_inv_def)
  have b: "b < NBUF" "b_busy (bf s b)" "b_valid (bf s b)" "\<not> b_dirty (bf s b)"
    "b_dev (bf s b) = 0 \<or> havedisk1 (bcache s)"
    using assms by (auto simp: bc_inv_def)
  then have "sane (b_dev (bf s b)) (b_sector (bf s b))"
    using bs by (auto simp: cache_ok_def bio_ok_def)
  with bs b show ?thesis by (auto simp: held_def has_block_def)
qed

lemma bc_read:
  fixes s :: "'a kbio_scheme"
  assumes "bc_inv s H" and "card H < NBUF" and "bc_usable s (dev, n)" and "(dev, n) \<notin> bc_which s ` H"
  shows "\<exists>b s'. bread dev n s = Ret b s' \<and> b \<notin> H \<and> bc_inv s' (insert b H) \<and> bc_which s' b = (dev, n) \<and>
    bc_contents s' b = bc_stored s (dev, n) \<and> bc_stored s' = bc_stored s \<and> bc_usable s' = bc_usable s \<and>
    (\<forall>d\<in>H. bc_which s' d = bc_which s d \<and> bc_contents s' d = bc_contents s d) \<and> bc_rest s s'"
proof -
  obtain bs where bs: "cache_ok s bs" and H: "H = {b. b < NBUF \<and> b_busy (bf s b)}"
    using assms(1) by (auto simp: bc_inv_def)
  have "\<not> {..<NBUF} \<subseteq> H"
  proof
    assume "{..<NBUF} \<subseteq> H"
    moreover have "finite H" by (simp add: H)
    ultimately have "card {..<NBUF} \<le> card H" by (intro card_mono)
    with assms(2) show False by simp
  qed
  then obtain b0 where "b0 < NBUF" "\<not> b_busy (bf s b0)" unfolding H by blast
  then have av: "available (bcache s) dev n"
    using assms(3,4) H by (auto simp: available_def bc_usable_def has_block_def bc_which_def)
  from bread_available [OF bs av] obtain b c where r: "bread dev n s = Ret b ((quiet s)\<lparr>bcache := c\<rparr>)"
    "bio_ok c bs" "\<not> b_busy (bf s b)" "held c b dev n" "b_data (bufs c b) = disk (bcache s) (blk dev n)"
    "disk c = disk (bcache s)" "havedisk1 c = havedisk1 (bcache s)" "\<forall>d. d \<noteq> b \<longrightarrow> bufs c d = bf s d"
    by blast
  let ?s = "(quiet s)\<lparr>bcache := c\<rparr>"
  have b: "b \<notin> H" using r(3) H by simp
  have "insert b H = {b. b < NBUF \<and> b_busy (bufs c b)}"
  proof (rule set_eqI)
    fix d
    show "d \<in> insert b H \<longleftrightarrow> d \<in> {b. b < NBUF \<and> b_busy (bufs c b)}"
      using r(4,8) H by (cases "d = b") (simp_all add: held_def)
  qed
  moreover have "\<forall>d\<in>insert b H. b_valid (bufs c d) \<and> \<not> b_dirty (bufs c d) \<and> (b_dev (bufs c d) = 0 \<or> havedisk1 c)"
  proof
    fix d
    assume d: "d \<in> insert b H"
    show "b_valid (bufs c d) \<and> \<not> b_dirty (bufs c d) \<and> (b_dev (bufs c d) = 0 \<or> havedisk1 c)"
    proof (cases "d = b")
      case True
      with r(4,7) av show ?thesis by (auto simp: held_def has_block_def available_def)
    next
      case False
      with d assms(1) r(7,8) show ?thesis by (auto simp: bc_inv_def)
    qed
  qed
  moreover have "cache_ok ?s bs" using bs r(2) by simp
  ultimately have "bc_inv ?s (insert b H)" by (auto simp: bc_inv_def)
  moreover have "bc_which ?s b = (dev, n)" using r(4) by (simp add: bc_which_def held_def has_block_def)
  moreover have "bc_contents ?s b = bc_stored s (dev, n)"
    using r(5) av by (simp add: bc_contents_def bc_stored_id available_def)
  moreover have "\<forall>d\<in>H. bc_which ?s d = bc_which s d \<and> bc_contents ?s d = bc_contents s d"
    using b r(8) by (auto simp: bc_which_def bc_contents_def)
  moreover have "bc_stored ?s = bc_stored s" "bc_usable ?s = bc_usable s"
    using r(6,7) by (simp_all add: fun_eq_iff bc_stored_def bc_usable_def)
  ultimately show ?thesis using r(1) b bc_rest_quiet(1) by blast
qed

lemma bc_write:
  fixes s :: "'a kbio_scheme"
  assumes "bc_inv s H" and "b \<in> H"
  shows "\<exists>s'. bwrite b (set_data b x s) = Inr s' \<and> bc_inv s' H \<and> bc_which s' b = bc_which s b \<and>
    bc_contents s' b = x \<and> bc_stored s' = (bc_stored s)(bc_which s b := x) \<and> bc_usable s' = bc_usable s \<and>
    (\<forall>d\<in>H. d \<noteq> b \<longrightarrow> bc_which s' d = bc_which s d \<and> bc_contents s' d = bc_contents s d) \<and> bc_rest s s'"
proof -
  let ?dev = "b_dev (bf s b)" and ?n = "b_sector (bf s b)"
  obtain bs where bs: "cache_ok s bs" and h: "held (bcache s) b ?dev ?n" and sn: "sane ?dev ?n"
    and d1: "?dev = 0 \<or> havedisk1 (bcache s)"
    using bc_inv_held [OF assms] by blast
  from bwrite_held [OF bs h sn d1, of x] obtain c where w: "bwrite b (set_data b x s) = Inr (s\<lparr>bcache := c\<rparr>)"
    "bio_ok c bs" "held c b ?dev ?n" "b_data (bufs c b) = x"
    "disk c = (disk (bcache s))(blk ?dev ?n := x)" "havedisk1 c = havedisk1 (bcache s)"
    "\<forall>e. e \<noteq> b \<longrightarrow> bufs c e = bf s e" by blast
  let ?s = "s\<lparr>bcache := c\<rparr>"
  have same: "b_busy (bufs c d) = b_busy (bf s d)" "b_dev (bufs c d) = b_dev (bf s d)"
    "b_sector (bufs c d) = b_sector (bf s d)" "b_valid (bufs c d) = b_valid (bf s d)"
    "b_dirty (bufs c d) = b_dirty (bf s d)" for d
    using w(3,7) h by (cases "d = b"; simp add: held_def has_block_def)+
  have "bc_inv ?s H"
  proof -
    have "cache_ok ?s bs" using bs w(2) by simp
    moreover have "H = {b. b < NBUF \<and> b_busy (bufs c b)}"
      using assms(1) by (simp add: bc_inv_def same)
    ultimately show ?thesis using assms(1) w(6) by (auto simp: bc_inv_def same)
  qed
  moreover have "bc_stored ?s = (bc_stored s)(bc_which s b := x)"
    using sn by (auto simp: fun_eq_iff bc_stored_def bc_which_def w(5) blk_id)
  moreover have "bc_usable ?s = bc_usable s" by (simp add: fun_eq_iff bc_usable_def w(6))
  moreover have "\<forall>d\<in>H. d \<noteq> b \<longrightarrow> bc_which ?s d = bc_which s d \<and> bc_contents ?s d = bc_contents s d"
    using w(7) by (simp add: bc_which_def bc_contents_def)
  ultimately show ?thesis
    using w(1,4) bc_rest_quiet(2) by (auto simp: bc_contents_def bc_which_def same)
qed

lemma bc_release:
  fixes s :: "'a kbio_scheme"
  assumes "bc_inv s H" and "b \<in> H" and "bc_contents s b = bc_stored s (bc_which s b)"
  shows "\<exists>s'. brelse b s = Inr s' \<and> bc_inv s' (H - {b}) \<and> bc_stored s' = bc_stored s \<and>
    bc_usable s' = bc_usable s \<and>
    (\<forall>d\<in>H - {b}. bc_which s' d = bc_which s d \<and> bc_contents s' d = bc_contents s d) \<and> bc_rest s s'"
proof -
  let ?dev = "b_dev (bf s b)" and ?n = "b_sector (bf s b)"
  obtain bs where bs: "cache_ok s bs" and h: "held (bcache s) b ?dev ?n" and sn: "sane ?dev ?n"
    using bc_inv_held [OF assms(1,2)] by blast
  have "b_data (bf s b) = disk (bcache s) (blk ?dev ?n)"
    using assms(3) bc_stored_id [OF sn] by (simp add: bc_contents_def bc_which_def)
  from brelse_held [OF bs h this] obtain c where
    l: "brelse b s = Inr (wakeup1 (ChBuf b) ((quiet s)\<lparr>bcache := c\<rparr>))" "bio_ok c (b # remove1 b bs)"
    "\<not> b_busy (bufs c b)" "disk c = disk (bcache s)" "havedisk1 c = havedisk1 (bcache s)"
    "\<forall>d. d \<noteq> b \<longrightarrow> b_busy (bufs c d) = b_busy (bf s d)"
    "\<forall>d x y. has_block c x y d = has_block (bcache s) x y d"
    "\<forall>d. b_valid (bufs c d) = b_valid (bf s d) \<and> b_dirty (bufs c d) = b_dirty (bf s d) \<and>
       b_data (bufs c d) = b_data (bf s d)" by blast
  let ?s = "wakeup1 (ChBuf b) ((quiet s)\<lparr>bcache := c\<rparr>)"
  have key: "b_dev (bufs c d) = b_dev (bf s d)" "b_sector (bufs c d) = b_sector (bf s d)" for d
    using l(7) [rule_format, of "b_dev (bufs c d)" "b_sector (bufs c d)" d] by (simp_all add: has_block_def)
  have "cache_ok ?s (b # remove1 b bs)"
    using bs l(2) by (auto simp: cache_ok_def cli_ok_def)
  moreover have "H - {b} = {d. d < NBUF \<and> b_busy (bufs c d)}"
    using assms(1) l(3,6) by (auto simp: bc_inv_def)
  ultimately have "bc_inv ?s (H - {b})"
    using assms(1) l(5,8) by (auto simp: bc_inv_def key)
  moreover have "bc_stored ?s = bc_stored s" "bc_usable ?s = bc_usable s"
    using l(4,5) by (simp_all add: fun_eq_iff bc_stored_def bc_usable_def)
  moreover have "\<forall>d\<in>H - {b}. bc_which ?s d = bc_which s d \<and> bc_contents ?s d = bc_contents s d"
    using l(8) by (simp add: bc_which_def bc_contents_def key)
  ultimately show ?thesis using l(1) bc_rest_quiet(3) by blast
qed

interpretation bc: block_cache bread bwrite brelse set_data bc_inv bc_which bc_contents bc_stored
  bc_usable "bc_rest :: 'a kbio_scheme \<Rightarrow> _"
proof (unfold_locales, goal_cases)
  case (1 s H dev n)
  then show ?case by (rule bc_read)
next
  case (2 s H b x)
  then show ?case by (rule bc_write)
next
  case (3 s H b)
  then show ?case by (rule bc_release)
next
  case (4 s t u)
  then show ?case by (rule bc_rest_trans)
qed

section \<open>Properties\<close>

text \<open>
  Claim C5.  The cache hides the disk: a block written through a buffer and released is
  what the next \<^verbatim>\<open>bread\<close> of that block returns and what the disk holds, every other block
  of the disk is unchanged, and all buffers held before are held still, with the same data.
\<close>

theorem written_block_is_read_back:
  fixes s :: "'a kbio_scheme"
  assumes "bc_inv s H" and "card H < NBUF" and "bc_usable s (dev, n)" and "(dev, n) \<notin> bc_which s ` H"
  shows "\<exists>b s1 s2 s3 b' s4. bread dev n s = Ret b s1 \<and> bwrite b (set_data b x s1) = Inr s2 \<and>
     brelse b s2 = Inr s3 \<and> bread dev n s3 = Ret b' s4 \<and> b_data (bf s4 b') = x \<and>
     bc_inv s4 (insert b' H) \<and> bc_stored s4 = (bc_stored s)((dev, n) := x) \<and>
     (\<forall>d\<in>H. b_data (bf s4 d) = b_data (bf s d)) \<and> bc_rest s s4"
proof -
  from bc.change [OF assms, of "\<lambda>_. x"] obtain b s1 s2 s3 where c: "bread dev n s = Ret b s1"
    "bwrite b (set_data b x s1) = Inr s2" "brelse b s2 = Inr s3" "bc_inv s3 H"
    "bc_stored s3 = (bc_stored s)((dev, n) := x)" "bc_usable s3 = bc_usable s"
    "\<forall>d\<in>H. bc_which s3 d = bc_which s d \<and> bc_contents s3 d = bc_contents s d" "bc_rest s s3" by blast
  have "bc_which s3 ` H = bc_which s ` H" using c(7) by (auto intro: image_cong)
  with bc_read [OF c(4) assms(2), of dev n] assms(3,4) c(6) obtain b' s4 where
    r: "bread dev n s3 = Ret b' s4" "bc_inv s4 (insert b' H)" "bc_contents s4 b' = bc_stored s3 (dev, n)"
    "bc_stored s4 = bc_stored s3" "\<forall>d\<in>H. bc_contents s4 d = bc_contents s3 d" "bc_rest s3 s4"
    by auto
  from bc_rest_trans [OF c(8) r(6)] c r show ?thesis
    by (intro exI [of _ b] exI [of _ s1] exI [of _ s2] exI [of _ s3] exI [of _ b'] exI [of _ s4])
       (simp add: bc_contents_def)
qed

text \<open>
  The cache replaces the least recently released idle buffer: with the ring in
  the order \<open>bs\<close>, a block that is not cached goes to the last idle buffer of \<open>bs\<close>, and
  releasing a buffer moves it to the front of the order and leaves the others as they were.
\<close>

theorem cache_replaces_least_recent:
  fixes s :: "'a kbio_scheme"
  assumes "cache_ok s bs"
  shows "(\<forall>dev n b. (\<forall>d<NBUF. \<not> has_block (bcache s) dev n d) \<longrightarrow>
       find (\<lambda>d. \<not> b_busy (bf s d)) (rev bs) = Some b \<longrightarrow>
       (\<exists>s'. bget dev n s = Ret b s' \<and> (\<forall>d. d \<noteq> b \<longrightarrow> bf s' d = bf s d))) \<and>
     (\<forall>dev n b. held (bcache s) b dev n \<longrightarrow> b_data (bf s b) = disk (bcache s) (blk dev n) \<longrightarrow>
       (\<exists>s'. brelse b s = Inr s' \<and> cache_ok s' (b # remove1 b bs)))"
proof -
  have "\<exists>s'. brelse b s = Inr s' \<and> cache_ok s' (b # remove1 b bs)"
    if h: "held (bcache s) b dev n" "b_data (bf s b) = disk (bcache s) (blk dev n)" for dev n b
  proof -
    obtain c where "brelse b s = Inr (wakeup1 (ChBuf b) ((quiet s)\<lparr>bcache := c\<rparr>))"
      "bio_ok c (b # remove1 b bs)"
      using brelse_held [OF assms h] by blast
    moreover from this(2) have "cache_ok (wakeup1 (ChBuf b) ((quiet s)\<lparr>bcache := c\<rparr>)) (b # remove1 b bs)"
      using assms by (auto simp: cache_ok_def cli_ok_def)
    ultimately show ?thesis by blast
  qed
  moreover have "\<exists>s'. bget dev n s = Ret b s' \<and> (\<forall>d. d \<noteq> b \<longrightarrow> bf s' d = bf s d)"
    if "\<forall>d<NBUF. \<not> has_block (bcache s) dev n d" "find (\<lambda>d. \<not> b_busy (bf s d)) (rev bs) = Some b" for dev n b
    using bget_fresh [OF assms that] by simp
  ultimately show ?thesis by blast
qed

lemma binit_ok:
  fixes s :: "'a kbio_scheme"
  assumes "cli_ok s" and "lk_free (lks s PtableLk)"
    and "\<forall>b<NBUF. \<not> b_busy (bf s b) \<and> \<not> b_valid (bf s b) \<and> \<not> b_dirty (bf s b)"
  shows "cache_ok (binit s) (rev [0..<NBUF]) \<and> bc_inv (binit s) {} \<and>
     (\<forall>dev n. sane dev n \<longrightarrow> (\<forall>b<NBUF. \<not> has_block (bcache (binit s)) dev n b))"
proof -
  let ?c = "bcache (binit s)"
  have c: "bufs ?c = binit_loop [0..<NBUF] (set_next NBUF NBUF (set_prev NBUF NBUF (bufs (bcache s))))"
    by (simp add: binit_def)
  have d1: "b_dev (bufs ?c b) = -1" "\<not> b_busy (bufs ?c b)" "\<not> b_valid (bufs ?c b)"
    "\<not> b_dirty (bufs ?c b)" if "b < NBUF" for b
    using that assms(3) by (simp_all add: c binit_loop_fields)
  then have "bio_ok ?c (rev [0..<NBUF])"
    using binit_ring by (auto simp: bio_ok_def synced_def)
  moreover have "lks (binit s) = (lks s)(BcacheLk := \<lparr>lk_locked = False, lk_name = ''bcache'', lk_cpu = None\<rparr>)"
    "cli_ok (binit s) = cli_ok s"
    by (simp_all add: binit_def initlock_def cli_ok_def)
  ultimately have ok: "cache_ok (binit s) (rev [0..<NBUF])"
    using assms(1,2) by (simp add: cache_ok_def lk_free_def)
  moreover have "bc_inv (binit s) {}" using ok d1(2) by (auto simp: bc_inv_def)
  moreover have "\<not> has_block ?c dv n b" if "sane dv n" "b < NBUF" for dv n b
    using d1(1) [OF that(2)] sane_dev [OF that(1)] by (auto simp: has_block_def)
  ultimately show ?thesis by blast
qed

text \<open>
  \<^verbatim>\<open>binit\<close> sets the cache up: from a machine with its locks free and cleared
  buffers it links all buffers into one ring, none holding a block, and no buffer is held.
\<close>

theorem binit_sets_up_cache:
  fixes s :: "'a kbio_scheme"
  assumes "cli_ok s" and "lk_free (lks s PtableLk)"
    and "\<forall>b<NBUF. \<not> b_busy (bf s b) \<and> \<not> b_valid (bf s b) \<and> \<not> b_dirty (bf s b)"
  shows "cache_ok (binit s) (rev [0..<NBUF]) \<and> bc_inv (binit s) {} \<and>
     (\<forall>dev n. sane dev n \<longrightarrow> (\<forall>b<NBUF. \<not> has_block (bcache (binit s)) dev n b))"
  using binit_ok [OF assms] .

text \<open>A machine with one drive, whose sector \<open>n\<close> is filled with the low byte of \<open>n\<close>.\<close>

definition bio_boot :: kbio where
  "bio_boot = \<lparr>cpus = cpus proc_boot, lks = lks proc_boot, me = 0, phys = phys proc_boot,
     ptable = ptable proc_boot, bcache = \<lparr>bufs = (\<lambda>_. \<lparr>b_busy = False, b_valid = False, b_dirty = False,
       b_dev = 0, b_sector = 0, b_prev = 0, b_next = 0, b_data = (\<lambda>_. 0)\<rparr>),
       disk = (\<lambda>a _. ucast (snd a)), havedisk1 = True\<rparr>\<rparr>"

theorem binit_sets_up_cache_witness: "cache_ok (binit bio_boot) (rev [0..<NBUF]) \<and> bc_inv (binit bio_boot) {}"
proof -
  have "cli_ok bio_boot" "lk_free (lks bio_boot PtableLk)"
    "\<forall>b<NBUF. \<not> b_busy (bf bio_boot b) \<and> \<not> b_valid (bf bio_boot b) \<and> \<not> b_dirty (bf bio_boot b)"
    by (simp_all add: bio_boot_def boot_defs cli_ok_def lk_free_def)
  from binit_sets_up_cache [OF this] show ?thesis by blast
qed

lemma bio_boot_ok: "cache_ok (binit bio_boot) (rev [0..<NBUF])" "bc_inv (binit bio_boot) {}"
  "b < NBUF \<Longrightarrow> sane dev n \<Longrightarrow> \<not> has_block (bcache (binit bio_boot)) dev n b"
  "b < NBUF \<Longrightarrow> \<not> b_busy (bf (binit bio_boot) b)"
proof -
  show ok: "cache_ok (binit bio_boot) (rev [0..<NBUF])"
    using binit_ring [of bio_boot]
    by (auto simp: cache_ok_def bio_ok_def synced_def binit_def binit_loop_fields bio_boot_def boot_defs
        initlock_def cli_ok_def lk_free_def)
  show nb: "b < NBUF \<Longrightarrow> \<not> b_busy (bf (binit bio_boot) b)" for b
    by (simp add: binit_def binit_loop_fields bio_boot_def)
  show "bc_inv (binit bio_boot) {}" using ok nb by (auto simp: bc_inv_def)
  show "b < NBUF \<Longrightarrow> sane dev n \<Longrightarrow> \<not> has_block (bcache (binit bio_boot)) dev n b"
    using sane_dev [of dev n] by (auto simp: has_block_def binit_def binit_loop_fields)
qed

theorem cache_replaces_least_recent_witness:
  "\<exists>s'. bget 1 5 (binit bio_boot) = Ret 0 s'"
proof -
  have "find (\<lambda>d. \<not> b_busy (bf (binit bio_boot) d)) (rev (rev [0..<NBUF])) = Some 0"
    using bio_boot_ok(4) [of 0] by (simp add: NBUF_def upt_rec)
  moreover have "\<forall>d<NBUF. \<not> has_block (bcache (binit bio_boot)) 1 5 d"
    using bio_boot_ok(3) by (simp add: sane_def)
  ultimately show ?thesis using cache_replaces_least_recent [OF bio_boot_ok(1)] by blast
qed

theorem written_block_is_read_back_witness:
  "\<exists>b s1 s2 s3 b' s4. bread 1 5 (binit bio_boot) = Ret b s1 \<and> bwrite b (set_data b (\<lambda>_. 7) s1) = Inr s2 \<and>
     brelse b s2 = Inr s3 \<and> bread 1 5 s3 = Ret b' s4 \<and> b_data (bf s4 b') = (\<lambda>_. 7)"
proof -
  have "bc_usable (binit bio_boot) (1, 5)"
    by (simp add: bc_usable_def sane_def binit_def) (simp add: bio_boot_def)
  from written_block_is_read_back [OF bio_boot_ok(2) _ this, of "\<lambda>_. 7"] show ?thesis
    by (simp add: NBUF_def) blast
qed

end
