(* ===== verification/Pipe.thy ===== *)
theory Pipe
  imports BioInv
begin

text \<open>
  Pipes (\<^verbatim>\<open>kernel/pipe.c\<close>): a ring of 512 bytes with two 32-bit counters that only grow
  and wrap around, under a lock of its own.  A pipe is named by the page it lives in.  The
  user memory a writer takes its bytes from, and a reader puts them in, is reached through
  the page table in use.  \<^verbatim>\<open>pipealloc\<close> needs the file table and is in the theory of files.
\<close>

section \<open>State\<close>

record pipe =
  data :: "nat \<Rightarrow> byte"
  nread :: uint
  nwrite :: uint
  readopen :: bool
  writeopen :: bool

record kpipe = kbio +
  pipes :: "nat \<Rightarrow> pipe"

definition PIPESIZE :: nat where "PIPESIZE = 512"

definition pipe_upd :: "nat \<Rightarrow> (pipe \<Rightarrow> pipe) \<Rightarrow> 'a kpipe_scheme \<Rightarrow> 'a kpipe_scheme" where
  "pipe_upd p f s = s\<lparr>pipes := (pipes s)(p := f (pipes s p))\<rparr>"

text \<open>The killed flag of the calling process.\<close>

definition am_killed :: "'a kproc_scheme \<Rightarrow> kerr + bool" where
  "am_killed s = bindR (curproc s) (\<lambda>c. Inr (p_killed (pr s c)))"

section \<open>The ring\<close>

definition pipe_empty :: "pipe \<Rightarrow> bool" where
  "pipe_empty q \<longleftrightarrow> nread q = nwrite q"

definition pipe_full :: "pipe \<Rightarrow> bool" where
  "pipe_full q \<longleftrightarrow> nwrite q = nread q + of_nat PIPESIZE"

definition pipe_push :: "byte \<Rightarrow> pipe \<Rightarrow> pipe" where
  "pipe_push b q = q\<lparr>data := (data q)(unat (nwrite q) mod PIPESIZE := b), nwrite := nwrite q + 1\<rparr>"

definition pipe_next :: "pipe \<Rightarrow> byte" where
  "pipe_next q = data q (unat (nread q) mod PIPESIZE)"

definition pipe_pop :: "pipe \<Rightarrow> pipe" where
  "pipe_pop q = q\<lparr>nread := nread q + 1\<rparr>"

section \<open>Closing\<close>

definition pipeclose :: "nat \<Rightarrow> bool \<Rightarrow> 'a kpipe_scheme \<Rightarrow> kerr + 'a kpipe_scheme" where
  "pipeclose p writable s =
     bindR (acquire (PipeLk p) s) (\<lambda>s1.
     bindR (if writable
            then wakeup (ChNread p) (pipe_upd p (\<lambda>q. q\<lparr>writeopen := False\<rparr>) s1)
            else wakeup (ChNwrite p) (pipe_upd p (\<lambda>q. q\<lparr>readopen := False\<rparr>) s1)) (\<lambda>s2.
     if \<not> readopen (pipes s2 p) \<and> \<not> writeopen (pipes s2 p)
     then bindR (release (PipeLk p) s2) (kfree p)
     else release (PipeLk p) s2))"

section \<open>Writing\<close>

text \<open>
  The inner loop of \<^verbatim>\<open>pipewrite\<close>: wait until there is room.  It ends with \<open>True\<close> and the
  lock held, or with \<open>False\<close> and the lock released.
\<close>

definition room_body :: "nat \<Rightarrow> 'a kpipe_scheme \<Rightarrow> ('a kpipe_scheme, bool) turn" where
  "room_body p s =
     (if pipe_full (pipes s p) then
        (case am_killed s of
           Inl e \<Rightarrow> Leave (Err e)
         | Inr k \<Rightarrow>
             if \<not> readopen (pipes s p) \<or> k
             then Leave (doE (release (PipeLk p) s) (Ret False))
             else (case wakeup (ChNread p) s of
                     Inl e \<Rightarrow> Leave (Err e)
                   | Inr s1 \<Rightarrow> nap (ChNwrite p) (PipeLk p) s1))
      else Leave (Ret True s))"

text \<open>The outer loop, at byte \<open>i\<close> of \<open>n\<close>.\<close>

function pipewrite_loop :: "nat \<Rightarrow> uint \<Rightarrow> int \<Rightarrow> nat \<Rightarrow> 'a kpipe_scheme \<Rightarrow> ('a kpipe_scheme, int) run" where
  "pipewrite_loop p addr n i s =
     (if int i < n then
        bindK (loopK (room_body p) s) (\<lambda>ok s1.
        if \<not> ok then Ret (-1) s1
        else doE (vload8 s1 (addr + of_nat i)) (\<lambda>b.
          pipewrite_loop p addr n (i + 1) (pipe_upd p (pipe_push b) s1)))
      else
        doE (wakeup (ChNread p) s) (\<lambda>s1.
        doE (release (PipeLk p) s1) (Ret n)))"
  by pat_completeness auto
termination
  by (relation "measure (\<lambda>(p, addr, n, i, s). nat n - i)") auto

declare pipewrite_loop.simps [simp del]

definition pipewrite :: "nat \<Rightarrow> uint \<Rightarrow> int \<Rightarrow> 'a kpipe_scheme \<Rightarrow> ('a kpipe_scheme, int) run" where
  "pipewrite p addr n s = doE (acquire (PipeLk p) s) (pipewrite_loop p addr n 0)"

section \<open>Reading\<close>

text \<open>The first loop of \<^verbatim>\<open>piperead\<close>: wait until there is a byte or no writer.\<close>

definition bytes_body :: "nat \<Rightarrow> 'a kpipe_scheme \<Rightarrow> ('a kpipe_scheme, bool) turn" where
  "bytes_body p s =
     (if pipe_empty (pipes s p) \<and> writeopen (pipes s p) then
        (case am_killed s of
           Inl e \<Rightarrow> Leave (Err e)
         | Inr k \<Rightarrow>
             if k then Leave (doE (release (PipeLk p) s) (Ret False))
             else nap (ChNread p) (PipeLk p) s)
      else Leave (Ret True s))"

text \<open>The second loop; the result is the number of bytes taken.\<close>

function piperead_loop :: "nat \<Rightarrow> uint \<Rightarrow> int \<Rightarrow> nat \<Rightarrow> 'a kpipe_scheme \<Rightarrow> kerr + nat \<times> 'a kpipe_scheme" where
  "piperead_loop p addr n i s =
     (if int i < n \<and> \<not> pipe_empty (pipes s p) then
        bindR (vstore8 (addr + of_nat i) (pipe_next (pipes s p)) (pipe_upd p pipe_pop s)) (\<lambda>s1.
        piperead_loop p addr n (i + 1) s1)
      else Inr (i, s))"
  by pat_completeness auto
termination
  by (relation "measure (\<lambda>(p, addr, n, i, s). nat n - i)") auto

declare piperead_loop.simps [simp del]

definition piperead :: "nat \<Rightarrow> uint \<Rightarrow> int \<Rightarrow> 'a kpipe_scheme \<Rightarrow> ('a kpipe_scheme, int) run" where
  "piperead p addr n s =
     doE (acquire (PipeLk p) s) (\<lambda>s1.
     bindK (loopK (bytes_body p) s1) (\<lambda>ok s2.
     if \<not> ok then Ret (-1) s2
     else doE (piperead_loop p addr n 0 s2) (\<lambda>(i, s3).
       doE (wakeup (ChNwrite p) s3) (\<lambda>s4.
       doE (release (PipeLk p) s4) (Ret (int i))))))"

section \<open>The pipe as a queue\<close>

text \<open>The bytes in the pipe, oldest first; the counters stay within one ring of each other.\<close>

definition pipe_bytes :: "pipe \<Rightarrow> byte list" where
  "pipe_bytes q = map (\<lambda>i. data q (unat (nread q + of_nat i) mod PIPESIZE)) [0..<unat (nwrite q - nread q)]"

definition pipe_ok :: "pipe \<Rightarrow> bool" where
  "pipe_ok q \<longleftrightarrow> unat (nwrite q - nread q) \<le> PIPESIZE"

lemma pipe_full_iff: "pipe_ok q \<Longrightarrow> pipe_full q \<longleftrightarrow> length (pipe_bytes q) = PIPESIZE"
proof -
  have "nwrite q = nread q + of_nat PIPESIZE \<longleftrightarrow> nwrite q - nread q = of_nat PIPESIZE"
    by (simp add: diff_eq_eq add.commute)
  also have "\<dots> \<longleftrightarrow> unat (nwrite q - nread q) = PIPESIZE"
    by (simp add: PIPESIZE_def word_unat_eq_iff)
  finally show ?thesis by (simp add: pipe_full_def pipe_bytes_def)
qed

lemma pipe_empty_iff: "pipe_empty q \<longleftrightarrow> pipe_bytes q = []"
  by (auto simp: pipe_empty_def pipe_bytes_def unat_eq_zero)

text \<open>
  512 divides \<open>2\<^sup>3\<^sup>2\<close>, so a counter that wraps keeps its place in the ring: two positions less
  than a ring apart are different.
\<close>

lemma ring_index: "unat (a + of_nat i :: uint) mod PIPESIZE = (unat a + i) mod PIPESIZE"
  by (rule counter_mod) (simp add: PIPESIZE_def)

lemma ring_apart: "i \<le> j \<Longrightarrow> j < PIPESIZE \<Longrightarrow> (n + i) mod PIPESIZE = (n + j) mod PIPESIZE \<Longrightarrow> i = j"
  by (rule mod_apart)

lemma pipe_push_bytes:
  assumes "pipe_ok q" and "\<not> pipe_full q"
  shows "pipe_bytes (pipe_push b q) = pipe_bytes q @ [b] \<and> pipe_ok (pipe_push b q)"
proof -
  let ?k = "unat (nwrite q - nread q)"
  have k: "?k < PIPESIZE"
    using assms pipe_full_iff [OF assms(1)] by (simp add: pipe_ok_def pipe_bytes_def)
  have "unat (nwrite q - nread q + 1) = ?k + 1"
    using k by (subst unat_add_lem [THEN iffD1]) (simp_all add: PIPESIZE_def)
  then have len: "unat (nwrite q + 1 - nread q) = Suc ?k" by (simp add: algebra_simps)
  have w: "unat (nwrite q) mod PIPESIZE = (unat (nread q) + ?k) mod PIPESIZE"
    using ring_index [of "nread q" ?k] by simp
  have old: "(unat (nread q) + i) mod PIPESIZE \<noteq> (unat (nread q) + ?k) mod PIPESIZE" if "i < ?k" for i
    using ring_apart [of i ?k "unat (nread q)"] that k by auto
  have "map (\<lambda>i. data (pipe_push b q) (unat (nread q + of_nat i) mod PIPESIZE)) [0..<?k] = pipe_bytes q"
    using old by (simp add: pipe_bytes_def pipe_push_def ring_index w)
  moreover have "data (pipe_push b q) (unat (nread q + of_nat ?k) mod PIPESIZE) = b"
    by (simp add: pipe_push_def)
  ultimately have "pipe_bytes (pipe_push b q) = pipe_bytes q @ [b]"
    by (simp add: pipe_bytes_def [of "pipe_push b q"] len) (simp add: pipe_push_def len)
  moreover have "pipe_ok (pipe_push b q)"
    using k by (simp add: pipe_ok_def pipe_push_def len)
  ultimately show ?thesis ..
qed

lemma pipe_pop_bytes:
  assumes "pipe_ok q" and "\<not> pipe_empty q"
  shows "pipe_bytes q = pipe_next q # pipe_bytes (pipe_pop q) \<and> pipe_ok (pipe_pop q)"
proof -
  let ?k = "unat (nwrite q - nread q)"
  have "0 < ?k" using assms(2) by (simp add: pipe_empty_def unat_gt_0)
  then obtain k where k: "?k = Suc k" by (cases ?k) auto
  have "1 \<le> nwrite q - nread q" using k by (simp add: word_le_nat_alt)
  then have "unat (nwrite q - nread q - 1) = k" using k by (simp add: unat_sub)
  then have len: "unat (nwrite q - (nread q + 1)) = k" by (simp add: algebra_simps)
  have "pipe_bytes q = map (\<lambda>i. data q ((unat (nread q) + i) mod PIPESIZE)) [0..<Suc k]"
    by (simp add: pipe_bytes_def ring_index k)
  also have "\<dots> = pipe_next q # map (\<lambda>i. data q ((unat (nread q) + Suc i) mod PIPESIZE)) [0..<k]"
    by (simp add: upt_conv_Cons map_Suc_upt [symmetric] pipe_next_def comp_def del: upt_Suc)
  also have "map (\<lambda>i. data q ((unat (nread q) + Suc i) mod PIPESIZE)) [0..<k] = pipe_bytes (pipe_pop q)"
  proof -
    have "unat (nread q + 1 + of_nat i) mod PIPESIZE = (unat (nread q) + Suc i) mod PIPESIZE" for i
      using ring_index [of "nread q" "Suc i"] by (simp add: add.assoc)
    then show ?thesis by (simp add: pipe_bytes_def pipe_pop_def len)
  qed
  finally have "pipe_bytes q = pipe_next q # pipe_bytes (pipe_pop q)" .
  moreover have "pipe_ok (pipe_pop q)"
    using assms(1) k by (simp add: pipe_ok_def pipe_pop_def len)
  ultimately show ?thesis ..
qed

section \<open>The interface of a bounded queue\<close>

locale bounded_fifo =
  fixes put :: "'b \<Rightarrow> 'q \<Rightarrow> 'q" and first :: "'q \<Rightarrow> 'b" and drop_first :: "'q \<Rightarrow> 'q"
    and elems :: "'q \<Rightarrow> 'b list" and good :: "'q \<Rightarrow> bool" and cap :: nat
  assumes put_ok: "good q \<Longrightarrow> length (elems q) < cap \<Longrightarrow> elems (put b q) = elems q @ [b] \<and> good (put b q)"
    and first_ok: "good q \<Longrightarrow> elems q \<noteq> [] \<Longrightarrow>
      elems q = first q # elems (drop_first q) \<and> good (drop_first q)"
    and bound: "good q \<Longrightarrow> length (elems q) \<le> cap"
begin

primrec takes :: "nat \<Rightarrow> 'q \<Rightarrow> 'b list \<times> 'q" where
  "takes 0 q = ([], q)"
| "takes (Suc n) q = (let (bs, q') = takes n (drop_first q) in (first q # bs, q'))"

lemma puts_ok:
  "good q \<Longrightarrow> length (elems q) + length bs \<le> cap \<Longrightarrow>
    elems (fold put bs q) = elems q @ bs \<and> good (fold put bs q)"
proof (induction bs arbitrary: q)
  case Nil
  then show ?case by simp
next
  case (Cons b bs)
  with put_ok [of q b] Cons.IH [of "put b q"] show ?case by simp
qed

lemma takes_ok:
  "good q \<Longrightarrow> n \<le> length (elems q) \<Longrightarrow>
    fst (takes n q) = take n (elems q) \<and> elems (snd (takes n q)) = drop n (elems q) \<and> good (snd (takes n q))"
proof (induction n arbitrary: q)
  case 0
  then show ?case by simp
next
  case (Suc n)
  have "elems q \<noteq> []" using Suc.prems(2) by auto
  then have f: "elems q = first q # elems (drop_first q)" "good (drop_first q)"
    using first_ok Suc.prems(1) by blast+
  then have "length (elems q) = Suc (length (elems (drop_first q)))" by (metis length_Cons)
  with Suc.prems(2) have "n \<le> length (elems (drop_first q))" by simp
  from Suc.IH [OF f(2) this]
  have "fst (takes (Suc n) q) = first q # take n (elems (drop_first q)) \<and>
      elems (snd (takes (Suc n) q)) = drop n (elems (drop_first q)) \<and> good (snd (takes (Suc n) q))"
    by (simp add: case_prod_beta Let_def)
  then show ?case by (metis f(1) take_Suc_Cons drop_Suc_Cons)
qed

lemma fifo:
  assumes "good q" and "length (elems q) + length bs \<le> cap"
  shows "fst (takes (length (elems q) + length bs) (fold put bs q)) = elems q @ bs"
  using puts_ok [OF assms] takes_ok [of "fold put bs q" "length (elems q) + length bs"] by simp

end

interpretation pf: bounded_fifo pipe_push pipe_next pipe_pop pipe_bytes pipe_ok PIPESIZE
proof unfold_locales
  fix q b
  show "pipe_ok q \<Longrightarrow> length (pipe_bytes q) < PIPESIZE \<Longrightarrow>
      pipe_bytes (pipe_push b q) = pipe_bytes q @ [b] \<and> pipe_ok (pipe_push b q)"
    using pipe_push_bytes [of q b] pipe_full_iff [of q] by auto
  show "pipe_ok q \<Longrightarrow> pipe_bytes q \<noteq> [] \<Longrightarrow>
      pipe_bytes q = pipe_next q # pipe_bytes (pipe_pop q) \<and> pipe_ok (pipe_pop q)"
    using pipe_pop_bytes [of q] pipe_empty_iff [of q] by auto
  show "pipe_ok q \<Longrightarrow> length (pipe_bytes q) \<le> PIPESIZE"
    by (simp add: pipe_ok_def pipe_bytes_def)
qed

section \<open>The pipe routines on the state\<close>

lemma upper_pipe_upd: "upper (pipe_upd p f)"
  by (simp add: upper_def pipe_upd_def set_cpu_def set_lk_def)

lemmas pipe_lock [simp] = upper_lock [OF upper_pipe_upd]

lemma pipe_upd_sel [simp]:
  "pipes (pipe_upd p f s) = (pipes s)(p := f (pipes s p))"
  "ptable (pipe_upd p f s) = ptable s" "phys (pipe_upd p f s) = phys s"
  "bcache (pipe_upd p f s) = bcache s"
  by (simp_all add: pipe_upd_def)

lemma pipes_below [simp]:
  "pipes (set_cpu c s) = pipes s" "pipes (set_lk l v s) = pipes s"
  "pipes (pushcli s) = pipes s" "pipes (locked l s) = pipes s" "pipes (quiet s) = pipes s"
  "pipes (initlock l nm s) = pipes s" "pipes (upd_proc i g s) = pipes s"
  "pipes (for_procs g s) = pipes s" "pipes (wakeup1 ch s) = pipes s"
  "pipes (ram_upd h s) = pipes s" "pipes (bufs_upd m s) = pipes s"
  "pipes (s\<lparr>ptable := t\<rparr>) = pipes s" "pipes (s\<lparr>phys := ph\<rparr>) = pipes s" "pipes (s\<lparr>bcache := b\<rparr>) = pipes s"
  by (simp_all add: set_cpu_def set_lk_def pushcli_def locked_def quiet_def initlock_def
      upd_proc_def for_procs_def wakeup1_def ram_upd_def bufs_upd_def Let_def)

lemma pipes_rest:
  fixes s s' :: "'a kpipe_scheme"
  assumes "same_rest s s'"
  shows "pipes s' = pipes s"
proof -
  have "kphys.more s' = kphys.more s" using assms by (simp add: same_rest_def)
  then show ?thesis by (cases s, cases s', simp)
qed

lemma pipe_upd_twice [simp]: "pipe_upd p f (pipe_upd p g s) = pipe_upd p (\<lambda>q. f (g q)) s"
  by (simp add: pipe_upd_def)

lemma pipe_upd_id [simp]: "pipe_upd p (\<lambda>q. q) s = s"
  by (simp add: pipe_upd_def)

lemma wakeup1_pipe_upd: "wakeup1 ch (pipe_upd p f s) = pipe_upd p f (wakeup1 ch s)"
  by (simp add: wakeup1_def pipe_upd_def for_procs_def cong: if_cong)

text \<open>What the caller's buffer holds.\<close>

definition user_bytes :: "'a kphys_scheme \<Rightarrow> uint \<Rightarrow> byte list \<Rightarrow> bool" where
  "user_bytes s addr bs \<longleftrightarrow> (\<forall>i<length bs. vload8 s (addr + of_nat i) = Inr (bs ! i))"

lemma vload8_same [simp]:
  "vload8 (pipe_upd p f s) = vload8 s" "vload8 (quiet s) = vload8 s" "vload8 (locked l s) = vload8 s"
  by (simp_all add: vload8_def fun_eq_iff split: option.split)

lemma user_bytes_same [simp]:
  "user_bytes (pipe_upd p f s) = user_bytes s" "user_bytes (locked l s) = user_bytes s"
  by (simp_all add: user_bytes_def fun_eq_iff)

section \<open>Writing in order\<close>

text \<open>
  \<open>writes p R c bs m\<close>: the run \<open>m\<close>, started with \<open>c\<close> in the pipe and \<open>bs\<close> to write, appends
  the bytes of \<open>bs\<close> in order.  It goes away only with a full pipe, having appended a part of
  them; resumed in a state that satisfies \<open>R\<close>, whatever is in the pipe by then, it goes on with the
  others.  It ends with all of them appended, or with -1 and a part of them appended.
\<close>

coinductive writes :: "nat \<Rightarrow> ('a kpipe_scheme \<Rightarrow> bool) \<Rightarrow> byte list \<Rightarrow> byte list \<Rightarrow>
    ('a kpipe_scheme, int) run \<Rightarrow> bool" for p :: nat and R :: "'a kpipe_scheme \<Rightarrow> bool" where
  all: "pipe_bytes (pipes s p) = c @ bs \<Longrightarrow> 0 \<le> n \<Longrightarrow> writes p R c bs (Ret n s)"
| part: "pipe_bytes (pipes s p) = c @ take j bs \<Longrightarrow> writes p R c bs (Ret (-1) s)"
| stop: "writes p R c bs (Err e)"
| away: "pipe_bytes (pipes s p) = c @ take j bs \<Longrightarrow> length (pipe_bytes (pipes s p)) = PIPESIZE \<Longrightarrow>
    (\<And>s'. R s' \<Longrightarrow> writes p R (pipe_bytes (pipes s' p)) (drop j bs) (k s')) \<Longrightarrow>
    writes p R c bs (Swtch s k)"

lemma writes_shift:
  assumes "writes p R (c @ [b]) bs m"
  shows "writes p R c (b # bs) m"
  using assms
proof cases
  case (all s n)
  then show ?thesis using writes.all [of s p c "b # bs" n R] by simp
next
  case (part s j)
  then show ?thesis using writes.part [of s p c "Suc j" "b # bs" R] by simp
next
  case (stop e)
  then show ?thesis by (simp add: writes.stop)
next
  case (away s j k)
  then show ?thesis using writes.away [of s p c "Suc j" "b # bs" R k] by simp
qed

text \<open>What the writer may count on when it is resumed.\<close>

definition writer_back :: "nat \<Rightarrow> uint \<Rightarrow> byte list \<Rightarrow> 'a kpipe_scheme \<Rightarrow> bool" where
  "writer_back p addr bs s \<longleftrightarrow> pipe_ok (pipes s p) \<and> user_bytes s addr bs"

lemma sleep_leave_rest:
  assumes "sleep_leave lk s = Inr s'"
  shows "\<exists>c. same_rest (upd_proc c (\<lambda>p. p\<lparr>p_chan := None\<rparr>) s) s' \<and> phys s' = phys s"
proof -
  obtain c where t: "(if lk \<noteq> PtableLk then
      bindR (release PtableLk (upd_proc c (\<lambda>p. p\<lparr>p_chan := None\<rparr>) s)) (acquire lk)
      else Inr (upd_proc c (\<lambda>p. p\<lparr>p_chan := None\<rparr>) s)) = Inr s'"
    using assms by (auto simp: sleep_leave_def bindR_eq_Inr [of "curproc s"] Let_def)
  let ?u = "upd_proc c (\<lambda>p. p\<lparr>p_chan := None\<rparr>) s"
  have "same_cpu ?u s'"
  proof (cases "lk = PtableLk")
    case True
    with t show ?thesis by (simp add: same_cpu_def)
  next
    case False
    then obtain v where "release PtableLk ?u = Inr v" and "acquire lk v = Inr s'"
      using t [unfolded if_P [OF False] bindR_eq_Inr] by blast
    from release_frame [OF this(1)] acquire_frame [OF this(2)] show ?thesis
      by (auto simp: same_cpu_def)
  qed
  from same_cpu_rest [OF this] phys_more(1) [of s' ?u] this show ?thesis
    by (auto simp: same_cpu_def intro!: exI [of _ c])
qed

lemma sleep_enter_pipes: "sleep_enter ch lk s = Inr s' \<Longrightarrow> pipes s' = pipes s"
  by (auto simp: sleep_enter_def res_simps split: option.splits if_splits dest!: lock_rest pipes_rest)

text \<open>The condition a writer is resumed in survives what it does before it looks at the pipe.\<close>

lemma same_cpu_cr3: "sleep_leave lk s = Inr s' \<Longrightarrow> cr3 (cpus s' (me s')) = cr3 (this_cpu s)"
proof -
  assume a: "sleep_leave lk s = Inr s'"
  have rel: "cr3 (this_cpu t') = cr3 (this_cpu t)" if "release l t = Inr t'" for l and t t' :: "'a kproc_scheme"
    using that by (auto simp: release_def popcli_def Let_def split: if_splits)
  have acq: "cr3 (this_cpu t') = cr3 (this_cpu t)" if "acquire l t = Inr t'" for l and t t' :: "'a kproc_scheme"
    using that by (auto simp: acquire_def Let_def split: if_splits)
  from a obtain c where t: "(if lk \<noteq> PtableLk then
      bindR (release PtableLk (upd_proc c (\<lambda>p. p\<lparr>p_chan := None\<rparr>) s)) (acquire lk)
      else Inr (upd_proc c (\<lambda>p. p\<lparr>p_chan := None\<rparr>) s)) = Inr s'"
    by (auto simp: sleep_leave_def bindR_eq_Inr [of "curproc s"] Let_def)
  let ?u = "upd_proc c (\<lambda>p. p\<lparr>p_chan := None\<rparr>) s"
  show ?thesis
  proof (cases "lk = PtableLk")
    case True
    with t show ?thesis by auto
  next
    case False
    then obtain v where "release PtableLk ?u = Inr v" and "acquire lk v = Inr s'"
      using t [unfolded if_P [OF False] bindR_eq_Inr] by blast
    from rel [OF this(1)] acq [OF this(2)] show ?thesis by simp
  qed
qed

lemma writer_back_wakes:
  assumes "writer_back p addr bs s" and "sleep_leave lk (sched_leave i s) = Inr s'"
  shows "writer_back p addr bs s' \<and> pipes s' = pipes s"
proof -
  obtain c where r: "same_rest (upd_proc c (\<lambda>p. p\<lparr>p_chan := None\<rparr>) (sched_leave i s)) s'"
    and ph: "phys s' = phys s"
    using sleep_leave_rest [OF assms(2)] by (auto simp: sched_leave_def)
  have "pipes s' = pipes s" using pipes_rest [OF r] by (simp add: sched_leave_def)
  moreover have "cr3 (this_cpu s') = cr3 (this_cpu s)"
    using same_cpu_cr3 [OF assms(2)] by (simp add: sched_leave_def)
  then have "vload8 s' = vload8 s" by (simp add: fun_eq_iff vload8_def ph split: option.split)
  ultimately show ?thesis using assms(1) by (simp add: writer_back_def user_bytes_def)
qed

lemma wakeup_pipes:
  assumes "wakeup ch s = Inr s'"
  shows "pipes s' = pipes s"
proof -
  obtain t where "acquire PtableLk s = Inr t" and "release PtableLk (wakeup1 ch t) = Inr s'"
    using assms unfolding wakeup_def bindR_eq_Inr by blast
  from pipes_rest [OF lock_rest(1) [OF this(1)]] pipes_rest [OF lock_rest(2) [OF this(2)]]
  show ?thesis by simp
qed

lemma room_writes:
  fixes s :: "'a kpipe_scheme"
  assumes "writer_back p addr bs s"
    and rest: "\<And>s'. writer_back p addr bs s' \<Longrightarrow> \<not> pipe_full (pipes s' p) \<Longrightarrow>
      writes p (writer_back p addr bs) (pipe_bytes (pipes s' p)) cs (f s')"
  shows "writes p (writer_back p addr bs) (pipe_bytes (pipes s p)) cs
    (bindK (loopK (room_body p) s) (\<lambda>ok s1. if \<not> ok then Ret (-1) s1 else f s1))"
proof -
  let ?R = "writer_back p addr bs"
  let ?m = "\<lambda>s. bindK (loopK (room_body p) s) (\<lambda>ok s1. if \<not> ok then Ret (-1) s1 else f s1)"
  have "(\<exists>s. ?R s \<and> c = pipe_bytes (pipes s p) \<and> ds = cs \<and> m = ?m s) \<or> writes p ?R c ds m \<Longrightarrow>
      writes p ?R c ds m" for c ds m
  proof (coinduction arbitrary: c ds m)
    case writes
    then consider s where "?R s" "c = pipe_bytes (pipes s p)" "ds = cs" "m = ?m s"
      | "writes p ?R c ds m" by blast
    then show ?case
    proof cases
      case 2
      then show ?thesis by cases auto
    next
      case 1
      show ?thesis
      proof (cases "pipe_full (pipes s p)")
        case False
        then have "m = f s" using 1(4) by (simp add: loopK_unfold room_body_def)
        with rest [OF 1(1) False] 1(2,3) have "writes p ?R c ds m" by (simp only:)
        then show ?thesis by cases auto
      next
        case full: True
        then have len: "length (pipe_bytes (pipes s p)) = PIPESIZE"
          using 1(1) pipe_full_iff by (auto simp: writer_back_def)
        show ?thesis
        proof (cases "am_killed s")
          case (Inl e)
          with 1(4) full show ?thesis by (simp add: loopK_unfold room_body_def)
        next
          case k: (Inr k)
          show ?thesis
          proof (cases "\<not> readopen (pipes s p) \<or> k")
            case True
            show ?thesis
            proof (cases "release (PipeLk p) s")
              case (Inl e)
              with 1(4) full k True show ?thesis by (simp add: loopK_unfold room_body_def)
            next
              case (Inr u)
              with 1(4) full k True have "m = Ret (-1) u" by (simp add: loopK_unfold room_body_def)
              moreover have "pipe_bytes (pipes u p) = c @ take 0 ds"
                using pipes_rest [OF lock_rest(2) [OF Inr]] 1(2) by simp
              ultimately have "writes p ?R c ds m" by (simp only: writes.part)
              then show ?thesis by cases auto
            qed
          next
            case go: False
            show ?thesis
            proof (cases "wakeup (ChNread p) s")
              case (Inl e)
              with 1(4) full k go show ?thesis by (simp add: loopK_unfold room_body_def)
            next
              case w: (Inr s1)
              show ?thesis
              proof (cases "bindR (sleep_enter (ChNwrite p) (PipeLk p) s1)
                  (\<lambda>s1. bindR (sched_enter s1) (\<lambda>i. Inr (i, s1)))")
                case (Inl e)
                with 1(4) full k go w show ?thesis by (simp add: loopK_unfold room_body_def nap_def)
              next
                case (Inr r)
                obtain i s2 where s2: "r = (i, s2)" by (cases r)
                with Inr have e: "sleep_enter (ChNwrite p) (PipeLk p) s1 = Inr s2" by (auto simp: res_simps)
                have m: "m = Swtch s2 (\<lambda>s'. bindK (doE (sleep_leave (PipeLk p) (sched_leave i s')) (loopK (room_body p)))
                    (\<lambda>ok s1. if \<not> ok then Ret (-1) s1 else f s1))"
                  using 1(4) full k go w Inr s2 by (simp add: loopK_unfold [of "room_body p" s] room_body_def nap_def)
                have "pipes s2 = pipes s"
                  using sleep_enter_pipes [OF e] wakeup_pipes [OF w] by simp
                moreover define k where "k s' = bindK (doE (sleep_leave (PipeLk p) (sched_leave i s'))
                    (loopK (room_body p))) (\<lambda>ok s1. if \<not> ok then Ret (-1) s1 else f s1)" for s'
                have "(\<exists>s. ?R s \<and> pipe_bytes (pipes s' p) = pipe_bytes (pipes s p) \<and> drop 0 ds = cs \<and>
                      k s' = ?m s) \<or> writes p ?R (pipe_bytes (pipes s' p)) (drop 0 ds) (k s')"
                  if "?R s'" for s'
                proof (cases "sleep_leave (PipeLk p) (sched_leave i s')")
                  case (Inl e)
                  then show ?thesis by (simp add: k_def writes.stop)
                next
                  case (Inr u)
                  with writer_back_wakes [OF that Inr] 1(3) show ?thesis by (auto simp: k_def)
                qed
                moreover have "m = Swtch s2 k" unfolding m k_def by simp
                ultimately show ?thesis
                  using len 1(2)
                  by (intro disjI2 exI [of _ s2] exI [of _ c] exI [of _ 0] exI [of _ ds] exI [of _ k] conjI)
                    simp_all
              qed
            qed
          qed
        qed
      qed
    qed
  qed
  then show ?thesis using assms(1) by blast
qed

lemma pipewrite_loop_writes:
  fixes s :: "'a kpipe_scheme"
  assumes "writer_back p addr bs s" and "n = int (length bs)" and "i \<le> length bs"
  shows "writes p (writer_back p addr bs) (pipe_bytes (pipes s p)) (drop i bs) (pipewrite_loop p addr n i s)"
  using assms(1,3)
proof (induction "length bs - i" arbitrary: i s)
  case 0
  then have "\<not> int i < n" using assms(2) by simp
  then have m: "pipewrite_loop p addr n i s = doE (wakeup (ChNread p) s) (\<lambda>s1. doE (release (PipeLk p) s1) (Ret n))"
    by (simp add: pipewrite_loop.simps)
  have "drop i bs = []" using 0 by simp
  moreover have "writes p (writer_back p addr bs) (pipe_bytes (pipes s p)) [] (pipewrite_loop p addr n i s)"
  proof (cases "wakeup (ChNread p) s")
    case (Inl e)
    then show ?thesis by (simp add: m writes.stop)
  next
    case w: (Inr s1)
    show ?thesis
    proof (cases "release (PipeLk p) s1")
      case (Inl e)
      then show ?thesis by (simp add: m w writes.stop)
    next
      case (Inr s2)
      have "pipes s2 = pipes s" using pipes_rest [OF lock_rest(2) [OF Inr]] wakeup_pipes [OF w] by simp
      with w Inr have "pipewrite_loop p addr n i s = Ret n s2" by (simp add: m)
      moreover have "pipe_bytes (pipes s2 p) = pipe_bytes (pipes s p) @ []"
        using \<open>pipes s2 = pipes s\<close> by simp
      ultimately show ?thesis using writes.all assms(2) by (metis of_nat_0_le_iff)
    qed
  qed
  ultimately show ?case by simp
next
  case (Suc k)
  then have i: "i < length bs" by simp
  then have m: "pipewrite_loop p addr n i s =
      bindK (loopK (room_body p) s) (\<lambda>ok s1. if \<not> ok then Ret (-1) s1
        else doE (vload8 s1 (addr + of_nat i)) (\<lambda>b.
          pipewrite_loop p addr n (i + 1) (pipe_upd p (pipe_push b) s1)))"
  proof -
    have "int i < n" using i assms(2) by simp
    then show ?thesis by (subst pipewrite_loop.simps) simp
  qed
  show ?case
    unfolding m
  proof (rule room_writes [OF Suc.prems(1)])
    fix s' :: "'a kpipe_scheme"
    assume b: "writer_back p addr bs s'" and room: "\<not> pipe_full (pipes s' p)"
    then have l: "vload8 s' (addr + of_nat i) = Inr (bs ! i)"
      using i by (simp add: writer_back_def user_bytes_def)
    let ?s = "pipe_upd p (pipe_push (bs ! i)) s'"
    have push: "pipe_bytes (pipes ?s p) = pipe_bytes (pipes s' p) @ [bs ! i]" "pipe_ok (pipes ?s p)"
      using b room pipe_push_bytes [of "pipes s' p"] by (auto simp: writer_back_def)
    then have "writer_back p addr bs ?s" using b by (simp add: writer_back_def)
    with Suc.hyps(2) i have "writes p (writer_back p addr bs) (pipe_bytes (pipes ?s p)) (drop (Suc i) bs)
        (pipewrite_loop p addr n (Suc i) ?s)"
      by (intro Suc.hyps(1)) auto
    then have "writes p (writer_back p addr bs) (pipe_bytes (pipes s' p)) (bs ! i # drop (Suc i) bs)
        (pipewrite_loop p addr n (Suc i) ?s)"
      unfolding push(1) by (rule writes_shift)
    with l i show "writes p (writer_back p addr bs) (pipe_bytes (pipes s' p)) (drop i bs)
        (doE (vload8 s' (addr + of_nat i)) (\<lambda>b. pipewrite_loop p addr n (i + 1) (pipe_upd p (pipe_push b) s')))"
      by (simp add: Cons_nth_drop_Suc)
  qed
qed

section \<open>Transfers without waiting\<close>

lemma room_body_passes: "\<not> pipe_full (pipes s p) \<Longrightarrow> loopK (room_body p) s = Ret True s"
  by (simp add: loopK_unfold room_body_def)

lemma bytes_body_passes:
  "\<not> pipe_empty (pipes s p) \<or> \<not> writeopen (pipes s p) \<Longrightarrow> loopK (bytes_body p) s = Ret True s"
  by (auto simp: loopK_unfold bytes_body_def)

lemma pipewrite_loop_room:
  assumes "user_bytes s addr bs" and "pipe_ok (pipes s p)" and "i \<le> length bs"
    and "length (pipe_bytes (pipes s p)) + (length bs - i) \<le> PIPESIZE"
  shows "pipewrite_loop p addr (int (length bs)) i s =
    doE (wakeup (ChNread p) (pipe_upd p (fold pipe_push (drop i bs)) s)) (\<lambda>s1.
    doE (release (PipeLk p) s1) (Ret (int (length bs))))"
  using assms
proof (induction "length bs - i" arbitrary: i s)
  case 0
  then show ?case by (subst pipewrite_loop.simps) (simp add: id_def)
next
  case (Suc k)
  then have i: "i < length bs" by simp
  have nf: "\<not> pipe_full (pipes s p)" using Suc.prems Suc.hyps(2) pipe_full_iff by fastforce
  let ?s = "pipe_upd p (pipe_push (bs ! i)) s"
  have push: "pipe_bytes (pipes ?s p) = pipe_bytes (pipes s p) @ [bs ! i]" "pipe_ok (pipes ?s p)"
    using pipe_push_bytes [of "pipes s p"] Suc.prems(2) nf by auto
  have "pipewrite_loop p addr (int (length bs)) i s = pipewrite_loop p addr (int (length bs)) (Suc i) ?s"
  proof -
    have "vload8 s (addr + of_nat i) = Inr (bs ! i)" using Suc.prems(1) i by (simp add: user_bytes_def)
    then show ?thesis
      using i by (subst pipewrite_loop.simps) (simp add: room_body_passes [OF nf])
  qed
  also have "\<dots> = doE (wakeup (ChNread p) (pipe_upd p (fold pipe_push (drop (Suc i) bs)) ?s)) (\<lambda>s1.
      doE (release (PipeLk p) s1) (Ret (int (length bs))))"
    using Suc.hyps(2) Suc.prems push i by (intro Suc.hyps(1)) auto
  also have "pipe_upd p (fold pipe_push (drop (Suc i) bs)) ?s = pipe_upd p (fold pipe_push (drop i bs)) s"
    using i by (simp add: Cons_nth_drop_Suc [symmetric] comp_def)
  finally show ?case .
qed

text \<open>Bytes stored one after the other in the caller's buffer.\<close>

fun vstores :: "uint \<Rightarrow> nat \<Rightarrow> byte list \<Rightarrow> 'a kphys_scheme \<Rightarrow> kerr + 'a kphys_scheme" where
  "vstores addr i [] s = Inr s"
| "vstores addr i (b # bs) s = bindR (vstore8 (addr + of_nat i) b s) (vstores addr (Suc i) bs)"

lemma vstore8_pipe: "vstore8 va b (pipe_upd p f s) = map_sum id (pipe_upd p f) (vstore8 va b s)"
  by (simp add: vstore8_def pipe_upd_def ram_upd_def split: option.split)

lemma vstore8_locked: "vstore8 va b (locked l s) = map_sum id (locked l) (vstore8 va b s)"
  by (simp add: vstore8_def ram_upd_def split: option.split)

lemma vstores_pipe: "vstores addr i bs (pipe_upd p f s) = map_sum id (pipe_upd p f) (vstores addr i bs s)"
proof (induction bs arbitrary: i s)
  case (Cons b bs)
  then show ?case by (cases "vstore8 (addr + of_nat i) b s") (simp_all add: vstore8_pipe)
qed simp

lemma vstores_locked: "vstores addr i bs (locked l s) = map_sum id (locked l) (vstores addr i bs s)"
proof (induction bs arbitrary: i s)
  case (Cons b bs)
  then show ?case by (cases "vstore8 (addr + of_nat i) b s") (simp_all add: vstore8_locked)
qed simp

lemma vstores_rest:
  "vstores addr i bs s = Inr s' \<Longrightarrow> same_rest s s' \<and> lks s' = lks s \<and> cpus s' = cpus s"
proof (induction bs arbitrary: i s)
  case (Cons b bs)
  then obtain t where t: "vstore8 (addr + of_nat i) b s = Inr t" "vstores addr (Suc i) bs t = Inr s'"
    by (auto simp: res_simps)
  have "same_rest s t \<and> lks t = lks s \<and> cpus t = cpus s"
    using t(1) vstore8_rest [OF t(1)] by (auto simp: vstore8_def split: option.splits)
  with Cons.IH [OF t(2)] show ?case by (auto intro: same_rest_trans)
qed simp

lemma piperead_loop_takes:
  assumes "pipe_ok (pipes s p)" and "n = int N" and "i \<le> N"
    and "vstores addr i (take (N - i) (pipe_bytes (pipes s p))) s = Inr s'"
  shows "\<exists>q. piperead_loop p addr n i s = Inr (i + min (N - i) (length (pipe_bytes (pipes s p))), pipe_upd p (\<lambda>_. q) s') \<and>
    pipe_ok q \<and> pipe_bytes q = drop (N - i) (pipe_bytes (pipes s p)) \<and>
    readopen q = readopen (pipes s p) \<and> writeopen q = writeopen (pipes s p)"
  using assms
proof (induction "N - i" arbitrary: i s s')
  case 0
  then have "piperead_loop p addr n i s = Inr (i, s)" "s' = s"
    by (subst piperead_loop.simps, simp_all)
  moreover have "pipe_upd p (\<lambda>_. pipes s p) s = s" by (simp add: pipe_upd_def)
  ultimately show ?case using 0 by (intro exI [of _ "pipes s p"]) simp
next
  case (Suc k)
  show ?case
  proof (cases "pipe_empty (pipes s p)")
    case True
    then have "piperead_loop p addr n i s = Inr (i, s)" "pipe_bytes (pipes s p) = []" "s' = s"
      using Suc.prems(4) pipe_empty_iff [of "pipes s p"]
      by (subst piperead_loop.simps, simp_all)
    moreover have "pipe_upd p (\<lambda>_. pipes s p) s = s" by (simp add: pipe_upd_def)
    ultimately show ?thesis using Suc.prems(1) by (intro exI [of _ "pipes s p"]) simp
  next
    case False
    let ?q = "pipe_pop (pipes s p)"
    have pop: "pipe_bytes (pipes s p) = pipe_next (pipes s p) # pipe_bytes ?q" "pipe_ok ?q"
      using pipe_pop_bytes [OF Suc.prems(1) False] by auto
    have "take (N - i) (pipe_bytes (pipes s p)) = pipe_next (pipes s p) # take k (pipe_bytes ?q)"
      by (subst pop(1)) (simp add: Suc.hyps(2) [symmetric])
    with Suc.prems(4) obtain t where t: "vstore8 (addr + of_nat i) (pipe_next (pipes s p)) s = Inr t"
      "vstores addr (Suc i) (take k (pipe_bytes ?q)) t = Inr s'"
      by (auto simp: res_simps)
    have pt: "pipes t = pipes s" by (rule pipes_rest [OF vstore8_rest [OF t(1)]])
    have k: "k = N - Suc i" "Suc i \<le> N" "N - i = Suc k" using Suc.hyps(2) by simp_all
    have "int i < n" using Suc by simp
    then have "piperead_loop p addr n i s = piperead_loop p addr n (Suc i) (pipe_upd p pipe_pop t)"
      using False t(1) by (subst piperead_loop.simps) (simp add: vstore8_pipe)
    moreover have "vstores addr (Suc i) (take (N - Suc i) (pipe_bytes (pipes (pipe_upd p pipe_pop t) p)))
        (pipe_upd p pipe_pop t) = Inr (pipe_upd p pipe_pop s')"
    proof -
      have "N - Suc i = k" using Suc.hyps(2) by simp
      with t(2) pt show ?thesis by (simp add: vstores_pipe)
    qed
    ultimately obtain q where q: "piperead_loop p addr n i s =
        Inr (Suc i + min (N - Suc i) (length (pipe_bytes ?q)), pipe_upd p (\<lambda>_. q) (pipe_upd p pipe_pop s'))"
      "pipe_ok q" "pipe_bytes q = drop (N - Suc i) (pipe_bytes ?q)"
      "readopen q = readopen ?q" "writeopen q = writeopen ?q"
      using Suc.hyps(1) [of "Suc i" "pipe_upd p pipe_pop t" "pipe_upd p pipe_pop s'"] k(1,2) Suc.prems(2) pop(2) pt by auto
    have "Suc i + min (N - Suc i) (length (pipe_bytes ?q)) = i + min (N - i) (length (pipe_bytes (pipes s p)))"
      by (subst pop(1)) (simp add: k(3) k(1) [symmetric])
    moreover have "drop (N - i) (pipe_bytes (pipes s p)) = drop (N - Suc i) (pipe_bytes ?q)"
      by (subst pop(1)) (simp add: k(3) k(1) [symmetric])
    ultimately show ?thesis using q by (intro exI [of _ q]) (simp add: pipe_pop_def)
  qed
qed

lemma fold_push_ends:
  "readopen (fold pipe_push bs q) = readopen q \<and> writeopen (fold pipe_push bs q) = writeopen q"
  by (induction bs arbitrary: q) (simp_all add: pipe_push_def)

section \<open>Properties\<close>

text \<open>
  Claim C20.  A pipe is a queue of at most 512 bytes, also when its 32-bit counters wrap
  around: bytes pushed while there is room come out in order behind those already in it.
\<close>

theorem pipe_is_bounded_fifo:
  assumes "pipe_ok q" and "length (pipe_bytes q) + length bs \<le> PIPESIZE"
  shows "fst (pf.takes (length (pipe_bytes q) + length bs) (fold pipe_push bs q)) = pipe_bytes q @ bs \<and>
     pipe_bytes (fold pipe_push bs q) = pipe_bytes q @ bs \<and> pipe_ok (fold pipe_push bs q) \<and>
     (pipe_full (fold pipe_push bs q) \<longleftrightarrow> length (pipe_bytes q) + length bs = PIPESIZE)"
  using pf.fifo [OF assms] pf.puts_ok [OF assms] pipe_full_iff by auto

text \<open>A pipe about to wrap both counters.\<close>

definition pipe_wrapping :: pipe where
  "pipe_wrapping = \<lparr>data = (\<lambda>_. 0), nread = 0xFFFFFFFF, nwrite = 0xFFFFFFFF, readopen = True, writeopen = True\<rparr>"

theorem pipe_is_bounded_fifo_witness:
  "fst (pf.takes 2 (fold pipe_push [7, 8] pipe_wrapping)) = [7, 8]"
proof -
  have "pipe_ok pipe_wrapping" "pipe_bytes pipe_wrapping = []"
    by (simp_all add: pipe_ok_def pipe_bytes_def pipe_wrapping_def)
  with pipe_is_bounded_fifo [of pipe_wrapping "[7, 8]"] show ?thesis by (simp add: PIPESIZE_def numeral_2_eq_2)
qed


text \<open>
  Without waiting: a write that fits returns its length with its bytes at the end of
  the pipe, and a read of \<open>n\<close> bytes from a pipe that has some, or has no writer left, returns
  the number of bytes it takes off the front, at most \<open>n\<close>, having stored them in the caller's
  buffer; 0 only at the end of the data.
\<close>

theorem pipe_transfers:
  fixes s :: "'a kpipe_scheme"
  assumes "cli_ok s" and "lk_free (lks s (PipeLk p))" and "lk_free (lks s PtableLk)"
    and "pipe_ok (pipes s p)"
  shows "(\<forall>addr bs. user_bytes s addr bs \<longrightarrow> length (pipe_bytes (pipes s p)) + length bs \<le> PIPESIZE \<longrightarrow>
       (\<exists>s'. pipewrite p addr (int (length bs)) s = Ret (int (length bs)) s' \<and>
          pipe_bytes (pipes s' p) = pipe_bytes (pipes s p) @ bs)) \<and>
     (\<forall>addr n s1. pipe_bytes (pipes s p) \<noteq> [] \<or> \<not> writeopen (pipes s p) \<longrightarrow>
       vstores addr 0 (take n (pipe_bytes (pipes s p))) s = Inr s1 \<longrightarrow>
       (\<exists>s'. piperead p addr (int n) s = Ret (int (min n (length (pipe_bytes (pipes s p))))) s' \<and>
          pipe_bytes (pipes s' p) = drop n (pipe_bytes (pipes s p)) \<and> ram (phys s') = ram (phys s1)))"
proof (intro conjI allI impI)
  let ?t = "locked (PipeLk p) s"
  have a: "acquire (PipeLk p) s = Inr ?t" by (rule acquire_free [OF assms(2)])
  have w: "wakeup ch (pipe_upd p f ?t) = Inr (pipe_upd p f (wakeup1 ch ?t))" for ch f
    using assms by (subst wakeup_eq) (simp_all add: quiet_locked wakeup1_pipe_upd)
  fix addr :: uint and bs
  assume u: "user_bytes s addr bs" and l: "length (pipe_bytes (pipes s p)) + length bs \<le> PIPESIZE"
  have "pipewrite p addr (int (length bs)) s =
      Ret (int (length bs)) (pipe_upd p (fold pipe_push bs) (wakeup1 (ChNread p) (quiet s)))"
    using pipewrite_loop_room [of ?t addr bs p 0] u l assms(4)
    by (simp add: pipewrite_def a w release_locked [OF assms(1,2)])
  moreover have "pipe_bytes (fold pipe_push bs (pipes s p)) = pipe_bytes (pipes s p) @ bs"
    using pf.puts_ok [OF assms(4) l] by simp
  ultimately show "\<exists>s'. pipewrite p addr (int (length bs)) s = Ret (int (length bs)) s' \<and>
      pipe_bytes (pipes s' p) = pipe_bytes (pipes s p) @ bs" by simp
next
  let ?t = "locked (PipeLk p) s"
  fix addr n and s1 :: "'a kpipe_scheme"
  assume e: "pipe_bytes (pipes s p) \<noteq> [] \<or> \<not> writeopen (pipes s p)"
    and v: "vstores addr 0 (take n (pipe_bytes (pipes s p))) s = Inr s1"
  have r: "same_rest s s1" "lks s1 = lks s" "cpus s1 = cpus s" using vstores_rest [OF v] by auto
  have me1: "me s1 = me s" using r(1) by (simp add: same_rest_def)
  obtain q where q: "piperead_loop p addr (int n) 0 ?t =
      Inr (min n (length (pipe_bytes (pipes s p))), pipe_upd p (\<lambda>_. q) (locked (PipeLk p) s1))"
    "pipe_bytes q = drop n (pipe_bytes (pipes s p))"
    using piperead_loop_takes [of ?t p "int n" n 0 addr] assms(4) v by (auto simp: vstores_locked)
  have s1: "cli_ok s1" "lk_free (lks s1 (PipeLk p))" "lk_free (lks s1 PtableLk)"
    using assms(1-3) r me1 by (simp_all add: cli_ok_def)
  have w: "wakeup ch (pipe_upd p f (locked (PipeLk p) s1)) = Inr (pipe_upd p f (wakeup1 ch (locked (PipeLk p) s1)))" for ch f
    using s1 by (subst wakeup_eq) (simp_all add: quiet_locked wakeup1_pipe_upd)
  have "piperead p addr (int n) s = Ret (int (min n (length (pipe_bytes (pipes s p)))))
      (pipe_upd p (\<lambda>_. q) (wakeup1 (ChNwrite p) (quiet s1)))"
    using e by (simp add: piperead_def acquire_free [OF assms(2)] bytes_body_passes pipe_empty_iff q(1) w
        release_locked [OF s1(1,2)])
  with q(2) show "\<exists>s'. piperead p addr (int n) s = Ret (int (min n (length (pipe_bytes (pipes s p))))) s' \<and>
      pipe_bytes (pipes s' p) = drop n (pipe_bytes (pipes s p)) \<and> ram (phys s') = ram (phys s1)"
    by (intro exI [of _ "pipe_upd p (\<lambda>_. q) (wakeup1 (ChNwrite p) (quiet s1))"])
       (simp add: wakeup1_def for_procs_def)
qed

text \<open>A machine with a pipe about to wrap, in the page at \<open>0x400000\<close>.\<close>

definition pipe_boot :: kpipe where
  "pipe_boot = \<lparr>cpus = cpus bio_boot, lks = lks bio_boot, me = 0, phys = phys bio_boot,
     ptable = ptable bio_boot, bcache = bcache bio_boot, pipes = (\<lambda>_. pipe_wrapping)\<rparr>"

lemma pipe_wrapping_ok: "pipe_ok pipe_wrapping" "pipe_bytes pipe_wrapping = []"
  by (simp_all add: pipe_ok_def pipe_bytes_def pipe_wrapping_def)


theorem pipe_transfers_witness:
  "\<exists>s'. pipewrite 0x400000 0 0 pipe_boot = Ret 0 s' \<and> pipe_bytes (pipes s' 0x400000) = []"
proof -
  have "cli_ok pipe_boot" "lk_free (lks pipe_boot (PipeLk 0x400000))" "lk_free (lks pipe_boot PtableLk)"
    "pipe_ok (pipes pipe_boot 0x400000)" "pipe_bytes (pipes pipe_boot 0x400000) = []"
    using pipe_wrapping_ok by (simp_all add: pipe_boot_def bio_boot_def boot_defs cli_ok_def lk_free_def)
  with conjunct1 [OF pipe_transfers [OF this(1-4)], rule_format, of 0 "[]"] show ?thesis
    by (simp add: user_bytes_def)
qed

end
