(* ===== verification/Fs.thy ===== *)
theory Fs
  imports Pipe XvString
begin

text \<open>
  The file system (\<^verbatim>\<open>kernel/fs.c\<close>, \<^verbatim>\<open>include/fs.h\<close>, \<^verbatim>\<open>kernel/file.h\<close>): the allocator of disk
  blocks, the inode cache, the contents of inodes, directories and path names.  An inode
  pointer is an index of the cache; a buffer is named as in the buffer cache.  A path is the
  list of its bytes up to the NUL, taken when the call is made.
\<close>

unbundle bit_operations_syntax

section \<open>State\<close>

record inode =
  i_dev :: uint
  i_inum :: uint
  i_ref :: int
  i_busy :: bool
  i_valid :: bool
  i_type :: "16 word"
  i_major :: "16 word"
  i_minor :: "16 word"
  i_nlink :: "16 word"
  i_size :: uint
  i_addrs :: "nat \<Rightarrow> uint"

record kfs = kpipe +
  inodes :: "nat \<Rightarrow> inode"

definition NINODE :: nat where "NINODE = 50"
definition NDEV :: nat where "NDEV = 10"
definition ROOTDEV :: uint where "ROOTDEV = 1"
definition ROOTINO :: uint where "ROOTINO = 1"
definition NDIRECT :: nat where "NDIRECT = 12"
definition NINDIRECT :: nat where "NINDIRECT = BSIZE div 4"
definition MAXFILE :: nat where "MAXFILE = NDIRECT + NINDIRECT"
definition IPB :: nat where "IPB = 8"
definition BPB :: nat where "BPB = BSIZE * 8"
definition DIRSIZ :: nat where "DIRSIZ = 14"
definition T_DIR :: "16 word" where "T_DIR = 1"
definition T_FILE :: "16 word" where "T_FILE = 2"
definition T_DEV :: "16 word" where "T_DEV = 3"

definition IBLOCK :: "uint \<Rightarrow> uint" where
  "IBLOCK i = i div of_nat IPB + 2"

definition BBLOCK :: "nat \<Rightarrow> uint \<Rightarrow> uint" where
  "BBLOCK b ninodes = of_nat (b div BPB) + ninodes div of_nat IPB + 3"

abbreviation ino :: "'a kfs_scheme \<Rightarrow> nat \<Rightarrow> inode" where
  "ino s i \<equiv> inodes s i"

definition ino_upd :: "nat \<Rightarrow> (inode \<Rightarrow> inode) \<Rightarrow> 'a kfs_scheme \<Rightarrow> 'a kfs_scheme" where
  "ino_upd i f s = s\<lparr>inodes := (inodes s)(i := f (ino s i))\<rparr>"

text \<open>16-bit fields of the disk structures.\<close>

definition load16 :: "bmem \<Rightarrow> nat \<Rightarrow> 16 word" where
  "load16 m a = ucast (m a) OR push_bit 8 (ucast (m (a + 1)))"

definition store16 :: "bmem \<Rightarrow> nat \<Rightarrow> 16 word \<Rightarrow> bmem" where
  "store16 m a w = m(a := ucast w, a + 1 := ucast (drop_bit 8 w))"

text \<open>The data of buffer \<open>b\<close>.\<close>

abbreviation bdata :: "'a kbio_scheme \<Rightarrow> nat \<Rightarrow> bmem" where
  "bdata s b \<equiv> b_data (bf s b)"

section \<open>Blocks\<close>

record superblock =
  sb_size :: uint
  sb_nblocks :: uint
  sb_ninodes :: uint

definition readsb :: "uint \<Rightarrow> 'a kfs_scheme \<Rightarrow> ('a kfs_scheme, superblock) run" where
  "readsb dev s =
     bindK (bread dev 1 s) (\<lambda>bp s1.
     let sb = \<lparr>sb_size = load32 (bdata s1 bp) 0, sb_nblocks = load32 (bdata s1 bp) 4,
               sb_ninodes = load32 (bdata s1 bp) 8\<rparr>
     in doE (brelse bp s1) (Ret sb))"

definition bzero :: "uint \<Rightarrow> uint \<Rightarrow> 'a kfs_scheme \<Rightarrow> ('a kfs_scheme, unit) run" where
  "bzero dev bno s =
     bindK (bread dev bno s) (\<lambda>bp s1.
     doE (bwrite bp (set_data bp (snd (memset (bdata s1 bp) 0 0 BSIZE)) s1)) (\<lambda>s2.
     doE (brelse bp s2) (Ret ())))"

text \<open>The bit of block \<open>bi\<close> of a bitmap block, and setting and clearing it.\<close>

definition bit_mask :: "nat \<Rightarrow> byte" where
  "bit_mask bi = push_bit (bi mod 8) 1"

definition bit_free :: "bmem \<Rightarrow> nat \<Rightarrow> bool" where
  "bit_free d bi \<longleftrightarrow> d (bi div 8) AND bit_mask bi = 0"

definition bit_take :: "nat \<Rightarrow> bmem \<Rightarrow> bmem" where
  "bit_take bi d = d(bi div 8 := d (bi div 8) OR bit_mask bi)"

definition bit_give :: "nat \<Rightarrow> bmem \<Rightarrow> bmem" where
  "bit_give bi d = d(bi div 8 := d (bi div 8) AND NOT (bit_mask bi))"

text \<open>The outer loop of \<^verbatim>\<open>balloc\<close>, at block number \<open>b\<close>; the inner loop is the \<open>find\<close>.\<close>

function balloc_loop :: "uint \<Rightarrow> superblock \<Rightarrow> nat \<Rightarrow> 'a kfs_scheme \<Rightarrow> ('a kfs_scheme, uint) run" where
  "balloc_loop dev sb b s =
     (if b < unat (sb_size sb) then
        bindK (bread dev (BBLOCK b (sb_ninodes sb)) s) (\<lambda>bp s1.
        case find (bit_free (bdata s1 bp)) [0..<BPB] of
          Some bi \<Rightarrow>
            doE (bwrite bp (set_data bp (bit_take bi (bdata s1 bp)) s1)) (\<lambda>s2.
            doE (brelse bp s2) (Ret (of_nat (b + bi))))
        | None \<Rightarrow> doE (brelse bp s1) (\<lambda>s2. balloc_loop dev sb (b + BPB) s2))
      else Err (Panic ''balloc: out of blocks''))"
  by pat_completeness auto
termination
  by (relation "measure (\<lambda>(dev, sb, b, s). unat (sb_size sb) - b)") (auto simp: BPB_def BSIZE_def)

declare balloc_loop.simps [simp del]

definition balloc :: "uint \<Rightarrow> 'a kfs_scheme \<Rightarrow> ('a kfs_scheme, uint) run" where
  "balloc dev s = bindK (readsb dev s) (\<lambda>sb. balloc_loop dev sb 0)"

definition bfree :: "uint \<Rightarrow> uint \<Rightarrow> 'a kfs_scheme \<Rightarrow> ('a kfs_scheme, unit) run" where
  "bfree dev b s =
     bindK (bzero dev b s) (\<lambda>_ s1.
     bindK (readsb dev s1) (\<lambda>sb s2.
     bindK (bread dev (BBLOCK (unat b) (sb_ninodes sb)) s2) (\<lambda>bp s3.
     let bi = unat b mod BPB in
     if bit_free (bdata s3 bp) bi then Err (Panic ''freeing free block'')
     else doE (bwrite bp (set_data bp (bit_give bi (bdata s3 bp)) s3)) (\<lambda>s4.
          doE (brelse bp s4) (Ret ())))))"

section \<open>Inodes\<close>

definition iinit :: "'a kfs_scheme \<Rightarrow> 'a kfs_scheme" where
  "iinit s = initlock IcacheLk ''icache'' s"

text \<open>
  The inode on disk: its place in its block and its fields there; \<open>put_inode\<close> is the copy
  \<^verbatim>\<open>iupdate\<close> makes, \<open>get_inode\<close> the one of \<^verbatim>\<open>ilock\<close>.
\<close>

definition DINODE :: nat where "DINODE = 64"

definition dinode_at :: "uint \<Rightarrow> nat" where
  "dinode_at inum = DINODE * (unat inum mod IPB)"

primrec put_words :: "nat \<Rightarrow> (nat \<Rightarrow> uint) \<Rightarrow> nat \<Rightarrow> bmem \<Rightarrow> bmem" where
  "put_words 0 w a m = m"
| "put_words (Suc n) w a m = store32 (put_words n w a m) (a + 4 * n) (w n)"

definition put_inode :: "inode \<Rightarrow> nat \<Rightarrow> bmem \<Rightarrow> bmem" where
  "put_inode ip a m =
     (let m1 = store16 m a (i_type ip);
          m2 = store16 m1 (a + 2) (i_major ip);
          m3 = store16 m2 (a + 4) (i_minor ip);
          m4 = store16 m3 (a + 6) (i_nlink ip);
          m5 = store32 m4 (a + 8) (i_size ip)
      in put_words (NDIRECT + 1) (i_addrs ip) (a + 12) m5)"

definition get_inode :: "bmem \<Rightarrow> nat \<Rightarrow> inode \<Rightarrow> inode" where
  "get_inode m a ip = ip\<lparr>i_type := load16 m a, i_major := load16 m (a + 2), i_minor := load16 m (a + 4),
     i_nlink := load16 m (a + 6), i_size := load32 m (a + 8),
     i_addrs := (\<lambda>i. if i < NDIRECT + 1 then load32 m (a + 12 + 4 * i) else i_addrs ip i)\<rparr>"

definition iupdate :: "nat \<Rightarrow> 'a kfs_scheme \<Rightarrow> ('a kfs_scheme, unit) run" where
  "iupdate ip s =
     bindK (bread (i_dev (ino s ip)) (IBLOCK (i_inum (ino s ip))) s) (\<lambda>bp s1.
     doE (bwrite bp (set_data bp (put_inode (ino s1 ip) (dinode_at (i_inum (ino s1 ip))) (bdata s1 bp)) s1)) (\<lambda>s2.
     doE (brelse bp s2) (Ret ())))"

text \<open>\<^verbatim>\<open>iget\<close> looks for the inode and remembers the first empty slot.\<close>

definition iget :: "uint \<Rightarrow> uint \<Rightarrow> 'a kfs_scheme \<Rightarrow> kerr + nat \<times> 'a kfs_scheme" where
  "iget dev inum s =
     bindR (acquire IcacheLk s) (\<lambda>s1.
     case find (\<lambda>i. i_ref (ino s1 i) > 0 \<and> i_dev (ino s1 i) = dev \<and> i_inum (ino s1 i) = inum) [0..<NINODE] of
       Some i \<Rightarrow> bindR (release IcacheLk (ino_upd i (\<lambda>p. p\<lparr>i_ref := i_ref p + 1\<rparr>) s1)) (\<lambda>s2. Inr (i, s2))
     | None \<Rightarrow>
        (case find (\<lambda>i. i_ref (ino s1 i) = 0) [0..<NINODE] of
           None \<Rightarrow> Inl (Panic ''iget: no inodes'')
         | Some i \<Rightarrow>
             bindR (release IcacheLk (ino_upd i (\<lambda>p. p\<lparr>i_dev := dev, i_inum := inum, i_ref := 1,
               i_busy := False, i_valid := False\<rparr>) s1)) (\<lambda>s2. Inr (i, s2))))"

text \<open>The loop of \<^verbatim>\<open>ialloc\<close>, at inode number \<open>inum\<close>.\<close>

function ialloc_loop :: "uint \<Rightarrow> 16 word \<Rightarrow> superblock \<Rightarrow> nat \<Rightarrow> 'a kfs_scheme \<Rightarrow> ('a kfs_scheme, nat) run" where
  "ialloc_loop dev ty sb inum s =
     (if inum < unat (sb_ninodes sb) then
        bindK (bread dev (IBLOCK (of_nat inum)) s) (\<lambda>bp s1.
        let a = dinode_at (of_nat inum) in
        if load16 (bdata s1 bp) a = 0 then
          let d1 = snd (memset (bdata s1 bp) a 0 DINODE); d2 = store16 d1 a ty in
          doE (bwrite bp (set_data bp d2 s1)) (\<lambda>s2.
          doE (brelse bp s2) (\<lambda>s3.
          doE (iget dev (of_nat inum) s3) (\<lambda>(i, s4). Ret i s4)))
        else doE (brelse bp s1) (\<lambda>s2. ialloc_loop dev ty sb (inum + 1) s2))
      else Err (Panic ''ialloc: no inodes''))"
  by pat_completeness auto
termination
  by (relation "measure (\<lambda>(dev, ty, sb, inum, s). unat (sb_ninodes sb) - inum)") auto

declare ialloc_loop.simps [simp del]

definition ialloc :: "uint \<Rightarrow> 16 word \<Rightarrow> 'a kfs_scheme \<Rightarrow> ('a kfs_scheme, nat) run" where
  "ialloc dev ty s = bindK (readsb dev s) (\<lambda>sb. ialloc_loop dev ty sb 1)"

definition idup :: "nat \<Rightarrow> 'a kfs_scheme \<Rightarrow> kerr + nat \<times> 'a kfs_scheme" where
  "idup ip s =
     bindR (acquire IcacheLk s) (\<lambda>s1.
     bindR (release IcacheLk (ino_upd ip (\<lambda>p. p\<lparr>i_ref := i_ref p + 1\<rparr>) s1)) (\<lambda>s2. Inr (ip, s2)))"

text \<open>Waiting for the lock of an inode, and taking it.\<close>

definition ilock_body :: "nat \<Rightarrow> 'a kfs_scheme \<Rightarrow> ('a kfs_scheme, unit) turn" where
  "ilock_body ip s =
     (if i_busy (ino s ip) then nap (ChInode ip) IcacheLk s
      else Leave (doE (release IcacheLk (ino_upd ip (\<lambda>p. p\<lparr>i_busy := True\<rparr>) s)) (Ret ())))"

definition ilock :: "nat option \<Rightarrow> 'a kfs_scheme \<Rightarrow> ('a kfs_scheme, unit) run" where
  "ilock ipo s =
     (case ipo of None \<Rightarrow> Err (Panic ''ilock'') | Some ip \<Rightarrow>
      if i_ref (ino s ip) < 1 then Err (Panic ''ilock'')
      else
        doE (acquire IcacheLk s) (\<lambda>s1.
        bindK (loopK (ilock_body ip) s1) (\<lambda>_ s2.
        if i_valid (ino s2 ip) then Ret () s2
        else
          bindK (bread (i_dev (ino s2 ip)) (IBLOCK (i_inum (ino s2 ip))) s2) (\<lambda>bp s3.
          let s4 = ino_upd ip (get_inode (bdata s3 bp) (dinode_at (i_inum (ino s3 ip)))) s3 in
          doE (brelse bp s4) (\<lambda>s5.
          let s6 = ino_upd ip (\<lambda>p. p\<lparr>i_valid := True\<rparr>) s5 in
          if i_type (ino s6 ip) = 0 then Err (Panic ''ilock: no type'') else Ret () s6)))))"

definition iunlock :: "nat option \<Rightarrow> 'a kfs_scheme \<Rightarrow> kerr + 'a kfs_scheme" where
  "iunlock ipo s =
     (case ipo of None \<Rightarrow> Inl (Panic ''iunlock'') | Some ip \<Rightarrow>
      if \<not> i_busy (ino s ip) \<or> i_ref (ino s ip) < 1 then Inl (Panic ''iunlock'')
      else
        bindR (acquire IcacheLk s) (\<lambda>s1.
        bindR (wakeup (ChInode ip) (ino_upd ip (\<lambda>p. p\<lparr>i_busy := False\<rparr>) s1)) (release IcacheLk)))"

section \<open>Blocks of an inode\<close>

definition bmap :: "nat \<Rightarrow> uint \<Rightarrow> 'a kfs_scheme \<Rightarrow> ('a kfs_scheme, uint) run" where
  "bmap ip bn0 s =
     (if unat bn0 < NDIRECT then
        let addr = i_addrs (ino s ip) (unat bn0) in
        if addr = 0 then
          bindK (balloc (i_dev (ino s ip)) s) (\<lambda>addr s1.
          Ret addr (ino_upd ip (\<lambda>p. p\<lparr>i_addrs := (i_addrs p)(unat bn0 := addr)\<rparr>) s1))
        else Ret addr s
      else
        let bn = bn0 - of_nat NDIRECT in
        if unat bn < NINDIRECT then
          bindK
            (if i_addrs (ino s ip) NDIRECT = 0 then
               bindK (balloc (i_dev (ino s ip)) s) (\<lambda>addr s1.
               Ret addr (ino_upd ip (\<lambda>p. p\<lparr>i_addrs := (i_addrs p)(NDIRECT := addr)\<rparr>) s1))
             else Ret (i_addrs (ino s ip) NDIRECT) s) (\<lambda>addr s2.
          bindK (bread (i_dev (ino s2 ip)) addr s2) (\<lambda>bp s3.
          let addr = load32 (bdata s3 bp) (4 * unat bn) in
          if addr = 0 then
            bindK (balloc (i_dev (ino s3 ip)) s3) (\<lambda>addr s4.
            doE (bwrite bp (set_data bp (store32 (bdata s4 bp) (4 * unat bn) addr) s4)) (\<lambda>s5.
            doE (brelse bp s5) (Ret addr)))
          else doE (brelse bp s3) (Ret addr)))
        else Err (Panic ''bmap: out of range''))"

text \<open>The two loops of \<^verbatim>\<open>itrunc\<close>, over the positions still to visit.\<close>

fun itrunc_direct :: "nat \<Rightarrow> nat list \<Rightarrow> 'a kfs_scheme \<Rightarrow> ('a kfs_scheme, unit) run" where
  "itrunc_direct ip [] s = Ret () s"
| "itrunc_direct ip (i # is) s =
     (if i_addrs (ino s ip) i \<noteq> 0 then
        bindK (bfree (i_dev (ino s ip)) (i_addrs (ino s ip) i) s) (\<lambda>_ s1.
        itrunc_direct ip is (ino_upd ip (\<lambda>p. p\<lparr>i_addrs := (i_addrs p)(i := 0)\<rparr>) s1))
      else itrunc_direct ip is s)"

fun itrunc_indirect :: "nat \<Rightarrow> nat \<Rightarrow> nat list \<Rightarrow> 'a kfs_scheme \<Rightarrow> ('a kfs_scheme, unit) run" where
  "itrunc_indirect ip bp [] s = Ret () s"
| "itrunc_indirect ip bp (j # js) s =
     (if load32 (bdata s bp) (4 * j) \<noteq> 0 then
        bindK (bfree (i_dev (ino s ip)) (load32 (bdata s bp) (4 * j)) s) (\<lambda>_. itrunc_indirect ip bp js)
      else itrunc_indirect ip bp js s)"

definition itrunc :: "nat \<Rightarrow> 'a kfs_scheme \<Rightarrow> ('a kfs_scheme, unit) run" where
  "itrunc ip s =
     bindK (itrunc_direct ip [0..<NDIRECT] s) (\<lambda>_ s1.
     bindK
       (if i_addrs (ino s1 ip) NDIRECT \<noteq> 0 then
          bindK (bread (i_dev (ino s1 ip)) (i_addrs (ino s1 ip) NDIRECT) s1) (\<lambda>bp s2.
          bindK (itrunc_indirect ip bp [0..<NINDIRECT] s2) (\<lambda>_ s3.
          doE (brelse bp s3) (\<lambda>s4.
          bindK (bfree (i_dev (ino s4 ip)) (i_addrs (ino s4 ip) NDIRECT) s4) (\<lambda>_ s5.
          Ret () (ino_upd ip (\<lambda>p. p\<lparr>i_addrs := (i_addrs p)(NDIRECT := 0)\<rparr>) s5)))))
        else Ret () s1) (\<lambda>_ s6.
     iupdate ip (ino_upd ip (\<lambda>p. p\<lparr>i_size := 0\<rparr>) s6)))"

definition iput :: "nat \<Rightarrow> 'a kfs_scheme \<Rightarrow> ('a kfs_scheme, unit) run" where
  "iput ip s =
     doE (acquire IcacheLk s) (\<lambda>s1.
     bindK
       (if i_ref (ino s1 ip) = 1 \<and> i_valid (ino s1 ip) \<and> i_nlink (ino s1 ip) = 0 then
          if i_busy (ino s1 ip) then Err (Panic ''iput busy'')
          else
            doE (release IcacheLk (ino_upd ip (\<lambda>p. p\<lparr>i_busy := True\<rparr>) s1)) (\<lambda>s2.
            bindK (itrunc ip s2) (\<lambda>_ s3.
            bindK (iupdate ip (ino_upd ip (\<lambda>p. p\<lparr>i_type := 0\<rparr>) s3)) (\<lambda>_ s4.
            doE (acquire IcacheLk s4) (\<lambda>s5.
            doE (wakeup (ChInode ip) (ino_upd ip (\<lambda>p. p\<lparr>i_busy := False, i_valid := False\<rparr>) s5)) (Ret ())))))
        else Ret () s1) (\<lambda>_ s6.
     doE (release IcacheLk (ino_upd ip (\<lambda>p. p\<lparr>i_ref := i_ref p - 1\<rparr>) s6)) (Ret ())))"

definition iunlockput :: "nat \<Rightarrow> 'a kfs_scheme \<Rightarrow> ('a kfs_scheme, unit) run" where
  "iunlockput ip s = doE (iunlock (Some ip) s) (iput ip)"

section \<open>Contents of inodes\<close>

record stat =
  st_type :: "16 word"
  st_dev :: uint
  st_ino :: uint
  st_nlink :: "16 word"
  st_size :: uint

definition stati :: "nat \<Rightarrow> 'a kfs_scheme \<Rightarrow> stat" where
  "stati ip s = \<lparr>st_type = i_type (ino s ip), st_dev = i_dev (ino s ip), st_ino = i_inum (ino s ip),
     st_nlink = i_nlink (ino s ip), st_size = i_size (ino s ip)\<rparr>"

text \<open>
  Where \<^verbatim>\<open>readi\<close> puts the bytes it reads: a buffer of the calling process, reached through
  the page table in use, a page of physical memory, or a variable of the caller, which takes
  them from the result.  \<^verbatim>\<open>writei\<close> takes its bytes from a buffer of the process or from a
  variable of the caller.
\<close>

datatype dst = ToUser uint | ToPhys nat | ToLocal
datatype src = FromUser uint | FromLocal "byte list"

fun copy_to :: "dst \<Rightarrow> nat \<Rightarrow> byte list \<Rightarrow> 'a kphys_scheme \<Rightarrow> kerr + 'a kphys_scheme" where
  "copy_to (ToUser va) i bs s = vstores va i bs s"
| "copy_to (ToPhys pa) i bs s = Inr (ram_upd (\<lambda>m a. if pa + i \<le> a \<and> a < pa + i + length bs
     then bs ! (a - (pa + i)) else m a) s)"
| "copy_to ToLocal i bs s = Inr s"

fun vloads :: "uint \<Rightarrow> nat \<Rightarrow> nat \<Rightarrow> 'a kphys_scheme \<Rightarrow> kerr + byte list" where
  "vloads va i 0 s = Inr []"
| "vloads va i (Suc n) s =
     bindR (vload8 s (va + of_nat i)) (\<lambda>b. bindR (vloads va (Suc i) n s) (\<lambda>bs. Inr (b # bs)))"

fun copy_from :: "src \<Rightarrow> nat \<Rightarrow> nat \<Rightarrow> 'a kphys_scheme \<Rightarrow> kerr + byte list" where
  "copy_from (FromUser va) i n s = vloads va i n s"
| "copy_from (FromLocal bs) i n s = Inr (take n (drop i bs))"

text \<open>
  The table of devices, whose routines \<^verbatim>\<open>readi\<close> and \<^verbatim>\<open>writei\<close> call through it.  The device
  gets the inode, the buffer and the count.
\<close>

record 's devsw =
  d_read :: "(nat \<Rightarrow> dst \<Rightarrow> int \<Rightarrow> 's \<Rightarrow> ('s, int \<times> byte list) run) option"
  d_write :: "(nat \<Rightarrow> src \<Rightarrow> int \<Rightarrow> 's \<Rightarrow> ('s, int) run) option"

text \<open>
  The copying loops, with \<open>tot\<close> of \<open>n\<close> bytes done.  The result of \<^verbatim>\<open>readi\<close> carries the bytes.
\<close>

function readi_loop :: "nat \<Rightarrow> dst \<Rightarrow> nat \<Rightarrow> nat \<Rightarrow> uint \<Rightarrow> byte list \<Rightarrow> 'a kfs_scheme \<Rightarrow>
    ('a kfs_scheme, byte list) run" where
  "readi_loop ip dst tot n off acc s =
     (if tot < n then
        bindK (bmap ip (off div of_nat BSIZE) s) (\<lambda>bno s1.
        bindK (bread (i_dev (ino s1 ip)) bno s1) (\<lambda>bp s2.
        let o1 = unat off mod BSIZE; m = min (n - tot) (BSIZE - o1);
            bs = map (\<lambda>i. bdata s2 bp (o1 + i)) [0..<m] in
        doE (copy_to dst tot bs s2) (\<lambda>s3.
        doE (brelse bp s3) (\<lambda>s4.
        readi_loop ip dst (tot + m) n (off + of_nat m) (acc @ bs) s4))))
      else Ret acc s)"
  by pat_completeness auto
termination
  by (relation "measure (\<lambda>(ip, dst, tot, n, off, acc, s). n - tot)") (auto simp: BSIZE_def)

declare readi_loop.simps [simp del]

definition readi :: "(nat \<Rightarrow> 'a kfs_scheme devsw) \<Rightarrow> nat \<Rightarrow> dst \<Rightarrow> uint \<Rightarrow> uint \<Rightarrow> 'a kfs_scheme \<Rightarrow>
    ('a kfs_scheme, int \<times> byte list) run" where
  "readi devs ip dst off n s =
     (if i_type (ino s ip) = T_DEV then
        let mj = sint (i_major (ino s ip)) in
        if mj < 0 \<or> int NDEV \<le> mj then Ret (-1, []) s
        else (case d_read (devs (nat mj)) of None \<Rightarrow> Ret (-1, []) s | Some dev_rd \<Rightarrow> dev_rd ip dst (sint n) s)
      else if i_size (ino s ip) < off \<or> off + n < off then Ret (-1, []) s
      else
        let n1 = (if i_size (ino s ip) < off + n then i_size (ino s ip) - off else n) in
        bindK (readi_loop ip dst 0 (unat n1) off [] s) (\<lambda>bs. Ret (sint n1, bs)))"

function writei_loop :: "nat \<Rightarrow> src \<Rightarrow> nat \<Rightarrow> nat \<Rightarrow> uint \<Rightarrow> 'a kfs_scheme \<Rightarrow> ('a kfs_scheme, uint) run" where
  "writei_loop ip src tot n off s =
     (if tot < n then
        bindK (bmap ip (off div of_nat BSIZE) s) (\<lambda>bno s1.
        bindK (bread (i_dev (ino s1 ip)) bno s1) (\<lambda>bp s2.
        let o1 = unat off mod BSIZE; m = min (n - tot) (BSIZE - o1) in
        doE (copy_from src tot m s2) (\<lambda>bs.
        doE (bwrite bp (set_data bp (\<lambda>i. if o1 \<le> i \<and> i < o1 + m then bs ! (i - o1) else bdata s2 bp i) s2)) (\<lambda>s3.
        doE (brelse bp s3) (\<lambda>s4.
        writei_loop ip src (tot + m) n (off + of_nat m) s4)))))
      else Ret off s)"
  by pat_completeness auto
termination
  by (relation "measure (\<lambda>(ip, src, tot, n, off, s). n - tot)") (auto simp: BSIZE_def)

declare writei_loop.simps [simp del]

definition writei :: "(nat \<Rightarrow> 'a kfs_scheme devsw) \<Rightarrow> nat \<Rightarrow> src \<Rightarrow> uint \<Rightarrow> uint \<Rightarrow> 'a kfs_scheme \<Rightarrow>
    ('a kfs_scheme, int) run" where
  "writei devs ip src off n s =
     (if i_type (ino s ip) = T_DEV then
        let mj = sint (i_major (ino s ip)) in
        if mj < 0 \<or> int NDEV \<le> mj then Ret (-1) s
        else (case d_write (devs (nat mj)) of None \<Rightarrow> Ret (-1) s | Some dev_wr \<Rightarrow> dev_wr ip src (sint n) s)
      else if i_size (ino s ip) < off \<or> off + n < off then Ret (-1) s
      else
        let cap = of_nat (MAXFILE * BSIZE);
            n1 = (if cap < off + n then cap - off else n) in
        bindK (writei_loop ip src 0 (unat n1) off s) (\<lambda>off1 s1.
        if 0 < n1 \<and> i_size (ino s1 ip) < off1
        then bindK (iupdate ip (ino_upd ip (\<lambda>p. p\<lparr>i_size := off1\<rparr>) s1)) (\<lambda>_. Ret (sint n1))
        else Ret (sint n1) s1))"

section \<open>Directories\<close>

text \<open>
  A directory entry of 16 bytes, at \<open>a\<close> of a block: the inode number and the name.  Names
  are fields of 14 bytes, NUL-terminated only when shorter.
\<close>

definition DIRENT :: nat where "DIRENT = 16"

definition de_inum :: "bmem \<Rightarrow> nat \<Rightarrow> 16 word" where "de_inum m a = load16 m a"
definition de_name :: "bmem \<Rightarrow> nat \<Rightarrow> nat \<Rightarrow> byte" where "de_name m a i = m (a + 2 + i)"

text \<open>Two fields side by side, as \<^verbatim>\<open>strncmp\<close> and \<^verbatim>\<open>strncpy\<close> see them.\<close>

definition beside :: "(nat \<Rightarrow> byte) \<Rightarrow> (nat \<Rightarrow> byte) \<Rightarrow> bmem" where
  "beside f g a = (if a < DIRSIZ then f a else g (a - DIRSIZ))"

definition namecmp :: "(nat \<Rightarrow> byte) \<Rightarrow> (nat \<Rightarrow> byte) \<Rightarrow> int" where
  "namecmp f g = strncmp (beside f g) 0 DIRSIZ DIRSIZ"

text \<open>
  \<^verbatim>\<open>dirlookup\<close> from the block at \<open>off\<close> on.  The block map ends at \<open>MAXFILE\<close> blocks, so the
  loop takes at most \<open>MAXFILE + 1\<close> turns.
\<close>

fun dirlookup_loop :: "nat \<Rightarrow> nat \<Rightarrow> (nat \<Rightarrow> byte) \<Rightarrow> uint \<Rightarrow> 'a kfs_scheme \<Rightarrow>
    ('a kfs_scheme, (nat \<times> uint) option) run" where
  "dirlookup_loop k dp name off s =
     (if off < i_size (ino s dp) then
        case k of 0 \<Rightarrow> Err Loops | Suc k1 \<Rightarrow>
        bindK (bmap dp (off div of_nat BSIZE) s) (\<lambda>bno s1.
        bindK (bread (i_dev (ino s1 dp)) bno s1) (\<lambda>bp s2.
        case find (\<lambda>j. de_inum (bdata s2 bp) (DIRENT * j) \<noteq> 0 \<and>
             namecmp name (de_name (bdata s2 bp) (DIRENT * j)) = 0) [0..<BSIZE div DIRENT] of
          Some j \<Rightarrow>
            let inum = ucast (de_inum (bdata s2 bp) (DIRENT * j)) in
            doE (brelse bp s2) (\<lambda>s3.
            doE (iget (i_dev (ino s3 dp)) inum s3) (\<lambda>(i, s4).
            Ret (Some (i, off + of_nat (DIRENT * j))) s4))
        | None \<Rightarrow>
            doE (brelse bp s2) (dirlookup_loop k1 dp name (off + of_nat BSIZE))))
      else Ret None s)"

declare dirlookup_loop.simps [simp del]

definition dirlookup :: "nat \<Rightarrow> (nat \<Rightarrow> byte) \<Rightarrow> 'a kfs_scheme \<Rightarrow> ('a kfs_scheme, (nat \<times> uint) option) run" where
  "dirlookup dp name s =
     (if i_type (ino s dp) \<noteq> T_DIR then Err (Panic ''dirlookup not DIR'')
      else dirlookup_loop (MAXFILE + 1) dp name 0 s)"

text \<open>
  The search of \<^verbatim>\<open>dirlink\<close> for an empty entry, at \<open>off\<close>: the entry it stops at, or the end
  of the directory with the entry read last.
\<close>

fun dirlink_loop :: "(nat \<Rightarrow> 'a kfs_scheme devsw) \<Rightarrow> nat \<Rightarrow> nat \<Rightarrow> uint \<Rightarrow> byte list \<Rightarrow> 'a kfs_scheme \<Rightarrow>
    ('a kfs_scheme, uint \<times> byte list) run" where
  "dirlink_loop devs k dp off de s =
     (if off < i_size (ino s dp) then
        case k of 0 \<Rightarrow> Err Loops | Suc k1 \<Rightarrow>
        bindK (readi devs dp ToLocal off (of_nat DIRENT) s) (\<lambda>(r, bs) s1.
        if r \<noteq> int DIRENT then Err (Panic ''dirlink read'')
        else if de_inum (\<lambda>i. bs ! i) 0 = 0 then Ret (off, bs) s1
        else dirlink_loop devs k1 dp (off + of_nat DIRENT) bs s1)
      else Ret (off, de) s)"

declare dirlink_loop.simps [simp del]

definition dirlink :: "(nat \<Rightarrow> 'a kfs_scheme devsw) \<Rightarrow> nat \<Rightarrow> (nat \<Rightarrow> byte) \<Rightarrow> uint \<Rightarrow> 'a kfs_scheme \<Rightarrow>
    ('a kfs_scheme, int) run" where
  "dirlink devs dp name inum s =
     bindK (dirlookup dp name s) (\<lambda>r s1.
     case r of
       Some (ip, off) \<Rightarrow> bindK (iput ip s1) (\<lambda>_. Ret (-1))
     | None \<Rightarrow>
         bindK (dirlink_loop devs (MAXFILE * (BSIZE div DIRENT) + 1) dp 0 (replicate DIRENT 0) s1) (\<lambda>(off, de) s2.
         let nm = snd (strncpy (beside (\<lambda>i. de ! (2 + i)) name) 0 DIRSIZ (int DIRSIZ));
             m = store16 (\<lambda>i. if i < 2 then 0 else nm (i - 2)) 0 (ucast inum) in
         bindK (writei devs dp (FromLocal (map m [0..<DIRENT])) off (of_nat DIRENT) s2) (\<lambda>r s3.
         if r \<noteq> int DIRENT then Err (Panic ''dirlink'') else Ret 0 s3)))"

section \<open>Path names\<close>

definition slash :: byte where "slash = 47"

definition copy_in :: "byte list \<Rightarrow> (nat \<Rightarrow> byte) \<Rightarrow> nat \<Rightarrow> byte" where
  "copy_in bs f i = (if i < length bs then bs ! i else f i)"

definition skipelem :: "byte list \<Rightarrow> (nat \<Rightarrow> byte) \<Rightarrow> (byte list \<times> (nat \<Rightarrow> byte)) option" where
  "skipelem path0 name =
     (let s = dropWhile (\<lambda>c. c = slash) path0 in
      if s = [] then None
      else
        let path = dropWhile (\<lambda>c. c \<noteq> slash) s; len = length s - length path;
            name1 = (if DIRSIZ \<le> len then copy_in (take DIRSIZ s) name
                     else (copy_in (take len s) name)(len := 0))
        in Some (dropWhile (\<lambda>c. c = slash) path, name1))"

lemma skipelem_shorter: "skipelem path name = Some (path', name') \<Longrightarrow> length path' < length path"
proof -
  assume "skipelem path name = Some (path', name')"
  then have ne: "dropWhile (\<lambda>c. c = slash) path \<noteq> []"
    and p: "path' = dropWhile (\<lambda>c. c = slash) (dropWhile (\<lambda>c. c \<noteq> slash) (dropWhile (\<lambda>c. c = slash) path))"
    by (auto simp: skipelem_def Let_def split: if_splits)
  from ne have "hd (dropWhile (\<lambda>c. c = slash) path) \<noteq> slash" by (rule hd_dropWhile)
  with ne obtain c cs where c: "dropWhile (\<lambda>c. c = slash) path = c # cs" "c \<noteq> slash"
    by (cases "dropWhile (\<lambda>c. c = slash) path") auto
  have "length path' \<le> length cs"
    using p c length_dropWhile_le [of "\<lambda>c. c = slash" "dropWhile (\<lambda>c. c \<noteq> slash) cs"]
      length_dropWhile_le [of "\<lambda>c. c \<noteq> slash" cs] by simp
  also have "\<dots> < length path" using c(1) length_dropWhile_le [of "\<lambda>c. c = slash" path] by simp
  finally show ?thesis .
qed

text \<open>The loop of \<^verbatim>\<open>namex\<close>; the result is the inode, if any, and the last element copied.\<close>

function namex_loop :: "byte list \<Rightarrow> bool \<Rightarrow> (nat \<Rightarrow> byte) \<Rightarrow> nat \<Rightarrow> 'a kfs_scheme \<Rightarrow>
    ('a kfs_scheme, nat option \<times> (nat \<Rightarrow> byte)) run" where
  "namex_loop path parent name ip s =
     (case skipelem path name of
        None \<Rightarrow>
          if parent then bindK (iput ip s) (\<lambda>_. Ret (None, name)) else Ret (Some ip, name) s
      | Some (path1, name1) \<Rightarrow>
          bindK (ilock (Some ip) s) (\<lambda>_ s1.
          if i_type (ino s1 ip) \<noteq> T_DIR then bindK (iunlockput ip s1) (\<lambda>_. Ret (None, name1))
          else if parent \<and> path1 = [] then doE (iunlock (Some ip) s1) (Ret (Some ip, name1))
          else
            bindK (dirlookup ip name1 s1) (\<lambda>r s2.
            case r of
              None \<Rightarrow> bindK (iunlockput ip s2) (\<lambda>_. Ret (None, name1))
            | Some (next, off) \<Rightarrow>
                bindK (iunlockput ip s2) (\<lambda>_ s3. namex_loop path1 parent name1 next s3))))"
  by pat_completeness auto
termination
  by (relation "measure (\<lambda>(path, parent, name, ip, s). length path)") (auto dest: skipelem_shorter)

declare namex_loop.simps [simp del]

definition namex :: "byte list \<Rightarrow> bool \<Rightarrow> (nat \<Rightarrow> byte) \<Rightarrow> 'a kfs_scheme \<Rightarrow>
    ('a kfs_scheme, nat option \<times> (nat \<Rightarrow> byte)) run" where
  "namex path parent name s =
     doE (if path \<noteq> [] \<and> hd path = slash then iget ROOTDEV ROOTINO s
          else bindR (curproc s) (\<lambda>cur.
            case p_cwd (pr s cur) of None \<Rightarrow> Inl Fault | Some d \<Rightarrow> idup d s)) (\<lambda>(ip, s1).
     namex_loop path parent name ip s1)"

definition namei :: "byte list \<Rightarrow> 'a kfs_scheme \<Rightarrow> ('a kfs_scheme, nat option) run" where
  "namei path s = bindK (namex path False (\<lambda>_. 0) s) (\<lambda>(ip, name). Ret ip)"

definition nameiparent :: "byte list \<Rightarrow> (nat \<Rightarrow> byte) \<Rightarrow> 'a kfs_scheme \<Rightarrow>
    ('a kfs_scheme, nat option \<times> (nat \<Rightarrow> byte)) run" where
  "nameiparent path name s = namex path True name s"

end
