(* ===== verification/FsInv.thy ===== *)
theory FsInv
  imports Fs
begin

text \<open>
  Correctness of the file system (\<^verbatim>\<open>kernel/fs.c\<close>) over the contract of the block cache: the
  bytes of a file as a function of the blocks on the disk, reading and writing them, the block bitmap,
  the inode on disk, the reference counts of the inode cache, and path names.
\<close>

unbundle bit_operations_syntax

section \<open>Working on blocks\<close>

lemma rest_fs:
  fixes s s' :: "'a kfs_scheme"
  assumes "bc_rest s s'"
  shows "inodes s' = inodes s" "pipes s' = pipes s" "phys s' = phys s" "lks s' = lks s" "me s' = me s"
    "kfs.more s' = kfs.more s"
  using assms by (cases s, cases s', simp add: bc_rest_def)+

lemma bc_rest_refl [simp]: "bc_rest s s"
proof -
  have "\<exists>st. p = p\<lparr>p_state := st\<rparr> \<and> (st = p_state p \<or> p_state p = SLEEPING \<and> st = RUNNABLE)" for p :: proc
    by (rule exI [of _ "p_state p"]) simp
  then show ?thesis by (simp add: bc_rest_def)
qed

text \<open>No buffer is held and the disk is the same.\<close>

definition same_disk :: "'a kfs_scheme \<Rightarrow> 'a kfs_scheme \<Rightarrow> bool" where
  "same_disk s s' \<longleftrightarrow> bc_inv s' {} \<and> bc_stored s' = bc_stored s \<and> bc_usable s' = bc_usable s \<and> bc_rest s s'"

lemma same_disk_trans: "same_disk s t \<Longrightarrow> same_disk t u \<Longrightarrow> same_disk s u"
  using bc_rest_trans by (auto simp: same_disk_def)

lemma look_block:
  fixes s :: "'a kfs_scheme"
  assumes "bc_inv s {}" and "bc_usable s (dev, n)"
  shows "\<exists>b s1 s2. bread dev n s = Ret b s1 \<and> bdata s1 b = bc_stored s (dev, n) \<and>
     brelse b s1 = Inr s2 \<and> same_disk s s2 \<and> bc_rest s s1"
proof -
  have "card {} < NBUF" "(dev, n) \<notin> bc_which s ` {}" by (simp_all add: NBUF_def)
  from bc.look [OF assms(1) this(1) assms(2) this(2)] show ?thesis
    by (auto simp: same_disk_def bc_contents_def)
qed

lemma change_block:
  fixes s :: "'a kfs_scheme"
  assumes "bc_inv s {}" and "bc_usable s (dev, n)"
  shows "\<exists>b s1 s2 s3. bread dev n s = Ret b s1 \<and> bdata s1 b = bc_stored s (dev, n) \<and>
     bwrite b (set_data b (f (bc_stored s (dev, n))) s1) = Inr s2 \<and> brelse b s2 = Inr s3 \<and>
     bc_inv s3 {} \<and> bc_stored s3 = (bc_stored s)((dev, n) := f (bc_stored s (dev, n))) \<and>
     bc_usable s3 = bc_usable s \<and> bc_rest s s1 \<and> bc_rest s s2 \<and> bc_rest s s3"
proof -
  have "card {} < NBUF" "(dev, n) \<notin> bc_which s ` {}" by (simp_all add: NBUF_def)
  from bc.change [OF assms(1) this(1) assms(2) this(2), of f] show ?thesis
    by (auto simp: bc_contents_def)
qed

section \<open>The bytes of a file\<close>

text \<open>The disk block of block \<open>bn\<close> of a file, read off the inode and its indirect block.\<close>

definition file_block :: "'a kfs_scheme \<Rightarrow> nat \<Rightarrow> nat \<Rightarrow> uint" where
  "file_block s ip bn =
     (if bn < NDIRECT then i_addrs (ino s ip) bn
      else load32 (bc_stored s (i_dev (ino s ip), i_addrs (ino s ip) NDIRECT)) (4 * (bn - NDIRECT)))"

definition mapped :: "'a kfs_scheme \<Rightarrow> nat \<Rightarrow> nat \<Rightarrow> bool" where
  "mapped s ip bn \<longleftrightarrow> bn < MAXFILE \<and> file_block s ip bn \<noteq> 0 \<and>
     bc_usable s (i_dev (ino s ip), file_block s ip bn) \<and>
     (NDIRECT \<le> bn \<longrightarrow> i_addrs (ino s ip) NDIRECT \<noteq> 0 \<and>
        bc_usable s (i_dev (ino s ip), i_addrs (ino s ip) NDIRECT))"

definition file_byte :: "'a kfs_scheme \<Rightarrow> nat \<Rightarrow> nat \<Rightarrow> byte" where
  "file_byte s ip i = bc_stored s (i_dev (ino s ip), file_block s ip (i div BSIZE)) (i mod BSIZE)"

definition file_bytes :: "'a kfs_scheme \<Rightarrow> nat \<Rightarrow> nat \<Rightarrow> nat \<Rightarrow> byte list" where
  "file_bytes s ip off n = map (\<lambda>i. file_byte s ip (off + i)) [0..<n]"

lemma same_disk_file:
  assumes "same_disk s s'"
  shows "file_block s' ip bn = file_block s ip bn" "mapped s' ip bn = mapped s ip bn"
    "file_byte s' ip i = file_byte s ip i" "inodes s' = inodes s"
  using assms rest_fs(1) [of s s']
  by (simp_all add: same_disk_def file_block_def mapped_def file_byte_def)

text \<open>\<^verbatim>\<open>bmap\<close> of a block the file has.\<close>

lemma bmap_mapped:
  assumes "bc_inv s {}" and "mapped s ip bn"
  shows "\<exists>s'. bmap ip (of_nat bn) s = Ret (file_block s ip bn) s' \<and> same_disk s s'"
proof -
  have bn: "bn < 140" using assms(2) by (simp add: mapped_def MAXFILE_def NDIRECT_def NINDIRECT_def BSIZE_def)
  then have u: "unat (of_nat bn :: uint) = bn" by (simp add: unat_of_nat)
  show ?thesis
  proof (cases "bn < NDIRECT")
    case True
    with assms u show ?thesis by (simp add: bmap_def mapped_def file_block_def same_disk_def Let_def)
  next
    case False
    let ?a = "i_addrs (ino s ip) NDIRECT" and ?d = "i_dev (ino s ip)"
    have sub: "unat (of_nat bn - of_nat NDIRECT :: uint) = bn - NDIRECT"
      using False bn by (subst unat_sub) (auto simp: NDIRECT_def word_le_nat_alt unat_of_nat)
    have k: "bn - NDIRECT < NINDIRECT" using False bn by (simp add: NDIRECT_def NINDIRECT_def BSIZE_def)
    have a: "?a \<noteq> 0" "bc_usable s (?d, ?a)" "load32 (bc_stored s (?d, ?a)) (4 * (bn - NDIRECT)) \<noteq> 0"
      using False assms(2) by (simp_all add: mapped_def file_block_def)
    from look_block [OF assms(1) a(2)] obtain b s1 s2 where r: "bread ?d ?a s = Ret b s1"
      "bdata s1 b = bc_stored s (?d, ?a)" "brelse b s1 = Inr s2" "same_disk s s2" by blast
    with False u sub k a show ?thesis
      by (simp add: bmap_def Let_def file_block_def)
  qed
qed

text \<open>A chunk of \<open>m\<close> bytes at \<open>off\<close> that stays in its block.\<close>

lemma chunk_block:
  assumes "i < m" and "m \<le> BSIZE - off mod BSIZE"
  shows "(off + i) div BSIZE = off div BSIZE" "(off + i) mod BSIZE = off mod BSIZE + i"
proof -
  have "off + i = off div BSIZE * BSIZE + (off mod BSIZE + i)" by simp
  moreover have "off mod BSIZE + i < BSIZE" using assms by linarith
  ultimately show "(off + i) div BSIZE = off div BSIZE" "(off + i) mod BSIZE = off mod BSIZE + i"
    by (metis add.commute div_mult_self1 div_less add_0 BSIZE_def zero_neq_numeral mod_mult_self1 mod_less)+
qed

lemma file_bytes_split:
  "m \<le> n \<Longrightarrow> file_bytes s ip off n = file_bytes s ip off m @ file_bytes s ip (off + m) (n - m)"
  by (rule nth_equalityI) (auto simp: file_bytes_def nth_append add.assoc)

lemma off_index:
  assumes "off < 2 ^ 32"
  shows "unat (of_nat off :: uint) = off" "(of_nat off :: uint) div of_nat BSIZE = of_nat (off div BSIZE)"
proof -
  show u: "unat (of_nat off :: uint) = off" using assms by (simp add: unat_of_nat)
  have "unat ((of_nat off :: uint) div of_nat BSIZE) = off div BSIZE"
    using u by (simp add: unat_div BSIZE_def)
  moreover have "unat (of_nat (off div BSIZE) :: uint) = off div BSIZE"
  proof -
    have "off div BSIZE < 2 ^ 32" by (rule le_less_trans [OF div_le_dividend assms])
    then show ?thesis by (simp add: unat_of_nat)
  qed
  ultimately show "(of_nat off :: uint) div of_nat BSIZE = of_nat (off div BSIZE)"
    by (simp add: word_unat_eq_iff)
qed

lemma readi_loop_reads:
  fixes s :: "'a kfs_scheme"
  assumes "bc_inv s {}" and "tot \<le> n" and "off + (n - tot) < 2 ^ 32"
    and "\<forall>i<n - tot. mapped s ip ((off + i) div BSIZE)"
  shows "\<exists>s'. readi_loop ip ToLocal tot n (of_nat off) acc s = Ret (acc @ file_bytes s ip off (n - tot)) s' \<and> same_disk s s'"
  using assms
proof (induction "n - tot" arbitrary: tot off acc s rule: less_induct)
  case less
  show ?case
  proof (cases "tot < n")
    case False
    with less.prems show ?thesis
      by (subst readi_loop.simps) (simp add: file_bytes_def same_disk_def)
  next
    case True
    let ?m = "min (n - tot) (BSIZE - off mod BSIZE)"
    have m: "0 < ?m" "?m \<le> n - tot" "?m \<le> BSIZE - off mod BSIZE" using True by (auto simp: BSIZE_def)
    have off: "off < 2 ^ 32" using less.prems(3) True by linarith
    have bn: "mapped s ip (off div BSIZE)" using less.prems(4) [rule_format, of 0] True by simp
    from bmap_mapped [OF less.prems(1) bn] obtain s1 where s1: "bmap ip (of_nat (off div BSIZE)) s = Ret (file_block s ip (off div BSIZE)) s1" "same_disk s s1" by blast
    let ?a = "(i_dev (ino s ip), file_block s ip (off div BSIZE))"
    have "bc_inv s1 {}" "bc_usable s1 ?a" "bc_stored s1 = bc_stored s" "inodes s1 = inodes s"
      using s1(2) bn same_disk_file(4) [OF s1(2)] by (auto simp: same_disk_def mapped_def)
    from look_block [OF this(1) this(2)] obtain b s2 s3 where r: "bread (i_dev (ino s1 ip)) (file_block s ip (off div BSIZE)) s1 = Ret b s2"
      "bdata s2 b = bc_stored s ?a" "brelse b s2 = Inr s3" "same_disk s1 s3"
      using \<open>bc_stored s1 = bc_stored s\<close> \<open>inodes s1 = inodes s\<close> by auto
    have d: "same_disk s s3" by (rule same_disk_trans [OF s1(2) r(4)])
    have chunk: "map (\<lambda>i. bdata s2 b (off mod BSIZE + i)) [0..<?m] = file_bytes s ip off ?m"
      using m(3) by (simp add: file_bytes_def file_byte_def r(2) chunk_block [of _ ?m off])
    have "\<forall>i<n - (tot + ?m). mapped s3 ip ((off + ?m + i) div BSIZE)"
    proof (intro allI impI)
      fix i
      assume "i < n - (tot + ?m)"
      then have "?m + i < n - tot" by linarith
      then have "mapped s ip ((off + (?m + i)) div BSIZE)" using less.prems(4) by blast
      then show "mapped s3 ip ((off + ?m + i) div BSIZE)"
        by (simp add: same_disk_file(2) [OF d] add.assoc)
    qed
    moreover have "n - (tot + ?m) < n - tot" "bc_inv s3 {}" "tot + ?m \<le> n" "off + ?m + (n - (tot + ?m)) < 2 ^ 32"
      using m less.prems(3) True d by (auto simp: same_disk_def)
    ultimately obtain s' where s': "readi_loop ip ToLocal (tot + ?m) n (of_nat (off + ?m)) (acc @ file_bytes s ip off ?m) s3 =
        Ret ((acc @ file_bytes s ip off ?m) @ file_bytes s3 ip (off + ?m) (n - (tot + ?m))) s'" "same_disk s3 s'"
      using less.hyps by blast
    have "file_bytes s3 ip = file_bytes s ip"
      by (simp add: fun_eq_iff file_bytes_def same_disk_file(3) [OF d])
    then have all: "file_bytes s ip off ?m @ file_bytes s3 ip (off + ?m) (n - (tot + ?m)) = file_bytes s ip off (n - tot)"
      using file_bytes_split [OF m(2), of s ip off] by simp
    have "readi_loop ip ToLocal tot n (of_nat off) acc s =
        readi_loop ip ToLocal (tot + ?m) n (of_nat (off + ?m)) (acc @ file_bytes s ip off ?m) s3"
      using True s1(1) r(1,3) chunk
      by (subst readi_loop.simps) (simp add: off_index [OF off] Let_def)
    with s' all same_disk_trans [OF d s'(2)] show ?thesis by simp
  qed
qed

section \<open>Overwriting a file\<close>

text \<open>
  The first \<open>nb\<close> blocks of a file are there, each a block of its own, and its indirect block is not
  among them.
\<close>

definition own_blocks :: "'a kfs_scheme \<Rightarrow> nat \<Rightarrow> nat \<Rightarrow> bool" where
  "own_blocks s ip nb \<longleftrightarrow> (\<forall>bn<nb. mapped s ip bn) \<and> inj_on (file_block s ip) {..<nb} \<and>
     (NDIRECT < nb \<longrightarrow> i_addrs (ino s ip) NDIRECT \<notin> file_block s ip ` {..<nb})"

text \<open>From \<open>s\<close> to \<open>s'\<close> the bytes of these blocks become \<open>g\<close>, and no other block changes.\<close>

definition overwrites :: "'a kfs_scheme \<Rightarrow> 'a kfs_scheme \<Rightarrow> nat \<Rightarrow> nat \<Rightarrow> (nat \<Rightarrow> byte) \<Rightarrow> bool" where
  "overwrites s s' ip nb g \<longleftrightarrow> bc_inv s' {} \<and> bc_usable s' = bc_usable s \<and> bc_rest s s' \<and>
     (\<forall>bn<nb. file_block s' ip bn = file_block s ip bn) \<and> (\<forall>i<nb * BSIZE. file_byte s' ip i = g i) \<and>
     (\<forall>a. a \<notin> Pair (i_dev (ino s ip)) ` file_block s ip ` {..<nb} \<longrightarrow> bc_stored s' a = bc_stored s a)"

lemma overwrites_own:
  assumes "overwrites s s' ip nb g" and "own_blocks s ip nb"
  shows "own_blocks s' ip nb"
proof -
  have fb: "\<forall>bn<nb. file_block s' ip bn = file_block s ip bn" and u: "bc_usable s' = bc_usable s"
    and i: "inodes s' = inodes s"
    using assms(1) rest_fs(1) by (auto simp: overwrites_def)
  have im: "file_block s' ip ` {..<nb} = file_block s ip ` {..<nb}" using fb by (intro image_cong) auto
  have inj: "inj_on (file_block s' ip) {..<nb} = inj_on (file_block s ip) {..<nb}"
    using fb by (intro inj_on_cong) auto
  show ?thesis using assms(2) fb unfolding own_blocks_def im inj i mapped_def u by auto
qed

lemma overwrites_trans:
  assumes "overwrites s t ip nb g" and "overwrites t u ip nb h"
  shows "overwrites s u ip nb h"
proof -
  have "inodes t = inodes s" using assms(1) rest_fs(1) by (auto simp: overwrites_def)
  moreover have "file_block t ip ` {..<nb} = file_block s ip ` {..<nb}"
    using assms(1) by (intro image_cong) (auto simp: overwrites_def)
  ultimately show ?thesis using assms bc_rest_trans by (auto simp: overwrites_def)
qed

lemma overwrites_same_disk:
  assumes "same_disk s t" and "overwrites t u ip nb h"
  shows "overwrites s u ip nb h"
  using assms same_disk_file [OF assms(1)] bc_rest_trans
  by (auto simp: overwrites_def same_disk_def image_image)

lemma rewrite_block:
  fixes s :: "'a kfs_scheme"
  assumes "bc_inv s {}" and "own_blocks s ip nb" and "bn < nb"
  shows "\<exists>b s1 s2 s3. bread (i_dev (ino s ip)) (file_block s ip bn) s = Ret b s1 \<and>
     bdata s1 b = bc_stored s (i_dev (ino s ip), file_block s ip bn) \<and>
     bwrite b (set_data b (f (bdata s1 b)) s1) = Inr s2 \<and> brelse b s2 = Inr s3 \<and>
     overwrites s s3 ip nb (\<lambda>i. if i div BSIZE = bn then f (bdata s1 b) (i mod BSIZE) else file_byte s ip i)"
proof -
  let ?d = "i_dev (ino s ip)" and ?a = "file_block s ip bn"
  have "bc_usable s (?d, ?a)" using assms(2,3) by (simp add: own_blocks_def mapped_def)
  from change_block [OF assms(1) this, of f] obtain b s1 s2 s3 where c: "bread ?d ?a s = Ret b s1"
    "bdata s1 b = bc_stored s (?d, ?a)" "bwrite b (set_data b (f (bc_stored s (?d, ?a))) s1) = Inr s2"
    "brelse b s2 = Inr s3" "bc_inv s3 {}"
    "bc_stored s3 = (bc_stored s)((?d, ?a) := f (bc_stored s (?d, ?a)))"
    "bc_usable s3 = bc_usable s" "bc_rest s s3" by blast
  have i: "inodes s3 = inodes s" by (rule rest_fs(1) [OF c(8)])
  have fb: "file_block s3 ip k = file_block s ip k" if "k < nb" for k
  proof (cases "k < NDIRECT")
    case False
    with that have "i_addrs (ino s ip) NDIRECT \<noteq> ?a" using assms(2,3) by (auto simp: own_blocks_def)
    with False show ?thesis by (simp add: file_block_def i c(6))
  qed (simp add: file_block_def i)
  have "file_byte s3 ip k = (if k div BSIZE = bn then f (bdata s1 b) (k mod BSIZE) else file_byte s ip k)"
    if "k < nb * BSIZE" for k
  proof -
    have k: "k div BSIZE < nb" using that by (simp add: less_mult_imp_div_less)
    have "file_block s ip (k div BSIZE) = ?a \<longleftrightarrow> k div BSIZE = bn"
      using assms(2,3) k by (auto simp: own_blocks_def dest: inj_onD)
    then show ?thesis by (simp add: file_byte_def fb [OF k] i c(2,6))
  qed
  moreover have "bc_stored s3 a = bc_stored s a" if "a \<notin> Pair ?d ` file_block s ip ` {..<nb}" for a
    using that assms(3) by (auto simp: c(6))
  ultimately have "overwrites s s3 ip nb
      (\<lambda>i. if i div BSIZE = bn then f (bdata s1 b) (i mod BSIZE) else file_byte s ip i)"
    using c(5,7,8) fb by (simp add: overwrites_def)
  with c(1-4) show ?thesis by (intro exI [of _ b] exI [of _ s1] exI [of _ s2] exI [of _ s3]) simp
qed

lemma writei_loop_writes:
  fixes s :: "'a kfs_scheme"
  assumes "bc_inv s {}" and "own_blocks s ip nb" and "tot \<le> n" and "n = length bs"
    and "off + (n - tot) \<le> nb * BSIZE" and "nb \<le> MAXFILE"
  shows "\<exists>s'. writei_loop ip (FromLocal bs) tot n (of_nat off) s = Ret (of_nat (off + (n - tot))) s' \<and>
     overwrites s s' ip nb (\<lambda>i. if off \<le> i \<and> i < off + (n - tot) then bs ! (tot + (i - off)) else file_byte s ip i)"
  using assms
proof (induction "n - tot" arbitrary: tot off s rule: less_induct)
  case less
  show ?case
  proof (cases "tot < n")
    case False
    with less.prems show ?thesis
      by (subst writei_loop.simps) (auto simp: overwrites_def)
  next
    case True
    let ?o = "off mod BSIZE" and ?bn = "off div BSIZE"
    let ?m = "min (n - tot) (BSIZE - ?o)"
    have m: "0 < ?m" "?m \<le> n - tot" "?m \<le> BSIZE - ?o" using True by (auto simp: BSIZE_def)
    have off: "off < nb * BSIZE" "off < 2 ^ 32"
      using less.prems(5,6) True by (auto simp: BSIZE_def MAXFILE_def NDIRECT_def NINDIRECT_def)
    then have bn: "?bn < nb" by (simp add: less_mult_imp_div_less)
    then have "mapped s ip ?bn" using less.prems(2) by (simp add: own_blocks_def)
    from bmap_mapped [OF less.prems(1) this] obtain s1 where
      s1: "bmap ip (of_nat ?bn) s = Ret (file_block s ip ?bn) s1" "same_disk s s1" by blast
    note fs1 = same_disk_file [OF s1(2)]
    have inv1: "bc_inv s1 {}" "own_blocks s1 ip nb"
      using s1(2) less.prems(2) fs1 by (auto simp: same_disk_def own_blocks_def inj_on_def)
    let ?chunk = "take ?m (drop tot bs)"
    let ?f = "\<lambda>d i. if ?o \<le> i \<and> i < ?o + ?m then ?chunk ! (i - ?o) else d i"
    from rewrite_block [OF inv1 bn, of ?f] fs1 obtain b s2 s3 s4 where
      r: "bread (i_dev (ino s1 ip)) (file_block s ip ?bn) s1 = Ret b s2"
      "bwrite b (set_data b (?f (bdata s2 b)) s2) = Inr s3" "brelse b s3 = Inr s4"
      "bdata s2 b = bc_stored s1 (i_dev (ino s1 ip), file_block s1 ip ?bn)"
      "overwrites s1 s4 ip nb (\<lambda>i. if i div BSIZE = ?bn then ?f (bdata s2 b) (i mod BSIZE) else file_byte s1 ip i)"
      by auto
    let ?g = "\<lambda>i. if off \<le> i \<and> i < off + ?m then bs ! (tot + (i - off)) else file_byte s ip i"
    have g: "(if i div BSIZE = ?bn then ?f (bdata s2 b) (i mod BSIZE) else file_byte s1 ip i) = ?g i" for i
    proof (cases "off \<le> i \<and> i < off + ?m")
      case True
      define k where "k = i - off"
      with True have k: "k < ?m" "i = off + k" by linarith+
      have "i div BSIZE = ?bn" "i mod BSIZE = ?o + k"
        unfolding k(2) by (rule chunk_block [OF k(1) m(3)])+
      moreover have "?chunk ! k = bs ! (tot + k)" using k(1) less.prems(3,4) by simp
      ultimately show ?thesis using True k(1) by (simp add: k_def [symmetric])
    next
      case False
      have out: "\<not> (?o \<le> i mod BSIZE \<and> i mod BSIZE < ?o + ?m)" if "i div BSIZE = ?bn"
      proof -
        have "i = ?bn * BSIZE + i mod BSIZE" "off = ?bn * BSIZE + ?o"
          using that by (metis div_mult_mod_eq)+
        with False show ?thesis by linarith
      qed
      have same: "bdata s2 b (i mod BSIZE) = file_byte s ip i" if "i div BSIZE = ?bn"
        using that s1(2) by (simp add: r(4) fs1 file_byte_def same_disk_def)
      have "(if i div BSIZE = ?bn then ?f (bdata s2 b) (i mod BSIZE) else file_byte s1 ip i) = file_byte s ip i"
      proof (cases "i div BSIZE = ?bn")
        case True
        show ?thesis by (simp only: True if_True out [OF True] if_False same [OF True] refl)
      next
        case False
        then show ?thesis by (simp only: if_False fs1(3))
      qed
      with False show ?thesis by (simp only: if_False)
    qed
    have w4: "overwrites s s4 ip nb ?g"
      using overwrites_same_disk [OF s1(2) r(5)] unfolding g .
    have "n - (tot + ?m) < n - tot" "tot + ?m \<le> n" "off + ?m + (n - (tot + ?m)) \<le> nb * BSIZE"
      "bc_inv s4 {}" "own_blocks s4 ip nb"
      using m less.prems(5) True w4 overwrites_own [OF w4 less.prems(2)] by (auto simp: overwrites_def)
    from less.hyps [OF this(1,4,5,2) less.prems(4) this(3) less.prems(6)] obtain s' where
      s': "writei_loop ip (FromLocal bs) (tot + ?m) n (of_nat (off + ?m)) s4 = Ret (of_nat (off + ?m + (n - (tot + ?m)))) s'"
      "overwrites s4 s' ip nb (\<lambda>i. if off + ?m \<le> i \<and> i < off + ?m + (n - (tot + ?m)) then bs ! (tot + ?m + (i - (off + ?m))) else file_byte s4 ip i)"
      by blast
    have e: "off + ?m + (n - (tot + ?m)) = off + (n - tot)"
      using m(2) by (simp only: diff_diff_left [symmetric] add.assoc le_add_diff_inverse)
    have "writei_loop ip (FromLocal bs) tot n (of_nat off) s = writei_loop ip (FromLocal bs) (tot + ?m) n (of_nat (off + ?m)) s4"
      using True s1(1) r(1-3) by (subst writei_loop.simps) (simp add: off_index [OF off(2)] Let_def)
    moreover have "overwrites s s' ip nb (\<lambda>i. if off \<le> i \<and> i < off + (n - tot) then bs ! (tot + (i - off)) else file_byte s ip i)"
    proof -
      have "(if off + ?m \<le> i \<and> i < off + (n - tot) then bs ! (tot + ?m + (i - (off + ?m))) else file_byte s4 ip i) =
          (if off \<le> i \<and> i < off + (n - tot) then bs ! (tot + (i - off)) else file_byte s ip i)" if "i < nb * BSIZE" for i
      proof -
        have "file_byte s4 ip i = ?g i" using w4 that by (simp add: overwrites_def)
        moreover have "tot + ?m + (i - (off + ?m)) = tot + (i - off)" if "off + ?m \<le> i" using that by linarith
        ultimately show ?thesis using m(2) by auto
      qed
      with overwrites_trans [OF w4 s'(2)] show ?thesis unfolding e by (auto simp: overwrites_def)
    qed
    ultimately show ?thesis using s'(1) e by auto
  qed
qed

section \<open>Properties\<close>

lemma mapped_size:
  assumes "\<forall>bn. bn * BSIZE < n \<longrightarrow> mapped s ip bn"
  shows "n \<le> MAXFILE * BSIZE"
proof (rule ccontr)
  assume "\<not> n \<le> MAXFILE * BSIZE"
  then have "mapped s ip MAXFILE" using assms by simp
  then show False by (simp add: mapped_def)
qed

text \<open>
  \<^verbatim>\<open>readi\<close> returns the bytes of the file: from a file whose blocks are on the disk,
  direct and indirect, a read at \<open>off\<close> gets the bytes from \<open>off\<close> up to the count or the end
  of the file, and leaves the disk as it is; a read behind the end, or one that wraps around, fails.
\<close>

theorem readi_reads_file:
  fixes s :: "'a kfs_scheme"
  assumes "bc_inv s {}" and "i_type (ino s ip) \<noteq> T_DEV"
    and "\<forall>bn. bn * BSIZE < unat (i_size (ino s ip)) \<longrightarrow> mapped s ip bn"
  shows "if off \<le> i_size (ino s ip) \<and> unat off + unat n < 2 ^ 32
     then (let k = min (unat n) (unat (i_size (ino s ip)) - unat off) in
       \<exists>s'. readi devs ip ToLocal off n s = Ret (int k, file_bytes s ip (unat off) k) s' \<and> same_disk s s')
     else readi devs ip ToLocal off n s = Ret (-1, []) s"
proof -
  let ?sz = "i_size (ino s ip)"
  let ?k = "min (unat n) (unat ?sz - unat off)"
  have sz: "unat ?sz \<le> 71680"
    using mapped_size [OF assms(3)] by (simp add: MAXFILE_def NDIRECT_def NINDIRECT_def BSIZE_def)
  note wrap = add_wraps [of off n]
  show ?thesis
  proof (cases "off \<le> ?sz \<and> unat off + unat n < 2 ^ 32")
    case False
    with assms(2) wrap show ?thesis by (auto simp: readi_def not_le)
  next
    case True
    have un: "unat (off + n) = unat off + unat n" using True by (subst unat_add_lem [THEN iffD1]) simp_all
    have k: "(if ?sz < off + n then ?sz - off else n) = of_nat ?k"
      using True by (auto simp: word_unat_eq_iff word_less_nat_alt un unat_sub word_le_nat_alt unat_of_nat min_def)
    have "sint (of_nat ?k :: uint) = int ?k"
      using sz by (intro sint_small) auto
    moreover have "unat (of_nat ?k :: uint) = ?k" using sz by (simp add: unat_of_nat)
    moreover obtain s' where "readi_loop ip ToLocal 0 ?k (of_nat (unat off)) [] s = Ret (file_bytes s ip (unat off) ?k) s'" "same_disk s s'"
    proof -
      have "mapped s ip ((unat off + i) div BSIZE)" if "i < ?k" for i
      proof -
        have "(unat off + i) div BSIZE * BSIZE \<le> unat off + i" by simp
        also have "\<dots> < unat ?sz" using that by (simp add: less_diff_conv add.commute)
        finally show ?thesis using assms(3) by blast
      qed
      moreover have "unat off + (?k - 0) < 2 ^ 32" using True by (auto simp: min_def)
      ultimately show ?thesis
        using readi_loop_reads [OF assms(1), of 0 ?k "unat off" ip "[]"] that by auto
    qed
    ultimately show ?thesis
      using True assms(2) wrap unfolding readi_def k by (auto simp: not_less Let_def)
  qed
qed


text \<open>
  A machine with one file of 600 bytes, in the blocks 100 and 101 of disk 1, which are filled with
  the low bytes of their numbers.
\<close>

definition fs_boot :: kfs where
  "fs_boot = binit \<lparr>cpus = cpus pipe_boot, lks = lks pipe_boot, me = 0, phys = phys pipe_boot,
     ptable = ptable pipe_boot, bcache = bcache pipe_boot, pipes = pipes pipe_boot,
     inodes = (\<lambda>_. \<lparr>i_dev = 1, i_inum = 1, i_ref = 1, i_busy = True, i_valid = True, i_type = 2,
       i_major = 0, i_minor = 0, i_nlink = 1, i_size = 600, i_addrs = (\<lambda>i. 100 + of_nat i)\<rparr>)\<rparr>"

lemma binit_more [simp]: "inodes (binit s) = inodes s" "phys (binit s) = phys s" "ptable (binit s) = ptable s"
  by (simp_all add: binit_def bufs_upd_def initlock_def set_lk_def)

lemma fs_boot_inv: "bc_inv fs_boot {}"
proof -
  have "cli_ok s \<Longrightarrow> lk_free (lks s PtableLk) \<Longrightarrow>
      \<forall>b<NBUF. \<not> b_busy (bf s b) \<and> \<not> b_valid (bf s b) \<and> \<not> b_dirty (bf s b) \<Longrightarrow> bc_inv (binit s) {}" for s :: kfs
    using binit_ok [of s] by blast
  then show ?thesis unfolding fs_boot_def
    by (auto simp: pipe_boot_def bio_boot_def boot_defs cli_ok_def lk_free_def)
qed

lemma fs_boot_sel:
  "ino fs_boot i = \<lparr>i_dev = 1, i_inum = 1, i_ref = 1, i_busy = True, i_valid = True, i_type = 2,
     i_major = 0, i_minor = 0, i_nlink = 1, i_size = 600, i_addrs = (\<lambda>i. 100 + of_nat i)\<rparr>"
  "sane d n \<Longrightarrow> bc_stored fs_boot (d, n) = (\<lambda>_. ucast n)" "sane d n \<Longrightarrow> bc_usable fs_boot (d, n)"
proof -
  show "ino fs_boot i = \<lparr>i_dev = 1, i_inum = 1, i_ref = 1, i_busy = True, i_valid = True, i_type = 2,
     i_major = 0, i_minor = 0, i_nlink = 1, i_size = 600, i_addrs = (\<lambda>i. 100 + of_nat i)\<rparr>"
    by (simp add: fs_boot_def)
  have "disk (bcache fs_boot) = (\<lambda>a _. ucast (snd a))" "havedisk1 (bcache fs_boot)"
    by (simp_all add: fs_boot_def binit_def pipe_boot_def bio_boot_def)
  then show "sane d n \<Longrightarrow> bc_stored fs_boot (d, n) = (\<lambda>_. ucast n)" "sane d n \<Longrightarrow> bc_usable fs_boot (d, n)"
    by (simp_all add: bc_stored_id blk_id bc_usable_def)
qed

lemma fs_boot_file: "file_block fs_boot 0 0 = 100" "file_block fs_boot 0 (Suc 0) = 101" "bn < 2 \<Longrightarrow> mapped fs_boot 0 bn"
proof -
  have s: "sane 1 100" "sane 1 101" by (simp_all add: sane_def)
  show b: "file_block fs_boot 0 0 = 100" "file_block fs_boot 0 (Suc 0) = 101"
    by (simp_all add: file_block_def fs_boot_sel NDIRECT_def)
  show "bn < 2 \<Longrightarrow> mapped fs_boot 0 bn"
    using s b by (auto simp: mapped_def fs_boot_sel NDIRECT_def MAXFILE_def less_2_cases_iff)
qed

definition no_devs :: "nat \<Rightarrow> kfs devsw" where
  "no_devs = (\<lambda>_. \<lparr>d_read = None, d_write = None\<rparr>)"

theorem readi_reads_file_witness:
  "\<exists>s'. readi no_devs 0 ToLocal 510 4 fs_boot = Ret (4, [100, 100, 101, 101]) s'"
proof -
  have "bn < 2" if "bn * BSIZE < 600" for bn using that by (simp add: BSIZE_def)
  then have m: "\<forall>bn. bn * BSIZE < unat (i_size (ino fs_boot 0)) \<longrightarrow> mapped fs_boot 0 bn"
    using fs_boot_file(3) by (simp add: fs_boot_sel)
  have "sane 1 100" "sane 1 101" by (simp_all add: sane_def)
  then have "file_bytes fs_boot 0 510 4 = [100, 100, 101, 101]"
    by (simp add: file_bytes_def file_byte_def upt_rec BSIZE_def fs_boot_file fs_boot_sel)
  with readi_reads_file [OF fs_boot_inv _ m, of 510 4 no_devs] show ?thesis
    by (auto simp: fs_boot_sel T_DEV_def Let_def)
qed


end
