(* ===== verification/FsAlloc.thy ===== *)
theory FsAlloc
  imports FsInv
begin

text \<open>
  The block bitmap, the inodes on disk and the inode cache (\<^verbatim>\<open>kernel/fs.c\<close>): which block
  \<^verbatim>\<open>balloc\<close> hands out, what \<^verbatim>\<open>bfree\<close> leaves, the way of an inode to the disk and back, and
  the invariant of the cached references.
\<close>

unbundle bit_operations_syntax

section \<open>The bits of a bitmap block\<close>

lemma bit_free_iff: "bit_free d bi \<longleftrightarrow> \<not> bit (d (bi div 8)) (bi mod 8)"
proof -
  have "d (bi div 8) AND push_bit (bi mod 8) 1 = 0 \<longleftrightarrow> \<not> bit (d (bi div 8)) (bi mod 8)" (is "?w = 0 \<longleftrightarrow> _")
  proof
    assume "?w = 0"
    then have "\<not> bit ?w (bi mod 8)" by simp
    then show "\<not> bit (d (bi div 8)) (bi mod 8)" by (auto simp: bit_simps)
  next
    assume "\<not> bit (d (bi div 8)) (bi mod 8)"
    then show "?w = 0" by (intro bit_word_eqI) (auto simp: bit_simps)
  qed
  then show ?thesis by (simp add: bit_free_def bit_mask_def)
qed

lemma same_bit: "bi div 8 = bj div 8 \<Longrightarrow> bi mod 8 = bj mod 8 \<Longrightarrow> bi = bj" for bi bj :: nat
  by (metis div_mult_mod_eq)

lemma bit_free_take: "bit_free (bit_take bi d) bj \<longleftrightarrow> bj \<noteq> bi \<and> bit_free d bj"
  by (auto simp: bit_free_iff bit_take_def bit_mask_def bit_simps dest: same_bit)

lemma bit_free_give: "bit_free (bit_give bi d) bj \<longleftrightarrow> bj = bi \<or> bit_free d bj"
  by (auto simp: bit_free_iff bit_give_def bit_mask_def bit_simps dest: same_bit)

lemma bit_give_take: "bit_free d bi \<Longrightarrow> bit_give bi (bit_take bi d) = d"
proof -
  assume f: "bit_free d bi"
  have "(d (bi div 8) OR bit_mask bi) AND NOT (bit_mask bi) = d (bi div 8)"
    using f by (intro bit_word_eqI) (auto simp: bit_free_iff bit_mask_def bit_simps)
  then show ?thesis by (simp add: bit_give_def bit_take_def)
qed

section \<open>The super block and the bitmap\<close>

definition sb_of :: "'a kfs_scheme \<Rightarrow> uint \<Rightarrow> superblock" where
  "sb_of s dev = (let d = bc_stored s (dev, 1) in
     \<lparr>sb_size = load32 d 0, sb_nblocks = load32 d 4, sb_ninodes = load32 d 8\<rparr>)"

definition map_block :: "'a kfs_scheme \<Rightarrow> uint \<Rightarrow> nat \<Rightarrow> uint" where
  "map_block s dev b = BBLOCK b (sb_ninodes (sb_of s dev))"

definition block_free :: "'a kfs_scheme \<Rightarrow> uint \<Rightarrow> nat \<Rightarrow> bool" where
  "block_free s dev b \<longleftrightarrow> bit_free (bc_stored s (dev, map_block s dev b)) (b mod BPB)"

text \<open>The blocks covered by the bitmap blocks \<^verbatim>\<open>balloc\<close> looks at: all whose first neighbour is on the disk.\<close>

definition covered :: "'a kfs_scheme \<Rightarrow> uint \<Rightarrow> nat \<Rightarrow> bool" where
  "covered s dev b \<longleftrightarrow> b div BPB * BPB < unat (sb_size (sb_of s dev))"

definition bitmap_ok :: "'a kfs_scheme \<Rightarrow> uint \<Rightarrow> bool" where
  "bitmap_ok s dev \<longleftrightarrow> bc_usable s (dev, 1) \<and> (\<forall>b. covered s dev b \<longrightarrow> bc_usable s (dev, map_block s dev b))"

lemma same_disk_sb:
  assumes "same_disk s t"
  shows "sb_of t dev = sb_of s dev" "map_block t dev b = map_block s dev b"
    "block_free t dev b = block_free s dev b" "covered t dev b = covered s dev b" "bitmap_ok t dev = bitmap_ok s dev"
  using assms by (simp_all add: same_disk_def sb_of_def map_block_def block_free_def covered_def bitmap_ok_def)

lemma readsb_reads:
  assumes "bc_inv s {}" and "bc_usable s (dev, 1)"
  shows "\<exists>s'. readsb dev s = Ret (sb_of s dev) s' \<and> same_disk s s'"
proof -
  from look_block [OF assms] show ?thesis by (auto simp: readsb_def sb_of_def Let_def)
qed

lemma find_upt_Some:
  assumes "i < n" and "P i" and "\<forall>j<i. \<not> P j"
  shows "find P [0..<n] = Some i"
  using assms by (auto simp: find_Some_iff)

lemma find_upt_None: "find P [0..<n] = None \<longleftrightarrow> (\<forall>i<n. \<not> P i)"
  by (auto simp: find_None_iff)

lemma in_chunk:
  assumes "k mod BPB = 0" and "k \<le> c" and "c < k + BPB"
  shows "c div BPB = k div BPB" "c mod BPB = c - k"
proof -
  obtain q where k: "k = q * BPB" using assms(1) by (metis add.right_neutral div_mult_mod_eq)
  have "c = q * BPB + (c - k)" "c - k < BPB" using assms(2,3) k by auto
  then show "c div BPB = k div BPB" "c mod BPB = c - k"
    by (metis BPB_def BSIZE_def add.commute add.left_neutral div_less div_mult_self1 k mod_less mod_mult_self1
        mult_eq_0_iff nonzero_mult_div_cancel_right zero_neq_numeral)+
qed

lemma balloc_loop_finds:
  fixes s :: "'a kfs_scheme"
  assumes "bc_inv s {}" and "bitmap_ok s dev" and "k mod BPB = 0" and "k \<le> b"
    and "covered s dev b" and "block_free s dev b" and "\<forall>c. k \<le> c \<and> c < b \<longrightarrow> \<not> block_free s dev c"
  shows "\<exists>s'. balloc_loop dev (sb_of s dev) k s = Ret (of_nat b) s' \<and> bc_inv s' {} \<and>
     bc_stored s' = (bc_stored s)((dev, map_block s dev b) := bit_take (b mod BPB) (bc_stored s (dev, map_block s dev b))) \<and>
     bc_usable s' = bc_usable s \<and> bc_rest s s'"
  using assms
proof (induction "b - k" arbitrary: k s rule: less_induct)
  case less
  let ?sb = "sb_of s dev"
  let ?n = "map_block s dev k"
  have pos: "0 < BPB" by (simp add: BPB_def BSIZE_def)
  have kb: "k \<le> b div BPB * BPB"
  proof -
    have "k = k div BPB * BPB" using less.prems(3) by (metis add.right_neutral div_mult_mod_eq)
    also have "\<dots> \<le> b div BPB * BPB" using less.prems(4) by (intro mult_right_mono div_le_mono) auto
    finally show ?thesis .
  qed
  then have ks: "k < unat (sb_size ?sb)" using less.prems(5) by (simp add: covered_def)
  have ck: "covered s dev k" using ks less.prems(3) by (simp add: covered_def) (metis add.right_neutral div_mult_mod_eq)
  then have u: "bc_usable s (dev, ?n)" using less.prems(2) by (simp add: bitmap_ok_def)
  show ?case
  proof (cases "b < k + BPB")
    case True
    note ch = in_chunk [OF less.prems(3)]
    have n: "map_block s dev c = ?n" if "k \<le> c" "c < k + BPB" for c
      using ch(1) [OF that] by (simp add: map_block_def BBLOCK_def)
    have "find (bit_free (bc_stored s (dev, ?n))) [0..<BPB] = Some (b - k)"
    proof (rule find_upt_Some)
      show "b - k < BPB" using True less.prems(4) by linarith
      show "bit_free (bc_stored s (dev, ?n)) (b - k)"
        using less.prems(6) n [OF less.prems(4) True] ch(2) [OF less.prems(4) True] by (simp add: block_free_def)
      show "\<forall>j<b - k. \<not> bit_free (bc_stored s (dev, ?n)) j"
      proof (intro allI impI)
        fix j
        assume j: "j < b - k"
        then have r: "k \<le> k + j" "k + j < k + BPB" "k + j < b" using True by linarith+
        then have "\<not> block_free s dev (k + j)" using less.prems(7) by blast
        then show "\<not> bit_free (bc_stored s (dev, ?n)) j"
          using n [OF r(1,2)] ch(2) [OF r(1,2)] by (simp add: block_free_def)
      qed
    qed
    moreover from change_block [OF less.prems(1) u, of "bit_take (b - k)"] obtain bp s1 s2 s3 where
      "bread dev ?n s = Ret bp s1" "bdata s1 bp = bc_stored s (dev, ?n)"
      "bwrite bp (set_data bp (bit_take (b - k) (bc_stored s (dev, ?n))) s1) = Inr s2" "brelse bp s2 = Inr s3"
      "bc_inv s3 {}" "bc_stored s3 = (bc_stored s)((dev, ?n) := bit_take (b - k) (bc_stored s (dev, ?n)))"
      "bc_usable s3 = bc_usable s" "bc_rest s s3" by blast
    moreover have "map_block s dev b = ?n" "b mod BPB = b - k"
      using n [OF less.prems(4) True] ch(2) [OF less.prems(4) True] by auto
    ultimately show ?thesis
      using ks less.prems(4) by (subst balloc_loop.simps) (simp add: map_block_def)
  next
    case False
    have "find (bit_free (bc_stored s (dev, ?n))) [0..<BPB] = None"
      unfolding find_upt_None
    proof (intro allI impI)
      fix j
      assume j: "j < BPB"
      then have r: "k \<le> k + j" "k + j < k + BPB" "k + j < b" using False by linarith+
      then have "\<not> block_free s dev (k + j)" using less.prems(7) by blast
      then show "\<not> bit_free (bc_stored s (dev, ?n)) j"
        using in_chunk [OF less.prems(3) r(1,2)] by (simp add: block_free_def map_block_def BBLOCK_def)
    qed
    moreover from look_block [OF less.prems(1) u] obtain bp s1 s2 where
      r: "bread dev ?n s = Ret bp s1" "bdata s1 bp = bc_stored s (dev, ?n)" "brelse bp s1 = Inr s2" "same_disk s s2"
      by blast
    moreover have "balloc_loop dev ?sb k s = balloc_loop dev ?sb (k + BPB) s2"
      using ks calculation by (subst balloc_loop.simps) (simp add: map_block_def)
    moreover note sd = same_disk_sb [OF r(4)]
    have "b - (k + BPB) < b - k" "bc_inv s2 {}" "bitmap_ok s2 dev" "(k + BPB) mod BPB = 0" "k + BPB \<le> b"
      "covered s2 dev b" "block_free s2 dev b" "\<forall>c. k + BPB \<le> c \<and> c < b \<longrightarrow> \<not> block_free s2 dev c"
      using False less.prems pos r(4) sd by (auto simp: same_disk_def)
    from less.hyps [OF this] obtain s' where "balloc_loop dev ?sb (k + BPB) s2 = Ret (of_nat b) s'" "bc_inv s' {}"
      "bc_stored s' = (bc_stored s)((dev, map_block s dev b) := bit_take (b mod BPB) (bc_stored s (dev, map_block s dev b)))"
      "bc_usable s' = bc_usable s" "bc_rest s2 s'"
      using sd r(4) by (auto simp: same_disk_def)
    ultimately show ?thesis using bc_rest_trans r(4) by (auto simp: same_disk_def)
  qed
qed

lemma balloc_loop_full:
  fixes s :: "'a kfs_scheme"
  assumes "bc_inv s {}" and "bitmap_ok s dev" and "k mod BPB = 0"
    and "\<forall>c. k \<le> c \<and> covered s dev c \<longrightarrow> \<not> block_free s dev c"
  shows "balloc_loop dev (sb_of s dev) k s = Err (Panic ''balloc: out of blocks'')"
  using assms
proof (induction "unat (sb_size (sb_of s dev)) - k" arbitrary: k s rule: less_induct)
  case less
  let ?sb = "sb_of s dev"
  let ?n = "map_block s dev k"
  show ?case
  proof (cases "k < unat (sb_size ?sb)")
    case False
    then show ?thesis by (subst balloc_loop.simps) simp
  next
    case True
    have ck: "covered s dev c" if "k \<le> c" "c < k + BPB" for c
      using in_chunk [OF less.prems(3) that] True less.prems(3) by (simp add: covered_def) (metis add.right_neutral div_mult_mod_eq)
    then have "covered s dev k" by (simp add: BPB_def BSIZE_def)
    then have u: "bc_usable s (dev, ?n)" using less.prems(2) by (simp add: bitmap_ok_def)
    have "find (bit_free (bc_stored s (dev, ?n))) [0..<BPB] = None"
      unfolding find_upt_None
    proof (intro allI impI)
      fix j
      assume "j < BPB"
      then have r: "k \<le> k + j" "k + j < k + BPB" by linarith+
      then have "\<not> block_free s dev (k + j)" using less.prems(4) ck by blast
      then show "\<not> bit_free (bc_stored s (dev, ?n)) j"
        using in_chunk [OF less.prems(3) r] by (simp add: block_free_def map_block_def BBLOCK_def)
    qed
    moreover from look_block [OF less.prems(1) u] obtain bp s1 s2 where
      r: "bread dev ?n s = Ret bp s1" "bdata s1 bp = bc_stored s (dev, ?n)" "brelse bp s1 = Inr s2" "same_disk s s2"
      by blast
    ultimately have "balloc_loop dev ?sb k s = balloc_loop dev ?sb (k + BPB) s2"
      using True by (subst balloc_loop.simps) (simp add: map_block_def)
    moreover note sd = same_disk_sb [OF r(4)]
    have "unat (sb_size (sb_of s2 dev)) - (k + BPB) < unat (sb_size ?sb) - k" "bc_inv s2 {}" "bitmap_ok s2 dev"
      "(k + BPB) mod BPB = 0" "\<forall>c. k + BPB \<le> c \<and> covered s2 dev c \<longrightarrow> \<not> block_free s2 dev c"
      using True less.prems r(4) sd by (auto simp: same_disk_def BPB_def BSIZE_def)
    from less.hyps [OF this] sd have "balloc_loop dev ?sb (k + BPB) s2 = Err (Panic ''balloc: out of blocks'')" by simp
    ultimately show ?thesis by simp
  qed
qed

section \<open>Freeing a block\<close>

lemma map_block_not_sb: "map_block s dev b \<noteq> 1" if "b < 2 ^ 32"
proof -
  let ?ni = "sb_ninodes (sb_of s dev)"
  have "unat (of_nat (b div BPB) :: uint) = b div BPB"
  proof -
    have "b div BPB < 2 ^ 32" by (rule le_less_trans [OF div_le_dividend that])
    then show ?thesis by (simp add: unat_of_nat)
  qed
  moreover have "b div BPB < 2 ^ 20" using that by (simp add: BPB_def BSIZE_def less_mult_imp_div_less)
  moreover have "unat (?ni div of_nat IPB) = unat ?ni div 8" by (simp add: unat_div IPB_def)
  moreover have "unat ?ni div 8 < 2 ^ 29"
  proof -
    have "unat ?ni < 2 ^ 32" using unsigned_less [where w = ?ni] by simp
    then show ?thesis by (simp add: less_mult_imp_div_less)
  qed
  ultimately have "unat (of_nat (b div BPB) + ?ni div of_nat IPB :: uint) < 2 ^ 30"
    by (simp add: unat_word_ariths)
  moreover define w where "w = (of_nat (b div BPB) + ?ni div of_nat IPB :: uint)"
  ultimately have "unat (w + 3) = unat w + 3" by (subst unat_add_lem [THEN iffD1]) simp_all
  then have "unat (w + 3) \<noteq> unat (1 :: uint)" by simp
  then have "w + 3 \<noteq> 1" by (metis (no_types))
  then show ?thesis by (simp add: map_block_def BBLOCK_def w_def)
qed

lemma bzero_clears:
  fixes s :: "'a kfs_scheme"
  assumes "bc_inv s {}" and "bc_usable s (dev, n)"
  shows "\<exists>s'. bzero dev n s = Ret () s' \<and> bc_inv s' {} \<and> bc_usable s' = bc_usable s \<and> bc_rest s s' \<and>
     bc_stored s' = (bc_stored s)((dev, n) := snd (memset (bc_stored s (dev, n)) 0 0 BSIZE))"
proof -
  from change_block [OF assms, of "\<lambda>d. snd (memset d 0 0 BSIZE)"] show ?thesis
    by (auto simp: bzero_def)
qed

text \<open>
  Claim C7.  \<^verbatim>\<open>balloc\<close> hands out the first block whose bit in the bitmap is clear and sets that bit,
  changing nothing else on the disk; the search covers whole bitmap blocks, so it may hand out a
  block behind the end of the disk.  With all these bits set it panics.
\<close>

theorem balloc_takes_first_free:
  fixes s :: "'a kfs_scheme"
  assumes "bc_inv s {}" and "bitmap_ok s dev"
  shows "(\<forall>b. covered s dev b \<longrightarrow> block_free s dev b \<longrightarrow> (\<forall>c<b. \<not> block_free s dev c) \<longrightarrow>
       (\<exists>s'. balloc dev s = Ret (of_nat b) s' \<and> bc_inv s' {} \<and> bc_rest s s' \<and>
          bc_stored s' = (bc_stored s)((dev, map_block s dev b) :=
            bit_take (b mod BPB) (bc_stored s (dev, map_block s dev b))))) \<and>
     ((\<forall>b. covered s dev b \<longrightarrow> \<not> block_free s dev b) \<longrightarrow> balloc dev s = Err (Panic ''balloc: out of blocks''))"
proof -
  have "bc_usable s (dev, 1)" using assms(2) by (simp add: bitmap_ok_def)
  from readsb_reads [OF assms(1) this] obtain t where t: "readsb dev s = Ret (sb_of s dev) t" "same_disk s t" by blast
  note sd = same_disk_sb [OF t(2)]
  have inv: "bc_inv t {}" "bitmap_ok t dev" using t(2) sd assms(2) by (auto simp: same_disk_def)
  have b: "balloc dev s = balloc_loop dev (sb_of t dev) 0 t" using t(1) sd by (simp add: balloc_def)
  have "\<exists>s'. balloc dev s = Ret (of_nat b) s' \<and> bc_inv s' {} \<and> bc_rest s s' \<and>
      bc_stored s' = (bc_stored s)((dev, map_block s dev b) := bit_take (b mod BPB) (bc_stored s (dev, map_block s dev b)))"
    if "covered s dev b" "block_free s dev b" "\<forall>c<b. \<not> block_free s dev c" for b
    using balloc_loop_finds [OF inv, of 0 b] that sd t(2) bc_rest_trans unfolding \<open>balloc dev s = _\<close> same_disk_def
    by fastforce
  moreover have "balloc dev s = Err (Panic ''balloc: out of blocks'')"
    if "\<forall>b. covered s dev b \<longrightarrow> \<not> block_free s dev b"
    using balloc_loop_full [OF inv, of 0] that sd b by simp
  ultimately show ?thesis by blast
qed

text \<open>
  \<^verbatim>\<open>bfree\<close> zeroes the block and clears its bit, changing nothing else on the disk, so
  that freeing the block \<^verbatim>\<open>balloc\<close> has just handed out restores the bitmap; of a block that is
  free already the kernel panics.
\<close>

theorem bfree_undoes_balloc:
  fixes s :: "'a kfs_scheme"
  assumes "bc_inv s {}" and "bc_usable s (dev, 1)" and "bc_usable s (dev, b)" and "b \<noteq> 1"
    and "bc_usable s (dev, map_block s dev (unat b))" and "map_block s dev (unat b) \<noteq> b"
  shows "(\<not> block_free s dev (unat b) \<longrightarrow>
       (\<exists>s'. bfree dev b s = Ret () s' \<and> bc_inv s' {} \<and> block_free s' dev (unat b) \<and>
          (\<forall>i<BSIZE. bc_stored s' (dev, b) i = 0) \<and>
          (\<forall>d. bit_free d (unat b mod BPB) \<and> bc_stored s (dev, map_block s dev (unat b)) = bit_take (unat b mod BPB) d \<longrightarrow>
             bc_stored s' (dev, map_block s dev (unat b)) = d) \<and>
          (\<forall>a. a \<noteq> (dev, b) \<and> a \<noteq> (dev, map_block s dev (unat b)) \<longrightarrow> bc_stored s' a = bc_stored s a))) \<and>
     (block_free s dev (unat b) \<longrightarrow> bfree dev b s = Err (Panic ''freeing free block''))"
proof -
  let ?n = "map_block s dev (unat b)" and ?bi = "unat b mod BPB"
  let ?z = "snd (memset (bc_stored s (dev, b)) 0 0 BSIZE)"
  have "unat b < 2 ^ 32" using unsigned_less [where w = b] by simp
  then have n1: "?n \<noteq> 1" by (rule map_block_not_sb)
  from bzero_clears [OF assms(1,3)] obtain s1 where z: "bzero dev b s = Ret () s1" "bc_inv s1 {}"
    "bc_usable s1 = bc_usable s" "bc_stored s1 = (bc_stored s)((dev, b) := ?z)" by blast
  have sb: "sb_of s1 dev = sb_of s dev" using assms(4) by (simp add: sb_of_def z(4))
  from readsb_reads [OF z(2), of dev] assms(2) z(3) sb obtain s2 where
    r: "readsb dev s1 = Ret (sb_of s dev) s2" "same_disk s1 s2" by auto
  have st2: "bc_stored s2 = (bc_stored s)((dev, b) := ?z)" "bc_inv s2 {}" "bc_usable s2 = bc_usable s"
    using r(2) z by (auto simp: same_disk_def)
  let ?d = "bc_stored s (dev, ?n)"
  from change_block [OF st2(2), of dev ?n "bit_give ?bi"] assms(5,6) st2 obtain bp s3 s4 s5 where
    c: "bread dev ?n s2 = Ret bp s3" "bdata s3 bp = ?d" "bwrite bp (set_data bp (bit_give ?bi ?d) s3) = Inr s4"
    "brelse bp s4 = Inr s5" "bc_inv s5 {}" "bc_stored s5 = (bc_stored s2)((dev, ?n) := bit_give ?bi ?d)"
    by auto
  have fr: "block_free s dev (unat b) = bit_free ?d ?bi" by (simp add: block_free_def)
  have "sb_of s5 dev = sb_of s dev" using n1 assms(4) by (simp add: sb_of_def c(6) st2(1))
  then have "block_free s5 dev (unat b)" by (simp add: block_free_def map_block_def c(6) bit_free_give)
  moreover have "bc_stored s5 (dev, b) i = 0" if "i < BSIZE" for i
    using that assms(6) by (simp add: c(6) st2(1) memset_def stosb_eq)
  moreover have "bfree dev b s = (if block_free s dev (unat b) then Err (Panic ''freeing free block'') else Ret () s5)"
    using z(1) r(1) c(1-4) fr by (simp add: bfree_def map_block_def [symmetric])
  moreover have "bc_stored s5 (dev, ?n) = d" if "bit_free d ?bi \<and> ?d = bit_take ?bi d" for d
    using that by (simp add: c(6) bit_give_take)
  moreover have "bc_stored s5 a = bc_stored s a" if "a \<noteq> (dev, b) \<and> a \<noteq> (dev, ?n)" for a
    using that by (simp add: c(6) st2(1))
  ultimately show ?thesis using c(5) by (intro conjI impI) (auto intro!: exI [of _ s5])
qed

text \<open>
  On the disk of \<open>fs_boot\<close> every byte of the super block is 1 and every byte of the first bitmap
  block is 35: the blocks 0, 1 and 5 are taken.
\<close>

lemma fs_boot_bitmap:
  "sb_of fs_boot 1 = \<lparr>sb_size = 0x01010101, sb_nblocks = 0x01010101, sb_ninodes = 0x01010101\<rparr>"
  "bitmap_ok fs_boot 1" "b < 8 \<Longrightarrow> map_block fs_boot 1 b = 0x202023"
  "b < 8 \<Longrightarrow> block_free fs_boot 1 b \<longleftrightarrow> b \<notin> {0, 1, 5}" "sane 1 0x202023"
proof -
  have "sane 1 1" by (simp add: sane_def)
  then show sb: "sb_of fs_boot 1 = \<lparr>sb_size = 0x01010101, sb_nblocks = 0x01010101, sb_ninodes = 0x01010101\<rparr>"
    by (simp add: sb_of_def fs_boot_sel load32_def Let_def)
  show s: "sane 1 0x202023" by (simp add: sane_def)
  show n: "map_block fs_boot 1 b = 0x202023" if "b < 8" for b
    using that by (simp add: map_block_def BBLOCK_def sb IPB_def BPB_def BSIZE_def)
  have "bc_usable fs_boot (1, map_block fs_boot 1 b)" if "covered fs_boot 1 b" for b
  proof -
    have "b div BPB < 4113" using that by (simp add: covered_def sb BPB_def BSIZE_def)
    then have "map_block fs_boot 1 b < 0x10000000"
      by (simp add: map_block_def BBLOCK_def sb IPB_def word_less_nat_alt unat_word_ariths unat_of_nat)
    then have "sane 1 (map_block fs_boot 1 b)" by (simp add: sane_def)
    then show ?thesis by (rule fs_boot_sel(3))
  qed
  with fs_boot_sel(3) [OF \<open>sane 1 1\<close>] show "bitmap_ok fs_boot 1" by (simp add: bitmap_ok_def)
  show "block_free fs_boot 1 b \<longleftrightarrow> b \<notin> {0, 1, 5}" if "b < 8"
  proof -
    have "b mod BPB = b" "b div 8 = 0" "b mod 8 = b" using that by (simp_all add: BPB_def BSIZE_def)
    moreover have "b \<in> {0, 1, 2, 3, 4, 5, 6, 7}" using that by auto
    ultimately show ?thesis
      by (auto simp: block_free_def bit_free_iff n [OF that] fs_boot_sel(2) [OF s])
  qed
qed

theorem balloc_takes_first_free_witness: "\<exists>s'. balloc 1 fs_boot = Ret 2 s'"
proof -
  have "covered fs_boot 1 2" by (simp add: covered_def fs_boot_bitmap BPB_def BSIZE_def)
  moreover have "block_free fs_boot 1 2" "\<forall>c<2. \<not> block_free fs_boot 1 c"
    by (auto simp: fs_boot_bitmap less_2_cases_iff)
  ultimately show ?thesis
    using conjunct1 [OF balloc_takes_first_free [OF fs_boot_inv fs_boot_bitmap(2)], rule_format, of 2] by auto
qed

theorem bfree_undoes_balloc_witness: "\<exists>s'. bfree 1 5 fs_boot = Ret () s' \<and> block_free s' 1 5"
proof -
  have s: "sane 1 1" "sane 1 5" by (simp_all add: sane_def)
  have u: "unat (5 :: uint) = 5" by simp
  have "\<not> block_free fs_boot 1 5" by (simp add: fs_boot_bitmap)
  moreover have "bc_usable fs_boot (1, map_block fs_boot 1 5)" "map_block fs_boot 1 5 \<noteq> 5"
    using fs_boot_sel(3) [OF fs_boot_bitmap(5)] by (simp_all add: fs_boot_bitmap(3))
  ultimately show ?thesis
    using bfree_undoes_balloc [OF fs_boot_inv fs_boot_sel(3) [OF s(1)] fs_boot_sel(3) [OF s(2)]]
    unfolding u by auto
qed

end
