(* ===== verification/Icache.thy ===== *)
theory Icache
  imports FsAlloc
begin

text \<open>
  The inode cache (\<^verbatim>\<open>iget\<close>, \<^verbatim>\<open>iput\<close>, \<^verbatim>\<open>ilock\<close>, \<^verbatim>\<open>iunlock\<close>, \<^verbatim>\<open>iupdate\<close> of \<^verbatim>\<open>kernel/fs.c\<close>): the way of an
  inode to the disk and back, and the invariant that an inode has one slot at most.
\<close>

unbundle bit_operations_syntax

section \<open>The inode on disk\<close>

lemma load16_store16 [simp]: "load16 (store16 m a w) a = w"
proof (rule bit_word_eqI)
  fix n :: nat
  assume "n < LENGTH(16)"
  then have "n < 8 \<or> 8 \<le> n \<and> n < 16" by auto
  then show "bit (load16 (store16 m a w) a) n = bit w n"
    by (auto simp: load16_def store16_def bit_simps)
qed

lemma load16_cong: "m a = m' a \<Longrightarrow> m (a + 1) = m' (a + 1) \<Longrightarrow> load16 m a = load16 m' a"
  by (simp add: load16_def)

lemma load16_store16_other [simp]: "b + 2 \<le> a \<or> a + 2 \<le> b \<Longrightarrow> load16 (store16 m a w) b = load16 m b"
  by (rule load16_cong) (auto simp: store16_def)

lemma load16_store32_other [simp]: "b + 2 \<le> a \<or> a + 4 \<le> b \<Longrightarrow> load16 (store32 m a w) b = load16 m b"
  by (rule load16_cong) auto

lemma put_words_other: "b < a \<or> a + 4 * n \<le> b \<Longrightarrow> put_words n w a m b = m b"
  by (induction n) auto

lemma load16_put_words [simp]: "b + 2 \<le> a \<Longrightarrow> load16 (put_words n w a m) b = load16 m b"
  by (rule load16_cong) (auto simp: put_words_other)

lemma load32_put_words_other [simp]: "b + 4 \<le> a \<Longrightarrow> load32 (put_words n w a m) b = load32 m b"
  by (rule load32_cong) (auto simp: put_words_other)

lemma load32_put_words [simp]: "i < n \<Longrightarrow> load32 (put_words n w a m) (a + 4 * i) = w i"
proof (induction n)
  case (Suc n)
  then show ?case by (cases "i = n") auto
qed simp

lemma get_put_inode:
  "get_inode (put_inode ip a m) a p = p\<lparr>i_type := i_type ip, i_major := i_major ip, i_minor := i_minor ip,
     i_nlink := i_nlink ip, i_size := i_size ip,
     i_addrs := (\<lambda>i. if i < NDIRECT + 1 then i_addrs ip i else i_addrs p i)\<rparr>"
  by (simp add: get_inode_def put_inode_def Let_def NDIRECT_def cong: if_cong)

text \<open>The metadata a cached inode shares with the disk.\<close>

definition same_meta :: "inode \<Rightarrow> inode \<Rightarrow> bool" where
  "same_meta p q \<longleftrightarrow> i_type p = i_type q \<and> i_major p = i_major q \<and> i_minor p = i_minor q \<and>
     i_nlink p = i_nlink q \<and> i_size p = i_size q \<and> (\<forall>i\<le>NDIRECT. i_addrs p i = i_addrs q i)"

section \<open>Changes of the inode cache\<close>

lemma upper_ino_upd: "upper (ino_upd i f)"
  by (simp add: upper_def ino_upd_def set_cpu_def set_lk_def)

lemmas ino_lock [simp] = upper_lock [OF upper_ino_upd]

lemma ino_upd_sel [simp]:
  "inodes (ino_upd i f s) = (inodes s)(i := f (ino s i))"
  "ptable (ino_upd i f s) = ptable s" "phys (ino_upd i f s) = phys s"
  "bcache (ino_upd i f s) = bcache s" "pipes (ino_upd i f s) = pipes s"
  by (simp_all add: ino_upd_def)

lemma inodes_below [simp]:
  "inodes (set_cpu c s) = inodes s" "inodes (set_lk l v s) = inodes s"
  "inodes (pushcli s) = inodes s" "inodes (locked l s) = inodes s" "inodes (quiet s) = inodes s"
  "inodes (initlock l nm s) = inodes s" "inodes (upd_proc i g s) = inodes s"
  "inodes (for_procs g s) = inodes s" "inodes (wakeup1 ch s) = inodes s"
  "inodes (ram_upd h s) = inodes s" "inodes (bufs_upd m s) = inodes s" "inodes (pipe_upd p k s) = inodes s"
  "inodes (buf_upd b x s) = inodes s" "inodes (set_data b d s) = inodes s"
  "inodes (s\<lparr>ptable := t\<rparr>) = inodes s" "inodes (s\<lparr>phys := ph\<rparr>) = inodes s" "inodes (s\<lparr>bcache := c'\<rparr>) = inodes s"
  by (simp_all add: set_cpu_def set_lk_def pushcli_def locked_def quiet_def initlock_def set_data_def
      upd_proc_def for_procs_def wakeup1_def ram_upd_def buf_upd_def bufs_upd_def pipe_upd_def Let_def)

lemma bc_ino_upd [simp]:
  "bc_inv (ino_upd i f s) H = bc_inv s H" "bc_stored (ino_upd i f s) = bc_stored s"
  "bc_usable (ino_upd i f s) = bc_usable s"
  by (simp_all add: bc_inv_def cache_ok_def fun_eq_iff bc_stored_def bc_usable_def)

lemma bc_quiet [simp]:
  "bc_inv (quiet s) H = bc_inv s H" "bc_stored (quiet s) = bc_stored s" "bc_usable (quiet s) = bc_usable s"
  "bc_inv (wakeup1 ch s) H = bc_inv s H" "bc_stored (wakeup1 ch s) = bc_stored s" "bc_usable (wakeup1 ch s) = bc_usable s"
  by (auto simp: bc_inv_def cache_ok_def fun_eq_iff bc_stored_def bc_usable_def cli_ok_def)

text \<open>The lock of the cache is free, and the cache routines may take it.\<close>

definition icache_free :: "'a kfs_scheme \<Rightarrow> bool" where
  "icache_free s \<longleftrightarrow> cli_ok s \<and> lk_free (lks s IcacheLk) \<and> lk_free (lks s PtableLk)"

lemma icache_free_keep [simp]:
  "icache_free (ino_upd i f s) = icache_free s" "icache_free (quiet s) = icache_free s"
  "icache_free (wakeup1 ch s) = icache_free s"
  by (auto simp: icache_free_def cli_ok_def)

lemma icache_free_rest: "bc_rest s t \<Longrightarrow> icache_free s \<Longrightarrow> icache_free t"
  by (auto simp: icache_free_def bc_rest_def cli_ok_def)

lemma locked_ino:
  assumes "icache_free s"
  shows "acquire IcacheLk s = Inr (locked IcacheLk s)"
    "release IcacheLk (ino_upd i f (locked IcacheLk s)) = Inr (ino_upd i f (quiet s))"
    "release IcacheLk (locked IcacheLk s) = Inr (quiet s)"
  using assms by (simp_all add: icache_free_def acquire_free release_locked)

section \<open>The routines where nobody interferes\<close>

lemma iupdate_writes:
  fixes s :: "'a kfs_scheme"
  assumes "bc_inv s {}" and "bc_usable s (i_dev (ino s ip), IBLOCK (i_inum (ino s ip)))"
  shows "\<exists>s'. iupdate ip s = Ret () s' \<and> bc_inv s' {} \<and> bc_usable s' = bc_usable s \<and> bc_rest s s' \<and>
     bc_stored s' = (let a = (i_dev (ino s ip), IBLOCK (i_inum (ino s ip))) in
       (bc_stored s)(a := put_inode (ino s ip) (dinode_at (i_inum (ino s ip))) (bc_stored s a)))"
proof -
  from change_block [OF assms, of "put_inode (ino s ip) (dinode_at (i_inum (ino s ip)))"]
  obtain b s1 s2 s3 where c: "bread (i_dev (ino s ip)) (IBLOCK (i_inum (ino s ip))) s = Ret b s1"
    "bdata s1 b = bc_stored s (i_dev (ino s ip), IBLOCK (i_inum (ino s ip)))"
    "bwrite b (set_data b (put_inode (ino s ip) (dinode_at (i_inum (ino s ip))) (bc_stored s (i_dev (ino s ip), IBLOCK (i_inum (ino s ip))))) s1) = Inr s2"
    "brelse b s2 = Inr s3" "bc_inv s3 {}" "bc_usable s3 = bc_usable s" "bc_rest s s1" "bc_rest s s3"
    "bc_stored s3 = (bc_stored s)((i_dev (ino s ip), IBLOCK (i_inum (ino s ip))) :=
       put_inode (ino s ip) (dinode_at (i_inum (ino s ip))) (bc_stored s (i_dev (ino s ip), IBLOCK (i_inum (ino s ip)))))"
    by blast
  then show ?thesis using rest_fs(1) [OF c(7)] by (auto simp: iupdate_def Let_def)
qed

lemma iunlock_frees:
  assumes "icache_free s" and "i_busy (ino s ip)" and "0 < i_ref (ino s ip)"
  shows "iunlock (Some ip) s = Inr (wakeup1 (ChInode ip) (ino_upd ip (\<lambda>p. p\<lparr>i_busy := False\<rparr>) (quiet s)))"
  using assms wakeup_eq [of "ino_upd ip (\<lambda>p. p\<lparr>i_busy := False\<rparr>) (locked IcacheLk s)" "ChInode ip"]
  by (simp add: iunlock_def locked_ino quiet_locked icache_free_def)

lemma iput_keeps_linked:
  assumes "icache_free s" and "i_nlink (ino s ip) \<noteq> 0"
  shows "iput ip s = Ret () (ino_upd ip (\<lambda>p. p\<lparr>i_ref := i_ref p - 1\<rparr>) (quiet s))"
  using assms by (simp add: iput_def locked_ino)

text \<open>\<open>cached s dev inum i\<close>: slot \<open>i\<close> is referenced for this inode.\<close>

definition cached :: "'a kfs_scheme \<Rightarrow> uint \<Rightarrow> uint \<Rightarrow> nat \<Rightarrow> bool" where
  "cached s dev inum i \<longleftrightarrow> i < NINODE \<and> 0 < i_ref (ino s i) \<and> i_dev (ino s i) = dev \<and> i_inum (ino s i) = inum"

lemma iget_fresh:
  assumes "icache_free s" and "\<forall>i. \<not> cached s dev inum i" and "\<exists>i<NINODE. i_ref (ino s i) = 0"
  shows "\<exists>i<NINODE. i_ref (ino s i) = 0 \<and> iget dev inum s = Inr (i, ino_upd i (\<lambda>p. p\<lparr>i_dev := dev,
    i_inum := inum, i_ref := 1, i_busy := False, i_valid := False\<rparr>) (quiet s))"
proof -
  have "find (\<lambda>i. i_ref (ino s i) > 0 \<and> i_dev (ino s i) = dev \<and> i_inum (ino s i) = inum) [0..<NINODE] = None"
    using assms(2) by (auto simp: find_None_iff cached_def)
  moreover obtain i where "find (\<lambda>i. i_ref (ino s i) = 0) [0..<NINODE] = Some i" "i < NINODE" "i_ref (ino s i) = 0"
  proof (cases "find (\<lambda>i. i_ref (ino s i) = 0) [0..<NINODE]")
    case None
    with assms(3) show ?thesis by (auto simp: find_None_iff)
  next
    case (Some i)
    then have "i < NINODE" "i_ref (ino s i) = 0" by (auto simp: find_Some_iff)
    with Some show ?thesis by (rule that)
  qed
  ultimately show ?thesis using assms(1) by (auto simp: iget_def locked_ino)
qed

lemma ilock_reads:
  fixes s :: "'a kfs_scheme"
  assumes "icache_free s" and "bc_inv s {}" and "0 < i_ref (ino s ip)" and "\<not> i_busy (ino s ip)" and "\<not> i_valid (ino s ip)"
    and "bc_usable s (i_dev (ino s ip), IBLOCK (i_inum (ino s ip)))"
    and "get_inode (bc_stored s (i_dev (ino s ip), IBLOCK (i_inum (ino s ip)))) (dinode_at (i_inum (ino s ip))) (ino s ip) = q"
    and "i_type q \<noteq> 0"
  shows "\<exists>s'. ilock (Some ip) s = Ret () s' \<and> bc_inv s' {} \<and> bc_stored s' = bc_stored s \<and>
     inodes s' = (inodes s)(ip := q\<lparr>i_busy := True, i_valid := True\<rparr>)"
proof -
  let ?t = "ino_upd ip (\<lambda>p. p\<lparr>i_busy := True\<rparr>) (quiet s)"
  let ?d = "i_dev (ino s ip)" and ?n = "IBLOCK (i_inum (ino s ip))"
  have "bc_inv ?t {}" "bc_usable ?t (?d, ?n)" using assms by simp_all
  then have "card {} < NBUF" "(?d, ?n) \<notin> bc_which ?t ` {}" by (simp_all add: NBUF_def)
  with bc_read [of ?t "{}" ?d ?n] \<open>bc_inv ?t {}\<close> \<open>bc_usable ?t (?d, ?n)\<close> obtain b s1 where
    r: "bread ?d ?n ?t = Ret b s1" "bc_inv s1 {b}" "bc_which s1 b = (?d, ?n)"
    "bdata s1 b = bc_stored s (?d, ?n)" "bc_stored s1 = bc_stored s" "bc_rest ?t s1"
    by (auto simp: bc_contents_def)
  have i: "inodes s1 = inodes ?t" by (rule rest_fs(1) [OF r(6)])
  let ?u = "ino_upd ip (get_inode (bdata s1 b) (dinode_at (i_inum (ino s1 ip)))) s1"
  have "bc_inv ?u {b}" "bc_contents ?u b = bc_stored ?u (bc_which ?u b)"
    using r by (simp_all add: bc_contents_def bc_which_def)
  from bc_release [OF this(1) _ this(2)] obtain s2 where l: "brelse b ?u = Inr s2" "bc_inv s2 {}"
    "bc_stored s2 = bc_stored s" "bc_rest ?u s2"
    using r(5) by auto
  have i2: "inodes s2 = inodes ?u" by (rule rest_fs(1) [OF l(4)])
  have q: "get_inode (bdata s1 b) (dinode_at (i_inum (ino s1 ip))) (ino s1 ip) = q\<lparr>i_busy := True\<rparr>"
    unfolding assms(7) [symmetric] by (cases "ino s ip") (simp add: i r(4) get_inode_def cong: if_cong)
  have "ilock (Some ip) s = Ret () (ino_upd ip (\<lambda>p. p\<lparr>i_valid := True\<rparr>) s2)"
    using assms(1,3,4,5,8) r(1) l(1) i i2 q
    by (simp add: ilock_def locked_ino loopK_unfold ilock_body_def Let_def)
  moreover have "inodes (ino_upd ip (\<lambda>p. p\<lparr>i_valid := True\<rparr>) s2) = (inodes s)(ip := q\<lparr>i_busy := True, i_valid := True\<rparr>)"
    using i i2 q by (simp add: fun_eq_iff)
  ultimately show ?thesis using l(2,3) by auto
qed

text \<open>
  Claim C9.  An inode survives the cache: written back with \<^verbatim>\<open>iupdate\<close>, unlocked and dropped with
  its last reference, and then looked up and locked anew, in whatever slot \<^verbatim>\<open>iget\<close> gives it, it
  has the type, device numbers, link count, size and block addresses it had.
\<close>

theorem inode_survives_cache:
  fixes s :: "'a kfs_scheme"
  assumes "icache_free s" and "bc_inv s {}" and "ip < NINODE" and "i_ref (ino s ip) = 1" and "i_busy (ino s ip)"
    and "i_nlink (ino s ip) \<noteq> 0" and "i_type (ino s ip) \<noteq> 0"
    and "bc_usable s (i_dev (ino s ip), IBLOCK (i_inum (ino s ip)))"
    and "\<forall>i. cached s (i_dev (ino s ip)) (i_inum (ino s ip)) i \<longrightarrow> i = ip"
  shows "\<exists>s1 s2 s3 s4 j. iupdate ip s = Ret () s1 \<and> iunlockput ip s1 = Ret () s2 \<and>
     iget (i_dev (ino s ip)) (i_inum (ino s ip)) s2 = Inr (j, s3) \<and> ilock (Some j) s3 = Ret () s4 \<and>
     i_valid (ino s4 j) \<and> same_meta (ino s4 j) (ino s ip)"
proof -
  let ?d = "i_dev (ino s ip)" and ?n = "i_inum (ino s ip)"
  let ?a = "(?d, IBLOCK ?n)"
  from iupdate_writes [OF assms(2,8)] obtain s1 where u: "iupdate ip s = Ret () s1" "bc_inv s1 {}"
    "bc_usable s1 = bc_usable s" "bc_rest s s1"
    "bc_stored s1 = (bc_stored s)(?a := put_inode (ino s ip) (dinode_at ?n) (bc_stored s ?a))"
    by (auto simp: Let_def)
  have i1: "inodes s1 = inodes s" by (rule rest_fs(1) [OF u(4)])
  have f1: "icache_free s1" by (rule icache_free_rest [OF u(4) assms(1)])
  let ?t = "wakeup1 (ChInode ip) (ino_upd ip (\<lambda>p. p\<lparr>i_busy := False\<rparr>) (quiet s1))"
  let ?s2 = "ino_upd ip (\<lambda>p. p\<lparr>i_ref := i_ref p - 1\<rparr>) (quiet ?t)"
  have "iunlock (Some ip) s1 = Inr ?t" using assms(4,5) by (intro iunlock_frees [OF f1]) (simp_all add: i1)
  moreover have "iput ip ?t = Ret () ?s2" using f1 assms(6) by (intro iput_keeps_linked) (simp_all add: i1)
  ultimately have p: "iunlockput ip s1 = Ret () ?s2" by (simp add: iunlockput_def)
  define s2 where "s2 = ?s2"
  have i2: "inodes s2 = (inodes s)(ip := (ino s ip)\<lparr>i_busy := False, i_ref := 0\<rparr>)"
    using assms(4) by (simp add: s2_def i1)
  have b2: "bc_inv s2 {}" "bc_usable s2 = bc_usable s" "icache_free s2" "bc_stored s2 = bc_stored s1"
    using u f1 by (simp_all add: s2_def)
  have "\<forall>i. \<not> cached s2 ?d ?n i"
  proof (intro allI notI)
    fix i
    assume c: "cached s2 ?d ?n i"
    then have "i \<noteq> ip" using i2 by (auto simp: cached_def)
    with c have "cached s ?d ?n i" using i2 by (simp add: cached_def)
    with assms(9) \<open>i \<noteq> ip\<close> show False by blast
  qed
  moreover note b2(3)
  moreover have "\<exists>i<NINODE. i_ref (ino s2 i) = 0" using assms(3) i2 by (intro exI [of _ ip]) simp
  ultimately obtain j where j: "j < NINODE" "iget ?d ?n s2 = Inr (j, ino_upd j (\<lambda>p. p\<lparr>i_dev := ?d,
      i_inum := ?n, i_ref := 1, i_busy := False, i_valid := False\<rparr>) (quiet s2))"
    using iget_fresh [of s2 ?d ?n] by blast
  let ?s3 = "ino_upd j (\<lambda>p. p\<lparr>i_dev := ?d, i_inum := ?n, i_ref := 1, i_busy := False, i_valid := False\<rparr>) (quiet s2)"
  have s3: "bc_inv ?s3 {}" "bc_usable ?s3 = bc_usable s" "icache_free ?s3"
    "bc_stored ?s3 ?a = put_inode (ino s ip) (dinode_at ?n) (bc_stored s ?a)"
    using u(5) b2 by simp_all
  have j3: "i_dev (ino ?s3 j) = ?d" "i_inum (ino ?s3 j) = ?n" "i_ref (ino ?s3 j) = 1"
    "\<not> i_busy (ino ?s3 j)" "\<not> i_valid (ino ?s3 j)" by simp_all
  define q where "q = get_inode (bc_stored ?s3 ?a) (dinode_at ?n) (ino ?s3 j)"
  have q: "same_meta q (ino s ip)" "i_type q \<noteq> 0"
    using assms(7) unfolding q_def s3(4) by (simp_all add: get_put_inode same_meta_def)
  have "\<exists>s4. ilock (Some j) ?s3 = Ret () s4 \<and> bc_inv s4 {} \<and> bc_stored s4 = bc_stored ?s3 \<and>
      inodes s4 = (inodes ?s3)(j := q\<lparr>i_busy := True, i_valid := True\<rparr>)"
    using s3(1,2,3) j3 q(2) assms(8) unfolding q_def by (intro ilock_reads) (simp_all only: , simp_all)
  then obtain s4 where "ilock (Some j) ?s3 = Ret () s4" "inodes s4 = (inodes ?s3)(j := q\<lparr>i_busy := True, i_valid := True\<rparr>)"
    by blast
  moreover have "same_meta (q\<lparr>i_busy := True, i_valid := True\<rparr>) (ino s ip)" using q(1) by (simp add: same_meta_def)
  ultimately show ?thesis using u(1) p [folded s2_def] j(2)
    by (intro exI [of _ s1] exI [of _ s2] exI [of _ ?s3] exI [of _ s4] exI [of _ j]) simp
qed

text \<open>\<open>fs_boot\<close> with the one inode cached.\<close>

definition fs_one :: kfs where
  "fs_one = fs_boot\<lparr>inodes := \<lambda>i. if i = 0 then ino fs_boot 0 else (ino fs_boot i)\<lparr>i_ref := 0\<rparr>\<rparr>"

lemma bc_inodes [simp]:
  "bc_inv (s\<lparr>inodes := f\<rparr>) H = bc_inv s H" "bc_stored (s\<lparr>inodes := f\<rparr>) = bc_stored s"
  "bc_usable (s\<lparr>inodes := f\<rparr>) = bc_usable s"
  by (simp_all add: bc_inv_def cache_ok_def cli_ok_def fun_eq_iff bc_stored_def bc_usable_def)

lemma fs_one_ok: "icache_free fs_one" "bc_inv fs_one {}"
  "cached fs_one 1 n i \<longleftrightarrow> i = 0 \<and> n = 1"
proof -
  have "lks fs_boot = (lks pipe_boot)(BcacheLk := \<lparr>lk_locked = False, lk_name = ''bcache'', lk_cpu = None\<rparr>)"
    "cpus fs_boot = cpus pipe_boot" "me fs_boot = 0"
    by (simp_all add: fs_boot_def binit_def initlock_def bufs_upd_def set_lk_def)
  then show "icache_free fs_one"
    by (simp add: icache_free_def fs_one_def cli_ok_def lk_free_def pipe_boot_def bio_boot_def boot_defs)
  show "bc_inv fs_one {}" using fs_boot_inv by (simp add: fs_one_def)
  show "cached fs_one 1 n i \<longleftrightarrow> i = 0 \<and> n = 1"
    by (auto simp: cached_def fs_one_def fs_boot_sel NINODE_def)
qed

theorem inode_survives_cache_witness:
  "\<exists>s1 s2 s3 s4 j. iupdate 0 fs_one = Ret () s1 \<and> iunlockput 0 s1 = Ret () s2 \<and>
     iget 1 1 s2 = Inr (j, s3) \<and> ilock (Some j) s3 = Ret () s4 \<and> i_size (ino s4 j) = 600"
proof -
  have i: "ino fs_one 0 = ino fs_boot 0" by (simp add: fs_one_def)
  have "sane 1 2" by (simp add: sane_def)
  then have "bc_usable fs_one (1, 2)" using fs_boot_sel(3) by (simp add: fs_one_def)
  then have "bc_usable fs_one (i_dev (ino fs_one 0), IBLOCK (i_inum (ino fs_one 0)))"
    by (simp add: i fs_boot_sel IBLOCK_def IPB_def)
  moreover have "\<forall>i. cached fs_one (i_dev (ino fs_one 0)) (i_inum (ino fs_one 0)) i \<longrightarrow> i = 0"
    by (simp add: i fs_boot_sel fs_one_ok)
  moreover have "(0 :: nat) < NINODE" "i_ref (ino fs_one 0) = 1" "i_busy (ino fs_one 0)"
    "i_nlink (ino fs_one 0) \<noteq> 0" "i_type (ino fs_one 0) \<noteq> 0"
    by (simp_all add: i fs_boot_sel NINODE_def)
  ultimately have "\<exists>s1 s2 s3 s4 j. iupdate 0 fs_one = Ret () s1 \<and> iunlockput 0 s1 = Ret () s2 \<and>
     iget (i_dev (ino fs_one 0)) (i_inum (ino fs_one 0)) s2 = Inr (j, s3) \<and> ilock (Some j) s3 = Ret () s4 \<and>
     i_valid (ino s4 j) \<and> same_meta (ino s4 j) (ino fs_one 0)"
    using fs_one_ok(1,2) by (intro inode_survives_cache)
  then show ?thesis by (simp add: i fs_boot_sel same_meta_def) blast
qed

end
