(* ===== verification/IcacheInv.thy ===== *)
theory IcacheInv
  imports Icache
begin

text \<open>
  The references of the inode cache across every point where a routine of \<^verbatim>\<open>kernel/fs.c\<close> may give
  up the CPU: no inode is in two slots, whatever the other processes do meanwhile that keeps it so.
\<close>

section \<open>Routines that leave the cache alone\<close>

lemma inodes_rest:
  fixes s s' :: "'a kfs_scheme"
  assumes "same_rest s s'"
  shows "inodes s' = inodes s"
proof -
  have "kphys.more s' = kphys.more s" using assms by (simp add: same_rest_def)
  then show ?thesis by (cases s, cases s', simp)
qed

lemma lock_inodes:
  fixes s s' :: "'a kfs_scheme"
  shows "acquire lk s = Inr s' \<Longrightarrow> inodes s' = inodes s" "release lk s = Inr s' \<Longrightarrow> inodes s' = inodes s"
  by (rule inodes_rest, erule lock_rest)+

lemma wakeup_inodes: "wakeup ch s = Inr s' \<Longrightarrow> inodes s' = inodes s"
  by (auto simp: wakeup_def res_simps lock_inodes)

lemma sleep_enter_inodes: "sleep_enter ch lk s = Inr s' \<Longrightarrow> inodes s' = inodes s"
  by (auto simp: sleep_enter_def res_simps lock_inodes split: option.splits if_splits)

lemma sleep_leave_inodes:
  assumes "sleep_leave lk (sched_leave i s) = Inr s'"
  shows "inodes s' = inodes s"
proof -
  obtain c where "same_rest (upd_proc c (\<lambda>p. p\<lparr>p_chan := None\<rparr>) (sched_leave i s)) s'"
    using sleep_leave_rest [OF assms] by blast
  from inodes_rest [OF this] show ?thesis by (simp add: sched_leave_def)
qed

lemma nap_inodes:
  assumes "nap ch lk s = Nap s1 post"
  shows "inodes s1 = inodes s" "post s' = Inr s2 \<Longrightarrow> inodes s2 = inodes s'"
  using assms by (auto simp: nap_def res_simps sleep_enter_inodes sleep_leave_inodes split: sum.splits)

lemma disk_inodes:
  shows "disk_rw b s = Inr s' \<Longrightarrow> inodes s' = inodes s" "bwrite b s = Inr s' \<Longrightarrow> inodes s' = inodes s"
proof -
  have i: "disk_rw b s = Inr s' \<Longrightarrow> inodes s' = inodes s" for s
    by (auto simp: disk_rw_def Let_def split: if_splits)
  then show "disk_rw b s = Inr s' \<Longrightarrow> inodes s' = inodes s" .
  show "bwrite b s = Inr s' \<Longrightarrow> inodes s' = inodes s"
    by (auto simp: bwrite_def dest!: i split: if_splits)
qed

lemma brelse_inodes: "brelse b s = Inr s' \<Longrightarrow> inodes s' = inodes s"
  by (auto simp: brelse_def Let_def res_simps lock_inodes wakeup_inodes split: if_splits)

lemmas quiet_inodes = lock_inodes wakeup_inodes disk_inodes brelse_inodes

text \<open>
  The part of the cache that says which inode a slot holds and how often it is referenced; a run
  that keeps whatever is true of it.
\<close>

definition refs :: "'a kfs_scheme \<Rightarrow> nat \<Rightarrow> uint \<times> uint \<times> int" where
  "refs s i = (i_dev (ino s i), i_inum (ino s i), i_ref (ino s i))"

definition keeps_refs :: "((nat \<Rightarrow> uint \<times> uint \<times> int) \<Rightarrow> bool) \<Rightarrow> ('a kfs_scheme, 'b) run \<Rightarrow> bool" where
  "keeps_refs Q m \<longleftrightarrow> keeps (\<lambda>s. Q (refs s)) (\<lambda>s. Q (refs s)) (\<lambda>_ s. Q (refs s)) m"

lemma refs_same: "inodes s' = inodes s \<Longrightarrow> refs s' = refs s"
  by (simp add: fun_eq_iff refs_def)

lemma refs_ino_upd [simp]:
  "(\<And>p. i_dev (f p) = i_dev p \<and> i_inum (f p) = i_inum p \<and> i_ref (f p) = i_ref p) \<Longrightarrow> refs (ino_upd i f s) = refs s"
  by (simp add: fun_eq_iff refs_def)

lemma keeps_refs_Ret [simp]: "keeps_refs Q (Ret x s) = Q (refs s)" "keeps_refs Q (Err e)"
  by (simp_all add: keeps_refs_def)

lemma keeps_refs_bind:
  "keeps_refs Q m \<Longrightarrow> (\<And>x s. Q (refs s) \<Longrightarrow> keeps_refs Q (f x s)) \<Longrightarrow> keeps_refs Q (bindK m f)"
  unfolding keeps_refs_def by (rule keeps_bindK)

lemma keeps_refs_doE: "(\<And>x. m = Inr x \<Longrightarrow> keeps_refs Q (f x)) \<Longrightarrow> keeps_refs Q (doE m f)"
  unfolding keeps_refs_def by (rule keeps_doE)

text \<open>A call that leaves the cache alone, followed by the rest of a routine.\<close>

lemma keeps_refs_call:
  assumes "Q (refs s)" and "\<And>t. m = Inr t \<Longrightarrow> inodes t = inodes s"
    and "\<And>t. Q (refs t) \<Longrightarrow> keeps_refs Q (f t)"
  shows "keeps_refs Q (doE m f)"
proof (rule keeps_refs_doE)
  fix t
  assume "m = Inr t"
  with assms(1,2) have "Q (refs t)" using refs_same [of t s] by simp
  then show "keeps_refs Q (f t)" by (rule assms(3))
qed

lemma bread_keeps_refs:
  fixes s :: "'a kfs_scheme"
  assumes "Q (refs s)"
  shows "keeps_refs Q (bread dev n s)"
proof -
  have body: "keeps_refs Q m" if "Q (refs t)" "bget_body dev n t = Leave m" for t :: "'a kfs_scheme" and m
  proof -
    have "keeps_refs Q (doE (release BcacheLk (buf_upd b f t)) (Ret b))" for b f
    proof (rule keeps_refs_call [where s = "buf_upd b f t"])
      show "Q (refs (buf_upd b f t))" using that(1) refs_same [of "buf_upd b f t" t] by simp
      show "inodes u = inodes (buf_upd b f t)" if "release BcacheLk (buf_upd b f t) = Inr u" for u
        by (rule lock_inodes(2) [OF that])
    qed simp
    moreover have "keeps_refs Q m" if "nap ch lk t = Leave m" for ch lk
      using nap_leave [OF that] by (simp add: keeps_refs_def)
    ultimately show ?thesis
      using that(2) by (auto simp: bget_body_def split: sum.splits option.splits if_splits)
  qed
  have "keeps_refs Q (bget dev n s)"
    unfolding bget_def
  proof (rule keeps_refs_call [where s = s])
    show "Q (refs s)" by (rule assms)
    show "inodes t = inodes s" if "acquire BcacheLk s = Inr t" for t by (rule lock_inodes(1) [OF that])
    fix t :: "'a kfs_scheme"
    assume "Q (refs t)"
    then show "keeps_refs Q (loopK (bget_body dev n) t)"
      unfolding keeps_refs_def
    proof (rule keeps_loopK)
      fix u :: "'a kfs_scheme" and m
      assume "Q (refs u)" "bget_body dev n u = Leave m"
      from body [OF this] show "keeps (\<lambda>s. Q (refs s)) (\<lambda>s. Q (refs s)) (\<lambda>_ s. Q (refs s)) m"
        by (simp add: keeps_refs_def)
    next
      fix u s1 :: "'a kfs_scheme" and post
      assume "Q (refs u)" "bget_body dev n u = Nap s1 post"
      then obtain ch lk where "nap ch lk u = (Nap s1 post :: ('a kfs_scheme, nat) turn)"
        by (auto simp: bget_body_def split: sum.splits option.splits if_splits)
      from nap_inodes [OF this] \<open>Q (refs u)\<close>
      show "Q (refs s1) \<and> (\<forall>s' s2. Q (refs s') \<longrightarrow> post s' = Inr s2 \<longrightarrow> Q (refs s2))"
        by (metis refs_same)
    qed
  qed
  moreover have "keeps_refs Q (doE (disk_rw b t) (Ret b))" if "Q (refs t)" for b and t :: "'a kfs_scheme"
    using that disk_inodes(1) by (intro keeps_refs_call [where s = t]) auto
  ultimately show ?thesis unfolding bread_def
    by (intro keeps_refs_bind) auto
qed

text \<open>The steps a routine takes between a \<^verbatim>\<open>bread\<close> and the end.\<close>

lemma keeps_refs_bread:
  fixes s :: "'a kfs_scheme"
  assumes "Q (refs s)" and "\<And>b (t :: 'a kfs_scheme). Q (refs t) \<Longrightarrow> keeps_refs Q (f b t)"
  shows "keeps_refs Q (bindK (bread dev n s) f)"
  using assms by (intro keeps_refs_bind bread_keeps_refs)

lemma keeps_refs_brelse:
  fixes s :: "'a kfs_scheme"
  assumes "Q (refs s)" and "\<And>t :: 'a kfs_scheme. Q (refs t) \<Longrightarrow> keeps_refs Q (f t)"
  shows "keeps_refs Q (doE (brelse b s) f)"
  using assms brelse_inodes by (intro keeps_refs_call [where s = s]) auto

lemma keeps_refs_bwrite:
  fixes s :: "'a kfs_scheme"
  assumes "Q (refs s)" and "\<And>t :: 'a kfs_scheme. Q (refs t) \<Longrightarrow> keeps_refs Q (f t)"
  shows "keeps_refs Q (doE (bwrite b (set_data b d s)) f)"
proof (rule keeps_refs_call [where s = s])
  show "inodes t = inodes s" if "bwrite b (set_data b d s) = Inr t" for t
    using disk_inodes(2) [OF that] by simp
qed (use assms in auto)

lemma keeps_refs_lock:
  fixes s :: "'a kfs_scheme"
  assumes "Q (refs s)" and "\<And>t :: 'a kfs_scheme. Q (refs t) \<Longrightarrow> keeps_refs Q (f t)"
  shows "keeps_refs Q (doE (acquire l s) f)" "keeps_refs Q (doE (release l s) f)" "keeps_refs Q (doE (wakeup ch s) f)"
  using assms lock_inodes wakeup_inodes by (auto intro!: keeps_refs_call [where s = s])

lemmas keeps_refs_steps = keeps_refs_bread keeps_refs_brelse keeps_refs_bwrite keeps_refs_lock

lemma readsb_keeps_refs: "Q (refs s) \<Longrightarrow> keeps_refs Q (readsb dev s)"
  unfolding readsb_def Let_def by (intro keeps_refs_steps) simp_all

lemma bzero_keeps_refs: "Q (refs s) \<Longrightarrow> keeps_refs Q (bzero dev n s)"
  unfolding bzero_def by (intro keeps_refs_steps) simp_all

lemma balloc_loop_keeps_refs: "Q (refs s) \<Longrightarrow> keeps_refs Q (balloc_loop dev sb b s)"
proof (induction dev sb b s rule: balloc_loop.induct)
  case (1 dev sb b s)
  show ?case
  proof (cases "b < unat (sb_size sb)")
    case True
    show ?thesis using True
      by (subst balloc_loop.simps)
         (auto intro!: keeps_refs_steps 1 split: option.split)
  next
    case False
    then show ?thesis by (subst balloc_loop.simps) simp
  qed
qed

lemma balloc_keeps_refs: "Q (refs s) \<Longrightarrow> keeps_refs Q (balloc dev s)"
  unfolding balloc_def by (intro keeps_refs_bind readsb_keeps_refs balloc_loop_keeps_refs)

lemma bfree_keeps_refs: "Q (refs s) \<Longrightarrow> keeps_refs Q (bfree dev b s)"
  unfolding bfree_def Let_def
  by (intro keeps_refs_bind [OF bzero_keeps_refs] keeps_refs_bind [OF readsb_keeps_refs] keeps_refs_steps)
     (auto intro!: keeps_refs_steps)

lemma iupdate_keeps_refs: "Q (refs s) \<Longrightarrow> keeps_refs Q (iupdate ip s)"
  unfolding iupdate_def by (intro keeps_refs_steps) simp_all

lemma itrunc_direct_keeps_refs: "Q (refs s) \<Longrightarrow> keeps_refs Q (itrunc_direct ip is s)"
  by (induction "is" arbitrary: s) (auto intro!: keeps_refs_bind [OF bfree_keeps_refs])

lemma itrunc_indirect_keeps_refs: "Q (refs s) \<Longrightarrow> keeps_refs Q (itrunc_indirect ip bp js s)"
  by (induction js arbitrary: s) (auto intro!: keeps_refs_bind [OF bfree_keeps_refs])

lemma itrunc_keeps_refs: "Q (refs s) \<Longrightarrow> keeps_refs Q (itrunc ip s)"
  unfolding itrunc_def
  by (intro keeps_refs_bind [OF itrunc_direct_keeps_refs] keeps_refs_bind)
     (auto intro!: keeps_refs_steps keeps_refs_bind [OF itrunc_indirect_keeps_refs]
       keeps_refs_bind [OF bfree_keeps_refs] iupdate_keeps_refs)

lemma bmap_keeps_refs: "Q (refs s) \<Longrightarrow> keeps_refs Q (bmap ip bn s)"
  unfolding bmap_def Let_def
  by (auto simp: bindK_assoc intro!: keeps_refs_steps keeps_refs_bind [OF balloc_keeps_refs])

lemma ilock_keeps_refs:
  fixes s :: "'a kfs_scheme"
  assumes "Q (refs s)"
  shows "keeps_refs Q (ilock ipo s)"
proof -
  have loop: "keeps_refs Q (loopK (ilock_body ip) t)" if "Q (refs t)" for ip and t :: "'a kfs_scheme"
    unfolding keeps_refs_def using that
  proof (rule keeps_loopK)
    fix u :: "'a kfs_scheme" and m
    assume u: "Q (refs u)" "ilock_body ip u = Leave m"
    show "keeps (\<lambda>s. Q (refs s)) (\<lambda>s. Q (refs s)) (\<lambda>_ s. Q (refs s)) m"
    proof (cases "i_busy (ino u ip)")
      case True
      with u(2) show ?thesis by (auto simp: ilock_body_def dest: nap_leave)
    next
      case False
      have "keeps_refs Q (doE (release IcacheLk (ino_upd ip (\<lambda>p. p\<lparr>i_busy := True\<rparr>) u)) (Ret ()))"
        using u(1) by (intro keeps_refs_lock) simp_all
      with False u(2) show ?thesis by (auto simp: ilock_body_def keeps_refs_def)
    qed
  next
    fix u s1 :: "'a kfs_scheme" and post
    assume "Q (refs u)" "ilock_body ip u = Nap s1 post"
    moreover from this(2) have "nap (ChInode ip) IcacheLk u = (Nap s1 post :: ('a kfs_scheme, unit) turn)"
      by (simp add: ilock_body_def split: if_splits)
    ultimately show "Q (refs s1) \<and> (\<forall>s' s2. Q (refs s') \<longrightarrow> post s' = Inr s2 \<longrightarrow> Q (refs s2))"
      by (metis refs_same nap_inodes)
  qed
  show ?thesis
    using assms unfolding ilock_def Let_def
    by (auto split: option.split intro!: keeps_refs_steps keeps_refs_bind [OF loop] simp: get_inode_def)
qed

section \<open>One slot per inode\<close>

definition one_slot :: "(nat \<Rightarrow> uint \<times> uint \<times> int) \<Rightarrow> bool" where
  "one_slot r \<longleftrightarrow> (\<forall>i<NINODE. 0 \<le> snd (snd (r i))) \<and>
     (\<forall>i<NINODE. \<forall>j<NINODE. 0 < snd (snd (r i)) \<longrightarrow> 0 < snd (snd (r j)) \<longrightarrow>
        fst (r i) = fst (r j) \<longrightarrow> fst (snd (r i)) = fst (snd (r j)) \<longrightarrow> i = j)"

lemma one_slot_drop:
  "one_slot r \<Longrightarrow> 0 < snd (snd (r i)) \<Longrightarrow> one_slot (r(i := (fst (r i), fst (snd (r i)), snd (snd (r i)) - 1)))"
  by (auto simp: one_slot_def)

lemma iget_one_slot:
  assumes "iget dev inum s = Inr (i, s')" and "one_slot (refs s)"
  shows "one_slot (refs s') \<and> cached s' dev inum i \<and>
     i_ref (ino s' i) = (if cached s dev inum i then i_ref (ino s i) + 1 else 1) \<and>
     (\<forall>j. j \<noteq> i \<longrightarrow> ino s' j = ino s j)"
proof -
  obtain s1 where a: "acquire IcacheLk s = Inr s1" using assms(1) by (auto simp: iget_def res_simps)
  have i1: "inodes s1 = inodes s" by (rule lock_inodes(1) [OF a])
  let ?P = "\<lambda>i. i_ref (ino s i) > 0 \<and> i_dev (ino s i) = dev \<and> i_inum (ino s i) = inum"
  show ?thesis
  proof (cases "find ?P [0..<NINODE]")
    case (Some k)
    then have k: "k < NINODE" "?P k" by (auto simp: find_Some_iff)
    from assms(1) a Some i1 have "k = i" "inodes s' = (inodes s)(i := (ino s i)\<lparr>i_ref := i_ref (ino s i) + 1\<rparr>)"
      by (auto simp: iget_def res_simps dest!: lock_inodes)
    with k assms(2) show ?thesis by (auto simp: one_slot_def refs_def cached_def)
  next
    case None
    then have np: "\<forall>j<NINODE. \<not> ?P j" by (auto simp: find_None_iff)
    from assms(1) a None i1 obtain k where "find (\<lambda>i. i_ref (ino s i) = 0) [0..<NINODE] = Some k" "k = i"
      "inodes s' = (inodes s)(i := (ino s i)\<lparr>i_dev := dev, i_inum := inum, i_ref := 1, i_busy := False, i_valid := False\<rparr>)"
      by (auto simp: iget_def res_simps split: option.splits dest!: lock_inodes)
    moreover from this(1) have "k < NINODE" "i_ref (ino s k) = 0" by (auto simp: find_Some_iff)
    ultimately show ?thesis using assms(2) np by (auto simp: one_slot_def refs_def cached_def)
  qed
qed



end
