(* ===== verification/Paths.thy ===== *)
theory Paths
  imports Fs
begin

text \<open>
  Path names (\<^verbatim>\<open>skipelem\<close> and \<^verbatim>\<open>namex\<close> of \<^verbatim>\<open>kernel/fs.c\<close>) against a reference: a path is split at
  its slashes once, the empty pieces are dropped, and the walk recurses on the list of elements.
\<close>

section \<open>Splitting at a separator\<close>

fun split_at :: "'c \<Rightarrow> 'c list \<Rightarrow> 'c list list" where
  "split_at c [] = [[]]"
| "split_at c (x # xs) =
     (if x = c then [] # split_at c xs
      else case split_at c xs of [] \<Rightarrow> [[x]] | y # ys \<Rightarrow> (x # y) # ys)"

definition path_elems :: "byte list \<Rightarrow> byte list list" where
  "path_elems path = filter (\<lambda>e. e \<noteq> []) (split_at slash path)"

lemma split_at_nonempty [simp]: "split_at c xs \<noteq> []"
  by (cases xs) (auto split: list.split)

lemma split_at_sep: "c \<notin> set xs \<Longrightarrow> split_at c (xs @ c # ys) = xs # split_at c ys"
  by (induction xs) auto

lemma split_at_last: "c \<notin> set xs \<Longrightarrow> split_at c xs = [xs]"
  by (induction xs) auto

lemma path_elems_slashes [simp]: "path_elems (dropWhile (\<lambda>c. c = slash) path) = path_elems path"
  by (induction path) (auto simp: path_elems_def)

lemma path_elems_Nil [simp]: "path_elems [] = []"
  by (simp add: path_elems_def)

text \<open>A path that does not begin with a slash begins with its first element.\<close>

lemma path_elems_first:
  assumes "path \<noteq> []" and "hd path \<noteq> slash"
  shows "path_elems path = takeWhile (\<lambda>c. c \<noteq> slash) path # path_elems (dropWhile (\<lambda>c. c \<noteq> slash) path)"
proof -
  define e where "e = takeWhile (\<lambda>c. c \<noteq> slash) path"
  define r where "r = dropWhile (\<lambda>c. c \<noteq> slash) path"
  have er: "path = e @ r" by (simp add: e_def r_def)
  have e: "slash \<notin> set e" "e \<noteq> []"
    using assms by (auto simp: e_def dest: set_takeWhileD) (cases path, auto)
  show ?thesis
  proof (cases r)
    case Nil
    then have "split_at slash path = [e]" using er split_at_last [OF e(1)] by simp
    with e(2) Nil show ?thesis unfolding e_def [symmetric] r_def [symmetric] by (simp add: path_elems_def)
  next
    case (Cons c cs)
    have "\<not> hd r \<noteq> slash" unfolding r_def by (rule hd_dropWhile) (use Cons in \<open>simp add: r_def [symmetric]\<close>)
    with Cons have "c = slash" by simp
    have "split_at slash path = e # split_at slash cs"
      unfolding er Cons \<open>c = slash\<close> by (rule split_at_sep [OF e(1)])
    then show ?thesis
      unfolding e_def [symmetric] r_def [symmetric] using e(2) Cons \<open>c = slash\<close>
      by (simp add: path_elems_def)
  qed
qed

section \<open>One element\<close>

text \<open>The name field after an element has been copied into it.\<close>

definition put_name :: "byte list \<Rightarrow> (nat \<Rightarrow> byte) \<Rightarrow> nat \<Rightarrow> byte" where
  "put_name e name i =
     (if i < length e \<and> i < DIRSIZ then e ! i
      else if i = length e \<and> length e < DIRSIZ then 0 else name i)"

lemma skipelem_elems:
  "skipelem path name =
     (case path_elems path of [] \<Rightarrow> None
      | e # es \<Rightarrow> Some (dropWhile (\<lambda>c. c = slash) (dropWhile (\<lambda>c. c \<noteq> slash) (dropWhile (\<lambda>c. c = slash) path)), put_name e name))"
proof -
  define s where "s = dropWhile (\<lambda>c. c = slash) path"
  define e where "e = takeWhile (\<lambda>c. c \<noteq> slash) s"
  define r where "r = dropWhile (\<lambda>c. c \<noteq> slash) s"
  have es: "path_elems path = path_elems s" unfolding s_def by (rule path_elems_slashes [symmetric])
  show ?thesis
  proof (cases "s = []")
    case True
    with es show ?thesis unfolding skipelem_def Let_def s_def [symmetric] by simp
  next
    case False
    have "hd s \<noteq> slash" using hd_dropWhile [OF False [unfolded s_def]] by (simp add: s_def)
    from path_elems_first [OF False this] es have pe: "path_elems path = e # path_elems r"
      by (simp add: e_def r_def)
    have s: "s = e @ r" by (simp add: e_def r_def)
    then have len: "length s - length r = length e" by simp
    have nm: "(if DIRSIZ \<le> length e then copy_in (take DIRSIZ s) name
        else (copy_in (take (length e) s) name)(length e := 0)) = put_name e name"
      by (rule ext) (auto simp: put_name_def copy_in_def s nth_append)
    show ?thesis
      unfolding skipelem_def Let_def s_def [symmetric] r_def [symmetric] len nm pe using False by simp
  qed
qed

lemma skipelem_rest:
  assumes "skipelem path name = Some (path1, name1)"
  shows "\<exists>e. path_elems path = e # path_elems path1 \<and> name1 = put_name e name \<and> (path1 = [] \<longleftrightarrow> path_elems path1 = [])"
proof -
  define s where "s = dropWhile (\<lambda>c. c = slash) path"
  obtain e es where e: "path_elems path = e # es" "name1 = put_name e name"
    "path1 = dropWhile (\<lambda>c. c = slash) (dropWhile (\<lambda>c. c \<noteq> slash) s)"
    using assms by (auto simp: skipelem_elems s_def split: list.splits)
  have ne: "s \<noteq> []"
  proof
    assume "s = []"
    then have "path_elems path = []" using path_elems_slashes [of path] by (simp only: s_def [symmetric] path_elems_Nil)
    with e(1) show False by simp
  qed
  have "path_elems path = takeWhile (\<lambda>c. c \<noteq> slash) s # path_elems path1"
    using path_elems_first [OF ne] hd_dropWhile [OF ne [unfolded s_def]] path_elems_slashes [of path]
    by (simp add: e(3) s_def del: dropWhile_eq_Nil_conv)
  moreover have "path_elems path1 \<noteq> []" if "path1 \<noteq> []"
  proof -
    have "hd path1 \<noteq> slash" using that hd_dropWhile [of "\<lambda>c. c = slash"] unfolding e(3) by blast
    from path_elems_first [OF that this] show ?thesis by simp
  qed
  ultimately show ?thesis using e(1,2) by auto
qed

section \<open>The whole walk\<close>

fun namex_elems :: "byte list list \<Rightarrow> bool \<Rightarrow> (nat \<Rightarrow> byte) \<Rightarrow> nat \<Rightarrow> 'a kfs_scheme \<Rightarrow>
    ('a kfs_scheme, nat option \<times> (nat \<Rightarrow> byte)) run" where
  "namex_elems [] parent name ip s =
     (if parent then bindK (iput ip s) (\<lambda>_. Ret (None, name)) else Ret (Some ip, name) s)"
| "namex_elems (e # es) parent name ip s =
     bindK (ilock (Some ip) s) (\<lambda>_ s1.
     if i_type (ino s1 ip) \<noteq> T_DIR then bindK (iunlockput ip s1) (\<lambda>_. Ret (None, put_name e name))
     else if parent \<and> es = [] then doE (iunlock (Some ip) s1) (Ret (Some ip, put_name e name))
     else
       bindK (dirlookup ip (put_name e name) s1) (\<lambda>r s2.
       case r of
         None \<Rightarrow> bindK (iunlockput ip s2) (\<lambda>_. Ret (None, put_name e name))
       | Some (nx, off) \<Rightarrow> bindK (iunlockput ip s2) (\<lambda>_. namex_elems es parent (put_name e name) nx)))"

text \<open>
  Claim C10.  \<^verbatim>\<open>namex\<close> walks the elements of the path: on every path its loop does what the
  recursion over the list of elements does, which ends after the last of them; each element is looked up
  by its first 14 bytes, and the walk for the parent stops at the last element.
\<close>

theorem namex_walks_elements:
  fixes s :: "'a kfs_scheme"
  shows "namex_loop path parent name ip s = namex_elems (path_elems path) parent name ip s"
proof (induction "length path" arbitrary: path name ip s rule: less_induct)
  case less
  show ?case
  proof (cases "skipelem path name")
    case None
    then have "path_elems path = []" by (auto simp: skipelem_elems split: list.splits)
    with None show ?thesis by (subst namex_loop.simps) simp
  next
    case (Some q)
    obtain path1 name1 where q: "skipelem path name = Some (path1, name1)" using Some by (cases q) auto
    from skipelem_rest [OF this] obtain e where e: "path_elems path = e # path_elems path1"
      "name1 = put_name e name" "path1 = [] \<longleftrightarrow> path_elems path1 = []" by blast
    have IH: "namex_loop path1 parent name1 = (namex_elems (path_elems path1) parent name1 :: nat \<Rightarrow> 'a kfs_scheme \<Rightarrow> _)"
      by (intro ext) (rule less [OF skipelem_shorter [OF q]])
    show ?thesis
      by (subst namex_loop.simps) (simp add: q e(1,2) e(3) [symmetric] IH [unfolded e(2)] cong: if_cong option.case_cong)
  qed
qed

end
