(* ===== verification/File.thy ===== *)
theory File
  imports Fs
begin

text \<open>
  Open files (\<^verbatim>\<open>kernel/file.c\<close>, \<^verbatim>\<open>kernel/file.h\<close>) and the creation of pipes (\<^verbatim>\<open>pipealloc\<close> of
  \<^verbatim>\<open>kernel/pipe.c\<close>).  A file is an index of the file table; its buffer arguments are user
  addresses, reached through the page table in use.
\<close>

unbundle bit_operations_syntax

section \<open>State\<close>

datatype filetype = FD_NONE | FD_PIPE | FD_INODE

record openfile =
  f_type :: filetype
  f_ref :: int
  f_readable :: bool
  f_writable :: bool
  f_pipe :: nat
  f_ip :: nat
  f_off :: uint

record kfile = kfs +
  ftable :: "nat \<Rightarrow> openfile"

definition NFILE :: nat where "NFILE = 100"

abbreviation fl :: "'a kfile_scheme \<Rightarrow> nat \<Rightarrow> openfile" where
  "fl s f \<equiv> ftable s f"

definition file_upd :: "nat \<Rightarrow> (openfile \<Rightarrow> openfile) \<Rightarrow> 'a kfile_scheme \<Rightarrow> 'a kfile_scheme" where
  "file_upd f g s = s\<lparr>ftable := (ftable s)(f := g (fl s f))\<rparr>"

definition fileinit :: "'a kfile_scheme \<Rightarrow> 'a kfile_scheme" where
  "fileinit s = initlock FtableLk ''ftable'' s"

section \<open>Reference counts\<close>

definition filealloc :: "'a kfile_scheme \<Rightarrow> kerr + nat option \<times> 'a kfile_scheme" where
  "filealloc s =
     bindR (acquire FtableLk s) (\<lambda>s1.
     case find (\<lambda>f. f_ref (fl s1 f) = 0) [0..<NFILE] of
       Some f \<Rightarrow> bindR (release FtableLk (file_upd f (\<lambda>p. p\<lparr>f_ref := 1\<rparr>) s1)) (\<lambda>s2. Inr (Some f, s2))
     | None \<Rightarrow> bindR (release FtableLk s1) (\<lambda>s2. Inr (None, s2)))"

definition filedup :: "nat \<Rightarrow> 'a kfile_scheme \<Rightarrow> kerr + nat \<times> 'a kfile_scheme" where
  "filedup f s =
     bindR (acquire FtableLk s) (\<lambda>s1.
     if f_ref (fl s1 f) < 1 then Inl (Panic ''filedup'')
     else bindR (release FtableLk (file_upd f (\<lambda>p. p\<lparr>f_ref := f_ref p + 1\<rparr>) s1)) (\<lambda>s2. Inr (f, s2)))"

text \<open>The last close works on a copy \<open>ff\<close> of the file, its slot being free already.\<close>

definition fileclose :: "nat \<Rightarrow> 'a kfile_scheme \<Rightarrow> ('a kfile_scheme, unit) run" where
  "fileclose f s =
     doE (acquire FtableLk s) (\<lambda>s1.
     if f_ref (fl s1 f) < 1 then Err (Panic ''fileclose'')
     else
       let s2 = file_upd f (\<lambda>p. p\<lparr>f_ref := f_ref p - 1\<rparr>) s1 in
       if f_ref (fl s2 f) > 0 then doE (release FtableLk s2) (Ret ())
       else
         let ff = fl s2 f; s3 = file_upd f (\<lambda>p. p\<lparr>f_ref := 0, f_type := FD_NONE\<rparr>) s2 in
         doE (release FtableLk s3) (\<lambda>s4.
         case f_type ff of
           FD_PIPE \<Rightarrow> doE (pipeclose (f_pipe ff) (f_writable ff) s4) (Ret ())
         | FD_INODE \<Rightarrow> iput (f_ip ff) s4
         | FD_NONE \<Rightarrow> Ret () s4))"

section \<open>Metadata, reading and writing\<close>

text \<open>\<^verbatim>\<open>struct stat\<close> in the buffer of the caller, field by field as \<^verbatim>\<open>stati\<close> stores it.\<close>

definition vstore16 :: "uint \<Rightarrow> 16 word \<Rightarrow> 'a kphys_scheme \<Rightarrow> kerr + 'a kphys_scheme" where
  "vstore16 va w s = bindR (vstore8 va (ucast w) s) (vstore8 (va + 1) (ucast (drop_bit 8 w)))"

definition put_stat :: "uint \<Rightarrow> stat \<Rightarrow> 'a kphys_scheme \<Rightarrow> kerr + 'a kphys_scheme" where
  "put_stat va st s =
     bindR (vstore32 (va + 4) (st_dev st) s) (\<lambda>s1.
     bindR (vstore32 (va + 8) (st_ino st) s1) (\<lambda>s2.
     bindR (vstore16 va (st_type st) s2) (\<lambda>s3.
     bindR (vstore16 (va + 12) (st_nlink st) s3) (\<lambda>s4.
     vstore32 (va + 16) (st_size st) s4))))"

definition filestat :: "nat \<Rightarrow> uint \<Rightarrow> 'a kfile_scheme \<Rightarrow> ('a kfile_scheme, int) run" where
  "filestat f va s =
     (if f_type (fl s f) = FD_INODE then
        bindK (ilock (Some (f_ip (fl s f))) s) (\<lambda>_ s1.
        doE (put_stat va (stati (f_ip (fl s1 f)) s1) s1) (\<lambda>s2.
        doE (iunlock (Some (f_ip (fl s2 f))) s2) (Ret 0)))
      else Ret (-1) s)"

definition fileread :: "(nat \<Rightarrow> 'a kfile_ext kfs_scheme devsw) \<Rightarrow> nat \<Rightarrow> uint \<Rightarrow> int \<Rightarrow> 'a kfile_scheme \<Rightarrow>
    ('a kfile_scheme, int) run" where
  "fileread devs f addr n s =
     (if \<not> f_readable (fl s f) then Ret (-1) s
      else case f_type (fl s f) of
        FD_PIPE \<Rightarrow> piperead (f_pipe (fl s f)) addr n s
      | FD_INODE \<Rightarrow>
          bindK (ilock (Some (f_ip (fl s f))) s) (\<lambda>_ s1.
          bindK (readi devs (f_ip (fl s1 f)) (ToUser addr) (f_off (fl s1 f)) (of_int n) s1) (\<lambda>(r, bs) s2.
          let s3 = (if r > 0 then file_upd f (\<lambda>p. p\<lparr>f_off := f_off p + of_int r\<rparr>) s2 else s2) in
          doE (iunlock (Some (f_ip (fl s3 f))) s3) (Ret r)))
      | FD_NONE \<Rightarrow> Err (Panic ''fileread''))"

definition filewrite :: "(nat \<Rightarrow> 'a kfile_ext kfs_scheme devsw) \<Rightarrow> nat \<Rightarrow> uint \<Rightarrow> int \<Rightarrow> 'a kfile_scheme \<Rightarrow>
    ('a kfile_scheme, int) run" where
  "filewrite devs f addr n s =
     (if \<not> f_writable (fl s f) then Ret (-1) s
      else case f_type (fl s f) of
        FD_PIPE \<Rightarrow> pipewrite (f_pipe (fl s f)) addr n s
      | FD_INODE \<Rightarrow>
          bindK (ilock (Some (f_ip (fl s f))) s) (\<lambda>_ s1.
          bindK (writei devs (f_ip (fl s1 f)) (FromUser addr) (f_off (fl s1 f)) (of_int n) s1) (\<lambda>r s2.
          let s3 = (if r > 0 then file_upd f (\<lambda>p. p\<lparr>f_off := f_off p + of_int r\<rparr>) s2 else s2) in
          doE (iunlock (Some (f_ip (fl s3 f))) s3) (Ret r)))
      | FD_NONE \<Rightarrow> Err (Panic ''filewrite''))"

section \<open>Creating a pipe\<close>

text \<open>
  The label \<^verbatim>\<open>bad\<close> of \<^verbatim>\<open>pipealloc\<close>: it frees what has been had so far and fails.  The page of
  the pipe is had last, so there is none to free on the way there.
\<close>

definition close_if :: "nat option \<Rightarrow> 'a kfile_scheme \<Rightarrow> ('a kfile_scheme, unit) run" where
  "close_if fo s = (case fo of None \<Rightarrow> Ret () s | Some f \<Rightarrow> fileclose f s)"

definition pipealloc_bad :: "nat option \<Rightarrow> nat option \<Rightarrow> 'a kfile_scheme \<Rightarrow> ('a kfile_scheme, (nat \<times> nat) option) run" where
  "pipealloc_bad f0 f1 s = bindK (close_if f0 s) (\<lambda>_ s1. bindK (close_if f1 s1) (\<lambda>_. Ret None))"

definition pipealloc :: "'a kfile_scheme \<Rightarrow> ('a kfile_scheme, (nat \<times> nat) option) run" where
  "pipealloc s =
     doE (filealloc s) (\<lambda>(f0, s1).
     case f0 of None \<Rightarrow> pipealloc_bad None None s1 | Some a \<Rightarrow>
     doE (filealloc s1) (\<lambda>(f1, s2).
     case f1 of None \<Rightarrow> pipealloc_bad (Some a) None s2 | Some b \<Rightarrow>
     doE (kalloc s2) (\<lambda>(p, s3).
     if p = 0 then pipealloc_bad (Some a) (Some b) s3
     else
       let s4 = pipe_upd p (\<lambda>q. q\<lparr>readopen := True, writeopen := True, nwrite := 0, nread := 0\<rparr>) s3;
           s5 = initlock (PipeLk p) ''pipe'' s4;
           s6 = file_upd a (\<lambda>f. f\<lparr>f_type := FD_PIPE, f_readable := True, f_writable := False, f_pipe := p\<rparr>) s5;
           s7 = file_upd b (\<lambda>f. f\<lparr>f_type := FD_PIPE, f_readable := False, f_writable := True, f_pipe := p\<rparr>) s6
       in Ret (Some (a, b)) s7)))"

end
