(* ===== verification/Life.thy ===== *)
theory Life
  imports File
begin

text \<open>
  The birth and death of processes and threads (\<^verbatim>\<open>userinit\<close>, \<^verbatim>\<open>fork\<close>, \<^verbatim>\<open>clone\<close>, \<^verbatim>\<open>exit\<close> of
  \<^verbatim>\<open>kernel/proc.c\<close>), which share out and drop files and directories.
\<close>

unbundle bit_operations_syntax

section \<open>Trap frames and names\<close>

text \<open>Further field offsets of \<^verbatim>\<open>struct trapframe\<close>, and the selectors of user space.\<close>

definition TF_ES :: nat where "TF_ES = 40"
definition TF_DS :: nat where "TF_DS = 44"
definition TF_CS :: nat where "TF_CS = 60"
definition TF_EFLAGS :: nat where "TF_EFLAGS = 64"
definition TF_SS :: nat where "TF_SS = 72"
definition UCODE :: "16 word" where "UCODE = 0x23"
definition UDATA :: "16 word" where "UDATA = 0x2B"
definition FL_IF :: uint where "FL_IF = 0x200"

text \<open>A field of the trap frame of process \<open>i\<close>, on its kernel stack.\<close>

definition tf_get :: "nat \<Rightarrow> nat \<Rightarrow> 'a kproc_scheme \<Rightarrow> uint" where
  "tf_get i off s = load32 (ram (phys s)) (p_tf (pr s i) + off)"

definition tf_set :: "nat \<Rightarrow> nat \<Rightarrow> uint \<Rightarrow> 'a kproc_scheme \<Rightarrow> 'a kproc_scheme" where
  "tf_set i off w s = ram_upd (\<lambda>m. store32 m (p_tf (pr s i) + off) w) s"

definition tf_set16 :: "nat \<Rightarrow> nat \<Rightarrow> 16 word \<Rightarrow> 'a kproc_scheme \<Rightarrow> 'a kproc_scheme" where
  "tf_set16 i off w s = ram_upd (\<lambda>m. store16 m (p_tf (pr s i) + off) w) s"

text \<open>\<^verbatim>\<open>safestrcpy\<close> between two name fields of 16 bytes.\<close>

definition name_copy :: "(nat \<Rightarrow> byte) \<Rightarrow> (nat \<Rightarrow> byte) \<Rightarrow> nat \<Rightarrow> byte" where
  "name_copy to from i = snd (safestrcpy (\<lambda>a. if a < 16 then to a else from (a - 16)) 0 16 16) i"

text \<open>The bytes of a C string literal.\<close>

definition lit :: "string \<Rightarrow> nat \<Rightarrow> byte" where
  "lit str i = (if i < length str then of_char (str ! i) else 0)"

section \<open>The first process\<close>

text \<open>\<open>code\<close> and \<open>len\<close> are the linker's symbols for the program \<^verbatim>\<open>initcode\<close>.\<close>

definition userinit :: "nat \<Rightarrow> nat \<Rightarrow> 'a kfile_scheme \<Rightarrow> ('a kfile_scheme, unit) run" where
  "userinit code len s =
     doE (allocproc s) (\<lambda>(po, s1).
     doE (acquire PtableLk s1) (\<lambda>s2.
     let s3 = s2\<lparr>ptable := (ptable s2)\<lparr>initproc := po\<rparr>\<rparr> in
     case po of None \<Rightarrow> Err Fault | Some p \<Rightarrow>
     doE (setupkvm s3) (\<lambda>(d, s4).
     let s5 = upd_proc p (\<lambda>q. q\<lparr>p_pgdir := d\<rparr>) s4 in
     if d = 0 then Err (Panic ''userinit: out of memory?'')
     else
       doE (inituvm d code len s5) (\<lambda>s6.
       let s7 = upd_proc p (\<lambda>q. q\<lparr>p_sz := 4096\<rparr>) s6;
           s8 = ram_upd (\<lambda>m. snd (memset m (p_tf (pr s7 p)) 0 TF_SIZE)) s7;
           s9 = tf_set16 p TF_SS UDATA (tf_set16 p TF_ES UDATA (tf_set16 p TF_DS UDATA (tf_set16 p TF_CS UCODE s8)));
           s10 = tf_set p TF_EIP 0 (tf_set p TF_ESP 4096 (tf_set p TF_EFLAGS FL_IF s9));
           s11 = upd_proc p (\<lambda>q. q\<lparr>p_name := name_copy (p_name q) (lit ''initcode'')\<rparr>) s10
       in
       bindK (namei [slash] s11) (\<lambda>ipo s12.
       let s13 = upd_proc p (\<lambda>q. q\<lparr>p_cwd := ipo, p_state := RUNNABLE\<rparr>) s12 in
       doE (release PtableLk s13) (Ret ()))))))"

section \<open>Fork and clone\<close>

text \<open>The loop that shares the open files of \<open>cur\<close> with \<open>np\<close>, over the descriptors left.\<close>

fun dup_files :: "nat \<Rightarrow> nat \<Rightarrow> nat list \<Rightarrow> 'a kfile_scheme \<Rightarrow> kerr + 'a kfile_scheme" where
  "dup_files cur np [] s = Inr s"
| "dup_files cur np (i # is) s =
     (case p_ofile (pr s cur) i of
        None \<Rightarrow> dup_files cur np is s
      | Some f \<Rightarrow> bindR (filedup f s) (\<lambda>(g, s1).
          dup_files cur np is (upd_proc np (\<lambda>p. p\<lparr>p_ofile := (p_ofile p)(i := Some g)\<rparr>) s1)))"

text \<open>What \<^verbatim>\<open>fork\<close> and \<^verbatim>\<open>clone\<close> do last.\<close>

definition start_child :: "nat \<Rightarrow> nat \<Rightarrow> 'a kfile_scheme \<Rightarrow> kerr + int \<times> 'a kfile_scheme" where
  "start_child cur np s =
     bindR (dup_files cur np [0..<NOFILE] (tf_set np TF_EAX 0 s)) (\<lambda>s1.
     case p_cwd (pr s1 cur) of None \<Rightarrow> Inl Fault | Some d \<Rightarrow>
     bindR (idup d s1) (\<lambda>(d1, s2).
     let pid = p_pid (pr s2 np);
         s3 = upd_proc np (\<lambda>p. p\<lparr>p_cwd := Some d1, p_state := RUNNABLE,
           p_name := name_copy (p_name p) (p_name (pr s2 cur))\<rparr>) s2
     in Inr (pid, s3)))"

definition copy_tf :: "nat \<Rightarrow> nat \<Rightarrow> 'a kproc_scheme \<Rightarrow> 'a kproc_scheme" where
  "copy_tf cur np s = ram_upd (\<lambda>m. snd (memmove m (p_tf (pr s np)) (p_tf (pr s cur)) TF_SIZE)) s"

definition fork :: "'a kfile_scheme \<Rightarrow> kerr + int \<times> 'a kfile_scheme" where
  "fork s =
     bindR (allocproc s) (\<lambda>(npo, s1).
     case npo of None \<Rightarrow> Inr (-1, s1) | Some np \<Rightarrow>
     bindR (curproc s1) (\<lambda>cur.
     bindR (copyuvm (p_pgdir (pr s1 cur)) (p_sz (pr s1 cur)) s1) (\<lambda>(d, s2).
     let s3 = upd_proc np (\<lambda>p. p\<lparr>p_pgdir := d\<rparr>) s2 in
     if d = 0 then
       bindR (kfree (p_kstack (pr s3 np)) s3) (\<lambda>s4.
       Inr (-1, upd_proc np (\<lambda>p. p\<lparr>p_kstack := 0, p_state := UNUSED\<rparr>) s4))
     else
       let s4 = upd_proc np (\<lambda>p. p\<lparr>p_sz := p_sz (pr s3 cur), p_parent := Some cur\<rparr>) s3
       in start_child cur np (copy_tf cur np s4))))"

text \<open>The copy of a page of user memory, byte for byte, with \<open>n\<close> bytes left from \<open>i\<close> on.\<close>

fun copy_page :: "uint \<Rightarrow> uint \<Rightarrow> nat \<Rightarrow> nat \<Rightarrow> 'a kphys_scheme \<Rightarrow> kerr + 'a kphys_scheme" where
  "copy_page to from i 0 s = Inr s"
| "copy_page to from i (Suc n) s =
     bindR (vload8 s (from + of_nat i)) (\<lambda>b.
     bindR (vstore8 (to + of_nat i) b s) (copy_page to from (Suc i) n))"

definition clone :: "uint \<Rightarrow> 'a kfile_scheme \<Rightarrow> kerr + int \<times> 'a kfile_scheme" where
  "clone stack s =
     bindR (allocproc s) (\<lambda>(npo, s1).
     case npo of None \<Rightarrow> Inr (-1, s1) | Some np \<Rightarrow>
     bindR (curproc s1) (\<lambda>cur.
     let s2 = upd_proc np (\<lambda>p. p\<lparr>p_pgdir := p_pgdir (pr s1 cur), p_sz := p_sz (pr s1 cur),
           p_parent := Some cur\<rparr>) s1;
         s3 = copy_tf cur np s2;
         esp_offset = tf_get cur TF_ESP s3 AND 0xFFF;
         ebp_offset = tf_get cur TF_EBP s3 AND 0xFFF;
         s4 = tf_set np TF_EBP (stack OR ebp_offset) (tf_set np TF_ESP (stack OR esp_offset) s3);
         s5 = upd_proc np (\<lambda>p. p\<lparr>p_mem_lock_ptr := MemLk cur\<rparr>) s4
     in
     bindR (copy_page stack (tf_get cur TF_EBP s5 AND 0xFFFFF000) 0 PGSIZE s5) (start_child cur np)))"

section \<open>Exit\<close>

fun close_files :: "nat \<Rightarrow> nat list \<Rightarrow> 'a kfile_scheme \<Rightarrow> ('a kfile_scheme, unit) run" where
  "close_files cur [] s = Ret () s"
| "close_files cur (fd # fds) s =
     (case p_ofile (pr s cur) fd of
        None \<Rightarrow> close_files cur fds s
      | Some f \<Rightarrow> bindK (fileclose f s) (\<lambda>_ s1.
          close_files cur fds (upd_proc cur (\<lambda>p. p\<lparr>p_ofile := (p_ofile p)(fd := None)\<rparr>) s1)))"

text \<open>\<^verbatim>\<open>wakeup1\<close> of a process pointer, which may be null; nobody sleeps on null.\<close>

definition wakeup_proc :: "nat option \<Rightarrow> 'a kproc_scheme \<Rightarrow> 'a kproc_scheme" where
  "wakeup_proc po s = (case po of None \<Rightarrow> s | Some p \<Rightarrow> wakeup1 (ChProc p) s)"

text \<open>The loop that passes the children of \<open>cur\<close> to init, over the slots left.\<close>

fun pass_children :: "nat \<Rightarrow> nat list \<Rightarrow> 'a kproc_scheme \<Rightarrow> 'a kproc_scheme" where
  "pass_children cur [] s = s"
| "pass_children cur (i # is) s =
     (if p_parent (pr s i) = Some cur then
        let s1 = upd_proc i (\<lambda>p. p\<lparr>p_parent := initproc (ptable s)\<rparr>) s
        in pass_children cur is (if p_state (pr s1 i) = ZOMBIE then wakeup_proc (initproc (ptable s1)) s1 else s1)
      else pass_children cur is s)"

text \<open>\<^verbatim>\<open>exit\<close> does not return; a resumption of its last switch panics.\<close>

definition exit :: "'a kfile_scheme \<Rightarrow> ('a kfile_scheme, 'b) run" where
  "exit s =
     doE (curproc s) (\<lambda>cur.
     if Some cur = initproc (ptable s) then Err (Panic ''init exiting'')
     else
       bindK (close_files cur [0..<NOFILE] s) (\<lambda>_ s1.
       case p_cwd (pr s1 cur) of None \<Rightarrow> Err Fault | Some d \<Rightarrow>
       bindK (iput d s1) (\<lambda>_ s2.
       let s3 = upd_proc cur (\<lambda>p. p\<lparr>p_cwd := None\<rparr>) s2 in
       doE (acquire PtableLk s3) (\<lambda>s4.
       let s5 = wakeup_proc (p_parent (pr s4 cur)) s4;
           s6 = pass_children cur [0..<NPROC] s5;
           s7 = upd_proc cur (\<lambda>p. p\<lparr>p_state := ZOMBIE\<rparr>) s6
       in bindK (sched s7) (\<lambda>_ _. Err (Panic ''zombie exit''))))))"

end
