(* ===== verification/Syscall.thy ===== *)
theory Syscall
  imports Life
begin

text \<open>
  The arguments of system calls (\<^verbatim>\<open>kernel/syscall.c\<close>) and the calls on processes
  (\<^verbatim>\<open>kernel/sysproc.c\<close>).  A failed fetch, -1 in the code, is \<open>None\<close>.
\<close>

unbundle bit_operations_syntax

section \<open>State\<close>

record ksys = kfile +
  ticks :: uint

section \<open>Fetching arguments\<close>

definition fetchint :: "nat \<Rightarrow> uint \<Rightarrow> 'a kproc_scheme \<Rightarrow> kerr + uint option" where
  "fetchint p addr s =
     (if p_sz (pr s p) \<le> addr \<or> p_sz (pr s p) < addr + 4 then Inr None
      else bindR (vload32 s addr) (\<lambda>w. Inr (Some w)))"

text \<open>
  The scan of \<^verbatim>\<open>fetchstr\<close>, with \<open>n\<close> bytes left of the process at \<open>a\<close>.  The result is the string
  itself, whose length the code returns.
\<close>

fun fetchstr_loop :: "nat \<Rightarrow> uint \<Rightarrow> byte list \<Rightarrow> 'a kphys_scheme \<Rightarrow> kerr + byte list option" where
  "fetchstr_loop 0 a acc s = Inr None"
| "fetchstr_loop (Suc n) a acc s =
     bindR (vload8 s a) (\<lambda>c. if c = 0 then Inr (Some acc) else fetchstr_loop n (a + 1) (acc @ [c]) s)"

definition fetchstr :: "nat \<Rightarrow> uint \<Rightarrow> 'a kproc_scheme \<Rightarrow> kerr + byte list option" where
  "fetchstr p addr s =
     (if p_sz (pr s p) \<le> addr then Inr None
      else fetchstr_loop (unat (p_sz (pr s p)) - unat addr) addr [] s)"

definition argint :: "nat \<Rightarrow> 'a kproc_scheme \<Rightarrow> kerr + uint option" where
  "argint n s = bindR (curproc s) (\<lambda>cur. fetchint cur (tf_get cur TF_ESP s + 4 + 4 * of_nat n) s)"

definition argptr :: "nat \<Rightarrow> int \<Rightarrow> 'a kproc_scheme \<Rightarrow> kerr + uint option" where
  "argptr n sz s =
     bindR (argint n s) (\<lambda>r. case r of None \<Rightarrow> Inr None | Some i \<Rightarrow>
     bindR (curproc s) (\<lambda>cur.
     if p_sz (pr s cur) \<le> i \<or> p_sz (pr s cur) < i + of_int sz then Inr None else Inr (Some i)))"

definition argstr :: "nat \<Rightarrow> 'a kproc_scheme \<Rightarrow> kerr + byte list option" where
  "argstr n s =
     bindR (argint n s) (\<lambda>r. case r of None \<Rightarrow> Inr None | Some addr \<Rightarrow>
     bindR (curproc s) (\<lambda>cur. fetchstr cur addr s))"

text \<open>A handler that fails with -1 without an argument, and goes on with it otherwise.\<close>

definition with_arg :: "kerr + 'x option \<Rightarrow> ('x \<Rightarrow> 's \<Rightarrow> ('s, int) run) \<Rightarrow> 's \<Rightarrow> ('s, int) run" where
  "with_arg m f s = doE m (\<lambda>r. case r of None \<Rightarrow> Ret (-1) s | Some x \<Rightarrow> f x s)"

text \<open>A routine that does not switch, as a handler.\<close>

definition ret_int :: "kerr + int \<times> 's \<Rightarrow> ('s, int) run" where
  "ret_int m = doE m (\<lambda>(r, s). Ret r s)"

section \<open>Calls on processes\<close>

definition sys_fork :: "'a ksys_scheme \<Rightarrow> ('a ksys_scheme, int) run" where
  "sys_fork s = ret_int (fork s)"

definition sys_clone :: "'a ksys_scheme \<Rightarrow> ('a ksys_scheme, int) run" where
  "sys_clone s = with_arg (argptr 0 4 s) (\<lambda>p s. ret_int (clone p s)) s"

definition sys_lock :: "'a ksys_scheme \<Rightarrow> ('a ksys_scheme, int) run" where
  "sys_lock s = with_arg (argptr 0 4 s) lock s"

definition sys_unlock :: "'a ksys_scheme \<Rightarrow> ('a ksys_scheme, int) run" where
  "sys_unlock s = with_arg (argptr 0 4 s) (\<lambda>p s. ret_int (unlock p s)) s"

definition sys_join :: "'a ksys_scheme \<Rightarrow> ('a ksys_scheme, int) run" where
  "sys_join s = join s"

definition sys_exit :: "'a ksys_scheme \<Rightarrow> ('a ksys_scheme, int) run" where
  "sys_exit s = bindK (exit s) (\<lambda>(_ :: unit). Ret 0)"

definition sys_wait :: "'a ksys_scheme \<Rightarrow> ('a ksys_scheme, int) run" where
  "sys_wait s = wait s"

definition sys_orphanage :: "'a ksys_scheme \<Rightarrow> ('a ksys_scheme, int) run" where
  "sys_orphanage s = with_arg (argint 0 s) (\<lambda>n s. ret_int (orphanage (sint n) s)) s"

definition sys_kill :: "'a ksys_scheme \<Rightarrow> ('a ksys_scheme, int) run" where
  "sys_kill s = with_arg (argint 0 s) (\<lambda>pid s. ret_int (kill (sint pid) s)) s"

definition sys_getpid :: "'a ksys_scheme \<Rightarrow> ('a ksys_scheme, int) run" where
  "sys_getpid s = doE (curproc s) (\<lambda>cur. Ret (p_pid (pr s cur)) s)"

definition sys_sbrk :: "'a ksys_scheme \<Rightarrow> ('a ksys_scheme, int) run" where
  "sys_sbrk s =
     with_arg (argint 0 s) (\<lambda>n s.
     doE (curproc s) (\<lambda>cur.
     doE (acquire (p_mem_lock_ptr (pr s cur)) s) (\<lambda>s1.
     let addr = sint (p_sz (pr s1 cur)) in
     doE (growproc (sint n) s1) (\<lambda>(r, s2).
     doE (release (p_mem_lock_ptr (pr s2 cur)) s2)
       (Ret (if r < 0 then -1 else addr)))))) s"

text \<open>The loop of \<^verbatim>\<open>sys_sleep\<close>; \<open>n\<close> is compared as unsigned.\<close>

definition sleep_body :: "uint \<Rightarrow> uint \<Rightarrow> 'a ksys_scheme \<Rightarrow> ('a ksys_scheme, int) turn" where
  "sleep_body ticks0 n s =
     (if ticks s - ticks0 < n then
        (case am_killed s of
           Inl e \<Rightarrow> Leave (Err e)
         | Inr k \<Rightarrow> if k then Leave (doE (release TicksLk s) (Ret (-1))) else nap ChTicks TicksLk s)
      else Leave (doE (release TicksLk s) (Ret 0)))"

definition sys_sleep :: "'a ksys_scheme \<Rightarrow> ('a ksys_scheme, int) run" where
  "sys_sleep s =
     with_arg (argint 0 s) (\<lambda>n s.
     doE (acquire TicksLk s) (\<lambda>s1. loopK (sleep_body (ticks s1) n) s1)) s"

definition sys_uptime :: "'a ksys_scheme \<Rightarrow> ('a ksys_scheme, int) run" where
  "sys_uptime s = doE (acquire TicksLk s) (\<lambda>s1. doE (release TicksLk s1) (Ret (sint (ticks s1))))"

end
