(* ===== verification/Exec.thy ===== *)
theory Exec
  imports Syscall
begin

text \<open>
  Loading a program (\<^verbatim>\<open>kernel/exec.c\<close>, \<^verbatim>\<open>loaduvm\<close> and \<^verbatim>\<open>copyout\<close> of \<^verbatim>\<open>kernel/vm.c\<close>,
  \<^verbatim>\<open>kernel/elf.h\<close>).  The path and the arguments are the byte lists the system call has fetched.
\<close>

unbundle bit_operations_syntax

section \<open>The environment of the kernel\<close>

text \<open>
  The device table, and the values of the two local variables that the code may use without
  having set them: the ELF header in \<^verbatim>\<open>exec\<close> and \<^verbatim>\<open>rc\<close> in \<^verbatim>\<open>fdalloc\<close>.
\<close>

record 's env =
  e_devs :: "nat \<Rightarrow> 's devsw"
  e_elf :: "byte list"
  e_rc :: int

section \<open>Filling an address space\<close>

function loaduvm_loop :: "(nat \<Rightarrow> 'a kfs_scheme devsw) \<Rightarrow> nat \<Rightarrow> uint \<Rightarrow> nat \<Rightarrow> uint \<Rightarrow> nat \<Rightarrow> nat \<Rightarrow>
    'a kfs_scheme \<Rightarrow> ('a kfs_scheme, int) run" where
  "loaduvm_loop devs pgdir addr ip offset sz i s =
     (if i < sz then
        doE (walkpgdir pgdir (addr + of_nat i) False s) (\<lambda>(pte, s1).
        if pte = 0 then Err (Panic ''loaduvm: address should exist'')
        else
          let pa = unat (PTE_ADDR (rd s1 pte)); n = (if sz - i < PGSIZE then sz - i else PGSIZE) in
          bindK (readi devs ip (ToPhys pa) (offset + of_nat i) (of_nat n) s1) (\<lambda>(r, bs) s2.
          if r \<noteq> int n then Ret (-1) s2
          else loaduvm_loop devs pgdir addr ip offset sz (i + PGSIZE) s2))
      else Ret 0 s)"
  by pat_completeness auto
termination
  by (relation "measure (\<lambda>(devs, pgdir, addr, ip, offset, sz, i, s). sz - i)") (auto simp: PGSIZE_def)

declare loaduvm_loop.simps [simp del]

definition loaduvm :: "(nat \<Rightarrow> 'a kfs_scheme devsw) \<Rightarrow> nat \<Rightarrow> uint \<Rightarrow> nat \<Rightarrow> uint \<Rightarrow> uint \<Rightarrow>
    'a kfs_scheme \<Rightarrow> ('a kfs_scheme, int) run" where
  "loaduvm devs pgdir addr ip offset sz s =
     (if unat addr mod PGSIZE \<noteq> 0 then Err (Panic ''loaduvm: addr must be page aligned'')
      else loaduvm_loop devs pgdir addr ip offset (unat sz) 0 s)"

text \<open>\<^verbatim>\<open>copyout\<close> from a buffer that is not in a page of its own: the bytes still to copy are \<open>bs\<close>.\<close>

function copyout_bytes :: "nat \<Rightarrow> uint \<Rightarrow> byte list \<Rightarrow> 'a kphys_scheme \<Rightarrow> kerr + int \<times> 'a kphys_scheme" where
  "copyout_bytes pgdir va bs s =
     (if 0 < length bs then
        let va0 = PGROUNDDOWN va in
        bindR (uva2ka pgdir va0 s) (\<lambda>(pa0, s1).
        if pa0 = 0 then Inr (-1, s1)
        else
          let n0 = PGSIZE - unat (va - va0); n = (if n0 > length bs then length bs else n0) in
          bindR (copy_to (ToPhys pa0) (unat (va - va0)) (take n bs) s1) (\<lambda>s2.
          copyout_bytes pgdir (va0 + 4096) (drop n bs) s2))
      else Inr (0, s))"
  by pat_completeness auto
termination
  by (relation "measure (\<lambda>(pgdir, va, bs, s). length bs)") (auto simp: page_offset PGSIZE_def)

declare copyout_bytes.simps [simp del]

section \<open>Program files\<close>

definition ELF_MAGIC :: uint where "ELF_MAGIC = 0x464C457F"
definition ELF_PROG_LOAD :: uint where "ELF_PROG_LOAD = 1"
definition MAXARG :: nat where "MAXARG = 32"

text \<open>Sizes and field offsets of \<^verbatim>\<open>struct elfhdr\<close> and \<^verbatim>\<open>struct proghdr\<close>.\<close>

definition ELFHDR :: nat where "ELFHDR = 52"
definition PROGHDR :: nat where "PROGHDR = 32"
definition elf_entry :: "bmem \<Rightarrow> uint" where "elf_entry m = load32 m 24"
definition elf_phoff :: "bmem \<Rightarrow> uint" where "elf_phoff m = load32 m 28"
definition elf_phnum :: "bmem \<Rightarrow> 16 word" where "elf_phnum m = load16 m 44"
definition ph_type :: "bmem \<Rightarrow> uint" where "ph_type m = load32 m 0"
definition ph_offset :: "bmem \<Rightarrow> uint" where "ph_offset m = load32 m 4"
definition ph_va :: "bmem \<Rightarrow> uint" where "ph_va m = load32 m 8"
definition ph_filesz :: "bmem \<Rightarrow> uint" where "ph_filesz m = load32 m 16"
definition ph_memsz :: "bmem \<Rightarrow> uint" where "ph_memsz m = load32 m 20"

text \<open>The loop over the program headers, with \<open>n\<close> of them left at \<open>off\<close>; \<open>None\<close> is \<^verbatim>\<open>goto bad\<close>.\<close>

fun load_segments :: "(nat \<Rightarrow> 'a kfs_scheme devsw) \<Rightarrow> nat \<Rightarrow> nat \<Rightarrow> nat \<Rightarrow> uint \<Rightarrow> uint \<Rightarrow>
    'a kfs_scheme \<Rightarrow> ('a kfs_scheme, uint option) run" where
  "load_segments devs d ip 0 off sz s = Ret (Some sz) s"
| "load_segments devs d ip (Suc n) off sz s =
     bindK (readi devs ip ToLocal off (of_nat PROGHDR) s) (\<lambda>(r, bs) s1.
     if r \<noteq> int PROGHDR then Ret None s1
     else
       let ph = (\<lambda>i. bs ! i) in
       if ph_type ph \<noteq> ELF_PROG_LOAD then load_segments devs d ip n (off + of_nat PROGHDR) sz s1
       else if ph_memsz ph < ph_filesz ph then Ret None s1
       else
         doE (allocuvm d sz (ph_va ph + ph_memsz ph) s1) (\<lambda>(sz1, s2).
         if sz1 = 0 then Ret None s2
         else
           bindK (loaduvm devs d (ph_va ph) ip (ph_offset ph) (ph_filesz ph) s2) (\<lambda>rc s3.
           if rc < 0 then Ret None s3
           else load_segments devs d ip n (off + of_nat PROGHDR) sz1 s3)))"

text \<open>
  The argument strings, pushed from \<open>sp\<close> down; \<open>ptrs\<close> are the entries of \<^verbatim>\<open>ustack\<close> from
  the third on.
\<close>

fun push_args :: "nat \<Rightarrow> uint \<Rightarrow> byte list list \<Rightarrow> uint list \<Rightarrow> 'a kphys_scheme \<Rightarrow>
    kerr + (uint \<times> uint list) option \<times> 'a kphys_scheme" where
  "push_args d sp [] ptrs s = Inr (Some (sp, ptrs), s)"
| "push_args d sp (arg # args) ptrs s =
     (if MAXARG \<le> length ptrs then Inr (None, s)
      else
        let sp1 = (sp - of_nat (length arg + 1)) AND NOT 3 in
        bindR (copyout_bytes d sp1 (arg @ [0]) s) (\<lambda>(rc, s1).
        if rc < 0 then Inr (None, s1) else push_args d sp1 args (ptrs @ [sp1]) s1))"

definition word_bytes :: "uint \<Rightarrow> byte list" where
  "word_bytes w = map (\<lambda>i. store32 (\<lambda>_. 0) 0 w i) [0..<4]"

text \<open>The last element of a path, from which the process takes its name.\<close>

fun last_elem :: "byte list \<Rightarrow> byte list \<Rightarrow> byte list" where
  "last_elem [] l = l"
| "last_elem (c # cs) l = last_elem cs (if c = slash then cs else l)"

text \<open>The label \<^verbatim>\<open>bad\<close>.\<close>

definition exec_bad :: "nat \<Rightarrow> nat option \<Rightarrow> 'a kfile_scheme \<Rightarrow> ('a kfile_scheme, int) run" where
  "exec_bad d ipo s =
     doE (if d \<noteq> 0 then freevm d s else Inr s) (\<lambda>s1.
     case ipo of None \<Rightarrow> Ret (-1) s1 | Some ip \<Rightarrow> bindK (iunlockput ip s1) (\<lambda>_. Ret (-1)))"

text \<open>The end of \<^verbatim>\<open>exec\<close>: the process takes over the new image.\<close>

definition exec_commit :: "nat \<Rightarrow> uint \<Rightarrow> uint \<Rightarrow> uint \<Rightarrow> byte list \<Rightarrow> 'a kfile_scheme \<Rightarrow> kerr + 'a kfile_scheme" where
  "exec_commit d sz sp start path s =
     bindR (curproc s) (\<lambda>cur.
     let s1 = upd_proc cur (\<lambda>p. p\<lparr>p_name := name_copy (p_name p) (copy_in (last_elem path path) (\<lambda>_. 0))\<rparr>) s;
         oldpgdir = p_pgdir (pr s1 cur);
         s2 = upd_proc cur (\<lambda>p. p\<lparr>p_pgdir := d, p_sz := sz\<rparr>) s1;
         s3 = tf_set cur TF_ESP sp (tf_set cur TF_EIP start s2)
     in bindR (switchuvm cur s3) (freevm oldpgdir))"

definition exec :: "'a kfile_scheme env \<Rightarrow> byte list \<Rightarrow> byte list list \<Rightarrow> 'a kfile_scheme \<Rightarrow>
    ('a kfile_scheme, int) run" where
  "exec env path argv s =
     bindK (namei path s) (\<lambda>ipo s1.
     case ipo of None \<Rightarrow> Ret (-1) s1 | Some ip \<Rightarrow>
     bindK (ilock (Some ip) s1) (\<lambda>_ s2.
     bindK (readi (e_devs env) ip ToLocal 0 (of_nat ELFHDR) s2) (\<lambda>(r, bs) s3.
     let elf = (\<lambda>i. (bs @ drop (length bs) (e_elf env)) ! i) in
     if of_int r < (of_nat ELFHDR :: uint) then exec_bad 0 (Some ip) s3
     else if load32 elf 0 \<noteq> ELF_MAGIC then exec_bad 0 (Some ip) s3
     else
       doE (setupkvm s3) (\<lambda>(d, s4).
       if d = 0 then exec_bad 0 (Some ip) s4
       else
         bindK (load_segments (e_devs env) d ip (unat (elf_phnum elf)) (elf_phoff elf) 0 s4) (\<lambda>szo s5.
         case szo of None \<Rightarrow> exec_bad d (Some ip) s5 | Some sz \<Rightarrow>
         bindK (iunlockput ip s5) (\<lambda>_ s6.
         doE (allocuvm d (PGROUNDUP sz) (PGROUNDUP sz + 4096) s6) (\<lambda>(sz1, s7).
         if sz1 = 0 then exec_bad d None s7
         else
           doE (push_args d sz1 argv [] s7) (\<lambda>(ro, s8).
           case ro of None \<Rightarrow> exec_bad d None s8 | Some (sp, ptrs) \<Rightarrow>
           let argc = of_nat (length ptrs);
               ustack = [0xFFFFFFFF, argc, sp - (argc + 1) * 4] @ ptrs @ [0];
               sp1 = sp - (3 + argc + 1) * 4
           in
           doE (copyout_bytes d sp1 (concat (map word_bytes ustack)) s8) (\<lambda>(rc, s9).
           if rc < 0 then exec_bad d None s9
           else doE (exec_commit d sz1 sp1 (elf_entry elf) path s9) (Ret 0))))))))))"

end
