(* ===== verification/Sysfile.thy ===== *)
theory Sysfile
  imports Exec Fcntl
begin

text \<open>
  The system calls on files (\<^verbatim>\<open>kernel/sysfile.c\<close>), the dispatch of system calls
  (\<^verbatim>\<open>syscall\<close> of \<^verbatim>\<open>kernel/syscall.c\<close>) and of traps (\<^verbatim>\<open>trap\<close> of \<^verbatim>\<open>kernel/trap.c\<close>).
\<close>

unbundle bit_operations_syntax

section \<open>File descriptors\<close>

definition argfd :: "nat \<Rightarrow> 'a kfile_scheme \<Rightarrow> kerr + (nat \<times> nat) option" where
  "argfd n s =
     bindR (argint n s) (\<lambda>r. case r of None \<Rightarrow> Inr None | Some w \<Rightarrow>
     bindR (curproc s) (\<lambda>cur.
     let fd = sint w in
     if fd < 0 \<or> int NOFILE \<le> fd then Inr None
     else case p_ofile (pr s cur) (nat fd) of None \<Rightarrow> Inr None | Some f \<Rightarrow> Inr (Some (nat fd, f))))"

text \<open>
  \<^verbatim>\<open>fdalloc\<close>: the process that owns the lock of its address space takes its own first free
  descriptor.  A thread gives the file to every process of its address space, each under its own first
  free descriptor, and returns the last one; \<open>rc\<close> is the value to return so far.
\<close>

definition free_fd :: "nat \<Rightarrow> 'a kproc_scheme \<Rightarrow> nat option" where
  "free_fd p s = find (\<lambda>fd. p_ofile (pr s p) fd = None) [0..<NOFILE]"

definition set_fd :: "nat \<Rightarrow> nat \<Rightarrow> nat option \<Rightarrow> 'a kproc_scheme \<Rightarrow> 'a kproc_scheme" where
  "set_fd p fd fo = upd_proc p (\<lambda>q. q\<lparr>p_ofile := (p_ofile q)(fd := fo)\<rparr>)"

fun fdalloc_threads :: "nat \<Rightarrow> nat \<Rightarrow> nat list \<Rightarrow> int \<Rightarrow> 'a kfile_scheme \<Rightarrow> int \<times> 'a kfile_scheme" where
  "fdalloc_threads cur f [] rc s = (rc, s)"
| "fdalloc_threads cur f (p # ps) rc s =
     (if p_pgdir (pr s p) = p_pgdir (pr s cur) then
        case free_fd p s of
          None \<Rightarrow> fdalloc_threads cur f ps rc s
        | Some fd \<Rightarrow>
            let s1 = set_fd p fd (Some f) s;
                s2 = (if p \<noteq> cur then file_upd f (\<lambda>q. q\<lparr>f_ref := f_ref q + 1\<rparr>) s1 else s1)
            in fdalloc_threads cur f ps (int fd) s2
      else fdalloc_threads cur f ps rc s)"

definition fdalloc :: "'a kfile_scheme env \<Rightarrow> nat \<Rightarrow> 'a kfile_scheme \<Rightarrow> kerr + int \<times> 'a kfile_scheme" where
  "fdalloc env f s =
     bindR (curproc s) (\<lambda>cur.
     if p_mem_lock_ptr (pr s cur) = MemLk cur then
       (case free_fd cur s of
          Some fd \<Rightarrow> Inr (int fd, set_fd cur fd (Some f) s)
        | None \<Rightarrow> Inr (-1, s))
     else Inr (fdalloc_threads cur f [0..<NPROC] (e_rc env) s))"

definition sys_dup :: "'a ksys_scheme env \<Rightarrow> 'a ksys_scheme \<Rightarrow> ('a ksys_scheme, int) run" where
  "sys_dup env s =
     with_arg (argfd 0 s) (\<lambda>(_, f) s.
     doE (fdalloc env f s) (\<lambda>(fd, s1).
     if fd < 0 then Ret (-1) s1
     else doE (filedup f s1) (\<lambda>(_, s2). Ret fd s2))) s"

definition sys_read :: "'a ksys_scheme env \<Rightarrow> 'a ksys_scheme \<Rightarrow> ('a ksys_scheme, int) run" where
  "sys_read env s =
     with_arg (argfd 0 s) (\<lambda>(_, f) s.
     with_arg (argint 2 s) (\<lambda>n s.
     with_arg (argptr 1 (sint n) s) (\<lambda>p s. fileread (e_devs env) f p (sint n) s) s) s) s"

definition sys_write :: "'a ksys_scheme env \<Rightarrow> 'a ksys_scheme \<Rightarrow> ('a ksys_scheme, int) run" where
  "sys_write env s =
     with_arg (argfd 0 s) (\<lambda>(_, f) s.
     with_arg (argint 2 s) (\<lambda>n s.
     with_arg (argptr 1 (sint n) s) (\<lambda>p s. filewrite (e_devs env) f p (sint n) s) s) s) s"

definition sys_close :: "'a ksys_scheme \<Rightarrow> ('a ksys_scheme, int) run" where
  "sys_close s =
     with_arg (argfd 0 s) (\<lambda>(fd, f) s.
     doE (curproc s) (\<lambda>cur.
     bindK (fileclose f (set_fd cur fd None s)) (\<lambda>_. Ret 0))) s"

definition sys_fstat :: "'a ksys_scheme \<Rightarrow> ('a ksys_scheme, int) run" where
  "sys_fstat s =
     with_arg (argfd 0 s) (\<lambda>(_, f) s.
     with_arg (argptr 1 20 s) (\<lambda>st s. filestat f st s) s) s"

section \<open>Links\<close>

definition add_nlink :: "nat \<Rightarrow> 16 word \<Rightarrow> 'a kfs_scheme \<Rightarrow> 'a kfs_scheme" where
  "add_nlink ip d = ino_upd ip (\<lambda>p. p\<lparr>i_nlink := i_nlink p + d\<rparr>)"

text \<open>The label \<^verbatim>\<open>bad\<close> of \<^verbatim>\<open>sys_link\<close> takes the new link count back.\<close>

definition link_bad :: "nat \<Rightarrow> 'a kfs_scheme \<Rightarrow> ('a kfs_scheme, int) run" where
  "link_bad ip s =
     bindK (ilock (Some ip) s) (\<lambda>_ s1.
     bindK (iupdate ip (add_nlink ip (-1) s1)) (\<lambda>_ s2.
     bindK (iunlockput ip s2) (\<lambda>_. Ret (-1))))"

definition sys_link :: "'a ksys_scheme env \<Rightarrow> 'a ksys_scheme \<Rightarrow> ('a ksys_scheme, int) run" where
  "sys_link env s =
     with_arg (argstr 0 s) (\<lambda>old s.
     with_arg (argstr 1 s) (\<lambda>new s.
     bindK (namei old s) (\<lambda>ipo s1.
     case ipo of None \<Rightarrow> Ret (-1) s1 | Some ip \<Rightarrow>
     bindK (ilock (Some ip) s1) (\<lambda>_ s2.
     if i_type (ino s2 ip) = T_DIR then bindK (iunlockput ip s2) (\<lambda>_. Ret (-1))
     else
       bindK (iupdate ip (add_nlink ip 1 s2)) (\<lambda>_ s3.
       doE (iunlock (Some ip) s3) (\<lambda>s4.
       bindK (nameiparent new (\<lambda>_. 0) s4) (\<lambda>(dpo, name) s5.
       case dpo of None \<Rightarrow> link_bad ip s5 | Some dp \<Rightarrow>
       bindK (ilock (Some dp) s5) (\<lambda>_ s6.
       bindK (if i_dev (ino s6 dp) \<noteq> i_dev (ino s6 ip) then Ret (-1) s6
              else dirlink (e_devs env) dp name (i_inum (ino s6 ip)) s6) (\<lambda>rc s7.
       if rc < 0 then bindK (iunlockput dp s7) (\<lambda>_. link_bad ip)
       else
         bindK (iunlockput dp s7) (\<lambda>_ s8.
         bindK (iput ip s8) (\<lambda>_. Ret 0)))))))))) s) s"

text \<open>\<^verbatim>\<open>isdirempty\<close> from \<open>off\<close> on; a directory has at most \<open>MAXFILE\<close> blocks of entries.\<close>

fun isdirempty_loop :: "(nat \<Rightarrow> 'a kfs_scheme devsw) \<Rightarrow> nat \<Rightarrow> nat \<Rightarrow> uint \<Rightarrow> 'a kfs_scheme \<Rightarrow>
    ('a kfs_scheme, bool) run" where
  "isdirempty_loop devs k dp off s =
     (if off < i_size (ino s dp) then
        case k of 0 \<Rightarrow> Err Loops | Suc k1 \<Rightarrow>
        bindK (readi devs dp ToLocal off (of_nat DIRENT) s) (\<lambda>(r, bs) s1.
        if r \<noteq> int DIRENT then Err (Panic ''isdirempty: readi'')
        else if de_inum (\<lambda>i. bs ! i) 0 \<noteq> 0 then Ret False s1
        else isdirempty_loop devs k1 dp (off + of_nat DIRENT) s1)
      else Ret True s)"

declare isdirempty_loop.simps [simp del]

definition isdirempty :: "(nat \<Rightarrow> 'a kfs_scheme devsw) \<Rightarrow> nat \<Rightarrow> 'a kfs_scheme \<Rightarrow> ('a kfs_scheme, bool) run" where
  "isdirempty devs dp s =
     isdirempty_loop devs (MAXFILE * (BSIZE div DIRENT)) dp (of_nat (2 * DIRENT)) s"

text \<open>\<^verbatim>\<open>sys_unlink\<close> from the point where both inodes are locked.\<close>

definition unlink_entry :: "'a ksys_scheme env \<Rightarrow> nat \<Rightarrow> nat \<Rightarrow> uint \<Rightarrow> 'a ksys_scheme \<Rightarrow> ('a ksys_scheme, int) run" where
  "unlink_entry env dp ip off s =
     bindK (writei (e_devs env) dp (FromLocal (replicate DIRENT 0)) off (of_nat DIRENT) s) (\<lambda>r s1.
     if r \<noteq> int DIRENT then Err (Panic ''unlink: writei'')
     else
       bindK (if i_type (ino s1 ip) = T_DIR then iupdate dp (add_nlink dp (-1) s1) else Ret () s1) (\<lambda>_ s2.
       bindK (iunlockput dp s2) (\<lambda>_ s3.
       bindK (iupdate ip (add_nlink ip (-1) s3)) (\<lambda>_ s4.
       bindK (iunlockput ip s4) (\<lambda>_. Ret 0)))))"

definition sys_unlink :: "'a ksys_scheme env \<Rightarrow> 'a ksys_scheme \<Rightarrow> ('a ksys_scheme, int) run" where
  "sys_unlink env s =
     with_arg (argstr 0 s) (\<lambda>path s.
     bindK (nameiparent path (\<lambda>_. 0) s) (\<lambda>(dpo, name) s1.
     case dpo of None \<Rightarrow> Ret (-1) s1 | Some dp \<Rightarrow>
     bindK (ilock (Some dp) s1) (\<lambda>_ s2.
     if namecmp name (lit ''.'') = 0 \<or> namecmp name (lit ''..'') = 0
     then bindK (iunlockput dp s2) (\<lambda>_. Ret (-1))
     else
       bindK (dirlookup dp name s2) (\<lambda>r s3.
       case r of None \<Rightarrow> bindK (iunlockput dp s3) (\<lambda>_. Ret (-1)) | Some (ip, off) \<Rightarrow>
       bindK (ilock (Some ip) s3) (\<lambda>_ s4.
       if sint (i_nlink (ino s4 ip)) < 1 then Err (Panic ''unlink: nlink < 1'')
       else
         bindK (if i_type (ino s4 ip) = T_DIR then isdirempty (e_devs env) ip s4 else Ret True s4) (\<lambda>ok s5.
         if \<not> ok then
           bindK (iunlockput ip s5) (\<lambda>_ s6. bindK (iunlockput dp s6) (\<lambda>_. Ret (-1)))
         else unlink_entry env dp ip off s5)))))) s"

section \<open>Creation and opening\<close>

text \<open>\<^verbatim>\<open>create\<close> from the point where the new inode is locked in its directory \<open>dp\<close>.\<close>

definition create_fill :: "(nat \<Rightarrow> 'a kfs_scheme devsw) \<Rightarrow> nat \<Rightarrow> (nat \<Rightarrow> byte) \<Rightarrow> nat \<Rightarrow> 16 word \<Rightarrow> 16 word \<Rightarrow>
    16 word \<Rightarrow> 'a kfs_scheme \<Rightarrow> ('a kfs_scheme, nat option) run" where
  "create_fill devs dp name ip ty major minor s =
     bindK (iupdate ip (ino_upd ip (\<lambda>p. p\<lparr>i_major := major, i_minor := minor, i_nlink := 1\<rparr>) s)) (\<lambda>_ s1.
     bindK
       (if ty = T_DIR then
          bindK (iupdate dp (add_nlink dp 1 s1)) (\<lambda>_ s2.
          bindK (dirlink devs ip (lit ''.'') (i_inum (ino s2 ip)) s2) (\<lambda>r1 s3.
          if r1 < 0 then Err (Panic ''create dots'')
          else
            bindK (dirlink devs ip (lit ''..'') (i_inum (ino s3 dp)) s3) (\<lambda>r2 s4.
            if r2 < 0 then Err (Panic ''create dots'') else Ret () s4)))
        else Ret () s1) (\<lambda>_ s5.
     bindK (dirlink devs dp name (i_inum (ino s5 ip)) s5) (\<lambda>r s6.
     if r < 0 then Err (Panic ''create: dirlink'')
     else bindK (iunlockput dp s6) (\<lambda>_. Ret (Some ip)))))"

definition create :: "(nat \<Rightarrow> 'a kfs_scheme devsw) \<Rightarrow> byte list \<Rightarrow> 16 word \<Rightarrow> 16 word \<Rightarrow> 16 word \<Rightarrow>
    'a kfs_scheme \<Rightarrow> ('a kfs_scheme, nat option) run" where
  "create devs path ty major minor s =
     bindK (nameiparent path (\<lambda>_. 0) s) (\<lambda>(dpo, name) s1.
     case dpo of None \<Rightarrow> Ret None s1 | Some dp \<Rightarrow>
     bindK (ilock (Some dp) s1) (\<lambda>_ s2.
     bindK (dirlookup dp name s2) (\<lambda>r s3.
     case r of
       Some (ip, off) \<Rightarrow>
         bindK (iunlockput dp s3) (\<lambda>_ s4.
         bindK (ilock (Some ip) s4) (\<lambda>_ s5.
         if ty = T_FILE \<and> i_type (ino s5 ip) = T_FILE then Ret (Some ip) s5
         else bindK (iunlockput ip s5) (\<lambda>_. Ret None)))
     | None \<Rightarrow>
         bindK (ialloc (i_dev (ino s3 dp)) ty s3) (\<lambda>ip s4.
         bindK (ilock (Some ip) s4) (\<lambda>_ s5.
         create_fill devs dp name ip ty major minor s5)))))"

text \<open>The inode to open, locked; \<open>None\<close> when there is none.\<close>

definition open_inode :: "(nat \<Rightarrow> 'a kfs_scheme devsw) \<Rightarrow> byte list \<Rightarrow> uint \<Rightarrow> 'a kfs_scheme \<Rightarrow>
    ('a kfs_scheme, nat option) run" where
  "open_inode devs path omode s =
     (if omode AND O_CREATE \<noteq> 0 then create devs path T_FILE 0 0 s
      else
        bindK (namei path s) (\<lambda>ipo s1.
        case ipo of None \<Rightarrow> Ret None s1 | Some ip \<Rightarrow>
        bindK (ilock (Some ip) s1) (\<lambda>_ s2.
        if i_type (ino s2 ip) = T_DIR \<and> omode \<noteq> O_RDONLY
        then bindK (iunlockput ip s2) (\<lambda>_. Ret None)
        else Ret (Some ip) s2)))"

definition sys_open :: "'a ksys_scheme env \<Rightarrow> 'a ksys_scheme \<Rightarrow> ('a ksys_scheme, int) run" where
  "sys_open env s =
     with_arg (argstr 0 s) (\<lambda>path s.
     with_arg (argint 1 s) (\<lambda>omode s.
     bindK (open_inode (e_devs env) path omode s) (\<lambda>ipo s1.
     case ipo of None \<Rightarrow> Ret (-1) s1 | Some ip \<Rightarrow>
     doE (filealloc s1) (\<lambda>(fo, s2).
     case fo of
       None \<Rightarrow> bindK (iunlockput ip s2) (\<lambda>_. Ret (-1))
     | Some f \<Rightarrow>
         doE (fdalloc env f s2) (\<lambda>(fd, s3).
         if fd < 0 then
           bindK (fileclose f s3) (\<lambda>_ s4. bindK (iunlockput ip s4) (\<lambda>_. Ret (-1)))
         else
           doE (iunlock (Some ip) s3) (\<lambda>s4.
           Ret fd (file_upd f (\<lambda>q. q\<lparr>f_type := FD_INODE, f_ip := ip, f_off := 0,
             f_readable := (omode AND O_WRONLY = 0),
             f_writable := (omode AND O_WRONLY \<noteq> 0 \<or> omode AND O_RDWR \<noteq> 0)\<rparr>) s4)))))) s) s"

definition sys_mkdir :: "'a ksys_scheme env \<Rightarrow> 'a ksys_scheme \<Rightarrow> ('a ksys_scheme, int) run" where
  "sys_mkdir env s =
     with_arg (argstr 0 s) (\<lambda>path s.
     bindK (create (e_devs env) path T_DIR 0 0 s) (\<lambda>ipo s1.
     case ipo of None \<Rightarrow> Ret (-1) s1 | Some ip \<Rightarrow> bindK (iunlockput ip s1) (\<lambda>_. Ret 0))) s"

definition sys_mknod :: "'a ksys_scheme env \<Rightarrow> 'a ksys_scheme \<Rightarrow> ('a ksys_scheme, int) run" where
  "sys_mknod env s =
     with_arg (argstr 0 s) (\<lambda>path s.
     with_arg (argint 1 s) (\<lambda>major s.
     with_arg (argint 2 s) (\<lambda>minor s.
     bindK (create (e_devs env) path T_DEV (ucast major) (ucast minor) s) (\<lambda>ipo s1.
     case ipo of None \<Rightarrow> Ret (-1) s1 | Some ip \<Rightarrow> bindK (iunlockput ip s1) (\<lambda>_. Ret 0))) s) s) s"

definition sys_chdir :: "'a ksys_scheme \<Rightarrow> ('a ksys_scheme, int) run" where
  "sys_chdir s =
     with_arg (argstr 0 s) (\<lambda>path s.
     bindK (namei path s) (\<lambda>ipo s1.
     case ipo of None \<Rightarrow> Ret (-1) s1 | Some ip \<Rightarrow>
     bindK (ilock (Some ip) s1) (\<lambda>_ s2.
     if i_type (ino s2 ip) \<noteq> T_DIR then bindK (iunlockput ip s2) (\<lambda>_. Ret (-1))
     else
       doE (iunlock (Some ip) s2) (\<lambda>s3.
       doE (curproc s3) (\<lambda>cur.
       case p_cwd (pr s3 cur) of None \<Rightarrow> Err Fault | Some d \<Rightarrow>
       bindK (iput d s3) (\<lambda>_ s4. Ret 0 (upd_proc cur (\<lambda>p. p\<lparr>p_cwd := Some ip\<rparr>) s4))))))) s"

text \<open>The argument vector of \<^verbatim>\<open>sys_exec\<close>, fetched from entry \<open>i\<close> on, with \<open>n\<close> entries left.\<close>

fun fetch_args :: "nat \<Rightarrow> uint \<Rightarrow> nat \<Rightarrow> nat \<Rightarrow> 'a kproc_scheme \<Rightarrow> kerr + byte list list option" where
  "fetch_args p uargv i 0 s = Inr None"
| "fetch_args p uargv i (Suc n) s =
     bindR (fetchint p (uargv + 4 * of_nat i) s) (\<lambda>r. case r of None \<Rightarrow> Inr None | Some uarg \<Rightarrow>
     if uarg = 0 then Inr (Some [])
     else
       bindR (fetchstr p uarg s) (\<lambda>r. case r of None \<Rightarrow> Inr None | Some arg \<Rightarrow>
       bindR (fetch_args p uargv (i + 1) n s) (\<lambda>r. case r of None \<Rightarrow> Inr None | Some args \<Rightarrow>
       Inr (Some (arg # args)))))"

definition sys_exec :: "'a ksys_scheme env \<Rightarrow> 'a ksys_scheme \<Rightarrow> ('a ksys_scheme, int) run" where
  "sys_exec env s =
     with_arg (argstr 0 s) (\<lambda>path s.
     with_arg (argint 1 s) (\<lambda>uargv s.
     with_arg (bindR (curproc s) (\<lambda>cur. fetch_args cur uargv 0 MAXARG s)) (\<lambda>argv s.
     exec env path argv s) s) s) s"

definition sys_pipe :: "'a ksys_scheme env \<Rightarrow> 'a ksys_scheme \<Rightarrow> ('a ksys_scheme, int) run" where
  "sys_pipe env s =
     with_arg (argptr 0 8 s) (\<lambda>fdp s.
     bindK (pipealloc s) (\<lambda>r s1.
     case r of None \<Rightarrow> Ret (-1) s1 | Some (rfl, wfl) \<Rightarrow>
     doE (fdalloc env rfl s1) (\<lambda>(fd0, s2).
     doE (if fd0 < 0 then Inr (-1, s2) else fdalloc env wfl s2) (\<lambda>(fd1, s3).
     if fd0 < 0 \<or> fd1 < 0 then
       doE (curproc s3) (\<lambda>cur.
       bindK (fileclose rfl (if 0 \<le> fd0 then set_fd cur (nat fd0) None s3 else s3)) (\<lambda>_ s4.
       bindK (fileclose wfl s4) (\<lambda>_. Ret (-1))))
     else
       doE (vstore32 fdp (of_int fd0) s3) (\<lambda>s4.
       doE (vstore32 (fdp + 4) (of_int fd1) s4) (Ret 0)))))) s"

section \<open>Dispatch of system calls\<close>

text \<open>The table \<^verbatim>\<open>syscalls\<close>, by number; every number of its range has a handler but 0.\<close>

definition syscalls :: "'a ksys_scheme env \<Rightarrow> ('a ksys_scheme \<Rightarrow> ('a ksys_scheme, int) run) option list" where
  "syscalls env = [None, Some sys_fork, Some sys_exit, Some sys_wait, Some (sys_pipe env),
     Some (sys_write env), Some (sys_read env), Some sys_close, Some sys_kill, Some (sys_exec env),
     Some (sys_open env), Some (sys_mknod env), Some (sys_unlink env), Some sys_fstat,
     Some (sys_link env), Some (sys_mkdir env), Some sys_chdir, Some (sys_dup env), Some sys_getpid,
     Some sys_sbrk, Some sys_sleep, Some sys_uptime, Some sys_clone, Some sys_lock, Some sys_unlock,
     Some sys_join, Some sys_orphanage]"

definition syscall :: "'a ksys_scheme env \<Rightarrow> 'a ksys_scheme \<Rightarrow> ('a ksys_scheme, unit) run" where
  "syscall env s =
     doE (curproc s) (\<lambda>cur.
     let num = sint (tf_get cur TF_EAX s) in
     case if 0 < num \<and> num < int (length (syscalls env)) then syscalls env ! nat num else None of
       Some h \<Rightarrow> bindK (h s) (\<lambda>r s1.
         doE (curproc s1) (\<lambda>cur1. Ret () (tf_set cur1 TF_EAX (of_int r) s1)))
     | None \<Rightarrow> Ret () (tf_set cur TF_EAX (-1) s))"

section \<open>Traps\<close>

definition T_SYSCALL :: uint where "T_SYSCALL = 64"
definition T_IRQ0 :: uint where "T_IRQ0 = 32"
definition IRQ_TIMER :: uint where "IRQ_TIMER = 0"
definition IRQ_KBD :: uint where "IRQ_KBD = 1"
definition IRQ_COM1 :: uint where "IRQ_COM1 = 4"
definition IRQ_IDE :: uint where "IRQ_IDE = 14"
definition IRQ_SPURIOUS :: uint where "IRQ_SPURIOUS = 31"
definition TF_TRAPNO :: nat where "TF_TRAPNO = 48"

definition timer_intr :: "'a ksys_scheme \<Rightarrow> kerr + 'a ksys_scheme" where
  "timer_intr s =
     (if me s = 0 then
        bindR (acquire TicksLk s) (\<lambda>s1.
        bindR (wakeup ChTicks (s1\<lparr>ticks := ticks s1 + 1\<rparr>)) (release TicksLk))
      else Inr s)"

text \<open>
  \<^verbatim>\<open>trap\<close> with the trap frame at \<open>tf\<close>; \<open>dev_intr\<close> are the interrupt routines of the drivers, by
  number.  A test \<^verbatim>\<open>proc && ...\<close> is false without a current process.
\<close>

definition test_proc :: "(proc \<Rightarrow> bool) \<Rightarrow> 'a kproc_scheme \<Rightarrow> bool" where
  "test_proc P s = (case cproc (this_cpu s) of None \<Rightarrow> False | Some p \<Rightarrow> P (pr s p))"

definition exit_if_killed :: "bool \<Rightarrow> 'a kfile_scheme \<Rightarrow> ('a kfile_scheme, unit) run" where
  "exit_if_killed user s = (if test_proc p_killed s \<and> user then exit s else Ret () s)"

definition trap :: "'a ksys_scheme env \<Rightarrow> (uint \<Rightarrow> 'a ksys_scheme \<Rightarrow> kerr + 'a ksys_scheme) \<Rightarrow> nat \<Rightarrow> 'a ksys_scheme \<Rightarrow>
    ('a ksys_scheme, unit) run" where
  "trap env dev_intr tf s =
     (let trapno = load32 (ram (phys s)) (tf + TF_TRAPNO);
          user = (load16 (ram (phys s)) (tf + TF_CS) AND 3 = 3) in
      if trapno = T_SYSCALL then
        doE (curproc s) (\<lambda>_.
        bindK (exit_if_killed True s) (\<lambda>_ s1.
        doE (curproc s1) (\<lambda>cur.
        bindK (syscall env (upd_proc cur (\<lambda>p. p\<lparr>p_tf := tf\<rparr>) s1)) (\<lambda>_ s2.
        exit_if_killed True s2))))
      else
        doE (if trapno = T_IRQ0 + IRQ_TIMER then timer_intr s
             else if trapno \<in> {T_IRQ0 + IRQ_IDE, T_IRQ0 + IRQ_KBD, T_IRQ0 + IRQ_COM1} then dev_intr (trapno - T_IRQ0) s
             else if trapno \<in> {T_IRQ0 + IRQ_IDE + 1, T_IRQ0 + 7, T_IRQ0 + IRQ_SPURIOUS} then Inr s
             else
               (case cproc (this_cpu s) of
                  None \<Rightarrow> Inl (Panic ''trap'')
                | Some cur \<Rightarrow>
                    if load16 (ram (phys s)) (tf + TF_CS) AND 3 = 0 then Inl (Panic ''trap'')
                    else Inr (upd_proc cur (\<lambda>p. p\<lparr>p_killed := True\<rparr>) s))) (\<lambda>s1.
        bindK (exit_if_killed user s1) (\<lambda>_ s2.
        bindK (if test_proc (\<lambda>p. p_state p = RUNNING) s2 \<and> trapno = T_IRQ0 + IRQ_TIMER
               then yield s2 else Ret () s2) (\<lambda>_ s3.
        exit_if_killed user s3))))"

end
