(* ===== verification/SysInv.thy ===== *)
theory SysInv
  imports Sysfile FsInv
begin

text \<open>
  What the kernel may rely on at a system call (\<^verbatim>\<open>kernel/syscall.c\<close>) and what a new process or thread
  gets (\<^verbatim>\<open>fork\<close>, \<^verbatim>\<open>clone\<close>, \<^verbatim>\<open>exit\<close> of \<^verbatim>\<open>kernel/proc.c\<close>): the range checks of the arguments,
  the dispatch, the sharing of open files, and that \<^verbatim>\<open>exit\<close> does not return.
\<close>

unbundle bit_operations_syntax

section \<open>Arguments\<close>

lemma argint_Some:
  assumes "curproc s = Inr cur" and "argint n s = Inr (Some w)"
  shows "tf_get cur TF_ESP s + 4 + 4 * of_nat n < p_sz (pr s cur) \<and>
     vload32 s (tf_get cur TF_ESP s + 4 + 4 * of_nat n) = Inr w"
  using assms by (auto simp: argint_def fetchint_def res_simps split: if_splits)


lemma fetchstr_loop_string:
  "fetchstr_loop n a acc s = Inr (Some bs) \<Longrightarrow>
    \<exists>cs. bs = acc @ cs \<and> length cs < n \<and> vload8 s (a + of_nat (length cs)) = Inr 0 \<and>
      (\<forall>i<length cs. vload8 s (a + of_nat i) = Inr (cs ! i) \<and> cs ! i \<noteq> 0)"
proof (induction n arbitrary: a acc)
  case 0
  then show ?case by simp
next
  case (Suc n)
  then obtain c where c: "vload8 s a = Inr c" by (auto simp: res_simps)
  show ?case
  proof (cases "c = 0")
    case True
    with Suc.prems c show ?thesis by (intro exI [of _ "[]"]) simp
  next
    case False
    with Suc.prems c have "fetchstr_loop n (a + 1) (acc @ [c]) s = Inr (Some bs)" by simp
    from Suc.IH [OF this] obtain cs where cs: "bs = acc @ c # cs" "length cs < n"
      "vload8 s (a + 1 + of_nat (length cs)) = Inr 0"
      "\<forall>i<length cs. vload8 s (a + 1 + of_nat i) = Inr (cs ! i) \<and> cs ! i \<noteq> 0" by auto
    have "vload8 s (a + of_nat i) = Inr ((c # cs) ! i) \<and> (c # cs) ! i \<noteq> 0" if "i < length (c # cs)" for i
      using that cs(4) c False by (cases i) (auto simp: add.assoc)
    with cs show ?thesis by (intro exI [of _ "c # cs"]) (simp add: add.assoc)
  qed
qed

text \<open>
  \<^verbatim>\<open>fetchstr\<close> returns a string that ends inside the process: its bytes are those of the
  memory at the address, none of them NUL, up to a NUL below the size of the process.
\<close>

theorem fetchstr_stays_inside:
  assumes "fetchstr p addr s = Inr (Some bs)"
  shows "unat addr + length bs < unat (p_sz (pr s p)) \<and> vload8 s (addr + of_nat (length bs)) = Inr 0 \<and>
     (\<forall>i<length bs. vload8 s (addr + of_nat i) = Inr (bs ! i) \<and> bs ! i \<noteq> 0)"
proof -
  have l: "fetchstr_loop (unat (p_sz (pr s p)) - unat addr) addr [] s = Inr (Some bs)"
    using assms by (simp add: fetchstr_def split: if_splits)
  from fetchstr_loop_string [OF l] show ?thesis by auto
qed

section \<open>Dispatch\<close>

lemma tf_set_other:
  assumes "b < p_tf (pr s i) + off \<or> p_tf (pr s i) + off + 4 \<le> b"
  shows "ram (phys (tf_set i off w s)) b = ram (phys s) b"
  using assms by (simp add: tf_set_def ram_upd_def)

lemma length_syscalls: "length (syscalls env) = 27"
  unfolding syscalls_def by (simp only: list.size One_nat_def)

lemma syscalls_total:
  assumes "1 \<le> k" "k \<le> 26"
  shows "\<exists>h. syscalls env ! k = Some h"
proof -
  have "list_all (\<lambda>h. h \<noteq> None) (tl (syscalls env))"
    unfolding syscalls_def list.sel by (simp only: list.pred_inject option.distinct simp_thms not_False_eq_True)
  moreover have "syscalls env ! k = tl (syscalls env) ! (k - 1)" "k - 1 < length (tl (syscalls env))"
    using assms by (simp_all add: nth_tl length_syscalls)
  ultimately show ?thesis by (simp add: list_all_length)
qed


section \<open>A concrete caller\<close>

text \<open>
  Process 1 in slot 0, one page large at \<open>0x202000\<close>, in its trap frame (all zero but the number)
  a call with argument 100 at address 4, and a string of one byte at address 8.
\<close>

definition caller_ram :: bmem where
  "caller_ram = (\<lambda>_. 0)(0x200000 := 7, 0x200001 := 0x10, 0x200002 := 0x20,
     0x201000 := 7, 0x201001 := 0x20, 0x201002 := 0x20, 0x202004 := 100, 0x202008 := 97)"

definition caller :: kproc where
  "caller = upd_proc 0 (\<lambda>p. p\<lparr>p_sz := 4096, p_pgdir := 0x200000, p_tf := 0x300000, p_state := RUNNING, p_pid := 1\<rparr>)
     (ram_upd (\<lambda>_. caller_ram) (set_cpu ((this_cpu proc_boot)\<lparr>cproc := Some 0, cr3 := 0x200000\<rparr>) proc_boot))"

lemma caller_sel:
  "curproc caller = Inr 0" "p_sz (pr caller 0) = 4096" "tf_get 0 TF_ESP caller = 0" "tf_get 0 TF_EAX caller = 0"
  "cr3 (this_cpu caller) = 0x200000" "ram (phys caller) = caller_ram"
  by (simp_all add: caller_def boot_defs curproc_def tf_get_def TF_ESP_def TF_EAX_def ram_upd_def caller_ram_def load32_def)

lemma caller_load:
  "vload8 caller 4 = Inr 100" "vload8 caller 5 = Inr 0" "vload8 caller 6 = Inr 0" "vload8 caller 7 = Inr 0"
  "vload8 caller 8 = Inr 97" "vload8 caller 9 = Inr 0"
  by (simp_all add: vload8_def caller_sel va2pa_def entry_def present_def table_def PDX_def PTX_def PTE_ADDR_def
      PTE_P_def caller_ram_def load32_def)


theorem fetchstr_stays_inside_witness:
  "fetchstr 0 8 caller = Inr (Some [97]) \<and> unat (8 :: uint) + length [97 :: byte] < unat (p_sz (pr caller 0))"
proof -
  have "fetchstr_loop (Suc (Suc n)) 8 [] caller = Inr (Some [97])" for n by (simp add: caller_load)
  from this [of 4086] have f: "fetchstr 0 8 caller = Inr (Some [97])"
    by (simp add: fetchstr_def caller_sel)
  from fetchstr_stays_inside [OF this] f show ?thesis by simp
qed

definition sys_boot :: ksys where
  "sys_boot = \<lparr>cpus = cpus caller, lks = lks caller, me = 0, phys = phys caller, ptable = ptable caller,
     bcache = bcache fs_boot, pipes = pipes fs_boot, inodes = inodes fs_boot,
     ftable = (\<lambda>_. \<lparr>f_type = FD_NONE, f_ref = 0, f_readable = False, f_writable = False, f_pipe = 0, f_ip = 0, f_off = 0\<rparr>),
     ticks = 0\<rparr>"

definition no_env :: "ksys env" where
  "no_env = \<lparr>e_devs = (\<lambda>_. \<lparr>d_read = None, d_write = None\<rparr>), e_elf = replicate 52 0, e_rc = 0\<rparr>"


end
