(* ===== verification/Ide.thy ===== *)
theory Ide
  imports BioInv
begin

text \<open>
  The disk driver (\<^verbatim>\<open>kernel/ide.c\<close>): the queue of requests linked through \<^verbatim>\<open>qnext\<close>, the commands sent
  to the controller, the interrupt that completes a request and the wait of its process.  The buffer
  cache uses the driver through the contract \<open>disk_rw\<close>; here the driver is shown to meet it.
\<close>

unbundle bit_operations_syntax

section \<open>State\<close>

text \<open>
  \<open>qnext b\<close> is the field \<^verbatim>\<open>qnext\<close> of buffer \<open>b\<close>.  \<open>inb7\<close> lists what the coming reads of the status port
  \<^verbatim>\<open>0x1f7\<close> give; behind its end the controller stays busy.  \<open>ports\<close> holds the bytes last written
  to the ports, \<open>pio\<close> the sector last sent through the data port.
\<close>

record kide = kbio +
  idequeue :: "nat option"
  qnext :: "nat \<Rightarrow> nat option"
  inb7 :: "byte list"
  ports :: "nat \<Rightarrow> byte"
  pio :: "nat \<Rightarrow> byte"

definition IDE_BSY :: byte where "IDE_BSY = 0x80"
definition IDE_DRDY :: byte where "IDE_DRDY = 0x40"
definition IDE_DF :: byte where "IDE_DF = 0x20"
definition IDE_ERR :: byte where "IDE_ERR = 0x01"
definition IDE_CMD_READ :: byte where "IDE_CMD_READ = 0x20"
definition IDE_CMD_WRITE :: byte where "IDE_CMD_WRITE = 0x30"

definition outb :: "nat \<Rightarrow> byte \<Rightarrow> 'a kide_scheme \<Rightarrow> 'a kide_scheme" where
  "outb p v s = s\<lparr>ports := (ports s)(p := v)\<rparr>"

section \<open>The controller\<close>

text \<open>The polling loop: the first status that is ready and not busy, and the statuses after it.\<close>

fun idewait_loop :: "byte list \<Rightarrow> (byte \<times> byte list) option" where
  "idewait_loop [] = None"
| "idewait_loop (r # rs) = (if r AND (IDE_BSY OR IDE_DRDY) \<noteq> IDE_DRDY then idewait_loop rs else Some (r, rs))"

definition idewait :: "bool \<Rightarrow> 'a kide_scheme \<Rightarrow> kerr + int \<times> 'a kide_scheme" where
  "idewait checkerr s =
     (case idewait_loop (inb7 s) of
        None \<Rightarrow> Inl Loops
      | Some (r, rs) \<Rightarrow>
          Inr (if checkerr \<and> r AND (IDE_DF OR IDE_ERR) \<noteq> 0 then -1 else 0, s\<lparr>inb7 := rs\<rparr>))"

text \<open>The search for the second drive: \<open>n\<close> reads are left.\<close>

fun probe_loop :: "nat \<Rightarrow> 'a kide_scheme \<Rightarrow> 'a kide_scheme" where
  "probe_loop 0 s = s"
| "probe_loop (Suc n) s =
     (case inb7 s of
        [] \<Rightarrow> s\<lparr>bcache := (bcache s)\<lparr>havedisk1 := True\<rparr>\<rparr>
      | r # rs \<Rightarrow>
          let s1 = s\<lparr>inb7 := rs\<rparr> in
          if r \<noteq> 0 then s1\<lparr>bcache := (bcache s1)\<lparr>havedisk1 := True\<rparr>\<rparr> else probe_loop n s1)"

text \<open>\<^verbatim>\<open>ideinit\<close> without its calls to the interrupt controllers.\<close>

definition ideinit :: "'a kide_scheme \<Rightarrow> kerr + 'a kide_scheme" where
  "ideinit s =
     bindR (idewait False (initlock IdeLk ''ide'' s)) (\<lambda>(_, s1).
     Inr (outb 0x1f6 (0xe0 OR push_bit 4 0) (probe_loop 1000 (outb 0x1f6 (0xe0 OR push_bit 4 1) s1))))"

section \<open>Requests\<close>

definition idestart :: "nat option \<Rightarrow> 'a kide_scheme \<Rightarrow> kerr + 'a kide_scheme" where
  "idestart bo s =
     (case bo of
        None \<Rightarrow> Inl (Panic ''idestart'')
      | Some b \<Rightarrow>
          bindR (idewait False s) (\<lambda>(_, s1).
          let c = bf s1 b;
              s2 = outb 0x3f6 0 s1;
              s3 = outb 0x1f2 1 s2;
              s4 = outb 0x1f3 (ucast (b_sector c)) s3;
              s5 = outb 0x1f4 (ucast (drop_bit 8 (b_sector c))) s4;
              s6 = outb 0x1f5 (ucast (drop_bit 16 (b_sector c))) s5;
              s7 = outb 0x1f6 (0xe0 OR ucast (push_bit 4 (b_dev c AND 1)) OR ucast (drop_bit 24 (b_sector c) AND 0x0f)) s6
          in if b_dirty c then Inr ((outb 0x1f7 IDE_CMD_WRITE s7)\<lparr>pio := b_data c\<rparr>)
             else Inr (outb 0x1f7 IDE_CMD_READ s7)))"

text \<open>\<^verbatim>\<open>ideintr\<close>; \<open>sector\<close> is what the data port gives.\<close>

definition ideintr :: "(nat \<Rightarrow> byte) \<Rightarrow> 'a kide_scheme \<Rightarrow> kerr + 'a kide_scheme" where
  "ideintr sector s =
     bindR (acquire IdeLk s) (\<lambda>s1.
     case idequeue s1 of
       None \<Rightarrow> release IdeLk s1
     | Some b \<Rightarrow>
       let s2 = s1\<lparr>idequeue := qnext s1 b\<rparr> in
       bindR (if \<not> b_dirty (bf s2 b)
              then bindR (idewait True s2) (\<lambda>(r, s3).
                Inr (if r \<ge> 0 then buf_upd b (\<lambda>c. c\<lparr>b_data := sector\<rparr>) s3 else s3))
              else Inr s2) (\<lambda>s4.
       let s5 = buf_upd b (\<lambda>c. c\<lparr>b_valid := True\<rparr>) s4;
           s6 = buf_upd b (\<lambda>c. c\<lparr>b_dirty := False\<rparr>) s5 in
       bindR (wakeup (ChBuf b) s6) (\<lambda>s7.
       bindR (if idequeue s7 \<noteq> None then idestart (idequeue s7) s7 else Inr s7) (release IdeLk))))"

text \<open>
  The walk of \<^verbatim>\<open>iderw\<close> to the end of the queue, which appends \<open>b\<close>: \<open>n\<close> bounds the buffers looked at;
  a queue of more than \<open>NBUF\<close> buffers would be walked for ever.
\<close>

fun queue_append :: "nat \<Rightarrow> nat \<Rightarrow> nat \<Rightarrow> 'a kide_scheme \<Rightarrow> kerr + 'a kide_scheme" where
  "queue_append n b c s =
     (case qnext s c of
        None \<Rightarrow> Inr (s\<lparr>qnext := (qnext s)(c := Some b)\<rparr>)
      | Some c' \<Rightarrow> (case n of 0 \<Rightarrow> Inl Loops | Suc k \<Rightarrow> queue_append k b c' s))"

declare queue_append.simps [simp del]

definition iderw_body :: "nat \<Rightarrow> 'a kide_scheme \<Rightarrow> ('a kide_scheme, unit) turn" where
  "iderw_body b s =
     (if b_valid (bf s b) \<and> \<not> b_dirty (bf s b) then Leave (doE (release IdeLk s) (Ret ()))
      else nap (ChBuf b) IdeLk s)"

definition iderw :: "nat \<Rightarrow> 'a kide_scheme \<Rightarrow> ('a kide_scheme, unit) run" where
  "iderw b s =
     (if \<not> b_busy (bf s b) then Err (Panic ''iderw: buf not busy'')
      else if b_valid (bf s b) \<and> \<not> b_dirty (bf s b) then Err (Panic ''iderw: nothing to do'')
      else if b_dev (bf s b) \<noteq> 0 \<and> \<not> havedisk1 (bcache s) then Err (Panic ''iderw: ide disk 1 not present'')
      else
        doE (acquire IdeLk s) (\<lambda>s1.
        let s2 = s1\<lparr>qnext := (qnext s1)(b := None)\<rparr> in
        doE (case idequeue s2 of
               None \<Rightarrow> Inr (s2\<lparr>idequeue := Some b\<rparr>)
             | Some c \<Rightarrow> queue_append NBUF b c s2) (\<lambda>s3.
        doE (if idequeue s3 = Some b then idestart (Some b) s3 else Inr s3) (\<lambda>s4.
        loopK (iderw_body b) s4))))"

section \<open>The drive\<close>

text \<open>
  What the code relies on of the drive: a command names the sector by the drive bit and the 28 address
  bits in the ports; when the interrupt of a command comes, a write has stored the sector sent and a
  read has the sector on the data port.
\<close>

definition drive_at :: "(nat \<Rightarrow> byte) \<Rightarrow> uint \<times> uint" where
  "drive_at p = (if bit (p 0x1f6) 4 then 1 else 0,
     ucast (p 0x1f3) OR push_bit 8 (ucast (p 0x1f4)) OR push_bit 16 (ucast (p 0x1f5)) OR
     push_bit 24 (ucast (p 0x1f6 AND 0x0f)))"

definition drive_stores :: "'a kide_scheme \<Rightarrow> 'a kide_scheme" where
  "drive_stores s =
     (if ports s 0x1f7 = IDE_CMD_WRITE
      then s\<lparr>bcache := (bcache s)\<lparr>disk := (disk (bcache s))(drive_at (ports s) := pio s)\<rparr>\<rparr> else s)"

definition ide_irq :: "'a kide_scheme \<Rightarrow> kerr + 'a kide_scheme" where
  "ide_irq s = ideintr (disk (bcache s) (drive_at (ports s))) (drive_stores s)"

fun irqs :: "nat \<Rightarrow> 'a kide_scheme \<Rightarrow> kerr + 'a kide_scheme" where
  "irqs 0 s = Inr s"
| "irqs (Suc n) s = bindR (ide_irq s) (irqs n)"

text \<open>The controller gets ready \<open>n\<close> more times, without an error.\<close>

fun ready_times :: "nat \<Rightarrow> byte list \<Rightarrow> bool" where
  "ready_times 0 rs = True"
| "ready_times (Suc n) rs = (case idewait_loop rs of
     None \<Rightarrow> False | Some (r, rs') \<Rightarrow> r AND (IDE_DF OR IDE_ERR) = 0 \<and> ready_times n rs')"

lemma ready_mono: "ready_times n rs \<Longrightarrow> m \<le> n \<Longrightarrow> ready_times m rs"
proof (induction m arbitrary: n rs)
  case (Suc m)
  then obtain k where k: "n = Suc k" "m \<le> k" by (cases n) auto
  from Suc.prems(1) k Suc.IH show ?case by (auto split: option.splits)
qed simp

lemma ready_idewait:
  assumes "ready_times (Suc n) (inb7 s)"
  obtains rs where "idewait c s = Inr (0, s\<lparr>inb7 := rs\<rparr>)" "ready_times n rs"
  using assms by (auto simp: idewait_def split: option.splits)

section \<open>The contract of a request\<close>

text \<open>What serving the request of buffer \<open>b\<close> does to the buffers and the disk.\<close>

definition serve :: "nat \<Rightarrow> bio \<Rightarrow> bio" where
  "serve b m =
     (let c = bufs m b; a = blk (b_dev c) (b_sector c) in
      if b_dirty c
      then m\<lparr>bufs := (bufs m)(b := c\<lparr>b_valid := True, b_dirty := False\<rparr>), disk := (disk m)(a := b_data c)\<rparr>
      else m\<lparr>bufs := (bufs m)(b := c\<lparr>b_valid := True, b_data := disk m a\<rparr>)\<rparr>)"

definition waiting :: "bio \<Rightarrow> nat \<Rightarrow> bool" where
  "waiting m b \<longleftrightarrow> b < NBUF \<and> b_busy (bufs m b) \<and> (b_valid (bufs m b) \<longrightarrow> b_dirty (bufs m b)) \<and>
     (b_dev (bufs m b) = 0 \<or> havedisk1 m)"

lemma disk_rw_serves: "waiting (bcache s) b \<Longrightarrow> disk_rw b s = Inr (s\<lparr>bcache := serve b (bcache s)\<rparr>)"
  by (auto simp: disk_rw_def waiting_def serve_def Let_def buf_upd_eq)

lemma serve_sel [simp]:
  "b \<noteq> b' \<Longrightarrow> bufs (serve b m) b' = bufs m b'" "havedisk1 (serve b m) = havedisk1 m"
  "b_valid (bufs (serve b m) b)" "\<not> b_dirty (bufs (serve b m) b)"
  by (simp_all add: serve_def Let_def)

lemma waiting_serve [simp]: "b \<noteq> b' \<Longrightarrow> waiting (serve b m) b' = waiting m b'"
  by (simp add: waiting_def)

lemma waiting_fold [simp]: "b \<notin> set q \<Longrightarrow> waiting (fold serve q m) b = waiting m b"
  by (induction q arbitrary: m) auto

section \<open>The invariant of the driver\<close>

primrec chain :: "(nat \<Rightarrow> nat option) \<Rightarrow> nat option \<Rightarrow> nat list \<Rightarrow> bool" where
  "chain f p [] \<longleftrightarrow> p = None"
| "chain f p (b # bs) \<longleftrightarrow> p = Some b \<and> chain f (f b) bs"

definition commanded :: "'a kide_scheme \<Rightarrow> nat \<Rightarrow> bool" where
  "commanded s b \<longleftrightarrow> drive_at (ports s) = blk (b_dev (bf s b)) (b_sector (bf s b)) \<and>
     (if b_dirty (bf s b) then ports s 0x1f7 = IDE_CMD_WRITE \<and> pio s = b_data (bf s b)
      else ports s 0x1f7 = IDE_CMD_READ)"

definition ide_inv :: "'a kide_scheme \<Rightarrow> nat list \<Rightarrow> bool" where
  "ide_inv s q \<longleftrightarrow> chain (qnext s) (idequeue s) q \<and> distinct q \<and> (\<forall>b\<in>set q. waiting (bcache s) b) \<and>
     (q \<noteq> [] \<longrightarrow> commanded s (hd q))"

definition ide_idle :: "'a kide_scheme \<Rightarrow> bool" where
  "ide_idle s \<longleftrightarrow> cli_ok s \<and> lk_free (lks s IdeLk) \<and> lk_free (lks s PtableLk)"

lemma upper_kide:
  "upper (idequeue_update f)" "upper (qnext_update g)" "upper (inb7_update h)" "upper (ports_update i)"
  "upper (pio_update j)"
  by (simp_all add: upper_def set_cpu_def set_lk_def)

lemmas kide_lock [simp] = upper_kide [THEN upper_lock(1)] upper_kide [THEN upper_lock(2)] upper_kide [THEN upper_lock(3)]
  upper_kide [THEN upper_lock(7)] upper_kide [THEN upper_lock(8)] upper_kide [THEN upper_lock(10)]

lemma kide_below [simp]:
  "idequeue (locked l s) = idequeue s" "idequeue (quiet s) = idequeue s" "idequeue (wakeup1 ch s) = idequeue s"
  "qnext (locked l s) = qnext s" "qnext (quiet s) = qnext s" "qnext (wakeup1 ch s) = qnext s"
  "inb7 (locked l s) = inb7 s" "inb7 (quiet s) = inb7 s" "inb7 (wakeup1 ch s) = inb7 s"
  "ports (locked l s) = ports s" "ports (quiet s) = ports s" "ports (wakeup1 ch s) = ports s"
  "pio (locked l s) = pio s" "pio (quiet s) = pio s" "pio (wakeup1 ch s) = pio s"
  by (simp_all add: locked_def quiet_def wakeup1_def for_procs_def set_cpu_def set_lk_def pushcli_def Let_def)

lemma drive_bit:
  fixes dev sec :: uint
  shows "bit (0xe0 OR ucast (push_bit 4 (dev AND 1)) OR ucast (drop_bit 24 sec AND 0x0f) :: byte) 4 \<longleftrightarrow> dev AND 1 = 1"
  by (simp add: bit_simps and_one_eq bit_0 odd_iff_mod_2_eq_one) 

lemma top_bits:
  fixes dev sec :: uint
  shows "(0xe0 OR ucast (push_bit 4 (dev AND 1)) OR ucast (drop_bit 24 sec AND 0x0f) :: byte) AND 0x0f = ucast (drop_bit 24 sec) AND mask 4"
proof (rule bit_word_eqI)
  fix k :: nat
  assume "k < LENGTH(8)"
  have m: "(0x0f :: byte) = mask 4" "(0x0f :: uint) = mask 4" "k < 4 \<Longrightarrow> \<not> bit (0xe0 :: byte) k"
    by (auto simp: mask_eq_exp_minus_1 less_Suc_eq numeral_eq_Suc)
  show "bit ((0xe0 OR ucast (push_bit 4 (dev AND 1)) OR ucast (drop_bit 24 sec AND 0x0f) :: byte) AND 0x0f) k =
      bit (ucast (drop_bit 24 sec) AND mask 4 :: byte) k"
    unfolding m(1,2) using m(3) by (auto simp: bit_simps)
qed

lemma lba_bits:
  fixes dev sec :: uint
  shows "(ucast (ucast sec :: byte) :: uint) OR push_bit 8 (ucast (ucast (drop_bit 8 sec) :: byte)) OR
      push_bit 16 (ucast (ucast (drop_bit 16 sec) :: byte)) OR
      push_bit 24 (ucast (ucast (drop_bit 24 sec) AND mask 4 :: byte)) = sec AND mask 28"
proof (rule bit_word_eqI)
  fix n :: nat
  assume "n < LENGTH(32)"
  then consider "n < 8" | "8 \<le> n" "n < 16" | "16 \<le> n" "n < 24" | "24 \<le> n" "n < 28" | "28 \<le> n" "n < 32"
    by fastforce
  then show "bit ((ucast (ucast sec :: byte) :: uint) OR push_bit 8 (ucast (ucast (drop_bit 8 sec) :: byte)) OR
      push_bit 16 (ucast (ucast (drop_bit 16 sec) :: byte)) OR
      push_bit 24 (ucast (ucast (drop_bit 24 sec) AND mask 4 :: byte))) n = bit (sec AND mask 28) n"
    by cases (auto simp: bit_simps)
qed

lemma drive_at_command:
  fixes dev sec :: uint
  assumes "p 0x1f3 = ucast sec" "p 0x1f4 = ucast (drop_bit 8 sec)" "p 0x1f5 = ucast (drop_bit 16 sec)"
    and "p 0x1f6 = 0xe0 OR ucast (push_bit 4 (dev AND 1)) OR ucast (drop_bit 24 sec AND 0x0f)"
  shows "drive_at p = blk dev sec"
proof -
  have "dev AND 1 = 1 \<or> dev AND 1 = 0" by (auto simp: and_one_eq)
  moreover have "(0x0FFFFFFF :: uint) = mask 28" by (simp add: mask_eq_exp_minus_1)
  ultimately show ?thesis
    unfolding drive_at_def blk_def assms drive_bit top_bits lba_bits by auto
qed

lemma idestart_commands:
  assumes "ready_times (Suc n) (inb7 s)"
  shows "\<exists>rs p d. idestart (Some b) s = Inr (s\<lparr>inb7 := rs, ports := p, pio := d\<rparr>) \<and>
     (let t = s\<lparr>inb7 := rs, ports := p, pio := d\<rparr> in commanded t b) \<and> ready_times n rs"
proof -
  from ready_idewait [OF assms, of False] obtain rs where
    w: "idewait False s = Inr (0, s\<lparr>inb7 := rs\<rparr>)" and rs: "ready_times n rs" by blast
  let ?c = "bf s b"
  define p where "p = (ports s)(0x3f6 := 0, 0x1f2 := 1, 0x1f3 := ucast (b_sector ?c), 0x1f4 := ucast (drop_bit 8 (b_sector ?c)),
     0x1f5 := ucast (drop_bit 16 (b_sector ?c)), 0x1f6 := 0xe0 OR ucast (push_bit 4 (b_dev ?c AND 1)) OR
       ucast (drop_bit 24 (b_sector ?c) AND 0x0f), 0x1f7 := if b_dirty ?c then IDE_CMD_WRITE else IDE_CMD_READ)"
  have at: "drive_at p = blk (b_dev ?c) (b_sector ?c)"
    by (rule drive_at_command) (simp_all add: p_def)
  have "idestart (Some b) s = Inr (s\<lparr>inb7 := rs, ports := p, pio := if b_dirty ?c then b_data ?c else pio s\<rparr>)"
    by (simp add: idestart_def w Let_def outb_def p_def)
  moreover have "p 0x1f7 = (if b_dirty ?c then IDE_CMD_WRITE else IDE_CMD_READ)" by (simp add: p_def)
  then have "commanded (s\<lparr>inb7 := rs, ports := p, pio := if b_dirty ?c then b_data ?c else pio s\<rparr>) b"
    using at by (simp add: commanded_def)
  ultimately show ?thesis using rs unfolding Let_def by blast
qed

definition served_state :: "nat \<Rightarrow> (nat \<Rightarrow> byte) \<Rightarrow> byte list \<Rightarrow> (nat \<Rightarrow> byte) \<Rightarrow> (nat \<Rightarrow> byte) \<Rightarrow> 'a kide_scheme \<Rightarrow> 'a kide_scheme" where
  "served_state b sector rs p d s = s\<lparr>idequeue := qnext s b, inb7 := rs, ports := p, pio := d,
     bcache := (bcache s)\<lparr>bufs := (bufs (bcache s))(b :=
       (if b_dirty (bf s b) then bf s b else (bf s b)\<lparr>b_data := sector\<rparr>)\<lparr>b_valid := True, b_dirty := False\<rparr>)\<rparr>\<rparr>"

lemma served_locked [simp]: "served_state b sector rs p d (locked l s) = locked l (served_state b sector rs p d s)"
  by (simp add: served_state_def locked_def set_lk_def pushcli_def Let_def set_cpu_def)

lemma wakeup1_ide: "wakeup1 ch (s\<lparr>inb7 := rs, ports := p, pio := d\<rparr>) = wakeup1 ch s\<lparr>inb7 := rs, ports := p, pio := d\<rparr>"
  by (simp add: wakeup1_def for_procs_def cong: if_cong)

lemma served_redo:
  "served_state b sector rs p d s\<lparr>inb7 := rs', ports := p', pio := d'\<rparr> = served_state b sector rs' p' d' s"
  by (simp add: served_state_def)

lemma commanded_upd [simp]:
  "commanded (wakeup1 ch s) = commanded s" "commanded (locked l s) = commanded s" "commanded (quiet s) = commanded s"
  by (simp_all add: commanded_def fun_eq_iff)

lemma served_sel [simp]:
  "cpus (served_state b sector rs p d s) = cpus s" "lks (served_state b sector rs p d s) = lks s"
  "me (served_state b sector rs p d s) = me s" "inb7 (served_state b sector rs p d s) = rs"
  "idequeue (served_state b sector rs p d s) = qnext s b" "qnext (served_state b sector rs p d s) = qnext s"
  by (simp_all add: served_state_def)

text \<open>The transfer of a request, between taking it off the queue and waking its process.\<close>

lemma ideintr_transfer:
  assumes "ready_times (Suc n) (inb7 s)"
  shows "\<exists>rs s4. (if \<not> b_dirty (bf (s\<lparr>idequeue := qnext s b\<rparr>) b)
              then bindR (idewait True (s\<lparr>idequeue := qnext s b\<rparr>)) (\<lambda>(r, s3).
                Inr (if r \<ge> 0 then buf_upd b (\<lambda>c. c\<lparr>b_data := sector\<rparr>) s3 else s3))
              else Inr (s\<lparr>idequeue := qnext s b\<rparr>)) = Inr s4 \<and> ready_times n rs \<and>
       buf_upd b (\<lambda>c. c\<lparr>b_dirty := False\<rparr>) (buf_upd b (\<lambda>c. c\<lparr>b_valid := True\<rparr>) s4) =
         served_state b sector rs (ports s) (pio s) s"
proof (cases "b_dirty (bf s b)")
  case True
  then show ?thesis
    using ready_mono [OF assms, of n] by (auto simp: served_state_def buf_upd_eq intro!: exI [of _ "inb7 s"])
next
  case False
  have "ready_times (Suc n) (inb7 (s\<lparr>idequeue := qnext s b\<rparr>))" using assms by simp
  from ready_idewait [OF this, of True] obtain rs where
    w: "idewait True (s\<lparr>idequeue := qnext s b\<rparr>) = Inr (0, s\<lparr>idequeue := qnext s b, inb7 := rs\<rparr>)" "ready_times n rs"
    by blast
  then show ?thesis
    using False by (intro exI [of _ rs]) (simp add: served_state_def buf_upd_eq)
qed

lemma ideintr_serves:
  assumes "ide_idle s" and "idequeue s = Some b" and "ready_times (Suc (Suc n)) (inb7 s)"
  shows "\<exists>rs p d. ideintr sector s = Inr (quiet (wakeup1 (ChBuf b) (served_state b sector rs p d s))) \<and>
     ready_times n rs \<and> (\<forall>b'. qnext s b = Some b' \<longrightarrow> commanded (served_state b sector rs p d s) b')"
proof -
  let ?v = "\<lambda>rs p d. served_state b sector rs p d s"
  have free: "lk_free (lks s IdeLk)" "lk_free (lks s PtableLk)" "cli_ok s"
    using assms(1) by (simp_all add: ide_idle_def)
  have "ready_times (Suc (Suc n)) (inb7 (locked IdeLk s))" using assms(3) by simp
  from ideintr_transfer [OF this, where b = b and sector = sector, unfolded kide_below served_locked served_sel] obtain rs s4 where
    s4: "(if \<not> b_dirty (bf (locked IdeLk s\<lparr>idequeue := qnext s b\<rparr>) b)
              then bindR (idewait True (locked IdeLk s\<lparr>idequeue := qnext s b\<rparr>)) (\<lambda>(r, s3).
                Inr (if r \<ge> 0 then buf_upd b (\<lambda>c. c\<lparr>b_data := sector\<rparr>) s3 else s3))
              else Inr (locked IdeLk s\<lparr>idequeue := qnext s b\<rparr>)) = Inr s4"
    and rs: "ready_times (Suc n) rs"
    and v: "buf_upd b (\<lambda>c. c\<lparr>b_dirty := False\<rparr>) (buf_upd b (\<lambda>c. c\<lparr>b_valid := True\<rparr>) s4) =
         locked IdeLk (?v rs (ports s) (pio s))"
    by blast
  let ?w = "wakeup1 (ChBuf b) (?v rs (ports s) (pio s))"
  have cli: "cli_ok (?v r p d)" "lk_free (lks (?v r p d) IdeLk)" "lk_free (lks (?v r p d) PtableLk)" for r p d
    using free by (simp_all add: cli_ok_def)
  have wake: "wakeup (ChBuf b) (locked IdeLk (?v rs (ports s) (pio s))) = Inr (locked IdeLk ?w)"
    using cli by (subst wakeup_eq) (simp_all add: quiet_locked)
  have rel: "release IdeLk (locked IdeLk (wakeup1 (ChBuf b) (?v r p d))) = Inr (quiet (wakeup1 (ChBuf b) (?v r p d)))" for r p d
    using cli by (subst release_locked) simp_all
  have i: "ideintr sector s = bindR (if qnext s b \<noteq> None then idestart (qnext s b) (locked IdeLk ?w)
      else Inr (locked IdeLk ?w)) (release IdeLk)"
    unfolding ideintr_def acquire_free [OF free(1)] bindR_Inr kide_below assms(2) option.case Let_def s4 v wake served_sel ..
  show ?thesis
  proof (cases "qnext s b")
    case None
    then show ?thesis
      using i rel ready_mono [OF rs, of n] by auto
  next
    case (Some b')
    have "ready_times (Suc n) (inb7 (locked IdeLk ?w))" using rs by simp
    from idestart_commands [OF this, of b'] obtain rs' p d where
      st: "idestart (Some b') (locked IdeLk ?w) = Inr (locked IdeLk ?w\<lparr>inb7 := rs', ports := p, pio := d\<rparr>)"
      "commanded (locked IdeLk ?w\<lparr>inb7 := rs', ports := p, pio := d\<rparr>) b'" "ready_times n rs'"
      unfolding Let_def by blast
    have e: "locked IdeLk ?w\<lparr>inb7 := rs', ports := p, pio := d\<rparr> = locked IdeLk (wakeup1 (ChBuf b) (?v rs' p d))"
      unfolding served_redo [where b = b and sector = sector and rs = rs and p = "ports s" and d = "pio s" and s = s and rs' = rs' and p' = p and d' = d, symmetric] wakeup1_ide by simp
    have "commanded (?v rs' p d) b'" using st(2) unfolding e by simp
    then show ?thesis
      using i rel st(1,3) Some unfolding e by auto
  qed
qed


section \<open>Interrupts serve the queue in order\<close>

lemma ptable_wakeup1: "ptable t = ptable s \<Longrightarrow> ptable (wakeup1 ch t) = ptable (wakeup1 ch s)"
  by (simp add: wakeup1_def for_procs_def cong: if_cong)

lemma drive_stores_sel [simp]:
  "cpus (drive_stores s) = cpus s" "lks (drive_stores s) = lks s" "me (drive_stores s) = me s"
  "inb7 (drive_stores s) = inb7 s" "idequeue (drive_stores s) = idequeue s" "qnext (drive_stores s) = qnext s"
  "ptable (drive_stores s) = ptable s" "bufs (bcache (drive_stores s)) = bufs (bcache s)"
  "havedisk1 (bcache (drive_stores s)) = havedisk1 (bcache s)"
  by (simp_all add: drive_stores_def)

lemma served_serve:
  assumes "commanded s b"
  shows "bcache (served_state b (disk (bcache s) (drive_at (ports s))) rs p d (drive_stores s)) = serve b (bcache s)"
proof (cases "b_dirty (bf s b)")
  case True
  with assms show ?thesis
    by (simp add: commanded_def served_state_def drive_stores_def serve_def Let_def)
next
  case False
  then have e: "(bf s b)\<lparr>b_data := x, b_valid := True, b_dirty := False\<rparr> = (bf s b)\<lparr>b_valid := True, b_data := x\<rparr>" for x
    by (cases "bf s b") simp
  from False assms show ?thesis
    by (simp add: e commanded_def served_state_def drive_stores_def serve_def Let_def
        IDE_CMD_READ_def IDE_CMD_WRITE_def)
qed

lemma irq_serves:
  assumes "ide_inv s (b # q)" and "ide_idle s" and "ready_times (Suc (Suc n)) (inb7 s)"
  shows "\<exists>s'. ide_irq s = Inr s' \<and> ide_inv s' q \<and> ide_idle s' \<and> bcache s' = serve b (bcache s) \<and>
     ptable s' = ptable (wakeup1 (ChBuf b) s) \<and> ready_times n (inb7 s')"
proof -
  let ?sec = "disk (bcache s) (drive_at (ports s))" and ?t = "drive_stores s"
  have c: "commanded s b" and q: "chain (qnext s) (qnext s b) q" "distinct (b # q)" "idequeue s = Some b"
    "\<forall>b\<in>set q. waiting (bcache s) b"
    using assms(1) by (auto simp: ide_inv_def)
  have "ide_idle ?t" using assms(2) by (simp add: ide_idle_def cli_ok_def)
  from ideintr_serves [OF this, of b n ?sec] q(3) assms(3) obtain rs p d where
    i: "ide_irq s = Inr (quiet (wakeup1 (ChBuf b) (served_state b ?sec rs p d ?t)))" "ready_times n rs"
    "\<And>b'. qnext s b = Some b' \<Longrightarrow> commanded (served_state b ?sec rs p d ?t) b'"
    unfolding ide_irq_def by auto
  let ?s' = "quiet (wakeup1 (ChBuf b) (served_state b ?sec rs p d ?t))"
  have bc: "bcache ?s' = serve b (bcache s)" using served_serve [OF c] by simp
  have "ptable (served_state b ?sec rs p d ?t) = ptable s" by (simp add: served_state_def)
  then have "ptable ?s' = ptable (wakeup1 (ChBuf b) s)"
    using ptable_wakeup1 [of "quiet (served_state b ?sec rs p d ?t)" s] by simp
  moreover have "\<forall>x\<in>set q. waiting (serve b (bcache s)) x"
  proof
    fix x
    assume "x \<in> set q"
    with q(2) have "b \<noteq> x" by auto
    with q(4) \<open>x \<in> set q\<close> show "waiting (serve b (bcache s)) x" by simp
  qed
  then have "ide_inv ?s' q"
    using q i(3) bc by (cases q) (auto simp: ide_inv_def)
  moreover have "ide_idle ?s'" using assms(2) by (simp add: ide_idle_def cli_ok_def)
  ultimately show ?thesis using i bc by (intro exI [of _ ?s']) simp
qed

lemma irqs_serve:
  assumes "ide_inv s (qs @ q)" and "ide_idle s" and "ready_times (2 * length qs + n) (inb7 s)"
  shows "\<exists>s'. irqs (length qs) s = Inr s' \<and> ide_inv s' q \<and> ide_idle s' \<and> bcache s' = fold serve qs (bcache s) \<and>
     ready_times n (inb7 s') \<and>
     (\<forall>i<NPROC. p_state (pr s i) = RUNNABLE \<or>
        p_state (pr s i) = SLEEPING \<and> (\<exists>b\<in>set qs. p_chan (pr s i) = Some (ChBuf b)) \<longrightarrow> p_state (pr s' i) = RUNNABLE)"
  using assms
proof (induction qs arbitrary: s)
  case (Cons b qs)
  from irq_serves [of s b "qs @ q" "2 * length qs + n"] Cons.prems obtain t where
    t: "ide_irq s = Inr t" "ide_inv t (qs @ q)" "ide_idle t" "bcache t = serve b (bcache s)"
    "ptable t = ptable (wakeup1 (ChBuf b) s)" "ready_times (2 * length qs + n) (inb7 t)" by auto
  from Cons.IH [OF t(2,3,6)] obtain s' where
    s': "irqs (length qs) t = Inr s'" "ide_inv s' q" "ide_idle s'" "bcache s' = fold serve qs (bcache t)"
    "ready_times n (inb7 s')" and
    run: "\<And>i. i < NPROC \<Longrightarrow> p_state (pr t i) = RUNNABLE \<or>
        p_state (pr t i) = SLEEPING \<and> (\<exists>b\<in>set qs. p_chan (pr t i) = Some (ChBuf b)) \<Longrightarrow> p_state (pr s' i) = RUNNABLE"
    by blast
  have pt: "pr t i = (if i < NPROC then (if p_state (pr s i) = SLEEPING \<and> p_chan (pr s i) = Some (ChBuf b)
      then (pr s i)\<lparr>p_state := RUNNABLE\<rparr> else pr s i) else pr s i)" for i
    using t(5) by (simp add: wakeup1_def for_procs_def)
  have "p_state (pr s' i) = RUNNABLE" if "i < NPROC" "p_state (pr s i) = RUNNABLE \<or>
      p_state (pr s i) = SLEEPING \<and> (\<exists>b\<in>set (b # qs). p_chan (pr s i) = Some (ChBuf b))" for i
    by (rule run) (use that pt [of i] in auto)
  with t(1,4) s' show ?case by auto
qed auto

text \<open>
  Claim C15.  A queued request completes: with the request of buffer \<open>b\<close> behind those of \<open>qs\<close> in the
  queue and a controller that gets ready, the interrupts of these requests serve them in order, each with the effect
  of the contract; after them \<open>b\<close> is valid and clean, the rest of the queue is left with its first request
  started, and every process asleep on a served buffer is runnable.
\<close>

theorem queued_request_completes:
  fixes s :: "'a kide_scheme"
  assumes "ide_inv s (qs @ b # q)" and "ide_idle s" and "ready_times (2 * length qs + 2) (inb7 s)"
  shows "\<exists>s'. irqs (Suc (length qs)) s = Inr s' \<and> ide_inv s' q \<and> bcache s' = fold serve (qs @ [b]) (bcache s) \<and>
     b_valid (bf s' b) \<and> \<not> b_dirty (bf s' b) \<and>
     (\<forall>i<NPROC. \<forall>c\<in>set (qs @ [b]). p_state (pr s i) = SLEEPING \<longrightarrow> p_chan (pr s i) = Some (ChBuf c) \<longrightarrow>
        p_state (pr s' i) = RUNNABLE)"
proof -
  have "ide_inv s ((qs @ [b]) @ q)" "ready_times (2 * length (qs @ [b]) + 0) (inb7 s)" using assms by simp_all
  from irqs_serve [OF this(1) assms(2) this(2)] obtain s' where
    s': "irqs (Suc (length qs)) s = Inr s'" "ide_inv s' q" "bcache s' = fold serve (qs @ [b]) (bcache s)"
    "\<And>i c. i < NPROC \<Longrightarrow> p_state (pr s i) = SLEEPING \<Longrightarrow> c \<in> set (qs @ [b]) \<Longrightarrow>
        p_chan (pr s i) = Some (ChBuf c) \<Longrightarrow> p_state (pr s' i) = RUNNABLE"
    by auto
  then show ?thesis by (intro exI [of _ s']) auto
qed


section \<open>Queueing and waiting\<close>

lemma chain_cong: "(\<And>x. x \<in> set q \<Longrightarrow> f x = g x) \<Longrightarrow> chain f p q = chain g p q"
  by (induction q arbitrary: p) auto

lemma chain_append:
  assumes "chain f p q" and "distinct q" and "b \<notin> set q" and "f b = None" and "q \<noteq> []"
  shows "chain (f(last q := Some b)) p (q @ [b])"
  using assms
proof (induction q arbitrary: p)
  case (Cons a q)
  show ?case
  proof (cases "q = []")
    case True
    with Cons.prems show ?thesis by auto
  next
    case False
    with Cons.prems have "last q \<noteq> a" using last_in_set [OF False] by auto
    with Cons False show ?thesis by auto
  qed
qed simp

lemma queue_append_last:
  assumes "chain (qnext s) (Some c) q" and "length q \<le> Suc n"
  shows "queue_append n b c s = Inr (s\<lparr>qnext := (qnext s)(last q := Some b)\<rparr>)"
  using assms
proof (induction q arbitrary: c n)
  case (Cons a q)
  show ?case
  proof (cases q)
    case Nil
    with Cons.prems show ?thesis by (auto simp: queue_append.simps fun_upd_def)
  next
    case (Cons c' r)
    with Cons.prems obtain m where "n = Suc m" "length q \<le> Suc m" "a = c" "qnext s c = Some c'" "chain (qnext s) (Some c') q"
      by (cases n) auto
    with Cons.IH [of c' m] Cons show ?thesis by (subst queue_append.simps) (auto simp: fun_upd_def)
  qed
qed simp

lemma kide_more:
  fixes s t :: "'a kide_scheme"
  assumes "kproc.more t = kproc.more s"
  shows "bcache t = bcache s" "idequeue t = idequeue s" "qnext t = qnext s" "inb7 t = inb7 s" "ports t = ports s"
    "pio t = pio s" "ide_inv t q = ide_inv s q"
proof -
  show e: "bcache t = bcache s" "idequeue t = idequeue s" "qnext t = qnext s" "inb7 t = inb7 s" "ports t = ports s"
    "pio t = pio s"
    using assms by (cases s; cases t; simp)+
  show "ide_inv t q = ide_inv s q" by (simp add: ide_inv_def commanded_def e)
qed

text \<open>The queue with a new request, behind the others or started at once.\<close>

lemma enqueue:
  fixes s :: "'a kide_scheme"
  assumes "ide_inv s q" and "waiting (bcache s) b" and "b \<notin> set q" and "ready_times (Suc n) (inb7 s)"
  shows "\<exists>u. doE (case idequeue (s\<lparr>qnext := (qnext s)(b := None)\<rparr>) of
        None \<Rightarrow> Inr (s\<lparr>qnext := (qnext s)(b := None), idequeue := Some b\<rparr>)
      | Some c \<Rightarrow> queue_append NBUF b c (s\<lparr>qnext := (qnext s)(b := None)\<rparr>)) (\<lambda>s3.
        doE (if idequeue s3 = Some b then idestart (Some b) s3 else Inr s3) f) = f u \<and>
     ide_inv u (q @ [b]) \<and> bcache u = bcache s \<and> ptable u = ptable s \<and> cpus u = cpus s \<and> lks u = lks s \<and> me u = me s \<and>
     ready_times n (inb7 u)"
proof -
  let ?f = "(qnext s)(b := None)"
  have q: "chain (qnext s) (idequeue s) q" "distinct q" "\<forall>c\<in>set q. waiting (bcache s) c" "q \<noteq> [] \<longrightarrow> commanded s (hd q)"
    using assms(1) by (simp_all add: ide_inv_def)
  show ?thesis
  proof (cases q)
    case Nil
    let ?s3 = "s\<lparr>qnext := ?f, idequeue := Some b\<rparr>"
    have "ready_times (Suc n) (inb7 ?s3)" using assms(4) by simp
    from idestart_commands [OF this, of b] obtain rs p d where
      st: "idestart (Some b) ?s3 = Inr (?s3\<lparr>inb7 := rs, ports := p, pio := d\<rparr>)" "commanded (?s3\<lparr>inb7 := rs, ports := p, pio := d\<rparr>) b"
      "ready_times n rs"
      unfolding Let_def by blast
    let ?u = "?s3\<lparr>inb7 := rs, ports := p, pio := d\<rparr>"
    have "ide_inv ?u (q @ [b])" using st(2) assms(2) Nil by (simp add: ide_inv_def)
    with st q(1) Nil show ?thesis by (intro exI [of _ ?u]) simp
  next
    case (Cons c r)
    have fb: "?f x = qnext s x" if "x \<in> set q" for x using that assms(3) by auto
    have "chain ?f (Some c) q = chain (qnext s) (Some c) q" by (rule chain_cong) (rule fb)
    then have ch: "chain ?f (Some c) q" using q(1) Cons by auto
    have "set q \<subseteq> {..<NBUF}" using q(3) by (auto simp: waiting_def)
    then have len: "length q \<le> Suc NBUF"
      using card_mono [of "{..<NBUF}" "set q"] distinct_card [OF q(2)] by simp
    let ?u = "s\<lparr>qnext := ?f(last q := Some b)\<rparr>"
    have "queue_append NBUF b c (s\<lparr>qnext := ?f\<rparr>) = Inr ?u"
      using queue_append_last [of "s\<lparr>qnext := ?f\<rparr>" c q NBUF b] ch len by simp
    moreover have "chain (?f(last q := Some b)) (Some c) (q @ [b])"
      by (rule chain_append [OF ch q(2) assms(3)]) (simp_all add: Cons)
    moreover have "commanded ?u c" using q(4) Cons by (simp add: commanded_def)
    moreover have "idequeue s = Some c" "c \<noteq> b" using q(1) Cons assms(3) by auto
    ultimately show ?thesis
      using q(2,3) assms(2,3) ready_mono [OF assms(4), of n] Cons by (intro exI [of _ ?u]) (auto simp: ide_inv_def)
  qed
qed


lemma one_lock_release:
  assumes "one_lock s lk"
  shows "\<exists>t. release lk s = Inr t \<and> same_cpu s t \<and> lk_free (lks t lk) \<and> ncli (this_cpu t) = 0"
proof -
  let ?s = "set_lk lk ((lks s lk)\<lparr>lk_cpu := None, lk_locked := False\<rparr>) s"
  obtain c where "release lk s = Inr (set_cpu c ?s)" "ncli c = 0" "cproc c = cproc (this_cpu s)"
    using assms by (cases "intena (this_cpu s)") (auto simp: one_lock_def release_def popcli_def Let_def)
  then show ?thesis by (auto simp: same_cpu_def lk_free_def)
qed

text \<open>The wait of \<^verbatim>\<open>iderw\<close>: it sleeps once, and returns when its buffer is served.\<close>

lemma iderw_waits:
  fixes t :: "'a kide_scheme"
  assumes "cproc (this_cpu t) = Some p" and "p < NPROC" and "one_lock t IdeLk" and "lk_free (lks t PtableLk)"
    and "waiting (bcache t) b"
  shows "\<exists>s1 k. loopK (iderw_body b) t = Swtch s1 k \<and> kproc.more s1 = kproc.more t \<and>
     p_state (pr s1 p) = SLEEPING \<and> p_chan (pr s1 p) = Some (ChBuf b) \<and>
     (\<forall>v. cproc (this_cpu v) = Some p \<and> one_lock v PtableLk \<and> lk_free (lks v IdeLk) \<and>
        b_valid (bf v b) \<and> \<not> b_dirty (bf v b) \<longrightarrow> (\<exists>v'. k v = Ret () v' \<and> kproc.more v' = kproc.more v))"
proof -
  have "IdeLk \<noteq> PtableLk" by simp
  from sleep_once [OF assms(1-3) this assms(4), of "ChBuf b"] obtain s1 k where
    sl: "sleep (ChBuf b) IdeLk t = Swtch s1 k" "upto_procs t s1"
    "p_state (pr s1 p) = SLEEPING" "p_chan (pr s1 p) = Some (ChBuf b)" and
    again: "\<forall>v. cproc (this_cpu v) = Some p \<and> one_lock v PtableLk \<and> lk_free (lks v IdeLk) \<longrightarrow>
        (\<exists>s3. k v = Ret () s3 \<and> upto_procs v s3 \<and> one_lock s3 IdeLk \<and> lk_free (lks s3 PtableLk) \<and>
           pr s3 = (pr v)(p := (pr v p)\<lparr>p_chan := None\<rparr>))"
    by blast
  have body: "iderw_body b t = nap (ChBuf b) IdeLk t"
    using assms(5) by (auto simp: iderw_body_def waiting_def)
  have "loopK (iderw_body b) t = Swtch s1 (\<lambda>v. bindK (k v) (\<lambda>_. loopK (iderw_body b)))"
    by (simp add: loopK_nap [where b = "iderw_body b", OF body] sl(1))
  moreover have "\<exists>v'. bindK (k v) (\<lambda>_. loopK (iderw_body b)) = Ret () v' \<and> kproc.more v' = kproc.more v"
    if v: "cproc (this_cpu v) = Some p" "one_lock v PtableLk" "lk_free (lks v IdeLk)" "b_valid (bf v b)" "\<not> b_dirty (bf v b)" for v
  proof -
    obtain s3 where s3: "k v = Ret () s3" "upto_procs v s3" "one_lock s3 IdeLk" using again v(1-3) by blast
    have m: "kproc.more s3 = kproc.more v" using s3(2) by (simp add: upto_procs_def)
    from one_lock_release [OF s3(3)] obtain w where w: "release IdeLk s3 = Inr w" "same_cpu s3 w" by blast
    have "iderw_body b s3 = Leave (Ret () w)"
      using v(4,5) w(1) kide_more(1) [OF m] by (simp add: iderw_body_def)
    then have "loopK (iderw_body b) s3 = Ret () w" by (simp add: loopK_unfold [of "iderw_body b" s3])
    with s3(1) m same_cpu_upto [OF w(2)] show ?thesis by (simp add: upto_procs_def)
  qed
  ultimately show ?thesis using sl(2-4) by (auto simp: upto_procs_def)
qed

text \<open>
  Claim C16.  The driver meets the contract the buffer cache relies on: \<^verbatim>\<open>iderw\<close> on a buffer that waits
  to be read or written puts it behind the queue and sleeps on it, with nothing else changed; once the interrupts
  of the queue up to it have come, its process is runnable, and when that process goes on with the
  buffers so, \<^verbatim>\<open>iderw\<close> returns with the buffers and the disk as the contract leaves them after the earlier requests.
\<close>

theorem iderw_meets_contract:
  fixes s :: "'a kide_scheme"
  assumes "ide_inv s q" and "waiting (bcache s) b" and "b \<notin> set q" and "ide_idle s"
    and "cproc (this_cpu s) = Some p" and "p < NPROC" and "ncli (this_cpu s) = 0"
    and "ready_times (2 * length q + 3) (inb7 s)"
  shows "\<exists>s1 k. iderw b s = Swtch s1 k \<and> ide_inv s1 (q @ [b]) \<and> bcache s1 = bcache s \<and>
     (\<forall>t. kproc.more t = kproc.more s1 \<and> ptable t = ptable s1 \<and> ide_idle t \<longrightarrow>
        (\<exists>t'. irqs (Suc (length q)) t = Inr t' \<and> p_state (pr t' p) = RUNNABLE \<and>
          (\<forall>v. bcache v = bcache t' \<and> cproc (this_cpu v) = Some p \<and> one_lock v PtableLk \<and> lk_free (lks v IdeLk) \<longrightarrow>
             (\<exists>v' w. k v = Ret () v' \<and> disk_rw b (s\<lparr>bcache := fold serve q (bcache s)\<rparr>) = Inr w \<and> bcache v' = bcache w))))"
proof -
  let ?l = "locked IdeLk s" and ?fin = "fold serve q (bcache s)"
  have free: "lk_free (lks s IdeLk)" "lk_free (lks s PtableLk)"
    using assms(4) by (simp_all add: ide_idle_def)
  have l: "ide_inv ?l q" "waiting (bcache ?l) b" using assms(1,2) by (simp_all add: ide_inv_def)
  have r: "2 * length q + 3 = Suc (2 * length q + 2)" by simp
  have "ready_times (Suc (2 * length q + 2)) (inb7 ?l)" using assms(8) unfolding r by (simp only: kide_below)
  from enqueue [OF l assms(3) this, of "loopK (iderw_body b)"] obtain u where
    u: "iderw b s = loopK (iderw_body b) u" "ide_inv u (q @ [b])" "bcache u = bcache s" "cpus u = cpus ?l"
    "lks u = lks ?l" "me u = me ?l" "ready_times (2 * length q + 2) (inb7 u)"
    using assms(2) acquire_free [OF free(1)] by (auto simp: iderw_def waiting_def Let_def)
  have "one_lock u IdeLk" "cproc (this_cpu u) = Some p" "lk_free (lks u PtableLk)" "waiting (bcache u) b"
    using assms(2,5,7) free(2) u(3-6) by (simp_all add: one_lock_def holding_def)
  from iderw_waits [OF this(2) assms(6) this(1,3,4)] obtain s1 k where
    sw: "loopK (iderw_body b) u = Swtch s1 k" "kproc.more s1 = kproc.more u" "p_state (pr s1 p) = SLEEPING"
    "p_chan (pr s1 p) = Some (ChBuf b)" and
    again: "\<And>v. cproc (this_cpu v) = Some p \<Longrightarrow> one_lock v PtableLk \<Longrightarrow> lk_free (lks v IdeLk) \<Longrightarrow>
        b_valid (bf v b) \<Longrightarrow> \<not> b_dirty (bf v b) \<Longrightarrow> \<exists>v'. k v = Ret () v' \<and> kproc.more v' = kproc.more v"
    by blast
  note m1 = kide_more [OF sw(2)]
  have served: "\<exists>t'. irqs (Suc (length q)) t = Inr t' \<and> p_state (pr t' p) = RUNNABLE \<and> bcache t' = serve b ?fin"
    if t: "kproc.more t = kproc.more s1" "ptable t = ptable s1" "ide_idle t" for t
  proof -
    have "ide_inv t ((q @ [b]) @ [])" "ready_times (2 * length (q @ [b]) + 0) (inb7 t)"
      using u(2,7) m1 kide_more [OF t(1)] by simp_all
    from irqs_serve [OF this(1) t(3) this(2)] show ?thesis
      using sw(3,4) t(2) assms(6) u(3) m1(1) kide_more(1) [OF t(1)] by auto
  qed
  have "waiting ?fin b" using assms(2,3) by simp
  then have rw: "disk_rw b (s\<lparr>bcache := ?fin\<rparr>) = Inr (s\<lparr>bcache := serve b ?fin\<rparr>)"
    using disk_rw_serves [where b = b and s = "s\<lparr>bcache := ?fin\<rparr>"] by simp
  have "\<exists>v' w. k v = Ret () v' \<and> disk_rw b (s\<lparr>bcache := ?fin\<rparr>) = Inr w \<and> bcache v' = bcache w"
    if v: "bcache v = serve b ?fin" "cproc (this_cpu v) = Some p" "one_lock v PtableLk" "lk_free (lks v IdeLk)" for v
  proof -
    obtain v' where v': "k v = Ret () v'" "kproc.more v' = kproc.more v" using again [OF v(2-4)] v(1) by auto
    then show ?thesis using rw v(1) kide_more(1) [OF v'(2)] by auto
  qed
  with served show ?thesis using u(1,2,3) sw(1) m1 by fastforce
qed


text \<open>
  A read that ends with an error is not reported: the interrupt marks the buffer valid with the
  bytes it had, and wakes its process all the same.
\<close>

theorem read_error_not_reported:
  fixes s :: "'a kide_scheme"
  assumes "ide_idle s" and "idequeue s = Some b" and "qnext s b = None" and "\<not> b_dirty (bf s b)"
    and "idewait_loop (inb7 s) = Some (r, rs)" and "r AND (IDE_DF OR IDE_ERR) \<noteq> 0"
  shows "\<exists>s'. ideintr sector s = Inr s' \<and> b_valid (bf s' b) \<and> b_data (bf s' b) = b_data (bf s b) \<and>
     ptable s' = ptable (wakeup1 (ChBuf b) s)"
proof -
  let ?v = "buf_upd b (\<lambda>c. c\<lparr>b_valid := True, b_dirty := False\<rparr>) (s\<lparr>idequeue := None, inb7 := rs\<rparr>)"
  have free: "lk_free (lks s IdeLk)" "lk_free (lks s PtableLk)" "cli_ok s"
    using assms(1) by (simp_all add: ide_idle_def)
  have cli: "cli_ok ?v" "lk_free (lks ?v IdeLk)" "lk_free (lks ?v PtableLk)"
    using free by (simp_all add: cli_ok_def)
  have e: "idequeue (locked IdeLk (wakeup1 (ChBuf b) ?v)) = None" by (simp add: buf_upd_eq)
  have w: "idewait True (locked IdeLk s\<lparr>idequeue := None\<rparr>) = Inr (-1, locked IdeLk s\<lparr>idequeue := None, inb7 := rs\<rparr>)"
    using assms(5,6) by (simp add: idewait_def)
  have "buf_upd b (\<lambda>c. c\<lparr>b_dirty := False\<rparr>) (buf_upd b (\<lambda>c. c\<lparr>b_valid := True\<rparr>)
      (locked IdeLk s\<lparr>idequeue := None, inb7 := rs\<rparr>)) = locked IdeLk ?v"
    by (simp add: buf_upd_eq locked_def set_lk_def set_cpu_def pushcli_def Let_def)
  moreover have "wakeup (ChBuf b) (locked IdeLk ?v) = Inr (locked IdeLk (wakeup1 (ChBuf b) ?v))"
    using cli by (subst wakeup_eq) (simp_all add: quiet_locked)
  moreover have "release IdeLk (locked IdeLk (wakeup1 (ChBuf b) ?v)) = Inr (quiet (wakeup1 (ChBuf b) ?v))"
    using cli by (subst release_locked) simp_all
  ultimately have "ideintr sector s = Inr (quiet (wakeup1 (ChBuf b) ?v))"
    using assms(2-4) acquire_free [OF free(1)] w e by (simp add: ideintr_def del: bufs_lock kide_lock proc_lock)
  moreover have "ptable (quiet (wakeup1 (ChBuf b) ?v)) = ptable (wakeup1 (ChBuf b) s)"
    using ptable_wakeup1 [of "quiet ?v" s] by simp
  ultimately show ?thesis by (intro exI [of _ "quiet (wakeup1 (ChBuf b) ?v)"]) simp
qed

section \<open>A concrete driver\<close>

text \<open>
  The machine with process 1 running in slot 0, buffer 3 held for a read of sector 5, and a controller that
  is busy once and then ready.
\<close>

definition ide_boot :: kide where
  "ide_boot = \<lparr>cpus = cpus two_threads, lks = lks two_threads, me = 0, phys = phys two_threads,
     ptable = ptable two_threads, bcache = (bcache bio_boot)\<lparr>bufs := (\<lambda>_. \<lparr>b_busy = True, b_valid = False, b_dirty = False,
       b_dev = 0, b_sector = 5, b_prev = 0, b_next = 0, b_data = (\<lambda>_. 0)\<rparr>), disk := (\<lambda>_ i. of_nat i)\<rparr>,
     idequeue = None, qnext = (\<lambda>_. None), inb7 = [0x80, 0x40, 0x40, 0x40],
     ports = (\<lambda>_. 0)(0x1f3 := 5, 0x1f7 := 0x20), pio = (\<lambda>_. 0)\<rparr>"

definition ide_busy :: kide where
  "ide_busy = ide_boot\<lparr>idequeue := Some 3\<rparr>"

lemma ide_boot_ready: "ready_times 3 (inb7 ide_boot)" "ready_times 2 (inb7 ide_busy)"
  unfolding numeral_3_eq_3 numeral_2_eq_2
  by (simp_all add: ide_boot_def ide_busy_def IDE_BSY_def IDE_DRDY_def IDE_DF_def IDE_ERR_def)

lemma ide_boot_ok:
  "ide_idle ide_boot" "waiting (bcache ide_boot) 3" "ide_inv ide_boot []"
  "cproc (this_cpu ide_boot) = Some 0" "ncli (this_cpu ide_boot) = 0"
  by (simp_all add: ide_boot_def ide_idle_def two_threads_def boot_defs bio_boot_def cli_ok_def lk_free_def
      waiting_def NBUF_def ide_inv_def)

lemma ide_busy_ok: "ide_idle ide_busy" "ide_inv ide_busy [3]"
proof -
  show "ide_idle ide_busy" using ide_boot_ok(1) by (simp add: ide_busy_def ide_idle_def cli_ok_def)
  have "commanded ide_busy 3"
    by (simp add: ide_busy_def ide_boot_def commanded_def drive_at_def blk_def IDE_CMD_READ_def)
  then show "ide_inv ide_busy [3]"
    using ide_boot_ok(2) by (simp add: ide_inv_def ide_busy_def ide_boot_def)
qed

theorem queued_request_completes_witness:
  "\<exists>s'. irqs 1 ide_busy = Inr s' \<and> ide_inv s' [] \<and> b_valid (bf s' 3)"
proof -
  have "ide_inv ide_busy ([] @ 3 # [])" "ready_times (2 * length ([] :: nat list) + 2) (inb7 ide_busy)"
    using ide_busy_ok(2) ide_boot_ready(2) by (simp_all only: append_Nil list.size mult_0_right add_0)
  from queued_request_completes [OF this(1) ide_busy_ok(1) this(2)]
  show ?thesis unfolding One_nat_def list.size by blast
qed

theorem iderw_meets_contract_witness:
  "\<exists>s1 k. iderw 3 ide_boot = Swtch s1 k \<and> ide_inv s1 [3]"
proof -
  have "(0::nat) < NPROC" by (simp add: NPROC_def)
  from iderw_meets_contract [OF ide_boot_ok(3,2) _ ide_boot_ok(1,4) this ide_boot_ok(5)] ide_boot_ready(1)
  show ?thesis unfolding append_Nil list.size mult_0_right add_0 by force
qed

theorem read_error_not_reported_witness:
  "\<exists>s'. ideintr (\<lambda>_. 1) (ide_busy\<lparr>inb7 := [0x41]\<rparr>) = Inr s' \<and> b_valid (bf s' 3) \<and> b_data (bf s' 3) 7 = 0"
proof -
  let ?s = "ide_busy\<lparr>inb7 := [0x41]\<rparr>"
  have "ide_idle ?s" using ide_busy_ok(1) by (simp add: ide_idle_def cli_ok_def)
  moreover have "idequeue ?s = Some 3" "qnext ?s 3 = None" "\<not> b_dirty (bf ?s 3)" "b_data (bf ?s 3) 7 = 0"
    by (simp_all add: ide_busy_def ide_boot_def)
  moreover have "idewait_loop (inb7 ?s) = Some (0x41, [])" "(0x41 :: byte) AND (IDE_DF OR IDE_ERR) \<noteq> 0"
    by (simp_all add: IDE_BSY_def IDE_DRDY_def IDE_DF_def IDE_ERR_def)
  ultimately show ?thesis using read_error_not_reported [of ?s 3 "0x41" "[]" "\<lambda>_. 1"] by metis
qed

end
