(* ===== verification/Console.thy ===== *)
theory Console
  imports Syscall
begin

text \<open>
  The console (\<^verbatim>\<open>kernel/console.c\<close>), with the keyboard (\<^verbatim>\<open>kernel/kbd.c\<close>, \<^verbatim>\<open>kernel/kbd.h\<close>) and the serial
  line (\<^verbatim>\<open>kernel/uart.c\<close>) that feed it, and \<^verbatim>\<open>procdump\<close> of \<^verbatim>\<open>kernel/proc.c\<close>, which prints on it.
  The screen is the text memory of the CGA adapter and its cursor register; what goes to the serial line is a list of
  bytes.  The input buffer is a ring of 128 bytes with a read, a write and an edit counter.
\<close>

unbundle bit_operations_syntax

section \<open>State\<close>

record consdev =
  panicked :: bool
  locking :: bool
  crt :: "nat \<Rightarrow> 16 word"
  crt_pos :: "16 word"
  uart :: bool
  serial :: "byte list"
  ibuf :: "nat \<Rightarrow> byte"
  in_r :: uint
  in_w :: uint
  in_e :: uint
  kshift :: uint

record kcons = ksys +
  cons :: consdev

definition INPUT_BUF :: nat where "INPUT_BUF = 128"
definition BACKSPACE :: int where "BACKSPACE = 0x100"

text \<open>A routine that works on the device alone.\<close>

definition on_cons :: "(consdev \<Rightarrow> kerr + consdev) \<Rightarrow> 'a kcons_scheme \<Rightarrow> kerr + 'a kcons_scheme" where
  "on_cons f s = bindR (f (cons s)) (\<lambda>d. Inr (s\<lparr>cons := d\<rparr>))"

section \<open>Output\<close>

text \<open>
  The end of \<^verbatim>\<open>cgaputc\<close>: scroll when the cursor has left the 24 lines, set the cursor and blank its cell.
\<close>

definition cga_settle :: "nat \<Rightarrow> (nat \<Rightarrow> 16 word) \<Rightarrow> consdev \<Rightarrow> kerr + consdev" where
  "cga_settle p1 m1 d =
     (if 24 \<le> p1 div 80 then
        let p2 = p1 - 80;
            m2 = (\<lambda>i. if i < 23 * 80 then m1 (80 + i) else m1 i);
            m3 = (\<lambda>i. if p2 \<le> i \<and> i < 24 * 80 then 0 else m2 i)
        in if 24 * 80 < p2 then Inl Fault
           else Inr (d\<lparr>crt_pos := of_nat p2, crt := m3(p2 := 0x720)\<rparr>)
      else Inr (d\<lparr>crt_pos := of_nat p1, crt := m1(p1 := 0x720)\<rparr>))"

definition cgaputc :: "int \<Rightarrow> consdev \<Rightarrow> kerr + consdev" where
  "cgaputc c d =
     (let p0 = unat (crt_pos d) in
      if c = 10 then cga_settle (p0 + (80 - p0 mod 80)) (crt d) d
      else if c = BACKSPACE then cga_settle (if 0 < p0 then p0 - 1 else p0) (crt d) d
      else cga_settle (p0 + 1) ((crt d)(p0 := (word_of_int c AND 0xFF) OR 0x700)) d)"

definition uartputc :: "int \<Rightarrow> consdev \<Rightarrow> consdev" where
  "uartputc c d = (if uart d then d\<lparr>serial := serial d @ [word_of_int c]\<rparr> else d)"

definition consputc :: "int \<Rightarrow> consdev \<Rightarrow> kerr + consdev" where
  "consputc c d =
     (if panicked d then Inl Loops
      else
        let d1 = (if c = BACKSPACE then uartputc 8 (uartputc 32 (uartputc 8 d)) else uartputc c d) in
        cgaputc c d1)"

fun consputs :: "int list \<Rightarrow> consdev \<Rightarrow> kerr + consdev" where
  "consputs [] d = Inr d"
| "consputs (c # cs) d = bindR (consputc c d) (consputs cs)"

text \<open>
  \<^verbatim>\<open>printint\<close>: the digits into an array of 16 bytes, and printed from its end.
\<close>

definition hex_digits :: "byte list" where
  "hex_digits = [48, 49, 50, 51, 52, 53, 54, 55, 56, 57, 97, 98, 99, 100, 101, 102]"

function k_digits :: "uint \<Rightarrow> uint \<Rightarrow> nat \<Rightarrow> kerr + byte list" where
  "k_digits x base i =
     (if 16 \<le> i \<or> base = 0 \<or> length hex_digits \<le> unat (x mod base) then Inl Fault
      else if x div base = 0 then Inr [hex_digits ! unat (x mod base)]
      else bindR (k_digits (x div base) base (Suc i)) (\<lambda>ds. Inr (hex_digits ! unat (x mod base) # ds)))"
  by pat_completeness auto
termination by (relation "measure (\<lambda>(x, base, i). 16 - i)") auto

declare k_digits.simps [simp del]

definition k_printint :: "uint \<Rightarrow> uint \<Rightarrow> bool \<Rightarrow> consdev \<Rightarrow> kerr + consdev" where
  "k_printint xx base sg d =
     (let neg = sg \<and> sint xx < 0 in
      bindR (k_digits (if neg then - xx else xx) base 0) (\<lambda>ds.
      if neg \<and> 16 \<le> length ds then Inl Fault
      else consputs (map sint (rev (ds @ (if neg then [45] else [])))) d))"

text \<open>
  The arguments of \<^verbatim>\<open>cprintf\<close> are numbers, or strings of the kernel, \<open>None\<close> the null pointer.  A conversion
  for which the wrong kind of argument or none was passed, which takes a word of the stack for it, fails.
\<close>

datatype carg = Num uint | Str "byte list option"

definition str :: "string \<Rightarrow> byte list" where
  "str s = map of_char s"

fun cprintf_loop :: "carg list \<Rightarrow> byte list \<Rightarrow> consdev \<Rightarrow> kerr + consdev" where
  "cprintf_loop args [] d = Inr d"
| "cprintf_loop args [c] d = (if c = 37 then Inr d else consputc (uint c) d)"
| "cprintf_loop args (c # c1 # fmt) d =
     (if c \<noteq> 37 then bindR (consputc (uint c) d) (cprintf_loop args (c1 # fmt))
      else if c1 = 100 \<or> c1 = 120 \<or> c1 = 112 then
        (case args of
           Num n # as \<Rightarrow>
             bindR (k_printint n (if c1 = 100 then 10 else 16) (c1 = 100) d) (cprintf_loop as fmt)
         | _ \<Rightarrow> Inl Fault)
      else if c1 = 115 then
        (case args of
           Str so # as \<Rightarrow>
             bindR (consputs (map sint (case so of None \<Rightarrow> str ''(null)'' | Some s \<Rightarrow> s)) d) (cprintf_loop as fmt)
         | _ \<Rightarrow> Inl Fault)
      else if c1 = 37 then bindR (consputc 37 d) (cprintf_loop args fmt)
      else bindR (consputs [37, uint c1] d) (cprintf_loop args fmt))"

definition cprintf :: "string \<Rightarrow> carg list \<Rightarrow> 'a kcons_scheme \<Rightarrow> kerr + 'a kcons_scheme" where
  "cprintf fmt args s =
     (let lkd = locking (cons s) in
      bindR (if lkd then acquire ConsLk s else Inr s) (\<lambda>s1.
      bindR (on_cons (cprintf_loop args (str fmt)) s1) (\<lambda>s2.
      if lkd then release ConsLk s2 else Inr s2)))"

text \<open>The return addresses on a kernel stack, for at most \<open>n\<close> frames, and zeros for the rest.\<close>

fun getcallerpcs :: "nat \<Rightarrow> bmem \<Rightarrow> uint \<Rightarrow> uint list" where
  "getcallerpcs 0 m ebp = []"
| "getcallerpcs (Suc n) m ebp =
     (if ebp = 0 \<or> ebp < 0x100000 \<or> ebp = 0xFFFFFFFF then replicate (Suc n) 0
      else load32 m (unat (ebp + 4)) # getcallerpcs n m (load32 m (unat ebp)))"

definition state_name :: "procstate \<Rightarrow> string" where
  "state_name st =
     (case st of UNUSED \<Rightarrow> ''unused'' | EMBRYO \<Rightarrow> ''embryo'' | SLEEPING \<Rightarrow> ''sleep '' | RUNNABLE \<Rightarrow> ''runble''
      | RUNNING \<Rightarrow> ''run   '' | ZOMBIE \<Rightarrow> ''zombie'')"

definition CTX_EBP :: nat where "CTX_EBP = 12"

text \<open>The addresses are printed up to the first zero.\<close>

fun print_pcs :: "uint list \<Rightarrow> 'a kcons_scheme \<Rightarrow> kerr + 'a kcons_scheme" where
  "print_pcs [] s = Inr s"
| "print_pcs (p # ps) s = (if p = 0 then Inr s else bindR (cprintf '' %p'' [Num p] s) (print_pcs ps))"

definition proc_name :: "proc \<Rightarrow> byte list" where
  "proc_name p = takeWhile (\<lambda>c. c \<noteq> 0) (map (p_name p) [0..<16])"

fun procdump_loop :: "nat list \<Rightarrow> 'a kcons_scheme \<Rightarrow> kerr + 'a kcons_scheme" where
  "procdump_loop [] s = Inr s"
| "procdump_loop (i # is) s =
     (let p = pr s i in
      if p_state p = UNUSED then procdump_loop is s
      else
        bindR (cprintf ''%d %s %s''
          [Num (of_int (p_pid p)), Str (Some (str (state_name (p_state p)))), Str (Some (proc_name p))] s) (\<lambda>s1.
        bindR (if p_state p = SLEEPING
               then print_pcs (getcallerpcs 10 (ram (phys s1))
                 (load32 (ram (phys s1)) (p_context p + CTX_EBP))) s1
               else Inr s1) (\<lambda>s2.
        bindR (cprintf [CHR 0x0A] [] s2) (procdump_loop is))))"

definition procdump :: "'a kcons_scheme \<Rightarrow> kerr + 'a kcons_scheme" where
  "procdump s = procdump_loop [0..<NPROC] s"

section \<open>Line editing\<close>

text \<open>The place of a counter in the ring, and the byte stored there.\<close>

definition ring_at :: "uint \<Rightarrow> nat" where
  "ring_at n = unat n mod INPUT_BUF"

lemma cga_settle_eq: "cga_settle p m d = Inr d' \<Longrightarrow> \<exists>x m'. d' = d\<lparr>crt_pos := x, crt := m'\<rparr>"
  by (auto simp: cga_settle_def Let_def split: if_splits)

lemma cgaputc_eq: "cgaputc c d = Inr d' \<Longrightarrow> \<exists>x m'. d' = d\<lparr>crt_pos := x, crt := m'\<rparr>"
  unfolding cgaputc_def Let_def by (auto simp del: One_nat_def split: if_split_asm dest: cga_settle_eq)

lemma consputc_keeps:
  assumes "consputc c d = Inr d'"
  shows "ibuf d' = ibuf d" "in_r d' = in_r d" "in_w d' = in_w d" "in_e d' = in_e d" "panicked d' = panicked d"
    "locking d' = locking d" "kshift d' = kshift d" "uart d' = uart d"
  using assms unfolding consputc_def Let_def uartputc_def
  by (auto split: if_split_asm dest!: cgaputc_eq)

function kill_line :: "consdev \<Rightarrow> kerr + consdev" where
  "kill_line d =
     (if in_e d \<noteq> in_w d \<and> ibuf d (ring_at (in_e d - 1)) \<noteq> 10
      then bindR (consputc BACKSPACE (d\<lparr>in_e := in_e d - 1\<rparr>)) kill_line
      else Inr d)"
  by pat_completeness auto
termination
proof (relation "measure (\<lambda>d. unat (in_e d - in_w d))", goal_cases)
  case (2 d d')
  have "in_e d' - in_w d' = in_e d - in_w d - 1"
    using consputc_keeps(3,4) [OF 2(2)] by simp
  moreover have "in_e d - in_w d \<noteq> 0" using 2(1) by simp
  then have "unat (in_e d - in_w d - 1) < unat (in_e d - in_w d)"
    by (metis measure_unat)
  ultimately show ?case by simp
qed simp

declare kill_line.simps [simp del]

text \<open>One character in \<^verbatim>\<open>consoleintr\<close>, with \<^verbatim>\<open>input.lock\<close> held.\<close>

definition input_char :: "int \<Rightarrow> 'a kcons_scheme \<Rightarrow> kerr + 'a kcons_scheme" where
  "input_char c s =
     (let d = cons s in
      if c = 16 then procdump s
      else if c = 21 then on_cons kill_line s
      else if c = 8 \<or> c = 127 then
        (if in_e d \<noteq> in_w d then on_cons (\<lambda>d. consputc BACKSPACE (d\<lparr>in_e := in_e d - 1\<rparr>)) s else Inr s)
      else if c \<noteq> 0 \<and> in_e d - in_r d < of_nat INPUT_BUF then
        let c1 = (if c = 13 then 10 else c);
            d1 = d\<lparr>ibuf := (ibuf d)(ring_at (in_e d) := word_of_int c1), in_e := in_e d + 1\<rparr>
        in bindR (consputc c1 d1) (\<lambda>d2.
          if c1 = 10 \<or> c1 = 4 \<or> in_e d2 = in_r d2 + of_nat INPUT_BUF
          then wakeup ChInput (s\<lparr>cons := d2\<lparr>in_w := in_e d2\<rparr>\<rparr>)
          else Inr (s\<lparr>cons := d2\<rparr>))
      else Inr s)"

fun input_chars :: "int list \<Rightarrow> 'a kcons_scheme \<Rightarrow> kerr + 'a kcons_scheme" where
  "input_chars [] s = Inr s"
| "input_chars (c # cs) s = bindR (input_char c s) (input_chars cs)"

text \<open>\<^verbatim>\<open>consoleintr\<close> with the characters \<^verbatim>\<open>getc\<close> returns before its first negative result.\<close>

definition consoleintr :: "int list \<Rightarrow> 'a kcons_scheme \<Rightarrow> kerr + 'a kcons_scheme" where
  "consoleintr cs s = bindR (acquire InputLk s) (\<lambda>s1. bindR (input_chars cs s1) (release InputLk))"

section \<open>The device routines\<close>

text \<open>The inner loop of \<^verbatim>\<open>consoleread\<close>: wait for a line.\<close>

definition input_body :: "nat \<Rightarrow> 'a kcons_scheme \<Rightarrow> ('a kcons_scheme, bool) turn" where
  "input_body ip s =
     (if in_r (cons s) = in_w (cons s) then
        (case am_killed s of
           Inl e \<Rightarrow> Leave (Err e)
         | Inr k \<Rightarrow>
             if k then Leave (doE (release InputLk s) (\<lambda>s1. bindK (ilock (Some ip) s1) (\<lambda>_. Ret False)))
             else nap ChInput InputLk s)
      else Leave (Ret True s))"

text \<open>The outer loop, with the bytes read so far; \<open>None\<close> for a process that was killed.\<close>

function consoleread_loop :: "nat \<Rightarrow> dst \<Rightarrow> int \<Rightarrow> byte list \<Rightarrow> 'a kcons_scheme \<Rightarrow>
    ('a kcons_scheme, byte list option) run" where
  "consoleread_loop ip dst target got s =
     (if int (length got) < target then
        bindK (loopK (input_body ip) s) (\<lambda>ok s1.
        if \<not> ok then Ret None s1
        else
          let d = cons s1; c = ibuf d (ring_at (in_r d)); s2 = s1\<lparr>cons := d\<lparr>in_r := in_r d + 1\<rparr>\<rparr> in
          if c = 4 then
            Ret (Some got) (if got \<noteq> [] then s2\<lparr>cons := (cons s2)\<lparr>in_r := in_r (cons s2) - 1\<rparr>\<rparr> else s2)
          else
            doE (copy_to dst (length got) [c] s2) (\<lambda>s3.
            if c = 10 then Ret (Some (got @ [c])) s3
            else consoleread_loop ip dst target (got @ [c]) s3))
      else Ret (Some got) s)"
  by pat_completeness auto
termination
  by (relation "measure (\<lambda>(ip, dst, target, got, s). nat (target - int (length got)))") auto

declare consoleread_loop.simps [simp del]

definition consoleread :: "nat \<Rightarrow> dst \<Rightarrow> int \<Rightarrow> 'a kcons_scheme \<Rightarrow> ('a kcons_scheme, int \<times> byte list) run" where
  "consoleread ip dst n s =
     doE (iunlock (Some ip) s) (\<lambda>s1.
     doE (acquire InputLk s1) (\<lambda>s2.
     bindK (consoleread_loop ip dst n [] s2) (\<lambda>r s3.
     case r of
       None \<Rightarrow> Ret (-1, []) s3
     | Some bs \<Rightarrow>
         doE (release InputLk s3) (\<lambda>s4.
         bindK (ilock (Some ip) s4) (\<lambda>_. Ret (int (length bs), bs))))))"

function consolewrite_loop :: "src \<Rightarrow> int \<Rightarrow> nat \<Rightarrow> 'a kcons_scheme \<Rightarrow> kerr + 'a kcons_scheme" where
  "consolewrite_loop src n i s =
     (if int i < n then
        bindR (copy_from src i 1 s) (\<lambda>bs.
        bindR (on_cons (consputc (uint (hd bs))) s) (consolewrite_loop src n (i + 1)))
      else Inr s)"
  by pat_completeness auto
termination by (relation "measure (\<lambda>(src, n, i, s). nat n - i)") auto

declare consolewrite_loop.simps [simp del]

definition consolewrite :: "nat \<Rightarrow> src \<Rightarrow> int \<Rightarrow> 'a kcons_scheme \<Rightarrow> ('a kcons_scheme, int) run" where
  "consolewrite ip src n s =
     doE (iunlock (Some ip) s) (\<lambda>s1.
     doE (acquire ConsLk s1) (\<lambda>s2.
     doE (consolewrite_loop src n 0 s2) (\<lambda>s3.
     doE (release ConsLk s3) (\<lambda>s4.
     bindK (ilock (Some ip) s4) (\<lambda>_. Ret n)))))"

definition CONSOLE :: nat where "CONSOLE = 1"

definition consoleinit :: "(nat \<Rightarrow> 'a kcons_scheme devsw) \<Rightarrow> 'a kcons_scheme \<Rightarrow>
    (nat \<Rightarrow> 'a kcons_scheme devsw) \<times> 'a kcons_scheme" where
  "consoleinit devs s =
     (let s1 = initlock InputLk ''input'' (initlock ConsLk ''console'' s) in
      (devs(CONSOLE := (devs CONSOLE)\<lparr>d_write := Some consolewrite, d_read := Some consoleread\<rparr>),
       s1\<lparr>cons := (cons s1)\<lparr>locking := True\<rparr>\<rparr>))"

section \<open>The keyboard\<close>

definition SHIFT :: uint where "SHIFT = 1"
definition CTL :: uint where "CTL = 2"
definition ALT :: uint where "ALT = 4"
definition CAPSLOCK :: uint where "CAPSLOCK = 8"
definition NUMLOCK :: uint where "NUMLOCK = 16"
definition SCROLLLOCK :: uint where "SCROLLLOCK = 32"
definition E0ESC :: uint where "E0ESC = 64"

text \<open>A table given by its first entries and by single ones; the rest is 0.\<close>

definition key_table :: "byte list \<Rightarrow> (nat \<times> byte) list \<Rightarrow> nat \<Rightarrow> byte" where
  "key_table ks es i = (case map_of es i of Some v \<Rightarrow> v | None \<Rightarrow> if i < length ks then ks ! i else 0)"

definition shiftcode :: "nat \<Rightarrow> uint" where
  "shiftcode i =
     (if i = 0x1D \<or> i = 0x9D then CTL else if i = 0x2A \<or> i = 0x36 then SHIFT
      else if i = 0x38 \<or> i = 0xB8 then ALT else 0)"

definition togglecode :: "nat \<Rightarrow> uint" where
  "togglecode i = (if i = 0x3A then CAPSLOCK else if i = 0x45 then NUMLOCK else if i = 0x46 then SCROLLLOCK else 0)"

text \<open>The keys with codes from 0x97 on, which a prefix byte 0xE0 selects.\<close>

definition far_keys :: "byte \<Rightarrow> byte \<Rightarrow> (nat \<times> byte) list" where
  "far_keys ret sl =
     [(0x9C, ret), (0xB5, sl), (0xC8, 0xE2), (0xD0, 0xE3), (0xC9, 0xE6), (0xD1, 0xE7), (0xCB, 0xE4), (0xCD, 0xE5),
      (0x97, 0xE0), (0xCF, 0xE1), (0xD2, 0xE8), (0xD3, 0xE9)]"

definition normalmap :: "nat \<Rightarrow> byte" where
  "normalmap = key_table
     ([0, 0x1B] @ str ''1234567890-='' @ [8, 9] @ str ''qwertyuiop[]'' @ [10, 0] @ str ''asdfghjkl;'' @
      [39, 96, 0, 92] @ str ''zxcvbnm,./'' @ [0, 42, 0, 32] @ replicate 13 0 @ str ''789-456+1230.'')
     (far_keys 10 47)"

definition shiftmap :: "nat \<Rightarrow> byte" where
  "shiftmap = key_table
     ([0, 27] @ str ''!@#$%^&*()_+'' @ [8, 9] @ str ''QWERTYUIOP{}'' @ [10, 0] @ str ''ASDFGHJKL:'' @
      [34, 126, 0, 124] @ str ''ZXCVBNM<>?'' @ [0, 42, 0, 32] @ replicate 13 0 @ str ''789-456+1230.'')
     (far_keys 10 47)"

text \<open>The control character of a letter: \<^verbatim>\<open>C(x)\<close> is \<^verbatim>\<open>x - '@'\<close>.\<close>

definition ctl_str :: "string \<Rightarrow> byte list" where
  "ctl_str s = map (\<lambda>c. c - 64) (str s)"

definition ctlmap :: "nat \<Rightarrow> byte" where
  "ctlmap = key_table
     (replicate 16 0 @ ctl_str ''QWERTYUIOP'' @ [0, 0, 13, 0] @ ctl_str ''ASDFGHJKL'' @ [0, 0, 0, 0, 28] @
      ctl_str ''ZXCVBNM'' @ [0, 0] @ ctl_str ''/'' @ [0, 0])
     (far_keys 13 (47 - 64))"

definition charcode :: "uint \<Rightarrow> nat \<Rightarrow> byte" where
  "charcode sh = (if sh = 0 then normalmap else if sh = 1 then shiftmap else ctlmap)"

text \<open>\<^verbatim>\<open>kbdgetc\<close> on a byte from the data port: the character, 0 for none, and the new state of the shift keys.\<close>

definition kbdgetc :: "uint \<Rightarrow> byte \<Rightarrow> uint \<times> uint" where
  "kbdgetc shift b =
     (let data0 = ucast b :: uint in
      if data0 = 0xE0 then (0, shift OR E0ESC)
      else if data0 AND 0x80 \<noteq> 0 then
        let data = (if shift AND E0ESC \<noteq> 0 then data0 else data0 AND 0x7F)
        in (0, shift AND NOT (shiftcode (unat data) OR E0ESC))
      else
        let data = (if shift AND E0ESC \<noteq> 0 then data0 OR 0x80 else data0);
            shift1 = (if shift AND E0ESC \<noteq> 0 then shift AND NOT E0ESC else shift);
            shift2 = (shift1 OR shiftcode (unat data)) XOR togglecode (unat data);
            c = ucast (charcode (shift2 AND (CTL OR SHIFT)) (unat data)) :: uint
        in (if shift2 AND CAPSLOCK \<noteq> 0 then
              (if 97 \<le> c \<and> c \<le> 122 then c + (65 - 97) else if 65 \<le> c \<and> c \<le> 90 then c + (97 - 65) else c)
            else c, shift2))"

fun kbd_codes :: "uint \<Rightarrow> byte list \<Rightarrow> uint list \<times> uint" where
  "kbd_codes sh [] = ([], sh)"
| "kbd_codes sh (b # bs) =
     (let (c, sh1) = kbdgetc sh b; (cs, sh2) = kbd_codes sh1 bs in (c # cs, sh2))"

text \<open>The two interrupts, with the bytes the controller has waiting.\<close>

definition kbdintr :: "byte list \<Rightarrow> 'a kcons_scheme \<Rightarrow> kerr + 'a kcons_scheme" where
  "kbdintr bs s =
     (let (cs, sh) = kbd_codes (kshift (cons s)) bs in
      bindR (consoleintr (map sint cs) s) (\<lambda>s1. Inr (s1\<lparr>cons := (cons s1)\<lparr>kshift := sh\<rparr>\<rparr>)))"

definition uartintr :: "byte list \<Rightarrow> 'a kcons_scheme \<Rightarrow> kerr + 'a kcons_scheme" where
  "uartintr bs s = consoleintr (if uart (cons s) then map uint bs else []) s"

text \<open>\<^verbatim>\<open>uartinit\<close>, with the status the serial port answers: 0xFF when there is none.\<close>

definition uartinit :: "byte \<Rightarrow> 'a kcons_scheme \<Rightarrow> 'a kcons_scheme" where
  "uartinit status s =
     (if status = 0xFF then s
      else s\<lparr>cons := fold (\<lambda>c. uartputc (uint c)) (str ''xv6...'' @ [10]) ((cons s)\<lparr>uart := True\<rparr>)\<rparr>)"

end
