(* ===== verification/ConsoleInv.thy ===== *)
theory ConsoleInv
  imports Console SysInv
begin

text \<open>
  The console: the cursor stays on the screen, the input buffer is a line editor, and a read takes one line.
\<close>

section \<open>The screen\<close>

definition screen_ok :: "consdev \<Rightarrow> bool" where
  "screen_ok d \<longleftrightarrow> \<not> panicked d \<and> unat (crt_pos d) < 24 * 80"

lemma cga_settle_ok:
  assumes "p \<le> 24 * 80"
  shows "\<exists>d'. cga_settle p m d = Inr d' \<and> unat (crt_pos d') < 24 * 80 \<and> panicked d' = panicked d \<and>
    (\<forall>i\<ge>24 * 80. crt d' i = m i)"
proof (cases "p = 24 * 80")
  case True
  then show ?thesis by (simp add: cga_settle_def Let_def take_bit_eq_mod)
next
  case False
  with assms have p: "p < 24 * 80" "\<not> 24 \<le> p div 80" by auto
  then have "unat (of_nat p :: 16 word) = p" by (simp add: unat_of_nat take_bit_eq_mod)
  with p show ?thesis by (simp add: cga_settle_def)
qed

lemma next_line: "p < 24 * 80 \<Longrightarrow> p + (80 - p mod 80) \<le> 24 * 80" for p :: nat
  using mult_div_mod_eq [of 80 p] less_mult_imp_div_less [of p 24 80] by linarith

lemma cgaputc_ok:
  assumes "unat (crt_pos d) < 24 * 80"
  shows "\<exists>d'. cgaputc c d = Inr d' \<and> unat (crt_pos d') < 24 * 80 \<and> panicked d' = panicked d \<and>
    (\<forall>i\<ge>24 * 80. crt d' i = crt d i)"
proof -
  let ?p = "unat (crt_pos d)"
  have "?p + (80 - ?p mod 80) \<le> 24 * 80" using assms by (rule next_line)
  moreover have "(if 0 < ?p then ?p - 1 else ?p) \<le> 24 * 80" "?p + 1 \<le> 24 * 80" using assms by auto
  ultimately have settle: "\<exists>d'. cga_settle q m d = Inr d' \<and> unat (crt_pos d') < 24 * 80 \<and> panicked d' = panicked d \<and>
      (\<forall>i\<ge>24 * 80. crt d' i = m i)" if "q \<in> {?p + (80 - ?p mod 80), if 0 < ?p then ?p - 1 else ?p, ?p + 1}" for q m
    using that by (intro cga_settle_ok) auto
  consider "c = 10" | "c = BACKSPACE" "c \<noteq> 10" | "c \<noteq> 10" "c \<noteq> BACKSPACE" by blast
  then show ?thesis
  proof cases
    case 1
    with settle [of "?p + (80 - ?p mod 80)" "crt d"] show ?thesis by (simp add: cgaputc_def Let_def)
  next
    case 2
    with settle [of "if 0 < ?p then ?p - 1 else ?p" "crt d"] show ?thesis
      by (simp add: cgaputc_def Let_def)
  next
    case 3
    let ?m = "(crt d)(?p := (word_of_int c AND 0xFF) OR 0x700)"
    from settle [of "?p + 1" ?m] obtain d' where d': "cga_settle (?p + 1) ?m d = Inr d'"
      "unat (crt_pos d') < 24 * 80" "panicked d' = panicked d" "\<forall>i\<ge>24 * 80. crt d' i = ?m i" by blast
    have "\<forall>i\<ge>24 * 80. crt d' i = crt d i" using d'(4) assms by auto
    moreover have "cgaputc c d = Inr d'" using 3 d'(1) by (simp add: cgaputc_def Let_def)
    ultimately show ?thesis using d'(2,3) by blast
  qed
qed

lemma consputc_ok:
  assumes "screen_ok d"
  shows "\<exists>d'. consputc c d = Inr d' \<and> screen_ok d' \<and> (\<forall>i\<ge>24 * 80. crt d' i = crt d i)"
proof -
  define d1 where "d1 = (if c = BACKSPACE then uartputc 8 (uartputc 32 (uartputc 8 d)) else uartputc c d)"
  have d1: "crt_pos d1 = crt_pos d" "panicked d1 = panicked d" "crt d1 = crt d" by (simp_all add: d1_def uartputc_def)
  have "consputc c d = cgaputc c d1" using assms by (simp add: consputc_def screen_ok_def d1_def)
  with cgaputc_ok [of d1 c] assms d1 show ?thesis by (auto simp: screen_ok_def)
qed

lemma consputs_ok:
  "screen_ok d \<Longrightarrow> \<exists>d'. consputs cs d = Inr d' \<and> screen_ok d' \<and> (\<forall>i\<ge>24 * 80. crt d' i = crt d i)"
proof (induction cs arbitrary: d)
  case (Cons c cs)
  from consputc_ok [OF Cons.prems, of c] obtain d1 where "consputc c d = Inr d1" "screen_ok d1"
    "\<forall>i\<ge>24 * 80. crt d1 i = crt d i" by blast
  with Cons.IH [of d1] show ?case by auto
qed simp

text \<open>
  Whatever is printed, the cursor stays on the 24 lines of the screen and no cell behind them is
  written: lines are scrolled up in time, also when the text ends a line in the last column.
\<close>

theorem console_stays_on_screen:
  assumes "\<not> panicked d" "unat (crt_pos d) < 24 * 80"
  shows "\<exists>d'. consputs cs d = Inr d' \<and> unat (crt_pos d') < 24 * 80 \<and> (\<forall>i\<ge>24 * 80. crt d' i = crt d i)"
  using consputs_ok [of d cs] assms by (auto simp: screen_ok_def)

section \<open>The input ring\<close>

definition ring_bytes :: "(nat \<Rightarrow> byte) \<Rightarrow> uint \<Rightarrow> nat \<Rightarrow> byte list" where
  "ring_bytes f a n = map (\<lambda>i. f (ring_at (a + of_nat i))) [0..<n]"

lemma ring_at_add: "ring_at (a + of_nat i) = (unat a + i) mod INPUT_BUF"
  unfolding ring_at_def by (rule counter_mod) (simp add: INPUT_BUF_def)

lemma ring_at_apart: "i < k \<Longrightarrow> k < INPUT_BUF \<Longrightarrow> ring_at (a + of_nat i) \<noteq> ring_at (a + of_nat k)"
  using mod_apart [of i k INPUT_BUF "unat a"] by (auto simp: ring_at_add)

lemma ring_bytes_simps [simp]: "length (ring_bytes f a n) = n" "ring_bytes f a 0 = []"
  by (simp_all add: ring_bytes_def)

lemma ring_bytes_Suc: "ring_bytes f a (Suc n) = ring_bytes f a n @ [f (ring_at (a + of_nat n))]"
  by (simp add: ring_bytes_def)

lemma ring_bytes_upd:
  "n \<le> k \<Longrightarrow> k < INPUT_BUF \<Longrightarrow> ring_bytes (f(ring_at (a + of_nat k) := x)) a n = ring_bytes f a n"
  using ring_at_apart [of _ k a] by (fastforce simp: ring_bytes_def)

text \<open>
  The abstract view: the bytes typed and not yet read, and how many of them are committed.
\<close>

definition typed :: "consdev \<Rightarrow> byte list" where
  "typed d = ring_bytes (ibuf d) (in_r d) (unat (in_e d - in_r d))"

definition committed :: "consdev \<Rightarrow> nat" where
  "committed d = unat (in_w d - in_r d)"

definition input_lines :: "consdev \<Rightarrow> byte list \<times> byte list" where
  "input_lines d = (take (committed d) (typed d), drop (committed d) (typed d))"

definition input_ok :: "consdev \<Rightarrow> bool" where
  "input_ok d \<longleftrightarrow> committed d \<le> length (typed d) \<and> length (typed d) \<le> INPUT_BUF \<and> 10 \<notin> set (drop (committed d) (typed d))"

lemma length_typed: "length (typed d) = unat (in_e d - in_r d)"
  by (simp add: typed_def)

lemma edit_empty: "in_e d = in_w d \<longleftrightarrow> length (typed d) = committed d"
  by (simp add: length_typed committed_def word_unat_eq_iff [symmetric])

text \<open>Taking the last byte back, and adding one.\<close>

lemma typed_back:
  assumes "typed d \<noteq> []"
  shows "typed (d\<lparr>in_e := in_e d - 1\<rparr>) = butlast (typed d)" "last (typed d) = ibuf d (ring_at (in_e d - 1))"
proof -
  obtain n where n: "unat (in_e d - in_r d) = Suc n" using assms by (cases "unat (in_e d - in_r d)") (auto simp: typed_def)
  have "in_e d - in_r d \<noteq> 0" using n by auto
  then have "unat (in_e d - in_r d - 1) = n" using n by (simp add: unat_minus_one)
  then have m: "unat (in_e d - 1 - in_r d) = n" by (simp add: algebra_simps)
  have "in_e d = in_r d + of_nat (unat (in_e d - in_r d))" by simp
  then have "in_e d = in_r d + of_nat (Suc n)" unfolding n .
  then have b: "in_r d + of_nat n = in_e d - 1" by simp
  show "typed (d\<lparr>in_e := in_e d - 1\<rparr>) = butlast (typed d)" "last (typed d) = ibuf d (ring_at (in_e d - 1))"
    by (simp_all add: typed_def n m ring_bytes_Suc b)
qed

lemma typed_add:
  assumes "length (typed d) < INPUT_BUF"
  shows "typed (d\<lparr>ibuf := (ibuf d)(ring_at (in_e d) := x), in_e := in_e d + 1\<rparr>) = typed d @ [x]"
proof -
  let ?n = "unat (in_e d - in_r d)"
  have n: "?n < INPUT_BUF" using assms by (simp add: length_typed)
  have e: "in_e d = in_r d + of_nat ?n" by simp
  have "unat (in_e d - in_r d + 1) = Suc ?n"
    using n by (subst unat_add_lem [THEN iffD1]) (simp_all add: INPUT_BUF_def)
  then have "unat (in_e d + 1 - in_r d) = Suc ?n" by (simp add: algebra_simps)
  with ring_bytes_upd [of ?n ?n "ibuf d" "in_r d" x] n e show ?thesis
    by (simp add: typed_def ring_bytes_Suc)
qed

section \<open>The line editor\<close>

text \<open>
  What a character does to the committed bytes and the line being edited: control-U drops the line, backspace its
  last byte; any other one is added while there is room, and a newline, a control-D or a full buffer commits the line.
\<close>

definition feed :: "byte list \<times> byte list \<Rightarrow> int \<Rightarrow> byte list \<times> byte list" where
  "feed p c =
     (case p of (ds, es) \<Rightarrow>
      if c = 21 then (ds, [])
      else if c = 8 \<or> c = 127 then (ds, butlast es)
      else if c \<noteq> 0 \<and> length ds + length es < INPUT_BUF then
        let es' = es @ [word_of_int (if c = 13 then 10 else c)] in
        if c = 10 \<or> c = 13 \<or> c = 4 \<or> length ds + length es' = INPUT_BUF then (ds @ es', []) else (ds, es')
      else (ds, es))"

lemma typed_out [simp]:
  "typed (d\<lparr>in_w := w\<rparr>) = typed d" "committed (d\<lparr>in_w := in_e d\<rparr>) = length (typed d)"
  by (simp_all add: typed_def committed_def)

lemma typed_consputc:
  assumes "consputc c d = Inr d'"
  shows "typed d' = typed d" "committed d' = committed d"
  using consputc_keeps [OF assms] by (simp_all add: typed_def committed_def)

lemma kill_line_kills:
  assumes "screen_ok d" "input_ok d"
  shows "\<exists>d'. kill_line d = Inr d' \<and> screen_ok d' \<and> typed d' = take (committed d) (typed d) \<and> committed d' = committed d"
  using assms
proof (induction "length (typed d)" arbitrary: d)
  case 0
  then have "in_e d = in_w d" by (simp add: edit_empty input_ok_def)
  with 0 show ?case by (subst kill_line.simps) simp
next
  case (Suc n)
  show ?case
  proof (cases "in_e d = in_w d")
    case True
    with Suc.prems show ?thesis by (subst kill_line.simps) (simp add: edit_empty)
  next
    case False
    with Suc.prems(2) have lt: "committed d < length (typed d)" by (auto simp: edit_empty input_ok_def)
    then have ne: "typed d \<noteq> []" by auto
    define d0 where "d0 = d\<lparr>in_e := in_e d - 1\<rparr>"
    have d0: "typed d0 = butlast (typed d)" "committed d0 = committed d" "screen_ok d0"
      using typed_back(1) [OF ne] Suc.prems(1) by (simp_all add: d0_def committed_def screen_ok_def)
    have "last (typed d) \<in> set (drop (committed d) (typed d))" using lt by (metis last_drop last_in_set drop_eq_Nil not_less)
    then have nl: "ibuf d (ring_at (in_e d - 1)) \<noteq> 10"
      using Suc.prems(2) typed_back(2) [OF ne] by (auto simp: input_ok_def)
    from consputc_ok [OF d0(3), of BACKSPACE] obtain d1 where d1: "consputc BACKSPACE d0 = Inr d1" "screen_ok d1" by blast
    note t1 = typed_consputc [OF d1(1)] d0(1,2)
    have ok: "input_ok d1"
      using Suc.prems(2) lt by (auto simp: input_ok_def t1 drop_butlast dest: in_set_butlastD)
    have "n = length (typed d1)" using Suc.hyps(2) by (simp add: t1)
    from Suc.hyps(1) [OF this d1(2) ok] obtain d2 where "kill_line d1 = Inr d2" "screen_ok d2"
      "typed d2 = take (committed d1) (typed d1)" "committed d2 = committed d1" by blast
    moreover have "kill_line d = kill_line d1" using False nl d1(1) by (subst kill_line.simps) (simp add: d0_def)
    moreover have "take (committed d) (butlast (typed d)) = take (committed d) (typed d)"
      using lt by (simp add: take_butlast)
    ultimately show ?thesis by (simp add: t1)
  qed
qed

text \<open>One character, up to the wakeup of the readers.\<close>

definition char_effect :: "int \<Rightarrow> consdev \<Rightarrow> consdev \<Rightarrow> bool" where
  "char_effect c d d' \<longleftrightarrow> screen_ok d' \<and> input_ok d' \<and> input_lines d' = feed (input_lines d) c"

lemma upper_cons: "upper (cons_update f)"
  by (simp add: upper_def set_cpu_def set_lk_def)

lemmas cons_lock [simp] = upper_lock [OF upper_cons]

lemma erase_char:
  assumes "screen_ok d" "input_ok d" "in_e d \<noteq> in_w d" "c = 8 \<or> c = 127"
  shows "\<exists>d'. consputc BACKSPACE (d\<lparr>in_e := in_e d - 1\<rparr>) = Inr d' \<and> char_effect c d d'"
proof -
  define d0 where "d0 = d\<lparr>in_e := in_e d - 1\<rparr>"
  have lt: "committed d < length (typed d)" using assms(2,3) by (auto simp: edit_empty input_ok_def)
  then have ne: "typed d \<noteq> []" by auto
  have d0: "typed d0 = butlast (typed d)" "committed d0 = committed d" "screen_ok d0"
    using typed_back(1) [OF ne] assms(1) by (simp_all add: d0_def committed_def screen_ok_def)
  from consputc_ok [OF d0(3), of BACKSPACE] obtain d1 where d1: "consputc BACKSPACE d0 = Inr d1" "screen_ok d1" by blast
  note t1 = typed_consputc [OF d1(1)] d0(1,2)
  have "input_ok d1" using assms(2) lt by (auto simp: input_ok_def t1 drop_butlast dest: in_set_butlastD)
  moreover have "input_lines d1 = feed (input_lines d) c"
    using assms(4) lt by (auto simp: input_lines_def feed_def t1 drop_butlast take_butlast)
  ultimately show ?thesis using d1 by (auto simp: char_effect_def d0_def)
qed

lemma add_char:
  fixes c :: int
  defines "c1 \<equiv> if c = 13 then 10 else c"
  assumes "screen_ok d" "input_ok d" "c \<notin> {0, 8, 21, 127}" "0 \<le> c" "c < 256" "in_e d - in_r d < of_nat INPUT_BUF"
  shows "\<exists>d2. consputc c1 (d\<lparr>ibuf := (ibuf d)(ring_at (in_e d) := word_of_int c1), in_e := in_e d + 1\<rparr>) = Inr d2 \<and>
    char_effect c d (if c1 = 10 \<or> c1 = 4 \<or> in_e d2 = in_r d2 + of_nat INPUT_BUF then d2\<lparr>in_w := in_e d2\<rparr> else d2)"
proof -
  define d1 where "d1 = d\<lparr>ibuf := (ibuf d)(ring_at (in_e d) := word_of_int c1), in_e := in_e d + 1\<rparr>"
  have room: "length (typed d) < INPUT_BUF"
    using assms(7) by (simp add: length_typed INPUT_BUF_def word_less_nat_alt)
  have d1: "typed d1 = typed d @ [word_of_int c1]" "committed d1 = committed d" "screen_ok d1"
    using typed_add [OF room, of "word_of_int c1"] assms(2) by (simp_all add: d1_def committed_def screen_ok_def)
  from consputc_ok [OF d1(3), of c1] obtain d2 where d2: "consputc c1 d1 = Inr d2" "screen_ok d2" by blast
  note t2 = typed_consputc [OF d2(1)] d1(1,2)
  let ?n = "length (typed d2)"
  have n: "?n = Suc (length (typed d))" by (simp add: t2)
  have full: "in_e d2 = in_r d2 + of_nat INPUT_BUF \<longleftrightarrow> ?n = INPUT_BUF"
  proof -
    have "in_e d2 = in_r d2 + of_nat INPUT_BUF \<longleftrightarrow> in_e d2 - in_r d2 = of_nat INPUT_BUF"
      by (simp add: diff_eq_eq add.commute)
    also have "\<dots> \<longleftrightarrow> ?n = INPUT_BUF" by (simp add: length_typed word_unat_eq_iff INPUT_BUF_def)
    finally show ?thesis .
  qed
  have com: "committed d \<le> length (typed d)" "10 \<notin> set (drop (committed d) (typed d))"
    using assms(3) by (auto simp: input_ok_def)
  have len: "length (take (committed d) (typed d)) + length (drop (committed d) (typed d)) = length (typed d)" by simp
  show ?thesis
  proof (cases "c1 = 10 \<or> c1 = 4 \<or> ?n = INPUT_BUF")
    case True
    have "input_ok (d2\<lparr>in_w := in_e d2\<rparr>)" using room n by (simp add: input_ok_def)
    moreover have "input_lines (d2\<lparr>in_w := in_e d2\<rparr>) = feed (input_lines d) c"
      using True assms(4) room n len by (auto simp: input_lines_def feed_def t2 c1_def split: if_splits)
    ultimately show ?thesis
      using True d2 full by (auto simp: char_effect_def d1_def screen_ok_def)
  next
    case False
    have "word_of_int c1 \<noteq> (10 :: byte)"
    proof
      assume "word_of_int c1 = (10 :: byte)"
      then have "uint (word_of_int c1 :: byte) = uint (10 :: byte)" by simp
      then show False using False assms(5,6) by (simp add: c1_def uint_word_of_int split: if_splits)
    qed
    then have "input_ok d2" using com room n by (auto simp: input_ok_def t2)
    moreover have "input_lines d2 = feed (input_lines d) c"
      using False assms(4) room n len com by (auto simp: input_lines_def feed_def t2 c1_def split: if_splits)
    ultimately show ?thesis using False d2 full by (auto simp: char_effect_def d1_def)
  qed
qed

lemma cons_below [simp]:
  "cons (locked l s) = cons s" "cons (quiet s) = cons s" "cons (wakeup1 ch s) = cons s"
  by (simp_all add: locked_def quiet_def wakeup1_def for_procs_def set_cpu_def set_lk_def pushcli_def Let_def)

definition console_free :: "'a kcons_scheme \<Rightarrow> bool" where
  "console_free s \<longleftrightarrow> cli_ok s \<and> lk_free (lks s InputLk) \<and> lk_free (lks s PtableLk)"

lemma input_char_ok:
  assumes "console_free t" "screen_ok (cons t)" "input_ok (cons t)" "0 \<le> c" "c < 256" "c \<noteq> 16"
  shows "\<exists>t'. input_char c (locked InputLk t) = Inr (locked InputLk t') \<and> console_free t' \<and>
    char_effect c (cons t) (cons t')"
proof -
  let ?d = "cons t"
  have t: "cli_ok t" "lk_free (lks t InputLk)" "lk_free (lks t PtableLk)" using assms(1) by (simp_all add: console_free_def)
  have free: "console_free (t\<lparr>cons := d\<rparr>)" "console_free (wakeup1 ChInput (t\<lparr>cons := d\<rparr>))" for d
    using assms(1) by (simp_all add: console_free_def)
  have same: "char_effect c ?d ?d" if "feed (input_lines ?d) c = input_lines ?d"
    using assms(2,3) that by (simp add: char_effect_def)
  have com: "committed ?d \<le> length (typed ?d)" using assms(3) by (simp add: input_ok_def)
  consider (kill) "c = 21" | (erase) "c = 8 \<or> c = 127" | (none) "c = 0"
    | (more) "c \<notin> {0, 8, 21, 127}" by blast
  then show ?thesis
  proof cases
    case kill
    from kill_line_kills [OF assms(2,3)] obtain d' where d': "kill_line ?d = Inr d'" "screen_ok d'"
      "typed d' = take (committed ?d) (typed ?d)" "committed d' = committed ?d" by blast
    with kill com have "char_effect c ?d d'"
      using assms(3) by (simp add: char_effect_def input_ok_def input_lines_def feed_def)
    with kill d'(1) free(1) [of d'] show ?thesis
      by (intro exI [of _ "t\<lparr>cons := d'\<rparr>"]) (simp add: input_char_def on_cons_def)
  next
    case erase
    show ?thesis
    proof (cases "in_e ?d = in_w ?d")
      case True
      with erase com have "char_effect c ?d ?d"
        by (intro same) (auto simp: edit_empty input_lines_def feed_def)
      with True erase assms(1) show ?thesis by (intro exI [of _ t]) (auto simp: input_char_def)
    next
      case False
      from erase_char [OF assms(2,3) False erase] obtain d'
        where "consputc BACKSPACE (?d\<lparr>in_e := in_e ?d - 1\<rparr>) = Inr d'" "char_effect c ?d d'" by blast
      with False erase free(1) [of d'] show ?thesis
        by (intro exI [of _ "t\<lparr>cons := d'\<rparr>"]) (auto simp: input_char_def on_cons_def)
    qed
  next
    case none
    then have "char_effect c ?d ?d" by (intro same) (simp add: feed_def split: prod.splits)
    with none assms(1) show ?thesis by (intro exI [of _ t]) (simp add: input_char_def)
  next
    case more
    show ?thesis
    proof (cases "in_e ?d - in_r ?d < of_nat INPUT_BUF")
      case False
      then have "\<not> length (typed ?d) < INPUT_BUF"
        by (simp add: length_typed INPUT_BUF_def word_less_nat_alt)
      with com more have "char_effect c ?d ?d" by (intro same) (auto simp: feed_def input_lines_def)
      with more False assms(1,6) show ?thesis by (intro exI [of _ t]) (auto simp: input_char_def Let_def)
    next
      case True
      define c1 where "c1 = (if c = 13 then 10 else c)"
      from add_char [OF assms(2,3) more assms(4,5) True, folded c1_def] obtain d2
        where d2: "consputc c1 (?d\<lparr>ibuf := (ibuf ?d)(ring_at (in_e ?d) := word_of_int c1), in_e := in_e ?d + 1\<rparr>) = Inr d2"
          "char_effect c ?d (if c1 = 10 \<or> c1 = 4 \<or> in_e d2 = in_r d2 + of_nat INPUT_BUF then d2\<lparr>in_w := in_e d2\<rparr> else d2)"
        by blast
      let ?x = "d2\<lparr>in_w := in_e d2\<rparr>"
      have wake: "wakeup ChInput (locked InputLk (t\<lparr>cons := ?x\<rparr>)) = Inr (locked InputLk (wakeup1 ChInput (t\<lparr>cons := ?x\<rparr>)))"
        using t by (subst wakeup_eq) (simp_all add: quiet_locked)
      have run: "input_char c (locked InputLk t) =
          (if c1 = 10 \<or> c1 = 4 \<or> in_e d2 = in_r d2 + of_nat INPUT_BUF
           then wakeup ChInput (locked InputLk (t\<lparr>cons := ?x\<rparr>)) else Inr (locked InputLk (t\<lparr>cons := d2\<rparr>)))"
        using more True assms(6) d2(1) by (simp add: input_char_def Let_def c1_def [symmetric])
      show ?thesis
      proof (cases "c1 = 10 \<or> c1 = 4 \<or> in_e d2 = in_r d2 + of_nat INPUT_BUF")
        case commit: True
        with run wake d2(2) free(2) [of ?x] show ?thesis
          by (intro exI [of _ "wakeup1 ChInput (t\<lparr>cons := ?x\<rparr>)"]) auto
      next
        case False
        with run d2(2) free(1) [of d2] show ?thesis by (intro exI [of _ "t\<lparr>cons := d2\<rparr>"]) auto
      qed
    qed
  qed
qed

lemma input_chars_ok:
  "console_free t \<Longrightarrow> screen_ok (cons t) \<Longrightarrow> input_ok (cons t) \<Longrightarrow> \<forall>c\<in>set cs. 0 \<le> c \<and> c < 256 \<and> c \<noteq> 16 \<Longrightarrow>
   \<exists>t'. input_chars cs (locked InputLk t) = Inr (locked InputLk t') \<and> console_free t' \<and> screen_ok (cons t') \<and>
     input_ok (cons t') \<and> input_lines (cons t') = fold (\<lambda>c p. feed p c) cs (input_lines (cons t))"
proof (induction cs arbitrary: t)
  case (Cons c cs)
  then obtain t1 where t1: "input_char c (locked InputLk t) = Inr (locked InputLk t1)" "console_free t1"
    "char_effect c (cons t) (cons t1)"
    using input_char_ok [of t c] by auto
  with Cons.IH [of t1] Cons.prems(4) show ?case by (auto simp: char_effect_def)
qed auto

text \<open>
  Claim C26.  Characters from the keyboard or the serial line act on the input buffer as on a line editor, whatever the
  counters are and however often they have wrapped: the interrupt returns, the cursor stays on the screen, and the
  committed and the edited bytes are what the editor makes of them.
\<close>

theorem console_edits_lines:
  assumes "console_free s" "screen_ok (cons s)" "input_ok (cons s)" "\<forall>c\<in>set cs. 0 \<le> c \<and> c < 256 \<and> c \<noteq> 16"
  shows "\<exists>s'. consoleintr cs s = Inr s' \<and> console_free s' \<and> screen_ok (cons s') \<and> input_ok (cons s') \<and>
    input_lines (cons s') = fold (\<lambda>c p. feed p c) cs (input_lines (cons s))"
proof -
  have s: "cli_ok s" "lk_free (lks s InputLk)" using assms(1) by (simp_all add: console_free_def)
  from input_chars_ok [OF assms] obtain t where t: "input_chars cs (locked InputLk s) = Inr (locked InputLk t)"
    "console_free t" "screen_ok (cons t)" "input_ok (cons t)"
    "input_lines (cons t) = fold (\<lambda>c p. feed p c) cs (input_lines (cons s))" by blast
  then have "release InputLk (locked InputLk t) = Inr (quiet t)"
    by (intro release_locked) (simp_all add: console_free_def)
  with t s show ?thesis by (auto simp: consoleintr_def acquire_free console_free_def)
qed

section \<open>Reading a line\<close>

text \<open>
  What a read of at most \<open>n\<close> bytes takes of the committed ones: up to the newline or the count, and nothing behind a
  control-D, which is taken too if it comes first.  The result is the bytes and what is left; \<open>None\<close> when the read
  has to wait for more.
\<close>

fun take_line :: "nat \<Rightarrow> bool \<Rightarrow> byte list \<Rightarrow> (byte list \<times> byte list) option" where
  "take_line 0 first ds = Some ([], ds)"
| "take_line (Suc n) first [] = None"
| "take_line (Suc n) first (c # ds) =
     (if c = 4 then Some ([], if first then ds else c # ds)
      else if c = 10 then Some ([c], ds)
      else map_option (\<lambda>(l, r). (c # l, r)) (take_line n False ds))"

lemma typed_next:
  assumes "in_r d \<noteq> in_w d" "input_ok d"
  shows "\<exists>c ds. take (committed d) (typed d) = c # ds \<and> ibuf d (ring_at (in_r d)) = c \<and>
    input_ok (d\<lparr>in_r := in_r d + 1\<rparr>) \<and>
    input_lines (d\<lparr>in_r := in_r d + 1\<rparr>) = (ds, drop (committed d) (typed d))"
proof -
  let ?d = "d\<lparr>in_r := in_r d + 1\<rparr>"
  have ok: "committed d \<le> length (typed d)" "length (typed d) \<le> INPUT_BUF" "10 \<notin> set (drop (committed d) (typed d))"
    using assms(2) by (simp_all add: input_ok_def)
  have w: "in_w d - in_r d \<noteq> 0" using assms(1) by simp
  then have "0 < committed d" by (simp add: committed_def unat_gt_0)
  then obtain k where k: "committed d = Suc k" by (cases "committed d") auto
  with ok(1) obtain n where n: "unat (in_e d - in_r d) = Suc n" by (cases "unat (in_e d - in_r d)") (auto simp: length_typed)
  then have e: "in_e d - in_r d \<noteq> 0" by auto
  have "unat (in_e d - in_r d - 1) = n" "unat (in_w d - in_r d - 1) = k"
    using n k e w by (simp_all add: unat_minus_one committed_def)
  then have m: "unat (in_e d - (in_r d + 1)) = n" "unat (in_w d - (in_r d + 1)) = k" by (simp_all add: algebra_simps)
  have "typed d = ibuf d (ring_at (in_r d)) # typed ?d"
    by (simp add: typed_def ring_bytes_def n m upt_conv_Cons map_Suc_upt [symmetric] add.assoc del: upt_Suc)
  moreover have "committed ?d = k" by (simp add: committed_def m)
  ultimately show ?thesis using ok k by (simp add: input_ok_def input_lines_def)
qed

lemma vstore8_cons: "vstore8 va b (cons_update f s) = map_sum id (cons_update f) (vstore8 va b s)"
  by (simp add: vstore8_def ram_upd_def split: option.split)

lemma vstores_cons: "vstores va i bs (cons_update f s) = map_sum id (cons_update f) (vstores va i bs s)"
proof (induction bs arbitrary: i s)
  case (Cons b bs)
  then show ?case by (cases "vstore8 (va + of_nat i) b s") (simp_all add: vstore8_cons)
qed simp

lemma vstore8_keeps_cons: "vstore8 va b s = Inr s' \<Longrightarrow> cons s' = cons s"
  by (auto simp: vstore8_def ram_upd_def split: option.splits)

lemma consoleread_takes:
  assumes "take_line n (got = []) (fst (input_lines (cons s))) = Some (l, rest)" "input_ok (cons s)"
    "vstores va (length got) l s = Inr s1" "target = int (length got + n)"
  shows "\<exists>d'. consoleread_loop ip (ToUser va) target got s = Ret (Some (got @ l)) (s1\<lparr>cons := d'\<rparr>) \<and> input_ok d' \<and>
    input_lines d' = (rest, snd (input_lines (cons s)))"
  using assms
proof (induction n arbitrary: got s s1 l)
  case 0
  then have "l = []" "s1 = s" "rest = fst (input_lines (cons s))" by auto
  moreover have "consoleread_loop ip (ToUser va) target got s = Ret (Some got) s"
    using 0 by (subst consoleread_loop.simps) simp
  ultimately show ?case using 0 by (intro exI [of _ "cons s"]) simp
next
  case (Suc n)
  let ?d = "cons s"
  have ne: "in_r ?d \<noteq> in_w ?d"
  proof
    assume "in_r ?d = in_w ?d"
    then have "fst (input_lines ?d) = []" by (simp add: input_lines_def committed_def)
    with Suc.prems(1) show False by simp
  qed
  let ?d1 = "?d\<lparr>in_r := in_r ?d + 1\<rparr>" and ?s1 = "s\<lparr>cons := cons s\<lparr>in_r := in_r (cons s) + 1\<rparr>\<rparr>"
  obtain c ds where c: "fst (input_lines ?d) = c # ds" "ibuf ?d (ring_at (in_r ?d)) = c" "input_ok ?d1"
    "input_lines ?d1 = (ds, snd (input_lines ?d))"
    using typed_next [OF ne Suc.prems(2)] by (auto simp: input_lines_def)
  have wait: "loopK (input_body ip) s = Ret True s" using ne by (subst loopK_unfold) (simp add: input_body_def)
  have step: "consoleread_loop ip (ToUser va) target got s =
      (if c = 4 then Ret (Some got) (if got \<noteq> [] then s else ?s1)
       else doE (vstore8 (va + of_nat (length got)) c ?s1) (\<lambda>s3.
         if c = 10 then Ret (Some (got @ [c])) s3
         else consoleread_loop ip (ToUser va) target (got @ [c]) s3))"
    using Suc.prems(4) wait c(2)
    by (subst consoleread_loop.simps) (cases "vstore8 (va + of_nat (length got)) c ?s1"; simp add: Let_def)
  show ?case
  proof (cases "c = 4")
    case True
    with Suc.prems(1) c(1) have l: "l = []" "rest = (if got = [] then ds else c # ds)" by auto
    with Suc.prems(3) have "s1 = s" by simp
    with True l step c Suc.prems(2) show ?thesis
      by (cases "got = []") (auto intro: exI [of _ ?d1] exI [of _ ?d] simp: prod_eq_iff)
  next
    case False
    then obtain l' where l': "l = c # l'" using Suc.prems(1) c(1) by (auto split: if_splits)
    with Suc.prems(3) obtain t where t: "vstore8 (va + of_nat (length got)) c s = Inr t" "vstores va (Suc (length got)) l' t = Inr s1"
      by (auto simp: bindR_eq_Inr)
    have t1: "vstore8 (va + of_nat (length got)) c ?s1 = Inr (t\<lparr>cons := ?d1\<rparr>)"
      using vstore8_cons [of "va + of_nat (length got)" c "\<lambda>_. ?d1" s] t(1) by simp
    show ?thesis
    proof (cases "c = 10")
      case True
      with Suc.prems(1) c(1) l' have l: "l' = []" "rest = ds" by auto
      with t(2) have "s1 = t" by simp
      with True False l l' step t1 c(3,4) show ?thesis by auto
    next
      case no: False
      from Suc.prems(1) c(1) l' False no have tl: "take_line n False ds = Some (l', rest)" by auto
      have "vstores va (length (got @ [c])) l' (t\<lparr>cons := ?d1\<rparr>) = Inr (s1\<lparr>cons := ?d1\<rparr>)"
        using vstores_cons [of va "Suc (length got)" l' "\<lambda>_. ?d1" t] t(2) by simp
      from Suc.IH [OF _ _ this] tl c(3,4) Suc.prems(4) obtain d' where
        "consoleread_loop ip (ToUser va) target (got @ [c]) (t\<lparr>cons := ?d1\<rparr>) = Ret (Some ((got @ [c]) @ l')) (s1\<lparr>cons := d'\<rparr>)"
        "input_ok d'" "input_lines d' = (rest, snd (input_lines ?d))" by auto
      with False no step t1 l' show ?thesis by auto
    qed
  qed
qed

text \<open>
  A read of the console that finds a line, or as many bytes as it wants, does not wait: it stores the
  bytes up to the newline or its count at the user address, a control-D ends it and is left for the next read when
  bytes came before it, and what is edited meanwhile is not touched.
\<close>

theorem consoleread_takes_line:
  assumes "take_line n True (fst (input_lines (cons s))) = Some (l, rest)" "input_ok (cons s)"
    "vstores va 0 l s = Inr s1"
  shows "\<exists>d'. consoleread_loop ip (ToUser va) (int n) [] s = Ret (Some l) (s1\<lparr>cons := d'\<rparr>) \<and> input_ok d' \<and>
    input_lines d' = (rest, snd (input_lines (cons s)))"
  using consoleread_takes [of n "[]" s l rest va s1 "int n" ip] assms by simp

section \<open>Instances\<close>

definition cons_boot :: consdev where
  "cons_boot = \<lparr>panicked = False, locking = True, crt = (\<lambda>_. 0), crt_pos = 1919, uart = True, serial = [],
     ibuf = (\<lambda>_. 0), in_r = 0xFFFFFFFF, in_w = 0xFFFFFFFF, in_e = 0xFFFFFFFF, kshift = 0\<rparr>"

lemma cons_boot_ok: "screen_ok cons_boot" "input_ok cons_boot" "input_lines cons_boot = ([], [])"
  by (simp_all add: cons_boot_def screen_ok_def input_ok_def input_lines_def committed_def typed_def ring_bytes_def)

theorem console_stays_on_screen_witness:
  "\<exists>d'. consputs [120, 10, 121] cons_boot = Inr d' \<and> unat (crt_pos d') < 24 * 80"
  using console_stays_on_screen [of cons_boot "[120, 10, 121]"] by (auto simp: cons_boot_def)

text \<open>A process whose user page is mapped, with a console that has just seen \<open>h\<close>, newline, \<open>i\<close>.\<close>

definition cons_typed :: consdev where
  "cons_typed = cons_boot\<lparr>ibuf := (\<lambda>_. 0)(127 := 104, 0 := 10, 1 := 105), in_w := 1, in_e := 2\<rparr>"

definition at_console :: "consdev \<Rightarrow> kcons" where
  "at_console d = \<lparr>cpus = cpus caller, lks = lks caller, me = 0, phys = phys caller, ptable = ptable caller,
     bcache = bcache sys_boot, pipes = pipes sys_boot, inodes = inodes sys_boot, ftable = ftable sys_boot, ticks = 0,
     cons = d\<rparr>"

lemma console_free_at: "console_free (at_console d)"
  by (simp add: console_free_def at_console_def caller_def boot_defs cli_ok_def lk_free_def)

theorem console_edits_lines_witness:
  "\<exists>s'. consoleintr [104, 105, 8, 13, 97] (at_console cons_boot) = Inr s' \<and>
    input_lines (cons s') = ([104, 10], [97])"
proof -
  have "cons (at_console cons_boot) = cons_boot" by (simp add: at_console_def)
  with console_edits_lines [OF console_free_at, of cons_boot "[104, 105, 8, 13, 97]"] cons_boot_ok
  show ?thesis by (auto simp: feed_def INPUT_BUF_def)
qed

lemma cons_typed_lines: "input_lines cons_typed = ([104, 10], [105])"
  by (simp add: cons_typed_def cons_boot_def input_lines_def committed_def typed_def ring_bytes_def ring_at_def INPUT_BUF_def upt_rec)

lemma vstores_at: "vstores 100 0 [104, 10] (at_console d) =
    Inr (ram_upd (\<lambda>m. m(0x202064 := 104, 0x202065 := 10)) (at_console d))"
proof -
  have "cr3 (cpus caller 0) = 0x200000" by (simp add: caller_def boot_defs)
  then show ?thesis
    by (simp add: vstore8_def at_console_def caller_sel va2pa_def entry_def present_def table_def PDX_def PTX_def
        PTE_ADDR_def PTE_P_def caller_ram_def load32_def ram_upd_def)
qed

theorem consoleread_takes_line_witness:
  "\<exists>s'. consoleread_loop 0 (ToUser 100) 80 [] (at_console cons_typed) = Ret (Some [104, 10]) s' \<and>
    input_lines (cons s') = ([], [105])"
proof -
  have "cons (at_console cons_typed) = cons_typed" by (simp add: at_console_def)
  moreover have "take_line (Suc (Suc n)) True [104, 10] = Some ([104, 10], [])" for n by simp
  from this [of 78] have "take_line 80 True [104, 10] = Some ([104, 10], [])" by simp
  moreover have "input_ok cons_typed"
    using cons_typed_lines by (simp add: input_ok_def input_lines_def committed_def cons_typed_def cons_boot_def length_typed INPUT_BUF_def)
  ultimately show ?thesis
    using consoleread_takes_line [of 80 "at_console cons_typed" "[104, 10]" "[]" 100 _ 0, OF _ _ vstores_at] cons_typed_lines
    by (auto simp: ram_upd_def)
qed

end
