(* ===== verification/Bitpow.thy ===== *)
theory Bitpow
  imports Prelude
begin

text \<open>
  \<open>Math_Pow\<close>, which the file server of \<open>src/p5a\<close> and the allocators of \<open>src/p3a\<close> share, and the
  masks they make of it to clear a bit of a bitmap.  It multiplies by the exponent where it means the
  base, so its powers are not those of \<open>2\<close>.
\<close>

unbundle bit_operations_syntax

definition Math_Pow :: "int \<Rightarrow> int \<Rightarrow> int" where
  "Math_Pow base exp = (if exp < 0 then -1 else ((\<lambda>r. r * exp) ^^ nat exp) 1)"

lemma Math_Pow_eq: "0 \<le> e \<Longrightarrow> Math_Pow b e = e ^ nat e"
proof -
  have "((\<lambda>r. r * e) ^^ n) 1 = e ^ n" for n by (induction n) simp_all
  then show "0 \<le> e \<Longrightarrow> Math_Pow b e = e ^ nat e" by (simp add: Math_Pow_def)
qed

lemma less_8: "j < 8 \<Longrightarrow> j = 0 \<or> j = 1 \<or> j = 2 \<or> j = 3 \<or> j = 4 \<or> j = 5 \<or> j = 6 \<or> j = 7" for j :: nat
  by auto

text \<open>The bytes \<^verbatim>\<open>set_bit\<close> masks with, and the places of their zeros.\<close>

lemma clear_mask:
  assumes "j < 8"
  shows "(word_of_int (Math_Pow 2 8 - 1 - Math_Pow 2 (8 - int j + 1)) :: byte) =
    [0xB6, 0xFF, 0x08, 0xBF, 0xCA, 0xFF, 0xE4, 0xFB] ! j"
  using less_8 [OF assms] by (elim disjE) (simp_all add: Math_Pow_eq)

definition cleared_with :: "nat \<Rightarrow> nat list" where
  "cleared_with j = [[1, 4, 7], [], [0, 1, 2, 3, 5, 6, 7], [1], [2, 3, 5, 7], [], [3, 4, 6, 7], [5]] ! j"

lemma mask_bits:
  assumes "j < 8" and "k < 8"
  shows "bit ([0xB6, 0xFF, 0x08, 0xBF, 0xCA, 0xFF, 0xE4, 0xFB] ! j :: byte) (7 - k) \<longleftrightarrow> k \<notin> set (cleared_with j)"
  using less_8 [OF assms(1)] less_8 [OF assms(2)]
  by (elim disjE) (simp_all add: cleared_with_def)

end
