(* ===== verification/Mfs.thy ===== *)
theory Mfs
  imports Memory Bitpow
begin

text \<open>
  The file server of \<^verbatim>\<open>p5a\<close> (\<^verbatim>\<open>p5a/server.c\<close>, \<^verbatim>\<open>p5a/mfs.h\<close>) and its client library
  (\<^verbatim>\<open>p5a/mfs.c\<close>).  The server keeps the three blocks of metadata of the image in memory, as the bytes the
  code keeps, and the image as a file.  The network is what may happen to the datagrams of a request.
\<close>

unbundle bit_operations_syntax

section \<open>State\<close>

text \<open>How a request can end the server: a failed \<^verbatim>\<open>assert\<close>, or a use of memory outside an array.\<close>

datatype merr = Abort | Wild

text \<open>
  \<open>meta\<close> is \<^verbatim>\<open>meta_blocks\<close>: the superblock, the inodes and the bitmap.  \<open>img\<close> and \<open>img_len\<close> are the
  contents and the length of the image file.  \<open>stack\<close> is what a local array holds before it is set.
\<close>

record mfs =
  meta :: bmem
  img :: bmem
  img_len :: nat
  stack :: bmem

record response =
  r_rc :: int
  r_type :: int
  r_size :: int
  r_block :: bmem

record message =
  q_cmd :: int
  q_pinum :: int
  q_inum :: int
  q_type :: int
  q_block :: bmem
  q_name :: "byte list"
  q_blocknum :: int

definition MBSIZE :: nat where "MBSIZE = 4096"
definition M_NADDRS :: nat where "M_NADDRS = 13 + 1"
definition M_NENTS :: nat where "M_NENTS = 64"
definition MFS_REGULAR_FILE :: int where "MFS_REGULAR_FILE = 1"
definition MFS_DIRECTORY :: int where "MFS_DIRECTORY = 2"

abbreviation no_addr :: uint where "no_addr \<equiv> 0xFFFFFFFF"

section \<open>The image file\<close>

text \<open>\<^verbatim>\<open>pread\<close> of a block into an array: what it returns and the array after it.\<close>

definition mread :: "nat \<Rightarrow> nat \<Rightarrow> bmem \<Rightarrow> mfs \<Rightarrow> nat \<times> bmem" where
  "mread n off dst s =
     (let rc = min n (img_len s - off) in (rc, \<lambda>i. if i < rc then img s (off + i) else dst i))"

text \<open>\<^verbatim>\<open>pwrite\<close>, which extends the file with zeros up to its offset.\<close>

definition mwrite :: "nat \<Rightarrow> bmem \<Rightarrow> nat \<Rightarrow> mfs \<Rightarrow> mfs" where
  "mwrite n src off s =
     s\<lparr>img := (\<lambda>a. if off \<le> a \<and> a < off + n then src (a - off)
                      else if a < img_len s then img s a else 0),
       img_len := max (img_len s) (off + n)\<rparr>"

text \<open>A block that must be read in full.\<close>

definition read_dir :: "uint \<Rightarrow> mfs \<Rightarrow> merr + bmem" where
  "read_dir addr s =
     (let (rc, e) = mread MBSIZE (unat addr) (stack s) s in if rc \<noteq> MBSIZE then Inl Abort else Inr e)"

section \<open>Metadata\<close>

definition meta_ld :: "nat \<Rightarrow> mfs \<Rightarrow> merr + uint" where
  "meta_ld a s = (if a + 4 \<le> 3 * MBSIZE then Inr (load32 (meta s) a) else Inl Wild)"

definition meta_st :: "nat \<Rightarrow> uint \<Rightarrow> mfs \<Rightarrow> merr + mfs" where
  "meta_st a w s = (if a + 4 \<le> 3 * MBSIZE then Inr (s\<lparr>meta := store32 (meta s) a w\<rparr>) else Inl Wild)"

definition sb_nblks :: "mfs \<Rightarrow> uint" where "sb_nblks s = load32 (meta s) 4"
definition sb_ninos :: "mfs \<Rightarrow> uint" where "sb_ninos s = load32 (meta s) 8"

text \<open>The fields of inode \<open>i\<close>: its type, its size and its addresses.\<close>

definition ino_at :: "nat \<Rightarrow> nat" where "ino_at i = MBSIZE + 64 * i"
definition size_at :: "nat \<Rightarrow> nat" where "size_at i = ino_at i + 4"
definition addr_at :: "nat \<Rightarrow> nat \<Rightarrow> nat" where "addr_at i k = ino_at i + 8 + 4 * k"

definition mtype :: "nat \<Rightarrow> mfs \<Rightarrow> int" where "mtype i s = sint (load32 (meta s) (ino_at i))"
definition maddr :: "nat \<Rightarrow> nat \<Rightarrow> mfs \<Rightarrow> uint" where "maddr i k s = load32 (meta s) (addr_at i k)"

definition push_inodes :: "mfs \<Rightarrow> mfs" where
  "push_inodes s = mwrite MBSIZE (\<lambda>i. meta s (MBSIZE + i)) (2 * MBSIZE) s"

definition read_bit :: "nat \<Rightarrow> mfs \<Rightarrow> merr + byte" where
  "read_bit b s =
     (if b div 8 < MBSIZE then Inr (meta s (2 * MBSIZE + b div 8) AND push_bit (7 - b mod 8) 1) else Inl Wild)"

definition set_bit_byte :: "nat \<Rightarrow> int \<Rightarrow> byte \<Rightarrow> byte" where
  "set_bit_byte b v c =
     (if v = 0 then c AND word_of_int (Math_Pow 2 8 - 1 - Math_Pow 2 (8 - int (b mod 8) + 1))
      else if v = 1 then c OR push_bit (7 - b mod 8) 1 else c)"

definition set_bit_m :: "nat \<Rightarrow> int \<Rightarrow> mfs \<Rightarrow> merr + mfs" where
  "set_bit_m b v s =
     (if b div 8 < MBSIZE
      then let a = 2 * MBSIZE + b div 8; s1 = s\<lparr>meta := (meta s)(a := set_bit_byte b v (meta s a))\<rparr>
           in Inr (mwrite MBSIZE (\<lambda>i. meta s1 (2 * MBSIZE + i)) (3 * MBSIZE) s1)
      else Inl Wild)"

text \<open>The searches for a free inode and a free block; the first argument is the number of turns left.\<close>

fun free_inode :: "nat \<Rightarrow> nat \<Rightarrow> mfs \<Rightarrow> merr + nat" where
  "free_inode 0 i s = Inr i"
| "free_inode (Suc n) i s =
     bindR (meta_ld (ino_at i) s) (\<lambda>t. if t = 0 then Inr i else free_inode n (Suc i) s)"

fun free_block :: "nat \<Rightarrow> nat \<Rightarrow> mfs \<Rightarrow> merr + nat" where
  "free_block 0 l s = Inr l"
| "free_block (Suc n) l s =
     bindR (read_bit l s) (\<lambda>b. if b = 0 then Inr l else free_block n (Suc l) s)"

definition new_block_addr :: "nat \<Rightarrow> uint" where
  "new_block_addr l = of_nat (4 * MBSIZE + l * MBSIZE)"

definition block_of_addr :: "uint \<Rightarrow> nat" where
  "block_of_addr a = unat ((a - of_nat (4 * MBSIZE)) div of_nat MBSIZE)"

section \<open>Directory blocks\<close>

definition ent_inum :: "bmem \<Rightarrow> nat \<Rightarrow> uint" where "ent_inum e j = load32 e (64 * j + 60)"

definition ent_set_inum :: "nat \<Rightarrow> uint \<Rightarrow> bmem \<Rightarrow> bmem" where
  "ent_set_inum j w e = store32 e (64 * j + 60) w"

text \<open>\<^verbatim>\<open>strcmp(name, e[j].name) == 0\<close>.\<close>

definition ent_named :: "bmem \<Rightarrow> nat \<Rightarrow> byte list \<Rightarrow> bool" where
  "ent_named e j name \<longleftrightarrow> (\<forall>i<length name. e (64 * j + i) = name ! i) \<and> e (64 * j + length name) = 0"

text \<open>
  \<^verbatim>\<open>snprintf(e[j].name, 60, name)\<close>: the name is the format.  A conversion other than \<^verbatim>\<open>%%\<close> takes an
  argument that is not there.
\<close>

fun c_format :: "byte list \<Rightarrow> byte list option" where
  "c_format [] = Some []"
| "c_format (c # cs) =
     (if c = 37 then (case cs of d # ds \<Rightarrow> if d = 37 then map_option ((#) 37) (c_format ds) else None | [] \<Rightarrow> None)
      else map_option ((#) c) (c_format cs))"

definition put_str :: "byte list \<Rightarrow> nat \<Rightarrow> bmem \<Rightarrow> bmem" where
  "put_str bs a e = (\<lambda>i. if a \<le> i \<and> i < a + length bs then bs ! (i - a) else e i)"

definition ent_set_name :: "nat \<Rightarrow> byte list \<Rightarrow> bmem \<Rightarrow> merr + bmem" where
  "ent_set_name j name e =
     (case c_format name of None \<Rightarrow> Inl Wild | Some bs \<Rightarrow> Inr (put_str (take 59 bs @ [0]) (64 * j) e))"

definition first_ent :: "(nat \<Rightarrow> bool) \<Rightarrow> nat" where
  "first_ent P = (case find P [0..<M_NENTS] of None \<Rightarrow> M_NENTS | Some j \<Rightarrow> j)"

text \<open>A new entry for \<open>name\<close> in the directory block at \<open>addr\<close>; in a full block it is written outside the array.\<close>

definition add_entry :: "uint \<Rightarrow> byte list \<Rightarrow> uint \<Rightarrow> mfs \<Rightarrow> merr + mfs" where
  "add_entry addr name inum s =
     bindR (read_dir addr s) (\<lambda>e.
     let j = first_ent (\<lambda>j. ent_inum e j = -1) in
     if j = M_NENTS then Inl Wild
     else bindR (ent_set_name j name (ent_set_inum j inum e)) (\<lambda>e'.
       Inr (mwrite MBSIZE e' (unat addr) s)))"

text \<open>The first entry with that inode number is cleared.\<close>

definition drop_entry :: "uint \<Rightarrow> uint \<Rightarrow> mfs \<Rightarrow> merr + mfs" where
  "drop_entry addr inum s =
     bindR (read_dir addr s) (\<lambda>e.
     let j = first_ent (\<lambda>j. ent_inum e j = inum) in
     if j = M_NENTS then Inl Wild else Inr (mwrite MBSIZE (ent_set_inum j (-1) e) (unat addr) s))"

section \<open>Requests\<close>

definition bad_inum :: "int \<Rightarrow> bool" where
  "bad_inum i \<longleftrightarrow> i > 63 \<or> i < 0"

definition mfs_lookup :: "int \<Rightarrow> byte list \<Rightarrow> response \<Rightarrow> mfs \<Rightarrow> merr + response" where
  "mfs_lookup pinum name res s =
     (if bad_inum pinum then Inr (res\<lparr>r_rc := -1\<rparr>)
      else if mtype (nat pinum) s \<noteq> MFS_DIRECTORY then Inr (res\<lparr>r_rc := -1\<rparr>)
      else bindR (read_dir (maddr (nat pinum) 0 s) s) (\<lambda>e.
        let j = first_ent (\<lambda>j. ent_inum e j \<noteq> -1 \<and> ent_named e j name) in
        Inr (res\<lparr>r_rc := (if j = M_NENTS then -1 else sint (ent_inum e j))\<rparr>)))"

definition mfs_stat :: "int \<Rightarrow> response \<Rightarrow> mfs \<Rightarrow> response" where
  "mfs_stat inum res s =
     (if bad_inum inum then res\<lparr>r_rc := -1\<rparr>
      else if mtype (nat inum) s = 0 then res\<lparr>r_rc := -1\<rparr>
      else res\<lparr>r_size := sint (load32 (meta s) (size_at (nat inum))), r_type := mtype (nat inum) s, r_rc := 0\<rparr>)"

text \<open>A new block \<open>l\<close> for the file: its bit, the size and the address of the file.\<close>

definition take_block :: "nat \<Rightarrow> nat \<Rightarrow> nat \<Rightarrow> mfs \<Rightarrow> merr + mfs" where
  "take_block i k l s =
     bindR (set_bit_m l 1 s) (\<lambda>s1.
     bindR (meta_st (size_at i) (load32 (meta s1) (size_at i) + of_nat MBSIZE) s1) (\<lambda>s2.
     bindR (meta_st (addr_at i k) (new_block_addr l) s2) (\<lambda>s3.
     Inr (push_inodes s3))))"

text \<open>
  The loop that fills the gap before block \<open>blocknum\<close>.  The zeros go to the address of block
  \<open>blocknum\<close>, which has none yet.
\<close>

fun fill_gap :: "nat list \<Rightarrow> nat \<Rightarrow> nat \<Rightarrow> mfs \<Rightarrow> merr + mfs" where
  "fill_gap [] i blocknum s = Inr s"
| "fill_gap (k # ks) i blocknum s =
     bindR (free_block (unat (sb_nblks s)) 0 s) (\<lambda>l.
     bindR (take_block i k l s) (\<lambda>s1.
     fill_gap ks i blocknum (mwrite MBSIZE (\<lambda>_. 0) (unat (maddr i blocknum s1)) s1)))"

definition mfs_write :: "int \<Rightarrow> int \<Rightarrow> bmem \<Rightarrow> response \<Rightarrow> mfs \<Rightarrow> merr + response \<times> mfs" where
  "mfs_write inum blocknum block res s =
     (if bad_inum inum then Inr (res\<lparr>r_rc := -1\<rparr>, s)
      else if mtype (nat inum) s \<noteq> MFS_REGULAR_FILE then Inr (res\<lparr>r_rc := -1\<rparr>, s)
      else if blocknum < 0 \<or> blocknum > 13 then Inr (res\<lparr>r_rc := -1\<rparr>, s)
      else
        let i = nat inum; bn = nat blocknum in
        if maddr i bn s \<noteq> no_addr
        then Inr (res\<lparr>r_rc := 0\<rparr>, mwrite MBSIZE block (unat (maddr i bn s)) s)
        else
          bindR (if bn \<noteq> 0 \<and> maddr i (bn - 1) s = no_addr
                 then let k = (case find (\<lambda>k. maddr i k s = no_addr) [0..<M_NADDRS] of
                                 None \<Rightarrow> M_NADDRS | Some k \<Rightarrow> k)
                      in fill_gap [k..<bn] i bn s
                 else Inr s) (\<lambda>s1.
          bindR (free_block (unat (sb_nblks s1)) 0 s1) (\<lambda>l.
          bindR (take_block i bn l s1) (\<lambda>s2.
          Inr (res\<lparr>r_rc := 0\<rparr>, mwrite MBSIZE block (unat (maddr i bn s2)) s2)))))"

definition mfs_read :: "int \<Rightarrow> int \<Rightarrow> response \<Rightarrow> mfs \<Rightarrow> response" where
  "mfs_read inum blocknum res s =
     (if bad_inum inum then res\<lparr>r_rc := -1\<rparr>
      else if mtype (nat inum) s = 0 then res\<lparr>r_rc := -1\<rparr>
      else if blocknum < 0 \<or> blocknum > 13 then res\<lparr>r_rc := -1\<rparr>
      else if maddr (nat inum) (nat blocknum) s = no_addr then res\<lparr>r_rc := -1\<rparr>
      else res\<lparr>r_block := snd (mread MBSIZE (unat (maddr (nat inum) (nat blocknum) s)) (r_block res) s), r_rc := 0\<rparr>)"

text \<open>Addresses \<open>ks\<close> of inode \<open>i\<close> marked as unused.\<close>

fun clear_addrs :: "nat list \<Rightarrow> nat \<Rightarrow> mfs \<Rightarrow> merr + mfs" where
  "clear_addrs [] i s = Inr s"
| "clear_addrs (k # ks) i s = bindR (meta_st (addr_at i k) no_addr s) (clear_addrs ks i)"

definition creat_file :: "nat \<Rightarrow> uint \<Rightarrow> byte list \<Rightarrow> mfs \<Rightarrow> merr + mfs" where
  "creat_file i paddr name s =
     bindR (meta_st (ino_at i) (word_of_int MFS_REGULAR_FILE) s) (\<lambda>s1.
     bindR (meta_st (size_at i) 0 s1) (\<lambda>s2.
     bindR (clear_addrs [0..<M_NADDRS] i s2) (\<lambda>s3.
     add_entry paddr name (of_nat i) (push_inodes s3))))"

text \<open>The entries of a new directory.  The addresses cleared are those of inode 0.\<close>

definition dir_block :: "uint \<Rightarrow> uint \<Rightarrow> bmem \<Rightarrow> bmem" where
  "dir_block i pinum e =
     fold (\<lambda>j. ent_set_inum j (-1)) [2..<M_NENTS]
       (ent_set_inum 1 pinum (put_str [46, 46, 0] 64 (ent_set_inum 0 i (put_str [46, 0] 0 e))))"

definition creat_dir :: "nat \<Rightarrow> int \<Rightarrow> uint \<Rightarrow> byte list \<Rightarrow> mfs \<Rightarrow> merr + mfs" where
  "creat_dir i pinum paddr name s =
     bindR (meta_st (ino_at i) (word_of_int MFS_DIRECTORY) s) (\<lambda>s1.
     bindR (meta_st (size_at i) (of_nat MBSIZE) s1) (\<lambda>s2.
     bindR (free_block (unat (sb_nblks s2)) 0 s2) (\<lambda>l.
     bindR (meta_st (addr_at i 0) (new_block_addr l) s2) (\<lambda>s3.
     bindR (set_bit_m l 1 s3) (\<lambda>s4.
     bindR (clear_addrs [1..<M_NADDRS] 0 s4) (\<lambda>s5.
     let s6 = push_inodes s5;
         s7 = mwrite MBSIZE (dir_block (of_nat i) (word_of_int pinum) (stack s6)) (unat (maddr i 0 s6)) s6
     in add_entry paddr name (of_nat i) s7))))))"

definition mfs_creat :: "int \<Rightarrow> int \<Rightarrow> byte list \<Rightarrow> response \<Rightarrow> mfs \<Rightarrow> merr + int \<times> response \<times> mfs" where
  "mfs_creat pinum ty name res s =
     (if bad_inum pinum then Inr (0, res\<lparr>r_rc := -1\<rparr>, s)
      else if mtype (nat pinum) s \<noteq> MFS_DIRECTORY then Inr (0, res\<lparr>r_rc := -1\<rparr>, s)
      else
        bindR (mfs_lookup pinum name res s) (\<lambda>tmp.
        if r_rc tmp \<noteq> -1 then Inr (0, res\<lparr>r_rc := 0\<rparr>, s)
        else
          bindR (free_inode (unat (sb_ninos s)) 0 s) (\<lambda>i.
          if ty = MFS_REGULAR_FILE
          then bindR (creat_file i (maddr (nat pinum) 0 s) name s) (\<lambda>s1. Inr (0, res\<lparr>r_rc := 0\<rparr>, s1))
          else if ty = MFS_DIRECTORY
          then bindR (creat_dir i pinum (maddr (nat pinum) 0 s) name s) (\<lambda>s1. Inr (0, res\<lparr>r_rc := 0\<rparr>, s1))
          else Inr (-1, res, s))))"

text \<open>The blocks of a file of which the inode goes.\<close>

fun free_addrs :: "nat list \<Rightarrow> nat \<Rightarrow> mfs \<Rightarrow> merr + mfs" where
  "free_addrs [] i s = Inr s"
| "free_addrs (k # ks) i s =
     bindR (meta_ld (addr_at i k) s) (\<lambda>a.
     bindR (if a \<noteq> no_addr then set_bit_m (block_of_addr a) 0 s else Inr s) (free_addrs ks i))"

definition mfs_unlink :: "int \<Rightarrow> byte list \<Rightarrow> response \<Rightarrow> mfs \<Rightarrow> merr + int \<times> response \<times> mfs" where
  "mfs_unlink pinum name res s =
     (if bad_inum pinum then Inr (0, res\<lparr>r_rc := -1\<rparr>, s)
      else if mtype (nat pinum) s \<noteq> MFS_DIRECTORY then Inr (0, res\<lparr>r_rc := -1\<rparr>, s)
      else
        let paddr = maddr (nat pinum) 0 s in
        bindR (mfs_lookup pinum name res s) (\<lambda>tmp.
        if r_rc tmp = -1 then Inr (0, res\<lparr>r_rc := 0\<rparr>, s)
        else if r_rc tmp < 0 then Inl Wild
        else
          let i = nat (r_rc tmp) in
          bindR (meta_ld (ino_at i) s) (\<lambda>ty.
          if sint ty = MFS_REGULAR_FILE then
            bindR (free_addrs [0..<M_NADDRS] i s) (\<lambda>s1.
            bindR (meta_st (ino_at i) 0 s1) (\<lambda>s2.
            bindR (drop_entry paddr (of_nat i) (push_inodes s2)) (\<lambda>s3.
            Inr (0, res\<lparr>r_rc := 0\<rparr>, s3))))
          else if sint ty = MFS_DIRECTORY then
            bindR (meta_ld (addr_at i 0) s) (\<lambda>a.
            bindR (read_dir a s) (\<lambda>e.
            if \<exists>j\<in>{2..<M_NENTS}. ent_inum e j \<noteq> -1 then Inr (0, res\<lparr>r_rc := -1\<rparr>, s)
            else
              bindR (set_bit_m (block_of_addr a) 0 s) (\<lambda>s1.
              bindR (meta_st (ino_at i) 0 s1) (\<lambda>s2.
              bindR (drop_entry paddr (of_nat i) (push_inodes s2)) (\<lambda>s3.
              Inr (0, res\<lparr>r_rc := 0\<rparr>, s3))))))
          else Inr (-1, res, s))))"

section \<open>The server\<close>

text \<open>
  The name of a request as a C string: in a full field it goes on into \<^verbatim>\<open>blocknum\<close>, and behind that
  into memory that is not part of the request.
\<close>

definition req_name :: "message \<Rightarrow> merr + byte list" where
  "req_name m =
     (let bs = q_name m @ map (\<lambda>i. ucast (drop_bit (8 * i) (word_of_int (q_blocknum m) :: uint))) [0..<4]
      in if 0 \<in> set bs then Inr (takeWhile (\<lambda>c. c \<noteq> 0) bs) else Inl Wild)"

text \<open>
  One turn of \<^verbatim>\<open>worker\<close>: the reply, the state, and whether the server goes on.  \<open>res\<close> is the response
  structure with what the last turn left in it.
\<close>

definition check_rc :: "merr + int \<times> response \<times> mfs \<Rightarrow> merr + response \<times> mfs \<times> bool" where
  "check_rc r = bindR r (\<lambda>(rc, res, s). if rc < 0 then Inl Abort else Inr (res, s, True))"

definition worker_turn :: "message \<Rightarrow> response \<Rightarrow> mfs \<Rightarrow> merr + response \<times> mfs \<times> bool" where
  "worker_turn m res s =
     (if q_cmd m = 1 then
        bindR (req_name m) (\<lambda>name. bindR (mfs_lookup (q_pinum m) name res s) (\<lambda>res1. Inr (res1, s, True)))
      else if q_cmd m = 2 then Inr (mfs_stat (q_inum m) res s, s, True)
      else if q_cmd m = 3 then
        bindR (mfs_write (q_inum m) (q_blocknum m) (q_block m) res s) (\<lambda>(res1, s1). Inr (res1, s1, True))
      else if q_cmd m = 4 then Inr (mfs_read (q_inum m) (q_blocknum m) res s, s, True)
      else if q_cmd m = 5 then
        bindR (req_name m) (\<lambda>name. check_rc (mfs_creat (q_pinum m) (q_type m) name res s))
      else if q_cmd m = 6 then
        bindR (req_name m) (\<lambda>name. check_rc (mfs_unlink (q_pinum m) name res s))
      else if q_cmd m = 7 then Inr (res\<lparr>r_rc := 0\<rparr>, s, False)
      else Inl Abort)"

text \<open>\<^verbatim>\<open>init\<close> on an image file: a file without metadata is formatted with one empty directory.\<close>

definition format_image :: "mfs \<Rightarrow> merr + mfs" where
  "format_image s =
     bindR (meta_st 0 (1024 + 4) s) (\<lambda>s1.
     bindR (meta_st 4 1024 s1) (\<lambda>s2.
     bindR (meta_st 8 64 s2) (\<lambda>s3.
     let s4 = mwrite MBSIZE (meta s3) MBSIZE s3 in
     bindR (meta_st (ino_at 0) (word_of_int MFS_DIRECTORY) s4) (\<lambda>s5.
     bindR (meta_st (size_at 0) (of_nat MBSIZE) s5) (\<lambda>s6.
     bindR (meta_st (addr_at 0 0) (of_nat (MBSIZE * 4)) s6) (\<lambda>s7.
     bindR (clear_addrs [1..<M_NADDRS] 0 s7) (\<lambda>s8.
     bindR (set_bit_m 0 1 (push_inodes s8)) (\<lambda>s9.
     let s10 = mwrite MBSIZE (dir_block 0 0 (stack s9)) (4 * MBSIZE) s9 in
     Inr (s10\<lparr>meta := snd (mread (3 * MBSIZE) MBSIZE (meta s10) s10)\<rparr>)))))))))"

definition server_init :: "mfs \<Rightarrow> merr + mfs" where
  "server_init s =
     (let (rc, m) = mread (3 * MBSIZE) MBSIZE (meta s) s in
      if rc = 0 then format_image s else Inr (s\<lparr>meta := m\<rparr>))"

section \<open>The client\<close>

text \<open>
  What may happen to one transmission of a request: the request is lost, the server handles it but the reply
  is lost, or the reply arrives.  The client sends again after each of the first two; without a reply it
  goes on for ever.  The server's structure \<open>res\<close> goes from turn to turn.
\<close>

datatype fate = Lost | Unanswered | Answered

fun send_request :: "fate list \<Rightarrow> message \<Rightarrow> response \<Rightarrow> mfs \<Rightarrow> merr + (response \<times> mfs) option" where
  "send_request [] m res s = Inr None"
| "send_request (Lost # fs) m res s = send_request fs m res s"
| "send_request (Unanswered # fs) m res s =
     bindR (worker_turn m res s) (\<lambda>(res1, s1, on). if on then send_request fs m res1 s1 else Inr None)"
| "send_request (Answered # fs) m res s =
     bindR (worker_turn m res s) (\<lambda>(res1, s1, on). Inr (Some (res1, s1)))"

definition with_reply :: "(response \<Rightarrow> 'a) \<Rightarrow> merr + (response \<times> mfs) option \<Rightarrow> merr + ('a \<times> response \<times> mfs) option" where
  "with_reply f r = bindR r (\<lambda>x. Inr (map_option (\<lambda>(res, s). (f res, res, s)) x))"

definition name_field :: "byte list \<Rightarrow> byte list" where
  "name_field name = take 60 (name @ replicate 60 0)"

definition MFS_Lookup :: "fate list \<Rightarrow> message \<Rightarrow> int \<Rightarrow> byte list \<Rightarrow> response \<Rightarrow> mfs \<Rightarrow> merr + (int \<times> response \<times> mfs) option" where
  "MFS_Lookup net m0 pinum name res s =
     with_reply r_rc (send_request net (m0\<lparr>q_cmd := 1, q_pinum := pinum, q_name := name_field name\<rparr>) res s)"

definition MFS_Stat :: "fate list \<Rightarrow> message \<Rightarrow> int \<Rightarrow> response \<Rightarrow> mfs \<Rightarrow> merr + ((int \<times> (int \<times> int) option) \<times> response \<times> mfs) option" where
  "MFS_Stat net m0 inum res s =
     with_reply (\<lambda>r. if r_rc r = -1 then (-1, None) else (0, Some (r_type r, r_size r)))
       (send_request net (m0\<lparr>q_cmd := 2, q_inum := inum\<rparr>) res s)"

definition MFS_Write :: "fate list \<Rightarrow> message \<Rightarrow> int \<Rightarrow> bmem \<Rightarrow> int \<Rightarrow> response \<Rightarrow> mfs \<Rightarrow> merr + (int \<times> response \<times> mfs) option" where
  "MFS_Write net m0 inum buffer blocknum res s =
     with_reply r_rc (send_request net (m0\<lparr>q_cmd := 3, q_inum := inum, q_blocknum := blocknum, q_block := buffer\<rparr>) res s)"

definition MFS_Read :: "fate list \<Rightarrow> message \<Rightarrow> int \<Rightarrow> int \<Rightarrow> response \<Rightarrow> mfs \<Rightarrow> merr + ((int \<times> bmem option) \<times> response \<times> mfs) option" where
  "MFS_Read net m0 inum blocknum res s =
     with_reply (\<lambda>r. if r_rc r = -1 then (-1, None) else (0, Some (r_block r)))
       (send_request net (m0\<lparr>q_cmd := 4, q_inum := inum, q_blocknum := blocknum\<rparr>) res s)"

definition MFS_Creat :: "fate list \<Rightarrow> message \<Rightarrow> int \<Rightarrow> int \<Rightarrow> byte list \<Rightarrow> response \<Rightarrow> mfs \<Rightarrow> merr + (int \<times> response \<times> mfs) option" where
  "MFS_Creat net m0 pinum ty name res s =
     (if length name > 59 then Inr (Some (-1, res, s))
      else with_reply r_rc (send_request net (m0\<lparr>q_cmd := 5, q_pinum := pinum, q_type := ty, q_name := name_field name\<rparr>) res s))"

definition MFS_Unlink :: "fate list \<Rightarrow> message \<Rightarrow> int \<Rightarrow> byte list \<Rightarrow> response \<Rightarrow> mfs \<Rightarrow> merr + (int \<times> response \<times> mfs) option" where
  "MFS_Unlink net m0 pinum name res s =
     with_reply r_rc (send_request net (m0\<lparr>q_cmd := 6, q_pinum := pinum, q_name := name_field name\<rparr>) res s)"

definition MFS_Shutdown :: "fate list \<Rightarrow> message \<Rightarrow> response \<Rightarrow> mfs \<Rightarrow> merr + (int \<times> response \<times> mfs) option" where
  "MFS_Shutdown net m0 res s = with_reply r_rc (send_request net (m0\<lparr>q_cmd := 7\<rparr>) res s)"

end
