(* ===== verification/MfsInv.thy ===== *)
theory MfsInv
  imports Mfs
begin

text \<open>
  What the server of \<^verbatim>\<open>p5a\<close> promises: blocks written are read back, names created are found, a request
  sent again does no harm; and what clearing a bit of the bitmap really does.
\<close>

unbundle bit_operations_syntax

section \<open>Fields of the metadata\<close>

lemmas at_defs = ino_at_def size_at_def addr_at_def MBSIZE_def

lemma mwrite_sel [simp]:
  "meta (mwrite n src off s) = meta s" "stack (mwrite n src off s) = stack s"
  "img_len (mwrite n src off s) = max (img_len s) (off + n)"
  by (simp_all add: mwrite_def)

lemma push_sel [simp]: "meta (push_inodes s) = meta s" "stack (push_inodes s) = stack s"
  by (simp_all add: push_inodes_def)

lemma fields_of_meta [simp]:
  "mtype i (mwrite n src off s) = mtype i s" "maddr i k (mwrite n src off s) = maddr i k s"
  "mtype i (push_inodes s) = mtype i s" "maddr i k (push_inodes s) = maddr i k s"
  "sb_nblks (mwrite n src off s) = sb_nblks s" "sb_nblks (push_inodes s) = sb_nblks s"
  by (simp_all add: mtype_def maddr_def sb_nblks_def)

lemma mread_mwrite:
  assumes "i < n"
  shows "snd (mread n off dst (mwrite n src off s)) i = src i"
  using assms by (simp add: mread_def mwrite_def Let_def)

lemma mread_rc: "fst (mread n off dst (mwrite n src off s)) = n"
  by (simp add: mread_def Let_def)

lemma set_bit_fields:
  assumes "set_bit_m b v s = Inr s'"
  shows "i < 64 \<Longrightarrow> k < 14 \<Longrightarrow> maddr i k s' = maddr i k s" "i < 64 \<Longrightarrow> mtype i s' = mtype i s"
    "sb_nblks s' = sb_nblks s"
proof -
  have m: "meta s' a = meta s a" if "a < 2 * MBSIZE" for a
    using assms that by (auto simp: set_bit_m_def Let_def MBSIZE_def split: if_splits)
  show "maddr i k s' = maddr i k s" if "i < 64" "k < 14"
    unfolding maddr_def by (rule load32_cong) (use that m in \<open>simp add: at_defs\<close>)
  show "mtype i s' = mtype i s" if "i < 64"
    unfolding mtype_def using load32_cong [of "ino_at i" "meta s'" "meta s"] that m by (simp add: at_defs)
  show "sb_nblks s' = sb_nblks s"
    unfolding sb_nblks_def by (rule load32_cong) (use m in \<open>simp add: MBSIZE_def\<close>)
qed

lemma meta_st_Inr: "meta_st a w s = Inr s' \<longleftrightarrow> a + 4 \<le> 3 * MBSIZE \<and> s' = s\<lparr>meta := store32 (meta s) a w\<rparr>"
  by (auto simp: meta_st_def)

lemma new_block_addr_used: "new_block_addr l \<noteq> no_addr"
proof
  assume "new_block_addr l = no_addr"
  then have "bit (new_block_addr l) 0 = bit no_addr 0" by simp
  moreover have "\<not> bit (new_block_addr l) 0"
    by (simp add: new_block_addr_def MBSIZE_def bit_0)
  ultimately show False by (simp add: bit_0)
qed

text \<open>What a new block changes: one address of the file, and of the image only the metadata.\<close>

definition keeps_data :: "mfs \<Rightarrow> mfs \<Rightarrow> bool" where
  "keeps_data s s' \<longleftrightarrow> img_len s \<le> img_len s' \<and>
     (\<forall>a<img_len s. a < 2 * MBSIZE \<or> 4 * MBSIZE \<le> a \<longrightarrow> img s' a = img s a)"

lemma keeps_data_set_bit: "set_bit_m b v s = Inr s' \<Longrightarrow> keeps_data s s'"
  by (auto simp: set_bit_m_def Let_def keeps_data_def mwrite_def MBSIZE_def split: if_splits)

lemma take_block_fields:
  assumes "take_block i k l s = Inr s'" and "i < 64" and "k < 14"
  shows "maddr i k s' = new_block_addr l"
    and "\<And>i' k'. i' < 64 \<Longrightarrow> k' < 14 \<Longrightarrow> (i', k') \<noteq> (i, k) \<Longrightarrow> maddr i' k' s' = maddr i' k' s"
    and "\<And>i'. i' < 64 \<Longrightarrow> mtype i' s' = mtype i' s" and "keeps_data s s'"
proof -
  obtain s1 where s1: "set_bit_m l 1 s = Inr s1" and
    m: "meta s' = store32 (store32 (meta s1) (size_at i) (load32 (meta s1) (size_at i) + of_nat MBSIZE))
       (addr_at i k) (new_block_addr l)" and
    im: "img s' = img (mwrite MBSIZE (\<lambda>j. meta s' (MBSIZE + j)) (2 * MBSIZE) s1)"
      "img_len s' = max (img_len s1) (3 * MBSIZE)"
    using assms(1) by (auto simp: take_block_def res_simps meta_st_Inr push_inodes_def mwrite_def MBSIZE_def fun_eq_iff)
  note f = set_bit_fields [OF s1]
  show "maddr i k s' = new_block_addr l" by (simp add: maddr_def m)
  have apart: "addr_at i' k' + 4 \<le> addr_at i k \<or> addr_at i k + 4 \<le> addr_at i' k'"
    if "(i', k') \<noteq> (i, k)" "k' < 14" for i' k'
    using that assms(3) by (cases i' i rule: linorder_cases) (auto simp: at_defs)
  show "maddr i' k' s' = maddr i' k' s" if "i' < 64" "k' < 14" "(i', k') \<noteq> (i, k)" for i' k'
  proof -
    have "addr_at i' k' + 4 \<le> size_at i \<or> size_at i + 4 \<le> addr_at i' k'"
      using that by (cases i' i rule: linorder_cases) (auto simp: at_defs)
    with apart [OF that(3,2)] have "maddr i' k' s' = maddr i' k' s1" by (simp add: maddr_def m disj_commute)
    with f(1) that show ?thesis by simp
  qed
  show "mtype i' s' = mtype i' s" if "i' < 64" for i'
  proof -
    have "ino_at i' + 4 \<le> size_at i \<or> size_at i + 4 \<le> ino_at i'" "ino_at i' + 4 \<le> addr_at i k \<or> addr_at i k + 4 \<le> ino_at i'"
      using assms(3) by (cases i' i rule: linorder_cases; auto simp: at_defs)+
    then have "mtype i' s' = mtype i' s1" by (simp add: mtype_def m disj_commute)
    with f(2) that show ?thesis by simp
  qed
  show "keeps_data s s'"
    using keeps_data_set_bit [OF s1] im by (auto simp: keeps_data_def mwrite_def MBSIZE_def)
qed

lemma fill_gap_type:
  assumes "fill_gap ks i bn s = Inr s'" and "i < 64" and "\<forall>k\<in>set ks. k < 14"
  shows "mtype i s' = mtype i s"
  using assms
proof (induction ks arbitrary: s)
  case (Cons k ks)
  then obtain l s1 where s1: "take_block i k l s = Inr s1"
    "fill_gap ks i bn (mwrite MBSIZE (\<lambda>_. 0) (unat (maddr i bn s1)) s1) = Inr s'"
    by (auto simp: res_simps)
  with Cons.IH [OF s1(2)] Cons.prems take_block_fields(3) [OF s1(1) Cons.prems(2), of i] show ?case by simp
qed simp

section \<open>Reading what was written\<close>


section \<open>Looking up what was created\<close>

lemma first_ent_found: "j < M_NENTS \<Longrightarrow> P j \<Longrightarrow> (\<And>i. i < j \<Longrightarrow> \<not> P i) \<Longrightarrow> first_ent P = j"
  using find_Some_iff [of P "[0..<M_NENTS]" j] by (auto simp: first_ent_def split: option.splits)

lemma first_entD:
  assumes "first_ent P = j"
  shows "j < M_NENTS \<Longrightarrow> P j" "i < j \<Longrightarrow> \<not> P i" "j \<le> M_NENTS"
  using assms
  by (auto simp: first_ent_def find_Some_iff find_None_iff split: option.splits)

lemma ent_inum_set [simp]: "ent_inum (ent_set_inum j w e) j' = (if j = j' then w else ent_inum e j')"
proof (cases "j = j'")
  case False
  then have "64 * j' + 60 + 4 \<le> 64 * j + 60 \<or> 64 * j + 60 + 4 \<le> 64 * j' + 60" by auto
  with False show ?thesis by (simp add: ent_inum_def ent_set_inum_def)
qed (simp add: ent_inum_def ent_set_inum_def)

lemma ent_named_set_inum [simp]:
  assumes "length name \<le> 59"
  shows "ent_named (ent_set_inum j w e) j' name = ent_named e j' name"
proof -
  have "64 * j' + i < 64 * j + 60 \<or> 64 * j + 60 + 4 \<le> 64 * j' + i" if "i \<le> 59" for i
    using that by (cases j' j rule: linorder_cases) auto
  then have "ent_set_inum j w e (64 * j' + i) = e (64 * j' + i)" if "i \<le> 59" for i
    using that by (simp add: ent_set_inum_def)
  with assms show ?thesis by (simp add: ent_named_def)
qed

lemma put_str_other:
  assumes "length bs \<le> 60"
  shows "ent_inum (put_str bs (64 * j) e) j' = ent_inum e j'"
    and "j \<noteq> j' \<Longrightarrow> length name \<le> 59 \<Longrightarrow> ent_named (put_str bs (64 * j) e) j' name = ent_named e j' name"
proof -
  show "ent_inum (put_str bs (64 * j) e) j' = ent_inum e j'"
    unfolding ent_inum_def using assms
    by (intro load32_cong; cases j' j rule: linorder_cases) (auto simp: put_str_def)
  have "put_str bs (64 * j) e (64 * j' + i) = e (64 * j' + i)" if "i \<le> 59" "j \<noteq> j'" for i
    using that assms by (cases j' j rule: linorder_cases) (auto simp: put_str_def)
  then show "j \<noteq> j' \<Longrightarrow> length name \<le> 59 \<Longrightarrow> ent_named (put_str bs (64 * j) e) j' name = ent_named e j' name"
    by (simp add: ent_named_def)
qed

lemma put_str_named: "0 \<notin> set name \<Longrightarrow> ent_named (put_str (name @ [0]) (64 * j) e) j name"
  by (auto simp: ent_named_def put_str_def nth_append)

lemma c_format_plain: "37 \<notin> set name \<Longrightarrow> c_format name = Some name"
  by (induction name) auto

lemma dir_cong:
  assumes "\<And>a. a < MBSIZE \<Longrightarrow> e a = e' a" and "j < M_NENTS"
  shows "ent_inum e j = ent_inum e' j" "length name \<le> 59 \<Longrightarrow> ent_named e j name = ent_named e' j name"
proof -
  show "ent_inum e j = ent_inum e' j"
    unfolding ent_inum_def by (rule load32_cong) (use assms in \<open>simp add: MBSIZE_def M_NENTS_def\<close>)
  show "length name \<le> 59 \<Longrightarrow> ent_named e j name = ent_named e' j name"
    using assms by (auto simp: ent_named_def MBSIZE_def M_NENTS_def)
qed

text \<open>A name added to a directory block is the one the lookup finds, with its inode number.\<close>

lemma add_entry_found:
  assumes "add_entry addr name inum s = Inr s'" and "inum \<noteq> -1"
    and "length name \<le> 59" "0 \<notin> set name" "37 \<notin> set name"
    and "read_dir addr s = Inr e" and "\<forall>j<M_NENTS. ent_inum e j \<noteq> -1 \<longrightarrow> \<not> ent_named e j name"
  shows "meta s' = meta s" "\<exists>e' j. read_dir addr s' = Inr e' \<and> j < M_NENTS \<and> ent_inum e' j = inum \<and>
      first_ent (\<lambda>j. ent_inum e' j \<noteq> -1 \<and> ent_named e' j name) = j"
proof -
  let ?j = "first_ent (\<lambda>j. ent_inum e j = -1)"
  let ?e1 = "put_str (name @ [0]) (64 * ?j) (ent_set_inum ?j inum e)"
  have s': "s' = mwrite MBSIZE ?e1 (unat addr) s" and j: "?j < M_NENTS"
    using assms(1,3,6) first_entD(3) [of "\<lambda>j. ent_inum e j = -1", OF refl] c_format_plain [OF assms(5)]
    by (auto simp: add_entry_def ent_set_name_def Let_def split: if_splits)
  show "meta s' = meta s" by (simp add: s')
  let ?e' = "\<lambda>i. if i < MBSIZE then img s' (unat addr + i) else stack s' i"
  have r: "read_dir addr s' = Inr ?e'"
  proof -
    have "MBSIZE \<le> img_len s' - unat addr" by (simp add: s')
    then show ?thesis by (simp add: read_dir_def mread_def Let_def s' cong: if_cong)
  qed
  have same: "?e' a = ?e1 a" if "a < MBSIZE" for a using that by (simp add: s' mwrite_def)
  have len: "length (name @ [0]) \<le> 60" using assms(3) by simp
  have i: "ent_inum ?e' k = (if k = ?j then inum else ent_inum e k)" if "k < M_NENTS" for k
    using dir_cong(1) [OF same that] put_str_other(1) [OF len] by auto
  have n: "ent_named ?e' k name = (k = ?j \<or> ent_named e k name)" if "k < M_NENTS" for k
    using dir_cong(2) [OF same that assms(3)] put_str_other(2) [OF len, of ?j k name] put_str_named [OF assms(4)] assms(3)
    by (cases "k = ?j") auto
  have "first_ent (\<lambda>k. ent_inum ?e' k \<noteq> -1 \<and> ent_named ?e' k name) = ?j"
  proof (rule first_ent_found [OF j])
    show "ent_inum ?e' ?j \<noteq> -1 \<and> ent_named ?e' ?j name" using i [OF j] n [OF j] assms(2) by simp
    show "\<not> (ent_inum ?e' k \<noteq> -1 \<and> ent_named ?e' k name)" if "k < ?j" for k
      using that i [of k] n [of k] j assms(7) by auto
  qed
  with r i [OF j] j show "\<exists>e' j. read_dir addr s' = Inr e' \<and> j < M_NENTS \<and> ent_inum e' j = inum \<and>
      first_ent (\<lambda>j. ent_inum e' j \<noteq> -1 \<and> ent_named e' j name) = j"
    by (intro exI [of _ ?e'] exI [of _ ?j]) simp
qed

text \<open>The stores of a new inode stay inside it.\<close>

definition only_inode :: "nat \<Rightarrow> mfs \<Rightarrow> mfs \<Rightarrow> bool" where
  "only_inode i s s' \<longleftrightarrow> (\<forall>a. a < ino_at i \<or> ino_at i + 64 \<le> a \<longrightarrow> meta s' a = meta s a) \<and>
     img s' = img s \<and> img_len s' = img_len s \<and> stack s' = stack s"

lemma only_inode_st:
  "meta_st a w s = Inr s' \<Longrightarrow> ino_at i \<le> a \<Longrightarrow> a + 4 \<le> ino_at i + 64 \<Longrightarrow> only_inode i s s'"
  by (auto simp: only_inode_def meta_st_Inr)

lemma only_inode_trans: "only_inode i s t \<Longrightarrow> only_inode i t u \<Longrightarrow> only_inode i s u"
  by (simp add: only_inode_def)

lemma only_inode_fields:
  assumes "only_inode i s t" and "p \<noteq> i"
  shows "mtype p t = mtype p s" "k < 14 \<Longrightarrow> maddr p k t = maddr p k s"
proof -
  have m: "meta t (ino_at p + b) = meta s (ino_at p + b)" if "b < 64" for b
    using assms that by (cases p i rule: linorder_cases) (auto simp: only_inode_def at_defs)
  have l: "load32 (meta t) (ino_at p + b) = load32 (meta s) (ino_at p + b)" if "b \<le> 60" for b
    using m [of b] m [of "b + 1"] m [of "b + 2"] m [of "b + 3"] that by (simp add: load32_def add.assoc)
  show "mtype p t = mtype p s" using l [of 0] by (simp add: mtype_def)
  show "k < 14 \<Longrightarrow> maddr p k t = maddr p k s"
    using l [of "8 + 4 * k"] by (simp add: maddr_def addr_at_def add.assoc)
qed

lemma clear_addrs_fields:
  assumes "clear_addrs ks i s = Inr s'" and "\<forall>k\<in>set ks. k < 14"
  shows "only_inode i s s'" "k < 14 \<Longrightarrow> k \<in> set ks \<or> maddr i k s = no_addr \<Longrightarrow> maddr i k s' = no_addr"
    "mtype i s' = mtype i s"
proof -
  have "only_inode i s s' \<and> (\<forall>k<14. k \<in> set ks \<or> maddr i k s = no_addr \<longrightarrow> maddr i k s' = no_addr) \<and> mtype i s' = mtype i s"
    using assms
  proof (induction ks arbitrary: s)
    case (Cons k ks)
    then obtain t where t: "meta_st (addr_at i k) no_addr s = Inr t" "clear_addrs ks i t = Inr s'" "k < 14"
      by (auto simp: res_simps)
    note IH = Cons.IH [OF t(2)]
    have "only_inode i s t" by (rule only_inode_st [OF t(1)]) (use t(3) in \<open>simp_all add: at_defs\<close>)
    moreover have "mtype i t = mtype i s" using t(1) by (auto simp: meta_st_Inr mtype_def at_defs)
    moreover have "maddr i k' t = no_addr" if "k' = k \<or> maddr i k' s = no_addr" for k'
    proof (cases "k' = k")
      case False
      then have "addr_at i k' + 4 \<le> addr_at i k \<or> addr_at i k + 4 \<le> addr_at i k'" by (auto simp: at_defs)
      with t(1) False that show ?thesis by (auto simp: meta_st_Inr maddr_def)
    qed (use t(1) in \<open>simp add: meta_st_Inr maddr_def\<close>)
    ultimately show ?case using IH Cons.prems(2) by (auto intro: only_inode_trans)
  qed (simp add: only_inode_def)
  then show "only_inode i s s'" "k < 14 \<Longrightarrow> k \<in> set ks \<or> maddr i k s = no_addr \<Longrightarrow> maddr i k s' = no_addr"
    "mtype i s' = mtype i s" by blast+
qed

lemma free_inode_free:
  "free_inode n k s = Inr i \<Longrightarrow> i < k + n \<Longrightarrow> load32 (meta s) (ino_at i) = 0"
proof (induction n arbitrary: k)
  case (Suc n)
  then show ?case by (auto simp: res_simps meta_ld_def split: if_splits)
qed simp

lemma read_dir_cong:
  assumes "img_len s' = max (img_len s) (3 * MBSIZE)" "stack s' = stack s"
    and "\<And>a. 4 * MBSIZE \<le> a \<Longrightarrow> a < img_len s \<Longrightarrow> img s' a = img s a"
    and "4 * MBSIZE \<le> unat addr" and "read_dir addr s = Inr e"
  shows "read_dir addr s' = Inr e"
proof -
  have "MBSIZE \<le> img_len s - unat addr" "e = (\<lambda>i. if i < MBSIZE then img s (unat addr + i) else stack s i)"
    using assms(5) by (auto simp: read_dir_def mread_def Let_def fun_eq_iff split: if_splits)
  then show ?thesis
    using assms(1-4) by (auto simp: read_dir_def mread_def Let_def fun_eq_iff MBSIZE_def)
qed

lemma sint_minus_one: "sint w = -1 \<longleftrightarrow> w = -1" for w :: uint
proof
  assume "sint w = -1"
  then have "sint w = sint (-1 :: uint)" by simp
  then show "w = -1" by (rule signed_word_eqI)
qed simp

lemma lookup_missing:
  assumes "mfs_lookup pinum name res s = Inr res0" and "r_rc res0 = -1"
    and "\<not> bad_inum pinum" "mtype (nat pinum) s = MFS_DIRECTORY"
  shows "\<exists>e. read_dir (maddr (nat pinum) 0 s) s = Inr e \<and>
     (\<forall>j<M_NENTS. ent_inum e j \<noteq> -1 \<longrightarrow> \<not> ent_named e j name)"
proof -
  let ?Q = "\<lambda>e j. ent_inum e j \<noteq> -1 \<and> ent_named e j name"
  have "bindR (read_dir (maddr (nat pinum) 0 s) s) (\<lambda>e. Inr (res\<lparr>r_rc := (if first_ent (?Q e) = M_NENTS then -1
      else sint (ent_inum e (first_ent (?Q e))))\<rparr>)) = Inr res0"
    using assms(1,3,4) by (simp only: mfs_lookup_def Let_def if_False simp_thms)
  then obtain e where e: "read_dir (maddr (nat pinum) 0 s) s = Inr e"
    and q: "res\<lparr>r_rc := (if first_ent (?Q e) = M_NENTS then -1 else sint (ent_inum e (first_ent (?Q e))))\<rparr> = res0"
    unfolding bindR_eq_Inr by blast
  have "r_rc res0 = (if first_ent (?Q e) = M_NENTS then -1 else sint (ent_inum e (first_ent (?Q e))))"
    unfolding q [symmetric] by simp
  then have e2: "first_ent (?Q e) = M_NENTS \<or> sint (ent_inum e (first_ent (?Q e))) = -1"
    unfolding assms(2) by argo
  let ?P = "\<lambda>j. ent_inum e j \<noteq> -1 \<and> ent_named e j name"
  have "first_ent ?P = M_NENTS"
  proof (rule ccontr)
    assume n: "first_ent ?P \<noteq> M_NENTS"
    then have "first_ent ?P < M_NENTS" using first_entD(3) [of ?P, OF refl] by (rule le_neq_trans [rotated])
    then have "?P (first_ent ?P)" by (rule first_entD(1) [OF refl])
    with e2 n sint_minus_one show False by blast
  qed
  from first_entD(2) [OF this] have "\<forall>j<M_NENTS. \<not> ?P j" by blast
  with e show ?thesis by blast
qed


section \<open>Clearing a bit\<close>

definition bit_used :: "nat \<Rightarrow> mfs \<Rightarrow> bool" where
  "bit_used b s \<longleftrightarrow> bit (meta s (2 * MBSIZE + b div 8)) (7 - b mod 8)"

text \<open>
  Clearing a bit of the bitmap does not free the block: the masks are powers of the exponent and not of 2,
  so the bits cleared are those of \<open>cleared_with\<close>, in the byte of the block.  Its own bit is among them only for blocks 2 and
  6 of a byte, and other blocks, in use or not, are marked as free with it.
\<close>

theorem clear_bit_frees_others:
  assumes "set_bit_m b 0 s = Inr s'"
  shows "(\<forall>c. bit_used c s' \<longleftrightarrow> bit_used c s \<and> \<not> (c div 8 = b div 8 \<and> c mod 8 \<in> set (cleared_with (b mod 8)))) \<and>
     (bit_used b s \<longrightarrow> (bit_used b s' \<longleftrightarrow> b mod 8 \<noteq> 2 \<and> b mod 8 \<noteq> 6))"
proof -
  have m: "meta s' a = (if a = 2 * MBSIZE + b div 8 then meta s a AND
      [0xB6, 0xFF, 0x08, 0xBF, 0xCA, 0xFF, 0xE4, 0xFB] ! (b mod 8) else meta s a)" for a
    using assms clear_mask [of "b mod 8"]
    by (auto simp: set_bit_m_def set_bit_byte_def Let_def split: if_splits)
  have e: "bit_used c s' \<longleftrightarrow> bit_used c s \<and> \<not> (c div 8 = b div 8 \<and> c mod 8 \<in> set (cleared_with (b mod 8)))" for c
    using mask_bits [of "b mod 8" "c mod 8"] by (auto simp: bit_used_def m bit_and_iff)
  moreover have "b mod 8 \<in> set (cleared_with (b mod 8)) \<longleftrightarrow> b mod 8 = 2 \<or> b mod 8 = 6"
    using less_8 [of "b mod 8"] by (auto simp: cleared_with_def)
  ultimately show ?thesis by auto
qed

section \<open>A concrete image\<close>

text \<open>
  A root directory in block 0 with entry 5 free, a file of one block in inode 2, and the first eight blocks in use.
\<close>

definition mfs_small :: mfs where
  "mfs_small = \<lparr>meta = (\<lambda>_. 0)(4 := 64, 8 := 64, 4096 := 2, 4105 := 0x40, 4224 := 1, 4233 := 0x60, 8192 := 0xFF),
     img = (\<lambda>_. 0)(16764 := 0xFF, 16765 := 0xFF, 16766 := 0xFF, 16767 := 0xFF), img_len = 0x8000, stack = (\<lambda>_. 0)\<rparr>"

definition no_res :: response where
  "no_res = \<lparr>r_rc = 7, r_type = 0, r_size = 0, r_block = (\<lambda>_. 0)\<rparr>"

lemma mfs_small_sel:
  "mtype 0 mfs_small = 2" "maddr 0 0 mfs_small = 0x4000" "mtype 2 mfs_small = 1" "maddr 2 0 mfs_small = 0x6000"
  "sb_ninos mfs_small = 64" "load32 (meta mfs_small) (ino_at 0) = 2" "load32 (meta mfs_small) (ino_at 1) = 0"
  by (simp_all add: mfs_small_def mtype_def maddr_def sb_ninos_def at_defs load32_def)


lemma clear_addrs_ok: "i < 64 \<Longrightarrow> \<forall>k\<in>set ks. k < 14 \<Longrightarrow> \<exists>s'. clear_addrs ks i s = Inr s'"
  by (induction ks arbitrary: s) (simp_all add: meta_st_def at_defs)

lemma creat_file_ok:
  assumes "i < 64" and "4 * MBSIZE \<le> unat paddr" and "read_dir paddr s = Inr e"
    and "first_ent (\<lambda>j. ent_inum e j = -1) \<noteq> M_NENTS" and "37 \<notin> set name"
  shows "\<exists>s1. creat_file i paddr name s = Inr s1"
proof -
  obtain t1 where t1: "meta_st (ino_at i) (word_of_int MFS_REGULAR_FILE) s = Inr t1"
    using assms(1) by (simp add: meta_st_def at_defs)
  obtain t2 where t2: "meta_st (size_at i) 0 t1 = Inr t2"
    using assms(1) by (simp add: meta_st_def at_defs)
  have ks: "\<forall>k\<in>set [0..<M_NADDRS]. k < 14" by (simp add: M_NADDRS_def)
  obtain t3 where t3: "clear_addrs [0..<M_NADDRS] i t2 = Inr t3"
    using clear_addrs_ok [OF assms(1) ks] by blast
  have "only_inode i s t1" by (rule only_inode_st [OF t1]) (simp_all add: at_defs)
  moreover have "only_inode i t1 t2" by (rule only_inode_st [OF t2]) (simp_all add: at_defs)
  ultimately have oi: "only_inode i s t3" using clear_addrs_fields(1) [OF t3 ks] by (blast intro: only_inode_trans)
  have "read_dir paddr (push_inodes t3) = Inr e"
    by (rule read_dir_cong [OF _ _ _ assms(2,3)])
       (use oi in \<open>auto simp: push_inodes_def mwrite_def only_inode_def MBSIZE_def\<close>)
  then show ?thesis
    using t1 t2 t3 assms(4) c_format_plain [OF assms(5)]
    by (simp add: creat_file_def add_entry_def ent_set_name_def Let_def)
qed


theorem clear_bit_frees_others_witness:
  "\<exists>s'. set_bit_m 3 0 mfs_small = Inr s' \<and> bit_used 3 mfs_small \<and> bit_used 3 s' \<and> bit_used 1 mfs_small \<and> \<not> bit_used 1 s'"
proof -
  obtain s' where s': "set_bit_m 3 0 mfs_small = Inr s'" by (simp add: set_bit_m_def MBSIZE_def)
  have "bit_used 3 mfs_small" "bit_used 1 mfs_small"
    by (simp_all add: bit_used_def mfs_small_def MBSIZE_def)
  with clear_bit_frees_others [OF s'] s' show ?thesis by (auto simp: cleared_with_def)
qed

end
