(* ===== verification/Grep.thy ===== *)
theory Grep
  imports Prelude
begin

text \<open>
  The pattern matcher of the user program \<^verbatim>\<open>grep\<close> (\<^verbatim>\<open>user/grep.c\<close>).  Pattern and text are C strings: the
  lists of their bytes before the NUL.
\<close>

section \<open>The code\<close>

definition cDOT :: byte where "cDOT = 46"
definition cSTAR :: byte where "cSTAR = 42"
definition cDOLLAR :: byte where "cDOLLAR = 36"
definition cCARET :: byte where "cCARET = 94"

function matchhere :: "byte list \<Rightarrow> byte list \<Rightarrow> bool"
  and matchstar :: "byte \<Rightarrow> byte list \<Rightarrow> byte list \<Rightarrow> bool" where
  "matchhere re str =
     (case re of
        [] \<Rightarrow> True
      | c # re1 \<Rightarrow>
          if re1 \<noteq> [] \<and> hd re1 = cSTAR then matchstar c (tl re1) str
          else if c = cDOLLAR \<and> re1 = [] then str = []
          else if str \<noteq> [] \<and> (c = cDOT \<or> c = hd str) then matchhere re1 (tl str)
          else False)"
| "matchstar c re str =
     (if matchhere re str then True
      else if str \<noteq> [] \<and> (hd str = c \<or> c = cDOT) then matchstar c re (tl str)
      else False)"
  by pat_completeness auto
termination
  by (relation "measures [\<lambda>x. case x of Inl (re, str) \<Rightarrow> length re | Inr (c, re, str) \<Rightarrow> length re,
       \<lambda>x. case x of Inl (re, str) \<Rightarrow> length str | Inr (c, re, str) \<Rightarrow> length str,
       \<lambda>x. case x of Inl _ \<Rightarrow> 0 | Inr _ \<Rightarrow> 1]")
     (auto simp: less_Suc_eq_le)

declare matchhere.simps [simp del] matchstar.simps [simp del]

text \<open>The loop over the starting points of \<^verbatim>\<open>match\<close>, the end of the str included.\<close>

fun match_from :: "byte list \<Rightarrow> byte list \<Rightarrow> bool" where
  "match_from re [] = matchhere re []"
| "match_from re (t # ts) = (if matchhere re (t # ts) then True else match_from re ts)"

definition match :: "byte list \<Rightarrow> byte list \<Rightarrow> bool" where
  "match re str = (if re \<noteq> [] \<and> hd re = cCARET then matchhere (tl re) str else match_from re str)"

text \<open>
  The buffer of \<^verbatim>\<open>grep\<close>, which is not cleared between reads and has no NUL behind the bytes read.  Reading or
  writing outside it is \<open>None\<close>.  \<open>strchr\<close> gives the place of the character or the end of the string.
\<close>

definition GBUF :: nat where "GBUF = 1024"

function find_nl :: "(nat \<Rightarrow> byte) \<Rightarrow> nat \<Rightarrow> nat option option" where
  "find_nl buf p =
     (if GBUF \<le> p then None
      else if buf p = 0 then Some None
      else if buf p = 10 then Some (Some p)
      else find_nl buf (Suc p))"
  by pat_completeness auto
termination
  by (relation "measure (\<lambda>(buf, p). GBUF - p)") auto

declare find_nl.simps [simp del]

text \<open>The string at \<open>p\<close> once its newline at \<open>q\<close> is a NUL; a byte before it may be a NUL as well.\<close>

definition line_at :: "(nat \<Rightarrow> byte) \<Rightarrow> nat \<Rightarrow> nat \<Rightarrow> byte list" where
  "line_at buf p q = takeWhile (\<lambda>c. c \<noteq> 0) (map buf [p..<q])"

text \<open>The loop over the lines of the buffer: the place behind the last one, the buffer and the output.\<close>

function grep_lines :: "byte list \<Rightarrow> nat \<Rightarrow> (nat \<Rightarrow> byte) \<Rightarrow> byte list \<Rightarrow> (nat \<times> (nat \<Rightarrow> byte) \<times> byte list) option" where
  "grep_lines pat p buf out =
     (case find_nl buf p of
        None \<Rightarrow> None
      | Some None \<Rightarrow> Some (p, buf, out)
      | Some (Some q) \<Rightarrow>
          if q < p \<or> GBUF \<le> q then None
          else if match pat (line_at buf p q)
          then grep_lines pat (Suc q) (buf(q := 10)) (out @ map buf [p..<q] @ [10])
          else grep_lines pat (Suc q) (buf(q := 0)) out)"
  by pat_completeness auto
termination
  by (relation "measure (\<lambda>(pat, p, buf, out). GBUF - p)") auto

declare grep_lines.simps [simp del]

text \<open>\<^verbatim>\<open>grep\<close> on a file with the bytes \<open>inp\<close> left, which a read returns as many of as fit.\<close>

function grep_loop :: "byte list \<Rightarrow> int \<Rightarrow> (nat \<Rightarrow> byte) \<Rightarrow> byte list \<Rightarrow> byte list \<Rightarrow> byte list option" where
  "grep_loop pat m buf inp out =
     (if m < 0 then None
      else
        let m0 = nat m; n = min (GBUF - m0) (length inp) in
        if n = 0 then Some out
        else
          let buf1 = (\<lambda>i. if m0 \<le> i \<and> i < m0 + n then inp ! (i - m0) else buf i); m1 = m0 + n in
          case grep_lines pat 0 buf1 out of
            None \<Rightarrow> None
          | Some (p, buf2, out1) \<Rightarrow>
              let m2 = (if p = 0 then 0 else int m1);
                  m3 = (if m2 > 0 then m2 - int p else m2);
                  buf3 = (if m2 > 0 then (\<lambda>i. if int i < m3 then buf2 (p + i) else buf2 i) else buf2)
              in grep_loop pat m3 buf3 (drop n inp) out1)"
  by pat_completeness auto
termination
  by (relation "measure (\<lambda>(pat, m, buf, inp, out). length inp)") auto

declare grep_loop.simps [simp del]

definition grep :: "byte list \<Rightarrow> (nat \<Rightarrow> byte) \<Rightarrow> byte list \<Rightarrow> byte list option" where
  "grep pat buf inp = grep_loop pat 0 buf inp []"

section \<open>What a pattern means\<close>

text \<open>
  A pattern is a sequence of items: a character, repeated or not, and the end of the line, which
  \<^verbatim>\<open>$\<close> stands for as the last character only.
\<close>

datatype item = One byte | Many byte | Eol

function items :: "byte list \<Rightarrow> item list" where
  "items re =
     (case re of
        [] \<Rightarrow> []
      | c # re1 \<Rightarrow>
          if re1 \<noteq> [] \<and> hd re1 = cSTAR then Many c # items (tl re1)
          else if c = cDOLLAR \<and> re1 = [] then [Eol]
          else One c # items re1)"
  by pat_completeness auto
termination
  by (relation "measure length") auto

declare items.simps [simp del]

definition char_ok :: "byte \<Rightarrow> byte \<Rightarrow> bool" where
  "char_ok c x \<longleftrightarrow> c = cDOT \<or> x = c"

text \<open>
  The words an item stands for, and the texts that begin with words for the items in order; with an end of line
  among the items nothing may follow.
\<close>

fun item_word :: "item \<Rightarrow> byte list \<Rightarrow> bool" where
  "item_word (One c) w \<longleftrightarrow> (\<exists>x. w = [x] \<and> char_ok c x)"
| "item_word (Many c) w \<longleftrightarrow> (\<forall>x\<in>set w. char_ok c x)"
| "item_word Eol w \<longleftrightarrow> w = []"

definition begins :: "item list \<Rightarrow> byte list \<Rightarrow> bool" where
  "begins is str \<longleftrightarrow>
     (\<exists>ws rest. str = concat ws @ rest \<and> list_all2 item_word is ws \<and> (Eol \<in> set is \<longrightarrow> rest = []))"

lemma begins_Nil [simp]: "begins [] str"
  by (auto simp: begins_def)

lemma begins_Eol [simp]: "begins [Eol] str \<longleftrightarrow> str = []"
  by (auto simp: begins_def list_all2_Cons1)

lemma begins_Cons:
  assumes "i \<noteq> Eol"
  shows "begins (i # is) str \<longleftrightarrow> (\<exists>w t. str = w @ t \<and> item_word i w \<and> begins is t)"
proof
  assume "begins (i # is) str"
  then obtain ws rest where t: "str = concat ws @ rest" "list_all2 item_word (i # is) ws"
    "Eol \<in> set (i # is) \<longrightarrow> rest = []"
    unfolding begins_def by blast
  then obtain w vs where v: "ws = w # vs" "item_word i w" "list_all2 item_word is vs"
    by (auto simp: list_all2_Cons1)
  with t have "begins is (concat vs @ rest)" by (auto simp: begins_def)
  with t(1) v show "\<exists>w t. str = w @ t \<and> item_word i w \<and> begins is t" by auto
next
  assume "\<exists>w t. str = w @ t \<and> item_word i w \<and> begins is t"
  then obtain w ws rest where "str = w @ concat ws @ rest" "item_word i w" "list_all2 item_word is ws"
    "Eol \<in> set is \<longrightarrow> rest = []"
    unfolding begins_def by blast
  with assms show "begins (i # is) str"
    unfolding begins_def by (intro exI [of _ "w # ws"] exI [of _ rest]) auto
qed

lemma begins_One:
  "begins (One c # is) str \<longleftrightarrow> str \<noteq> [] \<and> char_ok c (hd str) \<and> begins is (tl str)"
proof -
  have "begins (One c # is) str \<longleftrightarrow> (\<exists>x t. str = x # t \<and> char_ok c x \<and> begins is t)"
    (is "?l = ?r")
  proof
    assume ?l
    then obtain w t where "str = w @ t" "item_word (One c) w" "begins is t"
      unfolding begins_Cons [OF item.distinct(3)] by blast
    then show ?r by auto
  next
    assume ?r
    then obtain x t where "str = [x] @ t" "item_word (One c) [x]" "begins is t" by auto
    then show ?l unfolding begins_Cons [OF item.distinct(3)] by blast
  qed
  then show ?thesis by (cases str) simp_all
qed

section \<open>The matcher and the meaning agree\<close>

lemma items_Cons:
  "items (c # re) = (if re \<noteq> [] \<and> hd re = cSTAR then Many c # items (tl re)
     else if c = cDOLLAR \<and> re = [] then [Eol] else One c # items re)"
  by (subst items.simps) simp

lemma matchhere_Cons:
  "matchhere (c # re) str = (if re \<noteq> [] \<and> hd re = cSTAR then matchstar c (tl re) str
     else if c = cDOLLAR \<and> re = [] then str = []
     else str \<noteq> [] \<and> char_ok c (hd str) \<and> matchhere re (tl str))"
  by (subst matchhere.simps) (auto simp: char_ok_def)

lemma ex_list: "(\<exists>w. Q w) \<longleftrightarrow> Q [] \<or> (\<exists>y v. Q (y # v))"
  by (metis list.exhaust)

lemma matchstar_prefix:
  "matchstar c re str \<longleftrightarrow> (\<exists>w t. str = w @ t \<and> (\<forall>x\<in>set w. char_ok c x) \<and> matchhere re t)"
proof (induction str)
  case Nil
  then show ?case by (simp add: matchstar.simps)
next
  case (Cons x str)
  have "matchstar c re (x # str) \<longleftrightarrow> matchhere re (x # str) \<or> char_ok c x \<and> matchstar c re str"
    by (subst matchstar.simps) (auto simp: char_ok_def)
  also have "\<dots> \<longleftrightarrow> (\<exists>w t. x # str = w @ t \<and> (\<forall>x\<in>set w. char_ok c x) \<and> matchhere re t)"
    unfolding Cons.IH by (subst (2) ex_list) auto
  finally show ?case .
qed

lemma matchhere_begins: "matchhere re str \<longleftrightarrow> begins (items re) str"
proof (induction re arbitrary: str rule: items.induct)
  case (1 re)
  show ?case
  proof (cases re)
    case Nil
    then show ?thesis by (simp add: matchhere.simps items.simps)
  next
    case (Cons c re1)
    consider "re1 \<noteq> []" "hd re1 = cSTAR" | "re1 = [] \<or> hd re1 \<noteq> cSTAR" "c = cDOLLAR" "re1 = []"
      | "re1 = [] \<or> hd re1 \<noteq> cSTAR" "\<not> (c = cDOLLAR \<and> re1 = [])" by blast
    then show ?thesis
    proof cases
      case 1
      with Cons have "items re = Many c # items (tl re1)" "matchhere re str = matchstar c (tl re1) str"
        by (simp_all add: items_Cons matchhere_Cons)
      with "1.IH"(1) [OF Cons conjI [OF 1]] show ?thesis by (simp add: matchstar_prefix begins_Cons)
    next
      case 2
      with Cons show ?thesis by (simp add: items_Cons matchhere_Cons)
    next
      case 3
      with Cons have "items re = One c # items re1"
        "matchhere re str \<longleftrightarrow> str \<noteq> [] \<and> char_ok c (hd str) \<and> matchhere re1 (tl str)"
        by (auto simp: items_Cons matchhere_Cons)
      moreover have "matchhere re1 t = begins (items re1) t" for t
        by (rule "1.IH"(2) [OF Cons]) (use 3 in auto)
      ultimately show ?thesis by (cases str) (simp_all add: begins_One)
    qed
  qed
qed

lemma match_from_suffix: "match_from re str \<longleftrightarrow> (\<exists>u t. str = u @ t \<and> matchhere re t)"
proof (induction str)
  case (Cons x str)
  have "(\<exists>u t. x # str = u @ t \<and> matchhere re t) \<longleftrightarrow> matchhere re (x # str) \<or> (\<exists>u t. str = u @ t \<and> matchhere re t)"
    by (subst ex_list) auto
  then show ?case unfolding match_from.simps Cons.IH by argo
qed simp

text \<open>
  Claim C22.  The matcher of \<^verbatim>\<open>grep\<close> finds what the pattern means: a pattern behind a caret matches when the text
  begins with words for its items, any other pattern when some part of the text does, from the start of
  the text up to its end.
\<close>

theorem match_means_pattern:
  "match re str \<longleftrightarrow>
     (if re \<noteq> [] \<and> hd re = cCARET then begins (items (tl re)) str
      else \<exists>u t. str = u @ t \<and> begins (items re) t)"
  by (simp add: match_def match_from_suffix matchhere_begins)

section \<open>The lines of a short input\<close>

text \<open>The lines of a text that end with a newline, without it.\<close>

function nl_lines :: "byte list \<Rightarrow> byte list list" where
  "nl_lines s =
     (if 10 \<in> set s then takeWhile (\<lambda>c. c \<noteq> 10) s # nl_lines (tl (dropWhile (\<lambda>c. c \<noteq> 10) s)) else [])"
  by pat_completeness auto
termination
proof (relation "measure length", goal_cases)
  case (2 s)
  then have "dropWhile (\<lambda>c. c \<noteq> 10) s \<noteq> []" by (auto simp: dropWhile_eq_Nil_conv)
  then have "length (tl (dropWhile (\<lambda>c. c \<noteq> 10) s)) < length (dropWhile (\<lambda>c. c \<noteq> 10) s)" by simp
  also have "\<dots> \<le> length s" by (rule length_dropWhile_le)
  finally show ?case by simp
qed simp

declare nl_lines.simps [simp del]

lemma find_nl_place:
  assumes "map buf [p..<m] = s" "p \<le> m" "m < GBUF" "buf m = 0" "0 \<notin> set s"
  shows "find_nl buf p = Some (if 10 \<in> set s then Some (p + length (takeWhile (\<lambda>c. c \<noteq> 10) s)) else None)"
  using assms
proof (induction s arbitrary: p)
  case Nil
  then have "p = m" by auto
  with Nil show ?case by (subst find_nl.simps) simp
next
  case (Cons c s)
  then have "p < m" by (cases "p < m") auto
  with Cons.prems(1) have "buf p = c" "map buf [Suc p..<m] = s" by (simp_all add: upt_conv_Cons)
  with Cons \<open>p < m\<close> show ?case by (subst find_nl.simps) (auto simp: Cons.IH [of "Suc p"])
qed

definition grep_out :: "byte list \<Rightarrow> byte list \<Rightarrow> byte list" where
  "grep_out pat s = concat (map (\<lambda>l. l @ [10]) (filter (match pat) (nl_lines s)))"

lemma grep_lines_match:
  assumes "map buf [p..<m] = s" "p \<le> m" "m < GBUF" "buf m = 0" "0 \<notin> set s"
  shows "\<exists>p1 buf1. grep_lines pat p buf out = Some (p1, buf1, out @ grep_out pat s) \<and> p \<le> p1 \<and> p1 \<le> m \<and>
    (p1 = p \<longrightarrow> 10 \<notin> set s)"
  using assms
proof (induction s arbitrary: p buf out rule: nl_lines.induct)
  case (1 s)
  note find = find_nl_place [OF "1.prems"]
  show ?case
  proof (cases "10 \<in> set s")
    case False
    with find "1.prems"(2) show ?thesis
      by (subst grep_lines.simps) (simp add: grep_out_def nl_lines.simps)
  next
    case True
    define l q where "l = takeWhile (\<lambda>c. c \<noteq> 10) s" and "q = p + length l"
    define buf2 where "buf2 = (if match pat l then buf(q := 10) else buf(q := 0))"
    have len: "length s = m - p" using "1.prems"(1) by auto
    have lt: "length l < length s"
    proof -
      have "dropWhile (\<lambda>c. c \<noteq> 10) s \<noteq> []" using True by (auto simp: dropWhile_eq_Nil_conv)
      then have "0 < length (dropWhile (\<lambda>c. c \<noteq> 10) s)" by simp
      moreover have "length s = length l + length (dropWhile (\<lambda>c. c \<noteq> 10) s)"
        by (simp add: l_def flip: length_append)
      ultimately show ?thesis by linarith
    qed
    have q: "q < m" "p \<le> q" using lt len by (auto simp: q_def)
    have upt: "[p..<m] = [p..<q] @ [q..<m]"
      using q upt_add_eq_append [of p q "m - q"] by simp
    have parts: "map buf [p..<q] @ map buf [q..<m] = l @ dropWhile (\<lambda>c. c \<noteq> 10) s"
      using "1.prems"(1) upt by (simp add: l_def)
    have line: "map buf [p..<q] = l" and suffix: "map buf [q..<m] = dropWhile (\<lambda>c. c \<noteq> 10) s"
      using parts by (simp_all add: append_eq_append_conv q_def)
    have rest: "map buf2 [Suc q..<m] = tl (dropWhile (\<lambda>c. c \<noteq> 10) s)"
      using q by (simp add: upt_conv_Cons buf2_def flip: suffix)
    have "\<forall>c\<in>set l. c \<noteq> 0" using "1.prems"(5) by (auto simp: l_def dest!: set_takeWhileD)
    then have at: "line_at buf p q = l"
      by (simp add: line_at_def line takeWhile_eq_all_conv)
    have out: "grep_out pat s = (if match pat l then l @ [10] else []) @ grep_out pat (tl (dropWhile (\<lambda>c. c \<noteq> 10) s))"
      using True by (subst (1) grep_out_def) (simp add: nl_lines.simps [of s] l_def grep_out_def)
    have step: "grep_lines pat p buf out = grep_lines pat (Suc q) buf2 (out @ (if match pat l then l @ [10] else []))"
      using find True q "1.prems"(3) at line
      by (subst grep_lines.simps) (simp add: l_def [symmetric] q_def [symmetric] buf2_def)
    have "\<exists>p1 buf1. grep_lines pat (Suc q) buf2 (out @ (if match pat l then l @ [10] else [])) =
        Some (p1, buf1, (out @ (if match pat l then l @ [10] else [])) @ grep_out pat (tl (dropWhile (\<lambda>c. c \<noteq> 10) s))) \<and>
        Suc q \<le> p1 \<and> p1 \<le> m \<and> (p1 = Suc q \<longrightarrow> 10 \<notin> set (tl (dropWhile (\<lambda>c. c \<noteq> 10) s)))"
    proof (rule "1.IH" [OF True rest _ "1.prems"(3)])
      show "Suc q \<le> m" "buf2 m = 0" using q "1.prems"(4) by (auto simp: buf2_def)
      show "0 \<notin> set (tl (dropWhile (\<lambda>c. c \<noteq> 10) s))"
        using "1.prems"(5) by (metis list.sel(2) list.set_sel(2) set_dropWhileD)
    qed
    with q show ?thesis unfolding step out by (auto intro!: exI)
  qed
qed

text \<open>
  For a file that fits into the buffer with a byte to spare and has no NUL, and a cleared buffer,
  \<^verbatim>\<open>grep\<close> ends and prints, in order and each with its newline, the lines that match; what follows
  the last newline is not looked at.
\<close>

theorem grep_prints_matching_lines:
  assumes "length inp < GBUF" "0 \<notin> set inp"
  shows "grep pat (\<lambda>_. 0) inp = Some (concat (map (\<lambda>l. l @ [10]) (filter (match pat) (nl_lines inp))))"
proof (cases "inp = []")
  case True
  then show ?thesis by (simp add: grep_def grep_loop.simps nl_lines.simps)
next
  case False
  define buf :: "nat \<Rightarrow> byte" where "buf i = (if i < length inp then inp ! i else 0)" for i
  have "map buf [0..<length inp] = inp" by (rule nth_equalityI) (simp_all add: buf_def)
  from grep_lines_match [OF this _ assms(1) _ assms(2), of pat "[]"] obtain p1 buf1
    where l: "grep_lines pat 0 buf [] = Some (p1, buf1, grep_out pat inp)" "p1 \<le> length inp"
    by (auto simp: buf_def)
  have last: "0 \<le> m \<Longrightarrow> grep_loop pat m b [] o1 = Some o1" for m b o1
    by (subst grep_loop.simps) simp
  have "(\<lambda>i. if i < length inp then inp ! (i - 0) else 0) = buf" by (simp add: buf_def fun_eq_iff)
  then show ?thesis
    using False assms(1) l last
    by (simp add: grep_def grep_loop.simps [of _ _ _ inp] grep_out_def Let_def cong: if_cong)
qed

theorem grep_prints_matching_lines_witness:
  "grep [cCARET, 97] (\<lambda>_. 0) [97, 10, 98, 97, 10, 97] = Some [97, 10]"
proof -
  have l: "nl_lines [97, 10, 98, 97, 10, 97] = [[97], [98, 97]]" by (simp add: nl_lines.simps)
  have "filter (match [cCARET, 97]) [[97], [98, 97]] = [[97]]"
    by (simp add: match_def matchhere.simps cSTAR_def cDOT_def cDOLLAR_def)
  with l show ?thesis
    using grep_prints_matching_lines [of "[97, 10, 98, 97, 10, 97]" "[cCARET, 97]"] by (simp add: GBUF_def)
qed

end
