(* ===== verification/Ulib.thy ===== *)
theory Ulib
  imports XvString
begin

text \<open>
  The library of the user programs: the string and memory routines of \<^verbatim>\<open>user/ulib.c\<close> over
  byte memory and \<^verbatim>\<open>printf\<close> of \<^verbatim>\<open>user/printf.c\<close>, whose output is the list of the bytes
  it writes.  \<open>strlen\<close> is the same code as in the kernel.  A loop that does not end, a
  division by zero and an access outside a local array are \<open>None\<close>.
\<close>

section \<open>Strings and memory\<close>

partial_function (option) strcpy_loop :: "bmem \<Rightarrow> nat \<Rightarrow> nat \<Rightarrow> bmem option" where
  "strcpy_loop m s t =
     (let m1 = m(s := m t) in if m1 s = 0 then Some m1 else strcpy_loop m1 (s + 1) (t + 1))"

definition strcpy :: "bmem \<Rightarrow> nat \<Rightarrow> nat \<Rightarrow> (nat \<times> bmem) option" where
  "strcpy m s t = map_option (Pair s) (strcpy_loop m s t)"

partial_function (option) strcmp :: "bmem \<Rightarrow> nat \<Rightarrow> nat \<Rightarrow> int option" where
  "strcmp m p q =
     (if m p \<noteq> 0 \<and> m p = m q then strcmp m (p + 1) (q + 1) else Some (uint (m p) - uint (m q)))"

partial_function (option) strchr :: "bmem \<Rightarrow> nat \<Rightarrow> byte \<Rightarrow> nat option option" where
  "strchr m s c =
     (if m s = 0 then Some None else if m s = c then Some (Some s) else strchr m (s + 1) c)"

definition u_memset :: "bmem \<Rightarrow> nat \<Rightarrow> uint \<Rightarrow> nat \<Rightarrow> nat \<times> bmem" where
  "u_memset m dst c n = (dst, stosb m dst (ucast c) n)"

definition u_memmove :: "bmem \<Rightarrow> nat \<Rightarrow> nat \<Rightarrow> int \<Rightarrow> nat \<times> bmem" where
  "u_memmove m dst src n = (dst, copy_up m dst src (nat n))"

text \<open>\<^verbatim>\<open>atoi\<close> on the bytes of a C string.\<close>

fun atoi_loop :: "uint \<Rightarrow> byte list \<Rightarrow> uint" where
  "atoi_loop n [] = n"
| "atoi_loop n (c # s) = (if 48 \<le> c \<and> c \<le> 57 then atoi_loop (n * 10 + ucast c - 48) s else n)"

definition atoi :: "byte list \<Rightarrow> uint" where
  "atoi s = atoi_loop 0 s"

text \<open>
  \<^verbatim>\<open>gets\<close> with room for \<open>k\<close> more characters, on the bytes the standard input still delivers: the line
  with its end and what is left.
\<close>

fun gets_loop :: "nat \<Rightarrow> byte list \<Rightarrow> byte list \<times> byte list" where
  "gets_loop 0 inp = ([], inp)"
| "gets_loop (Suc k) [] = ([], [])"
| "gets_loop (Suc k) (c # inp) =
     (if c = 10 \<or> c = 13 then ([c], inp) else let (l, r) = gets_loop k inp in (c # l, r))"

definition gets :: "nat \<Rightarrow> byte list \<Rightarrow> byte list \<times> byte list" where
  "gets n inp = gets_loop (n - 1) inp"

section \<open>Formatted output\<close>

definition digits :: "byte list" where
  "digits = [48, 49, 50, 51, 52, 53, 54, 55, 56, 57, 65, 66, 67, 68, 69, 70]"

text \<open>The first \<^verbatim>\<open>do\<close> loop of \<^verbatim>\<open>printint\<close>: the bytes it stores in \<^verbatim>\<open>buf\<close> from the index \<open>i\<close> on.\<close>

function print_digits :: "uint \<Rightarrow> uint \<Rightarrow> nat \<Rightarrow> byte list option" where
  "print_digits x base i =
     (if 16 \<le> i \<or> base = 0 \<or> length digits \<le> unat (x mod base) then None
      else
        let d = digits ! unat (x mod base) in
        if x div base = 0 then Some [d] else map_option (Cons d) (print_digits (x div base) base (Suc i)))"
  by pat_completeness auto
termination
  by (relation "measure (\<lambda>(x, base, i). 16 - i)") auto

declare print_digits.simps [simp del]

definition printint :: "uint \<Rightarrow> uint \<Rightarrow> bool \<Rightarrow> byte list option" where
  "printint xx base sg =
     (let neg = sg \<and> sint xx < 0 in
      case print_digits (if neg then - xx else xx) base 0 of
        None \<Rightarrow> None
      | Some ds \<Rightarrow>
          if neg \<and> 16 \<le> length ds then None
          else Some (rev (ds @ (if neg then [45] else []))))"

partial_function (option) put_chars :: "bmem \<Rightarrow> uint \<Rightarrow> byte list option" where
  "put_chars m s =
     (if m (unat s) = 0 then Some []
      else Option.bind (put_chars m (s + 1)) (\<lambda>r. Some (m (unat s) # r)))"

text \<open>What \<^verbatim>\<open>%s\<close> prints for a null pointer.\<close>

definition null_str :: "byte list" where
  "null_str = [40, 110, 117, 108, 108, 41]"

text \<open>
  The conversion of the character \<open>c\<close> behind a percent sign: its output, and the argument behind the ones used.
  The arguments are the words on the stack behind the format.
\<close>

definition print_conv :: "bmem \<Rightarrow> (nat \<Rightarrow> uint) \<Rightarrow> nat \<Rightarrow> byte \<Rightarrow> (byte list \<times> nat) option" where
  "print_conv m args ap c =
     (if c = 100 then map_option (\<lambda>o1. (o1, ap + 1)) (printint (args ap) 10 True)
      else if c = 120 \<or> c = 112 then map_option (\<lambda>o1. (o1, ap + 1)) (printint (args ap) 16 False)
      else if c = 115
      then map_option (\<lambda>o1. (o1, ap + 1)) (if args ap = 0 then Some null_str else put_chars m (args ap))
      else if c = 99 then Some ([ucast (args ap)], ap + 1)
      else if c = 37 then Some ([c], ap)
      else Some ([37, c], ap))"

fun printf_loop :: "bmem \<Rightarrow> (nat \<Rightarrow> uint) \<Rightarrow> nat \<Rightarrow> bool \<Rightarrow> byte list \<Rightarrow> byte list option" where
  "printf_loop m args ap st [] = Some []"
| "printf_loop m args ap False (c # fmt) =
     (if c = 37 then printf_loop m args ap True fmt
      else map_option (Cons c) (printf_loop m args ap False fmt))"
| "printf_loop m args ap True (c # fmt) =
     (case print_conv m args ap c of
        None \<Rightarrow> None
      | Some (o1, ap1) \<Rightarrow> map_option (append o1) (printf_loop m args ap1 False fmt))"

definition printf :: "bmem \<Rightarrow> byte list \<Rightarrow> (nat \<Rightarrow> uint) \<Rightarrow> byte list option" where
  "printf m fmt args = printf_loop m args 0 False fmt"

section \<open>Numbers\<close>

lemma length_digits [simp]: "length digits = 16"
  by (simp add: digits_def)

text \<open>A number with at most \<open>k\<close> digits fits when \<open>k\<close> places are left.\<close>

lemma print_digits_fits:
  assumes "2 \<le> base" "base \<le> 16" "unat x < unat base ^ k" "i + k \<le> 16" "0 < k"
  shows "\<exists>ds. print_digits x base i = Some ds \<and> length ds \<le> k"
  using assms(3-)
proof (induction k arbitrary: x i)
  case (Suc k)
  have b: "2 \<le> unat base" "unat base \<le> 16"
    using assms(1,2) by (simp_all add: word_le_nat_alt)
  have "unat x mod unat base < unat base" using b by (intro mod_less_divisor) simp
  with b(2) have "unat (x mod base) < 16" unfolding unat_mod by (rule less_le_trans [rotated])
  moreover from b have "base \<noteq> 0" by auto
  ultimately have dig: "unat (x mod base) < 16" "base \<noteq> 0" by auto
  show ?case
  proof (cases "x div base = 0")
    case True
    with dig Suc.prems show ?thesis by (subst print_digits.simps) (simp add: Let_def not_le)
  next
    case False
    have "unat (x div base) < unat base ^ k"
      using Suc.prems(1) b by (simp add: unat_div div_less_iff_less_mult mult.commute)
    moreover from this False have "0 < k" by (cases k) (auto simp: unat_eq_0)
    ultimately obtain ds where "print_digits (x div base) base (Suc i) = Some ds" "length ds \<le> k"
      using Suc.IH [of "x div base" "Suc i"] Suc.prems by auto
    with False dig Suc.prems show ?thesis by (subst print_digits.simps) (simp add: Let_def not_le)
  qed
qed simp

text \<open>The value of digits, least significant first.\<close>

definition digit_of :: "byte \<Rightarrow> nat" where
  "digit_of d = (if d < 58 then unat d - 48 else unat d - 55)"

fun digits_value :: "nat \<Rightarrow> byte list \<Rightarrow> nat" where
  "digits_value base [] = 0"
| "digits_value base (d # ds) = digit_of d + base * digits_value base ds"

lemma digit_value:
  assumes "j < 16"
  shows "digit_of (digits ! j) = j"
proof -
  have "j \<in> set [0..<16]" using assms by simp
  then show ?thesis by (simp add: digits_def digit_of_def upt_rec) auto
qed

lemma print_digits_value:
  "print_digits x base i = Some ds \<Longrightarrow> digits_value (unat base) ds = unat x \<and> ds \<noteq> []"
proof (induction x base i arbitrary: ds rule: print_digits.induct)
  case (1 x base i)
  from "1.prems" have ok: "\<not> (16 \<le> i \<or> base = 0 \<or> length digits \<le> unat (x mod base))"
    by (subst (asm) print_digits.simps) (simp split: if_splits)
  then have j: "unat (x mod base) < 16" by simp
  show ?case
  proof (cases "x div base = 0")
    case True
    with "1.prems" ok have "ds = [digits ! unat (x mod base)]"
      by (subst (asm) print_digits.simps) (simp add: Let_def)
    moreover from True have "unat x div unat base = 0" by (simp flip: unat_div)
    then have "unat (x mod base) = unat x" using div_mult_mod_eq [of "unat x" "unat base"] by (simp add: unat_mod)
    ultimately show ?thesis using digit_value [OF j] by (simp only: digits_value.simps) simp
  next
    case False
    with "1.prems" ok obtain es where es: "print_digits (x div base) base (Suc i) = Some es"
      "ds = digits ! unat (x mod base) # es"
      by (subst (asm) print_digits.simps) (auto simp: Let_def)
    have "digits_value (unat base) es = unat (x div base)"
      using "1.IH" [OF ok refl False es(1)] by simp
    with es(2) digit_value [OF j] show ?thesis by (simp add: unat_mod unat_div)
  qed
qed

text \<open>
  \<^verbatim>\<open>printint\<close> ends for every number and every base from 5 to 16, signed or not, and never
  writes outside its array of 16 bytes; the digits it prints have the value of the number.
\<close>

theorem printint_terminates:
  assumes "5 \<le> base" "base \<le> 16"
  shows "\<exists>ds. printint xx base sg = Some ((if sg \<and> sint xx < 0 then [45] else []) @ rev ds) \<and>
    length ds < 16 \<and> digits_value (unat base) ds = unat (if sg \<and> sint xx < 0 then - xx else xx)"
proof -
  let ?x = "if sg \<and> sint xx < 0 then - xx else xx"
  have "5 \<le> unat base" using assms(1) by (simp add: word_le_nat_alt)
  then have "5 ^ 15 \<le> unat base ^ 15" by (rule power_mono) simp
  moreover have "unat ?x < 2 ^ 32" using unsigned_less [of ?x] by simp
  ultimately have "unat ?x < unat base ^ 15" by simp
  then obtain ds where "print_digits ?x base 0 = Some ds" "length ds \<le> 15"
    using print_digits_fits [of base ?x 15 0] assms order_trans [of 2 5 base] by auto
  with print_digits_value [OF this(1)] show ?thesis
    by (intro exI [of _ ds]) (simp add: printint_def Let_def)
qed

theorem printint_terminates_witness:
  "\<exists>ds. printint 0xFFFFFFFF 10 True = Some ([45] @ rev ds) \<and> length ds < 16 \<and> digits_value 10 ds = 1"
  using printint_terminates [of 10 "0xFFFFFFFF" True] by simp

lemma atoi_append:
  "(\<forall>c\<in>set s. 48 \<le> c \<and> c \<le> 57) \<Longrightarrow> atoi_loop n (s @ t) = atoi_loop (atoi_loop n s) t"
  by (induction s arbitrary: n) auto

lemma decimal_digit:
  assumes "j < 10"
  shows "48 \<le> digits ! j \<and> digits ! j \<le> 57 \<and> ucast (digits ! j) = (of_nat j + 48 :: uint)"
proof -
  have "j \<in> set [0..<10]" using assms by simp
  then show ?thesis by (simp add: digits_def upt_rec) auto
qed

lemma print_digits_atoi:
  "print_digits x 10 i = Some ds \<Longrightarrow> (\<forall>c\<in>set ds. 48 \<le> c \<and> c \<le> 57) \<and> atoi_loop 0 (rev ds) = x"
proof (induction x "10 :: uint" i arbitrary: ds rule: print_digits.induct)
  case (1 x i)
  let ?d = "digits ! unat (x mod 10)"
  from "1.prems" have ok: "\<not> (16 \<le> i \<or> (10 :: uint) = 0 \<or> length digits \<le> unat (x mod 10))"
    by (subst (asm) print_digits.simps) (simp split: if_splits)
  have d: "48 \<le> ?d" "?d \<le> 57" "ucast ?d = x mod 10 + 48"
  proof -
    have "unat (x mod 10) < 10" by (simp add: unat_mod)
    from decimal_digit [OF this] show "48 \<le> ?d" "?d \<le> 57" "ucast ?d = x mod 10 + 48" by simp_all
  qed
  have x: "x div 10 * 10 + x mod 10 = x" by (rule div_mult_mod_eq)
  show ?case
  proof (cases "x div 10 = 0")
    case True
    with "1.prems" ok have "ds = [?d]" by (subst (asm) print_digits.simps) (simp add: Let_def)
    with True d x show ?thesis by simp
  next
    case False
    with "1.prems" ok obtain es where es: "print_digits (x div 10) 10 (Suc i) = Some es" "ds = ?d # es"
      by (subst (asm) print_digits.simps) (auto simp: Let_def)
    with "1.hyps" [OF ok refl False es(1)] d x show ?thesis
      by (simp add: atoi_append add.assoc [symmetric])
  qed
qed

text \<open>
  What \<^verbatim>\<open>printf\<close> prints for \<^verbatim>\<open>%d\<close> and a number that is not negative, \<^verbatim>\<open>atoi\<close> reads
  back.
\<close>

theorem atoi_reads_printed:
  assumes "0 \<le> sint x"
  shows "\<exists>s. printf m [37, 100] (\<lambda>_. x) = Some s \<and> atoi s = x"
proof -
  obtain ds where p: "print_digits x 10 0 = Some ds"
    using print_digits_fits [of 10 x 16 0] unsigned_less [of x, where ?'a = nat] by auto
  with assms have "printint x 10 True = Some (rev ds)" by (simp add: printint_def Let_def)
  with print_digits_atoi [OF p] show ?thesis by (simp add: printf_def print_conv_def atoi_def)
qed

theorem atoi_reads_printed_witness:
  "\<exists>s. printf (\<lambda>_. 0) [37, 100] (\<lambda>_. 537) = Some s \<and> atoi s = 537"
  by (rule atoi_reads_printed) simp

end
