(* ===== verification/Shell.thy ===== *)
theory Shell
  imports Ulib Fcntl
begin

unbundle bit_operations_syntax

text \<open>
  The shell (\<^verbatim>\<open>user/sh.c\<close>): its recursive-descent parser over the characters of a command line, and
  \<^verbatim>\<open>runcmd\<close> and the main loop as trees of system calls.

  A command line is the list \<open>b\<close> of its bytes before the NUL; a pointer into it is an index, and the end
  \<^verbatim>\<open>es\<close> is its length.  A parsed command refers to its words by the pairs of pointers that \<^verbatim>\<open>argv\<close> and
  \<^verbatim>\<open>eargv\<close> hold; the same datatype with strings for the words is what a command means.
  A call of \<^verbatim>\<open>panic\<close>, which ends the process, is a value; \<open>Deep\<close> is a recursion deeper than the bound \<open>n\<close>
  given to the two recursive routines, which \<open>parsecmd\<close> sets so that it cannot happen.
\<close>

section \<open>Commands\<close>

datatype 'w cmd =
    EXEC "'w list"
  | REDIR "'w cmd" (redir_file: 'w) (redir_mode: uint) (redir_fd: int)
  | PIPE "'w cmd" "'w cmd"
  | LIST "'w cmd" "'w cmd"
  | BACK "'w cmd"

definition MAXARGS :: nat where "MAXARGS = 10"

datatype sherr = Exits string | Deep

type_synonym word_at = "nat \<times> nat"

section \<open>Tokens\<close>

definition whitespace :: "byte list" where "whitespace = [32, 9, 13, 10, 11]"
definition symbols :: "byte list" where "symbols = [60, 124, 62, 38, 59, 40, 41]"

definition char_at :: "byte list \<Rightarrow> nat \<Rightarrow> byte" where
  "char_at b s = (if s < length b then b ! s else 0)"

function skip_white :: "byte list \<Rightarrow> nat \<Rightarrow> nat" where
  "skip_white b s = (if s < length b \<and> char_at b s \<in> set whitespace then skip_white b (Suc s) else s)"
  by pat_completeness auto
termination by (relation "measure (\<lambda>(b, s). length b - s)") auto

function skip_word :: "byte list \<Rightarrow> nat \<Rightarrow> nat" where
  "skip_word b s =
     (if s < length b \<and> char_at b s \<notin> set whitespace \<and> char_at b s \<notin> set symbols then skip_word b (Suc s) else s)"
  by pat_completeness auto
termination by (relation "measure (\<lambda>(b, s). length b - s)") auto

declare skip_white.simps [simp del] skip_word.simps [simp del]

text \<open>\<^verbatim>\<open>gettoken\<close> returns the kind of the token, its start and end, and the new position.\<close>

definition gettoken :: "byte list \<Rightarrow> nat \<Rightarrow> byte \<times> nat \<times> nat \<times> nat" where
  "gettoken b ps =
     (let s = skip_white b ps; c = char_at b s;
          (ret, e) =
            (if c = 0 then (c, s)
             else if c \<in> {124, 40, 41, 59, 38, 60} then (c, s + 1)
             else if c = 62 then (if char_at b (s + 1) = 62 then (43, s + 2) else (c, s + 1))
             else (97, skip_word b s))
      in (ret, s, e, skip_white b e))"

definition peek :: "byte list \<Rightarrow> nat \<Rightarrow> byte list \<Rightarrow> nat \<times> bool" where
  "peek b ps toks = (let s = skip_white b ps in (s, char_at b s \<noteq> 0 \<and> char_at b s \<in> set toks))"

lemma skip_white_le: "s \<le> skip_white b s"
  by (induction b s rule: skip_white.induct) (subst skip_white.simps, auto dest: Suc_leD)

lemma skip_word_le: "s \<le> skip_word b s"
  by (induction b s rule: skip_word.induct) (subst skip_word.simps, auto dest: Suc_leD)

lemma skip_white_bound: "s \<le> length b \<Longrightarrow> skip_white b s \<le> length b"
  by (induction b s rule: skip_white.induct) (subst skip_white.simps, simp)

lemma skip_word_bound: "s \<le> length b \<Longrightarrow> skip_word b s \<le> length b"
  by (induction b s rule: skip_word.induct) (subst skip_word.simps, simp)

lemma at_in: "char_at b s \<noteq> 0 \<Longrightarrow> s < length b"
  by (simp add: char_at_def split: if_splits)

lemma at_cases: "x \<in> set whitespace \<or> x \<in> set symbols \<or> x \<notin> set whitespace \<union> set symbols"
  by blast

lemma gettoken_ps:
  assumes "gettoken b s = (t, q, e, s')"
  shows "q = skip_white b s \<and> s \<le> q \<and> q \<le> e \<and> e \<le> s' \<and> (s \<le> length b \<longrightarrow> s' \<le> length b)"
proof -
  let ?s = "skip_white b s"
  have b: "s \<le> length b \<Longrightarrow> ?s \<le> length b" by (rule skip_white_bound)
  have "q = ?s \<and> ?s \<le> e \<and> (s \<le> length b \<longrightarrow> e \<le> length b) \<and> s' = skip_white b e"
    using assms b skip_word_le [of ?s b] skip_word_bound [of ?s b] at_in [of b ?s] at_in [of b "?s + 1"]
    by (auto simp: gettoken_def Let_def split: if_splits)
  then show ?thesis
    using skip_white_le [of s b] skip_white_le [of e b] skip_white_bound [of e b] by auto
qed

lemma skip_white_idem: "skip_white b (skip_white b s) = skip_white b s"
  by (induction b s rule: skip_white.induct) (metis skip_white.simps)

lemma skip_white_stops: "char_at b (skip_white b s) \<notin> set whitespace"
proof (induction b s rule: skip_white.induct)
  case (1 b s)
  then show ?case by (subst skip_white.simps) (auto simp: char_at_def whitespace_def)
qed

lemma peek_at: "peek b s toks = (s1, True) \<Longrightarrow> s1 < length b \<and> s < length b"
  using at_in [of b "skip_white b s"] skip_white_le [of s b] by (auto simp: peek_def Let_def)

lemma peek_ps: "peek b s toks = (s1, p) \<Longrightarrow> s1 = skip_white b s \<and> s \<le> s1 \<and> (s \<le> length b \<longrightarrow> s1 \<le> length b)"
  using skip_white_bound [of s b] skip_white_le [of s b] by (auto simp: peek_def Let_def)

lemma gettoken_moves:
  assumes "peek b s toks = (s1, True)" "gettoken b s1 = (t, q, e, s2)" "set toks \<subseteq> set symbols"
  shows "s < s2"
proof -
  have p: "s1 = skip_white b s" "char_at b s1 \<noteq> 0" "char_at b s1 \<in> set symbols"
    using assms(1,3) by (auto simp: peek_def Let_def)
  then have "skip_white b s1 = s1" by (simp add: skip_white_idem)
  with assms(2) p(2,3) have "s1 < e"
    by (auto simp: gettoken_def Let_def symbols_def split: if_splits)
  with gettoken_ps [OF assms(2)] p(1) skip_white_le [of s b] show ?thesis by simp
qed

section \<open>The parser\<close>

definition missing_file :: string where "missing_file = ''missing file for redirection''"

text \<open>\<^verbatim>\<open>parseredirs\<close> wraps the redirections it finds around the command.\<close>

function parseredirs :: "byte list \<Rightarrow> word_at cmd \<Rightarrow> nat \<Rightarrow> sherr + word_at cmd \<times> nat" where
  "parseredirs b c s =
     (case peek b s [60, 62] of (s1, found) \<Rightarrow>
      if found then
        (case gettoken b s1 of (tok, _, _, s2) \<Rightarrow>
         case gettoken b s2 of (t, q, eq, s3) \<Rightarrow>
           if t \<noteq> 97 then Inl (Exits missing_file)
           else parseredirs b
             (if tok = 60 then REDIR c (q, eq) O_RDONLY 0
              else if tok = 62 then REDIR c (q, eq) (O_WRONLY OR O_CREATE) 1
              else if tok = 43 then REDIR c (q, eq) (O_WRONLY OR O_CREATE) 1
              else c) s3)
      else Inr (c, s1))"
  by pat_completeness auto
termination
proof (relation "measure (\<lambda>(b, c, s). length b - s)", goal_cases)
  case (2 b c s s1 found tok r1 q1 r2 e1 s2 t r3 q r4 e s3)
  then have p: "peek b s [60, 62] = (s1, True)" "gettoken b s1 = (tok, q1, e1, s2)" "gettoken b s2 = (t, q, e, s3)"
    by auto
  then have "s < s2" "s2 \<le> s3" "s < length b"
    using gettoken_moves [OF p(1,2)] gettoken_ps [OF p(3)] peek_at [OF p(1)] by (auto simp: symbols_def)
  then show ?case by simp
qed simp

declare parseredirs.simps [simp del]

text \<open>The node of the arguments is the one inside the redirections.\<close>

primrec add_word :: "'w \<Rightarrow> 'w cmd \<Rightarrow> 'w cmd" where
  "add_word w (EXEC ws) = EXEC (ws @ [w])"
| "add_word w (REDIR c f md fd) = REDIR (add_word w c) f md fd"
| "add_word w (PIPE l r) = PIPE l r"
| "add_word w (LIST l r) = LIST l r"
| "add_word w (BACK c) = BACK c"

text \<open>The loop over the arguments of \<^verbatim>\<open>parseexec\<close>.\<close>

function exec_args :: "byte list \<Rightarrow> word_at cmd \<Rightarrow> nat \<Rightarrow> nat \<Rightarrow> sherr + word_at cmd \<times> nat" where
  "exec_args b ret argc s =
     (case peek b s [124, 41, 38, 59] of (s1, stop) \<Rightarrow>
      if stop then Inr (ret, s1)
      else
        case gettoken b s1 of (tok, q, eq, s2) \<Rightarrow>
          if tok = 0 then Inr (ret, s2)
          else if tok \<noteq> 97 then Inl (Exits ''syntax'')
          else if MAXARGS \<le> argc + 1 then Inl (Exits ''too many args'')
          else
            bindR (parseredirs b (add_word (q, eq) ret) s2) (\<lambda>(ret1, s3).
            exec_args b ret1 (argc + 1) s3))"
  by pat_completeness auto
termination by (relation "measure (\<lambda>(b, ret, argc, s). MAXARGS - argc)") auto

declare exec_args.simps [simp del]

text \<open>
  The routines that call each other take the one further out as an argument; \<open>n\<close> bounds the depth of the
  recursion.
\<close>

type_synonym parser = "nat \<Rightarrow> sherr + word_at cmd \<times> nat"

definition parseblock :: "parser \<Rightarrow> byte list \<Rightarrow> parser" where
  "parseblock line b s =
     (case peek b s [40] of (s1, opened) \<Rightarrow>
      if \<not> opened then Inl (Exits ''parseblock'')
      else
        case gettoken b s1 of (_, _, _, s2) \<Rightarrow>
        bindR (line s2) (\<lambda>(c, s3).
        case peek b s3 [41] of (s4, closed) \<Rightarrow>
        if \<not> closed then Inl (Exits ''syntax - missing )'')
        else case gettoken b s4 of (_, _, _, s5) \<Rightarrow> parseredirs b c s5))"

definition parseexec :: "parser \<Rightarrow> byte list \<Rightarrow> parser" where
  "parseexec line b s =
     (case peek b s [40] of (s1, opened) \<Rightarrow>
      if opened then parseblock line b s1
      else bindR (parseredirs b (EXEC []) s1) (\<lambda>(ret, s2). exec_args b ret 0 s2))"

fun parsepipe :: "parser \<Rightarrow> nat \<Rightarrow> byte list \<Rightarrow> parser" where
  "parsepipe line 0 b s = Inl Deep"
| "parsepipe line (Suc n) b s =
     bindR (parseexec line b s) (\<lambda>(c, s1).
     case peek b s1 [124] of (s2, piped) \<Rightarrow>
     if piped then
       case gettoken b s2 of (_, _, _, s3) \<Rightarrow>
       bindR (parsepipe line n b s3) (\<lambda>(r, s4). Inr (PIPE c r, s4))
     else Inr (c, s2))"

text \<open>The loop over ampersands of \<^verbatim>\<open>parseline\<close>.\<close>

function back_loop :: "byte list \<Rightarrow> word_at cmd \<Rightarrow> nat \<Rightarrow> word_at cmd \<times> nat" where
  "back_loop b c s =
     (case peek b s [38] of (s1, amp) \<Rightarrow>
      if amp then (case gettoken b s1 of (_, _, _, s2) \<Rightarrow> back_loop b (BACK c) s2) else (c, s1))"
  by pat_completeness auto
termination
proof (relation "measure (\<lambda>(b, c, s). length b - s)", goal_cases)
  case (2 b c s s1 amp t r1 q r2 e s2)
  then have p: "peek b s [38] = (s1, True)" "gettoken b s1 = (t, q, e, s2)" by auto
  then have "s < s2" "s < length b"
    using gettoken_moves [OF p] peek_at [OF p(1)] by (auto simp: symbols_def)
  then show ?case by simp
qed simp

declare back_loop.simps [simp del]

fun parseline :: "nat \<Rightarrow> byte list \<Rightarrow> parser" where
  "parseline 0 b s = Inl Deep"
| "parseline (Suc n) b s =
     bindR (parsepipe (parseline n b) (Suc n) b s) (\<lambda>(c, s1).
     case back_loop b c s1 of (c1, s2) \<Rightarrow>
     case peek b s2 [59] of (s3, semi) \<Rightarrow>
     if semi then
       case gettoken b s3 of (_, _, _, s4) \<Rightarrow>
       bindR (parseline n b s4) (\<lambda>(d, s5). Inr (LIST c1 d, s5))
     else Inr (c1, s3))"

text \<open>\<^verbatim>\<open>nulterminate\<close> on the buffer of the line, which has its NUL at the end.\<close>

primrec nulterminate :: "word_at cmd \<Rightarrow> byte list \<Rightarrow> byte list" where
  "nulterminate (EXEC ws) m = fold (\<lambda>(q, eq) m. m[eq := 0]) ws m"
| "nulterminate (REDIR c f md fd) m = (nulterminate c m)[snd f := 0]"
| "nulterminate (PIPE l r) m = nulterminate r (nulterminate l m)"
| "nulterminate (LIST l r) m = nulterminate r (nulterminate l m)"
| "nulterminate (BACK c) m = nulterminate c m"

definition parsecmd :: "byte list \<Rightarrow> sherr + word_at cmd \<times> byte list" where
  "parsecmd b =
     bindR (parseline (Suc (length b)) b 0) (\<lambda>(c, s).
     if fst (peek b s []) \<noteq> length b then Inl (Exits ''syntax'') else Inr (c, nulterminate c (b @ [0])))"

text \<open>The string a pointer into the buffer stands for, and a command with the strings of its words.\<close>

definition cstr :: "byte list \<Rightarrow> nat \<Rightarrow> byte list" where
  "cstr m p = takeWhile (\<lambda>x. x \<noteq> 0) (drop p m)"

definition command :: "byte list \<Rightarrow> word_at cmd \<Rightarrow> byte list cmd" where
  "command m c = map_cmd (\<lambda>(q, eq). cstr m q) c"

section \<open>Every line is parsed\<close>

text \<open>
  A word of a command is a stretch of the line without blanks, symbols and NULs, which goes up to the next one of
  them or to the end of the line.
\<close>

definition word_char :: "byte \<Rightarrow> bool" where
  "word_char x \<longleftrightarrow> x \<noteq> 0 \<and> x \<notin> set whitespace \<and> x \<notin> set symbols"

definition cuts :: "byte list \<Rightarrow> word_at \<Rightarrow> bool" where
  "cuts b w \<longleftrightarrow> fst w \<le> snd w \<and> snd w \<le> length b \<and> (\<forall>i. fst w \<le> i \<and> i < snd w \<longrightarrow> word_char (b ! i)) \<and>
     \<not> word_char (char_at b (snd w))"

definition reaches :: "byte list \<Rightarrow> nat \<Rightarrow> sherr + word_at cmd \<times> nat \<Rightarrow> bool" where
  "reaches b s r \<longleftrightarrow>
     (\<forall>c s'. r = Inr (c, s') \<longrightarrow> s \<le> s' \<and> s' \<le> length b \<and> (\<forall>w\<in>set_cmd c. cuts b w))"

definition sound_at :: "byte list \<Rightarrow> parser \<Rightarrow> bool" where
  "sound_at b p \<longleftrightarrow> (\<forall>s\<le>length b. reaches b s (p s))"

definition shallow :: "byte list \<Rightarrow> nat \<Rightarrow> parser \<Rightarrow> bool" where
  "shallow b k p \<longleftrightarrow> (\<forall>s\<le>length b. length b - s < k \<longrightarrow> p s \<noteq> Inl Deep)"

lemma reaches_simps [simp]:
  "reaches b s (Inl e)"
  "reaches b s (Inr (c, s')) \<longleftrightarrow> s \<le> s' \<and> s' \<le> length b \<and> (\<forall>w\<in>set_cmd c. cuts b w)"
  by (auto simp: reaches_def)

lemma reaches_bind:
  assumes "reaches b s m" "\<And>c s1. s \<le> s1 \<Longrightarrow> s1 \<le> length b \<Longrightarrow> \<forall>w\<in>set_cmd c. cuts b w \<Longrightarrow> reaches b s1 (f (c, s1))"
  shows "reaches b s (bindR m f)"
proof (cases m)
  case (Inr x)
  with assms(1) have "s \<le> snd x" "snd x \<le> length b" "\<forall>w\<in>set_cmd (fst x). cuts b w"
    by (cases x, simp)+
  with assms(2) [of "snd x" "fst x"] Inr show ?thesis by (auto simp: reaches_def)
qed simp

lemma skip_word_chars:
  "0 \<notin> set b \<Longrightarrow> s \<le> length b \<Longrightarrow> (\<forall>i. s \<le> i \<and> i < skip_word b s \<longrightarrow> word_char (b ! i)) \<and> \<not> word_char (char_at b (skip_word b s))"
proof (induction b s rule: skip_word.induct)
  case (1 b s)
  show ?case
  proof (cases "s < length b \<and> char_at b s \<notin> set whitespace \<and> char_at b s \<notin> set symbols")
    case True
    then have "b ! s \<noteq> 0" using "1.prems"(1) by (metis nth_mem)
    with True have "word_char (b ! s)" by (auto simp: word_char_def char_at_def)
    moreover have "skip_word b s = skip_word b (Suc s)" using True by (subst skip_word.simps) simp
    ultimately show ?thesis using "1.IH" [OF True "1.prems"(1)] True by (metis Suc_leI le_antisym not_less_eq_eq)
  next
    case False
    then have "skip_word b s = s" by (subst skip_word.simps) auto
    with False show ?thesis by (auto simp: word_char_def char_at_def)
  qed
qed

lemma gettoken_cut:
  assumes "gettoken b s = (97, q, e, s')" "0 \<notin> set b" "s \<le> length b"
  shows "cuts b (q, e)"
proof -
  have q: "q \<le> length b" "q \<le> e" "e \<le> length b" using gettoken_ps [OF assms(1)] assms(3) by auto
  have "e = skip_word b q" using assms(1) by (auto simp: gettoken_def Let_def split: if_splits)
  with q skip_word_chars [OF assms(2) q(1)] show ?thesis by (simp add: cuts_def)
qed

lemma parseredirs_sound:
  "0 \<notin> set b \<Longrightarrow> s \<le> length b \<Longrightarrow> \<forall>w\<in>set_cmd c. cuts b w \<Longrightarrow> reaches b s (parseredirs b c s) \<and> parseredirs b c s \<noteq> Inl Deep"
proof (induction b c s rule: parseredirs.induct)
  case (1 b c s)
  obtain s1 f where p: "peek b s [60, 62] = (s1, f)" by fastforce
  obtain tok q1 e1 s2 where g1: "gettoken b s1 = (tok, q1, e1, s2)" by (metis prod_cases4)
  obtain t q e s3 where g2: "gettoken b s2 = (t, q, e, s3)" by (metis prod_cases4)
  have le: "s \<le> s1" "s1 \<le> s2" "s2 \<le> s3" "s2 \<le> length b" "s3 \<le> length b" "s1 \<le> length b"
    using peek_ps [OF p] gettoken_ps [OF g1] gettoken_ps [OF g2] "1.prems"(2) by auto
  show ?case
  proof (cases "f \<and> t = 97")
    case False
    with p g1 g2 le "1.prems" show ?thesis by (subst (1 2) parseredirs.simps) auto
  next
    case True
    define c1 where "c1 = (if tok = 60 then REDIR c (q, e) O_RDONLY 0
              else if tok = 62 then REDIR c (q, e) (O_WRONLY OR O_CREATE) 1
              else if tok = 43 then REDIR c (q, e) (O_WRONLY OR O_CREATE) 1 else c)"
    have "\<forall>w\<in>set_cmd c1. cuts b w"
      using "1.prems"(3) gettoken_cut [of b s2 q e s3] g2 True "1.prems"(1) le by (auto simp: c1_def)
    moreover have eq: "parseredirs b c s = parseredirs b c1 s3"
      using p g1 g2 True by (subst parseredirs.simps) (simp add: c1_def)
    ultimately have "reaches b s3 (parseredirs b c1 s3) \<and> parseredirs b c1 s3 \<noteq> Inl Deep"
      using "1.IH" [OF p [symmetric] _ g1 [symmetric] refl refl g2 [symmetric] refl refl] True "1.prems"(1) le
      unfolding c1_def by auto
    with eq le show ?thesis by (auto simp: reaches_def)
  qed
qed

lemma set_add_word: "set_cmd (add_word w c) \<subseteq> insert w (set_cmd c)"
  by (induction c) auto

lemma exec_args_sound:
  "0 \<notin> set b \<Longrightarrow> s \<le> length b \<Longrightarrow> \<forall>w\<in>set_cmd c. cuts b w \<Longrightarrow>
   reaches b s (exec_args b c argc s) \<and> exec_args b c argc s \<noteq> Inl Deep"
proof (induction b c argc s rule: exec_args.induct)
  case (1 b c argc s)
  obtain s1 f where p: "peek b s [124, 41, 38, 59] = (s1, f)" by fastforce
  obtain t q e s2 where g: "gettoken b s1 = (t, q, e, s2)" by (metis prod_cases4)
  have le: "s \<le> s1" "s1 \<le> s2" "s2 \<le> length b" "s1 \<le> length b"
    using peek_ps [OF p] gettoken_ps [OF g] "1.prems"(2) by auto
  show ?case
  proof (cases "\<not> f \<and> t = 97 \<and> argc + 1 < MAXARGS")
    case False
    with p g le "1.prems" show ?thesis by (subst (1 2) exec_args.simps) auto
  next
    case True
    have w: "\<forall>w\<in>set_cmd (add_word (q, e) c). cuts b w"
      using "1.prems"(3) gettoken_cut [of b s1 q e s2] g True "1.prems"(1) le set_add_word [of "(q, e)" c] by auto
    note rs = parseredirs_sound [OF "1.prems"(1) le(3) w]
    have eq: "exec_args b c argc s = bindR (parseredirs b (add_word (q, e) c) s2) (\<lambda>(ret1, s3). exec_args b ret1 (argc + 1) s3)"
      using p g True by (subst exec_args.simps) simp
    show ?thesis
    proof (cases "parseredirs b (add_word (q, e) c) s2")
      case (Inl err)
      with eq rs show ?thesis by simp
    next
      case (Inr x)
      obtain c1 s3 where x: "x = (c1, s3)" by (cases x)
      with Inr rs le have r: "s2 \<le> s3" "s3 \<le> length b" "\<forall>w\<in>set_cmd c1. cuts b w" by auto
      have "reaches b s3 (exec_args b c1 (argc + 1) s3) \<and> exec_args b c1 (argc + 1) s3 \<noteq> Inl Deep"
        by (rule "1.IH" [OF p [symmetric] _ g [symmetric] refl refl _ _ _ Inr x [symmetric]])
          (use True "1.prems"(1) r in auto)
      with eq Inr x r(1) le show ?thesis by (auto simp: reaches_def)
    qed
  qed
qed

lemma reaches_mono: "reaches b s1 r \<Longrightarrow> s \<le> s1 \<Longrightarrow> reaches b s r"
  by (auto simp: reaches_def)

lemma parseblock_sound:
  assumes "0 \<notin> set b" "sound_at b line"
  shows "sound_at b (parseblock line b)"
  unfolding sound_at_def
proof (intro allI impI)
  fix s assume s: "s \<le> length b"
  obtain s1 f where p: "peek b s [40] = (s1, f)" by fastforce
  obtain t q e s2 where g: "gettoken b s1 = (t, q, e, s2)" by (metis prod_cases4)
  have le: "s \<le> s2" "s2 \<le> length b"
    using peek_ps [OF p] gettoken_ps [OF g] s by auto
  have "reaches b s2 (bindR (line s2) (\<lambda>(c, s3).
        case peek b s3 [41] of (s4, closed) \<Rightarrow>
        if \<not> closed then Inl (Exits ''syntax - missing )'')
        else case gettoken b s4 of (_, _, _, s5) \<Rightarrow> parseredirs b c s5))"
  proof (rule reaches_bind)
    show "reaches b s2 (line s2)" using assms(2) le by (simp add: sound_at_def)
    fix c s3 assume c: "s2 \<le> s3" "s3 \<le> length b" "\<forall>w\<in>set_cmd c. cuts b w"
    obtain s4 f4 where p4: "peek b s3 [41] = (s4, f4)" by fastforce
    obtain t q e s5 where g5: "gettoken b s4 = (t, q, e, s5)" by (metis prod_cases4)
    have "s3 \<le> s5" "s5 \<le> length b" using peek_ps [OF p4] gettoken_ps [OF g5] c by auto
    with parseredirs_sound [OF assms(1) this(2) c(3)] p4 g5
    show "reaches b s3 (case (c, s3) of (c, s3) \<Rightarrow> case peek b s3 [41] of (s4, closed) \<Rightarrow>
        if \<not> closed then Inl (Exits ''syntax - missing )'')
        else case gettoken b s4 of (_, _, _, s5) \<Rightarrow> parseredirs b c s5)"
      by (auto intro: reaches_mono)
  qed
  with p g le show "reaches b s (parseblock line b s)" by (auto simp: parseblock_def intro: reaches_mono)
qed

lemma parseexec_sound:
  assumes "0 \<notin> set b" "sound_at b line"
  shows "sound_at b (parseexec line b)"
  unfolding sound_at_def
proof (intro allI impI)
  fix s assume s: "s \<le> length b"
  obtain s1 f where p: "peek b s [40] = (s1, f)" by fastforce
  have le: "s \<le> s1" "s1 \<le> length b" using peek_ps [OF p] s by auto
  have "reaches b s1 (bindR (parseredirs b (EXEC []) s1) (\<lambda>(ret, s2). exec_args b ret 0 s2))"
    by (rule reaches_bind) (use parseredirs_sound exec_args_sound assms(1) le in auto)
  with p le parseblock_sound [OF assms] show "reaches b s (parseexec line b s)"
    by (auto simp: parseexec_def sound_at_def intro: reaches_mono)
qed

lemma parsepipe_sound:
  assumes "0 \<notin> set b" "sound_at b line"
  shows "sound_at b (parsepipe line n b)"
proof (induction n)
  case (Suc n)
  show ?case unfolding sound_at_def parsepipe.simps
  proof (intro allI impI reaches_bind)
    fix s assume s: "s \<le> length b"
    show "reaches b s (parseexec line b s)" using parseexec_sound [OF assms] s by (simp add: sound_at_def)
    fix c s1 assume c: "s \<le> s1" "s1 \<le> length b" "\<forall>w\<in>set_cmd c. cuts b w"
    obtain s2 f where p: "peek b s1 [124] = (s2, f)" by fastforce
    obtain t q e s3 where g: "gettoken b s2 = (t, q, e, s3)" by (metis prod_cases4)
    have le: "s1 \<le> s2" "s2 \<le> s3" "s3 \<le> length b" "s2 \<le> length b" using peek_ps [OF p] gettoken_ps [OF g] c by auto
    have "reaches b s3 (bindR (parsepipe line n b s3) (\<lambda>(r, s4). Inr (PIPE c r, s4)))"
      by (rule reaches_bind) (use Suc le c in \<open>auto simp: sound_at_def\<close>)
    with p g le c show "reaches b s1 (case (c, s1) of (c, s1) \<Rightarrow> case peek b s1 [124] of (s2, piped) \<Rightarrow>
     if piped then case gettoken b s2 of (_, _, _, s3) \<Rightarrow>
       bindR (parsepipe line n b s3) (\<lambda>(r, s4). Inr (PIPE c r, s4))
     else Inr (c, s2))" by (auto intro: reaches_mono)
  qed
qed (simp add: sound_at_def)

lemma back_loop_sound:
  "s \<le> length b \<Longrightarrow> \<forall>w\<in>set_cmd c. cuts b w \<Longrightarrow> reaches b s (Inr (back_loop b c s))"
proof (induction b c s rule: back_loop.induct)
  case (1 b c s)
  obtain s1 f where p: "peek b s [38] = (s1, f)" by fastforce
  obtain t q e s2 where g: "gettoken b s1 = (t, q, e, s2)" by (metis prod_cases4)
  have le: "s \<le> s1" "s1 \<le> s2" "s2 \<le> length b" "s1 \<le> length b"
    using peek_ps [OF p] gettoken_ps [OF g] "1.prems"(1) by auto
  show ?case
  proof (cases f)
    case True
    then have "back_loop b c s = back_loop b (BACK c) s2" using p g by (subst back_loop.simps) simp
    moreover have "reaches b s2 (Inr (back_loop b (BACK c) s2))"
      by (rule "1.IH" [OF p [symmetric] True g [symmetric] refl refl]) (use le "1.prems" in auto)
    ultimately show ?thesis using le by (auto intro: reaches_mono)
  next
    case False
    with p g le "1.prems" show ?thesis by (subst back_loop.simps) simp
  qed
qed

lemma parseline_sound:
  assumes "0 \<notin> set b"
  shows "sound_at b (parseline n b)"
proof (induction n)
  case (Suc n)
  show ?case unfolding sound_at_def parseline.simps
  proof (intro allI impI reaches_bind)
    fix s assume s: "s \<le> length b"
    show "reaches b s (parsepipe (parseline n b) (Suc n) b s)"
      using parsepipe_sound [OF assms Suc] s by (simp add: sound_at_def del: parsepipe.simps)
    fix c s1 assume c: "s \<le> s1" "s1 \<le> length b" "\<forall>w\<in>set_cmd c. cuts b w"
    obtain c1 s2 where l: "back_loop b c s1 = (c1, s2)" by fastforce
    obtain s3 f where p: "peek b s2 [59] = (s3, f)" by fastforce
    obtain t q e s4 where g: "gettoken b s3 = (t, q, e, s4)" by (metis prod_cases4)
    have c1: "s1 \<le> s2" "s2 \<le> length b" "\<forall>w\<in>set_cmd c1. cuts b w"
      using back_loop_sound [OF c(2,3)] l by auto
    have le: "s2 \<le> s3" "s3 \<le> s4" "s4 \<le> length b" "s3 \<le> length b" using peek_ps [OF p] gettoken_ps [OF g] c1 by auto
    have "reaches b s4 (bindR (parseline n b s4) (\<lambda>(d, s5). Inr (LIST c1 d, s5)))"
      by (rule reaches_bind) (use Suc le c1 in \<open>auto simp: sound_at_def\<close>)
    with l p g le c1 show "reaches b s1 (case (c, s1) of (c, s1) \<Rightarrow> case back_loop b c s1 of (c1, s2) \<Rightarrow>
     case peek b s2 [59] of (s3, semi) \<Rightarrow>
     if semi then case gettoken b s3 of (_, _, _, s4) \<Rightarrow>
       bindR (parseline n b s4) (\<lambda>(d, s5). Inr (LIST c1 d, s5))
     else Inr (c1, s3))" by (auto intro: reaches_mono)
  qed
qed (simp add: sound_at_def)

lemma parseexec_shallow:
  assumes "0 \<notin> set b" "sound_at b line" "shallow b k line"
  shows "shallow b (Suc k) (parseexec line b)"
  unfolding shallow_def
proof (intro allI impI)
  fix s assume s: "s \<le> length b" "length b - s < Suc k"
  obtain s1 f where p: "peek b s [40] = (s1, f)" by fastforce
  have s1: "s1 = skip_white b s" "s1 \<le> length b" using peek_ps [OF p] s(1) by auto
  show "parseexec line b s \<noteq> Inl Deep"
  proof (cases f)
    case False
    have r: "reaches b s1 (parseredirs b (EXEC []) s1) \<and> parseredirs b (EXEC []) s1 \<noteq> Inl Deep"
      by (rule parseredirs_sound) (use assms(1) s1 in auto)
    with False p show ?thesis
      using exec_args_sound [OF assms(1)] by (auto simp: parseexec_def res_simps)
  next
    case True
    have pT: "peek b s [40] = (s1, True)" using p True by simp
    have p1: "peek b s1 [40] = (s1, True)" using p True s1 skip_white_idem [of b s] by (auto simp: peek_def Let_def)
    obtain t q e s2 where g: "gettoken b s1 = (t, q, e, s2)" by (metis prod_cases4)
    have s2: "s < s2" "s2 \<le> length b"
      using gettoken_moves [OF pT g] gettoken_ps [OF g] s1 by (auto simp: symbols_def)
    with assms(3) s have "line s2 \<noteq> Inl Deep" by (auto simp: shallow_def)
    moreover have "reaches b s2 (line s2)" using assms(2) s2 by (simp add: sound_at_def)
    moreover have "parseredirs b c s5 \<noteq> Inl Deep"
      if "s3 \<le> length b" "\<forall>w\<in>set_cmd c. cuts b w" "peek b s3 [41] = (s4, f4)" "gettoken b s4 = (t', q', e', s5)"
      for c s3 s4 f4 t' q' e' s5
      using parseredirs_sound [OF assms(1) _ that(2), of s5] peek_ps [OF that(3)] gettoken_ps [OF that(4)] that(1) by auto
    ultimately show ?thesis
      using p True p1 g by (auto simp: parseexec_def parseblock_def res_simps reaches_def split: prod.splits)
  qed
qed

lemma parsepipe_shallow:
  assumes "0 \<notin> set b" "sound_at b line" "shallow b k line" "m \<le> Suc k"
  shows "shallow b m (parsepipe line m b)"
  using assms(4)
proof (induction m)
  case (Suc m)
  show ?case unfolding shallow_def
  proof (intro allI impI)
    fix s assume s: "s \<le> length b" "length b - s < Suc m"
    have "parseexec line b s \<noteq> Inl Deep" "reaches b s (parseexec line b s)"
      using parseexec_shallow [OF assms(1-3)] parseexec_sound [OF assms(1,2)] s Suc.prems
      by (auto simp: shallow_def sound_at_def)
    moreover have "parsepipe line m b s3 \<noteq> Inl Deep"
      if c: "s \<le> s1" "s1 \<le> length b" "peek b s1 [124] = (s2, True)" "gettoken b s2 = (t, q, e, s3)" for s1 s2 t q e s3
      using Suc.IH Suc.prems gettoken_moves [OF c(3,4)] gettoken_ps [OF c(4)] peek_ps [OF c(3)] c(1,2) s
      by (auto simp: shallow_def symbols_def)
    ultimately show "parsepipe line (Suc m) b s \<noteq> Inl Deep"
      by (auto simp: res_simps reaches_def split: prod.splits)
  qed
qed (simp add: shallow_def)

lemma parseline_shallow:
  assumes "0 \<notin> set b"
  shows "shallow b n (parseline n b)"
proof (induction n)
  case (Suc n)
  note snd = parseline_sound [OF assms, of n]
  show ?case unfolding shallow_def
  proof (intro allI impI)
    fix s assume s: "s \<le> length b" "length b - s < Suc n"
    have "parsepipe (parseline n b) (Suc n) b s \<noteq> Inl Deep" "reaches b s (parsepipe (parseline n b) (Suc n) b s)"
      using parsepipe_shallow [OF assms snd Suc.IH, of "Suc n"] parsepipe_sound [OF assms snd, of "Suc n"] s
      by (auto simp: shallow_def sound_at_def simp del: parsepipe.simps)
    moreover have "parseline n b s4 \<noteq> Inl Deep"
      if c: "s \<le> s1" "s1 \<le> length b" "\<forall>w\<in>set_cmd c. cuts b w" "back_loop b c s1 = (c1, s2)"
        "peek b s2 [59] = (s3, True)" "gettoken b s3 = (t, q, e, s4)" for c s1 c1 s2 s3 t q e s4
      using Suc.IH gettoken_moves [OF c(5,6)] gettoken_ps [OF c(6)] peek_ps [OF c(5)] c(1,2) s
        back_loop_sound [OF c(2,3)] c(4)
      by (auto simp: shallow_def symbols_def)
    ultimately show "parseline (Suc n) b s \<noteq> Inl Deep"
      by (auto simp: res_simps reaches_def simp del: parsepipe.simps split: prod.splits)
  qed
qed (simp add: shallow_def)

section \<open>Words after the end marks are written\<close>

definition word_of :: "byte list \<Rightarrow> word_at \<Rightarrow> byte list" where
  "word_of b w = take (snd w - fst w) (drop (fst w) b)"

lemma nth_update: "j < length xs \<Longrightarrow> xs[i := x] ! j = (if i = j then x else xs ! j)"
  by (cases "i < length xs") auto

lemma nulterminate_nth:
  "length (nulterminate c m) = length m \<and>
   (\<forall>i<length m. nulterminate c m ! i = (if i \<in> snd ` set_cmd c then 0 else m ! i))"
proof (induction c arbitrary: m)
  case (EXEC ws)
  show ?case by (induction ws arbitrary: m) (auto simp: nth_update rev_image_eqI)
qed (auto simp: nth_update)

lemma command_words:
  assumes "\<forall>w\<in>set_cmd c. cuts b w"
  shows "command (nulterminate c (b @ [0])) c = map_cmd (word_of b) c"
  unfolding command_def
proof (rule cmd.map_cong0)
  fix w assume w: "w \<in> set_cmd c"
  let ?m = "nulterminate c (b @ [0])"
  obtain q e where qe: "w = (q, e)" by (cases w)
  have c: "q \<le> e" "e \<le> length b" "\<And>i. q \<le> i \<Longrightarrow> i < e \<Longrightarrow> word_char (b ! i)"
    using assms w qe by (auto simp: cuts_def)
  have m: "length ?m = Suc (length b)"
    "\<And>i. i < Suc (length b) \<Longrightarrow> ?m ! i = (if i \<in> snd ` set_cmd c then 0 else (b @ [0]) ! i)"
    using nulterminate_nth [of c "b @ [0]"] by auto
  have in_word: "?m ! i = b ! i" if "q \<le> i" "i < e" for i
  proof -
    have "i \<notin> snd ` set_cmd c"
    proof
      assume "i \<in> snd ` set_cmd c"
      then have "\<not> word_char (char_at b i)" using assms by (auto simp: cuts_def)
      moreover have "char_at b i = b ! i" using that c(2) by (simp add: char_at_def)
      ultimately show False using c(3) [OF that] by simp
    qed
    with m(2) [of i] that c(2) show ?thesis by (simp add: nth_append)
  qed
  have "e \<in> snd ` set_cmd c" using w qe by force
  then have "?m ! e = 0" using m(2) [of e] c(2) by auto
  then have "drop q ?m = take (e - q) (drop q b) @ 0 # drop (Suc e) ?m"
    using c(1,2) m(1) in_word
    by (intro nth_equalityI) (auto simp: nth_append nth_Cons' le_diff_conv2 not_less min_def add.commute)
  moreover have "\<forall>x\<in>set (take (e - q) (drop q b)). x \<noteq> 0"
    using c by (auto simp: in_set_conv_nth word_char_def)
  ultimately show "(case w of (q, eq) \<Rightarrow> cstr ?m q) = word_of b w"
    by (simp add: qe word_of_def cstr_def takeWhile_append2)
qed

lemma cuts_chars: "cuts b w \<Longrightarrow> x \<in> set (word_of b w) \<Longrightarrow> word_char x"
  by (auto simp: cuts_def word_of_def in_set_conv_nth)

text \<open>
  Claim C24.  Every line without a NUL is parsed with recursion no deeper than its length, to a command or to one
  of the syntax errors; and the arguments and file names of the command are then stretches of the line cut
  at blanks and symbols, although all the NUL bytes are written into the line itself.
\<close>

theorem parsecmd_total:
  assumes "0 \<notin> set b"
  shows "parsecmd b \<noteq> Inl Deep \<and>
    (\<forall>c m. parsecmd b = Inr (c, m) \<longrightarrow>
      command m c = map_cmd (word_of b) c \<and> (\<forall>w\<in>set_cmd c. \<forall>x\<in>set (word_of b w). word_char x))"
proof -
  let ?p = "parseline (Suc (length b)) b 0"
  have p: "?p \<noteq> Inl Deep" "reaches b 0 ?p"
    using parseline_shallow [OF assms, of "Suc (length b)"] parseline_sound [OF assms, of "Suc (length b)"]
    by (auto simp: shallow_def sound_at_def simp del: parseline.simps)
  from p(1) have "parsecmd b \<noteq> Inl Deep" by (auto simp: parsecmd_def res_simps simp del: parseline.simps)
  moreover have "command m c = map_cmd (word_of b) c \<and> (\<forall>w\<in>set_cmd c. \<forall>x\<in>set (word_of b w). word_char x)"
    if "parsecmd b = Inr (c, m)" for c m
  proof -
    from that obtain s where "?p = Inr (c, s)" and m: "m = nulterminate c (b @ [0])"
      by (auto simp: parsecmd_def bindR_eq_Inr simp del: parseline.simps split: if_splits)
    with p(2) have "\<forall>w\<in>set_cmd c. cuts b w" by (simp del: parseline.simps)
    then show ?thesis unfolding m by (intro conjI ballI command_words cuts_chars) auto
  qed
  ultimately show ?thesis by blast
qed

section \<open>Commands as text\<close>

text \<open>
  A command as a line: every part of a composed command in parentheses.  A command can be written like this when its
  words are not empty and free of blanks and symbols, there are at most nine of them in each simple command, and
  a redirection is one of the two there are.
\<close>

definition args_text :: "byte list list \<Rightarrow> byte list" where
  "args_text ws = (case ws of [] \<Rightarrow> [] | w # vs \<Rightarrow> w @ concat (map (Cons 32) vs))"

definition paren :: "byte list \<Rightarrow> byte list" where
  "paren x = 40 # x @ [41]"

primrec cmd_text :: "byte list cmd \<Rightarrow> byte list" where
  "cmd_text (EXEC ws) = args_text ws"
| "cmd_text (REDIR c f md fd) = paren (cmd_text c) @ (if fd = 0 then 60 else 62) # f"
| "cmd_text (PIPE l r) = paren (cmd_text l) @ 124 # paren (cmd_text r)"
| "cmd_text (LIST l r) = paren (cmd_text l) @ 59 # paren (cmd_text r)"
| "cmd_text (BACK c) = paren (cmd_text c) @ [38]"

definition plain_word :: "byte list \<Rightarrow> bool" where
  "plain_word w \<longleftrightarrow> w \<noteq> [] \<and> (\<forall>x\<in>set w. word_char x)"

primrec writable :: "byte list cmd \<Rightarrow> bool" where
  "writable (EXEC ws) \<longleftrightarrow> length ws < MAXARGS \<and> (\<forall>w\<in>set ws. plain_word w)"
| "writable (REDIR c f md fd) \<longleftrightarrow> writable c \<and> plain_word f \<and>
     (md = O_RDONLY \<and> fd = 0 \<or> md = O_WRONLY OR O_CREATE \<and> fd = 1)"
| "writable (PIPE l r) \<longleftrightarrow> writable l \<and> writable r"
| "writable (LIST l r) \<longleftrightarrow> writable l \<and> writable r"
| "writable (BACK c) \<longleftrightarrow> writable c"

text \<open>What the line holds from a position on, and what the tokens are there.\<close>

definition solid :: "byte list \<Rightarrow> bool" where
  "solid y \<longleftrightarrow> y = [] \<or> hd y \<noteq> 0 \<and> hd y \<notin> set whitespace"

definition closes :: "byte list \<Rightarrow> bool" where
  "closes y \<longleftrightarrow> y = [] \<or> hd y \<in> {124, 41, 38, 59}"

definition line_end :: "byte list \<Rightarrow> bool" where
  "line_end y \<longleftrightarrow> y = [] \<or> hd y = 41"

lemma closes_solid: "closes y \<Longrightarrow> solid y"
  by (auto simp: closes_def solid_def whitespace_def)

lemma line_end_closes: "line_end y \<Longrightarrow> closes y"
  by (auto simp: closes_def line_end_def)

lemma drop_charD:
  assumes "drop s b = x # y"
  shows "char_at b s = x" "drop (Suc s) b = y" "s < length b"
proof -
  show "s < length b" using assms by (metis drop_all list.distinct(1) not_le)
  with assms show "char_at b s = x" "drop (Suc s) b = y"
    by (simp_all add: char_at_def Cons_nth_drop_Suc [symmetric])
qed

lemma drop_endD: "drop s b = [] \<Longrightarrow> char_at b s = 0"
  by (simp add: char_at_def)

lemma drop_appendD: "drop s b = x @ y \<Longrightarrow> drop (s + length x) b = y"
  by (metis append_eq_conv_conj drop_drop add.commute)

lemma skip_white_solid: "drop s b = y \<Longrightarrow> solid y \<Longrightarrow> skip_white b s = s"
  by (subst skip_white.simps) (cases y; auto simp: solid_def dest: drop_charD)

lemma skip_white_blank:
  assumes "drop s b = 32 # y" "solid y"
  shows "skip_white b s = Suc s"
  using drop_charD [OF assms(1)] skip_white_solid [OF _ assms(2), of "Suc s" b]
  by (subst skip_white.simps) (simp add: whitespace_def)

lemma peek_solid:
  "drop s b = x # y \<Longrightarrow> solid (x # y) \<Longrightarrow> peek b s toks = (s, x \<in> set toks)"
  using drop_charD [of s b x y] skip_white_solid [of s b "x # y"]
  by (auto simp: peek_def solid_def)

lemma peek_other:
  "drop s b = y \<Longrightarrow> solid y \<Longrightarrow> y \<noteq> [] \<longrightarrow> hd y \<notin> set toks \<Longrightarrow> peek b s toks = (s, False)"
  using drop_endD [of s b] skip_white_solid [of s b y] peek_solid [of s b "hd y" "tl y" toks]
  by (cases y) (auto simp: peek_def)

lemma skip_word_over:
  "drop s b = w @ y \<Longrightarrow> \<forall>x\<in>set w. word_char x \<Longrightarrow> y \<noteq> [] \<longrightarrow> \<not> word_char (hd y) \<and> hd y \<noteq> 0 \<Longrightarrow>
   skip_word b s = s + length w"
proof (induction w arbitrary: s)
  case Nil
  then show ?case
    by (subst skip_word.simps) (cases y; auto simp: word_char_def dest: drop_charD)
next
  case (Cons x w)
  note d = drop_charD [of s b x "w @ y"]
  have "skip_word b (Suc s) = Suc s + length w" using Cons d by simp
  with Cons.prems d show ?case by (subst skip_word.simps) (auto simp: word_char_def)
qed

lemma symbol_solid: "x \<in> set symbols \<Longrightarrow> solid (x # y)"
  by (auto simp: solid_def symbols_def whitespace_def)

lemma word_solid: "word_char x \<Longrightarrow> solid (x # y)"
  by (auto simp: solid_def word_char_def)

lemma gettoken_symbol:
  assumes "drop s b = x # y" "x \<in> {124, 40, 41, 59, 38, 60} \<or> x = 62 \<and> (y = [] \<or> hd y \<noteq> 62)" "solid y"
  shows "gettoken b s = (x, s, Suc s, Suc s)"
proof -
  have x: "x \<in> set symbols" "x \<noteq> 0" using assms(2) by (auto simp: symbols_def)
  note d = drop_charD [OF assms(1)]
  have s: "skip_white b s = s" "skip_white b (Suc s) = Suc s"
    using skip_white_solid [OF assms(1) symbol_solid [OF x(1)]] skip_white_solid [OF d(2) assms(3)] by auto
  have "x = 62 \<Longrightarrow> char_at b (Suc s) \<noteq> 62"
    using assms(2) d(2) by (cases y) (auto simp: char_at_def dest: drop_charD)
  with s d x(2) assms(2) show ?thesis by (auto simp: gettoken_def Let_def)
qed

lemma gettoken_word:
  assumes "drop s b = w @ y" "plain_word w" "closes y \<or> hd y = 32"
  shows "gettoken b s = (97, s, s + length w, skip_white b (s + length w))" "word_of b (s, s + length w) = w"
proof -
  obtain x v where w: "w = x # v" "word_char x" using assms(2) by (cases w) (auto simp: plain_word_def)
  have d: "char_at b s = x" using drop_charD [of s b x "v @ y"] assms(1) w by simp
  have "skip_white b s = s" using skip_white_solid [of s b "x # v @ y"] word_solid [OF w(2)] assms(1) w by simp
  moreover have "skip_word b s = s + length w"
  proof (rule skip_word_over [OF assms(1)])
    show "\<forall>x\<in>set w. word_char x" using assms(2) by (simp add: plain_word_def)
    show "y \<noteq> [] \<longrightarrow> \<not> word_char (hd y) \<and> hd y \<noteq> 0"
      using assms(3) by (cases y) (auto simp: closes_def word_char_def whitespace_def symbols_def)
  qed
  ultimately show "gettoken b s = (97, s, s + length w, skip_white b (s + length w))"
    using d w(2) by (simp add: gettoken_def Let_def word_char_def symbols_def)
  show "word_of b (s, s + length w) = w" using assms(1) by (simp add: word_of_def)
qed

lemma parseredirs_none:
  "drop s b = y \<Longrightarrow> solid y \<Longrightarrow> y \<noteq> [] \<longrightarrow> hd y \<notin> {60, 62} \<Longrightarrow> parseredirs b c s = Inr (c, s)"
  by (subst parseredirs.simps) (simp add: peek_other)

lemma parseredirs_one:
  assumes "drop s b = r # f @ y" "plain_word f" "closes y"
    "r = 60 \<and> md = O_RDONLY \<and> fd = 0 \<or> r = 62 \<and> md = O_WRONLY OR O_CREATE \<and> fd = 1"
  shows "parseredirs b c s = Inr (REDIR c (Suc s, Suc s + length f) md fd, Suc s + length f)"
proof -
  have r: "r \<in> set symbols" using assms(4) by (auto simp: symbols_def)
  have p: "peek b s [60, 62] = (s, True)"
    using peek_solid [OF assms(1) symbol_solid [OF r], of "[60, 62]"] assms(4) by auto
  obtain x v where f: "f = x # v" "word_char x" using assms(2) by (cases f) (auto simp: plain_word_def)
  have g: "gettoken b s = (r, s, Suc s, Suc s)"
    using gettoken_symbol [OF assms(1)] assms(4) word_solid [OF f(2)] f by (auto simp: word_char_def symbols_def)
  note d = drop_charD(2) [OF assms(1)]
  have e: "drop (Suc s + length f) b = y" by (rule drop_appendD [OF d])
  have g2: "gettoken b (Suc s) = (97, Suc s, Suc s + length f, Suc s + length f)"
    using gettoken_word(1) [OF d assms(2)] assms(3) skip_white_solid [OF e closes_solid [OF assms(3)]] by simp
  have "parseredirs b (REDIR c (Suc s, Suc s + length f) md fd) (Suc s + length f) =
      Inr (REDIR c (Suc s, Suc s + length f) md fd, Suc s + length f)"
    by (rule parseredirs_none [OF e closes_solid [OF assms(3)]]) (use assms(3) in \<open>auto simp: closes_def\<close>)
  with p g g2 assms(4) show ?thesis by (subst parseredirs.simps) auto
qed

lemma args_text_simps [simp]:
  "args_text [] = []" "args_text [w] = w" "args_text (w # v # vs) = w @ 32 # args_text (v # vs)"
  by (simp_all add: args_text_def)

lemma args_text_head:
  assumes "\<forall>w\<in>set ws. plain_word w" "closes y"
  shows "solid (args_text ws @ y)" "args_text ws @ y \<noteq> [] \<longrightarrow> hd (args_text ws @ y) \<notin> {60, 62, 40}"
    "ws \<noteq> [] \<Longrightarrow> args_text ws @ y \<noteq> [] \<and> hd (args_text ws @ y) \<notin> {124, 41, 38, 59}"
proof -
  have "(ws = [] \<and> args_text ws @ y = y) \<or> (\<exists>x v. args_text ws @ y = x # v \<and> word_char x)"
    using assms(1) by (cases ws rule: remdups_adj.cases; cases "hd ws") (auto simp: plain_word_def)
  then show "solid (args_text ws @ y)" "args_text ws @ y \<noteq> [] \<longrightarrow> hd (args_text ws @ y) \<notin> {60, 62, 40}"
    "ws \<noteq> [] \<Longrightarrow> args_text ws @ y \<noteq> [] \<and> hd (args_text ws @ y) \<notin> {124, 41, 38, 59}"
    using assms(2) closes_solid [OF assms(2)]
    by (auto simp: closes_def word_char_def symbols_def solid_def)
qed

lemma exec_args_text:
  assumes "closes y"
  shows "drop s b = args_text ws @ y \<Longrightarrow> \<forall>w\<in>set ws. plain_word w \<Longrightarrow> argc + length ws < MAXARGS \<Longrightarrow>
    \<exists>qs. exec_args b (EXEC rs) argc s = Inr (EXEC (rs @ qs), s + length (args_text ws)) \<and> map (word_of b) qs = ws"
proof (induction ws arbitrary: rs argc s)
  case Nil
  then have d: "drop s b = y" by simp
  show ?case
  proof (cases y)
    case Nil
    with d have "peek b s [124, 41, 38, 59] = (s, False)" "gettoken b s = (0, s, s, s)"
      using peek_other [OF d closes_solid [OF assms]] skip_white_solid [OF d closes_solid [OF assms]] drop_endD [of s b]
      by (auto simp: gettoken_def Let_def)
    then show ?thesis by (subst exec_args.simps) simp
  next
    case (Cons x v)
    then have "peek b s [124, 41, 38, 59] = (s, True)"
      using peek_solid [of s b x v] d assms closes_solid [OF assms] by (auto simp: closes_def)
    then show ?thesis by (subst exec_args.simps) simp
  qed
next
  case (Cons w ws)
  define y1 where "y1 = (case ws of [] \<Rightarrow> y | v # vs \<Rightarrow> 32 # args_text ws @ y)"
  have d: "drop s b = w @ y1" using Cons.prems(1) by (cases ws) (simp_all add: y1_def)
  have w: "plain_word w" "\<forall>v\<in>set ws. plain_word v" using Cons.prems(2) by simp_all
  note hd = args_text_head [OF Cons.prems(2) assms]
  have p: "peek b s [124, 41, 38, 59] = (s, False)"
    by (rule peek_other [OF Cons.prems(1) hd(1)]) (use hd(3) in auto)
  define s2 where "s2 = skip_white b (s + length w)"
  have g: "gettoken b s = (97, s, s + length w, s2)" "word_of b (s, s + length w) = w"
    using gettoken_word [OF d w(1)] assms by (auto simp: y1_def s2_def split: list.splits)
  have e: "drop (s + length w) b = y1" by (rule drop_appendD [OF d])
  note hd2 = args_text_head [OF w(2) assms]
  have s2: "s2 = s + length w + (if ws = [] then 0 else 1)" "drop s2 b = args_text ws @ y"
  proof -
    show 1: "s2 = s + length w + (if ws = [] then 0 else 1)"
      using e skip_white_solid [OF _ closes_solid [OF assms], of "s + length w" b]
        skip_white_blank [of "s + length w" b "args_text ws @ y"] hd2(1)
      by (cases ws) (simp_all add: s2_def y1_def)
    show "drop s2 b = args_text ws @ y"
      using e drop_charD(2) [of "s + length w" b 32 "args_text ws @ y"] by (cases ws) (simp_all add: 1 y1_def)
  qed
  have r: "parseredirs b (EXEC (rs @ [(s, s + length w)])) s2 = Inr (EXEC (rs @ [(s, s + length w)]), s2)"
    by (rule parseredirs_none [OF s2(2) hd2(1)]) (use hd2(2) in auto)
  obtain qs where qs: "exec_args b (EXEC (rs @ [(s, s + length w)])) (argc + 1) s2 =
      Inr (EXEC ((rs @ [(s, s + length w)]) @ qs), s2 + length (args_text ws))" "map (word_of b) qs = ws"
    using Cons.IH [OF s2(2) w(2), of "argc + 1" "rs @ [(s, s + length w)]"] Cons.prems(3) by auto
  have "exec_args b (EXEC rs) argc s = exec_args b (EXEC (rs @ [(s, s + length w)])) (argc + 1) s2"
    using p g(1) r Cons.prems(3) by (subst exec_args.simps) simp
  with qs g(2) s2(1) show ?case
    by (intro exI [of _ "(s, s + length w) # qs"]) (cases ws; simp)
qed

text \<open>Parsing what stands in parentheses, and whole lines.\<close>

definition parsed :: "byte list \<Rightarrow> nat \<Rightarrow> byte list \<Rightarrow> byte list cmd \<Rightarrow> sherr + word_at cmd \<times> nat \<Rightarrow> bool" where
  "parsed b s x c r \<longleftrightarrow> (\<exists>c'. r = Inr (c', s + length x) \<and> map_cmd (word_of b) c' = c)"

lemma parsed_block:
  assumes "drop s b = paren x @ z" "parsed b (Suc s) x c (line (Suc s))" "solid z" "solid (x @ [41])"
  shows "\<exists>c'. parseexec line b s = parseredirs b c' (s + length (paren x)) \<and> map_cmd (word_of b) c' = c"
proof -
  have d: "drop s b = 40 # x @ 41 # z" using assms(1) by (simp add: paren_def)
  obtain c' where c: "line (Suc s) = Inr (c', Suc s + length x)" "map_cmd (word_of b) c' = c"
    using assms(2) by (auto simp: parsed_def)
  have sol: "solid (40 # x @ 41 # z)" "solid (41 # z)" by (auto intro: symbol_solid simp: symbols_def)
  have s1: "solid (x @ 41 # z)" using assms(4) by (cases x) (auto simp: solid_def)
  have p: "peek b s [40] = (s, True)" using peek_solid [OF d sol(1)] by simp
  have g: "gettoken b s = (40, s, Suc s, Suc s)" by (rule gettoken_symbol [OF d _ s1]) simp
  have e: "drop (Suc s + length x) b = 41 # z" by (rule drop_appendD [OF drop_charD(2) [OF d]])
  have p2: "peek b (Suc s + length x) [41] = (Suc s + length x, True)" using peek_solid [OF e sol(2)] by simp
  have g2: "gettoken b (Suc s + length x) = (41, Suc s + length x, Suc (Suc s + length x), Suc (Suc s + length x))"
    by (rule gettoken_symbol [OF e _ assms(3)]) simp
  have "parseexec line b s = parseredirs b c' (s + length (paren x))"
    using p g c(1) p2 g2 by (simp add: parseexec_def parseblock_def paren_def)
  with c(2) show ?thesis by blast
qed

lemma parsed_block_plain:
  assumes "drop s b = paren x @ z" "parsed b (Suc s) x c (line (Suc s))" "solid (x @ [41])" "closes z"
  shows "parsed b s (paren x) c (parseexec line b s)"
proof -
  obtain c' where c: "parseexec line b s = parseredirs b c' (s + length (paren x))" "map_cmd (word_of b) c' = c"
    using parsed_block [where line = line, OF assms(1,2) closes_solid [OF assms(4)] assms(3)] by blast
  have "parseredirs b c' (s + length (paren x)) = Inr (c', s + length (paren x))"
    by (rule parseredirs_none [OF drop_appendD [OF assms(1)] closes_solid [OF assms(4)]])
      (use assms(4) in \<open>auto simp: closes_def\<close>)
  with c show ?thesis by (simp add: parsed_def)
qed

lemma parsed_pipe_end:
  assumes "parsed b s x c (parseexec line b s)" "drop (s + length x) b = y" "solid y" "y \<noteq> [] \<longrightarrow> hd y \<noteq> 124"
  shows "parsed b s x c (parsepipe line (Suc n) b s)"
proof -
  obtain c' where c: "parseexec line b s = Inr (c', s + length x)" "map_cmd (word_of b) c' = c"
    using assms(1) by (auto simp: parsed_def)
  with peek_other [OF assms(2,3), of "[124]"] assms(4) show ?thesis by (auto simp: parsed_def)
qed

lemma parsed_line_end:
  assumes "parsed b s x c (parsepipe (parseline n b) (Suc n) b s)" "drop (s + length x) b = y" "line_end y"
  shows "parsed b s x c (parseline (Suc n) b s)"
proof -
  obtain c' where c: "parsepipe (parseline n b) (Suc n) b s = Inr (c', s + length x)" "map_cmd (word_of b) c' = c"
    using assms(1) by (auto simp: parsed_def simp del: parsepipe.simps)
  have y: "solid y" "y \<noteq> [] \<longrightarrow> hd y \<notin> {38, 59}"
    using closes_solid [OF line_end_closes [OF assms(3)]] assms(3) by (auto simp: line_end_def)
  have "peek b (s + length x) [38] = (s + length x, False)" "peek b (s + length x) [59] = (s + length x, False)"
    by (rule peek_other [OF assms(2) y(1)]; use y(2) in auto)+
  with c show ?thesis by (auto simp: parsed_def back_loop.simps simp del: parsepipe.simps)
qed

lemma cmd_text_solid: "writable c \<Longrightarrow> solid (cmd_text c @ [41])"
proof (cases c)
  case (EXEC ws)
  assume "writable c"
  with EXEC args_text_head(1) [of ws "[41]"] show ?thesis by (simp add: closes_def)
qed (auto simp: paren_def solid_def whitespace_def)


text \<open>The parser reads the command \<open>c\<close> inside every line that is short enough.\<close>

definition reads_text :: "byte list \<Rightarrow> byte list cmd \<Rightarrow> bool" where
  "reads_text b c \<longleftrightarrow>
     (\<forall>s y n. drop s b = cmd_text c @ y \<longrightarrow> line_end y \<longrightarrow> length (cmd_text c @ y) < n \<longrightarrow>
        parsed b s (cmd_text c) c (parseline n b s))"

lemma sub_line:
  assumes "reads_text b c" "drop s b = paren (cmd_text c) @ z" "length (paren (cmd_text c) @ z) < Suc k"
  shows "parsed b (Suc s) (cmd_text c) c (parseline k b (Suc s))"
proof -
  have "drop (Suc s) b = cmd_text c @ 41 # z"
    using drop_charD(2) [of s b 40 "cmd_text c @ 41 # z"] assms(2) by (simp add: paren_def)
  moreover have "line_end (41 # z)" by (simp add: line_end_def)
  moreover have "length (cmd_text c @ 41 # z) < k" using assms(3) by (simp add: paren_def)
  ultimately show ?thesis using assms(1) unfolding reads_text_def by blast
qed

lemma sub_block:
  assumes "reads_text b c" "writable c" "drop s b = paren (cmd_text c) @ z" "length (paren (cmd_text c) @ z) < Suc k"
    "closes z"
  shows "parsed b s (paren (cmd_text c)) c (parseexec (parseline k b) b s)"
  by (rule parsed_block_plain [where line = "parseline k b", OF assms(3) sub_line [OF assms(1,3,4)] cmd_text_solid [OF assms(2)] assms(5)])

lemma line_block:
  assumes "reads_text b c" "writable c" "drop s b = paren (cmd_text c) @ y" "length (paren (cmd_text c) @ y) < n"
    "line_end y"
  shows "parsed b s (paren (cmd_text c)) c (parseline n b s)"
proof -
  obtain k where n: "n = Suc k" using assms(4) by (cases n) auto
  have e: "drop (s + length (paren (cmd_text c))) b = y" by (rule drop_appendD [OF assms(3)])
  note y = line_end_closes [OF assms(5)]
  have "parsed b s (paren (cmd_text c)) c (parsepipe (parseline k b) (Suc k) b s)"
    by (rule parsed_pipe_end [OF sub_block [OF assms(1-3) assms(4) [unfolded n] y] e closes_solid [OF y]])
      (use assms(5) in \<open>auto simp: line_end_def\<close>)
  then show ?thesis unfolding n by (rule parsed_line_end [OF _ e assms(5)])
qed

lemma redir_text:
  assumes "reads_text b c" "writable (REDIR c f md fd)" "drop s b = cmd_text (REDIR c f md fd) @ y" "line_end y"
    "length (cmd_text (REDIR c f md fd) @ y) < Suc k"
  shows "parsed b s (cmd_text (REDIR c f md fd)) (REDIR c f md fd) (parseline (Suc k) b s)"
proof -
  define r where "r = (if fd = 0 then 60 else 62 :: byte)"
  have shown: "cmd_text (REDIR c f md fd) = paren (cmd_text c) @ r # f" by (simp add: r_def)
  note y = line_end_closes [OF assms(4)]
  have d: "drop s b = paren (cmd_text c) @ r # f @ y" using assms(3) unfolding shown by simp
  have sz: "solid (r # f @ y)" by (rule symbol_solid) (simp add: r_def symbols_def)
  have w: "writable c" "plain_word f" using assms(2) by auto
  obtain c' where c: "parseexec (parseline k b) b s = parseredirs b c' (s + length (paren (cmd_text c)))"
    "map_cmd (word_of b) c' = c"
    using parsed_block [where line = "parseline k b", OF d sub_line [OF assms(1) d] sz cmd_text_solid [OF w(1)]]
      assms(5) by (auto simp: shown)
  let ?s = "s + length (paren (cmd_text c))"
  have e: "drop ?s b = r # f @ y" by (rule drop_appendD [OF d])
  have "word_of b (Suc ?s, Suc ?s + length f) = f"
    by (rule gettoken_word(2) [OF drop_charD(2) [OF e] w(2)]) (simp add: y)
  moreover have "parseredirs b c' ?s = Inr (REDIR c' (Suc ?s, Suc ?s + length f) md fd, Suc ?s + length f)"
    by (rule parseredirs_one [OF e w(2) y]) (use assms(2) in \<open>auto simp: r_def\<close>)
  ultimately have "parsed b s (cmd_text (REDIR c f md fd)) (REDIR c f md fd) (parseexec (parseline k b) b s)"
    using c by (simp add: parsed_def shown)
  from parsed_line_end [OF parsed_pipe_end [OF this drop_appendD [OF assms(3)] closes_solid [OF y]]
      drop_appendD [OF assms(3)] assms(4)] assms(4)
  show ?thesis by (auto simp: line_end_def)
qed

lemma pipe_text:
  assumes "reads_text b l" "reads_text b r" "writable (PIPE l r)" "drop s b = cmd_text (PIPE l r) @ y" "line_end y"
    "length (cmd_text (PIPE l r) @ y) < Suc k"
  shows "parsed b s (cmd_text (PIPE l r)) (PIPE l r) (parseline (Suc k) b s)"
proof -
  let ?l = "paren (cmd_text l)" and ?r = "paren (cmd_text r)"
  note y = line_end_closes [OF assms(5)]
  have w: "writable l" "writable r" using assms(3) by auto
  have d: "drop s b = ?l @ 124 # ?r @ y" using assms(4) by simp
  have "parsed b s ?l l (parseexec (parseline k b) b s)"
    by (rule sub_block [OF assms(1) w(1) d]) (use assms(6) in \<open>auto simp: closes_def\<close>)
  then obtain l' where l: "parseexec (parseline k b) b s = Inr (l', s + length ?l)" "map_cmd (word_of b) l' = l"
    by (auto simp: parsed_def)
  let ?s = "s + length ?l"
  have e: "drop ?s b = 124 # ?r @ y" by (rule drop_appendD [OF d])
  have sol: "solid (124 # ?r @ y)" "solid (?r @ y)" by (auto simp: solid_def whitespace_def paren_def)
  have p: "peek b ?s [124] = (?s, True)" using peek_solid [OF e sol(1)] by simp
  have g: "gettoken b ?s = (124, ?s, Suc ?s, Suc ?s)" by (rule gettoken_symbol [OF e _ sol(2)]) simp
  have d2: "drop (Suc ?s) b = ?r @ y" by (rule drop_charD(2) [OF e])
  have e2: "drop (Suc ?s + length ?r) b = y" by (rule drop_appendD [OF d2])
  obtain j where k: "k = Suc j" using assms(6) by (cases k) (auto simp: paren_def)
  have "parsed b (Suc ?s) ?r r (parsepipe (parseline k b) k b (Suc ?s))"
    unfolding k
    by (rule parsed_pipe_end [OF sub_block [OF assms(2) w(2) d2 _ y] e2 closes_solid [OF y]])
      (use assms(5,6) k in \<open>auto simp: line_end_def\<close>)
  then have "parsed b s (cmd_text (PIPE l r)) (PIPE l r) (parsepipe (parseline k b) (Suc k) b s)"
    using l p g by (auto simp: parsed_def)
  then show ?thesis by (rule parsed_line_end [OF _ drop_appendD [OF assms(4)] assms(5)])
qed

lemma list_text:
  assumes "reads_text b l" "reads_text b r" "writable (LIST l r)" "drop s b = cmd_text (LIST l r) @ y" "line_end y"
    "length (cmd_text (LIST l r) @ y) < Suc k"
  shows "parsed b s (cmd_text (LIST l r)) (LIST l r) (parseline (Suc k) b s)"
proof -
  let ?l = "paren (cmd_text l)" and ?r = "paren (cmd_text r)"
  have w: "writable l" "writable r" using assms(3) by auto
  have d: "drop s b = ?l @ 59 # ?r @ y" using assms(4) by simp
  let ?s = "s + length ?l"
  have e: "drop ?s b = 59 # ?r @ y" by (rule drop_appendD [OF d])
  have sol: "solid (59 # ?r @ y)" "solid (?r @ y)" by (auto simp: solid_def whitespace_def paren_def)
  have "parsed b s ?l l (parsepipe (parseline k b) (Suc k) b s)"
    by (rule parsed_pipe_end [OF sub_block [OF assms(1) w(1) d] e sol(1)])
      (use assms(6) in \<open>auto simp: closes_def\<close>)
  then obtain l' where l: "parsepipe (parseline k b) (Suc k) b s = Inr (l', ?s)" "map_cmd (word_of b) l' = l"
    by (auto simp: parsed_def simp del: parsepipe.simps)
  have p: "peek b ?s [38] = (?s, False)" "peek b ?s [59] = (?s, True)"
    using peek_solid [OF e sol(1)] by auto
  then have lo: "back_loop b l' ?s = (l', ?s)" by (subst back_loop.simps) simp
  have g: "gettoken b ?s = (59, ?s, Suc ?s, Suc ?s)" by (rule gettoken_symbol [OF e _ sol(2)]) simp
  have "parsed b (Suc ?s) ?r r (parseline k b (Suc ?s))"
    by (rule line_block [OF assms(2) w(2) drop_charD(2) [OF e] _ assms(5)]) (use assms(6) in auto)
  then show ?thesis using l lo p g by (auto simp: parsed_def simp del: parsepipe.simps)
qed

lemma back_text:
  assumes "reads_text b c" "writable (BACK c)" "drop s b = cmd_text (BACK c) @ y" "line_end y"
    "length (cmd_text (BACK c) @ y) < Suc k"
  shows "parsed b s (cmd_text (BACK c)) (BACK c) (parseline (Suc k) b s)"
proof -
  let ?c = "paren (cmd_text c)"
  let ?s = "s + length ?c"
  have w: "writable c" using assms(2) by auto
  have d: "drop s b = ?c @ 38 # y" using assms(3) by simp
  have e: "drop ?s b = 38 # y" by (rule drop_appendD [OF d])
  have y: "solid y" by (rule closes_solid [OF line_end_closes [OF assms(4)]])
  have sol: "solid (38 # y)" by (auto simp: solid_def whitespace_def)
  have "parsed b s ?c c (parsepipe (parseline k b) (Suc k) b s)"
    by (rule parsed_pipe_end [OF sub_block [OF assms(1) w(1) d] e sol])
      (use assms(5) in \<open>auto simp: closes_def\<close>)
  then obtain c' where c: "parsepipe (parseline k b) (Suc k) b s = Inr (c', ?s)" "map_cmd (word_of b) c' = c"
    by (auto simp: parsed_def simp del: parsepipe.simps)
  have p: "peek b ?s [38] = (?s, True)" using peek_solid [OF e sol] by auto
  have g: "gettoken b ?s = (38, ?s, Suc ?s, Suc ?s)" by (rule gettoken_symbol [OF e _ y]) simp
  have q: "peek b (Suc ?s) [38] = (Suc ?s, False)" "peek b (Suc ?s) [59] = (Suc ?s, False)"
    by (rule peek_other [OF drop_charD(2) [OF e] y]; use assms(4) in \<open>auto simp: line_end_def\<close>)+
  have "back_loop b c' ?s = back_loop b (BACK c') (Suc ?s)" using p g by (subst back_loop.simps) simp
  also have "\<dots> = (BACK c', Suc ?s)" using q(1) by (subst back_loop.simps) simp
  finally show ?thesis using c q by (auto simp: parsed_def simp del: parsepipe.simps)
qed

text \<open>
  \<open>n\<close> is enough for what is left of the line; then the line up to a closing parenthesis or its end is the
  command it was written for.
\<close>

lemma exec_text:
  assumes "writable (EXEC ws)" "drop s b = cmd_text (EXEC ws) @ y" "line_end y"
  shows "parsed b s (cmd_text (EXEC ws)) (EXEC ws) (parseline (Suc k) b s)"
proof -
  note y = line_end_closes [OF assms(3)]
  have ws: "\<forall>w\<in>set ws. plain_word w" "length ws < MAXARGS" using assms(1) by auto
  have d: "drop s b = args_text ws @ y" using assms(2) by simp
  note hd = args_text_head [OF ws(1) y]
  have "peek b s [40] = (s, False)" by (rule peek_other [OF d hd(1)]) (use hd(2) in auto)
  moreover have "parseredirs b (EXEC []) s = Inr (EXEC [], s)"
    by (rule parseredirs_none [OF d hd(1)]) (use hd(2) in auto)
  ultimately have "parsed b s (cmd_text (EXEC ws)) (EXEC ws) (parseexec (parseline k b) b s)"
    using exec_args_text [OF y d ws(1), of 0 "[]"] ws(2) by (auto simp: parseexec_def parsed_def)
  then show ?thesis
    using parsed_line_end [OF parsed_pipe_end [OF _ _ closes_solid [OF y]] _ assms(3)] drop_appendD [OF assms(2)] assms(3)
    by (auto simp: line_end_def)
qed

lemma text_is_read: "writable c \<Longrightarrow> reads_text b c"
proof (induction c)
  case (EXEC ws)
  show ?case unfolding reads_text_def
  proof (intro allI impI)
    fix s y n assume "drop s b = cmd_text (EXEC ws) @ y" "line_end y" "length (cmd_text (EXEC ws) @ y) < n"
    with exec_text [OF EXEC] show "parsed b s (cmd_text (EXEC ws)) (EXEC ws) (parseline n b s)"
      by (cases n) (auto simp del: cmd_text.simps parseline.simps)
  qed
next
  case (REDIR c f md fd)
  then have c: "reads_text b c" by simp
  show ?case unfolding reads_text_def
  proof (intro allI impI)
    fix s y n assume "drop s b = cmd_text (REDIR c f md fd) @ y" "line_end y" "length (cmd_text (REDIR c f md fd) @ y) < n"
    with redir_text [OF c REDIR.prems] show "parsed b s (cmd_text (REDIR c f md fd)) (REDIR c f md fd) (parseline n b s)"
      by (cases n) (auto simp del: cmd_text.simps parseline.simps)
  qed
next
  case (PIPE l r)
  then have c: "reads_text b l" "reads_text b r" by simp_all
  show ?case unfolding reads_text_def
  proof (intro allI impI)
    fix s y n assume "drop s b = cmd_text (PIPE l r) @ y" "line_end y" "length (cmd_text (PIPE l r) @ y) < n"
    with pipe_text [OF c PIPE.prems] show "parsed b s (cmd_text (PIPE l r)) (PIPE l r) (parseline n b s)"
      by (cases n) (auto simp del: cmd_text.simps parseline.simps)
  qed
next
  case (LIST l r)
  then have c: "reads_text b l" "reads_text b r" by simp_all
  show ?case unfolding reads_text_def
  proof (intro allI impI)
    fix s y n assume "drop s b = cmd_text (LIST l r) @ y" "line_end y" "length (cmd_text (LIST l r) @ y) < n"
    with list_text [OF c LIST.prems] show "parsed b s (cmd_text (LIST l r)) (LIST l r) (parseline n b s)"
      by (cases n) (auto simp del: cmd_text.simps parseline.simps)
  qed
next
  case (BACK c)
  then have c: "reads_text b c" by simp
  show ?case unfolding reads_text_def
  proof (intro allI impI)
    fix s y n assume "drop s b = cmd_text (BACK c) @ y" "line_end y" "length (cmd_text (BACK c) @ y) < n"
    with back_text [OF c BACK.prems] show "parsed b s (cmd_text (BACK c)) (BACK c) (parseline n b s)"
      by (cases n) (auto simp del: cmd_text.simps parseline.simps)
  qed
qed

lemma cmd_text_no_NUL: "writable c \<Longrightarrow> 0 \<notin> set (cmd_text c)"
proof (induction c)
  case (EXEC ws)
  then have "\<forall>w\<in>set ws. 0 \<notin> set w" by (auto simp: plain_word_def word_char_def)
  then show ?case by (cases ws) (auto simp: args_text_def)
qed (auto simp: paren_def plain_word_def word_char_def)

lemma parsecmd_text:
  assumes "writable c"
  shows "\<exists>c' m. parsecmd (cmd_text c) = Inr (c', m) \<and> command m c' = c"
proof -
  let ?b = "cmd_text c"
  have "drop 0 ?b = ?b @ [] \<longrightarrow> line_end [] \<longrightarrow> length (?b @ []) < Suc (length ?b) \<longrightarrow>
      parsed ?b 0 ?b c (parseline (Suc (length ?b)) ?b 0)"
    using text_is_read [OF assms, of ?b] unfolding reads_text_def by blast
  then have "parsed ?b 0 ?b c (parseline (Suc (length ?b)) ?b 0)"
    by (simp add: line_end_def del: parseline.simps)
  then obtain c' where c: "parseline (Suc (length ?b)) ?b 0 = Inr (c', length ?b)" "map_cmd (word_of ?b) c' = c"
    by (auto simp: parsed_def simp del: parseline.simps)
  have "skip_white ?b (length ?b) = length ?b" by (subst skip_white.simps) simp
  then have p: "parsecmd ?b = Inr (c', nulterminate c' (?b @ [0]))"
    using c(1) by (simp add: parsecmd_def peek_def Let_def del: parseline.simps)
  have "0 \<notin> set ?b" using assms by (rule cmd_text_no_NUL)
  from parseline_sound [OF this] have "reaches ?b 0 (parseline (Suc (length ?b)) ?b 0)"
    unfolding sound_at_def by blast
  then have "\<forall>w\<in>set_cmd c'. cuts ?b w" unfolding c(1) reaches_simps by blast
  then have "command (nulterminate c' (?b @ [0])) c' = c" by (rule trans [OF command_words c(2)])
  with p show ?thesis by blast
qed

text \<open>
  Claim C23.  A command written as a line is what the shell parses that line to: with its arguments, redirections,
  pipes, lists and background marks nested in every way, and with its words read from the line as
  \<^verbatim>\<open>nulterminate\<close> leaves it.
\<close>

theorem written_command_is_parsed:
  assumes "writable c"
  shows "\<exists>c' m. parsecmd (cmd_text c) = Inr (c', m) \<and> command m c' = c"
  by (rule parsecmd_text [OF assms])

theorem written_command_is_parsed_witness:
  "\<exists>c' m. parsecmd (cmd_text (PIPE (REDIR (EXEC [[99, 97, 116]]) [97] O_RDONLY 0) (BACK (EXEC [[119], [45, 108]])))) =
      Inr (c', m) \<and>
    command m c' = PIPE (REDIR (EXEC [[99, 97, 116]]) [97] O_RDONLY 0) (BACK (EXEC [[119], [45, 108]]))"
  by (rule written_command_is_parsed)
    (simp add: plain_word_def word_char_def whitespace_def symbols_def MAXARGS_def)

theorem parsecmd_total_witness:
  "parsecmd [97, 32, 62] \<noteq> Inl Deep"
  using parsecmd_total [of "[97, 32, 62]"] by simp

section \<open>Running a command\<close>

text \<open>
  What a process of the shell asks the kernel for, and how it goes on with the answer.  A program that \<open>Exec\<close>
  starts takes the place of the rest.  \<open>Fork\<close> has the child and, for the answer in the parent, the parent.
\<close>

datatype req = Exec "byte list" "byte list list" | Open "byte list" uint | Close int | Dup int | Await
  | Chdir "byte list" | Print int string "byte list list"

datatype proc = Exit | Sys req "int \<Rightarrow> proc" | MkPipe "int \<Rightarrow> int \<Rightarrow> int \<Rightarrow> proc" | Fork proc "int \<Rightarrow> proc"

definition sh_panic :: "string \<Rightarrow> proc" where
  "sh_panic msg = Sys (Print 2 msg []) (\<lambda>_. Exit)"

definition fork1 :: "proc \<Rightarrow> proc \<Rightarrow> proc" where
  "fork1 child parent = Fork child (\<lambda>pid. if pid = -1 then sh_panic ''fork'' else parent)"

primrec runcmd :: "byte list cmd \<Rightarrow> proc" where
  "runcmd (EXEC argv) =
     (case argv of
        [] \<Rightarrow> Exit
      | a # _ \<Rightarrow> Sys (Exec a argv) (\<lambda>_. Sys (Print 2 ''exec %s failed'' [a]) (\<lambda>_. Exit)))"
| "runcmd (REDIR c f md fd) =
     Sys (Close fd) (\<lambda>_.
     Sys (Open f md) (\<lambda>r.
     if r < 0 then Sys (Print 2 ''open %s failed'' [f]) (\<lambda>_. Exit) else runcmd c))"
| "runcmd (LIST l r) = fork1 (runcmd l) (Sys Await (\<lambda>_. runcmd r))"
| "runcmd (PIPE l r) =
     MkPipe (\<lambda>rc p0 p1.
     if rc < 0 then sh_panic ''pipe''
     else
       fork1 (Sys (Close 1) (\<lambda>_. Sys (Dup p1) (\<lambda>_. Sys (Close p0) (\<lambda>_. Sys (Close p1) (\<lambda>_. runcmd l)))))
         (fork1 (Sys (Close 0) (\<lambda>_. Sys (Dup p0) (\<lambda>_. Sys (Close p0) (\<lambda>_. Sys (Close p1) (\<lambda>_. runcmd r)))))
           (Sys (Close p0) (\<lambda>_. Sys (Close p1) (\<lambda>_. Sys Await (\<lambda>_. Sys Await (\<lambda>_. Exit)))))))"
| "runcmd (BACK c) = fork1 (runcmd c) Exit"

text \<open>The child of the main loop, which parses the line and runs it.\<close>

definition run_line :: "byte list \<Rightarrow> proc" where
  "run_line b =
     (case parsecmd b of
        Inl (Exits msg) \<Rightarrow> sh_panic msg
      | Inl Deep \<Rightarrow> sh_panic ''too deep''
      | Inr (c, m) \<Rightarrow> runcmd (command m c))"

lemma run_written: "writable c \<Longrightarrow> run_line (cmd_text c) = runcmd c"
  using parsecmd_text [of c] by (auto simp: run_line_def)

text \<open>
  \<^verbatim>\<open>getcmd\<close> reads a line into the cleared buffer of 100 bytes; the shell ends when the first byte is a NUL.
\<close>

definition getcmd :: "byte list \<Rightarrow> byte list option \<times> byte list" where
  "getcmd inp =
     (case gets 100 inp of (line, rest) \<Rightarrow>
      let b = takeWhile (\<lambda>x. x \<noteq> 0) line in (if b = [] then None else Some b, rest))"

lemma gets_loop_rest: "gets_loop k inp = (l, r) \<Longrightarrow> length l + length r = length inp"
  by (induction k inp arbitrary: l r rule: gets_loop.induct) (auto split: if_splits prod.splits)

lemma getcmd_rest: "getcmd inp = (Some b, rest) \<Longrightarrow> length rest < length inp"
  using gets_loop_rest [of 99 inp]
  by (cases "fst (gets_loop 99 inp)") (auto simp: getcmd_def gets_def Let_def split: prod.splits if_splits)

text \<open>The main loop on what the standard input still delivers.\<close>

function main_loop :: "byte list \<Rightarrow> proc" where
  "main_loop inp =
     Sys (Print 2 ''$ '' []) (\<lambda>_.
     case getcmd inp of
       (None, _) \<Rightarrow> Exit
     | (Some b, rest) \<Rightarrow>
         if take 3 b = [99, 100, 32] then
           Sys (Chdir (drop 3 (butlast b))) (\<lambda>r.
           if r < 0 then Sys (Print 2 ''cannot cd %s'' [drop 3 (butlast b)]) (\<lambda>_. main_loop rest)
           else main_loop rest)
         else fork1 (run_line b) (Sys Await (\<lambda>_. main_loop rest)))"
  by pat_completeness auto
termination
  by (relation "measure length") (auto dest!: getcmd_rest [OF sym])

declare main_loop.simps [simp del]

section \<open>Which programs run with which files\<close>

text \<open>
  The open files of a process: the descriptors below 16 with what they stand for.  The kernel gives out the
  lowest free descriptor; \<open>pid\<close> of a child is positive.
\<close>

datatype fobj = Inherited nat | Opened "byte list" uint | PipeRead nat | PipeWrite nat

type_synonym fds = "nat \<Rightarrow> fobj option"

definition free_fd :: "fds \<Rightarrow> nat option" where
  "free_fd t = List.find (\<lambda>i. t i = None) [0..<16]"

definition give_fd :: "fds \<Rightarrow> fobj \<Rightarrow> int \<times> fds" where
  "give_fd t x = (case free_fd t of None \<Rightarrow> (-1, t) | Some i \<Rightarrow> (int i, t(i \<mapsto> x)))"

definition kernel :: "req \<Rightarrow> fds \<Rightarrow> int \<times> fds" where
  "kernel r t =
     (case r of
        Open f md \<Rightarrow> give_fd t (Opened f md)
      | Close i \<Rightarrow> (if 0 \<le> i \<and> i < 16 \<and> t (nat i) \<noteq> None then (0, t(nat i := None)) else (-1, t))
      | Dup i \<Rightarrow> (if 0 \<le> i \<and> i < 16 then (case t (nat i) of Some x \<Rightarrow> give_fd t x | None \<Rightarrow> (-1, t)) else (-1, t))
      | _ \<Rightarrow> (0, t))"

text \<open>
  The programs a process and its children start, each with its arguments and its open files, when every
  program exists, every file can be opened and every fork succeeds.  \<open>n\<close> numbers the pipes.
\<close>

type_synonym started = "(byte list list \<times> fds) list \<times> nat"

primrec starts :: "proc \<Rightarrow> fds \<Rightarrow> nat \<Rightarrow> started" where
  "starts Exit t n = ([], n)"
| "starts (Sys r k) t n =
     (case r of Exec a argv \<Rightarrow> ([(argv, t)], n) | _ \<Rightarrow> starts (k (fst (kernel r t))) (snd (kernel r t)) n)"
| "starts (MkPipe k) t n =
     (case give_fd t (PipeRead n) of (p0, t1) \<Rightarrow>
      case give_fd t1 (PipeWrite n) of (p1, t2) \<Rightarrow>
      if p0 < 0 \<or> p1 < 0 then starts (k (-1) 0 0) t n else starts (k 0 p0 p1) t2 (Suc n))"
| "starts (Fork c k) t n =
     (case starts c t n of (a, n1) \<Rightarrow> case starts (k 1) t n1 of (b, n2) \<Rightarrow> (a @ b, n2))"

lemma free_fd_first: "i < 16 \<Longrightarrow> t i = None \<Longrightarrow> (\<And>j. j < i \<Longrightarrow> t j \<noteq> None) \<Longrightarrow> free_fd t = Some i"
  unfolding free_fd_def by (subst find_Some_iff) (auto intro!: exI [of _ i])

text \<open>A process with the three standard files and no others.\<close>

definition only_std :: "fds \<Rightarrow> bool" where
  "only_std t \<longleftrightarrow> (\<forall>i. t i \<noteq> None \<longleftrightarrow> i < 3)"

lemma only_std_upd: "only_std t \<Longrightarrow> i < 3 \<Longrightarrow> only_std (t(i \<mapsto> x))"
  by (auto simp: only_std_def)

lemma starts_runs:
  "\<lbrakk>\<And>a argv. r \<noteq> Exec a argv; kernel r t = (v, t1)\<rbrakk> \<Longrightarrow> starts (Sys r k) t n = starts (k v) t1 n"
  by (cases r) auto

lemma pipe_starts:
  assumes t: "only_std t"
  shows "starts (runcmd (PIPE l r)) t n =
    (case starts (runcmd l) (t(1 \<mapsto> PipeWrite n)) (Suc n) of (a, n1) \<Rightarrow>
     case starts (runcmd r) (t(0 \<mapsto> PipeRead n)) n1 of (b, n2) \<Rightarrow> (a @ b, n2))"
proof -
  have std: "\<And>i. i < 3 \<Longrightarrow> t i \<noteq> None" "\<And>i. 3 \<le> i \<Longrightarrow> t i = None"
    using t unfolding only_std_def by (metis not_less)+
  let ?t1 = "t(3 \<mapsto> PipeRead n)" and ?t2 = "t(3 \<mapsto> PipeRead n, 4 \<mapsto> PipeWrite n)"
  have p: "give_fd t (PipeRead n) = (3, ?t1)" "give_fd ?t1 (PipeWrite n) = (4, ?t2)"
    using free_fd_first [of 3 t] free_fd_first [of 4 ?t1] std by (auto simp: give_fd_def)
  have close_ends: "kernel (Close 3) (s(3 \<mapsto> PipeRead n, 4 \<mapsto> PipeWrite n)) = (0, s(3 := None, 4 \<mapsto> PipeWrite n))"
    "kernel (Close 4) (s(3 := None, 4 \<mapsto> PipeWrite n)) = (0, s(3 := None, 4 := None))" for s :: fds
    by (auto simp: kernel_def fun_eq_iff)
  have closed: "s(3 := None, 4 := None) = s" if "s 3 = None" "s 4 = None" for s :: fds
    using that by (auto simp: fun_eq_iff)
  have c1: "kernel (Close 1) ?t2 = (0, ?t2(1 := None))" "kernel (Close 0) ?t2 = (0, ?t2(0 := None))"
    using std(1) [of 0] std(1) [of 1] by (auto simp: kernel_def)
  have "free_fd (?t2(1 := None)) = Some 1" by (rule free_fd_first) (use std in auto)
  then have d1: "kernel (Dup 4) (?t2(1 := None)) = (1, (t(1 \<mapsto> PipeWrite n))(3 \<mapsto> PipeRead n, 4 \<mapsto> PipeWrite n))"
    by (simp add: kernel_def give_fd_def fun_eq_iff)
  have "free_fd (?t2(0 := None)) = Some 0" by (rule free_fd_first) (use std in auto)
  then have d0: "kernel (Dup 3) (?t2(0 := None)) = (0, (t(0 \<mapsto> PipeRead n))(3 \<mapsto> PipeRead n, 4 \<mapsto> PipeWrite n))"
    by (simp add: kernel_def give_fd_def fun_eq_iff)
  have b1: "(t(1 \<mapsto> PipeWrite n))(3 := None, 4 := None) = t(1 \<mapsto> PipeWrite n)"
    "(t(0 \<mapsto> PipeRead n))(3 := None, 4 := None) = t(0 \<mapsto> PipeRead n)"
    using std by (auto intro!: closed)
  have left: "starts (Sys (Close 1) (\<lambda>_. Sys (Dup 4) (\<lambda>_. Sys (Close 3) (\<lambda>_. Sys (Close 4) (\<lambda>_. k))))) ?t2 m =
      starts k (t(1 \<mapsto> PipeWrite n)) m" for k m
    by (simp del: starts.simps fun_upd_apply One_nat_def
        add: starts_runs [OF _ c1(1)] starts_runs [OF _ d1] starts_runs [OF _ close_ends(1)] starts_runs [OF _ close_ends(2)] b1)
  have right: "starts (Sys (Close 0) (\<lambda>_. Sys (Dup 3) (\<lambda>_. Sys (Close 3) (\<lambda>_. Sys (Close 4) (\<lambda>_. k))))) ?t2 m =
      starts k (t(0 \<mapsto> PipeRead n)) m" for k m
    by (simp del: starts.simps fun_upd_apply One_nat_def
        add: starts_runs [OF _ c1(2)] starts_runs [OF _ d0] starts_runs [OF _ close_ends(1)] starts_runs [OF _ close_ends(2)] b1)
  have parent: "starts (Sys (Close 3) (\<lambda>_. Sys (Close 4) (\<lambda>_. Sys Await (\<lambda>_. Sys Await (\<lambda>_. Exit))))) ?t2 m = ([], m)" for m
    by simp
  show ?thesis
    by (simp add: p fork1_def left right parent del: starts.simps(2) split: prod.splits)
qed

text \<open>A pipeline of simple commands, and the files its commands run with.\<close>

fun pipeline :: "byte list list list \<Rightarrow> byte list cmd" where
  "pipeline [] = EXEC []"
| "pipeline [a] = EXEC a"
| "pipeline (a # b # as) = PIPE (EXEC a) (pipeline (b # as))"

definition stage :: "byte list list list \<Rightarrow> fds \<Rightarrow> nat \<Rightarrow> nat \<Rightarrow> byte list list \<times> fds" where
  "stage as t n i =
     (as ! i, t(0 := if i = 0 then t 0 else Some (PipeRead (n + i - 1)),
                1 := if Suc i = length as then t 1 else Some (PipeWrite (n + i))))"

lemma pipeline_starts:
  "as \<noteq> [] \<Longrightarrow> \<forall>a\<in>set as. a \<noteq> [] \<Longrightarrow> only_std t \<Longrightarrow>
   starts (runcmd (pipeline as)) t n = (map (stage as t n) [0..<length as], n + length as - 1)"
proof (induction as arbitrary: t n rule: pipeline.induct)
  case (2 a)
  then obtain w ws where "a = w # ws" by (cases a) auto
  then show ?case by (simp add: stage_def fun_eq_iff)
next
  case (3 a b as)
  let ?t = "t(0 \<mapsto> PipeRead n)"
  obtain w ws where a: "a = w # ws" using "3.prems"(2) by (cases a) auto
  have "only_std ?t" by (rule only_std_upd [OF "3.prems"(3)]) simp
  from "3.IH" [OF _ _ this, of "Suc n"] "3.prems"(2)
  have r: "starts (runcmd (pipeline (b # as))) ?t (Suc n) =
      (map (stage (b # as) ?t (Suc n)) [0..<length (b # as)], n + length (b # as))"
    by (simp del: fun_upd_apply upt_Suc)
  have "stage (b # as) ?t (Suc n) i = stage (a # b # as) t n (Suc i)" for i
    by (simp add: stage_def fun_eq_iff)
  then have "map (stage (b # as) ?t (Suc n)) [0..<length (b # as)] =
      map (stage (a # b # as) t n) (map Suc [0..<length (b # as)])" by simp
  moreover have "(a, t(1 \<mapsto> PipeWrite n)) = stage (a # b # as) t n 0" by (simp add: stage_def fun_eq_iff)
  ultimately show ?case
    using r a by (simp add: pipe_starts [OF "3.prems"(3)] map_Suc_upt upt_conv_Cons del: upt_Suc runcmd.simps(4))
qed simp

text \<open>
  Claim C25.  A pipeline written as a line is run as such: the shell starts the commands in their order, the output of
  each is the pipe that is the input of the next, the first and the last have the input and the output of the
  shell, and none of them holds another end of a pipe.
\<close>

theorem shell_runs_pipeline:
  assumes "as \<noteq> []" "\<forall>a\<in>set as. a \<noteq> [] \<and> length a < MAXARGS \<and> (\<forall>w\<in>set a. plain_word w)" "only_std t"
  shows "starts (run_line (cmd_text (pipeline as))) t n = (map (stage as t n) [0..<length as], n + length as - 1)"
proof -
  have "writable (pipeline as)" using assms(2) by (induction as rule: pipeline.induct) (auto simp: MAXARGS_def)
  then have "run_line (cmd_text (pipeline as)) = runcmd (pipeline as)" by (rule run_written)
  then show ?thesis using pipeline_starts [OF assms(1) _ assms(3)] assms(2) by simp
qed

definition std_fds :: fds where
  "std_fds i = (if i < 3 then Some (Inherited i) else None)"

lemma only_std_fds: "only_std std_fds"
  by (simp add: only_std_def std_fds_def)

theorem shell_runs_pipeline_witness:
  "starts (run_line (cmd_text (pipeline [[[97]], [[98]]]))) std_fds 0 =
    ([([[97]], std_fds(1 \<mapsto> PipeWrite 0)), ([[98]], std_fds(0 \<mapsto> PipeRead 0))], 1)"
proof -
  have "\<forall>a\<in>set [[[97]], [[98]]]. a \<noteq> [] \<and> length a < MAXARGS \<and> (\<forall>w\<in>set a. plain_word w)"
    by (simp add: plain_word_def word_char_def whitespace_def symbols_def MAXARGS_def)
  from shell_runs_pipeline [OF _ this only_std_fds, of 0]
  have "starts (run_line (cmd_text (pipeline [[[97]], [[98]]]))) std_fds 0 =
      (map (stage [[[97]], [[98]]] std_fds 0) [0, 1], 1)"
    by (simp add: upt_rec del: pipeline.simps)
  then show ?thesis by (simp add: stage_def fun_eq_iff del: pipeline.simps)
qed

end
