(* ===== verification/Rio.thy ===== *)
theory Rio
  imports Prelude
begin

text \<open>
  The robust I/O package of the web server, \<open>src/p4a/cs537.c\<close>, on the system calls it wraps.  The
  calls are the ones of Unix as the manual documents them, with what the network does as part of
  the state: a descriptor has the list of the things its \<open>read\<close> calls will find (a piece of data
  of any length, an interruption by a signal, an error; nothing more is the end of the file) and
  the list of what its \<open>write\<close> calls will do (take some bytes, be interrupted, fail; after the list
  the descriptor takes everything it is given).
  The lemmas show that the package hides all this: whatever the pieces and the interruptions are,
  a reader gets the bytes of the stream in order and a writer delivers all of its bytes.
\<close>

section \<open>The system calls\<close>

datatype errno = EINTR | Errno nat

datatype arrival = Piece char string | Interrupted | Broken nat

datatype taking = Takes nat | Intr | Fails nat

record net =
  arrives :: "int \<Rightarrow> arrival list"
  takes :: "int \<Rightarrow> taking list"
  sent :: "int \<Rightarrow> string"
  opened :: "int \<Rightarrow> bool"
  errno :: errno

text \<open>
  \<open>read(fd, buf, n)\<close>: the value it returns and the bytes it stores.  A piece longer than \<open>n\<close> is
  delivered in parts.
\<close>

definition unread_rest :: "string \<Rightarrow> arrival list \<Rightarrow> arrival list" where
  "unread_rest s as = (case s of [] \<Rightarrow> as | c # cs \<Rightarrow> Piece c cs # as)"

definition unix_read :: "int \<Rightarrow> nat \<Rightarrow> 'a net_scheme \<Rightarrow> int \<times> string \<times> 'a net_scheme" where
  "unix_read fd n w = (case arrives w fd of
      [] \<Rightarrow> (0, [], w)
    | Interrupted # as \<Rightarrow> (- 1, [], w\<lparr>arrives := (arrives w)(fd := as), errno := EINTR\<rparr>)
    | Broken e # as \<Rightarrow> (- 1, [], w\<lparr>arrives := (arrives w)(fd := as), errno := Errno e\<rparr>)
    | Piece c cs # as \<Rightarrow> let s = take n (c # cs) in
        (int (length s), s, w\<lparr>arrives := (arrives w)(fd := unread_rest (drop n (c # cs)) as)\<rparr>))"

text \<open>\<open>write(fd, s, n)\<close>.  Taking no byte is not an error: \<open>errno\<close> stays what it was.\<close>

definition unix_write :: "int \<Rightarrow> string \<Rightarrow> 'a net_scheme \<Rightarrow> int \<times> 'a net_scheme" where
  "unix_write fd s w = (case takes w fd of
      [] \<Rightarrow> (int (length s), w\<lparr>sent := (sent w)(fd := sent w fd @ s)\<rparr>)
    | Takes k # ts \<Rightarrow> (int (min k (length s)),
        w\<lparr>takes := (takes w)(fd := ts), sent := (sent w)(fd := sent w fd @ take k s)\<rparr>)
    | Intr # ts \<Rightarrow> (- 1, w\<lparr>takes := (takes w)(fd := ts), errno := EINTR\<rparr>)
    | Fails e # ts \<Rightarrow> (- 1, w\<lparr>takes := (takes w)(fd := ts), errno := Errno e\<rparr>))"

definition unix_close :: "int \<Rightarrow> 'a net_scheme \<Rightarrow> int \<times> 'a net_scheme" where
  "unix_close fd w = (if opened w fd then (0, w\<lparr>opened := (opened w)(fd := False)\<rparr>)
    else (- 1, w\<lparr>errno := Errno 9\<rparr>))"

section \<open>Unbuffered transfers\<close>

function rio_readn_loop ::
  "nat \<Rightarrow> int \<Rightarrow> nat \<Rightarrow> string \<Rightarrow> 'a net_scheme \<Rightarrow> int \<times> string \<times> 'a net_scheme" where
  "rio_readn_loop n fd nleft bufp w =
    (if nleft = 0 then (int n - int nleft, bufp, w)
     else (case unix_read fd nleft w of (nread, s, w') \<Rightarrow>
       if nread < 0 then
         (if errno w' = EINTR then rio_readn_loop n fd nleft bufp w' else (- 1, bufp, w'))
       else if nread = 0 then (int n - int nleft, bufp, w')
       else rio_readn_loop n fd (nleft - nat nread) (bufp @ s) w'))"
  by pat_completeness auto
termination
  by (relation "measure (\<lambda>(n, fd, nleft, bufp, w). nleft + length (arrives w fd))")
    (auto simp: unix_read_def Let_def unread_rest_def split: list.splits arrival.splits)

declare rio_readn_loop.simps [simp del]

definition rio_readn :: "int \<Rightarrow> nat \<Rightarrow> 'a net_scheme \<Rightarrow> int \<times> string \<times> 'a net_scheme" where
  "rio_readn fd n w = rio_readn_loop n fd n [] w"

function rio_writen_loop :: "nat \<Rightarrow> int \<Rightarrow> string \<Rightarrow> 'a net_scheme \<Rightarrow> int \<times> 'a net_scheme" where
  "rio_writen_loop n fd bufp w =
    (if bufp = [] then (int n, w)
     else (case unix_write fd bufp w of (nwritten, w') \<Rightarrow>
       if nwritten \<le> 0 then
         (if errno w' = EINTR then rio_writen_loop n fd bufp w' else (- 1, w'))
       else rio_writen_loop n fd (drop (nat nwritten) bufp) w'))"
  by pat_completeness auto
termination
  by (relation "measure (\<lambda>(n, fd, bufp, w). length bufp + length (takes w fd))")
    (auto simp: unix_write_def split: list.splits taking.splits)

declare rio_writen_loop.simps [simp del]

definition rio_writen :: "int \<Rightarrow> string \<Rightarrow> 'a net_scheme \<Rightarrow> int \<times> 'a net_scheme" where
  "rio_writen fd s w = rio_writen_loop (length s) fd s w"


section \<open>Buffered reads\<close>

abbreviation RIO_BUFSIZE :: nat where "RIO_BUFSIZE \<equiv> 8192"

record rio_t =
  rio_fd :: int
  rio_cnt :: int
  rio_bufptr :: nat
  rio_buf :: "nat \<Rightarrow> char"

definition stored :: "string \<Rightarrow> (nat \<Rightarrow> char) \<Rightarrow> nat \<Rightarrow> char" where
  "stored s b = (\<lambda>i. if i < length s then s ! i else b i)"

definition rio_readinitb :: "rio_t \<Rightarrow> int \<Rightarrow> rio_t" where
  "rio_readinitb rp fd = rp\<lparr>rio_fd := fd, rio_cnt := 0, rio_bufptr := 0\<rparr>"

text \<open>
  The loop of \<open>rio_read\<close> that refills the buffer: \<open>Some v\<close> when the routine returns \<open>v\<close> from
  inside it.
\<close>

function rio_refill :: "rio_t \<Rightarrow> 'a net_scheme \<Rightarrow> int option \<times> rio_t \<times> 'a net_scheme" where
  "rio_refill rp w =
    (if rio_cnt rp \<le> 0 then
       (case unix_read (rio_fd rp) RIO_BUFSIZE w of (cnt, s, w') \<Rightarrow>
          let rp' = rp\<lparr>rio_cnt := cnt, rio_buf := stored s (rio_buf rp)\<rparr> in
          if cnt < 0 then
            (if errno w' \<noteq> EINTR then (Some (- 1), rp', w') else rio_refill rp' w')
          else if cnt = 0 then (Some 0, rp', w')
          else rio_refill (rp'\<lparr>rio_bufptr := 0\<rparr>) w')
     else (None, rp, w))"
  by pat_completeness auto
termination
  by (relation "measure (\<lambda>(rp, w). 2 * length (arrives w (rio_fd rp)) +
      (if rio_cnt rp \<le> 0 then 1 else 0))")
    (auto simp: unix_read_def Let_def unread_rest_def split: list.splits arrival.splits)

declare rio_refill.simps [simp del]

definition rio_read ::
  "rio_t \<Rightarrow> nat \<Rightarrow> 'a net_scheme \<Rightarrow> int \<times> string \<times> rio_t \<times> 'a net_scheme" where
  "rio_read rp n w = (case rio_refill rp w of
      (Some v, rp, w) \<Rightarrow> (v, [], rp, w)
    | (None, rp, w) \<Rightarrow>
        let cnt = (if rio_cnt rp < int n then rio_cnt rp else int n) in
        (cnt, map (rio_buf rp) [rio_bufptr rp ..< rio_bufptr rp + nat cnt],
         rp\<lparr>rio_bufptr := rio_bufptr rp + nat cnt, rio_cnt := rio_cnt rp - cnt\<rparr>, w))"

text \<open>
  \<open>rio_readlineb\<close> returns a count and the contents of the buffer it was given, \<open>old\<close> before the
  call: at the end of the file it returns before it has stored the terminator.  Only the bytes up to
  the terminator are shown.
\<close>

fun rio_readline_loop ::
  "nat \<Rightarrow> nat \<Rightarrow> string \<Rightarrow> string \<Rightarrow> rio_t \<Rightarrow> 'a net_scheme \<Rightarrow> int \<times> string \<times> rio_t \<times> 'a net_scheme"
where
  "rio_readline_loop 0 n got old rp w = (int n, got, rp, w)"
| "rio_readline_loop (Suc left) n got old rp w = (case rio_read rp 1 w of (rc, s, rp, w) \<Rightarrow>
    if rc = 1 then
      (if s = [CHR 0x0A] then (int n, got @ s, rp, w)
       else rio_readline_loop left (Suc n) (got @ s) old rp w)
    else if rc = 0 then
      (if n = 1 then (0, old, rp, w) else (int n, got, rp, w))
    else (- 1, got, rp, w))"

definition rio_readlineb ::
  "rio_t \<Rightarrow> string \<Rightarrow> nat \<Rightarrow> 'a net_scheme \<Rightarrow> int \<times> string \<times> rio_t \<times> 'a net_scheme" where
  "rio_readlineb rp old maxlen w = rio_readline_loop (maxlen - 1) 1 [] old rp w"

text \<open>
  \<open>rio_readnb\<close>: \<open>left\<close> bounds the calls of \<open>rio_read\<close>, each of which returns or brings at least
  one byte.
\<close>

function rio_readnb_loop ::
  "nat \<Rightarrow> nat \<Rightarrow> string \<Rightarrow> rio_t \<Rightarrow> 'a net_scheme \<Rightarrow> int \<times> string \<times> rio_t \<times> 'a net_scheme" where
  "rio_readnb_loop n nleft bufp rp w =
    (if nleft = 0 then (int n - int nleft, bufp, rp, w)
     else (case rio_read rp nleft w of (nread, s, rp', w') \<Rightarrow>
       if nread < 0 then
         (if errno w' = EINTR then rio_readnb_loop n nleft bufp rp' w' else (- 1, bufp, rp', w'))
       else if nread = 0 then (int n - int nleft, bufp, rp', w')
       else rio_readnb_loop n (nleft - nat nread) (bufp @ s) rp' w'))"
  by pat_completeness auto

lemma rio_refill_error:
  "rio_refill rp w = (Some v, rp', w') \<Longrightarrow> v = 0 \<or> v = - 1 \<and> errno w' \<noteq> EINTR"
  by (induction rp w rule: rio_refill.induct)
    (subst (asm) rio_refill.simps, auto simp: Let_def split: if_splits prod.splits)

lemma rio_refill_None: "rio_refill rp w = (None, rp', w') \<Longrightarrow> 0 < rio_cnt rp'"
  by (induction rp w rule: rio_refill.induct)
    (subst (asm) rio_refill.simps, auto simp: Let_def split: if_splits prod.splits)

text \<open>The branch of \<open>rio_readnb\<close> for an interrupted call is dead: \<open>rio_read\<close> has retried it.\<close>

lemma rio_read_not_interrupted:
  "rio_read rp n w = (rc, s, rp', w') \<Longrightarrow> rc < 0 \<Longrightarrow> errno w' \<noteq> EINTR"
  by (auto simp: rio_read_def Let_def dest: rio_refill_error rio_refill_None
    split: prod.splits option.splits if_splits)

termination rio_readnb_loop
  by (relation "measure (\<lambda>(n, nleft, bufp, rp, w). nleft)")
    (auto dest: rio_read_not_interrupted [OF sym])

declare rio_readnb_loop.simps [simp del]

definition rio_readnb ::
  "rio_t \<Rightarrow> nat \<Rightarrow> 'a net_scheme \<Rightarrow> int \<times> string \<times> rio_t \<times> 'a net_scheme" where
  "rio_readnb rp n w = rio_readnb_loop n n [] rp w"

section \<open>The wrappers\<close>

text \<open>
  The wrappers leave the program with a message when the call failed; \<open>exit(0)\<close> is the end of the
  whole server.  \<open>Overrun\<close>, \<open>Wild_read\<close> and \<open>Bus_error\<close> are not the code's: they mark the places
  where it leaves an array or the mapped file.
\<close>

datatype stop = Exit string errno | Dns_exit string | Overrun | Wild_read | Bus_error

definition unix_error :: "string \<Rightarrow> 'a net_scheme \<Rightarrow> stop + 'b" where
  "unix_error msg w = Inl (Exit msg (errno w))"

definition Close :: "int \<Rightarrow> 'a net_scheme \<Rightarrow> stop + 'a net_scheme" where
  "Close fd w = (case unix_close fd w of (rc, w) \<Rightarrow>
    if rc < 0 then unix_error ''Close error'' w else Inr w)"

definition Rio_readn :: "int \<Rightarrow> nat \<Rightarrow> 'a net_scheme \<Rightarrow> stop + int \<times> string \<times> 'a net_scheme" where
  "Rio_readn fd n w = (case rio_readn fd n w of (rc, s, w) \<Rightarrow>
    if rc < 0 then unix_error ''Rio_readn error'' w else Inr (rc, s, w))"

definition Rio_writen :: "int \<Rightarrow> string \<Rightarrow> 'a net_scheme \<Rightarrow> stop + 'a net_scheme" where
  "Rio_writen fd s w = (case rio_writen fd s w of (rc, w) \<Rightarrow>
    if rc \<noteq> int (length s) then unix_error ''Rio_writen error'' w else Inr w)"

definition Rio_readnb ::
  "rio_t \<Rightarrow> nat \<Rightarrow> 'a net_scheme \<Rightarrow> stop + int \<times> string \<times> rio_t \<times> 'a net_scheme" where
  "Rio_readnb rp n w = (case rio_readnb rp n w of (rc, s, rp, w) \<Rightarrow>
    if rc < 0 then unix_error ''Rio_readnb error'' w else Inr (rc, s, rp, w))"

definition Rio_readlineb ::
  "rio_t \<Rightarrow> string \<Rightarrow> nat \<Rightarrow> 'a net_scheme \<Rightarrow> stop + int \<times> string \<times> rio_t \<times> 'a net_scheme" where
  "Rio_readlineb rp old maxlen w = (case rio_readlineb rp old maxlen w of (rc, s, rp, w) \<Rightarrow>
    if rc < 0 then unix_error ''Rio_readlineb error'' w else Inr (rc, s, rp, w))"


section \<open>The stream of a descriptor\<close>

fun pend :: "arrival list \<Rightarrow> string" where
  "pend [] = []"
| "pend (Piece c cs # as) = c # cs @ pend as"
| "pend (Interrupted # as) = pend as"
| "pend (Broken e # as) = []"

definition whole :: "arrival list \<Rightarrow> bool" where
  "whole as = list_all (\<lambda>a. case a of Broken e \<Rightarrow> False | _ \<Rightarrow> True) as"

definition stream :: "rio_t \<Rightarrow> 'a net_scheme \<Rightarrow> string" where
  "stream rp w = map (rio_buf rp) [rio_bufptr rp ..< rio_bufptr rp + nat (rio_cnt rp)] @
    pend (arrives w (rio_fd rp))"

text \<open>The calls of one reader change what arrives at its descriptor and \<open>errno\<close>, nothing else.\<close>

definition moved :: "int \<Rightarrow> 'a net_scheme \<Rightarrow> 'a net_scheme \<Rightarrow> bool" where
  "moved fd w w' \<longleftrightarrow> (\<exists>a e. w' = w\<lparr>arrives := (arrives w)(fd := a), errno := e\<rparr>)"

lemma moved_refl [simp]: "moved fd w w"
  unfolding moved_def by (rule exI [of _ "arrives w fd"], rule exI [of _ "errno w"]) simp

lemma moved_upd [simp]:
  "moved fd w (w\<lparr>arrives := (arrives w)(fd := a), errno := e\<rparr>)"
  "moved fd w (w\<lparr>arrives := (arrives w)(fd := a)\<rparr>)"
  unfolding moved_def by (blast, rule exI [of _ a], rule exI [of _ "errno w"]) simp

lemma moved_trans [trans]:
  assumes "moved fd w w'" and "moved fd w' w''"
  shows "moved fd w w''"
proof -
  from assms(1) obtain a e where "w' = w\<lparr>arrives := (arrives w)(fd := a), errno := e\<rparr>"
    by (auto simp: moved_def)
  moreover from assms(2) obtain b d where "w'' = w'\<lparr>arrives := (arrives w')(fd := b), errno := d\<rparr>"
    by (auto simp: moved_def)
  ultimately have "w'' = w\<lparr>arrives := (arrives w)(fd := b), errno := d\<rparr>" by simp
  then show ?thesis by simp
qed

lemma moved_sel:
  "moved fd w w' \<Longrightarrow> sent w' = sent w" "moved fd w w' \<Longrightarrow> takes w' = takes w"
  "moved fd w w' \<Longrightarrow> opened w' = opened w" "moved fd w w' \<Longrightarrow> net.more w' = net.more w"
  by (auto simp: moved_def)

lemma whole_simps [simp]:
  "whole []" "whole (Piece c cs # as) = whole as" "whole (Interrupted # as) = whole as"
  "\<not> whole (Broken e # as)"
  by (auto simp: whole_def)

lemma pend_unread [simp]:
  "pend (unread_rest s as) = s @ pend as" "whole (unread_rest s as) = whole as"
  by (auto simp: unread_rest_def split: list.splits)

lemma unix_read_stream:
  assumes "unix_read fd n w = (k, s, w')" and "whole (arrives w fd)" and "0 < n"
  shows "moved fd w w'" and "whole (arrives w' fd)"
    and "pend (arrives w fd) = s @ pend (arrives w' fd)"
    and "k < 0 \<Longrightarrow> s = [] \<and> errno w' = EINTR"
    and "0 \<le> k \<Longrightarrow> k = int (length s) \<and> length s \<le> n"
    and "k = 0 \<Longrightarrow> pend (arrives w fd) = []"
proof -
  have k: "arrives w fd = [] \<and> k = 0 \<and> s = [] \<and> w' = w \<or>
      (\<exists>as. arrives w fd = Interrupted # as \<and> k = - 1 \<and> s = [] \<and>
        w' = w\<lparr>arrives := (arrives w)(fd := as), errno := EINTR\<rparr>) \<or>
      (\<exists>c cs as. arrives w fd = Piece c cs # as \<and> s = take n (c # cs) \<and> k = int (length s) \<and>
        w' = w\<lparr>arrives := (arrives w)(fd := unread_rest (drop n (c # cs)) as)\<rparr>)"
    using assms(1,2) by (auto simp: unix_read_def Let_def split: list.splits arrival.splits)
  have n: "take n (c # cs) @ drop n (c # cs) = c # cs" "take n (c # cs) \<noteq> []" for c and cs :: string
    using assms(3) by simp_all
  show "moved fd w w'" using k by (elim disjE exE conjE) simp_all
  show "whole (arrives w' fd)" using k assms(2) by (elim disjE exE conjE) simp_all
  show "pend (arrives w fd) = s @ pend (arrives w' fd)"
    using k n by (elim disjE exE conjE) (simp_all del: take_Suc_Cons drop_Suc_Cons flip: append_assoc)
  show "k < 0 \<Longrightarrow> s = [] \<and> errno w' = EINTR" "0 \<le> k \<Longrightarrow> k = int (length s) \<and> length s \<le> n"
    "k = 0 \<Longrightarrow> pend (arrives w fd) = []"
    using k n by auto
qed


lemma moved_arrives: "moved fd w w' \<Longrightarrow> fd' \<noteq> fd \<Longrightarrow> arrives w' fd' = arrives w fd'"
  by (auto simp: moved_def)

lemma stored_read: "map (stored s b) [0 ..< length s] = s"
  by (simp add: stored_def map_upt_eqI)

lemma rio_refill_stream:
  assumes "rio_refill rp w = (v, rp', w')" and "whole (arrives w (rio_fd rp))"
  shows "moved (rio_fd rp) w w' \<and> rio_fd rp' = rio_fd rp \<and> whole (arrives w' (rio_fd rp)) \<and>
    stream rp' w' = stream rp w \<and>
    (if stream rp w = [] then v = Some 0 else v = None \<and> 0 < rio_cnt rp')"
  using assms
proof (induction rp w rule: rio_refill.induct)
  case (1 rp w)
  show ?case
  proof (cases "rio_cnt rp \<le> 0")
    case False
    with 1 show ?thesis by (simp add: rio_refill.simps [of rp] stream_def)
  next
    case True
    obtain k s w1 where r: "unix_read (rio_fd rp) RIO_BUFSIZE w = (k, s, w1)"
      by (cases "unix_read (rio_fd rp) RIO_BUFSIZE w")
    note st = unix_read_stream [OF r "1.prems"(2)]
    let ?rp = "rp\<lparr>rio_cnt := k, rio_buf := stored s (rio_buf rp)\<rparr>"
    have now: "stream rp w = pend (arrives w (rio_fd rp))" using True by (simp add: stream_def)
    consider (intr) "k < 0" "errno w1 = EINTR" "s = []" | (eof) "k = 0" "s = []" | (got) "0 < k"
      using st(4,5) by fastforce
    then show ?thesis
    proof cases
      case intr
      have eq: "rio_refill ?rp w1 = (v, rp', w')"
        using "1.prems"(1) True r intr by (simp add: rio_refill.simps [of rp])
      have "stream ?rp w1 = stream rp w" using intr st(3) now by (simp add: stream_def)
      with "1.IH"(1) [OF True r [symmetric] refl refl _ _ eq] intr st(1,2)
      show ?thesis by (auto intro: moved_trans)
    next
      case eof
      then have "v = Some 0" "rp' = ?rp" "w' = w1"
        using "1.prems"(1) True r by (simp_all add: rio_refill.simps [of rp])
      with st eof now show ?thesis by (simp add: stream_def)
    next
      case got
      have eq: "rio_refill (?rp\<lparr>rio_bufptr := 0\<rparr>) w1 = (v, rp', w')"
        using "1.prems"(1) True r got by (simp add: rio_refill.simps [of rp])
      have len: "nat k = length s" using st(5) got by simp
      have "stream (?rp\<lparr>rio_bufptr := 0\<rparr>) w1 = stream rp w"
        using st(3) now len stored_read [of s "rio_buf rp"] by (simp add: stream_def)
      with "1.IH"(2) [OF True r [symmetric] refl refl _ _ eq] got st(1,2)
      show ?thesis by (auto intro: moved_trans)
    qed
  qed
qed

lemma rio_read_stream:
  assumes "rio_read rp n w = (rc, s, rp', w')" and "whole (arrives w (rio_fd rp))" and "0 < n"
  shows "moved (rio_fd rp) w w'" and "rio_fd rp' = rio_fd rp"
    and "whole (arrives w' (rio_fd rp'))" and "stream rp w = s @ stream rp' w'"
    and "rc = int (length s)" and "length s \<le> n" and "s = [] \<Longrightarrow> stream rp w = []"
proof -
  obtain v rp1 w1 where r: "rio_refill rp w = (v, rp1, w1)" by (cases "rio_refill rp w")
  note f = rio_refill_stream [OF r assms(2)]
  have "moved (rio_fd rp) w w' \<and> rio_fd rp' = rio_fd rp \<and> whole (arrives w' (rio_fd rp')) \<and>
    stream rp w = s @ stream rp' w' \<and> rc = int (length s) \<and> length s \<le> n \<and>
    (s = [] \<longrightarrow> stream rp w = [])"
  proof (cases v)
    case (Some x)
    then show ?thesis using assms(1) r f by (auto simp: rio_read_def split: if_splits)
  next
    case None
    define m where "m = nat (rio_cnt rp1)"
    define j where "j = min n m"
    have jm: "j \<le> m" "j \<le> n" and mn: "(if rio_cnt rp1 < int n then rio_cnt rp1 else int n) = int j"
      "rio_cnt rp1 = int m" and j: "0 < j"
      using f None assms(3) by (auto simp: m_def j_def split: if_splits)
    have s: "rc = int j" "s = map (rio_buf rp1) [rio_bufptr rp1 ..< rio_bufptr rp1 + j]" "w' = w1"
      "rp' = rp1\<lparr>rio_bufptr := rio_bufptr rp1 + j, rio_cnt := int (m - j)\<rparr>"
      using assms(1) r None jm mn by (auto simp: rio_read_def Let_def of_nat_diff)
    have "[rio_bufptr rp1 ..< rio_bufptr rp1 + m] = [rio_bufptr rp1 ..< rio_bufptr rp1 + j] @
        [rio_bufptr rp1 + j ..< rio_bufptr rp1 + j + (m - j)]"
      using jm upt_add_eq_append [of "rio_bufptr rp1" "rio_bufptr rp1 + j" "m - j"] by simp
    then have "stream rp1 w1 = s @ stream rp' w'" by (simp add: stream_def s m_def)
    with f None s jm j r show ?thesis by auto
  qed
  then show "moved (rio_fd rp) w w'" "rio_fd rp' = rio_fd rp"
    "whole (arrives w' (rio_fd rp'))" "stream rp w = s @ stream rp' w'"
    "rc = int (length s)" "length s \<le> n" "s = [] \<Longrightarrow> stream rp w = []"
    by blast+
qed


section \<open>Lines, blocks and replies\<close>

text \<open>The next line of a stream, cut after \<open>m\<close> bytes.\<close>

fun next_line :: "nat \<Rightarrow> string \<Rightarrow> string" where
  "next_line 0 s = []"
| "next_line (Suc m) [] = []"
| "next_line (Suc m) (c # cs) = (if c = CHR 0x0A then [c] else c # next_line m cs)"

lemma next_line_all: "length s \<le> m \<Longrightarrow> CHR 0x0A \<notin> set s \<Longrightarrow> next_line m s = s"
  by (induction m s rule: next_line.induct) auto

lemma next_line_feed:
  "length s < m \<Longrightarrow> CHR 0x0A \<notin> set s \<Longrightarrow> next_line m (s @ CHR 0x0A # r) = s @ [CHR 0x0A]"
  by (induction m s rule: next_line.induct) auto

lemma rio_readline_stream:
  assumes "rio_readline_loop left n got old rp w = (rc, s, rp', w')"
    and "whole (arrives w (rio_fd rp))" and "0 < n"
  shows "moved (rio_fd rp) w w' \<and> rio_fd rp' = rio_fd rp \<and> whole (arrives w' (rio_fd rp)) \<and>
    (let l = next_line left (stream rp w) in stream rp w = l @ stream rp' w' \<and>
      (if l = [] \<and> left \<noteq> 0 \<and> n = 1 then rc = 0 \<and> s = old
       else rc = int (n + length l) - (if l \<noteq> [] \<and> last l = CHR 0x0A then 1 else 0) \<and>
         s = got @ l))"
  using assms
proof (induction left n got old rp w rule: rio_readline_loop.induct)
  case (2 left n got old rp w)
  obtain k t rp1 w1 where r: "rio_read rp 1 w = (k, t, rp1, w1)"
    by (cases "rio_read rp 1 w") auto
  note st = rio_read_stream [OF r "2.prems"(2) zero_less_one]
  show ?case
  proof (cases "t = []")
    case True
    with 2 r st show ?thesis by (auto split: if_splits)
  next
    case False
    with st(6) obtain c where t: "t = [c]" by (cases t) auto
    with st have k: "k = 1" "stream rp w = c # stream rp1 w1" by simp_all
    show ?thesis
    proof (cases "c = CHR 0x0A")
      case True
      with 2 r st k t show ?thesis by auto
    next
      case go: False
      have eq: "rio_readline_loop left (Suc n) (got @ t) old rp1 w1 = (rc, s, rp', w')"
        using "2.prems"(1) r k t go by simp
      show ?thesis
        using "2.IH" [OF r [symmetric] refl refl] k t go eq st "2.prems"(3)
        by (auto simp: Let_def intro: moved_trans)
    qed
  qed
qed (auto simp: Let_def)

text \<open>
  Claim C32.  A line is read whole from whatever pieces the network delivers it in: for a connection
  that does not fail, \<open>rio_readlineb\<close> removes from the stream exactly the bytes up to and including
  the next line feed, at most \<open>maxlen - 1\<close> of them, and stores them; interruptions are not seen.
  The count it returns is right for a line that ends with a line feed and one too large for any
  other; at the end of the stream it returns \<open>0\<close> and leaves the buffer as it was.
\<close>

theorem readline_ignores_pieces:
  assumes "rio_readlineb rp old maxlen w = (rc, s, rp', w')"
    and "whole (arrives w (rio_fd rp))" and "1 < maxlen"
  defines "l \<equiv> next_line (maxlen - 1) (stream rp w)"
  shows "stream rp w = l @ stream rp' w' \<and>
    (if l = [] then rc = 0 \<and> s = old
     else s = l \<and> rc = int (length l) + (if last l = CHR 0x0A then 0 else 1)) \<and>
    moved (rio_fd rp) w w'"
  using rio_readline_stream [OF assms(1) [unfolded rio_readlineb_def] assms(2)] assms(3)
  by (auto simp: Let_def l_def)

lemma rio_readnb_stream:
  assumes "rio_readnb_loop n nleft got rp w = (rc, s, rp', w')"
    and "whole (arrives w (rio_fd rp))"
  shows "moved (rio_fd rp) w w' \<and> stream rp w = take nleft (stream rp w) @ stream rp' w' \<and>
    s = got @ take nleft (stream rp w) \<and>
    rc = int n - int nleft + int (length (take nleft (stream rp w)))"
  using assms
proof (induction n nleft got rp w rule: rio_readnb_loop.induct)
  case (1 n nleft got rp w)
  show ?case
  proof (cases "nleft = 0")
    case True
    with 1 show ?thesis by (simp add: rio_readnb_loop.simps [of _ 0])
  next
    case False
    obtain k t rp1 w1 where r: "rio_read rp nleft w = (k, t, rp1, w1)"
      by (cases "rio_read rp nleft w") auto
    from False have pos: "0 < nleft" by simp
    note st = rio_read_stream [OF r "1.prems"(2) pos]
    show ?thesis
    proof (cases "t = []")
      case True
      with 1 r st False show ?thesis by (auto simp: rio_readnb_loop.simps [of _ nleft])
    next
      case more: False
      have eq: "rio_readnb_loop n (nleft - length t) (got @ t) rp1 w1 = (rc, s, rp', w')"
        using "1.prems"(1) r st(5) more False by (simp add: rio_readnb_loop.simps [of _ nleft])
      have "take nleft (stream rp w) = t @ take (nleft - length t) (stream rp1 w1)"
        using st(4,6) by simp
      moreover have "moved (rio_fd rp) w w' \<and>
          stream rp1 w1 = take (nleft - length t) (stream rp1 w1) @ stream rp' w' \<and>
          s = (got @ t) @ take (nleft - length t) (stream rp1 w1) \<and>
          rc = int n - int (nleft - length t) + int (length (take (nleft - length t) (stream rp1 w1)))"
        using "1.IH"(2) [OF False r [symmetric] refl refl] eq st more
        by (auto intro: moved_trans)
      ultimately show ?thesis using st(4,6) by auto
    qed
  qed
qed


lemma rio_readn_stream:
  assumes "rio_readn_loop n fd nleft got w = (rc, s, w')" and "whole (arrives w fd)"
  shows "moved fd w w' \<and> pend (arrives w fd) = take nleft (pend (arrives w fd)) @ pend (arrives w' fd) \<and>
    s = got @ take nleft (pend (arrives w fd)) \<and>
    rc = int n - int nleft + int (length (take nleft (pend (arrives w fd))))"
  using assms
proof (induction n fd nleft got w rule: rio_readn_loop.induct)
  case (1 n fd nleft got w)
  show ?case
  proof (cases "nleft = 0")
    case True
    with 1 show ?thesis by (simp add: rio_readn_loop.simps [of _ _ 0])
  next
    case False
    obtain k t w1 where r: "unix_read fd nleft w = (k, t, w1)" by (cases "unix_read fd nleft w") auto
    from False have pos: "0 < nleft" by simp
    note st = unix_read_stream [OF r "1.prems"(2) pos]
    consider (intr) "k < 0" "errno w1 = EINTR" "t = []" | (eof) "k = 0" "t = []"
      | (got) "0 < k" "k = int (length t)" "length t \<le> nleft"
      using st(4,5) by fastforce
    then show ?thesis
    proof cases
      case intr
      have eq: "rio_readn_loop n fd nleft got w1 = (rc, s, w')"
        using "1.prems"(1) r intr False by (simp add: rio_readn_loop.simps [of _ _ nleft])
      show ?thesis using "1.IH"(1) [OF False r [symmetric] refl intr(1,2) eq st(2)] intr st(1,3)
        by (auto intro: moved_trans)
    next
      case eof
      with 1 r st False show ?thesis by (auto simp: rio_readn_loop.simps [of _ _ nleft])
    next
      case more: got
      have eq: "rio_readn_loop n fd (nleft - nat k) (got @ t) w1 = (rc, s, w')"
        using "1.prems"(1) r more False by (simp add: rio_readn_loop.simps [of _ _ nleft])
      have *: "\<not> k < 0" "k \<noteq> 0" using more by simp_all
      have "take nleft (pend (arrives w fd)) = t @ take (nleft - length t) (pend (arrives w1 fd))"
        using st(3) more by simp
      with "1.IH"(2) [OF False r [symmetric] refl * eq st(2)] more st(1,3) show ?thesis
        by (auto intro: moved_trans)
    qed
  qed
qed

text \<open>
  The buffered and the unbuffered reader agree: on a connection that does not fail, both
  return the next \<open>n\<close> bytes of the stream (fewer only at its end) with their number.
\<close>

theorem buffered_read_equals_unbuffered:
  assumes "whole (arrives w fd)"
  shows "\<exists>rp' w1 w2. rio_readnb (rio_readinitb rp fd) n w =
      (int (min n (length (pend (arrives w fd)))), take n (pend (arrives w fd)), rp', w1) \<and>
    rio_readn fd n w =
      (int (min n (length (pend (arrives w fd)))), take n (pend (arrives w fd)), w2) \<and>
    stream rp' w1 = pend (arrives w2 fd) \<and> moved fd w w1 \<and> moved fd w w2"
proof -
  obtain rc s rp' w1 where b: "rio_readnb (rio_readinitb rp fd) n w = (rc, s, rp', w1)"
    by (cases "rio_readnb (rio_readinitb rp fd) n w") auto
  obtain rc' s' w2 where u: "rio_readn fd n w = (rc', s', w2)" by (cases "rio_readn fd n w") auto
  let ?p = "pend (arrives w fd)"
  have tail: "q = drop n p" if "p = take n p @ q" for p q :: string
    using that by (metis append_take_drop_id same_append_eq)
  have start: "stream (rio_readinitb rp fd) w = ?p" "rio_fd (rio_readinitb rp fd) = fd"
    by (simp_all add: rio_readinitb_def stream_def)
  note B = rio_readnb_stream [OF b [unfolded rio_readnb_def], unfolded start, OF assms]
  note U = rio_readn_stream [OF u [unfolded rio_readn_def] assms]
  have B': "s = [] @ take n ?p" "rc = int n - int n + int (length (take n ?p))"
    "?p = take n ?p @ stream rp' w1" "moved fd w w1"
    by (rule B [THEN conjunct2, THEN conjunct2, THEN conjunct1]
      B [THEN conjunct2, THEN conjunct2, THEN conjunct2] B [THEN conjunct2, THEN conjunct1]
      B [THEN conjunct1])+
  have U': "s' = [] @ take n ?p" "rc' = int n - int n + int (length (take n ?p))"
    "?p = take n ?p @ pend (arrives w2 fd)" "moved fd w w2"
    by (rule U [THEN conjunct2, THEN conjunct2, THEN conjunct1]
      U [THEN conjunct2, THEN conjunct2, THEN conjunct2] U [THEN conjunct2, THEN conjunct1]
      U [THEN conjunct1])+
  have "stream rp' w1 = drop n ?p" "pend (arrives w2 fd) = drop n ?p"
    by (rule tail [OF B'(3)], rule tail [OF U'(3)])
  moreover have "s = take n ?p" "rc = int (min n (length ?p))" "s' = take n ?p"
    "rc' = int (min n (length ?p))"
    using B'(1,2) U'(1,2) by (simp_all add: min.commute)
  moreover note B'(4) U'(4)
  ultimately show ?thesis using b u by simp
qed

text \<open>A descriptor that takes all it is given in the end, in whatever portions.\<close>

definition willing :: "taking list \<Rightarrow> bool" where
  "willing ts = list_all (\<lambda>t. case t of Takes k \<Rightarrow> 0 < k | Intr \<Rightarrow> True | Fails e \<Rightarrow> False) ts"

lemma willing_simps [simp]:
  "willing []" "willing (Takes k # ts) \<longleftrightarrow> 0 < k \<and> willing ts" "willing (Intr # ts) = willing ts"
  "\<not> willing (Fails e # ts)"
  by (simp_all add: willing_def)

lemma rio_writen_stream:
  assumes "rio_writen_loop n fd s w = (rc, w')" and "willing (takes w fd)"
  shows "rc = int n \<and> sent w' = (sent w)(fd := sent w fd @ s) \<and> willing (takes w' fd) \<and>
    (\<forall>x. x \<noteq> fd \<longrightarrow> takes w' x = takes w x) \<and>
    arrives w' = arrives w \<and> opened w' = opened w \<and> net.more w' = net.more w"
  using assms
proof (induction n fd s w rule: rio_writen_loop.induct)
  case (1 n fd s w)
  show ?case
  proof (cases "s = []")
    case True
    with "1.prems" show ?thesis by (simp add: rio_writen_loop.simps [of _ _ "[]"])
  next
    case False
    obtain k w1 where r: "unix_write fd s w = (k, w1)" by (cases "unix_write fd s w")
    consider (intr) "k < 0" "errno w1 = EINTR" "sent w1 = sent w"
      | (got) "0 < k" "sent w1 = (sent w)(fd := sent w fd @ take (nat k) s)"
      using r "1.prems"(2) False
      by (auto simp: unix_write_def min_def split: list.splits taking.splits if_splits)
    moreover have w1: "willing (takes w1 fd)" "\<forall>x. x \<noteq> fd \<longrightarrow> takes w1 x = takes w x"
      "arrives w1 = arrives w" "opened w1 = opened w" "net.more w1 = net.more w"
      using r "1.prems"(2) by (auto simp: unix_write_def split: list.splits taking.splits)
    ultimately show ?thesis
    proof cases
      case intr
      then have le: "k \<le> 0" by simp
      have eq: "rio_writen_loop n fd s w1 = (rc, w')"
        using "1.prems"(1) r intr False by (simp add: rio_writen_loop.simps [of _ _ s])
      show ?thesis using "1.IH"(1) [OF False r [symmetric] le intr(2) eq w1(1)] intr(3) w1(2-) by simp
    next
      case got
      then have gt: "\<not> k \<le> 0" by simp
      have eq: "rio_writen_loop n fd (drop (nat k) s) w1 = (rc, w')"
        using "1.prems"(1) r got False by (simp add: rio_writen_loop.simps [of _ _ s])
      show ?thesis using "1.IH"(2) [OF False r [symmetric] gt eq w1(1)] got(2) w1(2-) by (simp add: fun_eq_iff)
    qed
  qed
qed

lemma Rio_writen_sends:
  assumes "willing (takes w fd)"
  obtains w' where "Rio_writen fd s w = Inr w'" and "sent w' = (sent w)(fd := sent w fd @ s)"
    and "willing (takes w' fd)" and "\<forall>x. x \<noteq> fd \<longrightarrow> takes w' x = takes w x"
    and "arrives w' = arrives w" and "opened w' = opened w" and "net.more w' = net.more w"
proof -
  obtain rc w' where r: "rio_writen fd s w = (rc, w')" by (cases "rio_writen fd s w")
  from rio_writen_stream [OF r [unfolded rio_writen_def] assms] r that [of w'] show thesis
    by (simp add: Rio_writen_def)
qed


section \<open>Concrete connections\<close>

definition some_net :: "arrival list \<Rightarrow> taking list \<Rightarrow> net" where
  "some_net as ts = \<lparr>arrives = (\<lambda>_. as), takes = (\<lambda>_. ts), sent = (\<lambda>_. []), opened = (\<lambda>_. True),
    errno = Errno 0\<rparr>"

definition fresh_rio :: "int \<Rightarrow> rio_t" where
  "fresh_rio fd = rio_readinitb \<lparr>rio_fd = 0, rio_cnt = 7, rio_bufptr = 3, rio_buf = (\<lambda>_. CHR ''?'')\<rparr> fd"

text \<open>A request line that comes in three pieces with a signal in between, cut off before its end.\<close>

lemma readline_ignores_pieces_witness:
  "\<exists>rc s rp' w'. rio_readlineb (fresh_rio 5) ''old'' 8192
      (some_net [Piece CHR ''G'' ''E'', Interrupted, Piece CHR ''T'' '' /'', Piece CHR ''a'' ''''] []) =
      (rc, s, rp', w') \<and> s = ''GET /a'' \<and> rc = 7"
proof -
  let ?w = "some_net [Piece CHR ''G'' ''E'', Interrupted, Piece CHR ''T'' '' /'', Piece CHR ''a'' ''''] []"
  obtain rc s rp' w' where r: "rio_readlineb (fresh_rio 5) ''old'' 8192 ?w = (rc, s, rp', w')"
    by (cases "rio_readlineb (fresh_rio 5) ''old'' 8192 ?w") auto
  have fd: "rio_fd (fresh_rio 5) = 5" "stream (fresh_rio 5) ?w = ''GET /a''"
    by (simp_all add: fresh_rio_def rio_readinitb_def stream_def some_net_def)
  have "next_line (8192 - 1) ''GET /a'' = ''GET /a''" by (rule next_line_all) simp_all
  with readline_ignores_pieces [OF r] fd have "s = ''GET /a'' \<and> rc = 7" by (simp add: some_net_def)
  with r show ?thesis by blast
qed

lemma buffered_read_equals_unbuffered_witness:
  "\<exists>rp' w1 w2. rio_readnb (fresh_rio 5) 3
      (some_net [Piece CHR ''a'' '''', Interrupted, Piece CHR ''b'' ''cd''] []) = (3, ''abc'', rp', w1) \<and>
    rio_readn 5 3 (some_net [Piece CHR ''a'' '''', Interrupted, Piece CHR ''b'' ''cd''] []) =
      (3, ''abc'', w2)"
  using buffered_read_equals_unbuffered
    [of "some_net [Piece CHR ''a'' '''', Interrupted, Piece CHR ''b'' ''cd''] []" 5
      "\<lparr>rio_fd = 0, rio_cnt = 7, rio_bufptr = 3, rio_buf = (\<lambda>_. CHR ''?'')\<rparr>" 3]
  by (auto simp: some_net_def fresh_rio_def)

end
