(* ===== verification/Request.thy ===== *)
theory Request
  imports Rio
begin

text \<open>
  The request handling of the web server, \<open>src/p4a/request.c\<close>: reading a request, mapping its URI
  to a file, and the replies.  A \<open>char\<close> array that holds a C string is the string of its bytes
  before the terminator; writing one goes through \<open>into\<close>, which leaves the program at the point
  where the code would write past the array.  The locals that the code reads before it sets them
  are a parameter (\<open>stack\<close>).  The file system is a part of the state, what a CGI program sends is a
  function of its name and its query string.
\<close>

section \<open>Strings\<close>

abbreviation MAXLINE :: nat where "MAXLINE \<equiv> 8192"
abbreviation MAXBUF :: nat where "MAXBUF \<equiv> 8192"

definition crlf :: string where "crlf = [CHR 0x0D, CHR 0x0A]"

definition c_string :: "string \<Rightarrow> string" where
  "c_string s = takeWhile (\<lambda>c. c \<noteq> CHR 0x00) s"

definition into :: "nat \<Rightarrow> string \<Rightarrow> stop + string" where
  "into cap s = (if length s < cap then Inr s else Inl Overrun)"

fun strstr :: "string \<Rightarrow> string \<Rightarrow> bool" where
  "strstr [] p = (p = [])"
| "strstr (c # cs) p = (take (length p) (c # cs) = p \<or> strstr cs p)"

fun dec_text :: "nat \<Rightarrow> string" where
  "dec_text n = (if n < 10 then [char_of (48 + n)] else dec_text (n div 10) @ [char_of (48 + n mod 10)])"

declare dec_text.simps [simp del]

definition show_int :: "int \<Rightarrow> string" where
  "show_int i = (if i < 0 then CHR ''-'' # dec_text (nat (- i)) else dec_text (nat i))"

definition to_lower :: "char \<Rightarrow> char" where
  "to_lower c = (if 65 \<le> (of_char c :: nat) \<and> (of_char c :: nat) \<le> 90
    then char_of (of_char c + 32 :: nat) else c)"

definition strcasecmp_eq :: "string \<Rightarrow> string \<Rightarrow> bool" where
  "strcasecmp_eq s t = (map to_lower s = map to_lower t)"

text \<open>\<open>sscanf(buf, "%s %s %s", a, b, c)\<close>: a word that is not there leaves its array alone.\<close>

definition is_space :: "char \<Rightarrow> bool" where
  "is_space c = (c \<in> {CHR '' '', CHR 0x09, CHR 0x0A, CHR 0x0B, CHR 0x0C, CHR 0x0D})"

definition scan_word :: "string \<Rightarrow> string \<times> string" where
  "scan_word s = (let s = dropWhile is_space s in
    (takeWhile (\<lambda>c. \<not> is_space c) s, dropWhile (\<lambda>c. \<not> is_space c) s))"

definition sscanf3 :: "string \<Rightarrow> string \<times> string \<times> string \<Rightarrow> string \<times> string \<times> string" where
  "sscanf3 buf old = (case old of (a0, b0, c0) \<Rightarrow>
    let (a, s) = scan_word buf; (b, s) = scan_word s; (c, s) = scan_word s in
    (if a = [] then a0 else a, if b = [] then b0 else b, if c = [] then c0 else c))"

section \<open>The server's world\<close>

record file_obj =
  f_mode :: "32 word"
  f_bytes :: string

record web = net +
  files :: "string \<Rightarrow> file_obj option"
  may_open :: "string \<Rightarrow> bool"
  cgi_out :: "string \<Rightarrow> string \<Rightarrow> string"
  stdout :: string

record stat_t =
  st_mode :: "32 word"
  st_size :: int

record request_complex =
  rc_fd :: int
  filesize :: int
  is_static :: int
  sbuf :: stat_t
  filename :: string
  cgiargs :: string

definition S_ISREG :: "32 word \<Rightarrow> bool" where
  "S_ISREG m = (and m 0xF000 = 0x8000)"

abbreviation S_IRUSR :: "32 word" where "S_IRUSR \<equiv> 0x100"
abbreviation S_IXUSR :: "32 word" where "S_IXUSR \<equiv> 0x40"

text \<open>The value an \<open>off_t\<close> has after it is stored in an \<open>int\<close>.\<close>

definition to_int :: "int \<Rightarrow> int" where
  "to_int i = sint (word_of_int i :: 32 word)"

definition sys_stat :: "string \<Rightarrow> web \<Rightarrow> stat_t option" where
  "sys_stat name w = map_option (\<lambda>f. \<lparr>st_mode = f_mode f, st_size = int (length (f_bytes f))\<rparr>)
    (files w name)"

text \<open>A new descriptor is the smallest free one; a process has 1024 of them.\<close>

definition least_fd :: "web \<Rightarrow> int option" where
  "least_fd w = find (\<lambda>i. \<not> opened w i) (map int [0 ..< 1024])"

definition Open :: "string \<Rightarrow> web \<Rightarrow> stop + int \<times> web" where
  "Open name w = (case least_fd w of
      None \<Rightarrow> unix_error ''Open error'' (w\<lparr>errno := Errno 24\<rparr>)
    | Some fd \<Rightarrow> if files w name = None then unix_error ''Open error'' (w\<lparr>errno := Errno 2\<rparr>)
        else if \<not> may_open w name then unix_error ''Open error'' (w\<lparr>errno := Errno 13\<rparr>)
        else Inr (fd, w\<lparr>opened := (opened w)(fd := True)\<rparr>))"

text \<open>
  \<open>Mmap\<close> of the first \<open>n\<close> bytes of a file: a length of \<open>0\<close> is refused, and so is a negative one,
  a length near \<open>2\<^sup>6\<^sup>4\<close>.  The rest of the file's last page reads as zeros, a page after it as a bus
  error.
\<close>

definition Mmap :: "int \<Rightarrow> string \<Rightarrow> web \<Rightarrow> stop + string" where
  "Mmap n bytes w =
    (if n \<le> 0 then unix_error ''mmap error'' (w\<lparr>errno := Errno (if n = 0 then 22 else 12)\<rparr>)
     else let top = (length bytes + 4095) div 4096 * 4096 in
       if nat n \<le> top then Inr (take (nat n) (bytes @ replicate (top - length bytes) (CHR 0x00)))
       else Inl Bus_error)"

definition print_out :: "string \<Rightarrow> web \<Rightarrow> web" where
  "print_out s w = w\<lparr>stdout := stdout w @ s\<rparr>"

definition send_line :: "int \<Rightarrow> string \<Rightarrow> web \<Rightarrow> stop + web" where
  "send_line fd buf w = bindR (Rio_writen fd buf w) (\<lambda>w. Inr (print_out buf w))"

section \<open>The replies\<close>

definition requestError ::
  "int \<Rightarrow> string \<Rightarrow> string \<Rightarrow> string \<Rightarrow> string \<Rightarrow> web \<Rightarrow> stop + web" where
  "requestError fd cause errnum shortmsg longmsg w =
    bindR (into MAXBUF ''<html><title>CS537 Error</title>'') (\<lambda>body.
    bindR (into MAXBUF (body @ ''<body bgcolor=fffff>'' @ crlf)) (\<lambda>body.
    bindR (into MAXBUF (body @ errnum @ '': '' @ shortmsg @ crlf)) (\<lambda>body.
    bindR (into MAXBUF (body @ ''<p>'' @ longmsg @ '': '' @ cause @ crlf)) (\<lambda>body.
    bindR (into MAXBUF (body @ ''<hr>CS537 Web Server'' @ crlf)) (\<lambda>body.
    bindR (into MAXLINE (''HTTP/1.0 '' @ errnum @ '' '' @ shortmsg @ crlf)) (\<lambda>buf.
    bindR (send_line fd buf w) (\<lambda>w.
    bindR (into MAXLINE (''Content-Type: text/html'' @ crlf)) (\<lambda>buf.
    bindR (send_line fd buf w) (\<lambda>w.
    bindR (into MAXLINE (''Content-Length: '' @ dec_text (length body) @ crlf @ crlf)) (\<lambda>buf.
    bindR (send_line fd buf w) (\<lambda>w.
    send_line fd body w)))))))))))"

definition requestGetFiletype :: "string \<Rightarrow> string" where
  "requestGetFiletype name =
    (if strstr name ''.html'' then ''text/html''
     else if strstr name ''.gif'' then ''image/gif''
     else if strstr name ''.jpg'' then ''image/jpeg''
     else ''text/plain'')"

text \<open>
  The child's output follows the header: the parent has sent it before the \<open>fork\<close>, and waits.
\<close>

definition requestServeDynamic :: "int \<Rightarrow> string \<Rightarrow> string \<Rightarrow> web \<Rightarrow> stop + web" where
  "requestServeDynamic fd name args w =
    bindR (into MAXLINE (''HTTP/1.0 200 OK'' @ crlf)) (\<lambda>buf.
    bindR (into MAXLINE (buf @ ''Server: CS537 Web Server'' @ crlf)) (\<lambda>buf.
    bindR (Rio_writen fd buf w) (\<lambda>w.
    Inr (w\<lparr>sent := (sent w)(fd := sent w fd @ cgi_out w name args)\<rparr>))))"

definition requestServeStatic :: "int \<Rightarrow> string \<Rightarrow> int \<Rightarrow> web \<Rightarrow> stop + web" where
  "requestServeStatic fd name fsize w =
    bindR (Open name w) (\<lambda>(srcfd, w).
    bindR (Mmap fsize (f_bytes (the (files w name))) w) (\<lambda>srcp.
    bindR (Close srcfd w) (\<lambda>w.
    bindR (into MAXBUF (''HTTP/1.0 200 OK'' @ crlf)) (\<lambda>buf.
    bindR (into MAXBUF (buf @ ''Server: CS537 Web Server'' @ crlf)) (\<lambda>buf.
    bindR (into MAXBUF (buf @ ''Content-Length: '' @ show_int fsize @ crlf)) (\<lambda>buf.
    bindR (into MAXBUF (buf @ ''Content-Type: '' @ requestGetFiletype name @ crlf @ crlf)) (\<lambda>buf.
    bindR (Rio_writen fd buf w) (\<lambda>w.
    Rio_writen fd srcp w))))))))"

definition requestHandle :: "request_complex \<Rightarrow> web \<Rightarrow> stop + web" where
  "requestHandle rc w =
    (if is_static rc \<noteq> 0 then
       (if \<not> S_ISREG (st_mode (sbuf rc)) \<or> and S_IRUSR (st_mode (sbuf rc)) = 0
        then requestError (rc_fd rc) (filename rc) ''403'' ''Forbidden''
          ''CS537 Server could not read this file'' w
        else requestServeStatic (rc_fd rc) (filename rc) (to_int (st_size (sbuf rc))) w)
     else
       (if \<not> S_ISREG (st_mode (sbuf rc)) \<or> and S_IXUSR (st_mode (sbuf rc)) = 0
        then requestError (rc_fd rc) (filename rc) ''403'' ''Forbidden''
          ''CS537 Server could not run this CGI program'' w
        else requestServeDynamic (rc_fd rc) (filename rc) (cgiargs rc) w))"


section \<open>Reading a request\<close>

lemma case_sum_mono [partial_function_mono]:
  assumes "\<And>e. monotone orda ordb (\<lambda>f. P e f)" and "\<And>x. monotone orda ordb (\<lambda>f. Q x f)"
  shows "monotone orda ordb (\<lambda>f. case s of Inl e \<Rightarrow> P e f | Inr x \<Rightarrow> Q x f)"
  using assms by (cases s) simp_all

text \<open>
  The loop of \<open>requestReadhdrs\<close> after its first read; \<open>None\<close> is a loop that does not end.
\<close>

partial_function (option) readhdrs_loop ::
  "rio_t \<Rightarrow> string \<Rightarrow> web \<Rightarrow> (stop + rio_t \<times> web) option" where
  "readhdrs_loop rp buf w =
    (if c_string buf = crlf then Some (Inr (rp, w))
     else (case Rio_readlineb rp buf MAXLINE w of
         Inl e \<Rightarrow> Some (Inl e)
       | Inr (n, buf, rp, w) \<Rightarrow> readhdrs_loop rp buf w))"

definition requestReadhdrs :: "rio_t \<Rightarrow> string \<Rightarrow> web \<Rightarrow> (stop + rio_t \<times> web) option" where
  "requestReadhdrs rp buf w = (case Rio_readlineb rp buf MAXLINE w of
      Inl e \<Rightarrow> Some (Inl e)
    | Inr (n, buf, rp, w) \<Rightarrow> readhdrs_loop rp buf w)"

text \<open>The flag, \<open>filename\<close> and \<open>cgiargs\<close>.  An empty URI makes the code read the byte before it.\<close>

definition requestParseURI :: "string \<Rightarrow> stop + int \<times> string \<times> string" where
  "requestParseURI uri =
    (if \<not> strstr uri ''cgi'' then
       bindR (into MAXLINE (''.'' @ uri)) (\<lambda>name.
       if uri = [] then Inl Wild_read
       else if last uri = CHR ''/'' then
         bindR (into MAXLINE (name @ ''home.html'')) (\<lambda>name. Inr (1, name, []))
       else Inr (1, name, []))
     else
       (let (path, args) = (takeWhile (\<lambda>c. c \<noteq> CHR ''?'') uri, dropWhile (\<lambda>c. c \<noteq> CHR ''?'') uri) in
        bindR (into MAXLINE (tl args)) (\<lambda>args.
        bindR (into MAXLINE (''.'' @ path)) (\<lambda>name. Inr (0, name, args)))))"

record stack =
  s_buf :: string
  s_words :: "string \<times> string \<times> string"
  s_hdr :: string
  s_rio :: rio_t
  s_tmp :: request_complex

definition pre_handle :: "stack \<Rightarrow> int \<Rightarrow> web \<Rightarrow> (stop + request_complex \<times> web) option" where
  "pre_handle st fd w =
    (case Rio_readlineb (rio_readinitb (s_rio st) fd) (s_buf st) MAXLINE w of
       Inl e \<Rightarrow> Some (Inl e)
     | Inr (n, buf, rio, w) \<Rightarrow>
       (case sscanf3 (c_string buf) (s_words st) of (meth, uri, version) \<Rightarrow>
        let w = print_out (meth @ '' '' @ uri @ '' '' @ version @ [CHR 0x0A]) w in
        if \<not> strcasecmp_eq meth ''GET'' then
          Some (bindR (requestError fd meth ''501'' ''Not Implemented''
            ''CS537 Server does not implement this method'' w) (\<lambda>w. Inr (s_tmp st, w)))
        else (case requestReadhdrs rio (s_hdr st) w of
            None \<Rightarrow> None
          | Some (Inl e) \<Rightarrow> Some (Inl e)
          | Some (Inr (rio, w)) \<Rightarrow> Some (
              bindR (requestParseURI uri) (\<lambda>(static, name, args).
              case sys_stat name w of
                None \<Rightarrow> bindR (requestError fd name ''404'' ''Not found''
                  ''CS537 Server could not find this file'' w) (\<lambda>w. Inr (s_tmp st, w))
              | Some sb \<Rightarrow> Inr (\<lparr>rc_fd = fd, filesize = to_int (st_size sb), is_static = static,
                  sbuf = sb, filename = name, cgiargs = args\<rparr>, w))))))"


section \<open>Header lines\<close>

text \<open>What is left of a stream after its first empty line, read in lines of at most 8191 bytes.\<close>

lemma next_line_length: "length (next_line m s) \<le> length s"
  by (induction m s rule: next_line.induct) auto

lemma next_line_Nil: "next_line m s = [] \<Longrightarrow> 0 < m \<Longrightarrow> s = []"
  by (cases m; cases s) (auto split: if_splits)

function skip_headers :: "string \<Rightarrow> string option" where
  "skip_headers s = (let l = next_line (MAXLINE - 1) s in
    if l = [] then None
    else if c_string l = crlf then Some (drop (length l) s)
    else skip_headers (drop (length l) s))"
  by pat_completeness auto
termination
  by (relation "measure length") (auto simp: Let_def, metis Suc_pred diff_less length_0_conv
    length_greater_0_conv next_line.simps(2) numeral_eq_Suc)

declare skip_headers.simps [simp del]

lemma skip_headers_Nil: "skip_headers [] = None"
  by (subst skip_headers.simps) (simp add: Let_def next_line_all)

lemma Rio_readline_stream:
  assumes "whole (arrives w (rio_fd rp))"
  defines "l \<equiv> next_line (MAXLINE - 1) (stream rp w)"
  obtains n rp' w' where "Rio_readlineb rp old MAXLINE w = Inr (n, if l = [] then old else l, rp', w')"
    and "stream rp w = l @ stream rp' w'" and "moved (rio_fd rp) w w'" and "rio_fd rp' = rio_fd rp"
    and "whole (arrives w' (rio_fd rp'))"
proof -
  obtain rc s rp' w' where r: "rio_readlineb rp old MAXLINE w = (rc, s, rp', w')"
    by (cases "rio_readlineb rp old MAXLINE w") auto
  have "stream rp w = l @ stream rp' w' \<and> moved (rio_fd rp) w w' \<and> rio_fd rp' = rio_fd rp \<and>
      whole (arrives w' (rio_fd rp)) \<and> 0 \<le> rc \<and> s = (if l = [] then old else l)"
    using rio_readline_stream [OF r [unfolded rio_readlineb_def] assms(1)]
    by (auto simp: Let_def l_def split: if_splits)
  with r that [of rc rp' w'] show thesis by (auto simp: Rio_readlineb_def)
qed

lemma readhdrs_at_end:
  "readhdrs_loop rp buf w = Some r \<Longrightarrow> stream rp w = [] \<Longrightarrow> whole (arrives w (rio_fd rp)) \<Longrightarrow>
    c_string buf \<noteq> crlf \<Longrightarrow> False"
proof (induction rp buf w r rule: readhdrs_loop.raw_induct [rotated, consumes 1, case_names step])
  case (step f rp buf w r)
  note at_end = step.prems
  let ?l = "next_line (MAXLINE - 1) (stream rp w)"
  from at_end(1) have "?l = []" using next_line_length [of _ "stream rp w"] by auto
  moreover obtain n rp' w' where "Rio_readlineb rp buf MAXLINE w = Inr (n, if ?l = [] then buf else ?l, rp', w')"
    and "stream rp w = ?l @ stream rp' w'" and w: "whole (arrives w' (rio_fd rp'))"
    by (rule Rio_readline_stream [OF at_end(2), of buf])
  ultimately have l: "Rio_readlineb rp buf MAXLINE w = Inr (n, buf, rp', w')"
    and st: "stream rp' w' = []"
    using at_end(1) by simp_all
  from step.hyps l at_end(3) have "f rp' buf w' = Some r" by simp
  from step.IH [OF this st w at_end(3)] show False .
qed


lemma readhdrs_skips:
  assumes "whole (arrives w (rio_fd rp))" and "c_string buf \<noteq> crlf"
  shows "case skip_headers (stream rp w) of
      None \<Rightarrow> readhdrs_loop rp buf w = None
    | Some rest \<Rightarrow> \<exists>rp' w'. readhdrs_loop rp buf w = Some (Inr (rp', w')) \<and> stream rp' w' = rest \<and>
        moved (rio_fd rp) w w'"
  using assms
proof (induction "stream rp w" arbitrary: rp buf w rule: skip_headers.induct)
  case 1
  let ?l = "next_line (MAXLINE - 1) (stream rp w)"
  obtain n rp' w' where l: "Rio_readlineb rp buf MAXLINE w = Inr (n, if ?l = [] then buf else ?l, rp', w')"
    and st: "stream rp w = ?l @ stream rp' w'" and w: "moved (rio_fd rp) w w'"
      "rio_fd rp' = rio_fd rp" "whole (arrives w' (rio_fd rp'))"
    by (rule Rio_readline_stream [OF "1.prems"(1), of buf])
  show ?case
  proof (cases "?l = []")
    case True
    then have "stream rp w = []" by (rule next_line_Nil) simp
    then show ?thesis using readhdrs_at_end [OF _ _ "1.prems"] by (cases "readhdrs_loop rp buf w")
      (simp_all add: skip_headers_Nil)
  next
    case False
    have rest: "drop (length ?l) (stream rp w) = stream rp' w'"
      by (subst st) simp
    have go: "readhdrs_loop rp buf w = readhdrs_loop rp' ?l w'"
      using l False "1.prems"(2) by (simp add: readhdrs_loop.simps [of rp])
    show ?thesis
    proof (cases "c_string ?l = crlf")
      case True
      with go have "readhdrs_loop rp buf w = Some (Inr (rp', w'))" by (simp add: readhdrs_loop.simps)
      with True False rest w(1) show ?thesis by (subst skip_headers.simps) (simp add: Let_def)
    next
      case more: False
      have "skip_headers (stream rp w) = skip_headers (stream rp' w')"
        using False more rest by (subst skip_headers.simps) (simp add: Let_def)
      with "1.hyps" [OF refl False more rest w(3) more] go w show ?thesis
        by (auto split: option.splits intro: moved_trans)
    qed
  qed
qed

lemma requestReadhdrs_skips:
  assumes "whole (arrives w (rio_fd rp))" and "c_string junk \<noteq> crlf \<or> stream rp w \<noteq> []"
  shows "case skip_headers (stream rp w) of
      None \<Rightarrow> requestReadhdrs rp junk w = None
    | Some rest \<Rightarrow> \<exists>rp' w'. requestReadhdrs rp junk w = Some (Inr (rp', w')) \<and> stream rp' w' = rest \<and>
        moved (rio_fd rp) w w'"
proof (cases "stream rp w = []")
  case True
  with assms(2) have "readhdrs_loop rp junk w = requestReadhdrs rp junk w"
    by (simp add: readhdrs_loop.simps [of rp] requestReadhdrs_def)
  moreover have "readhdrs_loop rp junk w = None"
    using readhdrs_skips [OF assms(1), of junk] assms(2) True by (simp add: skip_headers_Nil)
  ultimately show ?thesis using True by (simp add: skip_headers_Nil)
next
  case False
  let ?l = "next_line (MAXLINE - 1) (stream rp w)"
  from False have some: "?l \<noteq> []" using next_line_Nil [of "MAXLINE - 1"] by fastforce
  obtain n rp' w' where l: "Rio_readlineb rp junk MAXLINE w = Inr (n, if ?l = [] then junk else ?l, rp', w')"
    and st: "stream rp w = ?l @ stream rp' w'" and w: "moved (rio_fd rp) w w'"
      "rio_fd rp' = rio_fd rp" "whole (arrives w' (rio_fd rp'))"
    by (rule Rio_readline_stream [OF assms(1), of junk])
  have go: "requestReadhdrs rp junk w = readhdrs_loop rp' ?l w'"
    using l some by (simp add: requestReadhdrs_def)
  have rest: "drop (length ?l) (stream rp w) = stream rp' w'" by (subst st) simp
  show ?thesis
  proof (cases "c_string ?l = crlf")
    case True
    with go have "requestReadhdrs rp junk w = Some (Inr (rp', w'))" by (simp add: readhdrs_loop.simps)
    with True some rest w(1) show ?thesis by (subst skip_headers.simps) (simp add: Let_def)
  next
    case more: False
    have "skip_headers (stream rp w) = skip_headers (stream rp' w')"
      using some more rest by (subst skip_headers.simps) (simp add: Let_def)
    with readhdrs_skips [OF w(3) more] go w show ?thesis
      by (auto split: option.splits intro: moved_trans)
  qed
qed

text \<open>
  Claim C33.  The header lines of a request are read exactly when they are ended by an empty line: then
  \<open>requestReadhdrs\<close> returns with the stream at the byte after it.  A client that closes the
  connection before it has sent an empty line makes the routine loop for ever: it reads nothing, and
  compares the last line again.
\<close>

theorem headers_return_iff_empty_line:
  assumes "whole (arrives w (rio_fd rp))" and "c_string junk \<noteq> crlf \<or> stream rp w \<noteq> []"
  shows "(requestReadhdrs rp junk w = None \<longleftrightarrow> skip_headers (stream rp w) = None) \<and>
    (\<forall>rest. skip_headers (stream rp w) = Some rest \<longrightarrow>
      (\<exists>rp' w'. requestReadhdrs rp junk w = Some (Inr (rp', w')) \<and> stream rp' w' = rest))"
  using requestReadhdrs_skips [OF assms] by (auto split: option.splits)

section \<open>Replies\<close>

definition delivers :: "int \<Rightarrow> string \<Rightarrow> web \<Rightarrow> web \<Rightarrow> bool" where
  "delivers fd s w w' \<longleftrightarrow> sent w' = (sent w)(fd := sent w fd @ s) \<and> willing (takes w' fd) \<and>
    arrives w' = arrives w \<and> opened w' = opened w \<and> files w' = files w \<and>
    may_open w' = may_open w \<and> cgi_out w' = cgi_out w"

lemma delivers_trans: "delivers fd s w w1 \<Longrightarrow> delivers fd t w1 w2 \<Longrightarrow> delivers fd (s @ t) w w2"
  by (auto simp: delivers_def)

lemma more_sel: "net.more w = net.more w' \<Longrightarrow> files w = files w' \<and> may_open w = may_open w' \<and>
    cgi_out w = cgi_out w'" for w w' :: web
  by (cases w; cases w') simp

lemma Rio_writen_delivers:
  assumes "willing (takes w fd)"
  obtains w' where "Rio_writen fd s w = Inr w'" and "delivers fd s w w'"
proof (rule Rio_writen_sends [OF assms, of s])
  fix w'
  assume w: "Rio_writen fd s w = Inr w'" "sent w' = (sent w)(fd := sent w fd @ s)"
    "willing (takes w' fd)" "arrives w' = arrives w" "opened w' = opened w" "net.more w' = net.more w"
  from more_sel [OF w(6)] w show thesis by (intro that) (simp_all add: delivers_def)
qed

lemma send_line_delivers:
  assumes "willing (takes w fd)"
  obtains w' where "send_line fd s w = Inr w'" and "delivers fd s w w'"
proof (rule Rio_writen_delivers [OF assms, of s])
  fix w'
  assume "Rio_writen fd s w = Inr w'" "delivers fd s w w'"
  then show thesis
    by (intro that [of "print_out s w'"]) (simp_all add: send_line_def print_out_def delivers_def)
qed

lemma delivers_willing: "delivers fd s w w' \<Longrightarrow> willing (takes w' fd)"
  by (simp add: delivers_def)

lemma length_dec_text: "n < 10 ^ Suc k \<Longrightarrow> length (dec_text n) \<le> Suc k"
proof (induction k arbitrary: n)
  case 0
  then show ?case by (simp add: dec_text.simps)
next
  case (Suc k)
  then have "n div 10 < 10 ^ Suc k" by (simp add: less_mult_imp_div_less mult.commute)
  with Suc.IH [OF this] show ?case by (simp add: dec_text.simps [of n])
qed

definition error_body :: "string \<Rightarrow> string \<Rightarrow> string \<Rightarrow> string \<Rightarrow> string" where
  "error_body cause errnum shortmsg longmsg =
    ''<html><title>CS537 Error</title>'' @ ''<body bgcolor=fffff>'' @ crlf @
    errnum @ '': '' @ shortmsg @ crlf @ ''<p>'' @ longmsg @ '': '' @ cause @ crlf @
    ''<hr>CS537 Web Server'' @ crlf"

definition error_head :: "string \<Rightarrow> string \<Rightarrow> nat \<Rightarrow> string" where
  "error_head errnum shortmsg n = ''HTTP/1.0 '' @ errnum @ '' '' @ shortmsg @ crlf @
    ''Content-Type: text/html'' @ crlf @ ''Content-Length: '' @ dec_text n @ crlf @ crlf"

lemma into_bind: "bindR (into cap s) f = (if length s < cap then f s else Inl Overrun)"
  by (simp add: into_def)

lemma into_grows:
  "bindR (into cap s) (\<lambda>s. bindR (into cap (s @ t)) f) = bindR (into cap (s @ t)) f"
  by (simp add: into_bind)

lemma request_error_eq:
  "requestError fd cause errnum shortmsg longmsg w =
    (let body = error_body cause errnum shortmsg longmsg in
     if length body < MAXBUF then
       bindR (into MAXLINE (''HTTP/1.0 '' @ errnum @ '' '' @ shortmsg @ crlf)) (\<lambda>buf.
       bindR (send_line fd buf w) (\<lambda>w.
       bindR (into MAXLINE (''Content-Type: text/html'' @ crlf)) (\<lambda>buf.
       bindR (send_line fd buf w) (\<lambda>w.
       bindR (into MAXLINE (''Content-Length: '' @ dec_text (length body) @ crlf @ crlf)) (\<lambda>buf.
       bindR (send_line fd buf w) (\<lambda>w.
       send_line fd body w))))))
     else Inl Overrun)"
  unfolding requestError_def into_grows Let_def error_body_def append_assoc
  by (subst into_bind) (rule refl)

text \<open>
  Claim C34.  An error reply is a status line, a type, the length of the body and a body of that
  length, whatever the text it quotes is, as long as the body is shorter than its array of 8192 bytes;
  for a longer text the code writes past the array before it has sent anything.  (The text can be a
  method of up to 8187 bytes that the client chose.)
\<close>

theorem error_reply_or_overrun:
  fixes cause errnum shortmsg longmsg :: string
  assumes "willing (takes w fd)" and "length errnum + length shortmsg < 8000"
  defines "b \<equiv> error_body cause errnum shortmsg longmsg"
  shows "if length b < MAXBUF
    then \<exists>w'. requestError fd cause errnum shortmsg longmsg w = Inr w' \<and>
      delivers fd (error_head errnum shortmsg (length b) @ b) w w'
    else requestError fd cause errnum shortmsg longmsg w = Inl Overrun"
proof (cases "length b < MAXBUF")
  case False
  then show ?thesis unfolding request_error_eq b_def by (simp only: if_False Let_def)
next
  case True
  have "length (dec_text (length b)) \<le> Suc 3" using True by (intro length_dec_text) simp
  note fits = this True assms(2)
  obtain w1 where 1: "send_line fd (''HTTP/1.0 '' @ errnum @ '' '' @ shortmsg @ crlf) w = Inr w1"
    and d1: "delivers fd (''HTTP/1.0 '' @ errnum @ '' '' @ shortmsg @ crlf) w w1"
    by (rule send_line_delivers [OF assms(1)])
  obtain w2 where 2: "send_line fd (''Content-Type: text/html'' @ crlf) w1 = Inr w2"
    and d2: "delivers fd (''Content-Type: text/html'' @ crlf) w1 w2"
    by (rule send_line_delivers [OF delivers_willing [OF d1]])
  obtain w3 where 3: "send_line fd (''Content-Length: '' @ dec_text (length b) @ crlf @ crlf) w2 = Inr w3"
    and d3: "delivers fd (''Content-Length: '' @ dec_text (length b) @ crlf @ crlf) w2 w3"
    by (rule send_line_delivers [OF delivers_willing [OF d2]])
  obtain w4 where 4: "send_line fd b w3 = Inr w4" and d4: "delivers fd b w3 w4"
    by (rule send_line_delivers [OF delivers_willing [OF d3]])
  have head: "length (''HTTP/1.0 '' @ errnum @ '' '' @ shortmsg @ crlf) < MAXLINE"
    "length (''Content-Type: text/html'' @ crlf) < MAXLINE"
    "length (''Content-Length: '' @ dec_text (length b) @ crlf @ crlf) < MAXLINE"
    using fits by (simp_all add: crlf_def)
  have "requestError fd cause errnum shortmsg longmsg w = Inr w4"
    unfolding request_error_eq b_def [symmetric] into_bind
    by (simp only: Let_def True head 1 2 3 4 bindR_Inr if_True)
  moreover have "delivers fd (error_head errnum shortmsg (length b) @ b) w w4"
    using delivers_trans [OF delivers_trans [OF delivers_trans [OF d1 d2] d3] d4]
    by (simp add: error_head_def)
  ultimately show ?thesis using True by simp
qed


section \<open>A request for a file\<close>

definition request_text :: "string \<Rightarrow> string list \<Rightarrow> string" where
  "request_text uri hdrs = ''GET '' @ uri @ '' HTTP/1.0'' @ crlf @ concat (map (\<lambda>h. h @ crlf) hdrs) @ crlf"

definition plain_header :: "string \<Rightarrow> bool" where
  "plain_header h \<longleftrightarrow> h \<noteq> [] \<and> CHR 0x0A \<notin> set h \<and> CHR 0x00 \<notin> set h \<and> length h < 8180"

definition plain_uri :: "string \<Rightarrow> bool" where
  "plain_uri uri \<longleftrightarrow> uri \<noteq> [] \<and> list_all (\<lambda>c. \<not> is_space c \<and> c \<noteq> CHR 0x00) uri \<and>
    \<not> strstr uri ''cgi'' \<and> length uri < 8150"

definition target :: "string \<Rightarrow> string" where
  "target uri = ''.'' @ uri @ (if last uri = CHR ''/'' then ''home.html'' else [])"

definition ok_head :: "string \<Rightarrow> int \<Rightarrow> string" where
  "ok_head name n = ''HTTP/1.0 200 OK'' @ crlf @ ''Server: CS537 Web Server'' @ crlf @
    ''Content-Length: '' @ show_int n @ crlf @ ''Content-Type: '' @ requestGetFiletype name @ crlf @ crlf"

lemma c_string_plain: "CHR 0x00 \<notin> set s \<Longrightarrow> c_string s = s"
  by (induction s) (auto simp: c_string_def)

lemma next_line_crlf:
  "CHR 0x0A \<notin> set s \<Longrightarrow> length s + 1 < m \<Longrightarrow> next_line m (s @ crlf @ r) = s @ crlf"
  using next_line_feed [of "s @ [CHR 0x0D]" m r] by (simp add: crlf_def)

lemma skip_headers_line:
  assumes "plain_header h"
  shows "skip_headers (h @ crlf @ r) = skip_headers r"
proof -
  have l: "next_line (MAXLINE - 1) (h @ crlf @ r) = h @ crlf"
    using assms by (intro next_line_crlf) (auto simp: plain_header_def)
  have c: "c_string (h @ crlf) \<noteq> crlf" "crlf \<noteq> []"
    using assms c_string_plain [of "h @ crlf"] by (auto simp: plain_header_def crlf_def)
  show ?thesis using l c by (subst skip_headers.simps) (simp add: Let_def)
qed

lemma skip_headers_text:
  "list_all plain_header hdrs \<Longrightarrow> skip_headers (concat (map (\<lambda>h. h @ crlf) hdrs) @ crlf @ r) = Some r"
proof (induction hdrs)
  case Nil
  have "next_line (MAXLINE - 1) (crlf @ r) = crlf" using next_line_crlf [of "[]" "MAXLINE - 1" r] by simp
  then show ?case by (subst skip_headers.simps) (simp add: Let_def crlf_def c_string_def)
qed (simp add: skip_headers_line)

lemma scan_word_plain:
  assumes "a \<noteq> []" and "list_all (\<lambda>c. \<not> is_space c) a" and "is_space b"
  shows "scan_word (a @ b # r) = (a, b # r)" and "is_space d \<Longrightarrow> scan_word (d # s) = scan_word s"
proof -
  have "dropWhile is_space (a @ b # r) = a @ b # r" using assms(1,2) by (cases a) auto
  moreover have "takeWhile (\<lambda>c. \<not> is_space c) (a @ b # r) = a"
    "dropWhile (\<lambda>c. \<not> is_space c) (a @ b # r) = b # r"
    using assms(2,3) by (induction a) auto
  ultimately show "scan_word (a @ b # r) = (a, b # r)" by (simp add: scan_word_def)
  show "is_space d \<Longrightarrow> scan_word (d # s) = scan_word s" by (simp add: scan_word_def)
qed

lemma sscanf3_request:
  assumes "plain_uri uri"
  shows "sscanf3 (''GET '' @ uri @ '' HTTP/1.0'' @ crlf) old = (''GET'', uri, ''HTTP/1.0'')"
proof -
  have u: "uri \<noteq> []" "list_all (\<lambda>c. \<not> is_space c) uri"
    using assms by (auto simp: plain_uri_def list_all_iff)
  have sp: "is_space CHR '' ''" "is_space CHR 0x0D" by (simp_all add: is_space_def)
  have "scan_word (''GET '' @ uri @ '' HTTP/1.0'' @ crlf) = (''GET'', '' '' @ uri @ '' HTTP/1.0'' @ crlf)"
    using scan_word_plain(1) [of "''GET''" "CHR '' ''"] sp by (simp add: is_space_def)
  moreover have "scan_word ('' '' @ uri @ '' HTTP/1.0'' @ crlf) = (uri, '' HTTP/1.0'' @ crlf)"
    using scan_word_plain(1) [OF u sp(1)] scan_word_plain(2) [OF u sp(1) sp(1)] by simp
  moreover have "scan_word ('' HTTP/1.0'' @ crlf) = (''HTTP/1.0'', crlf)"
    by (simp add: scan_word_def is_space_def crlf_def)
  ultimately show ?thesis using u(1) by (simp add: sscanf3_def split: prod.split)
qed

lemma requestParseURI_plain:
  assumes "plain_uri uri"
  shows "requestParseURI uri = Inr (1, target uri, [])"
  using assms by (auto simp: requestParseURI_def plain_uri_def target_def into_def)


text \<open>The first line of a request, and the world in which \<open>pre_handle\<close> reads the next.\<close>

definition logged :: "string \<Rightarrow> web \<Rightarrow> web" where
  "logged uri w = print_out (''GET'' @ '' '' @ uri @ '' '' @ ''HTTP/1.0'' @ [CHR 0x0A]) w"

lemma request_line_read:
  assumes "whole (arrives w fd)" and "pend (arrives w fd) = ''GET '' @ uri @ '' HTTP/1.0'' @ crlf @ rst"
    and "plain_uri uri"
  obtains n rp1 w1 where "Rio_readlineb (rio_readinitb (s_rio st) fd) (s_buf st) MAXLINE w =
      Inr (n, ''GET '' @ uri @ '' HTTP/1.0'' @ crlf, rp1, w1)"
    and "sscanf3 (c_string (''GET '' @ uri @ '' HTTP/1.0'' @ crlf)) (s_words st) = (''GET'', uri, ''HTTP/1.0'')"
    and "stream rp1 (logged uri w1) = rst" and "rio_fd rp1 = fd" and "whole (arrives (logged uri w1) fd)"
    and "moved fd w w1"
proof -
  let ?rp = "rio_readinitb (s_rio st) fd"
  let ?line = "''GET '' @ uri @ '' HTTP/1.0'' @ crlf"
  have rp: "rio_fd ?rp = fd" "stream ?rp w = ?line @ rst"
    using assms(2) by (simp_all add: rio_readinitb_def stream_def)
  have first: "next_line (MAXLINE - 1) (stream ?rp w) = ?line"
    using next_line_crlf [of "''GET '' @ uri @ '' HTTP/1.0''" "MAXLINE - 1" rst] assms(3) rp
    by (auto simp: plain_uri_def list_all_iff is_space_def)
  obtain n rp1 w1 where l: "Rio_readlineb ?rp (s_buf st) MAXLINE w = Inr (n, ?line, rp1, w1)"
    and st1: "stream rp1 w1 = rst" and w1: "moved fd w w1" "rio_fd rp1 = fd" "whole (arrives w1 fd)"
    by (rule Rio_readline_stream [of w ?rp "s_buf st"]) (use assms(1) first rp in \<open>auto simp del: append_assoc\<close>)
  have "stream rp1 (logged uri w1) = rst" using st1 by (simp add: stream_def logged_def print_out_def)
  moreover have "whole (arrives (logged uri w1) fd)" using w1 by (simp add: logged_def print_out_def)
  moreover have "c_string ?line = ?line"
    by (rule c_string_plain) (use assms(3) in \<open>auto simp: plain_uri_def list_all_iff crlf_def\<close>)
  then have "sscanf3 (c_string ?line) (s_words st) = (''GET'', uri, ''HTTP/1.0'')"
    using sscanf3_request [OF assms(3)] by simp
  ultimately show thesis using l w1 by (intro that)
qed

lemma pre_handle_after_line:
  assumes "Rio_readlineb (rio_readinitb (s_rio st) fd) (s_buf st) MAXLINE w =
      Inr (n, ''GET '' @ uri @ '' HTTP/1.0'' @ crlf, rp1, w1)"
    and "sscanf3 (c_string (''GET '' @ uri @ '' HTTP/1.0'' @ crlf)) (s_words st) = (''GET'', uri, ''HTTP/1.0'')"
  shows "pre_handle st fd w = (case requestReadhdrs rp1 (s_hdr st) (logged uri w1) of
      None \<Rightarrow> None
    | Some (Inl e) \<Rightarrow> Some (Inl e)
    | Some (Inr (rio, w)) \<Rightarrow> Some (
        bindR (requestParseURI uri) (\<lambda>(static, name, args).
        case sys_stat name w of
          None \<Rightarrow> bindR (requestError fd name ''404'' ''Not found''
            ''CS537 Server could not find this file'' w) (\<lambda>w. Inr (s_tmp st, w))
        | Some sb \<Rightarrow> Inr (\<lparr>rc_fd = fd, filesize = to_int (st_size sb), is_static = static,
            sbuf = sb, filename = name, cgiargs = args\<rparr>, w))))"
  using assms by (simp add: pre_handle_def strcasecmp_eq_def Let_def logged_def)

lemma pre_handle_request:
  assumes "whole (arrives w fd)" and "pend (arrives w fd) = request_text uri hdrs @ rest"
    and "plain_uri uri" and "list_all plain_header hdrs" and "files w (target uri) = Some f"
  obtains w' where "pre_handle st fd w = Some (Inr (\<lparr>rc_fd = fd,
      filesize = to_int (int (length (f_bytes f))), is_static = 1,
      sbuf = \<lparr>st_mode = f_mode f, st_size = int (length (f_bytes f))\<rparr>,
      filename = target uri, cgiargs = []\<rparr>, w'))"
    and "sent w' = sent w" and "takes w' = takes w" and "opened w' = opened w" and "files w' = files w"
    and "may_open w' = may_open w" and "cgi_out w' = cgi_out w"
proof -
  have p: "pend (arrives w fd) = ''GET '' @ uri @ '' HTTP/1.0'' @ crlf @
      concat (map (\<lambda>h. h @ crlf) hdrs) @ crlf @ rest"
    using assms(2) by (simp add: request_text_def)
  show thesis
  proof (rule request_line_read [OF assms(1) p assms(3), of st])
    fix n rp1 w1
    assume l: "Rio_readlineb (rio_readinitb (s_rio st) fd) (s_buf st) MAXLINE w =
        Inr (n, ''GET '' @ uri @ '' HTTP/1.0'' @ crlf, rp1, w1)"
      and sc: "sscanf3 (c_string (''GET '' @ uri @ '' HTTP/1.0'' @ crlf)) (s_words st) =
        (''GET'', uri, ''HTTP/1.0'')"
      and st: "stream rp1 (logged uri w1) = concat (map (\<lambda>h. h @ crlf) hdrs) @ crlf @ rest"
      and fd: "rio_fd rp1 = fd" "whole (arrives (logged uri w1) fd)" and w1: "moved fd w w1"
    from fd have "whole (arrives (logged uri w1) (rio_fd rp1))" by simp
    from requestReadhdrs_skips [OF this, of "s_hdr st"] obtain rp2 w2
      where h: "requestReadhdrs rp1 (s_hdr st) (logged uri w1) = Some (Inr (rp2, w2))"
        and w2: "moved fd (logged uri w1) w2"
      unfolding st skip_headers_text [OF assms(4)] by (auto simp: crlf_def fd)
    have same: "sent w2 = sent w" "takes w2 = takes w" "opened w2 = opened w" "files w2 = files w"
      "may_open w2 = may_open w" "cgi_out w2 = cgi_out w"
      using moved_sel [OF w1] moved_sel [OF w2] more_sel [OF moved_sel(4) [OF w1]]
        more_sel [OF moved_sel(4) [OF w2]] by (simp_all add: logged_def print_out_def)
    from h same assms(5) requestParseURI_plain [OF assms(3)] show thesis
      by (intro that [of w2]) (simp_all add: pre_handle_after_line [OF l sc] sys_stat_def)
  qed
qed

lemma requestHandle_static:
  assumes "S_ISREG m" and "and S_IRUSR m \<noteq> 0" and "files w name = Some f" and "may_open w name"
    and "f_bytes f \<noteq> []" and "length (f_bytes f) < 2 ^ 31" and "least_fd w = Some k"
    and "willing (takes w fd)"
  obtains w' where "requestHandle \<lparr>rc_fd = fd, filesize = n, is_static = 1,
      sbuf = \<lparr>st_mode = m, st_size = int (length (f_bytes f))\<rparr>, filename = name, cgiargs = args\<rparr> w = Inr w'"
    and "delivers fd (ok_head name (int (length (f_bytes f))) @ f_bytes f) w w'"
proof -
  let ?n = "length (f_bytes f)" and ?w = "w\<lparr>opened := (opened w)(k := True)\<rparr>"
  have size: "to_int (int ?n) = int ?n" using sint_small [OF assms(6)] by (simp add: to_int_def)
  have k: "\<not> opened w k" using assms(7) by (auto simp: least_fd_def find_Some_iff)
  have "?n \<le> (?n + 4095) div 4096 * 4096"
    using div_mult_mod_eq [of "?n + 4095" 4096] mod_less_divisor [of 4096 "?n + 4095"] by linarith
  then have map: "Mmap (int ?n) (f_bytes (the (files ?w name))) ?w = Inr (f_bytes f)"
    using assms(3,5) by (simp add: Mmap_def Let_def)
  have op: "Open name w = Inr (k, ?w)" using assms(3,4,7) by (simp add: Open_def)
  have cl: "Close k ?w = Inr w" using k by (simp add: Close_def unix_close_def) (simp add: fun_upd_idem)
  have "length (dec_text ?n) \<le> Suc 9" by (rule length_dec_text) (use assms(6) in simp)
  moreover have "length (requestGetFiletype name) \<le> 10" by (simp add: requestGetFiletype_def)
  ultimately have fits: "length (ok_head name (int ?n)) < MAXBUF"
    by (simp add: ok_head_def show_int_def crlf_def)
  obtain w1 where w1: "Rio_writen fd (ok_head name (int ?n)) w = Inr w1"
    and d1: "delivers fd (ok_head name (int ?n)) w w1"
    by (rule Rio_writen_delivers [OF assms(8)])
  obtain w2 where w2: "Rio_writen fd (f_bytes f) w1 = Inr w2" and d2: "delivers fd (f_bytes f) w1 w2"
    by (rule Rio_writen_delivers [OF delivers_willing [OF d1]])
  have "requestServeStatic fd name (int ?n) w = bindR (into MAXBUF (ok_head name (int ?n))) (\<lambda>buf.
      bindR (Rio_writen fd buf w) (\<lambda>w. Rio_writen fd (f_bytes f) w))"
    unfolding requestServeStatic_def op bindR_Inr prod.case into_grows
    by (simp only: map cl bindR_Inr ok_head_def append_assoc into_grows)
  then have "requestServeStatic fd name (int ?n) w = Inr w2"
    using fits w1 w2 by (simp add: into_def)
  then show thesis using assms(1,2) size delivers_trans [OF d1 d2]
    by (intro that [of w2]) (simp_all add: requestHandle_def)
qed



text \<open>
  A request for an empty file ends the server: the file is mapped with length \<open>0\<close>, which
  the system refuses, and the wrapper leaves the program.
\<close>

theorem empty_file_ends_server:
  assumes "S_ISREG m" and "and S_IRUSR m \<noteq> 0" and "files w name = Some f" and "may_open w name"
    and "f_bytes f = []" and "least_fd w = Some k"
  shows "requestHandle \<lparr>rc_fd = fd, filesize = 0, is_static = 1,
    sbuf = \<lparr>st_mode = m, st_size = int (length (f_bytes f))\<rparr>, filename = name, cgiargs = args\<rparr> w =
    Inl (Exit ''mmap error'' (Errno 22))"
  using assms by (simp add: requestHandle_def requestServeStatic_def Open_def Mmap_def to_int_def
    unix_error_def)

section \<open>A small site\<close>

definition site :: "arrival list \<Rightarrow> taking list \<Rightarrow> web" where
  "site as ts = net.extend (some_net as ts)
    \<lparr>files = (\<lambda>n. if n = ''./home.html'' then Some \<lparr>f_mode = 0x8100, f_bytes = ''hello''\<rparr>
        else if n = ''./empty'' then Some \<lparr>f_mode = 0x8100, f_bytes = []\<rparr> else None),
      may_open = (\<lambda>_. True), cgi_out = (\<lambda>_ _. []), stdout = []\<rparr>
    \<lparr>opened := (\<lambda>fd. fd < 6)\<rparr>"

lemma site_sel [simp]:
  "arrives (site as ts) fd = as" "takes (site as ts) fd = ts" "sent (site as ts) = (\<lambda>_. [])"
  "opened (site as ts) = (\<lambda>fd. fd < 6)" "may_open (site as ts) n"
  "files (site as ts) ''./home.html'' = Some \<lparr>f_mode = 0x8100, f_bytes = ''hello''\<rparr>"
  "files (site as ts) ''./empty'' = Some \<lparr>f_mode = 0x8100, f_bytes = []\<rparr>"
  by (simp_all add: site_def some_net_def net.defs)

lemma site_fd [simp]: "least_fd (site as ts) = Some 6"
  by (simp add: least_fd_def find_Some_iff) (rule exI [of _ 6], auto)

definition junk_stack :: stack where
  "junk_stack = \<lparr>s_buf = ''?'', s_words = (''?'', ''?'', ''?''), s_hdr = ''?'',
    s_rio = fresh_rio 0, s_tmp = \<lparr>rc_fd = 77, filesize = 9, is_static = 1,
      sbuf = \<lparr>st_mode = 0, st_size = 0\<rparr>, filename = ''?'', cgiargs = []\<rparr>\<rparr>"


lemma empty_file_ends_server_witness:
  "requestHandle \<lparr>rc_fd = 5, filesize = 0, is_static = 1, sbuf = \<lparr>st_mode = 0x8100, st_size = 0\<rparr>,
    filename = ''./empty'', cgiargs = []\<rparr> (site [] []) = Inl (Exit ''mmap error'' (Errno 22))"
  using empty_file_ends_server [where m = "0x8100" and w = "site [] []" and name = "''./empty''" and k = 6
      and f = "\<lparr>f_mode = 0x8100, f_bytes = []\<rparr>"]
  by (simp add: S_ISREG_def)

text \<open>A client that sends one header line and closes the connection.\<close>

lemma headers_return_iff_empty_line_witness:
  "requestReadhdrs (fresh_rio 5) ''?'' (site [Piece CHR ''a'' crlf] []) = None"
proof -
  let ?w = "site [Piece CHR ''a'' crlf] []"
  have fd: "rio_fd (fresh_rio 5) = 5" "stream (fresh_rio 5) ?w = ''a'' @ crlf @ []"
    by (simp_all add: fresh_rio_def rio_readinitb_def stream_def)
  have "next_line (MAXLINE - 1) (''a'' @ crlf @ []) = ''a'' @ crlf"
    by (rule next_line_crlf) simp_all
  then have "skip_headers (''a'' @ crlf @ []) = None"
    by (subst skip_headers.simps) (simp add: Let_def c_string_def crlf_def skip_headers_Nil)
  then show ?thesis using headers_return_iff_empty_line [of ?w "fresh_rio 5" "''?''"] fd
    by (simp add: crlf_def)
qed

lemma error_reply_or_overrun_witness:
  "\<exists>w'. requestError 5 ''PUT'' ''501'' ''Not Implemented'' ''CS537 Server does not implement this method''
      (site [] [Takes 1, Intr]) = Inr w' \<and>
    (let b = error_body ''PUT'' ''501'' ''Not Implemented'' ''CS537 Server does not implement this method'' in
     sent w' 5 = error_head ''501'' ''Not Implemented'' (length b) @ b)"
proof -
  let ?m = "''CS537 Server does not implement this method''"
  let ?b = "error_body ''PUT'' ''501'' ''Not Implemented'' ?m"
  have "length ?b < MAXBUF" by (simp add: error_body_def crlf_def)
  moreover have "willing (takes (site [] [Takes 1, Intr]) 5)"
    "length ''501'' + length ''Not Implemented'' < 8000" by simp_all
  note error_reply_or_overrun [OF this, of "''PUT''" ?m]
  ultimately obtain w' where "requestError 5 ''PUT'' ''501'' ''Not Implemented'' ?m
      (site [] [Takes 1, Intr]) = Inr w'"
    and "delivers 5 (error_head ''501'' ''Not Implemented'' (length ?b) @ ?b) (site [] [Takes 1, Intr]) w'"
    by (auto simp only: if_True)
  then show ?thesis unfolding Let_def by (intro exI [of _ w'] conjI) (simp_all only: delivers_def site_sel fun_upd_same append_Nil)
qed

end
