(* ===== verification/Server.thy ===== *)
theory Server
  imports Request "HOL-Library.Multiset"
begin

text \<open>
  The web server's threads, \<open>src/p4a/server.c\<close>: the ring of waiting requests, which \<open>put\<close> keeps
  sorted by the size of the file, and the producer and the consumers, which share it under one mutex
  with the condition variables \<open>empty\<close> and \<open>fill\<close>.
  A step of the machine is one thread doing one thing; a thread inside the mutex and the system calls
  of the others interleave.  A condition variable wakes at most the threads that wait for it, and may
  wake one for no reason, as its documentation allows.
\<close>

section \<open>The ring of requests\<close>

record request_queue =
  buffer :: "nat \<Rightarrow> request_complex"
  fill_index :: nat
  use_index :: nat
  count :: nat
  real_size :: nat

definition f_index_back_wrap :: "request_queue \<Rightarrow> nat \<Rightarrow> nat" where
  "f_index_back_wrap q i = (if i = 0 then real_size q - 1 else i - 1)"

definition rc_cpy :: "request_complex \<Rightarrow> request_complex \<Rightarrow> request_complex" where
  "rc_cpy dst src = dst\<lparr>rc_fd := rc_fd src, filesize := filesize src, is_static := is_static src,
    sbuf := sbuf src, filename := filename src, cgiargs := cgiargs src\<rparr>"

text \<open>The exchange of the two places; \<open>tmp\<close> is the uninitialised local it goes through.\<close>

definition rc_swap :: "nat \<Rightarrow> nat \<Rightarrow> request_queue \<Rightarrow> request_queue" where
  "rc_swap i j q = (let
      tmp = rc_cpy (buffer q i) (buffer q i);
      q = q\<lparr>buffer := (buffer q)(i := rc_cpy (buffer q i) (buffer q j))\<rparr>
    in q\<lparr>buffer := (buffer q)(j := rc_cpy (buffer q j) tmp)\<rparr>)"

fun put_loop :: "nat \<Rightarrow> nat \<Rightarrow> request_queue \<Rightarrow> request_queue" where
  "put_loop 0 i q = q"
| "put_loop (Suc left) i q =
    (if filesize (buffer q (f_index_back_wrap q i)) \<le> filesize (buffer q i) then q
     else put_loop left (f_index_back_wrap q i) (rc_swap i (f_index_back_wrap q i) q))"

definition put :: "request_complex \<Rightarrow> request_queue \<Rightarrow> request_queue" where
  "put request_c q = (let
      q = q\<lparr>buffer := (buffer q)(fill_index q := request_c)\<rparr>;
      q = (if count q \<noteq> 0 then put_loop (count q) (fill_index q) q else q)
    in q\<lparr>fill_index := (fill_index q + 1) mod real_size q, count := count q + 1\<rparr>)"

definition get :: "request_queue \<Rightarrow> request_complex \<times> request_queue" where
  "get q = (buffer q (use_index q),
    q\<lparr>use_index := (use_index q + 1) mod real_size q, count := count q - 1\<rparr>)"

section \<open>What the ring promises\<close>

text \<open>
  \<open>slide f x xs\<close> puts \<open>x\<close> behind the last element that is not larger, coming from the end.
\<close>

fun slide_back :: "('a \<Rightarrow> int) \<Rightarrow> 'a \<Rightarrow> 'a list \<Rightarrow> 'a list" where
  "slide_back f x [] = [x]"
| "slide_back f x (y # ys) = (if f y \<le> f x then x # y # ys else y # slide_back f x ys)"

definition slide :: "('a \<Rightarrow> int) \<Rightarrow> 'a \<Rightarrow> 'a list \<Rightarrow> 'a list" where
  "slide f x xs = rev (slide_back f x (rev xs))"

lemma slide_Nil [simp]: "slide f x [] = [x]" by (simp add: slide_def)

lemma slide_snoc:
  "slide f x (xs @ [y]) = (if f y \<le> f x then xs @ [y, x] else slide f x xs @ [y])"
  by (simp add: slide_def)

lemma mset_slide [simp]: "mset (slide f x xs) = add_mset x (mset xs)"
  by (induction xs rule: rev_induct) (simp_all add: slide_snoc)

lemma length_slide [simp]: "length (slide f x xs) = Suc (length xs)"
  by (induction xs rule: rev_induct) (simp_all add: slide_snoc)

lemma slide_sorted:
  "sorted (map f xs) \<Longrightarrow> slide f x xs = takeWhile (\<lambda>y. f y \<le> f x) xs @ x # dropWhile (\<lambda>y. f y \<le> f x) xs"
proof (induction xs rule: rev_induct)
  case (snoc y xs)
  then have s: "sorted (map f xs)" "\<forall>z\<in>set xs. f z \<le> f y" by (auto simp: sorted_append)
  show ?case
  proof (cases "f y \<le> f x")
    case True
    then have "\<forall>z\<in>set (xs @ [y]). f z \<le> f x" using s(2) by fastforce
    then have "takeWhile (\<lambda>y. f y \<le> f x) (xs @ [y]) = xs @ [y]"
      "dropWhile (\<lambda>y. f y \<le> f x) (xs @ [y]) = []"
      by (simp_all only: takeWhile_eq_all_conv dropWhile_eq_Nil_conv)
    with True show ?thesis by (simp add: slide_snoc del: takeWhile_append dropWhile_append)
  next
    case False
    with snoc.IH [OF s(1)] show ?thesis
      by (cases "\<exists>z\<in>set xs. \<not> f z \<le> f x")
        (auto simp: slide_snoc takeWhile_append dropWhile_append takeWhile_eq_all_conv [THEN iffD2]
          dropWhile_eq_Nil_conv [THEN iffD2])
  qed
qed simp

lemma sorted_slide: "sorted (map f xs) \<Longrightarrow> sorted (map f (slide f x xs))"
proof (induction xs rule: rev_induct)
  case (snoc y xs)
  then have s: "sorted (map f xs)" "\<forall>z\<in>set xs. f z \<le> f y" by (auto simp: sorted_append)
  have "set (slide f x xs) = insert x (set xs)"
    by (metis mset_slide set_mset_add_mset_insert set_mset_mset)
  with s snoc.IH [OF s(1)] show ?case
    by (auto simp: slide_snoc sorted_append intro: order_trans)
qed simp


definition place :: "request_queue \<Rightarrow> nat \<Rightarrow> nat" where
  "place q k = (use_index q + k) mod real_size q"

definition waiting_requests :: "request_queue \<Rightarrow> request_complex list" where
  "waiting_requests q = map (\<lambda>k. buffer q (place q k)) [0 ..< count q]"

definition queue_ok :: "request_queue \<Rightarrow> bool" where
  "queue_ok q \<longleftrightarrow> 0 < real_size q \<and> count q \<le> real_size q \<and> use_index q < real_size q \<and>
    fill_index q = place q (count q)"

lemma rc_cpy_eq [simp]: "rc_cpy dst src = src"
  by (simp add: rc_cpy_def)

lemma rc_swap_buffer:
  "rc_swap i j q = q\<lparr>buffer := (buffer q)(i := buffer q j, j := buffer q i)\<rparr>"
  by (simp add: rc_swap_def Let_def)

lemma back_place: "0 < real_size q \<Longrightarrow> f_index_back_wrap q (place q (Suc k)) = place q k"
  by (auto simp: f_index_back_wrap_def place_def mod_Suc split: if_splits)

lemma place_apart: "i < j \<Longrightarrow> j < real_size q \<Longrightarrow> place q i \<noteq> place q j"
  using mod_apart [of i j "real_size q" "use_index q"] by (auto simp: place_def)

lemma put_loop_slides:
  assumes "left < real_size q" and "q' = put_loop left (place q left) q"
  shows "map (\<lambda>k. buffer q' (place q k)) [0 ..< Suc left] =
      slide filesize (buffer q (place q left)) (map (\<lambda>k. buffer q (place q k)) [0 ..< left]) \<and>
    (\<forall>k. left < k \<and> k < real_size q \<longrightarrow> buffer q' (place q k) = buffer q (place q k)) \<and>
    real_size q' = real_size q \<and> count q' = count q \<and> use_index q' = use_index q \<and>
    fill_index q' = fill_index q"
  using assms
proof (induction left arbitrary: q q')
  case (Suc left)
  let ?x = "buffer q (place q (Suc left))" and ?y = "buffer q (place q left)"
  from Suc.prems(1) have pos: "0 < real_size q" by simp
  have apart: "place q left \<noteq> place q (Suc left)" using Suc.prems(1) by (intro place_apart) simp_all
  show ?case
  proof (cases "filesize ?y \<le> filesize ?x")
    case True
    with Suc.prems(2) have "q' = q" by (simp add: back_place [OF pos])
    with True show ?thesis by (simp add: slide_snoc)
  next
    case False
    define q1 where "q1 = rc_swap (place q (Suc left)) (place q left) q"
    have sel: "real_size q1 = real_size q" "count q1 = count q" "use_index q1 = use_index q"
      "fill_index q1 = fill_index q"
      by (simp_all add: q1_def rc_swap_buffer)
    then have pl: "place q1 k = place q k" for k by (simp add: place_def)
    have b: "buffer q1 = (buffer q)(place q (Suc left) := ?y, place q left := ?x)"
      by (simp add: q1_def rc_swap_buffer)
    have same: "buffer q1 (place q k) = buffer q (place q k)"
      if "k < left \<or> Suc left < k \<and> k < real_size q" for k
      using that place_apart [of k left q] place_apart [of k "Suc left" q]
        place_apart [of left k q] place_apart [of "Suc left" k q] Suc.prems(1)
      by (auto simp: b)
    have q': "q' = put_loop left (place q1 left) q1"
      using Suc.prems(2) False by (simp add: back_place [OF pos] pl flip: q1_def)
    have old: "map (\<lambda>k. buffer q1 (place q k)) [0 ..< left] = map (\<lambda>k. buffer q (place q k)) [0 ..< left]"
      by (rule map_cong) (simp_all add: same)
    note IH = Suc.IH [OF _ q', unfolded pl sel old]
    from Suc.prems(1) IH have IH': "map (\<lambda>k. buffer q' (place q k)) [0 ..< Suc left] =
        slide filesize ?x (map (\<lambda>k. buffer q (place q k)) [0 ..< left])"
      "\<And>k. left < k \<Longrightarrow> k < real_size q \<Longrightarrow> buffer q' (place q k) = buffer q1 (place q k)"
      "real_size q' = real_size q \<and> count q' = count q \<and> use_index q' = use_index q \<and>
        fill_index q' = fill_index q"
      using apart by (auto simp: b)
    from IH'(2) [of "Suc left"] Suc.prems(1) apart have "buffer q' (place q (Suc left)) = ?y"
      by (simp add: b)
    with IH' False same show ?thesis by (simp add: slide_snoc)
  qed
qed simp


lemma put_keeps:
  assumes "queue_ok q" and "count q < real_size q"
  shows "queue_ok (put r q)" and "waiting_requests (put r q) = slide filesize r (waiting_requests q)"
    and "real_size (put r q) = real_size q" and "count (put r q) = Suc (count q)"
proof -
  define q0 where "q0 = q\<lparr>buffer := (buffer q)(fill_index q := r)\<rparr>"
  define q1 where "q1 = put_loop (count q) (place q (count q)) q0"
  have sel: "real_size q0 = real_size q" "count q0 = count q" "use_index q0 = use_index q"
    "fill_index q0 = fill_index q"
    by (simp_all add: q0_def)
  then have pl: "place q0 k = place q k" for k by (simp add: place_def)
  have f: "fill_index q = place q (count q)" using assms(1) by (simp add: queue_ok_def)
  have new: "buffer q0 (place q (count q)) = r" by (simp add: q0_def f)
  have old: "map (\<lambda>k. buffer q0 (place q k)) [0 ..< count q] = waiting_requests q"
    unfolding waiting_requests_def
    by (rule map_cong) (use place_apart [of _ "count q" q] assms(2) in \<open>auto simp: f q0_def\<close>)
  have "q1 = put_loop (count q) (place q0 (count q)) q0" by (simp add: q1_def pl)
  from put_loop_slides [OF _ this, unfolded pl new old sel] assms(2)
  have q1: "map (\<lambda>k. buffer q1 (place q k)) [0 ..< Suc (count q)] = slide filesize r (waiting_requests q)"
    "real_size q1 = real_size q" "count q1 = count q" "use_index q1 = use_index q"
    "fill_index q1 = fill_index q"
    by simp_all
  have put: "put r q = q1\<lparr>fill_index := (fill_index q + 1) mod real_size q, count := Suc (count q)\<rparr>"
    using q1(2-) 
    by (cases "count q = 0") (simp_all add: put_def Let_def q1_def q0_def f)
  have pl': "place (put r q) k = place q k" for k by (simp add: place_def put q1)
  show "real_size (put r q) = real_size q" "count (put r q) = Suc (count q)" by (simp_all add: put q1)
  show "waiting_requests (put r q) = slide filesize r (waiting_requests q)"
    using q1(1) unfolding waiting_requests_def pl' by (simp add: put del: upt_Suc)
  show "queue_ok (put r q)"
    using assms by (simp add: queue_ok_def pl' put q1) (simp add: place_def mod_Suc_eq q1)
qed

lemma get_takes:
  assumes "queue_ok q" and "0 < count q"
  obtains q' where "get q = (hd (waiting_requests q), q')" and "queue_ok q'"
    and "waiting_requests q' = tl (waiting_requests q)" and "real_size q' = real_size q"
    and "count q' = count q - 1"
proof -
  define q' where "q' = snd (get q)"
  have g: "get q = (buffer q (use_index q), q')" by (simp add: q'_def get_def)
  have sel: "real_size q' = real_size q" "count q' = count q - 1" "buffer q' = buffer q"
    "use_index q' = (use_index q + 1) mod real_size q" "fill_index q' = fill_index q"
    by (simp_all add: q'_def get_def)
  have pl: "place q' k = place q (Suc k)" for k
    using mod_add_left_eq [of "use_index q + 1" "real_size q" k] by (simp add: place_def sel)
  have "[0 ..< count q] = 0 # map Suc [0 ..< count q - 1]"
    using assms(2) by (simp add: upt_conv_Cons map_Suc_upt)
  then have w: "waiting_requests q = buffer q (place q 0) # waiting_requests q'"
    by (simp add: waiting_requests_def sel pl)
  have "place q 0 = use_index q" using assms(1) by (simp add: queue_ok_def place_def)
  moreover have "queue_ok q'" using assms by (auto simp: queue_ok_def sel pl)
  ultimately show thesis using g w sel by (intro that [of q']) simp_all
qed

lemma length_waiting [simp]: "length (waiting_requests q) = count q"
  by (simp add: waiting_requests_def)

text \<open>
  The promise as an interface: a bounded buffer that serves the lightest element first and keeps the
  order of arrival among equals.
\<close>

locale light_first =
  fixes ok :: "'q \<Rightarrow> bool" and elems :: "'q \<Rightarrow> 'a list" and room :: "'q \<Rightarrow> nat"
    and ins :: "'a \<Rightarrow> 'q \<Rightarrow> 'q" and takes_out :: "'q \<Rightarrow> 'a \<times> 'q" and weight :: "'a \<Rightarrow> int"
  assumes ins: "ok q \<Longrightarrow> length (elems q) < room q \<Longrightarrow>
      ok (ins x q) \<and> elems (ins x q) = slide weight x (elems q) \<and> room (ins x q) = room q"
    and takes_out: "ok q \<Longrightarrow> elems q = x # xs \<Longrightarrow>
      \<exists>q'. takes_out q = (x, q') \<and> ok q' \<and> elems q' = xs \<and> room q' = room q"
begin

definition light :: "'q \<Rightarrow> bool" where
  "light q \<longleftrightarrow> ok q \<and> length (elems q) \<le> room q \<and> sorted (map weight (elems q))"

lemma light_ins:
  assumes "light q" and "length (elems q) < room q"
  shows "light (ins x q)" and "mset (elems (ins x q)) = add_mset x (mset (elems q))"
    and "elems (ins x q) = takeWhile (\<lambda>y. weight y \<le> weight x) (elems q) @ x #
      dropWhile (\<lambda>y. weight y \<le> weight x) (elems q)"
proof -
  have new: "ok (ins x q)" "elems (ins x q) = slide weight x (elems q)" "room (ins x q) = room q"
    using assms ins [of q x] by (simp_all add: light_def)
  show "light (ins x q)" using assms sorted_slide [of weight "elems q" x] by (simp add: light_def new)
  show "mset (elems (ins x q)) = add_mset x (mset (elems q))" by (simp add: new)
  show "elems (ins x q) = takeWhile (\<lambda>y. weight y \<le> weight x) (elems q) @ x #
      dropWhile (\<lambda>y. weight y \<le> weight x) (elems q)"
    using assms(1) by (simp add: new slide_sorted light_def)
qed

lemma light_takes_out:
  assumes "light q" and "elems q \<noteq> []" and "takes_out q = (x, q')"
  shows "light q'" and "mset (elems q) = add_mset x (mset (elems q'))"
    and "\<forall>y\<in>set (elems q). weight x \<le> weight y"
proof -
  from assms(2) obtain z zs where z: "elems q = z # zs" by (cases "elems q") auto
  with assms(1,3) takes_out [of q z zs]
  show "light q'" "mset (elems q) = add_mset x (mset (elems q'))"
    "\<forall>y\<in>set (elems q). weight x \<le> weight y"
    by (auto simp: light_def)
qed

end

interpretation lq: light_first queue_ok waiting_requests real_size put get filesize
proof
  fix q x
  assume "queue_ok q" "length (waiting_requests q) < real_size q"
  then show "queue_ok (put x q) \<and> waiting_requests (put x q) = slide filesize x (waiting_requests q) \<and>
      real_size (put x q) = real_size q"
    using put_keeps [of q x] by simp
next
  fix q x xs
  assume q: "queue_ok q" "waiting_requests q = x # xs"
  then have "0 < count q" using length_waiting [of q] by (cases "count q") auto
  then obtain q' where "get q = (hd (waiting_requests q), q')" "queue_ok q'"
    "waiting_requests q' = tl (waiting_requests q)" "real_size q' = real_size q"
    by (rule get_takes [OF q(1)])
  with q(2) show "\<exists>q'. get q = (x, q') \<and> queue_ok q' \<and> waiting_requests q' = xs \<and> real_size q' = real_size q"
    by simp
qed


section \<open>The threads\<close>

text \<open>
  Where a thread is: \<open>P_Lock\<close> and \<open>C_Lock\<close> are before \<open>pthread_mutex_lock\<close> (or inside
  \<open>pthread_cond_wait\<close>, woken and taking the mutex again), \<open>P_Wait\<close> and \<open>C_Wait\<close> asleep in
  \<open>pthread_cond_wait\<close>; in the other places but \<open>P_Accept\<close> the thread has the mutex.
\<close>

datatype producer_pc = P_Accept | P_Lock int | P_Check int | P_Wait int | P_Put int | P_Signal | P_Unlock

datatype consumer_pc = C_Lock | C_Check | C_Wait | C_Handle request_complex | C_Signal | C_Unlock

datatype thread = Producer | Consumer nat

text \<open>
  \<open>put_log\<close> and \<open>done_log\<close> are the requests the producer has put and the consumers have handled, in
  order; \<open>exited\<close> is set when a wrapper has left the program.
\<close>

record server =
  num_thread :: nat
  mutex :: "thread option"
  prod_pc :: producer_pc
  cons_pc :: "nat \<Rightarrow> consumer_pc"
  squeue :: request_queue
  world :: web
  put_log :: "request_complex list"
  done_log :: "request_complex list"
  exited :: "stop option"

definition at_cons :: "nat \<Rightarrow> consumer_pc \<Rightarrow> server \<Rightarrow> server" where
  "at_cons i c s = s\<lparr>cons_pc := (cons_pc s)(i := c)\<rparr>"

definition waiting_cons :: "server \<Rightarrow> nat \<Rightarrow> bool" where
  "waiting_cons s i \<longleftrightarrow> i < num_thread s \<and> cons_pc s i = C_Wait"

definition web_init :: "nat \<Rightarrow> nat \<Rightarrow> (nat \<Rightarrow> request_complex) \<Rightarrow> web \<Rightarrow> server" where
  "web_init threads buffers junk w = \<lparr>num_thread = threads, mutex = None, prod_pc = P_Accept,
    cons_pc = (\<lambda>_. C_Lock), squeue = \<lparr>buffer = junk, fill_index = 0, use_index = 0, count = 0,
      real_size = buffers\<rparr>, world = w, put_log = [], done_log = [], exited = None\<rparr>"

inductive server_step :: "server \<Rightarrow> server \<Rightarrow> bool" where
  accept_conn: "exited s = None \<Longrightarrow> prod_pc s = P_Accept \<Longrightarrow> least_fd (world s) = Some fd \<Longrightarrow>
    server_step s (s\<lparr>prod_pc := P_Lock fd, world := (world s)\<lparr>opened := (opened (world s))(fd := True),
      arrives := (arrives (world s))(fd := as), takes := (takes (world s))(fd := ts)\<rparr>\<rparr>)"
| accept_dies: "exited s = None \<Longrightarrow> prod_pc s = P_Accept \<Longrightarrow> least_fd (world s) = None \<Longrightarrow>
    server_step s (s\<lparr>exited := Some (Exit ''Accept error'' (Errno 24))\<rparr>)"
| prod_lock: "exited s = None \<Longrightarrow> prod_pc s = P_Lock fd \<Longrightarrow> mutex s = None \<Longrightarrow>
    server_step s (s\<lparr>prod_pc := P_Check fd, mutex := Some Producer\<rparr>)"
| prod_wait: "exited s = None \<Longrightarrow> prod_pc s = P_Check fd \<Longrightarrow> count (squeue s) = real_size (squeue s) \<Longrightarrow>
    server_step s (s\<lparr>prod_pc := P_Wait fd, mutex := None\<rparr>)"
| prod_room: "exited s = None \<Longrightarrow> prod_pc s = P_Check fd \<Longrightarrow> count (squeue s) \<noteq> real_size (squeue s) \<Longrightarrow>
    server_step s (s\<lparr>prod_pc := P_Put fd\<rparr>)"
| prod_put: "exited s = None \<Longrightarrow> prod_pc s = P_Put fd \<Longrightarrow>
    pre_handle st fd (world s) = Some (Inr (r, w)) \<Longrightarrow>
    server_step s (s\<lparr>prod_pc := P_Signal, squeue := put r (squeue s), world := w,
      put_log := put_log s @ [r]\<rparr>)"
| prod_dies: "exited s = None \<Longrightarrow> prod_pc s = P_Put fd \<Longrightarrow>
    pre_handle st fd (world s) = Some (Inl e) \<Longrightarrow> server_step s (s\<lparr>exited := Some e\<rparr>)"
| prod_signals: "exited s = None \<Longrightarrow> prod_pc s = P_Signal \<Longrightarrow> waiting_cons s i \<Longrightarrow>
    server_step s (at_cons i C_Lock (s\<lparr>prod_pc := P_Unlock\<rparr>))"
| prod_signals_none: "exited s = None \<Longrightarrow> prod_pc s = P_Signal \<Longrightarrow> (\<And>i. \<not> waiting_cons s i) \<Longrightarrow>
    server_step s (s\<lparr>prod_pc := P_Unlock\<rparr>)"
| prod_unlock: "exited s = None \<Longrightarrow> prod_pc s = P_Unlock \<Longrightarrow>
    server_step s (s\<lparr>prod_pc := P_Accept, mutex := None\<rparr>)"
| prod_spurious: "exited s = None \<Longrightarrow> prod_pc s = P_Wait fd \<Longrightarrow>
    server_step s (s\<lparr>prod_pc := P_Lock fd\<rparr>)"
| cons_lock: "exited s = None \<Longrightarrow> i < num_thread s \<Longrightarrow> cons_pc s i = C_Lock \<Longrightarrow> mutex s = None \<Longrightarrow>
    server_step s (at_cons i C_Check (s\<lparr>mutex := Some (Consumer i)\<rparr>))"
| cons_wait: "exited s = None \<Longrightarrow> i < num_thread s \<Longrightarrow> cons_pc s i = C_Check \<Longrightarrow> count (squeue s) = 0 \<Longrightarrow>
    server_step s (at_cons i C_Wait (s\<lparr>mutex := None\<rparr>))"
| cons_get: "exited s = None \<Longrightarrow> i < num_thread s \<Longrightarrow> cons_pc s i = C_Check \<Longrightarrow> count (squeue s) \<noteq> 0 \<Longrightarrow>
    get (squeue s) = (r, q) \<Longrightarrow> server_step s (at_cons i (C_Handle r) (s\<lparr>squeue := q\<rparr>))"
| cons_handle: "exited s = None \<Longrightarrow> i < num_thread s \<Longrightarrow> cons_pc s i = C_Handle r \<Longrightarrow>
    bindR (requestHandle r (world s)) (Close (rc_fd r)) = Inr w \<Longrightarrow>
    server_step s (at_cons i C_Signal (s\<lparr>world := w, done_log := done_log s @ [r]\<rparr>))"
| cons_dies: "exited s = None \<Longrightarrow> i < num_thread s \<Longrightarrow> cons_pc s i = C_Handle r \<Longrightarrow>
    bindR (requestHandle r (world s)) (Close (rc_fd r)) = Inl e \<Longrightarrow>
    server_step s (s\<lparr>exited := Some e\<rparr>)"
| cons_signals: "exited s = None \<Longrightarrow> i < num_thread s \<Longrightarrow> cons_pc s i = C_Signal \<Longrightarrow>
    prod_pc s = P_Wait fd \<Longrightarrow> server_step s (at_cons i C_Unlock (s\<lparr>prod_pc := P_Lock fd\<rparr>))"
| cons_signals_none: "exited s = None \<Longrightarrow> i < num_thread s \<Longrightarrow> cons_pc s i = C_Signal \<Longrightarrow>
    (\<And>fd. prod_pc s \<noteq> P_Wait fd) \<Longrightarrow> server_step s (at_cons i C_Unlock s)"
| cons_unlock: "exited s = None \<Longrightarrow> i < num_thread s \<Longrightarrow> cons_pc s i = C_Unlock \<Longrightarrow>
    server_step s (at_cons i C_Lock (s\<lparr>mutex := None\<rparr>))"
| cons_spurious: "exited s = None \<Longrightarrow> waiting_cons s i \<Longrightarrow> server_step s (at_cons i C_Lock s)"

inductive server_reach :: "server \<Rightarrow> server \<Rightarrow> bool" for s0 :: server where
  start: "server_reach s0 s0"
| again: "server_reach s0 s \<Longrightarrow> server_step s s' \<Longrightarrow> server_reach s0 s'"


section \<open>The invariant\<close>

definition prod_inside :: "producer_pc \<Rightarrow> bool" where
  "prod_inside p = (case p of P_Check _ \<Rightarrow> True | P_Put _ \<Rightarrow> True | P_Signal \<Rightarrow> True | P_Unlock \<Rightarrow> True
    | _ \<Rightarrow> False)"

definition cons_inside :: "consumer_pc \<Rightarrow> bool" where
  "cons_inside c = (c \<noteq> C_Lock \<and> c \<noteq> C_Wait)"

definition mutex_ok :: "server \<Rightarrow> bool" where
  "mutex_ok s \<longleftrightarrow> (prod_inside (prod_pc s) \<longleftrightarrow> mutex s = Some Producer) \<and>
    (\<forall>i < num_thread s. cons_inside (cons_pc s i) \<longleftrightarrow> mutex s = Some (Consumer i))"

definition room_ok :: "server \<Rightarrow> bool" where
  "room_ok s \<longleftrightarrow> lq.light (squeue s) \<and>
    (\<forall>fd. prod_pc s = P_Put fd \<longrightarrow> count (squeue s) < real_size (squeue s))"

definition in_hand :: "server \<Rightarrow> request_complex multiset" where
  "in_hand s = (case mutex s of Some (Consumer i) \<Rightarrow>
      (case cons_pc s i of C_Handle r \<Rightarrow> {#r#} | _ \<Rightarrow> {#}) | _ \<Rightarrow> {#})"

definition logs_ok :: "server \<Rightarrow> bool" where
  "logs_ok s \<longleftrightarrow> mset (put_log s) =
    mset (done_log s) + in_hand s + mset (waiting_requests (squeue s))"

text \<open>
  No wake-up is lost: a sleeping producer has a full ring, or a consumer is about to signal; and when
  a request waits, not all consumers sleep, or the producer is about to signal.
\<close>

definition wakes_ok :: "server \<Rightarrow> bool" where
  "wakes_ok s \<longleftrightarrow>
    ((\<exists>fd. prod_pc s = P_Wait fd) \<longrightarrow> count (squeue s) = real_size (squeue s) \<or>
      (\<exists>i < num_thread s. cons_pc s i = C_Signal \<or> (\<exists>r. cons_pc s i = C_Handle r))) \<and>
    (0 < count (squeue s) \<longrightarrow> prod_pc s = P_Signal \<or> (\<exists>i < num_thread s. cons_pc s i \<noteq> C_Wait))"

definition server_ok :: "server \<Rightarrow> bool" where
  "server_ok s \<longleftrightarrow> mutex_ok s \<and> room_ok s \<and> logs_ok s \<and> wakes_ok s"

lemma at_cons_sel [simp]:
  "num_thread (at_cons i c s) = num_thread s" "mutex (at_cons i c s) = mutex s"
  "prod_pc (at_cons i c s) = prod_pc s" "squeue (at_cons i c s) = squeue s"
  "world (at_cons i c s) = world s" "put_log (at_cons i c s) = put_log s"
  "done_log (at_cons i c s) = done_log s" "exited (at_cons i c s) = exited s"
  "cons_pc (at_cons i c s) = (cons_pc s)(i := c)"
  by (simp_all add: at_cons_def)

lemma inside_simps [simp]:
  "\<not> prod_inside P_Accept" "\<not> prod_inside (P_Lock fd)" "\<not> prod_inside (P_Wait fd)"
  "prod_inside (P_Check fd)" "prod_inside (P_Put fd)" "prod_inside P_Signal" "prod_inside P_Unlock"
  "\<not> cons_inside C_Lock" "\<not> cons_inside C_Wait" "cons_inside C_Check" "cons_inside (C_Handle r)"
  "cons_inside C_Signal" "cons_inside C_Unlock"
  by (simp_all add: prod_inside_def cons_inside_def)

lemma mutex_ok_step: "server_step s s' \<Longrightarrow> mutex_ok s \<Longrightarrow> mutex_ok s'"
  by (induction rule: server_step.induct) (auto simp: mutex_ok_def waiting_cons_def)

lemma at_most_one_inside:
  assumes "mutex_ok s"
  shows "prod_inside (prod_pc s) \<Longrightarrow> mutex s = Some Producer"
    and "i < num_thread s \<Longrightarrow> cons_inside (cons_pc s i) \<Longrightarrow> mutex s = Some (Consumer i)"
  using assms by (simp_all add: mutex_ok_def)

lemma room_ok_step:
  assumes "server_step s s'" and "server_ok s"
  shows "room_ok s' \<and> real_size (squeue s') = real_size (squeue s)"
  using assms
proof (induction rule: server_step.induct)
  case (prod_put s fd st r w)
  then have "lq.light (squeue s)" "count (squeue s) < real_size (squeue s)"
    by (simp_all add: server_ok_def room_ok_def)
  with lq.light_ins(1) [of "squeue s" r] put_keeps(3) [of "squeue s" r] show ?case
    by (simp add: room_ok_def lq.light_def)
next
  case (cons_get s i r q)
  then have q: "lq.light (squeue s)" "waiting_requests (squeue s) \<noteq> []" "prod_pc s \<noteq> P_Put fd" for fd
    using length_waiting [of "squeue s"]
    by (auto simp: server_ok_def room_ok_def mutex_ok_def simp del: length_waiting)
  with lq.light_takes_out(1) [OF q(1,2) cons_get.hyps(5)] cons_get.hyps(5) show ?case
    by (auto simp: room_ok_def get_def)
qed (auto simp: server_ok_def room_ok_def lq.light_def)


lemma in_hand_none: "mutex s = None \<Longrightarrow> in_hand s = {#}" "mutex s = Some Producer \<Longrightarrow> in_hand s = {#}"
  by (simp_all add: in_hand_def)

lemma in_hand_cons:
  "mutex s = Some (Consumer i) \<Longrightarrow> in_hand s = (case cons_pc s i of C_Handle r \<Rightarrow> {#r#} | _ \<Rightarrow> {#})"
  by (simp add: in_hand_def)

lemma logs_ok_step:
  assumes "server_step s s'" and "server_ok s"
  shows "logs_ok s'"
proof -
  have ok: "mutex_ok s" "logs_ok s" "room_ok s" using assms(2) by (simp_all add: server_ok_def)
  have kept: "logs_ok s'"
    if "in_hand s' = in_hand s" "put_log s' = put_log s" "done_log s' = done_log s" "squeue s' = squeue s"
    using that ok(2) by (simp add: logs_ok_def)
  have waiter: "mutex s \<noteq> Some (Consumer i)" if "waiting_cons s i" for i
    using that ok(1) by (auto simp: waiting_cons_def mutex_ok_def)
  note inside = at_most_one_inside [OF ok(1)]
  from assms(1) show ?thesis
  proof cases
    case (prod_put fd st r w)
    then have "lq.light (squeue s)" "count (squeue s) < real_size (squeue s)" "mutex s = Some Producer"
      using ok by (simp_all add: room_ok_def mutex_ok_def)
    with lq.light_ins(2) [of "squeue s" r] ok(2) prod_put(1) show ?thesis
      by (simp add: logs_ok_def in_hand_def)
  next
    case (cons_get i r q)
    then have m: "mutex s = Some (Consumer i)" using inside(2) [of i] by simp
    from cons_get have q: "lq.light (squeue s)" "waiting_requests (squeue s) \<noteq> []"
      using ok length_waiting [of "squeue s"] by (auto simp: room_ok_def simp del: length_waiting)
    from lq.light_takes_out(2) [OF q cons_get(6)] ok(2) m cons_get(1,4) show ?thesis
      by (simp add: logs_ok_def in_hand_def)
  next
    case (cons_handle i r w)
    then have m: "mutex s = Some (Consumer i)" using inside(2) [of i] by simp
    with cons_handle ok(2) show ?thesis by (simp add: logs_ok_def in_hand_def)
  next
    case (cons_signals i fd)
    then have "mutex s = Some (Consumer i)" using inside(2) [of i] by simp
    with cons_signals show ?thesis by (intro kept) (simp_all add: in_hand_def)
  next
    case (cons_signals_none i)
    then have "mutex s = Some (Consumer i)" using inside(2) [of i] by simp
    with cons_signals_none show ?thesis by (intro kept) (simp_all add: in_hand_def)
  next
    case (cons_unlock i)
    then have "mutex s = Some (Consumer i)" using inside(2) [of i] by simp
    with cons_unlock show ?thesis by (intro kept) (simp_all add: in_hand_def)
  next
    case (cons_wait i)
    then have "mutex s = Some (Consumer i)" using inside(2) [of i] by simp
    with cons_wait show ?thesis by (intro kept) (simp_all add: in_hand_def)
  next
    case (cons_spurious i)
    with waiter [of i] show ?thesis
      by (intro kept) (auto simp: in_hand_def split: option.splits thread.splits)
  next
    case (prod_signals i)
    with waiter [of i] show ?thesis
      by (intro kept) (auto simp: in_hand_def split: option.splits thread.splits)
  qed (use ok in \<open>auto simp: logs_ok_def in_hand_def mutex_ok_def
    cong: option.case_cong thread.case_cong\<close>)
qed


lemma wakes_ok_step:
  assumes "server_step s s'" and "server_ok s" and "0 < num_thread s"
  shows "wakes_ok s'"
proof -
  have ok: "mutex_ok s" "wakes_ok s" "room_ok s" using assms(2) by (simp_all add: server_ok_def)
  note inside = at_most_one_inside [OF ok(1)]
  have other: "cons_pc s j = C_Lock \<or> cons_pc s j = C_Wait"
    if "i < num_thread s" "cons_inside (cons_pc s i)" "j < num_thread s" "j \<noteq> i" for i j
    using that inside(2) [of i] inside(2) [of j] by (auto simp: cons_inside_def)
  have alone: "cons_pc s j = C_Lock \<or> cons_pc s j = C_Wait"
    if "prod_inside (prod_pc s)" "j < num_thread s" for j
    using that inside(1) inside(2) [of j] by (auto simp: cons_inside_def)
  from assms(1) show ?thesis
  proof cases
    case (cons_wait i)
    have "cons_pc s j \<noteq> C_Signal \<and> (\<forall>r. cons_pc s j \<noteq> C_Handle r)" if "j < num_thread s" for j
      using other [of i j] cons_wait that by (cases "j = i") auto
    with cons_wait ok(2) show ?thesis by (auto simp: wakes_ok_def)
  next
    case (cons_get i r q)
    then show ?thesis by (auto simp: wakes_ok_def intro!: exI [of _ i])
  next
    case (cons_handle i r w)
    with ok(2) show ?thesis by (auto simp: wakes_ok_def)
  next
    case (prod_put fd st r w)
    then show ?thesis by (simp add: wakes_ok_def)
  next
    case (prod_signals i)
    then show ?thesis by (auto simp: wakes_ok_def waiting_cons_def)
  next
    case prod_signals_none
    then have "cons_pc s 0 \<noteq> C_Wait" using assms(3) by (simp add: waiting_cons_def)
    with prod_signals_none assms(3) show ?thesis by (auto simp: wakes_ok_def)
  next
    case (cons_signals_none i)
    then show ?thesis by (auto simp: wakes_ok_def)
  next
    case (prod_wait fd)
    with ok(2) show ?thesis by (auto simp: wakes_ok_def)
  next
    case (cons_unlock i)
    have no: "cons_pc s j \<noteq> C_Signal \<and> (\<forall>r. cons_pc s j \<noteq> C_Handle r)" if "j < num_thread s" for j
      using other [of i j] cons_unlock that by (cases "j = i") auto
    with cons_unlock ok(2) show ?thesis by (auto simp: wakes_ok_def)
  next
    case (cons_lock i)
    have "cons_pc s j \<noteq> C_Signal \<and> (\<forall>r. cons_pc s j \<noteq> C_Handle r)" if "j < num_thread s" for j
      using inside(2) [of j] cons_lock that by auto
    with cons_lock ok show ?thesis by (auto simp: wakes_ok_def)
  next
    case (cons_spurious i)
    then have i: "i < num_thread s" "cons_pc s i = C_Wait" by (simp_all add: waiting_cons_def)
    have "count (squeue s) = real_size (squeue s) \<or> (\<exists>j < num_thread s. j \<noteq> i \<and>
        (cons_pc s j = C_Signal \<or> (\<exists>r. cons_pc s j = C_Handle r)))" if "prod_pc s = P_Wait fd" for fd
      using that ok(2) i(2) unfolding wakes_ok_def by (metis consumer_pc.distinct(19,21))
    with cons_spurious i show ?thesis by (auto simp: wakes_ok_def)
  qed (use ok in \<open>auto simp: wakes_ok_def\<close>)
qed

lemma server_step_ok:
  assumes "server_step s s'" and "server_ok s" and "0 < num_thread s"
  shows "server_ok s'"
  using mutex_ok_step [OF assms(1)] room_ok_step [OF assms(1,2)] logs_ok_step [OF assms(1,2)]
    wakes_ok_step [OF assms] assms(2)
  by (simp add: server_ok_def)

lemma server_step_threads: "server_step s s' \<Longrightarrow> num_thread s' = num_thread s"
  by (induction rule: server_step.induct) simp_all

lemma web_init_ok:
  "0 < buffers \<Longrightarrow> server_ok (web_init threads buffers junk w)"
  by (simp add: server_ok_def web_init_def mutex_ok_def room_ok_def logs_ok_def wakes_ok_def
    in_hand_def lq.light_def queue_ok_def place_def waiting_requests_def)

lemma server_reach_ok:
  assumes "server_reach (web_init threads buffers junk w) s" and "0 < threads" and "0 < buffers"
  shows "server_ok s \<and> num_thread s = threads \<and> real_size (squeue s) = buffers"
  using assms
proof (induction rule: server_reach.induct)
  case start
  then show ?case using web_init_ok [of buffers threads junk w] by (simp add: web_init_def)
next
  case (again s s')
  then show ?case
    using server_step_ok [of s s'] server_step_threads [of s s'] room_ok_step [of s s'] by simp
qed


section \<open>The properties\<close>

text \<open>
  Claim C30.  The ring is a bounded priority queue: \<open>put\<close> places a request behind the waiting ones whose
  file is not larger and before the others, which keeps the ring sorted and requests of equal size in
  their order of arrival.
\<close>

theorem put_keeps_queue_sorted:
  assumes "queue_ok q" and "sorted (map filesize (waiting_requests q))" and "count q < real_size q"
  shows "queue_ok (put r q) \<and> sorted (map filesize (waiting_requests (put r q))) \<and>
    waiting_requests (put r q) = takeWhile (\<lambda>x. filesize x \<le> filesize r) (waiting_requests q) @ r #
      dropWhile (\<lambda>x. filesize x \<le> filesize r) (waiting_requests q)"
proof -
  have l: "lq.light q" and n: "length (waiting_requests q) < real_size q"
    using assms by (simp_all add: lq.light_def)
  from lq.light_ins(1,3) [OF l n, of r] show ?thesis by (simp add: lq.light_def)
qed

text \<open>
  Claim C27.  Every request that was put is handled once: in every reachable state the requests put are
  the requests handled, the one in a consumer's hands and the ones waiting in the ring, which are
  sorted and never more than it has places; and at most one thread is inside the mutex, so that at
  most one request is being handled, whatever the number of consumers.
\<close>

theorem requests_are_handled_once:
  assumes "server_reach (web_init threads buffers junk w) s" and "0 < threads" and "0 < buffers"
  shows "mset (put_log s) = mset (done_log s) + in_hand s + mset (waiting_requests (squeue s)) \<and>
    sorted (map filesize (waiting_requests (squeue s))) \<and> count (squeue s) \<le> buffers \<and>
    (\<forall>i < threads. \<forall>j < threads. cons_inside (cons_pc s i) \<and> cons_inside (cons_pc s j) \<longrightarrow> i = j) \<and>
    (\<forall>i < threads. cons_inside (cons_pc s i) \<longrightarrow> \<not> prod_inside (prod_pc s))"
proof -
  note r = server_reach_ok [OF assms]
  then have "mutex_ok s" by (simp add: server_ok_def)
  note inside = at_most_one_inside [OF this]
  from r have "logs_ok s" "lq.light (squeue s)" by (simp_all add: server_ok_def room_ok_def)
  then have "mset (put_log s) = mset (done_log s) + in_hand s + mset (waiting_requests (squeue s))"
    "sorted (map filesize (waiting_requests (squeue s)))" "count (squeue s) \<le> buffers"
    using r by (simp_all add: logs_ok_def lq.light_def)
  moreover have "i = j" if "i < threads" "j < threads" "cons_inside (cons_pc s i)"
    "cons_inside (cons_pc s j)" for i j
    using inside(2) [of i] inside(2) [of j] that r by simp
  moreover have "\<not> prod_inside (prod_pc s)" if "i < threads" "cons_inside (cons_pc s i)" for i
    using inside(1) inside(2) [of i] that r by auto
  ultimately show ?thesis by blast
qed

text \<open>
  Claim C28.  No wake-up is lost: whenever the mutex is free, the producer sleeps only if the ring is
  full, and if a request waits then some consumer is not asleep but on its way to the mutex.
\<close>

theorem no_server_wakeup_is_lost:
  assumes "server_reach (web_init threads buffers junk w) s" and "0 < threads" and "0 < buffers"
    and "mutex s = None"
  shows "((\<exists>fd. prod_pc s = P_Wait fd) \<longrightarrow> count (squeue s) = buffers) \<and>
    (0 < count (squeue s) \<longrightarrow> (\<exists>i < threads. cons_pc s i = C_Lock))"
proof -
  note r = server_reach_ok [OF assms(1-3)]
  then have m: "mutex_ok s" and w: "wakes_ok s" by (simp_all add: server_ok_def)
  have out: "cons_pc s i = C_Lock \<or> cons_pc s i = C_Wait" if "i < threads" for i
    using at_most_one_inside(2) [OF m, of i] that r assms(4) by (auto simp: cons_inside_def)
  have "prod_pc s \<noteq> P_Signal" using at_most_one_inside(1) [OF m] assms(4) by auto
  with w out r show ?thesis unfolding wakes_ok_def by (metis consumer_pc.distinct(7,9) consumer_pc.simps)
qed

lemma skip_headers_unfinished:
  "list_all plain_header hdrs \<Longrightarrow> skip_headers (concat (map (\<lambda>h. h @ crlf) hdrs)) = None"
proof (induction hdrs)
  case (Cons h hdrs)
  then have "skip_headers (h @ crlf @ concat (map (\<lambda>h. h @ crlf) hdrs)) =
      skip_headers (concat (map (\<lambda>h. h @ crlf) hdrs))"
    by (intro skip_headers_line) simp
  with Cons show ?case by simp
qed (simp add: skip_headers_Nil)

lemma pre_handle_unfinished:
  assumes "whole (arrives w fd)" and "plain_uri uri" and "list_all plain_header hdrs" and "hdrs \<noteq> []"
    and "pend (arrives w fd) = ''GET '' @ uri @ '' HTTP/1.0'' @ crlf @ concat (map (\<lambda>h. h @ crlf) hdrs)"
  shows "pre_handle st fd w = None"
proof (rule request_line_read [OF assms(1,5,2), of st], goal_cases)
  case (1 n rp1 w1)
  have "concat (map (\<lambda>h. h @ crlf) hdrs) \<noteq> []" using assms(4) by (cases hdrs) (simp_all add: crlf_def)
  with 1 requestReadhdrs_skips [of "logged uri w1" rp1 "s_hdr st"] skip_headers_unfinished [OF assms(3)]
  have "requestReadhdrs rp1 (s_hdr st) (logged uri w1) = None" by simp
  then show ?case by (simp add: pre_handle_after_line [OF 1(1,2)])
qed

text \<open>
  Claim C29.  One client stops the whole server: when the producer is reading a request whose client
  has sent its request line and some header lines and has closed the connection before the empty
  line, it never leaves the mutex, and no request is handled from then on.
\<close>

theorem unfinished_request_stops_server:
  assumes "server_reach (web_init threads buffers junk w0) s" and "0 < threads" and "0 < buffers"
    and "prod_pc s = P_Put fd" and "whole (arrives (world s) fd)"
    and "pend (arrives (world s) fd) =
      ''GET '' @ uri @ '' HTTP/1.0'' @ crlf @ concat (map (\<lambda>h. h @ crlf) hdrs)"
    and "plain_uri uri" and "list_all plain_header hdrs" and "hdrs \<noteq> []"
    and "server_reach s s'"
  shows "mutex s' = Some Producer \<and> prod_pc s' = P_Put fd \<and> done_log s' = done_log s"
proof -
  have none: "pre_handle st fd (world s) = None" for st
    by (rule pre_handle_unfinished [OF assms(5,7,8,9,6)])
  have m: "mutex_ok s" using server_reach_ok [OF assms(1-3)] by (simp add: server_ok_def)
  have "mutex_ok s' \<and> prod_pc s' = P_Put fd \<and> world s' = world s \<and> done_log s' = done_log s"
    using assms(10)
  proof (induction rule: server_reach.induct)
    case start
    then show ?case using m assms(4) by simp
  next
    case (again t t')
    then have t: "mutex_ok t" "prod_pc t = P_Put fd" "mutex t = Some Producer"
      by (auto simp: mutex_ok_def)
    from again(2) mutex_ok_step [OF again(2) t(1)] again.IH none show ?case
      by (cases rule: server_step.cases) (use t in \<open>auto simp: mutex_ok_def\<close>)
  qed
  then show ?thesis by (auto simp: mutex_ok_def)
qed


section \<open>A server with two consumers and a ring of one place\<close>

definition two_consumers :: server where
  "two_consumers = web_init 2 1 (\<lambda>_. s_tmp junk_stack) (site [] [])"

definition reading :: "arrival list \<Rightarrow> server" where
  "reading as = two_consumers\<lparr>prod_pc := P_Put 6, mutex := Some Producer,
    world := (site [] [])\<lparr>opened := (\<lambda>fd. fd < 6)(6 := True), arrives := (\<lambda>_. [])(6 := as),
      takes := (\<lambda>_. [])(6 := [])\<rparr>\<rparr>"

lemma site_funs: "arrives (site as ts) = (\<lambda>_. as)" "takes (site as ts) = (\<lambda>_. ts)"
  by (rule ext, simp)+

lemma reading_reached: "server_reach two_consumers (reading as)"
proof -
  let ?s1 = "two_consumers\<lparr>prod_pc := P_Lock 6, world := (world two_consumers)
      \<lparr>opened := (opened (world two_consumers))(6 := True),
        arrives := (arrives (world two_consumers))(6 := as),
        takes := (takes (world two_consumers))(6 := [])\<rparr>\<rparr>"
  let ?s2 = "?s1\<lparr>prod_pc := P_Check 6, mutex := Some Producer\<rparr>"
  let ?s3 = "?s2\<lparr>prod_pc := P_Put 6\<rparr>"
  have 1: "server_step two_consumers ?s1"
    by (rule accept_conn) (simp_all add: two_consumers_def web_init_def)
  have 2: "server_step ?s1 ?s2"
    by (rule prod_lock) (simp_all add: two_consumers_def web_init_def)
  have 3: "server_step ?s2 ?s3"
    by (rule prod_room) (simp_all add: two_consumers_def web_init_def)
  have "?s3 = reading as"
    by (simp add: reading_def two_consumers_def web_init_def site_funs)
  with server_reach.again [OF server_reach.again [OF server_reach.again [OF server_reach.start 1] 2] 3]
  show ?thesis by simp
qed

lemma reading_sel [simp]:
  "exited (reading as) = None" "prod_pc (reading as) = P_Put 6" "put_log (reading as) = []"
  "num_thread (reading as) = 2" "cons_pc (reading as) = (\<lambda>_. C_Lock)" "count (squeue (reading as)) = 0"
  "arrives (world (reading as)) 6 = as" "takes (world (reading as)) 6 = []"
  "files (world (reading as)) = files (site [] [])"
  by (simp_all add: reading_def two_consumers_def web_init_def)

lemma one_request_put:
  obtains s r where "server_reach two_consumers s" and "mutex s = None" and "put_log s = [r]"
    and "count (squeue s) = 1"
proof -
  let ?as = "[Piece CHR ''G'' (''ET / HTTP/1.0'' @ crlf @ crlf)]"
  let ?s = "reading ?as"
  have w: "whole (arrives (world ?s) 6)" "pend (arrives (world ?s) 6) = request_text ''/'' [] @ []"
    by (simp_all add: request_text_def)
  have u: "plain_uri ''/''" "list_all plain_header []" "files (world ?s) (target ''/'') =
      Some \<lparr>f_mode = 0x8100, f_bytes = ''hello''\<rparr>"
    by (simp_all add: plain_uri_def is_space_def target_def)
  obtain r w' where r: "pre_handle junk_stack 6 (world ?s) = Some (Inr (r, w'))"
    by (rule pre_handle_request [OF w u])
  let ?s1 = "?s\<lparr>prod_pc := P_Signal, squeue := put r (squeue ?s), world := w', put_log := put_log ?s @ [r]\<rparr>"
  have s: "exited ?s = None" "prod_pc ?s = P_Put 6" by simp_all
  have 1: "server_step ?s ?s1" by (rule prod_put [OF s(1,2) r])
  let ?s2 = "?s1\<lparr>prod_pc := P_Unlock\<rparr>"
  have 2: "server_step ?s1 ?s2"
    by (rule prod_signals_none) (simp_all add: waiting_cons_def)
  let ?s3 = "?s2\<lparr>prod_pc := P_Accept, mutex := None\<rparr>"
  have 3: "server_step ?s2 ?s3" by (rule prod_unlock) simp_all
  have "server_reach two_consumers ?s3"
    by (rule server_reach.again [OF server_reach.again [OF server_reach.again [OF reading_reached 1] 2] 3])
  then show thesis by (rule that) (simp_all add: put_def Let_def)
qed

lemma put_keeps_queue_sorted_witness:
  "map filesize (waiting_requests (put ((s_tmp junk_stack)\<lparr>filesize := 5\<rparr>)
    \<lparr>buffer = (\<lambda>i. (s_tmp junk_stack)\<lparr>filesize := int (i + 1) mod 3 * 4\<rparr>), fill_index = 1, use_index = 2,
      count = 2, real_size = 3\<rparr>)) = [0, 4, 5]"
proof -
  let ?q = "\<lparr>buffer = (\<lambda>i. (s_tmp junk_stack)\<lparr>filesize := int (i + 1) mod 3 * 4\<rparr>), fill_index = 1,
      use_index = 2, count = 2, real_size = 3\<rparr>"
  have w: "waiting_requests ?q = [(s_tmp junk_stack)\<lparr>filesize := 0\<rparr>, (s_tmp junk_stack)\<lparr>filesize := 4\<rparr>]"
    by (simp add: waiting_requests_def place_def upt_rec numeral_2_eq_2)
  have "queue_ok ?q" by (simp add: queue_ok_def place_def)
  with put_keeps_queue_sorted [of ?q "(s_tmp junk_stack)\<lparr>filesize := 5\<rparr>"] w show ?thesis by simp
qed

lemma requests_are_handled_once_witness:
  "\<exists>s r. server_reach two_consumers s \<and>
    mset [r] = mset (done_log s) + in_hand s + mset (waiting_requests (squeue s))"
proof -
  obtain s r where s: "server_reach two_consumers s" "put_log s = [r]" by (rule one_request_put)
  from requests_are_handled_once [OF s(1) [unfolded two_consumers_def]] s show ?thesis by auto
qed

lemma no_server_wakeup_is_lost_witness:
  "\<exists>s. server_reach two_consumers s \<and> count (squeue s) = 1 \<and> (\<exists>i < 2. cons_pc s i = C_Lock)"
proof -
  obtain s r where s: "server_reach two_consumers s" "mutex s = None" "count (squeue s) = 1"
    by (rule one_request_put)
  from no_server_wakeup_is_lost [OF s(1) [unfolded two_consumers_def] _ _ s(2)] s show ?thesis by auto
qed

lemma unfinished_request_stops_server_witness:
  "\<exists>s. server_reach two_consumers s \<and>
    (\<forall>s'. server_reach s s' \<longrightarrow> mutex s' = Some Producer \<and> done_log s' = done_log s)"
proof -
  let ?s = "reading [Piece CHR ''G'' (''ET / HTTP/1.0'' @ crlf @ ''Host: a'' @ crlf)]"
  have "whole (arrives (world ?s) 6)" "prod_pc ?s = P_Put 6"
    "pend (arrives (world ?s) 6) =
      ''GET '' @ ''/'' @ '' HTTP/1.0'' @ crlf @ concat (map (\<lambda>h. h @ crlf) [''Host: a''])"
    by simp_all
  moreover have "plain_uri ''/''" "list_all plain_header [''Host: a'']"
    by (simp_all add: plain_uri_def is_space_def plain_header_def)
  ultimately show ?thesis
    using unfinished_request_stops_server [OF reading_reached [unfolded two_consumers_def], of _ 6 "''/''" "[''Host: a'']"]
      reading_reached by fastforce
qed

end
