(* ===== verification/Allocator.thy ===== *)
theory Allocator
  imports Prelude "HOL-Library.Signed_Division"
begin

text \<open>
  What a client may rely on of an allocator, whatever its algorithm, and what follows for a client that
  takes and returns blocks in any order: the blocks it holds never overlap.  The allocators of
  \<open>src/p3a\<close> and of the xv6 user library provide the interface; their theories interpret it.
\<close>

text \<open>The size of a region, which all allocators of \<open>src/p3a\<close> round up to whole pages; it is an \<open>int\<close>.\<close>

definition c_int :: "int \<Rightarrow> int" where "c_int i = sint (word_of_int i :: 32 word)"

lemma c_int_id: "- (2 ^ 31) \<le> i \<Longrightarrow> i < 2 ^ 31 \<Longrightarrow> c_int i = i"
  by (simp add: c_int_def signed_of_int signed_take_bit_int_eq_self)

definition alloc_size :: "int \<Rightarrow> int \<Rightarrow> int" where
  "alloc_size page_size sizeOfRegion = (let
      pad_size = sizeOfRegion smod page_size;
      pad_size = (if pad_size \<noteq> 0 then page_size - pad_size else pad_size)
    in c_int (sizeOfRegion + pad_size))"

text \<open>
  A session of a client with an allocator: its state and the blocks held, each with the size that was
  asked for.  A null pointer is an answer; a call that does not come back ends the session.
\<close>

inductive session ::
  "nat \<Rightarrow> (nat \<Rightarrow> 's \<Rightarrow> (nat \<times> 's) option) \<Rightarrow> (nat \<Rightarrow> 's \<Rightarrow> 's option) \<Rightarrow> 's \<Rightarrow> 's \<Rightarrow> (nat \<times> nat) set \<Rightarrow> bool"
  for limit alloc free s0 where
  begin_session: "session limit alloc free s0 s0 {}"
| takes: "session limit alloc free s0 s H \<Longrightarrow> 0 < n \<Longrightarrow> n \<le> limit \<Longrightarrow> alloc n s = Some (p, s') \<Longrightarrow> p \<noteq> 0 \<Longrightarrow>
    session limit alloc free s0 s' (insert (p, n) H)"
| refused: "session limit alloc free s0 s H \<Longrightarrow> 0 < n \<Longrightarrow> n \<le> limit \<Longrightarrow> alloc n s = Some (0, s') \<Longrightarrow>
    session limit alloc free s0 s' H"
| returns: "session limit alloc free s0 s H \<Longrightarrow> (p, n) \<in> H \<Longrightarrow> free p s = Some s' \<Longrightarrow>
    session limit alloc free s0 s' (H - {(p, n)})"

locale block_allocator =
  fixes ok :: "'s \<Rightarrow> bool" and live :: "'s \<Rightarrow> (nat \<times> nat) set" and limit :: nat
    and alloc :: "nat \<Rightarrow> 's \<Rightarrow> (nat \<times> 's) option" and free :: "nat \<Rightarrow> 's \<Rightarrow> 's option"
  assumes alloc_block: "ok s \<Longrightarrow> 0 < n \<Longrightarrow> n \<le> limit \<Longrightarrow> alloc n s = Some (p, s') \<Longrightarrow> p \<noteq> 0 \<Longrightarrow>
      ok s' \<and> (\<exists>k. n \<le> k \<and> (p, k) \<notin> live s \<and> live s' = insert (p, k) (live s))"
    and alloc_null: "ok s \<Longrightarrow> 0 < n \<Longrightarrow> n \<le> limit \<Longrightarrow> alloc n s = Some (0, s') \<Longrightarrow>
      ok s' \<and> live s' = live s"
    and free_block: "ok s \<Longrightarrow> (p, k) \<in> live s \<Longrightarrow> free p s = Some s' \<Longrightarrow>
      ok s' \<and> live s' = live s - {(p, k)}"
    and live_apart: "ok s \<Longrightarrow> (p, k) \<in> live s \<Longrightarrow> (q, l) \<in> live s \<Longrightarrow> (p, k) \<noteq> (q, l) \<Longrightarrow>
      p + k \<le> q \<or> q + l \<le> p"
begin

definition holds :: "'s \<Rightarrow> (nat \<times> nat) set \<Rightarrow> bool" where
  "holds s H \<longleftrightarrow> ok s \<and> (\<forall>p n. (p, n) \<in> H \<longrightarrow> 0 < n \<and> (\<exists>k. n \<le> k \<and> (p, k) \<in> live s)) \<and>
    (\<forall>p n m. (p, n) \<in> H \<longrightarrow> (p, m) \<in> H \<longrightarrow> n = m)"

lemma holdsI:
  assumes "ok s" and "\<And>p n. (p, n) \<in> H \<Longrightarrow> 0 < n" and "\<And>p n. (p, n) \<in> H \<Longrightarrow> \<exists>k. n \<le> k \<and> (p, k) \<in> live s"
    and "\<And>p n m. (p, n) \<in> H \<Longrightarrow> (p, m) \<in> H \<Longrightarrow> n = m"
  shows "holds s H"
  unfolding holds_def using assms by blast

lemma holds_block:
  assumes "holds s H" and "(p, n) \<in> H"
  obtains k where "0 < n" and "n \<le> k" and "(p, k) \<in> live s"
  using assms unfolding holds_def by blast

lemma holds_once: "holds s H \<Longrightarrow> (p, n) \<in> H \<Longrightarrow> (p, m) \<in> H \<Longrightarrow> n = m"
  unfolding holds_def by blast

lemma same_start:
  assumes "ok s" and "(p, k) \<in> live s" and "(p, l) \<in> live s" and "0 < k" and "0 < l"
  shows "k = l"
  using live_apart [OF assms(1-3)] assms(4,5) by auto

lemma holds_takes:
  assumes "holds s H" and "0 < n" and "n \<le> limit" and "alloc n s = Some (p, s')" and "p \<noteq> 0"
  shows "holds s' (insert (p, n) H)"
proof -
  have ok: "ok s" using assms(1) by (simp add: holds_def)
  from alloc_block [OF ok assms(2-5)] obtain k where s': "ok s'" "n \<le> k" "(p, k) \<notin> live s"
    "live s' = insert (p, k) (live s)" by auto
  have "(p, m) \<notin> H" for m
  proof
    assume m: "(p, m) \<in> H"
    with assms(1) obtain l where l: "0 < m" "m \<le> l" "(p, l) \<in> live s" unfolding holds_def by blast
    with same_start [OF s'(1), of p k l] s' assms(2) show False by auto
  qed
  note new = this
  have "\<exists>k. m \<le> k \<and> (q, k) \<in> live s'" "0 < m" if qm: "(q, m) \<in> insert (p, n) H" for q m
  proof -
    consider "q = p" "m = n" | "(q, m) \<in> H" using qm by auto
    then have "0 < m \<and> (\<exists>k. m \<le> k \<and> (q, k) \<in> live s')"
    proof cases
      case 2
      from assms(1) 2 show ?thesis by (rule holds_block) (auto simp: s'(4))
    qed (use assms(2) s'(2,4) in auto)
    then show "\<exists>k. m \<le> k \<and> (q, k) \<in> live s'" "0 < m" by auto
  qed
  moreover have "m = m'" if "(q, m) \<in> insert (p, n) H" "(q, m') \<in> insert (p, n) H" for q m m'
    using that new holds_once [OF assms(1), of q m m'] by auto
  ultimately show ?thesis by (intro holdsI [OF s'(1)])
qed

lemma holds_returns:
  assumes "holds s H" and "(p, n) \<in> H" and "free p s = Some s'"
  shows "holds s' (H - {(p, n)})"
proof -
  have ok: "ok s" using assms(1) by (simp add: holds_def)
  from assms(1,2) obtain k where k: "0 < n" "n \<le> k" "(p, k) \<in> live s" unfolding holds_def by blast
  note s' = free_block [OF ok k(3) assms(3)]
  have other: "q \<noteq> p" if "(q, m) \<in> H - {(p, n)}" for q m
    using that assms(2) holds_once [OF assms(1), of p n m] by auto
  have "\<exists>k. m \<le> k \<and> (q, k) \<in> live s'" "0 < m" if "(q, m) \<in> H - {(p, n)}" for q m
  proof -
    have "(q, m) \<in> H" using that by simp
    with assms(1) obtain l where "0 < m" "m \<le> l" "(q, l) \<in> live s" by (rule holds_block)
    with other [OF that] s' show "\<exists>k. m \<le> k \<and> (q, k) \<in> live s'" "0 < m" by auto
  qed
  moreover have "m = m'" if "(q, m) \<in> H" "(q, m') \<in> H" for q m m'
    using that holds_once [OF assms(1)] by blast
  ultimately show ?thesis by (intro holdsI [OF conjunct1 [OF s']]) blast+
qed

theorem session_holds: "session limit alloc free s0 s H \<Longrightarrow> ok s0 \<Longrightarrow> holds s H"
proof (induction rule: session.induct)
  case begin_session
  then show ?case by (simp add: holds_def)
next
  case (takes s H n p s')
  then have "holds s H" by simp
  from holds_takes [OF this takes.hyps(2-5)] show ?case .
next
  case (refused s H n s')
  then have "holds s H" by simp
  moreover from this have "ok s" by (simp add: holds_def)
  ultimately show ?case using alloc_null [OF _ refused.hyps(2-4)] by (simp add: holds_def)
next
  case (returns s H p n s')
  then have "holds s H" by simp
  from holds_returns [OF this returns.hyps(2,3)] show ?case .
qed

theorem held_apart:
  assumes "session limit alloc free s0 s H" and "ok s0" and "(p, n) \<in> H" and "(q, m) \<in> H"
    and "(p, n) \<noteq> (q, m)"
  shows "p + n \<le> q \<or> q + m \<le> p"
proof -
  have h: "holds s H" by (rule session_holds [OF assms(1,2)])
  have ok: "ok s" using h by (simp add: holds_def)
  obtain k where k: "n \<le> k" "(p, k) \<in> live s" using h assms(3) by (rule holds_block)
  obtain l where l: "m \<le> l" "(q, l) \<in> live s" using h assms(4) by (rule holds_block)
  have "p \<noteq> q" using assms(3-5) holds_once [OF h] by blast
  with live_apart [OF ok k(2) l(2)] k(1) l(1) show ?thesis by auto
qed

end

end
