(* ===== verification/Mem1.thy ===== *)
theory Mem1
  imports Bitpow Allocator
begin

text \<open>
  The bitmap allocator of \<open>src/p3a/mem1.c\<close>: a region whose first bytes have one bit for each of its
  segments of 16 bytes, the leftmost bit of a byte first.  The region is the bytes from
  \<open>space_ptr\<close> on.  Every request gets one segment, whatever its size.
\<close>

unbundle bit_operations_syntax

section \<open>State and start\<close>

record pool =
  space_ptr :: nat
  header_size :: nat
  mem_available :: int
  first_time_init :: int
  bytes :: bmem

text \<open>
  \<open>Mem_Init\<close>, with the size of a page, the descriptor of \<open>/dev/zero\<close> and the region as the system
  returns them; a failed \<open>mmap\<close> leaves \<open>MAP_FAILED\<close> in \<open>space_ptr\<close>.  The mapped bytes are zeros.
\<close>

definition mark_header :: "nat \<Rightarrow> bmem \<Rightarrow> bmem" where
  "mark_header hsize tmp = (let
      tmp = fold (\<lambda>i t. t(i := 0x00)) [0 ..< hsize] tmp;
      num_block_for_header = hsize div 16;
      num_char_for_header = num_block_for_header div 8;
      tmp = fold (\<lambda>i t. t(i := 0xFF)) [0 ..< num_char_for_header] tmp;
      current_seg = num_char_for_header
    in fold (\<lambda>i t. t(current_seg := t current_seg OR drop_bit i 0x80)) [0 ..< num_block_for_header mod 8] tmp)"

definition Mem_Init :: "int \<Rightarrow> int \<Rightarrow> int option \<Rightarrow> (int \<Rightarrow> nat option) \<Rightarrow> pool \<Rightarrow> int \<times> pool" where
  "Mem_Init page_size sizeOfRegion fd mmap m =
    (if first_time_init m = 0 then (- 1, m)
     else if sizeOfRegion \<le> 0 then (- 1, m)
     else if fd = None then (- 1, m)
     else let n = alloc_size page_size sizeOfRegion in
       (case mmap n of
          None \<Rightarrow> (- 1, m\<lparr>space_ptr := 2 ^ 64 - 1\<rparr>)
        | Some sp \<Rightarrow> let hsize = nat (n sdiv 16 sdiv 8) in
            (0, m\<lparr>space_ptr := sp, header_size := hsize, bytes := mark_header hsize (\<lambda>_. 0),
              first_time_init := 0, mem_available := n - int hsize\<rparr>)))"

section \<open>Allocation and release\<close>

fun find_seg :: "nat \<Rightarrow> nat \<Rightarrow> pool \<Rightarrow> (nat \<times> nat) option" where
  "find_seg 0 i m = None"
| "find_seg (Suc left) i m =
    (if bytes m i \<noteq> 0xFF then
       (case find (\<lambda>j. push_bit j (bytes m i) AND 0x80 = 0) [0 ..< 8] of
          Some j \<Rightarrow> Some (i, j)
        | None \<Rightarrow> find_seg left (Suc i) m)
     else find_seg left (Suc i) m)"

definition Mem_Alloc :: "int \<Rightarrow> pool \<Rightarrow> nat \<times> pool" where
  "Mem_Alloc sz m =
    (if sz \<le> 0 then (0, m)
     else case find_seg (header_size m) 0 m of
         None \<Rightarrow> (0, m)
       | Some (i, j) \<Rightarrow> (space_ptr m + (i * 8 + j) * 16,
           m\<lparr>bytes := (bytes m)(i := bytes m i OR drop_bit j 0x80), mem_available := mem_available m - 16\<rparr>))"

text \<open>
  A pointer before the region can give a negative index: \<open>Outside\<close> stands for the change of a byte
  before the region.  The index is an \<open>int\<close>, the difference of the pointers a \<open>long\<close>.
\<close>

datatype fault = Outside

definition Mem_Free :: "nat \<Rightarrow> pool \<Rightarrow> fault + int \<times> pool" where
  "Mem_Free ptr m =
    (if ptr = 0 then Inr (- 1, m)
     else let off = int ptr - int (space_ptr m) in
       if off smod 16 \<noteq> 0 then Inr (- 1, m)
       else let
          index = c_int (off sdiv 16);
          sub_index_i = index sdiv 8;
          sub_index_j = index smod 8
        in if sub_index_i < 0 then Inl Outside
        else Inr (0, m\<lparr>bytes := (bytes m)(nat sub_index_i := bytes m (nat sub_index_i) AND
              word_of_int (Math_Pow 2 8 - 1 - Math_Pow 2 (8 - sub_index_j + 1))),
            mem_available := mem_available m + 16\<rparr>))"

section \<open>Segments\<close>

definition taken :: "nat \<Rightarrow> pool \<Rightarrow> bool" where
  "taken b m \<longleftrightarrow> bit (bytes m (b div 8)) (7 - b mod 8)"

definition seg_ptr :: "nat \<Rightarrow> pool \<Rightarrow> nat" where
  "seg_ptr b m = space_ptr m + b * 16"

lemma probe_bit:
  fixes c :: byte
  assumes "j < 8"
  shows "push_bit j c AND 0x80 = 0 \<longleftrightarrow> \<not> bit c (7 - j)"
proof -
  have "push_bit j c AND 2 ^ 7 = 0 \<longleftrightarrow> \<not> bit (push_bit j c) 7" by (rule and_exp_eq_0_iff_not_bit)
  then show ?thesis using assms by (simp add: bit_push_bit_iff)
qed

lemma full_byte: "c = 0xFF \<longleftrightarrow> (\<forall>j<8. bit c (7 - j))" for c :: byte
proof -
  have "bit c n" if all: "\<forall>j<8. bit c (7 - j)" and n: "n < 8" for n
  proof -
    have "bit c (7 - (7 - n))" using all by (rule allE [of _ "7 - n"]) simp
    with n show ?thesis by simp
  qed
  then have "c = - 1" if "\<forall>j<8. bit c (7 - j)" using that by (auto simp: bit_eq_iff)
  moreover have "bit (0xFF :: byte) (7 - j)" if "j < 8" for j
    using less_8 [OF that] by (elim disjE) simp_all
  ultimately show ?thesis by auto
qed

lemma find_seg_first:
  "case find_seg left i m of
     None \<Rightarrow> (\<forall>b. 8 * i \<le> b \<and> b < 8 * (i + left) \<longrightarrow> taken b m)
   | Some (k, j) \<Rightarrow> j < 8 \<and> i \<le> k \<and> k < i + left \<and> \<not> taken (k * 8 + j) m \<and>
       (\<forall>b. 8 * i \<le> b \<and> b < k * 8 + j \<longrightarrow> taken b m)"
proof (induction left i m rule: find_seg.induct)
  case (2 left i m)
  have row: "taken b m \<longleftrightarrow> bit (bytes m i) (7 - b mod 8)" if "8 * i \<le> b" "b < 8 * i + 8" for b
  proof -
    have "b div 8 = i" using that by (intro div_nat_eqI) auto
    then show ?thesis by (simp add: taken_def)
  qed
  have all: "taken b m" if "\<forall>j<8. bit (bytes m i) (7 - j)" "8 * i \<le> b" "b < 8 * i + 8" for b
    using row [OF that(2,3)] that(1) by simp
  show ?case
  proof (cases "find (\<lambda>j. push_bit j (bytes m i) AND 0x80 = 0) [0 ..< 8]")
    case None
    then have full: "\<forall>j<8. bit (bytes m i) (7 - j)" using probe_bit by (auto simp: find_None_iff)
    have f: "find_seg (Suc left) i m = find_seg left (Suc i) m" by (simp add: None)
    have w: "taken b m" if "8 * i \<le> b" "b < n" "\<forall>b. 8 * Suc i \<le> b \<and> b < n \<longrightarrow> taken b m" for b n
      using that all [OF full, of b] by (cases "b < 8 * i + 8") auto
    have IH: "case find_seg left (Suc i) m of
        None \<Rightarrow> (\<forall>b. 8 * Suc i \<le> b \<and> b < 8 * (Suc i + left) \<longrightarrow> taken b m)
      | Some (k, j) \<Rightarrow> j < 8 \<and> Suc i \<le> k \<and> k < Suc i + left \<and> \<not> taken (k * 8 + j) m \<and>
          (\<forall>b. 8 * Suc i \<le> b \<and> b < k * 8 + j \<longrightarrow> taken b m)"
      using 2 None full full_byte by (cases "bytes m i = 0xFF") blast+
    show ?thesis
    proof (cases "find_seg left (Suc i) m")
      case None
      with IH w [of _ "8 * (Suc i + left)"] show ?thesis unfolding f by simp
    next
      case (Some r)
      obtain k j where "r = (k, j)" by (cases r)
      with Some IH w [of _ "k * 8 + j"] show ?thesis unfolding f by simp
    qed
  next
    case (Some j)
    then have j: "j < 8" "\<not> bit (bytes m i) (7 - j)" "\<forall>k<j. bit (bytes m i) (7 - k)"
      using probe_bit by (auto simp: find_Some_iff)
    then have "bytes m i \<noteq> 0xFF" using full_byte by blast
    then have f: "find_seg (Suc left) i m = Some (i, j)" using Some by simp
    have "taken b m" if "8 * i \<le> b" "b < i * 8 + j" for b
    proof -
      have "b div 8 = i" using that j(1) by (intro div_nat_eqI) auto
      moreover from this have "b mod 8 < j" using that mult_div_mod_eq [of 8 b] by linarith
      ultimately show ?thesis using j(3) by (simp add: taken_def)
    qed
    moreover have "\<not> taken (i * 8 + j) m" using j by (simp add: taken_def)
    ultimately show ?thesis unfolding f using j(1) by auto
  qed
qed auto


lemma bit_of_segment: "drop_bit j 0x80 = (2 ^ (7 - j) :: byte)" if "j < 8"
  using less_8 [OF that] by (elim disjE) simp_all

lemma taken_after_set:
  assumes "j < 8"
  shows "taken c (m\<lparr>bytes := (bytes m)(i := bytes m i OR drop_bit j 0x80), mem_available := x\<rparr>) \<longleftrightarrow>
    taken c m \<or> c = i * 8 + j"
proof -
  have c: "c = c div 8 * 8 + c mod 8" "c mod 8 < 8" by simp_all
  have "7 - c mod 8 = 7 - j \<longleftrightarrow> c mod 8 = j" using assms c(2) by linarith
  then have "c div 8 = i \<and> 7 - c mod 8 = 7 - j \<longleftrightarrow> c = i * 8 + j" using assms by auto
  then show ?thesis using assms
    by (auto simp: taken_def bit_of_segment bit_or_iff bit_exp_iff)
qed

text \<open>
  The bitmap allocator answers a positive request with the first segment whose bit is clear
  and sets just that bit; it returns null only when all bits are set.  It does not look at the size.
\<close>

theorem bitmap_takes_first_free:
  assumes "0 < sz"
  shows "if \<forall>b < 8 * header_size m. taken b m then Mem_Alloc sz m = (0, m)
    else \<exists>b m'. Mem_Alloc sz m = (seg_ptr b m, m') \<and> b < 8 * header_size m \<and> \<not> taken b m \<and>
      (\<forall>c<b. taken c m) \<and> (\<forall>c. taken c m' \<longleftrightarrow> taken c m \<or> c = b)"
proof (cases "find_seg (header_size m) 0 m")
  case None
  with find_seg_first [where left = "header_size m" and i = 0 and m = m]
  have "\<forall>b < 8 * header_size m. taken b m" by simp
  with assms None show ?thesis by (simp add: Mem_Alloc_def)
next
  case (Some r)
  obtain k j where r: "r = (k, j)" by (cases r)
  with Some find_seg_first [where left = "header_size m" and i = 0 and m = m]
  have f: "j < 8" "k < header_size m" "\<not> taken (k * 8 + j) m" "\<forall>b < k * 8 + j. taken b m" by auto
  then have lt: "k * 8 + j < 8 * header_size m" by linarith
  have al: "Mem_Alloc sz m = (seg_ptr (k * 8 + j) m,
      m\<lparr>bytes := (bytes m)(k := bytes m k OR drop_bit j 0x80), mem_available := mem_available m - 16\<rparr>)"
    using assms Some r by (simp add: Mem_Alloc_def seg_ptr_def)
  have "\<not> (\<forall>b < 8 * header_size m. taken b m)" using lt f(3) by blast
  with al lt f taken_after_set [OF f(1)] show ?thesis by auto
qed

lemma taken_after_free:
  assumes "0 < space_ptr m" and "b < 2 ^ 31"
  obtains m' where "Mem_Free (seg_ptr b m) m = Inr (0, m')" and "space_ptr m' = space_ptr m"
    and "header_size m' = header_size m"
    and "\<And>c. taken c m' \<longleftrightarrow> taken c m \<and> \<not> (c div 8 = b div 8 \<and> c mod 8 \<in> set (cleared_with (b mod 8)))"
proof -
  let ?m = "m\<lparr>bytes := (bytes m)(b div 8 := bytes m (b div 8) AND
      word_of_int (Math_Pow 2 8 - 1 - Math_Pow 2 (8 - int (b mod 8) + 1))), mem_available := mem_available m + 16\<rparr>"
  have off: "int (seg_ptr b m) - int (space_ptr m) = int (b * 16)" by (simp add: seg_ptr_def)
  have dm: "int (b * 16) smod 16 = 0" "int (b * 16) sdiv 16 = int b" "int b sdiv 8 = int (b div 8)"
    "int b smod 8 = int (b mod 8)"
    by (cases "b = 0"; simp add: signed_modulo_int_def signed_divide_int_def zdiv_int zmod_int sgn_if)+
  have w: "c_int (int b) = int b"
    using sint_small [of b] assms(2) by (simp add: c_int_def)
  have "Mem_Free (seg_ptr b m) m = Inr (0, ?m)"
    unfolding Mem_Free_def off dm w Let_def using assms(1) by (simp add: seg_ptr_def del: of_nat_mod of_nat_div)
  moreover have "taken c ?m \<longleftrightarrow> taken c m \<and> \<not> (c div 8 = b div 8 \<and> c mod 8 \<in> set (cleared_with (b mod 8)))" for c
    using clear_mask [of "b mod 8"] mask_bits [of "b mod 8" "c mod 8"]
    by (auto simp: taken_def bit_and_iff)
  ultimately show thesis by (intro that [of ?m]) simp_all
qed

text \<open>
  Claim C38.  A release does not free its segment but others, so that a block in use is handed out
  again: with the segments up to \<open>b + 1\<close> in use and \<open>b\<close> a multiple of 8, after the release of
  segment \<open>b\<close> the next request is answered with segment \<open>b + 1\<close>, which nobody has released.
\<close>

theorem bitmap_hands_out_block_in_use:
  assumes "0 < space_ptr m" and "b mod 8 = 0" and "b + 1 < 8 * header_size m" and "header_size m < 2 ^ 28"
    and "\<forall>c \<le> b + 1. taken c m" and "0 < sz"
  shows "\<exists>m1 m2. Mem_Free (seg_ptr b m) m = Inr (0, m1) \<and> Mem_Alloc sz m1 = (seg_ptr (b + 1) m, m2)"
proof -
  obtain m1 where m1: "Mem_Free (seg_ptr b m) m = Inr (0, m1)" "space_ptr m1 = space_ptr m"
    "header_size m1 = header_size m"
    and t: "\<And>c. taken c m1 \<longleftrightarrow> taken c m \<and> \<not> (c div 8 = b div 8 \<and> c mod 8 \<in> set (cleared_with (b mod 8)))"
    by (rule taken_after_free [OF assms(1), of b]) (use assms(3,4) in \<open>simp, blast\<close>)
  have b: "(b + 1) div 8 = b div 8" "(b + 1) mod 8 = 1" using assms(2) by (auto elim!: dvdE simp: mod_eq_0_iff_dvd)
  have no: "\<not> taken (b + 1) m1" using t [of "b + 1"] b assms(2) by (simp add: cleared_with_def)
  have yes: "taken c m1" if "c \<le> b" for c
  proof -
    have "c mod 8 = 0" if "c div 8 = b div 8"
      using that \<open>c \<le> b\<close> assms(2) mult_div_mod_eq [of 8 c] mult_div_mod_eq [of 8 b] by linarith
    then show ?thesis using t [of c] assms(2,5) that by (auto simp: cleared_with_def)
  qed
  obtain k j where f: "find_seg (header_size m1) 0 m1 = Some (k, j)"
    using find_seg_first [where left = "header_size m1" and i = 0 and m = m1] no assms(3) m1(3)
    by (cases "find_seg (header_size m1) 0 m1") auto
  with find_seg_first [where left = "header_size m1" and i = 0 and m = m1] have kj: "\<not> taken (k * 8 + j) m1" "\<forall>c < k * 8 + j. taken c m1"
    by auto
  have "k * 8 + j = b + 1"
  proof (rule antisym)
    show "k * 8 + j \<le> b + 1" using kj(2) no by (meson not_le)
    show "b + 1 \<le> k * 8 + j" using kj(1) yes by (metis Suc_eq_plus1 not_less_eq_eq)
  qed
  with f assms(6) m1 show ?thesis by (auto simp: Mem_Alloc_def seg_ptr_def)
qed

section \<open>A region of one page\<close>

definition full_page :: pool where
  "full_page = \<lparr>space_ptr = 4096, header_size = 32, mem_available = 0, first_time_init = 0, bytes = (\<lambda>_. 0xFF)\<rparr>"

lemma full_page_taken: "taken c full_page"
  using full_byte [where c = "0xFF"] less_8 by (simp add: taken_def full_page_def)

lemma bitmap_hands_out_block_in_use_witness:
  "\<exists>m1 m2. Mem_Free (4096 + 16 * 16) full_page = Inr (0, m1) \<and> Mem_Alloc 10 m1 = (4096 + 17 * 16, m2)"
  using bitmap_hands_out_block_in_use [where m = full_page and b = 16 and sz = 10] full_page_taken
  by (simp add: full_page_def seg_ptr_def)

lemma bitmap_takes_first_free_witness:
  "\<exists>m'. Mem_Alloc 10 (full_page\<lparr>bytes := (\<lambda>_. 0)\<rparr>) = (4096, m')"
proof -
  let ?m = "full_page\<lparr>bytes := (\<lambda>_. 0)\<rparr>"
  have n: "\<not> taken c ?m" for c by (simp add: taken_def)
  have h: "0 < 8 * header_size ?m" by (simp add: full_page_def)
  with n have f: "(\<forall>b < 8 * header_size ?m. taken b ?m) = False" by blast
  obtain b m' where b: "Mem_Alloc 10 ?m = (seg_ptr b ?m, m')" "\<forall>c<b. taken c ?m"
    using bitmap_takes_first_free [where sz = 10 and m = ?m, unfolded f if_False] by auto
  then have "b = 0" using n neq0_conv by blast
  with b(1) show ?thesis by (auto simp: full_page_def seg_ptr_def)
qed

end
