(* ===== verification/Mem2.thy ===== *)
theory Mem2
  imports Allocator
begin

text \<open>
  The allocator of \<open>src/p3a/mem2.c\<close> for blocks of 16, 80 and 256 bytes: a region whose first bytes
  have four bits for each of its segments of 16 bytes, the left half of a byte first.  The first
  segment of a block has the code of the block's size, the others a code for being inside a block.
  The region is the bytes from \<open>space_ptr\<close> on.  One thread at a time uses the allocator.
\<close>

unbundle bit_operations_syntax

section \<open>State and start\<close>

record pool =
  space_ptr :: nat
  header_size :: nat
  mem_available :: int
  first_time_init :: int
  bytes :: bmem

definition mark_header :: "nat \<Rightarrow> bmem \<Rightarrow> bmem" where
  "mark_header hsize tmp = (let
      tmp = fold (\<lambda>i t. t(i := 0x00)) [0 ..< hsize] tmp;
      num_block_for_header = hsize div 16;
      num_char_for_header = num_block_for_header * 4 div 8;
      tmp = fold (\<lambda>i t. t(i := 0x66)) [0 ..< num_char_for_header] tmp
    in if num_block_for_header mod 2 = 1 then tmp(num_char_for_header := 0x60) else tmp)"

text \<open>
  \<open>Mem_Init\<close>, with the size of a page, the descriptor of \<open>/dev/zero\<close> and the region as the system
  returns them; a failed \<open>mmap\<close> leaves \<open>MAP_FAILED\<close> in \<open>space_ptr\<close>.  The mapped bytes are zeros.
\<close>

definition Mem_Init :: "int \<Rightarrow> int \<Rightarrow> int option \<Rightarrow> (int \<Rightarrow> nat option) \<Rightarrow> pool \<Rightarrow> int \<times> pool" where
  "Mem_Init page_size sizeOfRegion fd mmap m =
    (if first_time_init m = 0 then (- 1, m)
     else if sizeOfRegion \<le> 0 then (- 1, m)
     else if fd = None then (- 1, m)
     else let n = alloc_size page_size sizeOfRegion in
       (case mmap n of
          None \<Rightarrow> (- 1, m\<lparr>space_ptr := 2 ^ 64 - 1\<rparr>)
        | Some sp \<Rightarrow> let hsize = nat (c_int (n sdiv 16 * 4) sdiv 8) in
            (0, m\<lparr>space_ptr := sp, header_size := hsize, bytes := mark_header hsize (\<lambda>_. 0),
              first_time_init := 0, mem_available := n - int hsize\<rparr>)))"

section \<open>Allocation\<close>

text \<open>The variables of the search: the address, the length of the run of free segments, its start.\<close>

record search =
  s_addr :: nat
  s_count :: nat
  start_block_index_i :: nat
  start_block_index_j :: nat

definition current :: "bmem \<Rightarrow> nat \<Rightarrow> nat \<Rightarrow> byte" where
  "current mem i j = push_bit (j * 4) (mem i) AND 0xF0"

text \<open>One half byte: \<open>Inl\<close> when the run is long enough, \<open>Inr\<close> to go on.\<close>

definition look :: "bmem \<Rightarrow> nat \<Rightarrow> nat \<Rightarrow> nat \<Rightarrow> search \<Rightarrow> search + search" where
  "look mem num_of_block_required i j s = (let c = current mem i j in
    if c = 0x00 then (let
        s = (if s_count s = 0 then s\<lparr>start_block_index_i := i, start_block_index_j := j\<rparr> else s);
        s = s\<lparr>s_count := s_count s + 1\<rparr>
      in if s_count s = num_of_block_required then Inl s else Inr s)
    else Inr (s\<lparr>s_addr := s_addr s + s_count s * 16 +
        (if c = 0x60 then 16 else if c = 0xA0 then 5 * 16 else if c = 0xE0 then 16 * 16 else 0),
      s_count := 0\<rparr>))"

fun find_run :: "bmem \<Rightarrow> nat \<Rightarrow> nat \<Rightarrow> nat \<Rightarrow> search \<Rightarrow> search + search" where
  "find_run mem need 0 i s = Inr s"
| "find_run mem need (Suc left) i s =
    (case look mem need i 0 s of
       Inl s \<Rightarrow> Inl s
     | Inr s \<Rightarrow> (case look mem need i 1 s of
         Inl s \<Rightarrow> Inl s
       | Inr s \<Rightarrow> find_run mem need left (Suc i) s))"

fun halves :: "nat \<Rightarrow> nat \<Rightarrow> nat \<times> nat" where
  "halves l1_index l2_index =
    (if 1 < l2_index then halves (l1_index + 1) (l2_index - 2) else (l1_index, l2_index))"

definition mark_inside :: "nat \<Rightarrow> nat \<Rightarrow> nat \<Rightarrow> bmem \<Rightarrow> bmem" where
  "mark_inside i j num_of_block_required mem = fold (\<lambda>k mem.
      case halves i (j + k) of (l1, l2) \<Rightarrow> mem(l1 := mem l1 OR push_bit ((1 - l2) * 4) 0x02))
    [1 ..< num_of_block_required] mem"

definition Mem_Alloc :: "int \<Rightarrow> pool \<Rightarrow> nat \<times> pool" where
  "Mem_Alloc sz m =
    (if sz \<le> 0 then (0, m)
     else if sz \<noteq> 16 \<and> sz \<noteq> 80 \<and> sz \<noteq> 256 then (0, m)
     else let
        num_of_block_required = nat (sz sdiv 16);
        s = \<lparr>s_addr = space_ptr m, s_count = 0, start_block_index_i = 0, start_block_index_j = 0\<rparr>
      in case find_run (bytes m) num_of_block_required (header_size m) 0 s of
          Inr _ \<Rightarrow> (0, m)
        | Inl s \<Rightarrow> let
            mask = (if sz = 16 then 0x06 else if sz = 80 then 0x0A else if sz = 256 then 0x0E else - 1);
            i = start_block_index_i s;
            j = start_block_index_j s;
            mem = (bytes m)(i := bytes m i OR push_bit ((1 - j) * 4) mask)
          in (s_addr s, m\<lparr>bytes := mark_inside i j num_of_block_required mem,
                mem_available := mem_available m - sz\<rparr>))"

section \<open>Release\<close>

text \<open>
  A pointer before the region gives a negative index: \<open>Outside\<close> stands for the shift by a negative
  amount or the access before the region that follows.
\<close>

datatype fault = Outside

definition clear_run :: "nat \<Rightarrow> nat \<Rightarrow> nat \<Rightarrow> bmem \<Rightarrow> bmem" where
  "clear_run i j n mem = fold (\<lambda>k mem.
      case halves i (j + k) of (l1, l2) \<Rightarrow> mem(l1 := mem l1 AND push_bit (l2 * 4) 0x0F)) [0 ..< n] mem"

definition Mem_Free :: "nat \<Rightarrow> pool \<Rightarrow> fault + int \<times> pool" where
  "Mem_Free ptr m =
    (if ptr = 0 then Inr (- 1, m)
     else let off = int ptr - int (space_ptr m) in
       if off smod 16 \<noteq> 0 then Inr (- 1, m)
       else let index = c_int (off sdiv 16) in
         if index < 0 then Inl Outside
         else let
            sub_index_i = nat index div 2;
            sub_index_j = nat index mod 2;
            c = current (bytes m) sub_index_i sub_index_j;
            sz = (if c = 0x60 then 16 else if c = 0xA0 then 5 * 16 else if c = 0xE0 then 16 * 16 else - 1)
          in if sz = - 1 then Inr (- 1, m)
          else Inr (0, m\<lparr>bytes := clear_run sub_index_i sub_index_j (nat (sz div 16)) (bytes m),
            mem_available := mem_available m + sz\<rparr>))"

definition Mem_Available :: "pool \<Rightarrow> int" where
  "Mem_Available m = mem_available m"

section \<open>Cells\<close>

text \<open>The code of a segment, as the code looks at it: in the left half of a byte.\<close>

definition cell :: "bmem \<Rightarrow> nat \<Rightarrow> byte" where
  "cell mem b = current mem (b div 2) (b mod 2)"

lemma current_cell: "j < 2 \<Longrightarrow> current mem i j = cell mem (2 * i + j)"
  by (simp add: cell_def)

lemma half_bits: "bit (240 :: int) n \<longleftrightarrow> 4 \<le> n \<and> n < 8" "bit (15 :: int) n \<longleftrightarrow> n < 4"
proof -
  have "bit (240 :: int) n \<longleftrightarrow> bit (push_bit 4 (mask 4 :: int)) n" "bit (15 :: int) n \<longleftrightarrow> bit (mask 4 :: int) n"
    by (simp_all add: mask_eq_exp_minus_1 push_bit_eq_mult)
  then show "bit (240 :: int) n \<longleftrightarrow> 4 \<le> n \<and> n < 8" "bit (15 :: int) n \<longleftrightarrow> n < 4"
    by (auto simp: bit_push_bit_iff bit_mask_iff)
qed

lemma bit_cell: "bit (cell mem b) n \<longleftrightarrow> 4 \<le> n \<and> n < 8 \<and> bit (mem (b div 2)) (n - b mod 2 * 4)"
  by (auto simp: cell_def current_def bit_and_iff half_bits bit_push_bit_iff)

lemma mod_2_cases: "b mod 2 = 0 \<or> b mod 2 = 1" for b :: nat
  by auto

lemma same_cell: "c = b \<longleftrightarrow> c div 2 = b div 2 \<and> c mod 2 = b mod 2" for b c :: nat
  by (metis mult_div_mod_eq)

lemma cell_set:
  assumes "\<And>n. bit v n \<Longrightarrow> n < 4"
  shows "cell (mem(b div 2 := mem (b div 2) OR push_bit ((1 - b mod 2) * 4) v)) c =
    (if c = b then cell mem c OR push_bit 4 v else cell mem c)"
proof (rule bit_eqI)
  fix n
  have v: "\<not> bit v k" if "4 \<le> k" for k using assms [of k] that by auto
  show "bit (cell (mem(b div 2 := mem (b div 2) OR push_bit ((1 - b mod 2) * 4) v)) c) n \<longleftrightarrow>
    bit (if c = b then cell mem c OR push_bit 4 v else cell mem c) n"
    using mod_2_cases [of b] mod_2_cases [of c] v [of "n - 0"] v [of "n - 4"] same_cell [of c b] assms
    by (auto simp: bit_cell bit_or_iff bit_push_bit_iff)
qed

lemma cell_clear:
  "cell (mem(b div 2 := mem (b div 2) AND push_bit (b mod 2 * 4) 0x0F)) c = (if c = b then 0 else cell mem c)"
proof (rule bit_eqI)
  fix n
  show "bit (cell (mem(b div 2 := mem (b div 2) AND push_bit (b mod 2 * 4) 0x0F)) c) n \<longleftrightarrow>
    bit (if c = b then 0 else cell mem c) n"
    using mod_2_cases [of b] mod_2_cases [of c] same_cell [of c b]
    by (auto simp: bit_cell bit_and_iff bit_push_bit_iff half_bits)
qed

lemma halves_eq: "halves i l = (i + l div 2, l mod 2)"
proof (induction i l rule: halves.induct)
  case (1 i l)
  show ?case
  proof (cases "1 < l")
    case True
    then obtain k where k: "l = k + 2" by (metis add.commute le_Suc_ex Suc_1 Suc_leI)
    with 1 [OF True] show ?thesis by simp
  next
    case False
    then show ?thesis by (cases "l = 0") auto
  qed
qed


lemma half_cell: "(2 * i + (j + k)) div 2 = i + (j + k) div 2" "(2 * i + (j + k)) mod 2 = (j + k) mod 2"
  for i j k :: nat
  by auto

lemma low_2: "bit (2 :: byte) n \<Longrightarrow> n < 4"
  using bit_exp_iff [of 1 n, where 'a = byte] by simp

lemma cell_mark_inside:
  assumes "j < 2"
  shows "cell (mark_inside i j n mem) c =
    (if 2 * i + j < c \<and> c < 2 * i + j + n then cell mem c OR 0x20 else cell mem c)"
proof (induction n)
  case 0
  show ?case by (auto simp: mark_inside_def)
next
  case (Suc n)
  show ?case
  proof (cases n)
    case 0
    then show ?thesis by (auto simp: mark_inside_def)
  next
    case (Suc k)
    have "[1 ..< Suc n] = [1 ..< n] @ [n]" using Suc by simp
    then have "mark_inside i j (Suc n) mem = (let mem = mark_inside i j n mem; b = 2 * i + (j + n) in
      mem(b div 2 := mem (b div 2) OR push_bit ((1 - b mod 2) * 4) 0x02))"
      by (simp only: mark_inside_def halves_eq half_cell Let_def fold_append comp_apply fold_simps prod.case)
    then have "cell (mark_inside i j (Suc n) mem) c = (if c = 2 * i + (j + n)
      then cell (mark_inside i j n mem) c OR push_bit 4 0x02 else cell (mark_inside i j n mem) c)"
      unfolding Let_def using cell_set [where v = 2 and mem = "mark_inside i j n mem" and b = "2 * i + (j + n)" and c = c, OF low_2] by simp
    then show ?thesis using Suc.IH Suc by auto
  qed
qed

lemma cell_clear_run:
  assumes "j < 2"
  shows "cell (clear_run i j n mem) c = (if 2 * i + j \<le> c \<and> c < 2 * i + j + n then 0 else cell mem c)"
proof (induction n)
  case 0
  show ?case by (auto simp: clear_run_def)
next
  case (Suc n)
  have "clear_run i j (Suc n) mem = (let mem = clear_run i j n mem; b = 2 * i + (j + n) in
      mem(b div 2 := mem (b div 2) AND push_bit (b mod 2 * 4) 0x0F))"
    by (simp add: clear_run_def halves_eq half_cell Let_def del: halves.simps)
  then have "cell (clear_run i j (Suc n) mem) c = (if c = 2 * i + (j + n) then 0
      else cell (clear_run i j n mem) c)"
    unfolding Let_def using cell_clear [of "clear_run i j n mem" "2 * i + (j + n)" c] by simp
  then show ?case using Suc.IH by auto
qed

lemma cells_determine:
  assumes "\<And>c. cell mem c = cell mem' c"
  shows "mem = mem'"
proof (rule ext, rule bit_eqI)
  fix i n
  assume "possible_bit TYPE(byte) n"
  then have n: "n < 8" by simp
  show "bit (mem i) n \<longleftrightarrow> bit (mem' i) n"
  proof (cases "n < 4")
    case True
    then show ?thesis using bit_cell [of mem "2 * i + 1" "n + 4"] bit_cell [of mem' "2 * i + 1" "n + 4"]
      assms [of "2 * i + 1"] by simp
  next
    case False
    then show ?thesis using n bit_cell [of mem "2 * i" n] bit_cell [of mem' "2 * i" n] assms [of "2 * i"] by simp
  qed
qed

section \<open>Rows of blocks\<close>

definition head :: "nat \<Rightarrow> byte" where
  "head k = (if k = 1 then 0x60 else if k = 5 then 0xA0 else 0xE0)"

definition block :: "(nat \<Rightarrow> byte) \<Rightarrow> nat \<Rightarrow> nat \<Rightarrow> nat \<Rightarrow> bool" where
  "block c n b k \<longleftrightarrow> (k = 1 \<or> k = 5 \<or> k = 16) \<and> b + k \<le> n \<and> c b = head k \<and>
    (\<forall>t. b < t \<and> t < b + k \<longrightarrow> c t = 0x20)"

definition free_run :: "(nat \<Rightarrow> byte) \<Rightarrow> nat \<Rightarrow> nat \<Rightarrow> nat \<Rightarrow> bool" where
  "free_run c n b k \<longleftrightarrow> b + k \<le> n \<and> (\<forall>t. b \<le> t \<and> t < b + k \<longrightarrow> c t = 0)"

text \<open>From segment \<open>b\<close> to the end \<open>n\<close>: free segments and whole blocks.\<close>

inductive row :: "(nat \<Rightarrow> byte) \<Rightarrow> nat \<Rightarrow> nat \<Rightarrow> bool" for c n where
  row_end: "row c n n"
| row_free: "c b = 0 \<Longrightarrow> b < n \<Longrightarrow> row c n (Suc b) \<Longrightarrow> row c n b"
| row_block: "block c n b k \<Longrightarrow> row c n (b + k) \<Longrightarrow> row c n b"

inductive_cases row_at: "row c n b"

definition fill :: "nat \<Rightarrow> nat \<Rightarrow> (nat \<Rightarrow> byte) \<Rightarrow> nat \<Rightarrow> byte" where
  "fill b k c t = (if t = b then head k else if b < t \<and> t < b + k then 0x20 else c t)"

definition clear :: "nat \<Rightarrow> nat \<Rightarrow> (nat \<Rightarrow> byte) \<Rightarrow> nat \<Rightarrow> byte" where
  "clear b k c t = (if b \<le> t \<and> t < b + k then 0 else c t)"

lemma head_simps [simp]: "head k \<noteq> 0" "head k \<noteq> 0x20" "0 \<noteq> head k" "0x20 \<noteq> head k"
  by (simp_all add: head_def)

lemma head_once: "head k = head l \<Longrightarrow> k = 1 \<or> k = 5 \<or> k = 16 \<Longrightarrow> l = 1 \<or> l = 5 \<or> l = 16 \<Longrightarrow> k = l"
  by (auto simp: head_def split: if_splits)

lemma block_once: "block c n b k \<Longrightarrow> block c n b l \<Longrightarrow> k = l"
  unfolding block_def using head_once by metis

lemma blocks_apart:
  assumes "block c n b k" and "block c n d l" and "(b, k) \<noteq> (d, l)"
  shows "b + k \<le> d \<or> d + l \<le> b"
proof (rule ccontr)
  assume "\<not> ?thesis"
  then have m: "d < b + k" "b < d + l" by auto
  have "b \<noteq> d" using assms block_once by blast
  then show False using assms m by (cases "b < d") (auto simp: block_def)
qed

lemma row_le: "row c n b \<Longrightarrow> b \<le> n"
  by (induction rule: row.induct) auto

lemma row_cong: "row c n b \<Longrightarrow> (\<And>t. b \<le> t \<Longrightarrow> c' t = c t) \<Longrightarrow> row c' n b"
proof (induction rule: row.induct)
  case row_end
  show ?case by (rule row.row_end)
next
  case (row_free b)
  then show ?case by - (rule row.row_free; auto)
next
  case (row_block b k)
  then show ?case by - (rule row.row_block [of _ _ _ k]; auto simp: block_def)
qed

lemma row_skip: "row c n b \<Longrightarrow> free_run c n b k \<Longrightarrow> row c n (b + k)"
proof (induction k)
  case (Suc k)
  then have r: "row c n (b + k)" "c (b + k) = 0" "b + k < n" by (auto simp: free_run_def)
  from r(1) show ?case by (rule row_at) (use r in \<open>auto simp: block_def\<close>)
qed simp

lemma row_unskip: "row c n (b + k) \<Longrightarrow> free_run c n b k \<Longrightarrow> row c n b"
proof (induction k)
  case (Suc k)
  then have "row c n (b + k)" by - (rule row.row_free; auto simp: free_run_def)
  with Suc show ?case by (auto simp: free_run_def)
qed simp

lemma row_fill:
  assumes "row c n b" and "b \<le> s" and "free_run c n s k" and "k = 1 \<or> k = 5 \<or> k = 16"
  shows "row (fill s k c) n b"
  using assms
proof (induction rule: row.induct)
  case row_end
  then show ?case by (auto simp: free_run_def)
next
  case (row_free b)
  show ?case
  proof (cases "b = s")
    case True
    have "row c n s" using row_free True by - (rule row.row_free; auto)
    then have "row c n (s + k)" by (rule row_skip) (rule row_free.prems(2))
    then have "row (fill s k c) n (s + k)" by (rule row_cong) (use row_free.prems(3) in \<open>auto simp: fill_def\<close>)
    moreover have "block (fill s k c) n s k" using row_free.prems by (auto simp: block_def fill_def free_run_def)
    ultimately show ?thesis unfolding True by (rule row.row_block [rotated])
  next
    case False
    with row_free show ?thesis by - (rule row.row_free; auto simp: fill_def)
  qed
next
  case (row_block b l)
  have "b + l \<le> s"
  proof (rule ccontr)
    assume "\<not> ?thesis"
    with row_block have "c s \<noteq> 0" by (cases "b = s") (auto simp: block_def)
    with row_block.prems show False by (auto simp: free_run_def)
  qed
  moreover from this have "block (fill s k c) n b l" using row_block.hyps by (auto simp: block_def fill_def)
  ultimately show ?case using row_block by - (rule row.row_block [of _ _ _ l]; auto)
qed

lemma row_clear:
  assumes "row c n b" and "b \<le> s" and "block c n s k"
  shows "row (clear s k c) n b"
  using assms
proof (induction rule: row.induct)
  case row_end
  then show ?case by (auto simp: block_def)
next
  case (row_free b)
  then have "b \<noteq> s" by (auto simp: block_def)
  with row_free show ?case by - (rule row.row_free; auto simp: clear_def)
next
  case (row_block b l)
  show ?case
  proof (cases "b = s")
    case True
    then have l: "l = k" using row_block block_once by blast
    have "row (clear s k c) n (s + k)" using row_block.hyps(2) True l by (auto simp: clear_def intro: row_cong)
    then show ?thesis unfolding True
      by (rule row_unskip) (use row_block.prems in \<open>auto simp: free_run_def clear_def block_def\<close>)
  next
    case False
    then have a: "b + l \<le> s" using blocks_apart [OF row_block.hyps(1) row_block.prems(2)] row_block.prems
      by (auto simp: block_def)
    then have "block (clear s k c) n b l" using row_block.hyps(1) by (auto simp: block_def clear_def)
    with a row_block show ?thesis by - (rule row.row_block [of _ _ _ l]; auto)
  qed
qed


section \<open>The search\<close>

text \<open>
  What holds before segment \<open>b\<close> is looked at: the run counted so far ends there, no run that is long
  enough starts before it, and the address is that of the start of the run, or of the end \<open>e\<close> of the
  block that \<open>b\<close> is inside of.
\<close>

definition searching :: "bmem \<Rightarrow> nat \<Rightarrow> nat \<Rightarrow> nat \<Rightarrow> nat \<Rightarrow> search \<Rightarrow> bool" where
  "searching mem n sp need b s \<longleftrightarrow> s_count s \<le> b \<and> s_count s < need \<and>
    free_run (cell mem) n (b - s_count s) (s_count s) \<and>
    (\<forall>d < b - s_count s. \<not> free_run (cell mem) n d need) \<and>
    (0 < s_count s \<longrightarrow> start_block_index_j s < 2 \<and>
      2 * start_block_index_i s + start_block_index_j s = b - s_count s) \<and>
    (\<exists>e. s_addr s + 16 * s_count s = sp + 16 * e \<and> b \<le> e \<and> row (cell mem) n e \<and>
      (\<forall>t. b \<le> t \<and> t < e \<longrightarrow> cell mem t = 0x20) \<and> (0 < s_count s \<longrightarrow> e = b))"

definition found :: "bmem \<Rightarrow> nat \<Rightarrow> nat \<Rightarrow> nat \<Rightarrow> search \<Rightarrow> bool" where
  "found mem n sp need s \<longleftrightarrow> start_block_index_j s < 2 \<and>
    (let d = 2 * start_block_index_i s + start_block_index_j s in
      s_addr s = sp + 16 * d \<and> free_run (cell mem) n d need \<and> (\<forall>d' < d. \<not> free_run (cell mem) n d' need))"

lemma searchingI:
  assumes "s_count s \<le> b" and "s_count s < need" and "free_run (cell mem) n (b - s_count s) (s_count s)"
    and "\<And>d. d < b - s_count s \<Longrightarrow> \<not> free_run (cell mem) n d need"
    and "0 < s_count s \<Longrightarrow> start_block_index_j s < 2"
    and "0 < s_count s \<Longrightarrow> 2 * start_block_index_i s + start_block_index_j s = b - s_count s"
    and "s_addr s + 16 * s_count s = sp + 16 * e" and "b \<le> e" and "row (cell mem) n e"
    and "\<And>t. b \<le> t \<Longrightarrow> t < e \<Longrightarrow> cell mem t = 0x20" and "0 < s_count s \<Longrightarrow> e = b"
  shows "searching mem n sp need b s"
  unfolding searching_def using assms by (intro conjI exI [of _ e] allI impI) simp_all

lemma searchingE:
  assumes "searching mem n sp need b s"
  obtains e where "s_count s \<le> b" and "s_count s < need" and "free_run (cell mem) n (b - s_count s) (s_count s)"
    and "\<forall>d < b - s_count s. \<not> free_run (cell mem) n d need"
    and "0 < s_count s \<longrightarrow> start_block_index_j s < 2"
    and "0 < s_count s \<longrightarrow> 2 * start_block_index_i s + start_block_index_j s = b - s_count s"
    and "s_addr s + 16 * s_count s = sp + 16 * e" and "b \<le> e" and "row (cell mem) n e"
    and "\<forall>t. b \<le> t \<and> t < e \<longrightarrow> cell mem t = 0x20" and "0 < s_count s \<longrightarrow> e = b"
  using assms unfolding searching_def by (elim conjE exE) (rule that; (assumption | blast))

lemma look_free:
  assumes "searching mem n sp need (2 * i + j) s" and "j < 2" and "2 * i + j < n" and "cell mem (2 * i + j) = 0"
  shows "case look mem need i j s of Inl s' \<Rightarrow> found mem n sp need s' | Inr s' \<Rightarrow> searching mem n sp need (2 * i + j + 1) s'"
proof -
  let ?b = "2 * i + j"
  obtain e where s: "s_count s \<le> ?b" "s_count s < need" "free_run (cell mem) n (?b - s_count s) (s_count s)"
    "\<forall>d < ?b - s_count s. \<not> free_run (cell mem) n d need" "0 < s_count s \<longrightarrow> start_block_index_j s < 2"
    "0 < s_count s \<longrightarrow> 2 * start_block_index_i s + start_block_index_j s = ?b - s_count s"
    "s_addr s + 16 * s_count s = sp + 16 * e" "?b \<le> e" "row (cell mem) n e"
    "\<forall>t. ?b \<le> t \<and> t < e \<longrightarrow> cell mem t = 0x20" "0 < s_count s \<longrightarrow> e = ?b"
    using assms(1) by (rule searchingE)
  have e: "e = ?b" using s(8) s(10) assms(4) by (cases "?b < e") auto
  have run: "free_run (cell mem) n (?b - s_count s) (s_count s + 1)"
    using s(1,3) assms(3,4) unfolding free_run_def by (auto simp: less_Suc_eq)
  have nx: "row (cell mem) n (?b + 1)"
    using row_skip [OF s(9) [unfolded e], of 1] assms(3,4)
    by (auto simp: free_run_def less_Suc_eq_le dest: le_antisym)
  define s' where "s' = (if s_count s = 0 then s\<lparr>start_block_index_i := i, start_block_index_j := j\<rparr> else s)\<lparr>
    s_count := s_count s + 1\<rparr>"
  have s': "s_count s' = s_count s + 1" "s_addr s' = s_addr s" "start_block_index_j s' < 2"
    "2 * start_block_index_i s' + start_block_index_j s' = ?b - s_count s"
    using s(5,6) assms(2) by (auto simp: s'_def)
  have lk: "look mem need i j s = (if s_count s + 1 = need then Inl s' else Inr s')"
    using assms(2,4) by (simp add: look_def current_cell s'_def Let_def)
  show ?thesis
  proof (cases "s_count s + 1 = need")
    case True
    have "s_addr s' = sp + 16 * (?b - s_count s)" using s(1,7) s'(2) e by simp
    with True s' run s(4) show ?thesis unfolding lk found_def Let_def by simp
  next
    case False
    have "searching mem n sp need (?b + 1) s'"
      by (rule searchingI [where e = "?b + 1"]) (use s s' run nx False e in auto)
    with False show ?thesis unfolding lk by simp
  qed
qed

lemma look_taken:
  assumes "searching mem n sp need (2 * i + j) s" and "j < 2" and "2 * i + j < n" and "cell mem (2 * i + j) \<noteq> 0"
  shows "case look mem need i j s of Inl s' \<Rightarrow> found mem n sp need s' | Inr s' \<Rightarrow> searching mem n sp need (2 * i + j + 1) s'"
proof -
  let ?b = "2 * i + j"
  obtain e where s: "s_count s \<le> ?b" "s_count s < need" "free_run (cell mem) n (?b - s_count s) (s_count s)"
    "\<forall>d < ?b - s_count s. \<not> free_run (cell mem) n d need"
    "s_addr s + 16 * s_count s = sp + 16 * e" "?b \<le> e" "row (cell mem) n e"
    "\<forall>t. ?b \<le> t \<and> t < e \<longrightarrow> cell mem t = 0x20" "0 < s_count s \<longrightarrow> e = ?b"
    using assms(1) by (rule searchingE)
  have no: "\<not> free_run (cell mem) n d need" if "d < ?b + 1" for d
  proof (cases "d < ?b - s_count s")
    case False
    with that s(1,2) have "d \<le> ?b" "?b < d + need" by linarith+
    with assms(4) show ?thesis by (auto simp: free_run_def)
  qed (use s(4) in blast)
  define w where "w = (let c = cell mem ?b in
    if c = 0x60 then 16 else if c = 0xA0 then 5 * 16 else if c = 0xE0 then 16 * 16 else (0 :: nat))"
  define s' where "s' = s\<lparr>s_addr := s_addr s + s_count s * 16 + w, s_count := 0\<rparr>"
  have lk: "look mem need i j s = Inr s'"
    using assms(2,4) by (simp add: look_def current_cell s'_def w_def Let_def)
  have "\<exists>e'. s_addr s' = sp + 16 * e' \<and> ?b + 1 \<le> e' \<and> row (cell mem) n e' \<and>
      (\<forall>t. ?b + 1 \<le> t \<and> t < e' \<longrightarrow> cell mem t = 0x20)"
  proof (cases "?b < e")
    case True
    then have "w = 0" "s_count s = 0" using s(8) s(9) by (auto simp: w_def)
    then have "s_addr s' = sp + 16 * e" using s(5) by (simp add: s'_def)
    with True s(7,8) show ?thesis by (intro exI [of _ e]) auto
  next
    case False
    with s(6) have e: "e = ?b" by simp
    from s(7) obtain k where k: "block (cell mem) n ?b k" "row (cell mem) n (?b + k)"
      unfolding e by (rule row_at) (use assms(3,4) in auto)
    then have "w = 16 * k" by (auto simp: w_def block_def head_def)
    then have "s_addr s' = sp + 16 * (?b + k)" using s(5) e by (simp add: s'_def)
    moreover have "?b + 1 \<le> ?b + k" "\<forall>t. ?b + 1 \<le> t \<and> t < ?b + k \<longrightarrow> cell mem t = 0x20"
      using k(1) by (auto simp: block_def)
    ultimately show ?thesis using k(2) by blast
  qed
  then obtain e' where e': "s_addr s' = sp + 16 * e'" "?b + 1 \<le> e'" "row (cell mem) n e'"
    "\<And>t. ?b + 1 \<le> t \<Longrightarrow> t < e' \<Longrightarrow> cell mem t = 0x20" by blast
  have "searching mem n sp need (?b + 1) s'"
    by (rule searchingI [where e = e']) (use s(2) no e' assms(3) in \<open>auto simp: s'_def free_run_def\<close>)
  then show ?thesis unfolding lk by simp
qed

lemma look_step:
  assumes "searching mem n sp need (2 * i + j) s" and "j < 2" and "2 * i + j < n"
  shows "case look mem need i j s of Inl s' \<Rightarrow> found mem n sp need s' | Inr s' \<Rightarrow> searching mem n sp need (2 * i + j + 1) s'"
  using look_free [OF assms] look_taken [OF assms] by blast

lemma find_run_finds:
  "searching mem n sp need (2 * i) s \<Longrightarrow> 2 * (i + left) = n \<Longrightarrow>
    case find_run mem need left i s of Inl s' \<Rightarrow> found mem n sp need s' | Inr s' \<Rightarrow> searching mem n sp need n s'"
proof (induction left arbitrary: i s)
  case (Suc left)
  have a: "case look mem need i 0 s of Inl s' \<Rightarrow> found mem n sp need s' | Inr s' \<Rightarrow> searching mem n sp need (2 * i + 1) s'"
    using look_step [of mem n sp need i 0 s] Suc.prems by (simp cong: sum.case_cong)
  show ?case
  proof (cases "look mem need i 0 s")
    case (Inr s1)
    with a have "searching mem n sp need (2 * i + 1) s1" by simp
    from look_step [OF this] Suc.prems
    have b: "case look mem need i 1 s1 of Inl s' \<Rightarrow> found mem n sp need s' | Inr s' \<Rightarrow> searching mem n sp need (2 * Suc i) s'"
      by (simp cong: sum.case_cong)
    show ?thesis
    proof (cases "look mem need i 1 s1")
      case b2: (Inr s2)
      with b have "searching mem n sp need (2 * Suc i) s2" by simp
      from Suc.IH [OF this] Suc.prems Inr b2 show ?thesis by simp
    qed (use b Inr in simp)
  qed (use a in simp)
qed auto

lemma no_run: "searching mem n sp need n s \<Longrightarrow> \<not> free_run (cell mem) n d need"
  by (cases "d < n - s_count s") (auto simp: searching_def free_run_def)


section \<open>The operations on rows\<close>

definition segments :: "pool \<Rightarrow> nat" where "segments m = 2 * header_size m"

abbreviation cells :: "pool \<Rightarrow> nat \<Rightarrow> byte" where "cells m \<equiv> cell (bytes m)"

definition is_pool :: "pool \<Rightarrow> bool" where
  "is_pool m \<longleftrightarrow> 0 < space_ptr m \<and> header_size m < 2 ^ 30 \<and> row (cells m) (segments m) 0"

definition seg_ptr :: "nat \<Rightarrow> pool \<Rightarrow> nat" where
  "seg_ptr b m = space_ptr m + 16 * b"

definition live_blocks :: "pool \<Rightarrow> (nat \<times> nat) set" where
  "live_blocks m = {(seg_ptr b m, 16 * k) | b k. block (cells m) (segments m) b k}"

definition changed :: "pool \<Rightarrow> (nat \<Rightarrow> byte) \<Rightarrow> int \<Rightarrow> pool \<Rightarrow> bool" where
  "changed m c d m' \<longleftrightarrow> cells m' = c \<and> space_ptr m' = space_ptr m \<and> header_size m' = header_size m \<and>
    mem_available m' = mem_available m + d \<and> first_time_init m' = first_time_init m"

lemma mask_of_block:
  assumes "sz = 16 \<or> sz = 80 \<or> sz = 256" and "k = nat (sz sdiv 16)"
  shows "push_bit 4 (if sz = 16 then 0x06 else if sz = 80 then 0x0A else if sz = 256 then 0x0E else - 1 :: byte) = head k"
    and "k = 1 \<or> k = 5 \<or> k = 16" and "sz = 16 * int k"
  using assms by (auto simp: head_def signed_divide_int_def)

lemma low_mask:
  assumes "bit (if sz = 16 then 0x06 else if sz = 80 then 0x0A else if sz = 256 then 0x0E else - 1 :: byte) n"
    and "sz = 16 \<or> sz = 80 \<or> sz = (256 :: int)"
  shows "n < 4"
proof (rule ccontr)
  assume n: "\<not> n < 4"
  then obtain k where k: "n = k + 4" by (metis add.commute le_Suc_ex not_less)
  have "drop_bit 4 (if sz = 16 then 0x06 else if sz = 80 then 0x0A else if sz = 256 then 0x0E else - 1 :: byte) = 0"
    using assms(2) by auto
  then show False using assms(1) bit_drop_bit_eq [of 4 "if sz = 16 then 0x06 else if sz = 80 then 0x0A
    else if sz = 256 then 0x0E else - 1 :: byte"] k by (auto simp: fun_eq_iff add.commute)
qed

lemma mark_block:
  assumes "sz = 16 \<or> sz = 80 \<or> sz = 256" and "k = nat (sz sdiv 16)" and "j < 2"
    and "free_run (cell mem) n (2 * i + j) k"
  shows "cell (mark_inside i j k (mem(i := mem i OR push_bit ((1 - j) * 4)
      (if sz = 16 then 0x06 else if sz = 80 then 0x0A else if sz = 256 then 0x0E else - 1)))) =
    fill (2 * i + j) k (cell mem)"
proof
  fix t
  let ?v = "if sz = 16 then 0x06 else if sz = 80 then 0x0A else if sz = 256 then 0x0E else - 1 :: byte"
  have b: "(2 * i + j) div 2 = i" "(2 * i + j) mod 2 = j" using assms(3) by auto
  have "cell (mem(i := mem i OR push_bit ((1 - j) * 4) ?v)) t =
      (if t = 2 * i + j then cell mem t OR head k else cell mem t)"
    using cell_set [where v = ?v and mem = mem and b = "2 * i + j" and c = t] low_mask [OF _ assms(1)]
    unfolding b mask_of_block(1) [OF assms(1,2)] by blast
  with cell_mark_inside [OF assms(3), of i k _ t] mask_of_block(2) [OF assms(1,2)] assms(4)
  show "cell (mark_inside i j k (mem(i := mem i OR push_bit ((1 - j) * 4) ?v))) t = fill (2 * i + j) k (cell mem) t"
    by (auto simp: fill_def free_run_def simp del: if_split_asm)
qed

lemma Mem_Alloc_first_run:
  assumes "is_pool m" and "sz = 16 \<or> sz = 80 \<or> sz = 256" and "k = nat (sz sdiv 16)"
  shows "(\<forall>d. \<not> free_run (cells m) (segments m) d k) \<and> Mem_Alloc sz m = (0, m) \<or>
    (\<exists>d m'. Mem_Alloc sz m = (seg_ptr d m, m') \<and> free_run (cells m) (segments m) d k \<and>
      (\<forall>d' < d. \<not> free_run (cells m) (segments m) d' k) \<and> changed m (fill d k (cells m)) (- sz) m')"
proof -
  let ?s = "\<lparr>s_addr = space_ptr m, s_count = 0, start_block_index_i = 0, start_block_index_j = 0\<rparr>"
  have "row (cells m) (segments m) 0" "0 < k"
    using assms(1) mask_of_block(2) [OF assms(2,3)] by (auto simp: is_pool_def)
  then have "searching (bytes m) (segments m) (space_ptr m) k 0 ?s"
    by (intro searchingI [where e = 0]) (auto simp: free_run_def)
  with find_run_finds [of "bytes m" "segments m" "space_ptr m" k 0 ?s "header_size m"]
  have f: "case find_run (bytes m) k (header_size m) 0 ?s of
      Inl s' \<Rightarrow> found (bytes m) (segments m) (space_ptr m) k s'
    | Inr s' \<Rightarrow> searching (bytes m) (segments m) (space_ptr m) k (segments m) s'"
    by (simp add: segments_def cong: sum.case_cong)
  show ?thesis
  proof (cases "find_run (bytes m) k (header_size m) 0 ?s")
    case (Inl s)
    define i j where "i = start_block_index_i s" and "j = start_block_index_j s"
    from f Inl have s: "j < 2" "s_addr s = seg_ptr (2 * i + j) m" "free_run (cells m) (segments m) (2 * i + j) k"
      "\<forall>d' < 2 * i + j. \<not> free_run (cells m) (segments m) d' k"
      by (simp_all add: found_def Let_def seg_ptr_def i_def j_def)
    have "\<exists>m'. Mem_Alloc sz m = (seg_ptr (2 * i + j) m, m') \<and> changed m (fill (2 * i + j) k (cells m)) (- sz) m'"
      using Inl s mark_block [OF assms(2,3) s(1,3)] assms(2)
      by (auto simp: Mem_Alloc_def Let_def changed_def assms(3) i_def j_def)
    with s show ?thesis by blast
  next
    case (Inr s)
    with f have "searching (bytes m) (segments m) (space_ptr m) k (segments m) s" by simp
    with no_run Inr assms(2,3) show ?thesis by (auto simp: Mem_Alloc_def)
  qed
qed


lemma Mem_Free_at:
  assumes "is_pool m" and "b < segments m"
  shows "Mem_Free (seg_ptr b m) m = (let c = cells m b;
      sz = (if c = 0x60 then 16 else if c = 0xA0 then 5 * 16 else if c = 0xE0 then 16 * 16 else - 1)
    in if sz = - 1 then Inr (- 1, m)
    else Inr (0, m\<lparr>bytes := clear_run (b div 2) (b mod 2) (nat (sz div 16)) (bytes m),
      mem_available := mem_available m + sz\<rparr>))"
proof -
  have b: "b < 2 ^ 31" "0 < space_ptr m" using assms by (auto simp: is_pool_def segments_def)
  have off: "int (seg_ptr b m) - int (space_ptr m) = int (b * 16)" by (simp add: seg_ptr_def)
  have dm: "int (b * 16) smod 16 = 0" "int (b * 16) sdiv 16 = int b" "c_int (int b) = int b"
    using b(1) by (cases "b = 0"; simp add: signed_modulo_int_def signed_divide_int_def sgn_if c_int_id)+
  have p: "(seg_ptr b m = 0) = False" "(int b < 0) = False" "(0 :: int) \<noteq> 0 \<longleftrightarrow> False" "nat (int b) = b"
    using b(2) by (simp_all add: seg_ptr_def)
  show ?thesis unfolding Mem_Free_def off Let_def cell_def by (simp only: dm p if_False)
qed

lemma Mem_Free_block:
  assumes "is_pool m" and "block (cells m) (segments m) b k"
  shows "\<exists>m'. Mem_Free (seg_ptr b m) m = Inr (0, m') \<and> changed m (clear b k (cells m)) (16 * int k) m'"
proof -
  have b: "b < segments m" "k = 1 \<or> k = 5 \<or> k = 16" "cells m b = head k" using assms(2) by (auto simp: block_def)
  have "cell (clear_run (b div 2) (b mod 2) k (bytes m)) = clear b k (cells m)"
    using cell_clear_run [of "b mod 2" "b div 2" k "bytes m"] by (auto simp: clear_def)
  moreover have "Mem_Free (seg_ptr b m) m = Inr (0, m\<lparr>bytes := clear_run (b div 2) (b mod 2) k (bytes m),
      mem_available := mem_available m + 16 * int k\<rparr>)"
    unfolding Mem_Free_at [OF assms(1) b(1)] b(3) Let_def using b(2) by (elim disjE) (simp_all add: head_def)
  ultimately show ?thesis by (simp add: changed_def)
qed

lemma row_head:
  assumes "row c n b" and "b \<le> d" and "d < n" and "c d = head k" and "k = 1 \<or> k = 5 \<or> k = 16"
  shows "block c n d k"
  using assms
proof (induction rule: row.induct)
  case (row_free b)
  then have "b \<noteq> d" by auto
  with row_free show ?case by simp
next
  case (row_block b l)
  show ?case
  proof (cases "b = d")
    case True
    then have "head l = head k" using row_block by (auto simp: block_def)
    then have "l = k" using head_once [of l k] row_block.hyps(1) row_block.prems(4) by (auto simp: block_def)
    with True row_block show ?thesis by simp
  next
    case False
    have "b + l \<le> d"
    proof (rule ccontr)
      assume "\<not> ?thesis"
      with False row_block have "c d = 0x20" by (auto simp: block_def)
      with row_block.prems show False by simp
    qed
    with row_block show ?thesis by simp
  qed
qed simp

lemma changed_pool:
  assumes "is_pool m" and "changed m c d m'" and "row c (segments m) 0"
  shows "is_pool m'" and "live_blocks m' = {(seg_ptr b m, 16 * k) | b k. block c (segments m) b k}"
  using assms by (auto simp: is_pool_def changed_def segments_def live_blocks_def seg_ptr_def)

lemma block_fill:
  assumes "free_run c n s k" and "k = 1 \<or> k = 5 \<or> k = 16"
  shows "block (fill s k c) n b l \<longleftrightarrow> block c n b l \<or> (b, l) = (s, k)"
proof
  assume bl: "block (fill s k c) n b l"
  have sk: "block (fill s k c) n s k" using assms by (auto simp: block_def fill_def free_run_def)
  show "block c n b l \<or> (b, l) = (s, k)"
  proof (cases "(b, l) = (s, k)")
    case False
    with blocks_apart [OF bl sk] assms(2) bl show ?thesis by (auto simp: block_def fill_def)
  qed simp
next
  assume "block c n b l \<or> (b, l) = (s, k)"
  moreover have "block (fill s k c) n b l" if bl: "block c n b l"
  proof -
    have "b + l \<le> s \<or> s + k \<le> b"
    proof (rule ccontr)
      assume "\<not> ?thesis"
      then have "s < b + l" "b < s + k" by auto
      with bl have "c (if b \<le> s then s else b) \<noteq> 0" by (cases "b = s") (auto simp: block_def)
      with assms(1) \<open>b < s + k\<close> assms(2) show False by (auto simp: free_run_def split: if_splits)
    qed
    with bl assms(2) show ?thesis by (auto simp: block_def fill_def)
  qed
  moreover have "block (fill s k c) n s k" using assms by (auto simp: block_def fill_def free_run_def)
  ultimately show "block (fill s k c) n b l" by auto
qed

lemma block_clear:
  assumes "block c n s k"
  shows "block (clear s k c) n b l \<longleftrightarrow> block c n b l \<and> (b, l) \<noteq> (s, k)"
proof
  assume bl: "block (clear s k c) n b l"
  then have out: "\<not> (s \<le> t \<and> t < s + k)" if "b \<le> t" "t < b + l" for t
  proof -
    have "clear s k c t \<noteq> 0" using bl that by (cases "t = b") (auto simp: block_def)
    then show ?thesis by (auto simp: clear_def)
  qed
  have l: "0 < l" using bl by (auto simp: block_def)
  have "block c n b l" using bl out l by (auto simp: block_def clear_def split: if_splits)
  moreover have "(b, l) \<noteq> (s, k)" using out [of b] l by auto
  ultimately show "block c n b l \<and> (b, l) \<noteq> (s, k)" ..
next
  assume "block c n b l \<and> (b, l) \<noteq> (s, k)"
  with blocks_apart [OF _ assms, of b l] show "block (clear s k c) n b l"
    by (auto simp: block_def clear_def)
qed

text \<open>
  Claim C37.  Releasing what was allocated last puts the region back as it was, byte for byte, and so the
  space that is available: the next allocation of any size goes as it would have gone before.
\<close>

theorem sized_free_undoes_alloc:
  assumes "is_pool m" and "Mem_Alloc sz m = (p, m1)" and "p \<noteq> 0"
  shows "Mem_Free p m1 = Inr (0, m)"
proof -
  have sz: "sz = 16 \<or> sz = 80 \<or> sz = 256" using assms(2,3) by (auto simp: Mem_Alloc_def split: if_splits)
  define k where "k = nat (sz sdiv 16)"
  have k: "k = 1 \<or> k = 5 \<or> k = 16" "sz = 16 * int k" using mask_of_block [OF sz k_def] by auto
  obtain d where d: "p = seg_ptr d m" "free_run (cells m) (segments m) d k"
    "changed m (fill d k (cells m)) (- sz) m1"
    using Mem_Alloc_first_run [OF assms(1) sz k_def] assms(2,3) by auto
  have "row (cells m) (segments m) 0" using assms(1) by (simp add: is_pool_def)
  then have r: "row (fill d k (cells m)) (segments m) 0" using d(2) k(1) by (intro row_fill) auto
  have p1: "is_pool m1" "block (cells m1) (segments m1) d k" "seg_ptr d m1 = p"
    using changed_pool [OF assms(1) d(3) r] block_fill [OF d(2) k(1), of d k] d
    by (simp_all add: changed_def segments_def seg_ptr_def)
  obtain m2 where m2: "Mem_Free p m1 = Inr (0, m2)" "changed m1 (clear d k (cells m1)) (16 * int k) m2"
    using Mem_Free_block [OF p1(1,2)] unfolding p1(3) by blast
  have "clear d k (fill d k (cells m)) = cells m"
    using d(2) k(1) by (auto simp: clear_def fill_def free_run_def fun_eq_iff)
  then have "bytes m2 = bytes m" using m2(2) d(3) by (intro cells_determine) (simp add: changed_def)
  with m2(2) d(3) k(2) have "m2 = m" by (auto simp: changed_def intro!: pool.equality)
  with m2(1) show ?thesis by simp
qed

text \<open>
  The sized allocator answers a request of 16, 80 or 256 bytes with the first run of free
  segments that is long enough, and null only when there is none; the bytes of the block then count as
  one block more in use, apart from all others.
\<close>

theorem sized_alloc_takes_first_run:
  assumes "is_pool m" and "sz = 16 \<or> sz = 80 \<or> sz = 256" and "k = nat sz div 16"
  shows "(\<forall>d. \<not> free_run (cells m) (segments m) d k) \<and> Mem_Alloc sz m = (0, m) \<or>
    (\<exists>d m'. Mem_Alloc sz m = (seg_ptr d m, m') \<and> free_run (cells m) (segments m) d k \<and>
      (\<forall>d' < d. \<not> free_run (cells m) (segments m) d' k) \<and> is_pool m' \<and>
      live_blocks m' = insert (seg_ptr d m, 16 * k) (live_blocks m) \<and>
      Mem_Available m' = Mem_Available m - sz)"
proof -
  have k: "k = nat (sz sdiv 16)" using assms(2,3) by (auto simp: signed_divide_int_def)
  note mk = mask_of_block(2) [OF assms(2) k]
  from Mem_Alloc_first_run [OF assms(1,2) k] show ?thesis
  proof (elim disjE exE conjE)
    fix d m'
    assume d: "Mem_Alloc sz m = (seg_ptr d m, m')" "free_run (cells m) (segments m) d k"
      "\<forall>d' < d. \<not> free_run (cells m) (segments m) d' k" "changed m (fill d k (cells m)) (- sz) m'"
    have "row (fill d k (cells m)) (segments m) 0"
      using assms(1) d(2) mk by (intro row_fill) (auto simp: is_pool_def)
    from changed_pool [OF assms(1) d(4) this] have "is_pool m'"
      "live_blocks m' = insert (seg_ptr d m, 16 * k) (live_blocks m)"
      unfolding block_fill [OF d(2) mk] by (auto simp: live_blocks_def)
    with d show ?thesis by (auto simp: changed_def Mem_Available_def)
  qed auto
qed

lemma Mem_Alloc_cases:
  assumes "is_pool m" and "Mem_Alloc sz m = (p, m')"
  shows "p = 0 \<and> m' = m \<or> p \<noteq> 0 \<and> is_pool m' \<and> (p, nat sz) \<notin> live_blocks m \<and>
    live_blocks m' = insert (p, nat sz) (live_blocks m)"
proof (cases "sz = 16 \<or> sz = 80 \<or> sz = 256")
  case sz: True
  define k where "k = nat (sz sdiv 16)"
  have k: "k = 1 \<or> k = 5 \<or> k = 16" "nat sz = 16 * k" using mask_of_block [OF sz k_def] by auto
  have sp: "0 < space_ptr m" "row (cells m) (segments m) 0" using assms(1) by (simp_all add: is_pool_def)
  from Mem_Alloc_first_run [OF assms(1) sz k_def] assms(2) show ?thesis
  proof (elim disjE exE conjE)
    fix d m''
    assume "Mem_Alloc sz m = (p, m')" "Mem_Alloc sz m = (seg_ptr d m, m'')"
      and d: "free_run (cells m) (segments m) d k" "changed m (fill d k (cells m)) (- sz) m''"
    then have m: "m'' = m'" "p = seg_ptr d m" by simp_all
    have "row (fill d k (cells m)) (segments m) 0" using sp d(1) k(1) by (intro row_fill) auto
    from changed_pool [OF assms(1) d(2) this] have "is_pool m'"
      "live_blocks m' = insert (p, nat sz) (live_blocks m)"
      unfolding m block_fill [OF d(1) k(1)] k(2) by (auto simp: live_blocks_def)
    moreover have "(p, nat sz) \<notin> live_blocks m"
      using d(1) k by (auto simp: m(2) live_blocks_def seg_ptr_def free_run_def block_def)
    moreover have "p \<noteq> 0" using sp by (simp add: m(2) seg_ptr_def)
    ultimately show ?thesis by simp
  qed simp
qed (use assms(2) in \<open>auto simp: Mem_Alloc_def split: if_splits\<close>)

definition Mem_Free_ok :: "nat \<Rightarrow> pool \<Rightarrow> pool option" where
  "Mem_Free_ok p m = (case Mem_Free p m of Inr (r, m') \<Rightarrow> if r = 0 then Some m' else None | _ \<Rightarrow> None)"

interpretation m2: block_allocator is_pool live_blocks 256 "\<lambda>n m. Some (Mem_Alloc (int n) m)" Mem_Free_ok
proof
  fix m n p m'
  assume "is_pool m" "0 < n" "n \<le> 256" "Some (Mem_Alloc (int n) m) = Some (p, m')" "p \<noteq> (0 :: nat)"
  with Mem_Alloc_cases [of m "int n" p m'] show "is_pool m' \<and>
      (\<exists>k. n \<le> k \<and> (p, k) \<notin> live_blocks m \<and> live_blocks m' = insert (p, k) (live_blocks m))"
    by auto
next
  fix m n m'
  assume "is_pool m" "0 < n" "n \<le> 256" "Some (Mem_Alloc (int n) m) = Some (0 :: nat, m')"
  with Mem_Alloc_cases [of m "int n" 0 m'] show "is_pool m' \<and> live_blocks m' = live_blocks m" by auto
next
  fix m p k m'
  assume r: "is_pool m" "(p, k) \<in> live_blocks m" "Mem_Free_ok p m = Some m'"
  then obtain b l where b: "p = seg_ptr b m" "k = 16 * l" "block (cells m) (segments m) b l"
    by (auto simp: live_blocks_def)
  from Mem_Free_block [OF r(1) b(3)] r(3) b(1) have c: "changed m (clear b l (cells m)) (16 * int l) m'"
    by (auto simp: Mem_Free_ok_def)
  have "row (clear b l (cells m)) (segments m) 0" using r(1) b(3) by (intro row_clear) (auto simp: is_pool_def)
  from changed_pool [OF r(1) c this] show "is_pool m' \<and> live_blocks m' = live_blocks m - {(p, k)}"
    unfolding block_clear [OF b(3)] b(1,2) by (auto simp: live_blocks_def seg_ptr_def)
next
  fix m p k q l
  assume "is_pool m" and "(p, k) \<in> live_blocks m" "(q, l) \<in> live_blocks m" "(p, k) \<noteq> (q, l)"
  then show "p + k \<le> q \<or> q + l \<le> p"
    using blocks_apart [of "cells m" "segments m"] by (fastforce simp: live_blocks_def seg_ptr_def)
qed


text \<open>
  \<open>Mem_Free\<close> refuses, with \<open>-1\<close> and no change, every pointer into the region that is not
  the start of a block.
\<close>

theorem sized_free_refuses_others:
  assumes "is_pool m" and "space_ptr m \<le> p" and "p < space_ptr m + 16 * segments m"
    and "\<forall>k. (p, k) \<notin> live_blocks m"
  shows "Mem_Free p m = Inr (- 1, m)"
proof (cases "(p - space_ptr m) mod 16 = 0")
  case False
  have "int p - int (space_ptr m) = int (p - space_ptr m)" using assms(2) by simp
  moreover have "int (p - space_ptr m) smod 16 = int ((p - space_ptr m) mod 16)"
    by (cases "p = space_ptr m") (use assms(2) in \<open>simp_all add: signed_modulo_int_def sgn_if zmod_int\<close>)
  ultimately show ?thesis using False by (simp add: Mem_Free_def del: of_nat_mod)
next
  case True
  define b where "b = (p - space_ptr m) div 16"
  have p: "p = seg_ptr b m" using True assms(2) by (auto simp: b_def seg_ptr_def)
  have b: "b < segments m" using assms(3) by (simp add: p seg_ptr_def)
  have "row (cells m) (segments m) 0" using assms(1) by (simp add: is_pool_def)
  then have "cells m b \<noteq> head k" if "k = 1 \<or> k = 5 \<or> k = 16" for k
    using row_head [of "cells m" "segments m" 0 b k] that b assms(4) by (auto simp: p live_blocks_def)
  from this [of 1] this [of 5] this [of 16] show ?thesis
    unfolding p Mem_Free_at [OF assms(1) b] Let_def by (simp add: head_def)
qed

text \<open>
  Whatever a client does with the sized allocator, the bytes of the header
  stay the codes of a row of free segments and whole blocks, and the blocks the client holds do not
  overlap.
\<close>

theorem sized_sessions_hold_apart:
  assumes "session 256 (\<lambda>n m. Some (Mem_Alloc (int n) m)) Mem_Free_ok m0 m H" and "is_pool m0"
    and "(p, n) \<in> H" and "(q, l) \<in> H" and "(p, n) \<noteq> (q, l)"
  shows "is_pool m \<and> (p + n \<le> q \<or> q + l \<le> p)"
  using m2.session_holds [OF assms(1,2)] m2.held_apart [OF assms] by (simp add: m2.holds_def)

section \<open>A new region\<close>

lemma fold_fill: "fold (\<lambda>i t. t(i := v)) [0 ..< k] t = (\<lambda>i. if i < k then v else t i)"
  by (induction k) (auto simp: fun_eq_iff less_Suc_eq)

lemma mark_header_cells:
  "cell (mark_header h (\<lambda>_. 0)) b = (if b < h div 16 then 0x60 else 0)"
proof -
  define n where "n = h div 16"
  define q r where "q = n div 2" and "r = n mod 2"
  have n: "n = 2 * q + r" "r < 2" by (simp_all add: q_def r_def)
  have q: "n * 4 div 8 = q" by (simp add: n_def q_def)
  have m: "mark_header h (\<lambda>_. 0) i = (if i < q then 0x66 else if r = 1 \<and> i = q then 0x60 else 0)" for i
    unfolding mark_header_def fold_fill n_def [symmetric] Let_def q r_def [symmetric] by auto
  consider "b div 2 < q" | "b div 2 = q" "b mod 2 = 0" | "b div 2 = q" "b mod 2 = 1" | "q < b div 2"
    using mod_2_cases [of b] by (cases "b div 2" q rule: linorder_cases) auto
  then have "cell (mark_header h (\<lambda>_. 0)) b = (if b < n then 0x60 else 0)"
  proof cases
    case 1
    then have "b < n" using n by linarith
    with 1 mod_2_cases [of b] show ?thesis by (auto simp: cell_def current_def m)
  next
    case 2
    then have "b = 2 * q" by (metis add.right_neutral mult_div_mod_eq)
    with 2 n show ?thesis by (cases "r = 1") (auto simp: cell_def current_def m)
  next
    case 3
    then have "b = 2 * q + 1" by (metis mult_div_mod_eq)
    with 3 n show ?thesis by (auto simp: cell_def current_def m)
  next
    case 4
    then have "\<not> b < n" using n by linarith
    with 4 show ?thesis by (auto simp: cell_def current_def m)
  qed
  then show ?thesis by (simp add: n_def)
qed

lemma header_row: "k \<le> n \<Longrightarrow> b \<le> n \<Longrightarrow> row (\<lambda>b. if b < k then 0x60 else 0) n b"
proof (induction "n - b" arbitrary: b)
  case (Suc x)
  then have "row (\<lambda>b. if b < k then 0x60 else 0) n (Suc b)" by auto
  with Suc show ?case
    by (cases "b < k") (auto intro: row_free row_block [of _ _ _ 1] simp: block_def head_def)
qed (auto intro: row_end)

lemma Mem_Init_pool:
  assumes "first_time_init m \<noteq> 0" and "0 < n" and "n \<le> 2 ^ 31 - 4096" and "0 < sp"
  shows "\<exists>m' h. Mem_Init 4096 (int n) (Some fd) (\<lambda>_. Some sp) m = (0, m') \<and> is_pool m' \<and>
    space_ptr m' = sp \<and> header_size m' = h \<and> h = 128 * ((n + 4095) div 4096) \<and> 0 < h \<and> 16 dvd h \<and> n \<le> 32 * h \<and> Mem_Available m' = 31 * int h \<and>
    cells m' = (\<lambda>b. if b < h div 16 then 0x60 else 0)"
proof -
  define q where "q = (n + 4095) div 4096"
  have al: "alloc_size 4096 (int n) = int (4096 * q)"
  proof -
    define a r where "a = n div 4096" and "r = n mod 4096"
    have n: "n = 4096 * a + r" "r < 4096" by (simp_all add: a_def r_def)
    have sm: "int n smod 4096 = int r" using assms(2) by (simp add: signed_modulo_int_def sgn_if r_def zmod_int)
    have "q = (if r = 0 then a else a + 1)" using n unfolding q_def by (auto intro!: div_nat_eqI)
    then show ?thesis using n assms(3) unfolding alloc_size_def sm Let_def by (auto simp: c_int_id)
  qed
  have q: "0 < q" "q < 2 ^ 19 + 1" "n \<le> 4096 * q" using assms(2,3) unfolding q_def by auto
  have h: "nat (c_int (int (4096 * q) sdiv 16 * 4) sdiv 8) = 128 * q"
  proof -
    have "int (4096 * q) sdiv 16 * 4 = int (1024 * q)" using q(1) by (simp add: signed_divide_int_def sgn_if)
    moreover have "c_int (int (1024 * q)) = int (1024 * q)" using q(2) by (intro c_int_id) auto
    ultimately show ?thesis using q(1) by (simp add: signed_divide_int_def sgn_if)
  qed
  have "row (cell (mark_header (128 * q) (\<lambda>_. 0))) (2 * (128 * q)) 0"
    unfolding mark_header_cells by (rule header_row) auto
  then show ?thesis using assms(1,2,4) q
    unfolding Mem_Init_def al h Let_def
    by (auto simp: is_pool_def segments_def Mem_Available_def mark_header_cells fun_eq_iff q_def simp del: of_nat_mult)
qed

text \<open>
  The header of the region counts as blocks of 16 bytes: on a new region a client can
  release the start of the region, and the next request for 16 bytes is answered with the bytes of the
  header itself.
\<close>

theorem header_can_be_released:
  assumes "first_time_init m \<noteq> 0" and "0 < n" and "n \<le> 2 ^ 31 - 4096" and "0 < sp"
  shows "\<exists>m0 m1 m2. Mem_Init 4096 (int n) (Some fd) (\<lambda>_. Some sp) m = (0, m0) \<and>
    Mem_Free sp m0 = Inr (0, m1) \<and> Mem_Available m1 = Mem_Available m0 + 16 \<and> Mem_Alloc 16 m1 = (sp, m2)"
proof -
  from Mem_Init_pool [OF assms, of fd] obtain m0 h where m0: "Mem_Init 4096 (int n) (Some fd) (\<lambda>_. Some sp) m = (0, m0)"
    "is_pool m0" "space_ptr m0 = sp" "header_size m0 = h" "0 < h" "16 dvd h"
    "cells m0 = (\<lambda>b. if b < h div 16 then 0x60 else 0)" by blast
  have sp: "seg_ptr 0 m0 = sp" using m0(3) by (simp add: seg_ptr_def)
  have "0 < h div 16" using m0(5,6) by auto
  then have b: "block (cells m0) (segments m0) 0 1" using m0(4,5,7) by (auto simp: block_def segments_def head_def)
  from Mem_Free_block [OF m0(2) b] obtain m1 where m1: "Mem_Free sp m0 = Inr (0, m1)"
    "changed m0 (clear 0 1 (cells m0)) 16 m1" unfolding sp by auto
  have "row (clear 0 1 (cells m0)) (segments m0) 0" using m0(2) b by (intro row_clear) (auto simp: is_pool_def)
  then have p: "is_pool m1" by (rule changed_pool(1) [OF m0(2) m1(2)])
  have sg: "seg_ptr 0 m1 = sp" using m1(2) sp by (simp add: changed_def seg_ptr_def)
  have "free_run (cells m1) (segments m1) 0 1"
    using m1(2) m0(4,5) by (auto simp: changed_def free_run_def clear_def segments_def)
  with Mem_Alloc_first_run [OF p, of 16 1] obtain m2 where "Mem_Alloc 16 m1 = (sp, m2)"
    using sg by (auto simp: signed_divide_int_def)
  with m0(1) m1 show ?thesis by (auto simp: changed_def Mem_Available_def)
qed


section \<open>A region of one page\<close>

definition blank :: pool where
  "blank = \<lparr>space_ptr = 0, header_size = 0, mem_available = 0, first_time_init = 1, bytes = (\<lambda>_. 0)\<rparr>"

definition new_page :: pool where
  "new_page = snd (Mem_Init 4096 4096 (Some 3) (\<lambda>_. Some 4096) blank)"

lemma new_page:
  "is_pool new_page" "space_ptr new_page = 4096" "header_size new_page = 128"
  "cells new_page = (\<lambda>b. if b < 8 then 0x60 else 0)"
proof -
  have b: "first_time_init blank \<noteq> 0" by (simp add: blank_def)
  obtain m h where m: "Mem_Init 4096 (int 4096) (Some 3) (\<lambda>_. Some 4096) blank = (0, m)" "is_pool m"
    "space_ptr m = 4096" "header_size m = h" "h = 128 * ((4096 + 4095) div 4096)"
    "cells m = (\<lambda>b. if b < h div 16 then 0x60 else 0)"
    using Mem_Init_pool [OF b, of 4096 4096 3] by auto
  then have "h = 128" "new_page = m" by (simp_all add: new_page_def)
  with m show "is_pool new_page" "space_ptr new_page = 4096" "header_size new_page = 128"
    "cells new_page = (\<lambda>b. if b < 8 then 0x60 else 0)" by simp_all
qed

lemma new_page_alloc:
  assumes "sz = 16 \<or> sz = 80 \<or> sz = 256"
  obtains p m where "Mem_Alloc sz new_page = (p, m)" and "p \<noteq> 0"
proof -
  define k where "k = nat (sz sdiv 16)"
  have "k = 1 \<or> k = 5 \<or> k = 16" using mask_of_block(2) [OF assms k_def] .
  then have "free_run (cells new_page) (segments new_page) 8 k" by (auto simp: free_run_def new_page segments_def)
  with Mem_Alloc_first_run [OF new_page(1) assms k_def] that show thesis
    by (auto simp: seg_ptr_def new_page)
qed

lemma sized_free_undoes_alloc_witness:
  "\<exists>p m. Mem_Alloc 80 new_page = (p, m) \<and> p \<noteq> 0 \<and> Mem_Free p m = Inr (0, new_page)"
proof -
  obtain p m where "Mem_Alloc 80 new_page = (p, m)" "p \<noteq> 0" using new_page_alloc [of 80] by auto
  with sized_free_undoes_alloc [OF new_page(1) this] show ?thesis by blast
qed

lemma sized_alloc_takes_first_run_witness:
  "\<exists>p m. Mem_Alloc 256 new_page = (p, m) \<and> is_pool m"
  using sized_alloc_takes_first_run [OF new_page(1), of 256 16] new_page(1) by auto

lemma sized_free_refuses_others_witness: "Mem_Free 4224 new_page = Inr (- 1, new_page)"
proof -
  have "(4224, k) \<notin> live_blocks new_page" for k
    by (auto simp: live_blocks_def seg_ptr_def block_def new_page)
  with sized_free_refuses_others [OF new_page(1), of 4224] show ?thesis by (simp add: new_page segments_def)
qed

lemma sized_sessions_hold_apart_witness:
  "\<exists>p q m. session 256 (\<lambda>n m. Some (Mem_Alloc (int n) m)) Mem_Free_ok new_page m {(q, 16), (p, 80)} \<and>
    is_pool m \<and> (p + 80 \<le> q \<or> q + 16 \<le> p)"
proof -
  obtain p m where p: "Mem_Alloc 80 new_page = (p, m)" "p \<noteq> 0" using new_page_alloc [of 80] by auto
  have "\<exists>q m'. Mem_Alloc 16 m = (q, m') \<and> q \<noteq> 0"
  proof -
    obtain d where d: "changed new_page (fill d 5 (cells new_page)) (- 80) m" "p = seg_ptr d new_page"
      "free_run (cells new_page) (segments new_page) d 5"
      using Mem_Alloc_first_run [OF new_page(1), of 80 5] p by (auto simp: signed_divide_int_def)
    have m: "is_pool m" using Mem_Alloc_cases [OF new_page(1) p(1)] p(2) by simp
    define b where "b = (if d + 5 \<le> 100 then 200 else 50 :: nat)"
    have "free_run (cells m) (segments m) b 1" using d(1)
      by (auto simp: changed_def free_run_def fill_def new_page segments_def b_def)
    with Mem_Alloc_first_run [OF m, of 16 1] m show ?thesis
      by (auto simp: signed_divide_int_def seg_ptr_def is_pool_def)
  qed
  then obtain q m' where q: "Mem_Alloc 16 m = (q, m')" "q \<noteq> 0" by blast
  have s: "session 256 (\<lambda>n m. Some (Mem_Alloc (int n) m)) Mem_Free_ok new_page m' {(q, 16), (p, 80)}"
    by (rule takes [OF takes [OF begin_session]]) (use p q in simp_all)
  with sized_sessions_hold_apart [OF s new_page(1), of p 80 q 16] show ?thesis by auto
qed

lemma header_can_be_released_witness:
  "\<exists>m0 m1 m2. Mem_Init 4096 4096 (Some 3) (\<lambda>_. Some 4096) blank = (0, m0) \<and> Mem_Free 4096 m0 = Inr (0, m1) \<and>
    Mem_Alloc 16 m1 = (4096, m2)"
  using header_can_be_released [of blank 4096 4096 3] by (auto simp: blank_def)

end
