(* ===== verification/Mem3.thy ===== *)
theory Mem3
  imports Allocator
begin

text \<open>
  The first-fit allocator of \<open>src/p3a/mem3.c\<close>: a region with a list of headers, each before its
  block; the lowest bit of a header's size says that the block is in use.  The headers are kept in a
  store from addresses to headers (16 bytes each, \<open>sizeof(block_header)\<close>), \<open>0\<close> is the null pointer.
  \<open>int\<close> and \<open>size_t\<close> arithmetic wraps at 32 and 64 bits.  A walk along the list need not end when
  the headers are damaged: the loops are \<open>option\<close>-valued, \<open>None\<close> for a loop that does not end, and the
  properties show that they do.  One thread at a time uses the allocator (the code takes a mutex).
\<close>

section \<open>Headers\<close>

abbreviation HDR :: nat where "HDR \<equiv> 16"

record block_header =
  h_next :: nat
  h_size :: int
  h_magic :: int

record mem3 =
  hdrs :: "nat \<Rightarrow> block_header"
  list_head :: nat
  first_time_init :: int
  mem_available :: int

definition magic_num :: int where "magic_num = 103103103"

definition size_t :: "int \<Rightarrow> int" where "size_t i = i mod 2 ^ 64"

definition upd_hdr :: "nat \<Rightarrow> (block_header \<Rightarrow> block_header) \<Rightarrow> mem3 \<Rightarrow> mem3" where
  "upd_hdr a f m = m\<lparr>hdrs := (hdrs m)(a := f (hdrs m a))\<rparr>"

text \<open>
  \<open>Mem_Init\<close>, with the size of a page, and with the descriptor of \<open>/dev/zero\<close> and the mapped region
  as the system returns them (\<open>None\<close> for a failure).
\<close>

definition Mem_Init :: "int \<Rightarrow> int \<Rightarrow> int option \<Rightarrow> (int \<Rightarrow> nat option) \<Rightarrow> mem3 \<Rightarrow> int \<times> mem3" where
  "Mem_Init page_size sizeOfRegion fd mmap m =
    (if first_time_init m = 0 then (- 1, m)
     else if sizeOfRegion \<le> 0 then (- 1, m)
     else let n = alloc_size page_size sizeOfRegion
      in if fd = None then (- 1, m)
      else (case mmap n of
          None \<Rightarrow> (- 1, m)
        | Some space_ptr \<Rightarrow> (0,
            (upd_hdr space_ptr (\<lambda>_. \<lparr>h_next = 0, h_size = n - int HDR, h_magic = magic_num\<rparr>)
              (m\<lparr>list_head := space_ptr\<rparr>))\<lparr>first_time_init := 0\<rparr>)))"

section \<open>Allocation\<close>

definition split_block :: "int \<Rightarrow> nat \<Rightarrow> mem3 \<Rightarrow> mem3" where
  "split_block sz current m = (let
      next = nat (int current + int HDR + sz);
      m = upd_hdr next (\<lambda>h. h\<lparr>h_size := c_int (h_size (hdrs m current) - sz - int HDR)\<rparr>) m;
      m = upd_hdr next (\<lambda>h. h\<lparr>h_next := h_next (hdrs m current)\<rparr>) m;
      m = upd_hdr next (\<lambda>h. h\<lparr>h_magic := magic_num\<rparr>) m;
      m = upd_hdr current (\<lambda>h. h\<lparr>h_next := next\<rparr>) m
    in upd_hdr current (\<lambda>h. h\<lparr>h_size := c_int (sz + 1)\<rparr>) m)"

partial_function (option) alloc_walk :: "int \<Rightarrow> nat \<Rightarrow> mem3 \<Rightarrow> (nat \<times> mem3) option" where
  "alloc_walk sz current m =
    (if current = 0 then Some (0, m)
     else let h = hdrs m current in
       if h_size h smod 8 = 0 \<and> size_t (size_t sz + int HDR) < size_t (h_size h) then
         Some (current + HDR, split_block sz current m)
       else if h_size h smod 8 = 0 \<and> sz \<le> h_size h then
         Some (current + HDR, upd_hdr current (\<lambda>h. h\<lparr>h_size := c_int (h_size h + 1)\<rparr>) m)
       else alloc_walk sz (h_next h) m)"

definition Mem_Alloc :: "int \<Rightarrow> mem3 \<Rightarrow> (nat \<times> mem3) option" where
  "Mem_Alloc sz m =
    (if sz \<le> 0 then Some (0, m)
     else let sz = (if sz smod 8 \<noteq> 0 then c_int (sz + (8 - sz smod 8)) else sz) in
       alloc_walk sz (list_head m) m)"

section \<open>Release\<close>

datatype fault = Null_access

partial_function (option) find_block :: "int \<Rightarrow> nat \<Rightarrow> mem3 \<Rightarrow> bool option" where
  "find_block p current m =
    (if current = 0 then Some False
     else if p = int current then Some True
     else find_block p (h_next (hdrs m current)) m)"

definition join_next :: "nat \<Rightarrow> mem3 \<Rightarrow> mem3" where
  "join_next a m = (let
      m = upd_hdr a (\<lambda>h. h\<lparr>h_size := c_int (h_size h + (h_size (hdrs m (h_next h)) + int HDR))\<rparr>) m
    in upd_hdr a (\<lambda>h. h\<lparr>h_next := h_next (hdrs m (h_next h))\<rparr>) m)"

partial_function (option) join_prev :: "nat \<Rightarrow> nat \<Rightarrow> mem3 \<Rightarrow> mem3 option" where
  "join_prev p current m =
    (if h_next (hdrs m current) = 0 then Some m
     else if h_next (hdrs m current) = p \<and> h_size (hdrs m current) smod 8 = 0 then
       Some (join_next current m)
     else join_prev p (h_next (hdrs m current)) m)"

definition Mem_Free :: "nat \<Rightarrow> mem3 \<Rightarrow> (fault + int \<times> mem3) option" where
  "Mem_Free ptr m =
    (if ptr = 0 then Some (Inr (- 1, m))
     else Option.bind (find_block (int ptr - int HDR) (list_head m) m) (\<lambda>valid.
       if \<not> valid then Some (Inr (- 1, m))
       else let p = ptr - HDR in
       if h_magic (hdrs m p) \<noteq> magic_num then Some (Inr (- 1, m))
       else if h_size (hdrs m p) smod 8 \<noteq> 1 then Some (Inr (- 1, m))
       else let m = upd_hdr p (\<lambda>h. h\<lparr>h_size := c_int (h_size h - 1)\<rparr>) m in
       if h_next (hdrs m p) = 0 then Some (Inl Null_access)
       else let m = (if h_size (hdrs m (h_next (hdrs m p))) smod 8 = 0 then join_next p m else m) in
         Option.bind (join_prev p (list_head m) m) (\<lambda>m. Some (Inr (0, m)))))"

section \<open>The free space\<close>

partial_function (option) dump_walk :: "nat \<Rightarrow> int \<Rightarrow> int \<Rightarrow> mem3 \<Rightarrow> int option" where
  "dump_walk current free_size busy_size m =
    (if current = 0 then Some free_size
     else let sz = h_size (hdrs m current) in
       if and sz 1 \<noteq> 0 then
         dump_walk (h_next (hdrs m current)) free_size (c_int (busy_size + (sz - 1 + int HDR))) m
       else dump_walk (h_next (hdrs m current)) (c_int (free_size + (sz + int HDR))) busy_size m)"

definition Mem_Dump :: "mem3 \<Rightarrow> mem3 option" where
  "Mem_Dump m = map_option (\<lambda>n. m\<lparr>mem_available := n\<rparr>) (dump_walk (list_head m) 0 0 m)"

definition Mem_Available :: "mem3 \<Rightarrow> (int \<times> mem3) option" where
  "Mem_Available m = map_option (\<lambda>m. (mem_available m, m)) (Mem_Dump m)"


section \<open>The region as a sequence of blocks\<close>

text \<open>
  A block is its number of bytes and whether it is in use.  \<open>seg h e a bs z\<close>: the headers from \<open>a\<close>
  on are those of the blocks \<open>bs\<close>, each at the end of its predecessor, and \<open>z\<close> is the address behind
  them; the last block of the region, which ends at \<open>e\<close>, has no next one.
\<close>

type_synonym block = "nat \<times> bool"

definition link :: "nat \<Rightarrow> nat \<Rightarrow> nat" where
  "link e a = (if a = e then 0 else a)"

definition header_of :: "nat \<Rightarrow> nat \<Rightarrow> block \<Rightarrow> block_header \<Rightarrow> bool" where
  "header_of e a b h \<longleftrightarrow> h_next h = link e (a + HDR + fst b) \<and>
    h_size h = int (fst b) + (if snd b then 1 else 0) \<and> h_magic h = magic_num \<and> fst b mod 8 = 0"

fun seg :: "(nat \<Rightarrow> block_header) \<Rightarrow> nat \<Rightarrow> nat \<Rightarrow> block list \<Rightarrow> nat \<Rightarrow> bool" where
  "seg h e a [] z \<longleftrightarrow> a = z"
| "seg h e a (b # bs) z \<longleftrightarrow> header_of e a b (h a) \<and> seg h e (a + HDR + fst b) bs z"

definition extent :: "block list \<Rightarrow> nat" where
  "extent bs = sum_list (map (\<lambda>b. HDR + fst b) bs)"

lemma extent_simps [simp]:
  "extent [] = 0" "extent (b # bs) = HDR + fst b + extent bs" "extent (xs @ ys) = extent xs + extent ys"
  by (simp_all add: extent_def)

lemma seg_end: "seg h e a bs z \<Longrightarrow> z = a + extent bs"
proof (induction bs arbitrary: a)
  case (Cons b bs)
  then have "seg h e (a + HDR + fst b) bs z" by simp
  then have "z = a + HDR + fst b + extent bs" by (rule Cons.IH)
  then show ?case by simp
qed simp

lemma seg_append:
  "seg h e a (xs @ ys) z \<longleftrightarrow> seg h e a xs (a + extent xs) \<and> seg h e (a + extent xs) ys z"
  by (induction xs arbitrary: a) (auto simp: add.assoc)

lemma seg_cong:
  assumes "\<And>x. a \<le> x \<Longrightarrow> x < z \<Longrightarrow> h x = h' x"
  shows "seg h e a bs z = seg h' e a bs z"
  using assms
proof (induction bs arbitrary: a)
  case (Cons b bs)
  show ?case
  proof (cases "a < z")
    case True
    with Cons.prems have "h a = h' a" by simp
    moreover have "seg h e (a + HDR + fst b) bs z = seg h' e (a + HDR + fst b) bs z"
      by (rule Cons.IH) (use Cons.prems in auto)
    ultimately show ?thesis by simp
  next
    case False
    have "\<not> seg h e (a + HDR + fst b) bs z" "\<not> seg h' e (a + HDR + fst b) bs z"
      using False seg_end [of _ e "a + HDR + fst b" bs z] by fastforce+
    then show ?thesis by simp
  qed
qed simp

text \<open>A region of fewer than \<open>2\<^sup>3\<^sup>1\<close> bytes, as \<open>Mem_Init\<close> makes it.\<close>

definition region :: "mem3 \<Rightarrow> nat \<Rightarrow> nat \<Rightarrow> block list \<Rightarrow> bool" where
  "region m a e bs \<longleftrightarrow> list_head m = a \<and> 0 < a \<and> bs \<noteq> [] \<and> e < a + 2 ^ 31 \<and> seg (hdrs m) e a bs e"

lemma size_t_id: "0 \<le> i \<Longrightarrow> i < 2 ^ 64 \<Longrightarrow> size_t i = i"
  by (simp add: size_t_def)

lemma smod_pos: "0 \<le> i \<Longrightarrow> i smod 8 = i mod 8" for i :: int
  by (cases "i = 0") (simp_all add: signed_modulo_int_def sgn_if)

lemma header_size:
  assumes "header_of e a b h"
  shows "h_size h smod 8 = (if snd b then 1 else 0)"
proof -
  from assms obtain k where "fst b = 8 * k" by (auto simp: header_of_def)
  with assms show ?thesis by (auto simp: header_of_def smod_pos)
qed

section \<open>First fit\<close>

text \<open>The first free block that is large enough, split when a header fits into the rest.\<close>

fun first_fit :: "nat \<Rightarrow> nat \<Rightarrow> block list \<Rightarrow> (nat \<times> block list) option" where
  "first_fit n a [] = None"
| "first_fit n a ((k, busy) # bs) =
    (if \<not> busy \<and> n + HDR < k then Some (a, (n, True) # (k - n - HDR, False) # bs)
     else if \<not> busy \<and> n \<le> k then Some (a, (k, True) # bs)
     else map_option (\<lambda>(p, bs). (p, (k, busy) # bs)) (first_fit n (a + HDR + k) bs))"


lemma upd_hdr_sel [simp]:
  "hdrs (upd_hdr a f m) = (hdrs m)(a := f (hdrs m a))" "list_head (upd_hdr a f m) = list_head m"
  "first_time_init (upd_hdr a f m) = first_time_init m" "mem_available (upd_hdr a f m) = mem_available m"
  by (simp_all add: upd_hdr_def)

lemma split_block_sel [simp]:
  "list_head (split_block sz a m) = list_head m" "first_time_init (split_block sz a m) = first_time_init m"
  "mem_available (split_block sz a m) = mem_available m"
  by (simp_all add: split_block_def Let_def)

lemma seg_start:
  assumes "seg h e a bs e" and "0 < a"
  shows "bs = [] \<Longrightarrow> link e a = 0" and "bs \<noteq> [] \<Longrightarrow> link e a = a \<and> a \<noteq> 0 \<and> a < e"
  using assms seg_end [OF assms(1)] by (cases bs; force simp: link_def)+

lemma split_block_seg:
  assumes "header_of e a (k, False) (hdrs m a)" and "seg (hdrs m) e (a + HDR + k) bs e"
    and "n + HDR < k" and "n mod 8 = 0" and "k < 2 ^ 31"
  shows "seg (hdrs (split_block (int n) a m)) e a ((n, True) # (k - n - HDR, False) # bs) e"
    and "x < a \<Longrightarrow> hdrs (split_block (int n) a m) x = hdrs m x"
proof -
  let ?x = "a + HDR + n" and ?m = "split_block (int n) a m"
  have nx: "nat (int a + int HDR + int n) = ?x" by simp
  have sz: "c_int (int k - int n - int HDR) = int (k - n - HDR)" "c_int (int n + 1) = int n + 1"
    using assms(3,5) by (subst c_int_id; simp add: of_nat_diff)+
  have old: "h_size (hdrs m a) = int k" "h_next (hdrs m a) = link e (a + HDR + k)" "k mod 8 = 0"
    "h_magic (hdrs m a) = magic_num"
    using assms(1) by (simp_all add: header_of_def)
  have h: "hdrs ?m = (hdrs m)(?x := \<lparr>h_next = link e (a + HDR + k), h_size = int (k - n - HDR), h_magic = magic_num\<rparr>,
      a := \<lparr>h_next = ?x, h_size = int n + 1, h_magic = magic_num\<rparr>)"
    using old sz by (simp add: split_block_def Let_def nx fun_eq_iff)
  show "x < a \<Longrightarrow> hdrs ?m x = hdrs m x" by (simp add: h)
  have rest: "seg (hdrs ?m) e (a + HDR + k) bs e"
    using assms(2,3) by (subst seg_cong [of _ _ "hdrs ?m" "hdrs m"]) (simp_all add: h)
  have e: "a + HDR + k \<le> e" using seg_end [OF assms(2)] by simp
  have "(k - n - HDR) mod 8 = 0" using assms(3,4) old(3) by (simp add: mod_eq_0_iff_dvd)
  then show "seg (hdrs ?m) e a ((n, True) # (k - n - HDR, False) # bs) e"
    using rest assms(3,4) e by (simp add: h header_of_def link_def add.assoc)
qed

lemma alloc_walk_fits:
  assumes "seg (hdrs m) e a bs e" and "0 < a" and "extent bs < 2 ^ 31" and "n mod 8 = 0" and "n < 2 ^ 31"
  shows "case first_fit n a bs of
      None \<Rightarrow> alloc_walk (int n) (link e a) m = Some (0, m)
    | Some (p, bs') \<Rightarrow> \<exists>m'. alloc_walk (int n) (link e a) m = Some (p + HDR, m') \<and>
        seg (hdrs m') e a bs' e \<and> list_head m' = list_head m \<and> (\<forall>x<a. hdrs m' x = hdrs m x)"
  using assms
proof (induction n a bs rule: first_fit.induct)
  case (1 n a)
  then show ?case by (simp add: alloc_walk.simps link_def)
next
  case (2 n a k busy bs)
  from "2.prems" have hd: "header_of e a (k, busy) (hdrs m a)" and tl: "seg (hdrs m) e (a + HDR + k) bs e"
    and k: "k < 2 ^ 31" "extent bs < 2 ^ 31" and a: "link e a = a" "a \<noteq> 0"
    using seg_start(2) [OF "2.prems"(1,2)] by auto
  have sz: "h_size (hdrs m a) = int k + (if busy then 1 else 0)"
    "h_size (hdrs m a) smod 8 = (if busy then 1 else 0)" "h_next (hdrs m a) = link e (a + HDR + k)"
    using hd header_size [OF hd] by (simp_all add: header_of_def)
  have st: "size_t (size_t (int n) + int HDR) < size_t (int k) \<longleftrightarrow> n + HDR < k"
    using k "2.prems"(5) by (simp add: size_t_id) linarith
  consider (split) "\<not> busy" "n + HDR < k" | (fit) "\<not> busy" "\<not> n + HDR < k" "n \<le> k"
    | (skip) "busy \<or> k < n" by linarith
  then show ?case
  proof cases
    case split
    from split_block_seg [OF _ tl split(2) "2.prems"(4) k(1)] hd split show ?thesis
      using a sz st by (subst alloc_walk.simps) simp
  next
    case fit
    have "k \<noteq> 2147483647" using hd by (auto simp: header_of_def)
    then have "c_int (int k + 1) = int k + 1" using k by (intro c_int_id) simp_all
    moreover have "seg (hdrs (upd_hdr a (\<lambda>h. h\<lparr>h_size := c_int (h_size h + 1)\<rparr>) m)) e (a + HDR + k) bs e"
      using tl by (subst seg_cong [of _ _ _ "hdrs m"]) simp_all
    ultimately show ?thesis
      using fit a sz st hd by (subst alloc_walk.simps) (simp add: header_of_def)
  next
    case skip
    have go: "alloc_walk (int n) (link e a) m = alloc_walk (int n) (link e (a + HDR + k)) m"
      using skip a sz st by (subst alloc_walk.simps) auto
    have "0 < a + HDR + k" by simp
    note IH = "2.IH" [OF _ _ tl this k(2) "2.prems"(4,5)]
    show ?thesis
    proof (cases "first_fit n (a + HDR + k) bs")
      case None
      with IH skip go show ?thesis by auto
    next
      case (Some r)
      obtain p bs' where r: "r = (p, bs')" by (cases r)
      with IH Some skip obtain m' where m': "alloc_walk (int n) (link e (a + HDR + k)) m = Some (p + HDR, m')"
        "seg (hdrs m') e (a + HDR + k) bs' e" "list_head m' = list_head m"
        "\<forall>x<a + HDR + k. hdrs m' x = hdrs m x"
        by auto
      with Some r skip go hd show ?thesis by auto
    qed
  qed
qed


section \<open>Release and joining\<close>

fun starts :: "nat \<Rightarrow> block list \<Rightarrow> nat list" where
  "starts a [] = []"
| "starts a (b # bs) = a # starts (a + HDR + fst b) bs"

text \<open>The released block is joined with a free block behind it, then with a free one before it.\<close>

definition merge_next :: "nat \<Rightarrow> block list \<Rightarrow> nat \<times> block list" where
  "merge_next k ys = (case ys of (k2, False) # zs \<Rightarrow> (k + HDR + k2, zs) | _ \<Rightarrow> (k, ys))"

definition merge_prev :: "block list \<Rightarrow> nat \<Rightarrow> block list \<Rightarrow> block list" where
  "merge_prev xs k ys =
    (if xs \<noteq> [] \<and> \<not> snd (last xs) then butlast xs @ (fst (last xs) + HDR + k, False) # ys
     else xs @ (k, False) # ys)"

definition released :: "block list \<Rightarrow> nat \<Rightarrow> block list \<Rightarrow> block list" where
  "released xs k ys = (case merge_next k ys of (k', ys') \<Rightarrow> merge_prev xs k' ys')"

lemma find_block_starts:
  "seg (hdrs m) e a bs e \<Longrightarrow> 0 < a \<Longrightarrow>
    find_block p (link e a) m = Some (p \<in> int ` set (starts a bs))"
proof (induction bs arbitrary: a)
  case Nil
  then show ?case by (simp add: find_block.simps link_def)
next
  case (Cons b bs)
  from Cons.prems have a: "link e a = a" "a \<noteq> 0" "h_next (hdrs m a) = link e (a + HDR + fst b)"
    using seg_start(2) [OF Cons.prems] by (auto simp: header_of_def)
  have "find_block p (link e (a + HDR + fst b)) m = Some (p \<in> int ` set (starts (a + HDR + fst b) bs))"
    by (rule Cons.IH) (use Cons.prems in auto)
  with a show ?case by (subst find_block.simps) auto
qed

lemma join_next_seg:
  assumes "seg (hdrs m) e a ((k, False) # (k2, False) # bs) e" and "k + HDR + k2 < 2 ^ 31"
  shows "seg (hdrs (join_next a m)) e a ((k + HDR + k2, False) # bs) e"
    and "x \<noteq> a \<Longrightarrow> hdrs (join_next a m) x = hdrs m x"
    and "list_head (join_next a m) = list_head m"
proof -
  let ?b = "a + HDR + k"
  have h: "header_of e a (k, False) (hdrs m a)" "header_of e ?b (k2, False) (hdrs m ?b)"
    and s: "seg (hdrs m) e (?b + HDR + k2) bs e"
    using assms(1) by auto
  have "?b < e" using seg_end [OF s] by simp
  then have nx: "h_next (hdrs m a) = ?b" using h(1) by (simp add: header_of_def link_def)
  have sz: "c_int (int k + (int k2 + int HDR)) = int (k + HDR + k2)"
    using assms(2) by (subst c_int_id) simp_all
  have j: "hdrs (join_next a m) = (hdrs m)(a := \<lparr>h_next = link e (?b + HDR + k2),
      h_size = int (k + HDR + k2), h_magic = magic_num\<rparr>)"
    using h sz by (simp add: join_next_def Let_def nx header_of_def fun_eq_iff)
  show "x \<noteq> a \<Longrightarrow> hdrs (join_next a m) x = hdrs m x" by (simp add: j)
  show "list_head (join_next a m) = list_head m" by (simp add: join_next_def Let_def)
  have "seg (hdrs (join_next a m)) e (?b + HDR + k2) bs e"
    using s by (subst seg_cong [of _ _ _ "hdrs m"]) (simp_all add: j)
  moreover have "(k + HDR + k2) mod 8 = 0" using h by (simp add: header_of_def mod_eq_0_iff_dvd)
  ultimately show "seg (hdrs (join_next a m)) e a ((k + HDR + k2, False) # bs) e"
    by (simp add: j header_of_def add.assoc)
qed

lemma join_prev_past:
  "seg (hdrs m) e a bs e \<Longrightarrow> bs \<noteq> [] \<Longrightarrow> 0 < a \<Longrightarrow> p \<le> a \<Longrightarrow> join_prev p a m = Some m"
proof (induction bs arbitrary: a)
  case (Cons b bs)
  then have tl: "seg (hdrs m) e (a + HDR + fst b) bs e" "0 < a + HDR + fst b"
    and nx: "h_next (hdrs m a) = link e (a + HDR + fst b)"
    by (auto simp: header_of_def)
  show ?case
  proof (cases "bs = []")
    case True
    with seg_start(1) [OF tl] nx show ?thesis by (subst join_prev.simps) simp
  next
    case False
    with Cons.IH [OF tl(1) _ tl(2)] Cons.prems(4) seg_start(2) [OF tl False] nx show ?thesis
      by (subst join_prev.simps) auto
  qed
qed simp

lemma join_prev_joins:
  assumes "seg (hdrs m) e a (xs @ (k, False) # ys) e" and "0 < a" and "extent (xs @ (k, False) # ys) < 2 ^ 31"
  shows "\<exists>m'. join_prev (a + extent xs) a m = Some m' \<and> seg (hdrs m') e a (merge_prev xs k ys) e \<and>
    list_head m' = list_head m \<and> (\<forall>x<a. hdrs m' x = hdrs m x)"
  using assms
proof (induction xs arbitrary: a)
  case Nil
  then show ?case using join_prev_past [of m e a "(k, False) # ys" a] by (simp add: merge_prev_def)
next
  case (Cons b xs)
  let ?a = "a + HDR + fst b"
  from Cons.prems have hd: "header_of e a b (hdrs m a)" and tl: "seg (hdrs m) e ?a (xs @ (k, False) # ys) e"
    by auto
  have nx: "h_next (hdrs m a) = ?a" "?a \<noteq> 0"
    using hd seg_start(2) [OF tl] by (simp_all add: header_of_def)
  show ?case
  proof (cases "xs = [] \<and> \<not> snd b")
    case True
    then obtain n where b: "b = (n, False)" by (cases b) auto
    with True Cons.prems have s: "seg (hdrs m) e a ((n, False) # (k, False) # ys) e" "n + HDR + k < 2 ^ 31"
      by auto
    have "join_prev (a + extent (b # xs)) a m = Some (join_next a m)"
      using nx header_size [OF hd] True by (subst join_prev.simps) auto
    with join_next_seg [OF s] True b show ?thesis by (simp add: merge_prev_def)
  next
    case False
    have go: "join_prev (a + extent (b # xs)) a m = join_prev (?a + extent xs) ?a m"
      using nx header_size [OF hd] False by (subst join_prev.simps) (cases xs; auto simp: ac_simps)
    have m: "merge_prev (b # xs) k ys = b # merge_prev xs k ys"
      using False by (auto simp: merge_prev_def)
    obtain m' where "join_prev (?a + extent xs) ?a m = Some m'" "seg (hdrs m') e ?a (merge_prev xs k ys) e"
      "list_head m' = list_head m" "\<forall>x<?a. hdrs m' x = hdrs m x"
      using Cons.IH [OF tl] Cons.prems(2,3) by auto
    with go m hd show ?thesis by auto
  qed
qed


lemma starts_append: "starts a (xs @ ys) = starts a xs @ starts (a + extent xs) ys"
  by (induction xs arbitrary: a) (simp_all add: add.assoc)

lemma busy_header:
  assumes "seg (hdrs m) e a (xs @ (k, True) # ys) e" and "extent (xs @ (k, True) # ys) < 2 ^ 31"
  shows "h_magic (hdrs m (a + extent xs)) = magic_num" and "h_size (hdrs m (a + extent xs)) smod 8 = 1"
    and "h_next (hdrs m (a + extent xs)) = link e (a + extent xs + HDR + k)"
    and "seg (hdrs (upd_hdr (a + extent xs) (\<lambda>h. h\<lparr>h_size := c_int (h_size h - 1)\<rparr>) m)) e a
      (xs @ (k, False) # ys) e"
proof -
  let ?p = "a + extent xs"
  let ?m = "upd_hdr ?p (\<lambda>h. h\<lparr>h_size := c_int (h_size h - 1)\<rparr>) m"
  have s: "seg (hdrs m) e a xs ?p" "header_of e ?p (k, True) (hdrs m ?p)" "seg (hdrs m) e (?p + HDR + k) ys e"
    using assms(1) by (simp_all add: seg_append)
  then show "h_magic (hdrs m ?p) = magic_num" "h_size (hdrs m ?p) smod 8 = 1"
    "h_next (hdrs m ?p) = link e (?p + HDR + k)"
    using header_size [OF s(2)] by (simp_all add: header_of_def)
  have "c_int (int k) = int k" using assms(2) by (intro c_int_id) simp_all
  then have "header_of e ?p (k, False) (hdrs ?m ?p)" using s(2) by (simp add: header_of_def)
  moreover have "seg (hdrs ?m) e a xs ?p" using s(1) by (subst seg_cong [of _ _ _ "hdrs m"]) simp_all
  moreover have "seg (hdrs ?m) e (?p + HDR + k) ys e"
    using s(3) by (subst seg_cong [of _ _ _ "hdrs m"]) simp_all
  ultimately show "seg (hdrs ?m) e a (xs @ (k, False) # ys) e" by (simp add: seg_append)
qed

lemma Mem_Free_busy:
  assumes "region m a e (xs @ (k, True) # ys)"
  shows "if ys = [] then Mem_Free (a + extent xs + HDR) m = Some (Inl Null_access)
    else \<exists>m'. Mem_Free (a + extent xs + HDR) m = Some (Inr (0, m')) \<and> region m' a e (released xs k ys)"
proof -
  let ?p = "a + extent xs"
  let ?m = "upd_hdr ?p (\<lambda>h. h\<lparr>h_size := c_int (h_size h - 1)\<rparr>) m"
  have s: "seg (hdrs m) e a (xs @ (k, True) # ys) e" and a: "list_head m = a" "0 < a"
    and e: "e < a + 2 ^ 31"
    using assms by (auto simp: region_def)
  then have x: "extent (xs @ (k, True) # ys) < 2 ^ 31" using seg_end [OF s] by simp
  note b = busy_header [OF s x]
  have lk: "link e a = a" using seg_start(2) [OF s a(2)] by simp
  have found: "find_block (int (?p + HDR) - int HDR) (list_head m) m = Some True"
    using find_block_starts [OF s a(2), of "int ?p"] by (simp add: a lk starts_append)
  have front: "Mem_Free (?p + HDR) m = (if h_next (hdrs ?m ?p) = 0 then Some (Inl Null_access)
      else let m = (if h_size (hdrs ?m (h_next (hdrs ?m ?p))) smod 8 = 0 then join_next ?p ?m else ?m) in
        Option.bind (join_prev ?p (list_head m) m) (\<lambda>m. Some (Inr (0, m))))"
    unfolding Mem_Free_def found using b(1,2) by (simp add: Let_def)
  have nx: "h_next (hdrs ?m ?p) = link e (?p + HDR + k)" using b(3) by simp
  have tl: "seg (hdrs ?m) e (?p + HDR + k) ys e" "0 < ?p + HDR + k" using b(4) by (simp_all add: seg_append)
  show ?thesis
  proof (cases ys)
    case Nil
    with seg_start(1) [OF tl] front nx show ?thesis by simp
  next
    case (Cons y zs)
    obtain k2 b2 where y: "y = (k2, b2)" by (cases y)
    have nx': "h_next (hdrs ?m ?p) = ?p + HDR + k" "?p + HDR + k \<noteq> 0"
      using seg_start(2) [OF tl] Cons nx by simp_all
    have hs: "h_size (hdrs ?m (?p + HDR + k)) smod 8 = (if b2 then 1 else 0)"
      using tl(1) Cons y header_size [of e "?p + HDR + k" y] by simp
    define m2 where "m2 = (if \<not> b2 then join_next ?p ?m else ?m)"
    obtain k' ys' where mn: "merge_next k ys = (k', ys')" by (cases "merge_next k ys")
    have m2: "seg (hdrs m2) e a (xs @ (k', False) # ys') e" "list_head m2 = a"
      "extent (xs @ (k', False) # ys') < 2 ^ 31"
    proof -
      show "extent (xs @ (k', False) # ys') < 2 ^ 31"
        using mn x Cons y by (cases b2) (auto simp: merge_next_def)
      show "list_head m2 = a" using a by (simp add: m2_def join_next_def Let_def)
      show "seg (hdrs m2) e a (xs @ (k', False) # ys') e"
      proof (cases b2)
        case True
        with mn Cons y b(4) show ?thesis by (simp add: merge_next_def m2_def)
      next
        case False
        from b(4) Cons y False have j: "seg (hdrs ?m) e ?p ((k, False) # (k2, False) # zs) e"
          and xs: "seg (hdrs ?m) e a xs ?p"
          by (simp_all add: seg_append)
        have kk: "k + HDR + k2 < 2 ^ 31" using x Cons y by simp
        have "seg (hdrs m2) e a xs ?p"
          using xs False by (subst seg_cong [of _ _ _ "hdrs ?m"])
            (auto simp: m2_def join_next_seg(2) [OF j kk] simp del: upd_hdr_sel)
        moreover from mn Cons y False have "k' = k + HDR + k2" "ys' = zs"
          by (simp_all add: merge_next_def)
        ultimately show ?thesis using join_next_seg(1) [OF j kk] False
          by (simp add: m2_def seg_append ac_simps)
      qed
    qed
    obtain m' where m': "join_prev ?p a m2 = Some m'" "seg (hdrs m') e a (merge_prev xs k' ys') e"
      "list_head m' = list_head m2"
      using join_prev_joins [OF m2(1) a(2) m2(3)] by auto
    have "Mem_Free (?p + HDR) m = Some (Inr (0, m'))"
      unfolding front nx' hs using nx' m2(2) m'(1) by (simp add: m2_def split: if_splits)
    moreover have "merge_prev xs k' ys' \<noteq> []" by (simp add: merge_prev_def)
    ultimately show ?thesis using Cons m' m2(2) a e mn by (simp add: region_def released_def)
  qed
qed


section \<open>Blocks in use\<close>

text \<open>The blocks in use as areas of memory: the address behind the header and the number of bytes.\<close>

definition areas :: "nat \<Rightarrow> block list \<Rightarrow> (nat \<times> nat) set" where
  "areas a bs = {(p + HDR, k) | p k xs ys. bs = xs @ (k, True) # ys \<and> p = a + extent xs}"

lemma areas_iff: "(p, k) \<in> areas a bs \<longleftrightarrow> (\<exists>xs ys. bs = xs @ (k, True) # ys \<and> p = a + extent xs + HDR)"
  by (auto simp: areas_def)

lemma areas_simps [simp]:
  "areas a [] = {}"
  "areas a ((k, busy) # bs) = (if busy then {(a + HDR, k)} else {}) \<union> areas (a + HDR + k) bs"
proof -
  show "areas a ((k, busy) # bs) = (if busy then {(a + HDR, k)} else {}) \<union> areas (a + HDR + k) bs"
  proof (intro set_eqI, clarify)
    fix p n
    have "(\<exists>xs ys. (k, busy) # bs = xs @ (n, True) # ys \<and> p = a + extent xs + HDR) \<longleftrightarrow>
        (busy \<and> n = k \<and> p = a + HDR) \<or>
        (\<exists>xs ys. bs = xs @ (n, True) # ys \<and> p = a + HDR + k + extent xs + HDR)"
      by (auto simp: Cons_eq_append_conv add.assoc intro: exI [of _ "[]"])
        (metis add.assoc append_Cons extent_simps(2) fst_conv)+
    then show "(p, n) \<in> areas a ((k, busy) # bs) \<longleftrightarrow>
        (p, n) \<in> (if busy then {(a + HDR, k)} else {}) \<union> areas (a + HDR + k) bs"
      by (auto simp: areas_iff)
  qed
qed (simp add: areas_def)

lemma areas_append: "areas a (xs @ ys) = areas a xs \<union> areas (a + extent xs) ys"
  by (induction xs arbitrary: a) (auto simp: add.assoc)

lemma areas_inside: "(p, k) \<in> areas a bs \<Longrightarrow> a + HDR \<le> p \<and> p + k \<le> a + extent bs"
  by (auto simp: areas_iff)

lemma areas_apart:
  "(p, k) \<in> areas a bs \<Longrightarrow> (q, l) \<in> areas a bs \<Longrightarrow> (p, k) \<noteq> (q, l) \<Longrightarrow> p + k + HDR \<le> q \<or> q + l + HDR \<le> p"
proof (induction bs arbitrary: a)
  case (Cons b bs)
  obtain n busy where b: "b = (n, busy)" by (cases b)
  from Cons.prems Cons.IH [of "a + HDR + n"] areas_inside [of p k "a + HDR + n" bs]
    areas_inside [of q l "a + HDR + n" bs]
  show ?case by (auto simp: b split: if_splits)
qed simp

lemma first_fit_areas:
  assumes "first_fit n a bs = Some (p, bs')"
  shows "\<exists>k. n \<le> k \<and> areas a bs' = insert (p + HDR, k) (areas a bs) \<and> (p + HDR, k) \<notin> areas a bs \<and>
    extent bs' = extent bs \<and> bs' \<noteq> []"
  using assms
proof (induction n a bs arbitrary: p bs' rule: first_fit.induct)
  case (2 n a k busy bs)
  have fresh: "(a + HDR, x) \<notin> areas (a + HDR + y) zs" for x y zs
    using areas_inside [of "a + HDR" x "a + HDR + y" zs] by auto
  consider (split) "\<not> busy" "n + HDR < k" | (fit) "\<not> busy" "\<not> n + HDR < k" "n \<le> k"
    | (skip) "busy \<or> k < n" by linarith
  then show ?case
  proof cases
    case split
    with 2(2) fresh show ?thesis by (auto simp: ac_simps intro!: exI [of _ n])
  next
    case fit
    with 2(2) fresh show ?thesis by (auto intro!: exI [of _ k])
  next
    case skip
    with 2(2) obtain bs1 where r: "first_fit n (a + HDR + k) bs = Some (p, bs1)" "bs' = (k, busy) # bs1"
      by auto
    from "2.IH" [OF _ _ r(1)] skip obtain l where l: "n \<le> l"
      "areas (a + HDR + k) bs1 = insert (p + HDR, l) (areas (a + HDR + k) bs)"
      "(p + HDR, l) \<notin> areas (a + HDR + k) bs" "extent bs1 = extent bs" by auto
    have "a + HDR + k + HDR \<le> p + HDR"
      using areas_inside [of "p + HDR" l "a + HDR + k" bs1] l(2) by simp
    with l r(2) show ?thesis by (auto intro!: exI [of _ l])
  qed
qed simp


section \<open>The properties\<close>

definition round8 :: "nat \<Rightarrow> nat" where
  "round8 n = (n + 7) div 8 * 8"

lemma round8: "n \<le> round8 n" "round8 n < n + 8" "round8 n mod 8 = 0"
  unfolding round8_def using div_mult_mod_eq [of "n + 7" 8] mod_less_divisor [of 8 "n + 7"]
  by (linarith, linarith, simp)

lemma Mem_Alloc_rounds:
  assumes "0 < n" and "n \<le> 2 ^ 31 - 8"
  shows "Mem_Alloc (int n) m = alloc_walk (int (round8 n)) (list_head m) m"
proof -
  have r: "round8 n = (if n mod 8 \<noteq> 0 then n + (8 - n mod 8) else n)"
  proof (cases "n mod 8 = 0")
    case True
    then obtain q where "n = 8 * q" by (auto simp: mod_eq_0_iff_dvd elim!: dvdE)
    then show ?thesis by (simp add: round8_def)
  next
    case False
    define q r where "q = n div 8" and "r = n mod 8"
    have n: "n = 8 * q + r" "r < 8" "0 < r" using False by (simp_all add: q_def r_def)
    have "(n + 7) div 8 = q + 1" by (rule div_nat_eqI) (use n in auto)
    with n show ?thesis by (simp add: round8_def)
  qed
  have "int n smod 8 = int (n mod 8)" by (simp add: smod_pos zmod_int)
  moreover have "n mod 8 < 8" by simp
  then have "c_int (int n + (8 - int (n mod 8))) = int (n + (8 - n mod 8))" if "n mod 8 \<noteq> 0"
    using that assms round8(2) [of n] r by (subst c_int_id) (auto simp: of_nat_diff)
  ultimately show ?thesis using assms(1) r by (auto simp: Mem_Alloc_def Let_def)
qed

lemma first_fit_none:
  "first_fit n a bs = None \<Longrightarrow> (k, False) \<in> set bs \<Longrightarrow> k < n"
  by (induction n a bs rule: first_fit.induct) (auto split: if_splits)

lemma seg_mod8: "seg h e a bs z \<Longrightarrow> b \<in> set bs \<Longrightarrow> fst b mod 8 = 0"
  by (induction bs arbitrary: a) (auto simp: header_of_def)

lemma Mem_Alloc_fits:
  assumes "region m a e bs" and "0 < n" and "n \<le> 2 ^ 31 - 8"
  shows "case first_fit (round8 n) a bs of
      None \<Rightarrow> Mem_Alloc (int n) m = Some (0, m)
    | Some (p, bs') \<Rightarrow> \<exists>m'. Mem_Alloc (int n) m = Some (p + HDR, m') \<and> region m' a e bs'"
proof -
  from assms(1) have s: "seg (hdrs m) e a bs e" "0 < a" "link e a = a" "list_head m = a" "bs \<noteq> []"
    "e < a + 2 ^ 31"
    using seg_start(2) [of "hdrs m" e a bs] by (auto simp: region_def)
  then have x: "extent bs < 2 ^ 31" using seg_end [OF s(1)] by simp
  have "round8 n < 2 ^ 31" using round8(3) [of n] round8(2) [of n] assms(3) by auto
  from alloc_walk_fits [OF s(1,2) x round8(3) this] s(3,4) Mem_Alloc_rounds [OF assms(2,3), of m] s
    first_fit_areas [of "round8 n" a bs]
  show ?thesis by (cases "first_fit (round8 n) a bs") (auto simp: region_def)
qed

text \<open>
  Claim C36.  The first-fit allocator returns a block of at least the requested size, inside the
  region, apart (with its header) from every block in use, and changes no other block in use; it
  returns null only when no free block is large enough, and then changes nothing.
\<close>

theorem first_fit_block_is_fresh:
  assumes "region m a e bs" and "0 < n" and "n \<le> 2 ^ 31 - 8"
  shows "\<exists>p m'. Mem_Alloc (int n) m = Some (p, m') \<and>
    (p = 0 \<and> m' = m \<and> (\<forall>k. (k, False) \<in> set bs \<longrightarrow> k < n) \<or>
     (\<exists>bs' k. region m' a e bs' \<and> n \<le> k \<and> a + HDR \<le> p \<and> p + k \<le> e \<and>
       areas a bs' = insert (p, k) (areas a bs) \<and>
       (\<forall>q l. (q, l) \<in> areas a bs \<longrightarrow> p + k + HDR \<le> q \<or> q + l + HDR \<le> p)))"
proof (cases "first_fit (round8 n) a bs")
  case None
  have "k < n" if "(k, False) \<in> set bs" for k
  proof -
    have "k mod 8 = 0" using seg_mod8 [of "hdrs m" e a bs e "(k, False)"] that assms(1)
      by (simp add: region_def)
    moreover have "k < round8 n" using first_fit_none [OF None that] .
    ultimately have "k + 8 \<le> round8 n" using round8(3) [of n] by (auto simp: mod_eq_0_iff_dvd elim!: dvdE)
    then show ?thesis using round8(2) [of n] by simp
  qed
  with None Mem_Alloc_fits [OF assms] show ?thesis by auto
next
  case (Some r)
  obtain p bs' where r: "r = (p, bs')" by (cases r)
  with Some Mem_Alloc_fits [OF assms] obtain m' where m': "Mem_Alloc (int n) m = Some (p + HDR, m')"
    "region m' a e bs'" by auto
  obtain k where k: "round8 n \<le> k" "areas a bs' = insert (p + HDR, k) (areas a bs)"
    "(p + HDR, k) \<notin> areas a bs"
    using first_fit_areas [of "round8 n" a bs p bs'] Some r by auto
  have "e = a + extent bs'" using m'(2) seg_end by (auto simp: region_def)
  then have "a + HDR \<le> p + HDR \<and> p + HDR + k \<le> e"
    using areas_inside [of "p + HDR" k a bs'] k(2) by simp
  moreover have "\<forall>q l. (q, l) \<in> areas a bs \<longrightarrow> p + HDR + k + HDR \<le> q \<or> q + l + HDR \<le> p + HDR"
    using areas_apart [of "p + HDR" k a bs'] k(2,3) by auto
  moreover have "n \<le> k" using k(1) round8(1) [of n] by simp
  ultimately show ?thesis using m' k(2) by blast
qed


text \<open>No two free blocks are neighbours: what joining keeps, and what makes release undo allocation.\<close>

fun settled :: "block list \<Rightarrow> bool" where
  "settled [] = True"
| "settled [b] = True"
| "settled (b # c # bs) = ((snd b \<or> snd c) \<and> settled (c # bs))"

lemma settled_append:
  "settled (xs @ ys) \<longleftrightarrow> settled xs \<and> settled ys \<and> (xs \<noteq> [] \<and> ys \<noteq> [] \<longrightarrow> snd (last xs) \<or> snd (hd ys))"
proof (induction xs rule: settled.induct)
  case (2 b)
  then show ?case by (cases ys) auto
qed auto

lemma settled_Cons: "settled (b # bs) \<longleftrightarrow> settled bs \<and> (bs \<noteq> [] \<longrightarrow> snd b \<or> snd (hd bs))"
  by (cases bs) auto

lemma settled_released:
  assumes "settled (xs @ (k, True) # ys)"
  shows "settled (released xs k ys)"
proof -
  have s: "settled xs" "settled ys" using assms by (simp_all add: settled_append settled_Cons)
  obtain k' ys' where m: "merge_next k ys = (k', ys')" by (cases "merge_next k ys")
  then have ys': "settled ((k', False) # ys')"
    using s(2) by (auto simp: merge_next_def settled_Cons split: list.splits bool.splits prod.splits)
  show ?thesis
  proof (cases "xs \<noteq> [] \<and> \<not> snd (last xs)")
    case True
    then obtain zs z where xs: "xs = zs @ [z]" by (cases xs rule: rev_cases) auto
    with True s(1) ys' show ?thesis
      by (auto simp: released_def m merge_prev_def settled_append settled_Cons)
  next
    case False
    with s(1) ys' show ?thesis by (auto simp: released_def m merge_prev_def settled_append)
  qed
qed

lemma first_fit_undone:
  assumes "first_fit n a bs = Some (p, bs')" and "settled bs"
  shows "\<exists>xs k ys. bs' = xs @ (k, True) # ys \<and> p = a + extent xs \<and> settled bs' \<and>
    (ys \<noteq> [] \<longrightarrow> released xs k ys = bs) \<and> (bs \<noteq> [] \<longrightarrow> snd (hd bs) \<longrightarrow> snd (hd bs')) \<and>
    (xs \<noteq> [] \<longrightarrow> hd xs = hd bs)"
  using assms
proof (induction n a bs arbitrary: p bs' rule: first_fit.induct)
  case (2 n a k busy bs)
  consider (split) "\<not> busy" "n + HDR < k" | (fit) "\<not> busy" "\<not> n + HDR < k" "n \<le> k"
    | (skip) "busy \<or> k < n" by linarith
  then show ?case
  proof cases
    case split
    with 2(2,3) show ?thesis
      by (intro exI [of _ "[]"] exI [of _ n] exI [of _ "(k - n - HDR, False) # bs"])
        (auto simp: released_def merge_next_def merge_prev_def settled_Cons)
  next
    case fit
    have "merge_next k bs = (k, bs)" if "bs \<noteq> []"
      using that fit 2(3) by (cases bs) (auto simp: merge_next_def split: bool.splits)
    with fit 2(2,3) show ?thesis
      by (intro exI [of _ "[]"] exI [of _ k] exI [of _ bs])
        (auto simp: released_def merge_prev_def settled_Cons)
  next
    case skip
    with 2(2) obtain bs1 where r: "first_fit n (a + HDR + k) bs = Some (p, bs1)" "bs' = (k, busy) # bs1"
      by auto
    have st: "settled bs" using 2(3) by (simp add: settled_Cons)
    have "\<exists>xs j ys. bs1 = xs @ (j, True) # ys \<and> p = a + HDR + k + extent xs \<and> settled bs1 \<and>
        (ys \<noteq> [] \<longrightarrow> released xs j ys = bs) \<and> (bs \<noteq> [] \<longrightarrow> snd (hd bs) \<longrightarrow> snd (hd bs1)) \<and>
        (xs \<noteq> [] \<longrightarrow> hd xs = hd bs)"
      by (rule "2.IH" [OF _ _ r(1) st]) (use skip in auto)
    then obtain xs j ys where IH: "bs1 = xs @ (j, True) # ys"
      "p = a + HDR + k + extent xs" "settled bs1" "ys \<noteq> [] \<longrightarrow> released xs j ys = bs"
      "bs \<noteq> [] \<longrightarrow> snd (hd bs) \<longrightarrow> snd (hd bs1)" "xs \<noteq> [] \<longrightarrow> hd xs = hd bs"
      by blast
    have ne: "bs \<noteq> []" using r(1) by auto
    have "settled bs'" using IH(3,5) ne 2(3) r(2) by (auto simp: settled_Cons)
    moreover have "released ((k, busy) # xs) j ys = (k, busy) # bs" if "ys \<noteq> []"
    proof -
      obtain j' ys' where m: "merge_next j ys = (j', ys')" by (cases "merge_next j ys")
      have *: "merge_prev xs j' ys' = bs" using IH(4) that m by (simp add: released_def)
      have "busy" if "xs = []" using * that 2(3) by (auto simp: merge_prev_def settled_Cons)
      then show ?thesis using * by (auto simp: released_def m merge_prev_def)
    qed
    ultimately show ?thesis using IH r(2)
      by (intro exI [of _ "(k, busy) # xs"] exI [of _ j] exI [of _ ys]) auto
  qed
qed simp

text \<open>
  Releasing the block that was allocated last gives back the blocks as they were, joined
  with its neighbours, and leaves no two free neighbours; but the release of a block at the end of
  the region reads the header at the null pointer.
\<close>

theorem free_undoes_first_fit:
  assumes "region m a e bs" and "settled bs" and "0 < n" and "n \<le> 2 ^ 31 - 8"
    and "Mem_Alloc (int n) m = Some (p, m1)" and "p \<noteq> 0"
  shows "Mem_Free p m1 = Some (Inl Null_access) \<or>
    (\<exists>m2. Mem_Free p m1 = Some (Inr (0, m2)) \<and> region m2 a e bs)"
proof -
  obtain p' bs' where f: "first_fit (round8 n) a bs = Some (p', bs')" "p = p' + HDR" "region m1 a e bs'"
    using Mem_Alloc_fits [OF assms(1,3,4)] assms(5,6) by (cases "first_fit (round8 n) a bs") auto
  obtain xs k ys where x: "bs' = xs @ (k, True) # ys" "p' = a + extent xs" "ys \<noteq> [] \<longrightarrow> released xs k ys = bs"
    using first_fit_undone [OF f(1) assms(2)] by auto
  from Mem_Free_busy [of m1 a e xs k ys] f(2,3) x show ?thesis by (auto split: if_splits)
qed

text \<open>
  A request of more than \<open>2\<^sup>3\<^sup>1 - 8\<close> bytes is answered with the first free block,
  whatever its size: rounding the size up makes it negative.
\<close>

theorem giant_request_gets_first_free:
  assumes "region m a e ((k, False) # bs)" and "2 ^ 31 - 8 < n" and "n < 2 ^ 31"
  shows "\<exists>m'. Mem_Alloc n m = Some (a + HDR, m') \<and> region m' a e ((k, True) # bs) \<and> int k < n"
proof -
  from assms(1) have r: "list_head m = a" "0 < a" "e < a + 2 ^ 31" "header_of e a (k, False) (hdrs m a)"
    "seg (hdrs m) e (a + HDR + k) bs e"
    by (auto simp: region_def)
  have k: "k + HDR < 2 ^ 31" using r(3) seg_end [OF r(5)] by simp
  have sz: "h_size (hdrs m a) = int k" using r(4) by (simp add: header_of_def)
  have free: "int k smod 8 = 0" using header_size [OF r(4)] sz by simp
  have "n = 2147483641 \<or> n = 2147483642 \<or> n = 2147483643 \<or> n = 2147483644 \<or> n = 2147483645 \<or>
      n = 2147483646 \<or> n = 2147483647"
    using assms(2,3) by auto
  then have neg: "n smod 8 \<noteq> 0 \<and> c_int (n + (8 - n smod 8)) = - (2 ^ 31)"
    by (elim disjE) (simp_all add: smod_pos c_int_def signed_of_int signed_take_bit_int_eq_self)
  then have al: "Mem_Alloc n m = alloc_walk (- (2 ^ 31)) a m"
    using assms(2) r(1) by (simp add: Mem_Alloc_def Let_def)
  have "\<not> size_t (size_t (- (2 ^ 31)) + int HDR) < size_t (int k)" using k by (simp add: size_t_def)
  then have "alloc_walk (- (2 ^ 31)) a m =
      Some (a + HDR, upd_hdr a (\<lambda>h. h\<lparr>h_size := c_int (h_size h + 1)\<rparr>) m)"
    using r(2) sz free by (subst alloc_walk.simps) simp
  moreover have "region (upd_hdr a (\<lambda>h. h\<lparr>h_size := c_int (h_size h + 1)\<rparr>) m) a e ((k, True) # bs)"
  proof -
    have "c_int (int k + 1) = int k + 1" using k by (intro c_int_id) simp_all
    moreover have "seg (hdrs (upd_hdr a (\<lambda>h. h\<lparr>h_size := c_int (h_size h + 1)\<rparr>) m)) e (a + HDR + k) bs e"
      using r(5) by (subst seg_cong [of _ _ _ "hdrs m"]) simp_all
    ultimately show ?thesis using r by (simp add: region_def header_of_def)
  qed
  ultimately show ?thesis using al k assms(2) by auto
qed


section \<open>A new region, and the free space\<close>

definition free_space :: "block list \<Rightarrow> nat" where
  "free_space bs = sum_list (map (\<lambda>b. HDR + fst b) (filter (\<lambda>b. \<not> snd b) bs))"

lemma free_space_simps [simp]:
  "free_space [] = 0" "free_space (b # bs) = (if snd b then 0 else HDR + fst b) + free_space bs"
  by (simp_all add: free_space_def)

lemma free_space_le: "free_space bs \<le> extent bs"
  by (induction bs) auto

lemma dump_walk_sums:
  assumes "seg (hdrs m) e a bs e" and "0 < a" and "f + extent bs < 2 ^ 31" and "0 \<le> b"
    and "b + int (extent bs) < 2 ^ 31"
  shows "dump_walk (link e a) (int f) b m = Some (int (f + free_space bs))"
  using assms
proof (induction bs arbitrary: a f b)
  case Nil
  then show ?case by (simp add: dump_walk.simps link_def)
next
  case (Cons x bs)
  obtain k busy where x: "x = (k, busy)" by (cases x)
  from Cons.prems x have hd: "header_of e a (k, busy) (hdrs m a)" and tl: "seg (hdrs m) e (a + HDR + k) bs e"
    by auto
  from hd obtain j where "k = 8 * j" by (auto simp: header_of_def)
  then have bit: "and (h_size (hdrs m a)) 1 = (if busy then 1 else 0)"
    using hd by (simp add: header_of_def and_one_eq mod_add_eq [of _ 2 1, symmetric])
  have a: "link e a = a" "a \<noteq> 0" "h_next (hdrs m a) = link e (a + HDR + k)"
    "h_size (hdrs m a) = int k + (if busy then 1 else 0)"
    using seg_start(2) [OF Cons.prems(1,2)] hd by (simp_all add: header_of_def)
  show ?case
  proof (cases busy)
    case True
    have "c_int (b + (int k + int HDR)) = b + int (HDR + k)"
      using Cons.prems(4,5) x by (subst c_int_id) simp_all
    then show ?thesis
      using Cons.IH [OF tl _ _ _, of f "b + int (HDR + k)"] Cons.prems x a bit True
      by (subst dump_walk.simps) (simp add: ac_simps)
  next
    case False
    have "c_int (int f + (int k + int HDR)) = int (f + (HDR + k))"
      using Cons.prems(3) x by (subst c_int_id) simp_all
    then show ?thesis
      using Cons.IH [OF tl _ _ _, of "f + (HDR + k)" b] Cons.prems x a bit False
      by (subst dump_walk.simps) (simp add: ac_simps)
  qed
qed

text \<open>
  \<open>Mem_Available\<close> is the number of bytes of the free blocks with their headers.
\<close>

theorem available_is_free_space:
  assumes "region m a e bs"
  shows "\<exists>m'. Mem_Available m = Some (int (free_space bs), m') \<and> region m' a e bs"
proof -
  from assms have s: "seg (hdrs m) e a bs e" "0 < a" "link e a = a" "list_head m = a" "e < a + 2 ^ 31"
    using seg_start(2) [of "hdrs m" e a bs] by (auto simp: region_def)
  have "dump_walk (list_head m) (int 0) 0 m = Some (int (0 + free_space bs))"
    unfolding s(4) by (subst s(3) [symmetric], rule dump_walk_sums) (use s seg_end [OF s(1)] in simp_all)
  then show ?thesis using assms by (simp add: Mem_Available_def Mem_Dump_def region_def)
qed

lemma Mem_Init_region:
  assumes "first_time_init m \<noteq> 0" and "0 < n" and "n \<le> 2 ^ 31 - 4096" and "0 < sp"
  shows "\<exists>m' k. Mem_Init 4096 (int n) (Some fd) (\<lambda>_. Some sp) m = (0, m') \<and> n \<le> HDR + k \<and>
    region m' sp (sp + HDR + k) [(k, False)]"
proof -
  define k where "k = (n + 4095) div 4096 * 4096"
  define q r where "q = n div 4096" and "r = n mod 4096"
  have n: "n = 4096 * q + r" "r < 4096" by (simp_all add: q_def r_def)
  have sm: "int n smod 4096 = int r"
    using assms(2) by (simp add: signed_modulo_int_def sgn_if r_def zmod_int)
  have k: "k = (if r = 0 then n else n + (4096 - r))"
  proof (cases "r = 0")
    case True
    have "(n + 4095) div 4096 = q" by (rule div_nat_eqI) (use n True in auto)
    with True n show ?thesis by (simp add: k_def)
  next
    case False
    have "(n + 4095) div 4096 = q + 1" by (rule div_nat_eqI) (use n False in auto)
    with False n show ?thesis by (simp add: k_def)
  qed
  have big: "4096 \<le> k" using k n assms(2) by (cases "q = 0") auto
  have small: "k < 2 ^ 31" "n \<le> k" using k n assms(2,3) by (auto split: if_splits)
  have "k mod 8 = 0" by (simp add: k_def mod_eq_0_iff_dvd)
  then have "(k - HDR) mod 8 = 0" using big by (simp add: mod_eq_0_iff_dvd)
  moreover have "c_int (int n + (if int r \<noteq> 0 then 4096 - int r else int r)) = int k"
    using k n(2) small(1) by (subst c_int_id) (auto simp: of_nat_diff)
  ultimately show ?thesis using assms sm big small
    by (intro exI [of _ "(upd_hdr sp (\<lambda>_. \<lparr>h_next = 0, h_size = int k - int HDR, h_magic = magic_num\<rparr>)
        (m\<lparr>list_head := sp\<rparr>))\<lparr>first_time_init := 0\<rparr>"] exI [of _ "k - HDR"])
      (auto simp: Mem_Init_def alloc_size_def Let_def region_def header_of_def link_def of_nat_diff)
qed

section \<open>A region of one page\<close>

definition one_page :: mem3 where
  "one_page = snd (Mem_Init 4096 4000 (Some 3) (\<lambda>_. Some 4096)
    \<lparr>hdrs = (\<lambda>_. \<lparr>h_next = 0, h_size = 0, h_magic = 0\<rparr>), list_head = 0, first_time_init = 1, mem_available = 0\<rparr>)"

lemma one_page: "region one_page 4096 8192 [(4080, False)]"
  by (simp add: one_page_def Mem_Init_def alloc_size_def Let_def region_def header_of_def link_def
    signed_modulo_int_def sgn_if c_int_id)

lemma first_fit_block_is_fresh_witness:
  "\<exists>p m'. Mem_Alloc 100 one_page = Some (p, m') \<and> (p \<noteq> 0 \<longrightarrow> 4112 \<le> p \<and> p + 100 \<le> 8192)"
  using first_fit_block_is_fresh [OF one_page, of 100] by fastforce

lemma one_page_alloc: "\<exists>m1. Mem_Alloc 100 one_page = Some (4112, m1)"
  using Mem_Alloc_fits [OF one_page, of 100] by (auto simp: round8_def)

lemma free_undoes_first_fit_witness:
  "\<exists>m1. Mem_Alloc 100 one_page = Some (4112, m1) \<and>
    (Mem_Free 4112 m1 = Some (Inl Null_access) \<or>
     (\<exists>m2. Mem_Free 4112 m1 = Some (Inr (0, m2)) \<and> region m2 4096 8192 [(4080, False)]))"
  using one_page_alloc free_undoes_first_fit [OF one_page, of 100 4112] by auto

lemma giant_request_gets_first_free_witness:
  "\<exists>m'. Mem_Alloc 2147483647 one_page = Some (4112, m') \<and> region m' 4096 8192 [(4080, True)]"
  using giant_request_gets_first_free [OF one_page, of 2147483647] by auto

lemma available_is_free_space_witness: "\<exists>m'. Mem_Available one_page = Some (4096, m')"
  using available_is_free_space [OF one_page] by auto


lemma starts_split: "p \<in> set (starts a bs) \<Longrightarrow> \<exists>xs b ys. bs = xs @ b # ys \<and> p = a + extent xs"
proof (induction bs arbitrary: a)
  case (Cons b bs)
  from Cons.prems consider "p = a" | "p \<in> set (starts (a + HDR + fst b) bs)" by auto
  then show ?case
  proof cases
    case 1
    then show ?thesis by (intro exI [of _ "[]"]) auto
  next
    case 2
    from Cons.IH [OF 2] obtain xs c ys where "bs = xs @ c # ys" "p = a + HDR + fst b + extent xs" by auto
    then show ?thesis by (intro exI [of _ "b # xs"]) auto
  qed
qed simp

text \<open>
  \<open>Mem_Free\<close> refuses, with \<open>-1\<close> and no change, every pointer that is not the start of a
  block in use.
\<close>

theorem free_refuses_other_pointers:
  assumes "region m a e bs" and "\<forall>k. (p, k) \<notin> areas a bs"
  shows "Mem_Free p m = Some (Inr (- 1, m))"
proof (cases "p = 0")
  case False
  from assms(1) have s: "seg (hdrs m) e a bs e" "0 < a" "link e a = a" "list_head m = a"
    using seg_start(2) [of "hdrs m" e a bs] by (auto simp: region_def)
  have fb: "find_block (int p - int HDR) (list_head m) m = Some (int p - int HDR \<in> int ` set (starts a bs))"
    using find_block_starts [OF s(1,2)] s(3,4) by simp
  show ?thesis
  proof (cases "int p - int HDR \<in> int ` set (starts a bs)")
    case True
    then obtain q where q: "int p - int HDR = int q" "q \<in> set (starts a bs)" by auto
    then have p: "p = q + HDR" by simp
    obtain xs b ys where b: "bs = xs @ b # ys" "q = a + extent xs" using starts_split [OF q(2)] by auto
    have "(p, fst b) \<in> areas a bs" if "snd b"
      using that b p unfolding areas_iff by (intro exI [of _ xs] exI [of _ ys]) (cases b, auto)
    then have "\<not> snd b" using assms(2) by auto
    moreover have "header_of e q b (hdrs m q)" using s(1) b by (simp add: seg_append)
    ultimately have "h_size (hdrs m q) smod 8 \<noteq> 1" using header_size by simp
    with False fb p show ?thesis by (simp add: Mem_Free_def Let_def)
  qed (use False fb in \<open>simp add: Mem_Free_def\<close>)
qed (simp add: Mem_Free_def)

lemma free_refuses_other_pointers_witness: "Mem_Free 4113 one_page = Some (Inr (- 1, one_page))"
  by (rule free_refuses_other_pointers [OF one_page]) simp


section \<open>The interface\<close>

lemma header_unique:
  assumes "header_of e a b h" and "header_of e' a b' h"
  shows "b = b'"
proof -
  obtain k x k' x' where b: "b = (k, x)" "b' = (k', x')" by (cases b; cases b') auto
  have s: "x = x'" using header_size [OF assms(1)] header_size [OF assms(2)] b by (auto split: if_splits)
  moreover have "k = k'" using assms b s by (auto simp: header_of_def split: if_splits)
  ultimately show ?thesis using b by simp
qed

lemma seg_unique:
  "seg h e a bs e \<Longrightarrow> seg h e' a bs' e' \<Longrightarrow> 0 < a \<Longrightarrow> bs \<noteq> [] \<Longrightarrow> bs' \<noteq> [] \<Longrightarrow> bs = bs' \<and> e = e'"
proof (induction bs arbitrary: a bs')
  case (Cons b bs)
  obtain b' cs where bs': "bs' = b' # cs" using Cons.prems(5) by (cases bs') auto
  let ?a = "a + HDR + fst b"
  from Cons.prems(1,2) bs' have h: "header_of e a b (h a)" "header_of e' a b' (h a)"
    and tl: "seg h e ?a bs e" "seg h e' (a + HDR + fst b') cs e'" by auto
  from header_unique [OF h] have b: "b' = b" by simp
  have lk: "link e ?a = link e' ?a" using h b by (simp add: header_of_def)
  have pos: "0 < ?a" by simp
  show ?case
  proof (cases "bs = []")
    case True
    with tl(1) lk have e: "e = ?a" "link e' ?a = 0" by (simp_all add: link_def)
    with seg_start(2) [OF tl(2) [unfolded b] pos] have "cs = []" by auto
    with e tl(2) bs' b True show ?thesis by simp
  next
    case False
    then have "link e' ?a \<noteq> 0" using seg_start(2) [OF tl(1) pos] lk by simp
    then have "cs \<noteq> []" using seg_start(1) [OF tl(2) [unfolded b] pos] by auto
    with Cons.IH [OF tl(1) tl(2) [unfolded b] pos False] bs' b show ?thesis by simp
  qed
qed simp

lemma region_unique: "region m a e bs \<Longrightarrow> region m a' e' bs' \<Longrightarrow> a = a' \<and> e = e' \<and> bs = bs'"
  using seg_unique [of "hdrs m" e a bs e' bs'] by (auto simp: region_def)

lemma areas_merge_prev: "areas a (merge_prev xs k ys) = areas a xs \<union> areas (a + extent xs + HDR + k) ys"
proof (cases "xs \<noteq> [] \<and> \<not> snd (last xs)")
  case True
  then obtain zs z where "xs = zs @ [(z, False)]" by (cases xs rule: rev_cases) auto
  then show ?thesis by (simp add: merge_prev_def areas_append ac_simps)
qed (auto simp: merge_prev_def areas_append)

lemma areas_released:
  "areas a (released xs k ys) = areas a (xs @ (k, True) # ys) - {(a + extent xs + HDR, k)}"
proof -
  let ?p = "a + extent xs + HDR"
  have "(?p, k) \<notin> areas a xs" using areas_inside [of ?p k a xs] by auto
  moreover have "(?p, k) \<notin> areas (?p + k) ys" using areas_inside [of ?p k "?p + k" ys] by auto
  moreover have "areas a (released xs k ys) = areas a xs \<union> areas (?p + k) ys"
    by (auto simp: released_def merge_next_def areas_merge_prev ac_simps split: list.splits bool.splits)
  ultimately show ?thesis by (auto simp: areas_append)
qed

definition is_region :: "mem3 \<Rightarrow> bool" where
  "is_region m \<longleftrightarrow> (\<exists>a e bs. region m a e bs)"

definition live_blocks :: "mem3 \<Rightarrow> (nat \<times> nat) set" where
  "live_blocks m = {b. \<exists>a e bs. region m a e bs \<and> b \<in> areas a bs}"

lemma live_blocks_region: "region m a e bs \<Longrightarrow> live_blocks m = areas a bs"
  by (auto simp: live_blocks_def dest: region_unique)

text \<open>A release that comes back with \<open>0\<close>.\<close>

definition Mem_Free_ok :: "nat \<Rightarrow> mem3 \<Rightarrow> mem3 option" where
  "Mem_Free_ok p m = (case Mem_Free p m of Some (Inr (r, m')) \<Rightarrow> if r = 0 then Some m' else None | _ \<Rightarrow> None)"

interpretation m3: block_allocator is_region live_blocks "2 ^ 31 - 8" "\<lambda>n. Mem_Alloc (int n)" Mem_Free_ok
proof
  fix m n p m'
  assume r: "is_region m" "0 < n" "n \<le> 2 ^ 31 - 8" "Mem_Alloc (int n) m = Some (p, m')" "p \<noteq> (0 :: nat)"
  then obtain a e bs where m: "region m a e bs" by (auto simp: is_region_def)
  obtain q bs' where q: "first_fit (round8 n) a bs = Some (q, bs')" "p = q + HDR" "region m' a e bs'"
    using Mem_Alloc_fits [OF m r(2,3)] r(4,5) by (cases "first_fit (round8 n) a bs") auto
  obtain k where "round8 n \<le> k" "areas a bs' = insert (p, k) (areas a bs)" "(p, k) \<notin> areas a bs"
    using first_fit_areas [OF q(1)] q(2) by auto
  with q(3) m round8(1) [of n] show "is_region m' \<and>
      (\<exists>k. n \<le> k \<and> (p, k) \<notin> live_blocks m \<and> live_blocks m' = insert (p, k) (live_blocks m))"
    by (auto simp: is_region_def live_blocks_region intro: order_trans)
next
  fix m n m'
  assume r: "is_region m" "0 < n" "n \<le> 2 ^ 31 - 8" "Mem_Alloc (int n) m = Some (0 :: nat, m')"
  then obtain a e bs where m: "region m a e bs" by (auto simp: is_region_def)
  with Mem_Alloc_fits [OF m r(2,3)] r show "is_region m' \<and> live_blocks m' = live_blocks m"
    by (cases "first_fit (round8 n) a bs") auto
next
  fix m p k m'
  assume r: "is_region m" "(p, k) \<in> live_blocks m" "Mem_Free_ok p m = Some m'"
  then obtain a e bs where m: "region m a e bs" by (auto simp: is_region_def)
  with r(2) obtain xs ys where x: "bs = xs @ (k, True) # ys" "p = a + extent xs + HDR"
    by (auto simp: live_blocks_region areas_iff)
  from Mem_Free_busy [of m a e xs k ys] m x r(3) have "region m' a e (released xs k ys)"
    by (auto simp: Mem_Free_ok_def split: if_splits)
  then show "is_region m' \<and> live_blocks m' = live_blocks m - {(p, k)}"
    using m x areas_released [of a xs k ys] by (auto simp: is_region_def live_blocks_region)
next
  fix m p k q l
  assume r: "is_region m" "(p, k) \<in> live_blocks m" "(q, l) \<in> live_blocks m" "(p, k) \<noteq> (q, l)"
  then obtain a e bs where m: "region m a e bs" by (auto simp: is_region_def)
  with areas_apart [of p k a bs q l] r show "p + k \<le> q \<or> q + l \<le> p"
    by (auto simp: live_blocks_region)
qed



end
