(* ===== verification/Umalloc.thy ===== *)
theory Umalloc
  imports Allocator Vm
begin

text \<open>
  The allocator of the user programs, \<^verbatim>\<open>user/umalloc.c\<close>: a circular list of the free blocks in
  the order of their addresses, each with a header of 8 bytes before it, and a static block \<open>base\<close> of
  size 0 below them.  Sizes count units of 8 bytes, the header's included.  The headers are a store
  from addresses; \<open>uint\<close> and pointer arithmetic wraps at 32 bits.  A walk around the list need not
  end when the headers are damaged: the loops are \<open>option\<close>-valued, and the properties show that they
  end.  One thread at a time uses the allocator; the code takes no lock.
\<close>

section \<open>State\<close>

record header =
  h_ptr :: nat
  h_size :: nat

text \<open>
  \<open>brk\<close> is the size of the process and \<open>grants\<close> what the kernel will find: whether it has the pages
  left for the next growths.
\<close>

record umem =
  hd_at :: "nat \<Rightarrow> header"
  base_at :: nat
  freep :: nat
  brk :: nat
  grants :: "bool list"

definition padd :: "nat \<Rightarrow> nat \<Rightarrow> nat" where "padd p n = (p + 8 * n) mod 2 ^ 32"

definition psub1 :: "nat \<Rightarrow> nat" where "psub1 p = (p + (2 ^ 32 - 8)) mod 2 ^ 32"

definition set_ptr :: "nat \<Rightarrow> nat \<Rightarrow> umem \<Rightarrow> umem" where
  "set_ptr a q m = m\<lparr>hd_at := (hd_at m)(a := (hd_at m a)\<lparr>h_ptr := q\<rparr>)\<rparr>"

definition set_size :: "nat \<Rightarrow> nat \<Rightarrow> umem \<Rightarrow> umem" where
  "set_size a n m = m\<lparr>hd_at := (hd_at m)(a := (hd_at m a)\<lparr>h_size := n\<rparr>)\<rparr>"

abbreviation ptr_of :: "nat \<Rightarrow> umem \<Rightarrow> nat" where "ptr_of a m \<equiv> h_ptr (hd_at m a)"

abbreviation size_of :: "nat \<Rightarrow> umem \<Rightarrow> nat" where "size_of a m \<equiv> h_size (hd_at m a)"

text \<open>
  \<open>sbrk\<close>, as \<open>sys_sbrk\<close> and \<open>growproc\<close> of the kernel answer: a size that a negative amount wraps past
  the old one counts as no change.
\<close>

definition sbrk :: "int \<Rightarrow> umem \<Rightarrow> nat \<times> umem" where
  "sbrk n m =
    (if 0 < n then
       (if unat USERTOP < brk m + nat n \<or> grants m = [] \<or> \<not> hd (grants m)
        then (2 ^ 32 - 1, m\<lparr>grants := tl (grants m)\<rparr>)
        else (brk m, m\<lparr>brk := brk m + nat n, grants := tl (grants m)\<rparr>))
     else if n < 0 then (let newsz = nat ((int (brk m) + n) mod 2 ^ 32) in
       if brk m \<le> newsz then (brk m, m)
       else if newsz = 0 then (2 ^ 32 - 1, m) else (brk m, m\<lparr>brk := newsz\<rparr>))
     else (brk m, m))"

section \<open>Release\<close>

partial_function (option) find_place :: "nat \<Rightarrow> nat \<Rightarrow> umem \<Rightarrow> nat option" where
  "find_place bp p m =
    (if p < bp \<and> bp < ptr_of p m then Some p
     else if ptr_of p m \<le> p \<and> (p < bp \<or> bp < ptr_of p m) then Some p
     else find_place bp (ptr_of p m) m)"

definition join_right :: "nat \<Rightarrow> nat \<Rightarrow> umem \<Rightarrow> umem" where
  "join_right bp p m =
    (if padd bp (size_of bp m) = ptr_of p m then let
        m = set_size bp ((size_of bp m + size_of (ptr_of p m) m) mod 2 ^ 32) m
      in set_ptr bp (ptr_of (ptr_of p m) m) m
     else set_ptr bp (ptr_of p m) m)"

definition join_left :: "nat \<Rightarrow> nat \<Rightarrow> umem \<Rightarrow> umem" where
  "join_left bp p m =
    (if padd p (size_of p m) = bp then let
        m = set_size p ((size_of p m + size_of bp m) mod 2 ^ 32) m
      in set_ptr p (ptr_of bp m) m
     else set_ptr p bp m)"

definition free :: "nat \<Rightarrow> umem \<Rightarrow> umem option" where
  "free ap m = (let bp = psub1 ap in
     map_option (\<lambda>p. (join_left bp p (join_right bp p m))\<lparr>freep := p\<rparr>) (find_place bp (freep m) m))"

section \<open>Allocation\<close>

definition morecore :: "nat \<Rightarrow> umem \<Rightarrow> (nat \<times> umem) option" where
  "morecore nu m = (let
      nu = (if nu < 4096 then 4096 else nu);
      (p, m) = sbrk (sint (word_of_nat (nu * 8) :: uint)) m
    in if p = 2 ^ 32 - 1 then Some (0, m)
    else map_option (\<lambda>m. (freep m, m)) (free (padd p 1) (set_size p nu m)))"

definition take_units :: "nat \<Rightarrow> nat \<Rightarrow> nat \<Rightarrow> umem \<Rightarrow> nat \<times> umem" where
  "take_units prevp p nunits m = (let
      (p, m) = (if size_of p m = nunits then (p, set_ptr prevp (ptr_of p m) m)
        else let
            m = set_size p (size_of p m - nunits) m;
            p = padd p (size_of p m)
          in (p, set_size p nunits m))
    in (padd p 1, m\<lparr>freep := prevp\<rparr>))"

partial_function (option) malloc_loop :: "nat \<Rightarrow> nat \<Rightarrow> nat \<Rightarrow> umem \<Rightarrow> (nat \<times> umem) option" where
  "malloc_loop nunits prevp p m =
    (if nunits \<le> size_of p m then Some (take_units prevp p nunits m)
     else if p = freep m then Option.bind (morecore nunits m) (\<lambda>r.
       if fst r = 0 then Some (0, snd r) else malloc_loop nunits (fst r) (ptr_of (fst r) (snd r)) (snd r))
     else malloc_loop nunits p (ptr_of p m) m)"

definition units :: "nat \<Rightarrow> nat" where
  "units nbytes = (nbytes + 8 - 1) mod 2 ^ 32 div 8 + 1"

definition start_list :: "umem \<Rightarrow> umem" where
  "start_list m = set_size (base_at m) 0 ((set_ptr (base_at m) (base_at m) m)\<lparr>freep := base_at m\<rparr>)"

definition malloc :: "nat \<Rightarrow> umem \<Rightarrow> (nat \<times> umem) option" where
  "malloc nbytes m = (let
      m = (if freep m = 0 then start_list m else m)
    in malloc_loop (units nbytes) (freep m) (ptr_of (freep m) m) m)"

section \<open>Threads\<close>

text \<open>
  \<open>thread_create\<close>: what \<open>clone\<close> answers for a stack and what the function of the thread does to the
  allocator are parameters.  The parent gets a result; the child frees its stack and exits, \<open>None\<close>.
\<close>

definition stack_page :: "nat \<Rightarrow> uint" where
  "stack_page stack = and (word_of_nat stack) 0xFFFFF000 + 0x00001000"

definition thread_create ::
    "(uint \<Rightarrow> int) \<Rightarrow> (umem \<Rightarrow> umem) \<Rightarrow> umem \<Rightarrow> (int option \<times> umem) option" where
  "thread_create clone fn_arg m = Option.bind (malloc (2 * 4096) m) (\<lambda>(stack, m).
    let rc = clone (stack_page stack) in
    if rc = - 1 then Some (Some (- 1), m)
    else if rc = 0 then map_option (\<lambda>m. (None, m)) (free stack (fn_arg m))
    else if 0 < rc then Some (Some rc, m)
    else Some (Some (- 1), m))"


section \<open>The list of the free blocks\<close>

type_synonym node = "nat \<times> nat"

fun start :: "node list \<Rightarrow> nat \<Rightarrow> nat" where
  "start [] z = z"
| "start (b # bs) z = fst b"

text \<open>\<open>linked h bs z\<close>: the headers of \<open>bs\<close> are linked in this order, the last one to \<open>z\<close>.\<close>

fun linked :: "(nat \<Rightarrow> header) \<Rightarrow> node list \<Rightarrow> nat \<Rightarrow> bool" where
  "linked h [] z \<longleftrightarrow> True"
| "linked h (b # bs) z \<longleftrightarrow> h_ptr (h (fst b)) = start bs z \<and> h_size (h (fst b)) = snd b \<and> linked h bs z"

definition spaced :: "node list \<Rightarrow> bool" where
  "spaced = sorted_wrt (\<lambda>b c. fst b + 8 * snd b < fst c)"

text \<open>
  \<open>kr m bs\<close>: the free list is the blocks \<open>bs\<close>, in the order of their addresses, no two of them
  adjacent, from \<open>base\<close> on and back to it, and \<open>freep\<close> is one of them.
\<close>

definition kr :: "umem \<Rightarrow> node list \<Rightarrow> bool" where
  "kr m bs \<longleftrightarrow> (\<exists>cs. bs = (base_at m, 0) # cs) \<and> 0 < base_at m \<and> spaced bs \<and>
    linked (hd_at m) bs (base_at m) \<and> freep m \<in> fst ` set bs \<and>
    (\<forall>b\<in>set (tl bs). 0 < snd b \<and> fst b + 8 * snd b \<le> brk m) \<and> base_at m < brk m \<and> brk m \<le> unat USERTOP"

lemma start_append: "start (xs @ ys) z = start xs (start ys z)"
  by (cases xs) simp_all

lemma linked_append: "linked h (xs @ ys) z \<longleftrightarrow> linked h xs (start ys z) \<and> linked h ys z"
  by (induction xs) (auto simp: start_append)

lemma linked_cong:
  "linked h bs z \<Longrightarrow> (\<And>b. b \<in> set bs \<Longrightarrow> h' (fst b) = h (fst b)) \<Longrightarrow> linked h' bs z"
  by (induction bs) auto

lemma spaced_append:
  "spaced (xs @ ys) \<longleftrightarrow> spaced xs \<and> spaced ys \<and> (\<forall>b\<in>set xs. \<forall>c\<in>set ys. fst b + 8 * snd b < fst c)"
  by (simp add: spaced_def sorted_wrt_append)

lemma spaced_simps [simp]:
  "spaced []" "spaced (b # bs) \<longleftrightarrow> (\<forall>c\<in>set bs. fst b + 8 * snd b < fst c) \<and> spaced bs"
  by (simp_all add: spaced_def)

lemma spaced_distinct: "spaced bs \<Longrightarrow> distinct (map fst bs)"
  by (induction bs) force+

lemma krE:
  assumes "kr m bs"
  obtains cs where "bs = (base_at m, 0) # cs" and "0 < base_at m" and "spaced bs"
    and "linked (hd_at m) bs (base_at m)" and "freep m \<in> fst ` set bs"
    and "\<forall>b\<in>set cs. 0 < snd b \<and> fst b + 8 * snd b \<le> brk m"
    and "base_at m < brk m" and "brk m \<le> unat USERTOP"
proof -
  from assms obtain cs where cs: "bs = (base_at m, 0) # cs" unfolding kr_def by blast
  with assms show thesis unfolding kr_def by (intro that [OF cs]) simp_all
qed

lemma USERTOP_nat [simp]: "unat USERTOP = 655360"
  by (simp add: USERTOP_def)

lemma kr_bounds:
  assumes "kr m bs" and "b \<in> set bs"
  shows "base_at m \<le> fst b" and "fst b + 8 * snd b \<le> brk m" and "fst b < brk m" and "brk m \<le> 655360"
    and "b = (base_at m, 0) \<or> 0 < snd b \<and> base_at m < fst b"
proof -
  obtain cs where cs: "bs = (base_at m, 0) # cs" "spaced bs" "\<forall>b\<in>set cs. 0 < snd b \<and> fst b + 8 * snd b \<le> brk m"
    "base_at m < brk m" "brk m \<le> unat USERTOP"
    using assms(1) by (rule krE)
  consider "b = (base_at m, 0)" | "b \<in> set cs" using assms(2) cs(1) by auto
  then show "base_at m \<le> fst b" "fst b + 8 * snd b \<le> brk m" "fst b < brk m" "brk m \<le> 655360"
    "b = (base_at m, 0) \<or> 0 < snd b \<and> base_at m < fst b"
    by (cases; use cs in \<open>force\<close>)+
qed

text \<open>The predecessor of a block to be freed, found from any node of the list.\<close>

lemma find_place_stop:
  assumes "p < bp" and "bp < ptr_of p m \<or> ptr_of p m \<le> p"
  shows "find_place bp p m = Some p"
  using assms by (subst find_place.simps) auto

lemma find_place_go:
  assumes "p < bp \<and> ptr_of p m \<le> bp \<and> p < ptr_of p m \<or> bp \<le> p \<and> ptr_of p m \<le> bp \<and> ptr_of p m \<le> p \<or>
    bp \<le> p \<and> p < ptr_of p m"
  shows "find_place bp p m = find_place bp (ptr_of p m) m"
  using assms by (subst find_place.simps) auto

lemma find_place_below:
  assumes "linked (hd_at m) (xs @ (p, s) # ys) z" and "spaced (xs @ [(p, s)])" and "p < bp"
    and "bp < start ys z \<or> start ys z \<le> p"
  shows "find_place bp (start xs p) m = Some p"
  using assms(1,2)
proof (induction xs)
  case Nil
  then show ?case using assms(3,4) by (auto intro: find_place_stop)
next
  case (Cons u xs)
  have n: "ptr_of (fst u) m = start xs p" using Cons.prems(1) by (simp add: start_append)
  have "start xs p \<le> p" "fst u < start xs p" "fst u < p"
    using Cons.prems(2) by (cases xs; fastforce simp: spaced_append)+
  then have "find_place bp (fst u) m = find_place bp (start xs p) m"
    unfolding n [symmetric] using assms(3) by (intro find_place_go) simp
  then show ?case using Cons by simp
qed

lemma find_place_above:
  assumes "linked (hd_at m) ys z" and "spaced ys" and "\<forall>b\<in>set ys. bp \<le> fst b" and "z \<le> bp"
  shows "find_place bp (start ys z) m = find_place bp z m"
  using assms(1-3)
proof (induction ys)
  case (Cons b ys)
  have n: "ptr_of (fst b) m = start ys z" using Cons.prems(1) by simp
  have "start ys z \<le> bp \<and> start ys z \<le> fst b \<or> fst b < start ys z"
    using Cons.prems(2,3) assms(4) by (cases ys) auto
  then have "find_place bp (fst b) m = find_place bp (start ys z) m"
    unfolding n [symmetric] using Cons.prems(3) by (intro find_place_go) auto
  then show ?case using Cons by simp
qed simp

lemma find_place_finds:
  assumes "kr m (xs @ (p, s) # ys)" and "p < bp" and "\<forall>b\<in>set ys. bp < fst b" and "q \<in> fst ` set (xs @ (p, s) # ys)"
  shows "find_place bp q m = Some p"
proof -
  obtain cs where cs: "xs @ (p, s) # ys = (base_at m, 0) # cs" "spaced (xs @ (p, s) # ys)"
    "linked (hd_at m) (xs @ (p, s) # ys) (base_at m)"
    using assms(1) by (rule krE)
  have base: "base_at m \<le> p" using kr_bounds(1) [OF assms(1), of "(p, s)"] by simp
  have stop: "bp < start ys (base_at m) \<or> start ys (base_at m) \<le> p"
    using assms(3) base by (cases ys) auto
  have below: "find_place bp (start us p) m = Some p" if "xs = vs @ us" for us vs
  proof (rule find_place_below [OF _ _ assms(2) stop])
    show "linked (hd_at m) (us @ (p, s) # ys) (base_at m)" "spaced (us @ [(p, s)])"
      using cs(2,3) that by (auto simp: linked_append spaced_append)
  qed
  have first: "find_place bp (base_at m) m = Some p"
    using below [of "[]" xs] cs(1) by (cases xs) auto
  consider us b vs where "xs = us @ b # vs" "q = fst b" | "q = p" | us b vs where "ys = us @ b # vs" "q = fst b"
    using assms(4) by (auto dest: split_list)
  then show ?thesis
  proof cases
    case 1
    with below [of us "b # vs"] show ?thesis by simp
  next
    case 2
    with below [of xs "[]"] show ?thesis by simp
  next
    case 3
    have "find_place bp (start (b # vs) (base_at m)) m = find_place bp (base_at m) m"
      using cs(2,3) assms(2,3) base 3
      by (intro find_place_above) (auto simp: linked_append spaced_append less_imp_le)
    with first 3 show ?thesis by simp
  qed
qed

text \<open>The list after a release: the new block joined with its neighbours on both sides.\<close>

definition glue_right :: "node \<Rightarrow> node list \<Rightarrow> node list" where
  "glue_right b ys = (case ys of [] \<Rightarrow> [b]
     | c # zs \<Rightarrow> if fst b + 8 * snd b = fst c then (fst b, snd b + snd c) # zs else b # ys)"

definition glue_left :: "node \<Rightarrow> node list \<Rightarrow> node list" where
  "glue_left p ys = (case ys of [] \<Rightarrow> [p]
     | c # zs \<Rightarrow> if fst p + 8 * snd p = fst c then (fst p, snd p + snd c) # zs else p # ys)"


lemma glue_left_start [simp]: "start (glue_left p ys) z = fst p"
  by (auto simp: glue_left_def split: list.splits)

lemma glue_right_start [simp]: "start (glue_right b ys) z = fst b"
  by (auto simp: glue_right_def split: list.splits)

lemma glue_left_set:
  "c \<in> set (glue_left p ys) \<Longrightarrow> c \<in> set (p # ys) \<or> (\<exists>d\<in>set ys. fst p + 8 * snd p = fst d \<and> c = (fst p, snd p + snd d))"
  by (auto simp: glue_left_def split: list.splits if_splits)

lemma glue_right_set:
  "c \<in> set (glue_right b ys) \<Longrightarrow> c \<in> set (b # ys) \<or> (\<exists>d\<in>set ys. fst b + 8 * snd b = fst d \<and> c = (fst b, snd b + snd d))"
  by (auto simp: glue_right_def split: list.splits if_splits)

lemma glue_right_spaced:
  assumes "spaced ys" and "\<forall>c\<in>set ys. fst b + 8 * snd b \<le> fst c"
  shows "spaced (glue_right b ys)"
proof (cases ys)
  case (Cons c zs)
  with assms have "fst b + 8 * snd b \<le> fst c" "\<forall>d\<in>set zs. fst c + 8 * snd c < fst d" "spaced zs" by auto
  then show ?thesis using Cons by (auto simp: glue_right_def add_mult_distrib2)
qed (simp add: glue_right_def)

lemma glue_left_spaced:
  assumes "spaced ys" and "\<forall>c\<in>set ys. fst p + 8 * snd p \<le> fst c"
  shows "spaced (glue_left p ys)"
proof (cases ys)
  case (Cons c zs)
  with assms have "fst p + 8 * snd p \<le> fst c" "\<forall>d\<in>set zs. fst c + 8 * snd c < fst d" "spaced zs" by auto
  then show ?thesis using Cons by (auto simp: glue_left_def add_mult_distrib2)
qed (simp add: glue_left_def)

definition same_but :: "nat set \<Rightarrow> umem \<Rightarrow> umem \<Rightarrow> bool" where
  "same_but A m m' \<longleftrightarrow> (\<forall>a. a \<notin> A \<longrightarrow> hd_at m' a = hd_at m a) \<and> base_at m' = base_at m \<and>
    brk m' = brk m \<and> grants m' = grants m"

lemma join_right_chain:
  assumes "linked (hd_at m) ys z" and "ptr_of p m = start ys z" and "size_of b m = n" and "p \<noteq> b"
    and "\<forall>c\<in>set ys. b < fst c \<and> b + 8 * n \<le> fst c \<and> n + snd c < 2 ^ 32" and "b + 8 * n < 2 ^ 32"
    and "z < b + 8 * n"
  shows "linked (hd_at (join_right b p m)) (glue_right (b, n) ys) z" and "same_but {b} m (join_right b p m)"
proof -
  have pd: "padd b n = b + 8 * n" using assms(6) by (simp add: padd_def)
  have "linked (hd_at (join_right b p m)) (glue_right (b, n) ys) z \<and> same_but {b} m (join_right b p m)"
  proof (cases ys)
    case Nil
    with assms pd show ?thesis
      by (simp add: join_right_def glue_right_def set_ptr_def same_but_def)
  next
    case (Cons c zs)
    have c: "b < fst c" "n + snd c < 2 ^ 32" "\<forall>d\<in>set zs. b < fst d" using assms(5) Cons by auto
    have zs: "linked h zs z" if "\<And>a. a \<noteq> b \<Longrightarrow> h a = hd_at m a" for h
      by (rule linked_cong [of "hd_at m"]) (use assms(1) Cons that c(3) in auto)
    show ?thesis using assms(1-4) Cons pd c
      by (auto simp: join_right_def glue_right_def set_ptr_def set_size_def same_but_def Let_def intro!: zs)
  qed
  then show "linked (hd_at (join_right b p m)) (glue_right (b, n) ys) z" "same_but {b} m (join_right b p m)"
    by auto
qed

lemma join_left_chain:
  assumes "linked (hd_at m) ((b, n) # ys) z" and "size_of p m = s" and "p < b"
    and "\<forall>c\<in>set ys. b < fst c" and "p + 8 * s < 2 ^ 32" and "s + n < 2 ^ 32"
  shows "linked (hd_at (join_left b p m)) (glue_left (p, s) ((b, n) # ys)) z" and "same_but {p} m (join_left b p m)"
proof -
  have pd: "padd p s = p + 8 * s" using assms(5) by (simp add: padd_def)
  have ys: "linked h ys z" if "\<And>a. a \<noteq> p \<Longrightarrow> h a = hd_at m a" for h
    by (rule linked_cong [of "hd_at m"]) (use assms(1,3,4) that in fastforce)+
  show "linked (hd_at (join_left b p m)) (glue_left (p, s) ((b, n) # ys)) z" "same_but {p} m (join_left b p m)"
    using assms pd
    by (auto simp: join_left_def glue_left_def set_ptr_def set_size_def same_but_def Let_def intro!: ys)
qed

text \<open>A block that may be released: a header with its size, apart from the free blocks.\<close>

definition released :: "node list \<Rightarrow> node \<Rightarrow> node list \<Rightarrow> node \<Rightarrow> node list" where
  "released xs p ys b = xs @ glue_left p (glue_right b ys)"

lemma free_joins:
  assumes "kr m (xs @ (p, s) # ys)" and "size_of b m = n" and "0 < n" and "p < b" and "p + 8 * s \<le> b"
    and "\<forall>c\<in>set ys. b + 8 * n \<le> fst c" and "b + 8 * n \<le> brk m"
  shows "\<exists>m'. free (b + 8) m = Some m' \<and> kr m' (released xs (p, s) ys (b, n)) \<and> freep m' = p \<and>
    same_but {p, b} m m'"
proof -
  let ?z = "base_at m"
  obtain cs where cs: "xs @ (p, s) # ys = (?z, 0) # cs" "spaced (xs @ (p, s) # ys)"
    "linked (hd_at m) (xs @ (p, s) # ys) ?z" "freep m \<in> fst ` set (xs @ (p, s) # ys)"
    "\<forall>b\<in>set cs. 0 < snd b \<and> fst b + 8 * snd b \<le> brk m" "0 < ?z" "?z < brk m"
    using assms(1) by (rule krE)
  note bd = kr_bounds [OF assms(1)]
  have z: "?z \<le> p" using bd(1) [of "(p, s)"] by simp
  have brk: "brk m \<le> 655360" using bd(4) [of "(p, s)"] by simp
  have ps: "psub1 (b + 8) = b" using assms(7) brk by (simp add: psub1_def)
  have fp: "find_place b (freep m) m = Some p"
    by (rule find_place_finds [OF assms(1,4) _ cs(4)]) (use assms(3,6) in fastforce)
  let ?m1 = "join_right b p m"
  have c1: "linked (hd_at m) ys ?z" "ptr_of p m = start ys ?z" "size_of p m = s"
    "linked (hd_at m) xs p" using cs(3) by (auto simp: linked_append)
  have yb: "\<forall>c\<in>set ys. b < fst c \<and> b + 8 * n \<le> fst c \<and> n + snd c < 2 ^ 32"
  proof
    fix c assume c: "c \<in> set ys"
    with bd(2,4) [of c] have "fst c + 8 * snd c \<le> 655360" by simp
    with assms(3,6) c show "b < fst c \<and> b + 8 * n \<le> fst c \<and> n + snd c < 2 ^ 32" by fastforce
  qed
  have r: "linked (hd_at ?m1) (glue_right (b, n) ys) ?z" "same_but {b} m ?m1"
    by (rule join_right_chain [OF c1(1,2) assms(2) _ yb]; use assms(4,7) brk z in simp)+
  obtain n' vs where g: "glue_right (b, n) ys = (b, n') # vs" "b + 8 * n' \<le> brk m" "set vs \<subseteq> set ys"
  proof (cases ys)
    case (Cons c zs)
    show thesis
    proof (cases "b + 8 * n = fst c")
      case True
      with Cons bd(2) [of c] show thesis by (intro that [of "n + snd c" zs]) (auto simp: glue_right_def)
    next
      case False
      with Cons assms(7) show thesis by (intro that [of n ys]) (auto simp: glue_right_def)
    qed
  qed (use that assms(7) in \<open>auto simp: glue_right_def\<close>)
  let ?m2 = "join_left b p ?m1"
  have sz: "size_of p ?m1 = s" "p + 8 * s < 2 ^ 32" "s + n' < 2 ^ 32"
    using r(2) c1(3) assms(4,5) g(2) brk by (simp_all add: same_but_def)
  have vs: "\<forall>c\<in>set vs. b < fst c" using g(3) yb by auto
  have l: "linked (hd_at ?m2) (glue_left (p, s) ((b, n') # vs)) ?z" "same_but {p} ?m1 ?m2"
    by (rule join_left_chain [OF r(1) [unfolded g(1)] sz(1) assms(4) vs sz(2,3)])+
  have sb: "same_but {p, b} m (?m2\<lparr>freep := p\<rparr>)" using r(2) l(2) by (auto simp: same_but_def)
  have xp: "\<forall>c\<in>set xs. fst c < p \<and> fst c + 8 * snd c < p" using cs(2) by (fastforce simp: spaced_append)
  have "linked (hd_at ?m2) xs p"
    by (rule linked_cong [OF c1(4)]) (use xp sb assms(4) in \<open>fastforce simp: same_but_def\<close>)
  then have ch: "linked (hd_at ?m2) (released xs (p, s) ys (b, n)) ?z"
    using l(1) by (simp add: released_def linked_append g(1))
  have "spaced (glue_right (b, n) ys)"
    by (rule glue_right_spaced) (use cs(2) assms(6) in \<open>auto simp: spaced_append\<close>)
  then have "spaced (glue_left (p, s) (glue_right (b, n) ys))"
    unfolding g(1) by (rule glue_left_spaced) (use assms(5) vs in fastforce)
  moreover have "p \<le> fst c" if "c \<in> set (glue_left (p, s) (glue_right (b, n) ys))" for c
    using that vs assms(4) unfolding g(1) by (fastforce dest!: glue_left_set)
  ultimately have sp: "spaced (released xs (p, s) ys (b, n))"
    using cs(2) xp by (fastforce simp: released_def spaced_append)
  obtain cs' where cs': "released xs (p, s) ys (b, n) = (?z, 0) # cs'"
    using cs(1) assms(4) g(1) by (cases xs) (auto simp: released_def glue_left_def)
  have el: "c = (?z, 0) \<or> 0 < snd c \<and> fst c + 8 * snd c \<le> brk m" if "c \<in> set (released xs (p, s) ys (b, n))" for c
  proof -
    from that consider "c \<in> set xs" | "c \<in> set (glue_left (p, s) ((b, n') # vs))"
      by (auto simp: released_def g(1))
    then show ?thesis
    proof cases
      case 1
      then show ?thesis using bd(2,5) [of c] by auto
    next
      case 2
      then have "c = (p, s) \<or> c = (b, n') \<or> c \<in> set ys \<or> p + 8 * s = b \<and> c = (p, s + n')"
        using g(3) by (auto simp: glue_left_def split: if_splits)
      moreover have "0 < n'" using g(1) assms(3) by (auto simp: glue_right_def split: list.splits if_splits)
      ultimately show ?thesis using bd(2,5) [of c] bd(2,5) [of "(p, s)"] g(2) by auto
    qed
  qed
  have tl: "\<forall>c\<in>set cs'. 0 < snd c \<and> fst c + 8 * snd c \<le> brk m"
    using el sp unfolding cs' by fastforce
  have "p \<in> fst ` set (released xs (p, s) ys (b, n))"
    unfolding released_def g(1) by (auto simp: glue_left_def)
  then have "kr (?m2\<lparr>freep := p\<rparr>) (released xs (p, s) ys (b, n))"
    using ch sp tl cs(6,7) sb brk unfolding kr_def cs' by (simp add: same_but_def)
  with sb show ?thesis by (simp add: free_def ps fp)
qed


lemma place_exists:
  assumes "kr m bs" and "base_at m < b" and "0 < n" and "\<forall>c\<in>set bs. fst c + 8 * snd c \<le> b \<or> b + 8 * n \<le> fst c"
  obtains xs p s ys where "bs = xs @ (p, s) # ys" and "p < b" and "p + 8 * s \<le> b" and "\<forall>c\<in>set ys. b + 8 * n \<le> fst c"
proof -
  obtain cs where "bs = (base_at m, 0) # cs" using assms(1) by (rule krE)
  then have "\<exists>c\<in>set bs. fst c < b" using assms(2) by auto
  then obtain xs c ys where c: "bs = xs @ c # ys" "fst c < b" "\<forall>d\<in>set ys. \<not> fst d < b"
    using split_list_last_prop [of bs "\<lambda>c. fst c < b"] by blast
  have ap: "fst d + 8 * snd d \<le> b \<or> b + 8 * n \<le> fst d" if "d \<in> set bs" for d using assms(4) that by blast
  have "fst c + 8 * snd c \<le> b" using ap [of c] c(1,2) assms(3) by auto
  moreover have "b + 8 * n \<le> fst d" if d: "d \<in> set ys" for d
  proof -
    have "d \<in> set bs" "b \<le> fst d" using c(1,3) d by auto
    with ap [of d] kr_bounds(5) [OF assms(1), of d] assms(2) show ?thesis by auto
  qed
  ultimately show thesis using c(1,2) by (intro that [of xs "fst c" "snd c" ys]) auto
qed

section \<open>The search for a block\<close>

lemma linked_ptr: "linked h bs z \<Longrightarrow> b \<in> set bs \<Longrightarrow> h_ptr (h (fst b)) \<in> insert z (fst ` set (tl bs))"
proof (induction bs)
  case (Cons c bs)
  then show ?case by (cases bs) auto
qed simp

lemma linked_pred:
  assumes "linked h (us @ u # (a, s) # ys) z" and "distinct (map fst (us @ u # (a, s) # ys))" and "z \<noteq> a"
    and "b \<in> set (us @ u # (a, s) # ys)" and "h_ptr (h (fst b)) = a"
  shows "b = u"
  using assms(1,2,4)
proof (induction us)
  case Nil
  have "a \<notin> insert z (fst ` set (tl ((a, s) # ys)))" using Nil(2) assms(3) by auto
  with linked_ptr [of h "(a, s) # ys" z b] Nil assms(5) show ?case by auto
next
  case (Cons v us)
  have "h_ptr (h (fst v)) \<noteq> a" using Cons.prems(1,2) by (cases us) auto
  with Cons assms(5) show ?case by auto
qed

lemma take_units_takes:
  assumes "kr m (xs @ (a, s) # ys)" and "0 < n" and "n \<le> s" and "ptr_of prev m = a" and "prev \<in> fst ` set (xs @ (a, s) # ys)"
  defines "q \<equiv> a + 8 * (s - n)"
  shows "\<exists>m'. take_units prev a n m = (q + 8, m') \<and> size_of q m' = n \<and> freep m' = prev \<and>
    kr m' (xs @ (if s = n then [] else [(a, s - n)]) @ ys) \<and> same_but {prev, a, q} m m'"
proof -
  let ?z = "base_at m"
  obtain cs where cs: "xs @ (a, s) # ys = (?z, 0) # cs" "spaced (xs @ (a, s) # ys)"
    "linked (hd_at m) (xs @ (a, s) # ys) ?z" "\<forall>b\<in>set cs. 0 < snd b \<and> fst b + 8 * snd b \<le> brk m"
    "0 < ?z" "?z < brk m" "brk m \<le> unat USERTOP"
    using assms(1) by (rule krE)
  note bd = kr_bounds [OF assms(1)]
  have as: "a + 8 * s \<le> brk m" "brk m \<le> 655360" "?z < a"
    using bd(2,4,5) [of "(a, s)"] assms(2,3) by auto
  obtain us u where u: "xs = us @ [u]" using cs(1) as(3) by (cases xs rule: rev_cases) auto
  have di: "distinct (map fst (us @ u # (a, s) # ys))" using spaced_distinct [OF cs(2)] u by simp
  have ch: "linked (hd_at m) us (fst u)" "ptr_of (fst u) m = a" "size_of (fst u) m = snd u"
    "ptr_of a m = start ys ?z" "size_of a m = s" "linked (hd_at m) ys ?z"
    using cs(3) by (auto simp: u linked_append)
  have prev: "prev = fst u"
  proof -
    have "prev \<in> fst ` set (us @ u # (a, s) # ys)" using assms(5) by (simp add: u)
    then obtain b where b: "b \<in> set (us @ u # (a, s) # ys)" "prev = fst b" by blast
    have "linked (hd_at m) (us @ u # (a, s) # ys) ?z" using cs(3) by (simp add: u)
    from linked_pred [OF this di _ b(1)] b(2) assms(4) as(3) show ?thesis by simp
  qed
  have pa: "padd a (s - n) = q" "padd q 1 = q + 8"
    using as assms(2,3) by (simp_all add: padd_def q_def)
  have fu: "fst u \<in> fst ` set xs" by (simp add: u)
  have spx: "\<forall>b\<in>set us. fst b < fst u" "\<forall>b\<in>set ys. a + 8 * s < fst b" "fst u < a"
    using cs(2) by (fastforce simp: u spaced_append)+
  show ?thesis
  proof (cases "s = n")
    case True
    let ?m = "(set_ptr prev (ptr_of a m) m)\<lparr>freep := prev\<rparr>"
    have qa: "q = a" using True by (simp add: q_def)
    have t: "take_units prev a n m = (q + 8, ?m)" using ch(5) True pa(2) by (simp add: take_units_def qa)
    have nb: "b \<in> set us \<or> b \<in> set ys \<Longrightarrow> fst b \<noteq> prev" for b using spx unfolding prev by force
    have us': "linked (hd_at ?m) us (fst u)"
      by (rule linked_cong [OF ch(1)]) (use nb in \<open>simp add: set_ptr_def\<close>)
    have ys': "linked (hd_at ?m) ys ?z"
      by (rule linked_cong [OF ch(6)]) (use nb in \<open>simp add: set_ptr_def\<close>)
    have "linked (hd_at ?m) (xs @ ys) ?z"
      using us' ys' ch(3,4) by (simp add: u linked_append set_ptr_def prev)
    moreover have "\<exists>cs'. xs @ ys = (?z, 0) # cs' \<and> set cs' \<subseteq> set cs" using cs(1) u by (cases us) auto
    moreover have "spaced (xs @ ys)" using cs(2) by (simp add: spaced_append)
    ultimately have "kr ?m (xs @ ys)"
      using cs(4-7) fu unfolding kr_def by (auto simp: set_ptr_def prev)
    moreover have "size_of q ?m = n" using ch(5) True spx(3) by (simp add: set_ptr_def prev qa)
    moreover have "same_but {prev, a, q} m ?m" by (simp add: same_but_def set_ptr_def)
    ultimately show ?thesis using t True by simp
  next
    case False
    let ?m = "(set_size q n (set_size a (s - n) m))\<lparr>freep := prev\<rparr>"
    have qa: "a < q" "q + 8 * n = a + 8 * s" using False assms(3) by (auto simp: q_def)
    have t: "take_units prev a n m = (q + 8, ?m)" using ch(5) False pa
      by (simp add: take_units_def Let_def set_size_def)
    have us': "linked (hd_at ?m) us (fst u)"
      by (rule linked_cong [OF ch(1)]) (use spx qa in \<open>fastforce simp: set_size_def\<close>)
    have ys': "linked (hd_at ?m) ys ?z"
      by (rule linked_cong [OF ch(6)]) (use spx qa in \<open>fastforce simp: set_size_def\<close>)
    have "linked (hd_at ?m) (xs @ (a, s - n) # ys) ?z"
      using us' ys' ch(2-4) spx(3) qa by (simp add: u linked_append set_size_def)
    moreover have "\<exists>cs'. xs @ (a, s - n) # ys = (?z, 0) # cs' \<and> set cs' \<subseteq> insert (a, s - n) (set cs)"
      using cs(1) u by (cases us) auto
    moreover have "spaced (xs @ (a, s - n) # ys)"
      using cs(2) by (fastforce simp: spaced_append)
    ultimately have "kr ?m (xs @ (a, s - n) # ys)"
      using cs(4-7) fu False assms(3) as unfolding kr_def by (auto simp: set_size_def prev)
    moreover have "size_of q ?m = n" by (simp add: set_size_def)
    moreover have "same_but {prev, a, q} m ?m" by (simp add: same_but_def set_size_def)
    ultimately show ?thesis using t False by simp
  qed
qed


text \<open>The nodes in the order in which a search sees them: from the one after \<open>freep\<close> around to it.\<close>

definition ring_from :: "nat \<Rightarrow> node list \<Rightarrow> node list" where
  "ring_from f bs = (let us = takeWhile (\<lambda>b. fst b \<noteq> f) bs; vs = dropWhile (\<lambda>b. fst b \<noteq> f) bs
    in tl vs @ us @ [hd vs])"

lemma ring_from_split:
  assumes "f \<in> fst ` set bs"
  obtains us sf vs where "bs = us @ (f, sf) # vs" and "ring_from f bs = vs @ us @ [(f, sf)]"
proof -
  define us vs where "us = takeWhile (\<lambda>b. fst b \<noteq> f) bs" and "vs = dropWhile (\<lambda>b. fst b \<noteq> f) bs"
  have vs: "vs \<noteq> []" using assms by (auto simp: vs_def dropWhile_eq_Nil_conv)
  then have "fst (hd vs) = f" using hd_dropWhile [of "\<lambda>b. fst b \<noteq> f" bs] by (auto simp: vs_def)
  then have h: "hd vs = (f, snd (hd vs))" by (metis prod.collapse)
  have "bs = us @ hd vs # tl vs" "ring_from f bs = tl vs @ us @ [hd vs]"
    using vs by (simp_all add: us_def vs_def ring_from_def Let_def)
  with h show thesis using that [of us "snd (hd vs)" "tl vs"] by simp
qed

lemma ring_from_set: "f \<in> fst ` set bs \<Longrightarrow> set (ring_from f bs) = set bs"
  by (erule ring_from_split) auto

lemma ring_chain:
  assumes "kr m bs"
  obtains zs sf where "ring_from (freep m) bs = zs @ [(freep m, sf)]"
    and "linked (hd_at m) (zs @ [(freep m, sf)]) (ptr_of (freep m) m)"
    and "ptr_of (freep m) m = start zs (freep m)" and "distinct (map fst (zs @ [(freep m, sf)]))"
proof -
  obtain cs where cs: "bs = (base_at m, 0) # cs" "spaced bs" "linked (hd_at m) bs (base_at m)" "freep m \<in> fst ` set bs"
    using assms by (rule krE)
  obtain us sf vs where u: "bs = us @ (freep m, sf) # vs" "ring_from (freep m) bs = vs @ us @ [(freep m, sf)]"
    using cs(4) by (rule ring_from_split)
  have z: "start us (freep m) = base_at m" using cs(1) u(1) by (cases us) auto
  have "linked (hd_at m) ((vs @ us) @ [(freep m, sf)]) (ptr_of (freep m) m)"
    "ptr_of (freep m) m = start (vs @ us) (freep m)"
    using cs(3) unfolding u(1) by (simp_all add: linked_append start_append z)
  moreover have "distinct (map fst ((vs @ us) @ [(freep m, sf)]))"
    using spaced_distinct [OF cs(2)] unfolding u(1) by auto
  ultimately show thesis using that [of "vs @ us" sf] u(2) by simp
qed

lemma malloc_loop_scans:
  assumes "linked (hd_at m) (zs @ [(freep m, sf)]) w" and "distinct (map fst (zs @ [(freep m, sf)]))"
    and "ptr_of prev m = start zs (freep m)"
  shows "case find (\<lambda>b. n \<le> snd b) (zs @ [(freep m, sf)]) of
      Some b \<Rightarrow> \<exists>p \<in> insert prev (fst ` set zs). ptr_of p m = fst b \<and>
        malloc_loop n prev (start zs (freep m)) m = Some (take_units p (fst b) n m)
    | None \<Rightarrow> malloc_loop n prev (start zs (freep m)) m = Option.bind (morecore n m) (\<lambda>r.
        if fst r = 0 then Some (0, snd r) else malloc_loop n (fst r) (ptr_of (fst r) (snd r)) (snd r))"
  using assms
proof (induction zs arbitrary: prev)
  case Nil
  then show ?case by (auto simp: malloc_loop.simps [of n prev "freep m" m])
next
  case (Cons b zs)
  have b: "size_of (fst b) m = snd b" "ptr_of (fst b) m = start zs (freep m)" "fst b \<noteq> freep m"
    using Cons.prems(1,2) by (auto simp: start_append)
  show ?case
  proof (cases "n \<le> snd b")
    case True
    then show ?thesis using b Cons.prems(3) by (auto simp: malloc_loop.simps [of n prev "fst b" m])
  next
    case False
    have IH: "case find (\<lambda>b. n \<le> snd b) (zs @ [(freep m, sf)]) of
      Some c \<Rightarrow> \<exists>p \<in> insert (fst b) (fst ` set zs). ptr_of p m = fst c \<and>
        malloc_loop n (fst b) (start zs (freep m)) m = Some (take_units p (fst c) n m)
    | None \<Rightarrow> malloc_loop n (fst b) (start zs (freep m)) m = Option.bind (morecore n m) (\<lambda>r.
        if fst r = 0 then Some (0, snd r) else malloc_loop n (fst r) (ptr_of (fst r) (snd r)) (snd r))"
      by (rule Cons.IH) (use Cons.prems b in auto)
    have "malloc_loop n prev (fst b) m = malloc_loop n (fst b) (start zs (freep m)) m"
      using False b by (simp add: malloc_loop.simps [of n prev "fst b" m])
    note e = this
    show ?thesis
    proof (cases "find (\<lambda>b. n \<le> snd b) (zs @ [(freep m, sf)])")
      case None
      with IH e False show ?thesis by simp
    next
      case (Some c)
      with IH obtain p where p: "p \<in> insert (fst b) (fst ` set zs)" "ptr_of p m = fst c"
        "malloc_loop n (fst b) (start zs (freep m)) m = Some (take_units p (fst c) n m)" by auto
      have f: "find (\<lambda>b. n \<le> snd b) ((b # zs) @ [(freep m, sf)]) = Some c" using Some False by simp
      have "p \<in> insert prev (fst ` set (b # zs))" using p(1) by simp
      then show ?thesis unfolding f option.case using p e by (intro bexI [of _ p] conjI) simp_all
    qed
  qed
qed

lemma malloc_loop_ring:
  assumes "kr m bs"
  shows "case find (\<lambda>b. n \<le> snd b) (ring_from (freep m) bs) of
      Some b \<Rightarrow> \<exists>p \<in> fst ` set bs. ptr_of p m = fst b \<and>
        malloc_loop n (freep m) (ptr_of (freep m) m) m = Some (take_units p (fst b) n m)
    | None \<Rightarrow> malloc_loop n (freep m) (ptr_of (freep m) m) m = Option.bind (morecore n m) (\<lambda>r.
        if fst r = 0 then Some (0, snd r) else malloc_loop n (fst r) (ptr_of (fst r) (snd r)) (snd r))"
proof -
  obtain zs sf where z: "ring_from (freep m) bs = zs @ [(freep m, sf)]"
    "linked (hd_at m) (zs @ [(freep m, sf)]) (ptr_of (freep m) m)" "ptr_of (freep m) m = start zs (freep m)"
    "distinct (map fst (zs @ [(freep m, sf)]))"
    using assms by (rule ring_chain)
  have "set (zs @ [(freep m, sf)]) = set bs"
    using ring_from_set [of "freep m" bs] z(1) assms by (auto simp: kr_def)
  then have "insert (freep m) (fst ` set zs) = fst ` set bs" by force
  with malloc_loop_scans [OF z(2,4,3), of n] show ?thesis
    unfolding z(1,3) by (simp only:)
qed

section \<open>More memory\<close>

definition keeps :: "nat set \<Rightarrow> umem \<Rightarrow> umem \<Rightarrow> bool" where
  "keeps A m m' \<longleftrightarrow> (\<forall>a. a \<notin> A \<longrightarrow> hd_at m' a = hd_at m a) \<and> base_at m' = base_at m \<and> brk m \<le> brk m'"

definition core_units :: "nat \<Rightarrow> nat" where "core_units n = (if n < 4096 then 4096 else n)"

lemma kr_grow:
  assumes "kr m bs" and "brk m \<le> x" and "x \<le> unat USERTOP" and "\<And>b. b \<in> fst ` set bs \<Longrightarrow> h b = hd_at m b"
  shows "kr (m\<lparr>hd_at := h, brk := x, grants := g\<rparr>) bs"
proof -
  obtain cs where cs: "bs = (base_at m, 0) # cs" "0 < base_at m" "spaced bs" "linked (hd_at m) bs (base_at m)"
    "freep m \<in> fst ` set bs" "\<forall>b\<in>set cs. 0 < snd b \<and> fst b + 8 * snd b \<le> brk m" "base_at m < brk m"
    using assms(1) by (rule krE)
  have "linked h bs (base_at m)" by (rule linked_cong [OF cs(4)]) (use assms(4) in blast)
  moreover have "\<forall>b\<in>set cs. 0 < snd b \<and> fst b + 8 * snd b \<le> x" using cs(6) assms(2) by (meson le_trans)
  ultimately show ?thesis using cs assms(2,3) unfolding kr_def by simp
qed

lemma morecore_grows:
  assumes "kr m bs" and "n < 2 ^ 28"
  obtains (refused) m' where "morecore n m = Some (0, m')" and "kr m' bs" and "keeps {} m m'" and "brk m' = brk m"
    | (grown) xs p s m' where "bs = xs @ [(p, s)]" and "morecore n m = Some (p, m')" and "freep m' = p"
      and "kr m' (xs @ glue_left (p, s) [(brk m, core_units n)])" and "keeps {p, brk m} m m'"
      and "brk m' = brk m + 8 * core_units n" and "0 < p"
proof -
  let ?u = "core_units n" and ?b = "brk m"
  note bd = kr_bounds [OF assms(1)]
  obtain cs where cs: "bs = (base_at m, 0) # cs" "0 < base_at m" "base_at m < ?b" "?b \<le> unat USERTOP"
    using assms(1) by (rule krE)
  have "?u * 8 < 2 ^ 31" using assms(2) by (simp add: core_units_def)
  then have w: "sint (word_of_nat (?u * 8) :: uint) = int (?u * 8)" by (rule sint_small)
  have pos: "0 < ?u" by (simp add: core_units_def)
  define g where "g = tl (grants m)"
  show thesis
  proof (cases "unat USERTOP < ?b + 8 * ?u \<or> grants m = [] \<or> \<not> hd (grants m)")
    case True
    have "morecore n m = Some (0, m\<lparr>grants := g\<rparr>)"
      using True pos unfolding morecore_def core_units_def [symmetric] Let_def w
      by (simp add: sbrk_def g_def mult.commute nat_mult_distrib)
    moreover have "kr (m\<lparr>grants := g\<rparr>) bs" using assms(1) by (simp add: kr_def)
    ultimately show thesis by (intro refused [of "m\<lparr>grants := g\<rparr>"]) (auto simp: keeps_def)
  next
    case False
    have "bs \<noteq> []" using cs(1) by simp
    then obtain xs c where xs: "bs = xs @ [c]" by (metis rev_exhaust)
    let ?h = "(hd_at m)(?b := (hd_at m ?b)\<lparr>h_size := ?u\<rparr>)"
    let ?m = "m\<lparr>hd_at := ?h, brk := ?b + 8 * ?u, grants := g\<rparr>"
    have nb: "fst b \<noteq> ?b" if "b \<in> set bs" for b using bd(3) [OF that] by simp
    have "kr ?m bs" by (rule kr_grow [OF assms(1)]) (use False nb in auto)
    then have k: "kr ?m (xs @ (fst c, snd c) # [])" by (simp add: xs)
    have "\<exists>m'. free (?b + 8) ?m = Some m' \<and> kr m' (released xs (fst c, snd c) [] (?b, ?u)) \<and> freep m' = fst c \<and>
        same_but {fst c, ?b} ?m m'"
      by (rule free_joins [OF k]) (use bd(2,3) [of c] pos xs in auto)
    then obtain m' where m': "free (?b + 8) ?m = Some m'" "kr m' (released xs (fst c, snd c) [] (?b, ?u))"
      "freep m' = fst c" "same_but {fst c, ?b} ?m m'" by blast
    have ss: "set_size ?b ?u (m\<lparr>brk := ?b + 8 * ?u, grants := g\<rparr>) = ?m" by (simp add: set_size_def)
    have mc: "morecore n m = Some (fst c, m')"
      using False pos m'(1,3) cs(4) unfolding morecore_def core_units_def [symmetric] Let_def w
      by (simp add: sbrk_def g_def [symmetric] mult.commute [of _ 8] padd_def ss nat_mult_distrib)
    show thesis
    proof (rule grown [of xs "fst c" "snd c" m'])
      show "keeps {fst c, ?b} m m'" "brk m' = ?b + 8 * ?u" using m'(4) by (auto simp: same_but_def keeps_def)
      show "0 < fst c" using bd(1) [of c] cs(2) xs by auto
    qed (use xs mc m' in \<open>auto simp: released_def glue_right_def\<close>)
  qed
qed


section \<open>What malloc does to the list\<close>

text \<open>The list after \<open>n\<close> units are taken from the end of the block between \<open>xs\<close> and \<open>ys\<close>.\<close>

definition carve :: "node list \<Rightarrow> node \<Rightarrow> node list \<Rightarrow> nat \<Rightarrow> node list" where
  "carve xs b ys n = xs @ (if snd b = n then [] else [(fst b, snd b - n)]) @ ys"

definition unit_at :: "node \<Rightarrow> nat \<Rightarrow> nat" where
  "unit_at b n = fst b + 8 * (snd b - n)"

text \<open>The state and the list that the search succeeds on: as they are, or after the process has grown.\<close>

definition grown_to :: "umem \<Rightarrow> node list \<Rightarrow> nat \<Rightarrow> umem \<Rightarrow> node list \<Rightarrow> bool" where
  "grown_to m bs n m1 bs1 \<longleftrightarrow> m1 = m \<and> bs1 = bs \<or>
    (\<forall>b\<in>set bs. snd b < n) \<and> keeps (insert (brk m) (fst ` set bs)) m m1 \<and> brk m1 = brk m + 8 * core_units n \<and>
    (\<exists>zs p. bs = zs @ [p] \<and> bs1 = zs @ glue_left p [(brk m, core_units n)])"

lemma malloc_loop_takes:
  assumes "kr m bs" and "0 < n" and "find (\<lambda>b. n \<le> snd b) (ring_from (freep m) bs) = Some b"
  obtains xs ys m' where "bs = xs @ b # ys" and "n \<le> snd b"
    and "malloc_loop n (freep m) (ptr_of (freep m) m) m = Some (unit_at b n + 8, m')"
    and "size_of (unit_at b n) m' = n" and "kr m' (carve xs b ys n)"
    and "keeps (insert (unit_at b n) (fst ` set bs)) m m'" and "brk m' = brk m"
proof -
  have fr: "freep m \<in> fst ` set bs" using assms(1) by (simp add: kr_def)
  from malloc_loop_ring [OF assms(1), of n] assms(3) obtain p where p: "p \<in> fst ` set bs" "ptr_of p m = fst b"
    "malloc_loop n (freep m) (ptr_of (freep m) m) m = Some (take_units p (fst b) n m)" by auto
  have b: "b \<in> set bs" "n \<le> snd b"
    using assms(3) ring_from_set [OF fr] by (auto simp: find_Some_iff)
  then obtain xs ys where xs: "bs = xs @ b # ys" by (meson split_list)
  then have bs: "bs = xs @ (fst b, snd b) # ys" by simp
  from take_units_takes [OF assms(1) [unfolded bs] assms(2) b(2) p(2) p(1) [unfolded bs]]
  obtain m' where m': "take_units p (fst b) n m = (unit_at b n + 8, m')" "size_of (unit_at b n) m' = n"
    "kr m' (carve xs b ys n)" "same_but {p, fst b, unit_at b n} m m'"
    unfolding carve_def unit_at_def by blast
  have "keeps (insert (unit_at b n) (fst ` set bs)) m m'" "brk m' = brk m"
    using m'(4) p(1) b(1) by (auto simp: keeps_def same_but_def)
  with xs b p(3) m' show thesis by (intro that [of xs ys m']) auto
qed

lemma malloc_loop_result:
  assumes "kr m bs" and "0 < n" and "n < 2 ^ 28"
  obtains (null) m' where "malloc_loop n (freep m) (ptr_of (freep m) m) m = Some (0, m')" and "kr m' bs"
      and "keeps {} m m'" and "brk m' = brk m" and "\<forall>b\<in>set bs. snd b < n"
    | (block) m1 bs1 xs b ys m' where "grown_to m bs n m1 bs1" and "kr m1 bs1" and "bs1 = xs @ b # ys"
      and "find (\<lambda>b. n \<le> snd b) (ring_from (freep m1) bs1) = Some b" and "n \<le> snd b"
      and "malloc_loop n (freep m) (ptr_of (freep m) m) m = Some (unit_at b n + 8, m')"
      and "size_of (unit_at b n) m' = n" and "kr m' (carve xs b ys n)"
      and "keeps (insert (unit_at b n) (fst ` set bs1)) m1 m'" and "brk m' = brk m1"
proof (cases "find (\<lambda>b. n \<le> snd b) (ring_from (freep m) bs)")
  case (Some b)
  from assms(1,2) Some obtain xs ys m' where r: "bs = xs @ b # ys" "n \<le> snd b"
    "malloc_loop n (freep m) (ptr_of (freep m) m) m = Some (unit_at b n + 8, m')"
    "size_of (unit_at b n) m' = n" "kr m' (carve xs b ys n)"
    "keeps (insert (unit_at b n) (fst ` set bs)) m m'" "brk m' = brk m"
    by (rule malloc_loop_takes)
  have "grown_to m bs n m bs" by (simp add: grown_to_def)
  then show thesis by (rule block [OF _ assms(1) r(1) Some r(2-7)])
next
  case None
  have fr: "freep m \<in> fst ` set bs" using assms(1) by (simp add: kr_def)
  have small: "\<forall>b\<in>set bs. snd b < n"
    using None ring_from_set [OF fr] by (auto simp: find_None_iff not_le)
  from malloc_loop_ring [OF assms(1), of n] None
  have loop: "malloc_loop n (freep m) (ptr_of (freep m) m) m = Option.bind (morecore n m) (\<lambda>r.
      if fst r = 0 then Some (0, snd r) else malloc_loop n (fst r) (ptr_of (fst r) (snd r)) (snd r))" by simp
  from assms(1,3) show thesis
  proof (cases rule: morecore_grows)
    case (refused m')
    with loop small show thesis by (intro null [of m']) auto
  next
    case (grown xs p s m1)
    let ?bs1 = "xs @ glue_left (p, s) [(brk m, core_units n)]"
    have g: "grown_to m bs n m1 ?bs1"
      using small grown unfolding grown_to_def by (auto simp: keeps_def)
    have fr1: "freep m1 \<in> fst ` set ?bs1" using grown(4) by (simp add: kr_def)
    have "\<exists>b\<in>set ?bs1. n \<le> snd b" by (auto simp: glue_left_def core_units_def)
    then have "find (\<lambda>b. n \<le> snd b) (ring_from (freep m1) ?bs1) \<noteq> None"
      unfolding find_None_iff ring_from_set [OF fr1] by blast
    then obtain b where b: "find (\<lambda>b. n \<le> snd b) (ring_from (freep m1) ?bs1) = Some b" by blast
    have "malloc_loop n (freep m) (ptr_of (freep m) m) m = malloc_loop n (freep m1) (ptr_of (freep m1) m1) m1"
      using loop grown(2,3,7) by simp
    note e = this
    from grown(4) assms(2) b obtain us ys m' where r: "?bs1 = us @ b # ys" "n \<le> snd b"
      "malloc_loop n (freep m1) (ptr_of (freep m1) m1) m1 = Some (unit_at b n + 8, m')"
      "size_of (unit_at b n) m' = n" "kr m' (carve us b ys n)"
      "keeps (insert (unit_at b n) (fst ` set ?bs1)) m1 m'" "brk m' = brk m1"
      by (rule malloc_loop_takes)
    show thesis by (rule block [OF g grown(4) r(1) b r(2) r(3) [folded e] r(4-7)])
  qed
qed


section \<open>The heap of a process\<close>

text \<open>Before the first call of \<open>malloc\<close> there is no list; the call makes the one of \<open>base\<close> alone.\<close>

definition heap :: "umem \<Rightarrow> node list \<Rightarrow> bool" where
  "heap m bs \<longleftrightarrow> kr m bs \<or>
    freep m = 0 \<and> bs = [(base_at m, 0)] \<and> 0 < base_at m \<and> base_at m < brk m \<and> brk m \<le> unat USERTOP"

lemma malloc_start:
  assumes "heap m bs"
  obtains m0 where "kr m0 bs" and "malloc n m = malloc_loop (units n) (freep m0) (ptr_of (freep m0) m0) m0"
    and "keeps {base_at m} m m0" and "brk m0 = brk m" and "freep m \<noteq> 0 \<Longrightarrow> m0 = m"
proof (cases "freep m = 0")
  case True
  have "\<not> kr m bs"
  proof
    assume k: "kr m bs"
    then have "freep m \<in> fst ` set bs" by (simp add: kr_def)
    with kr_bounds(1) [OF k] True k show False by (fastforce simp: kr_def)
  qed
  with assms have bs: "bs = [(base_at m, 0)]" "0 < base_at m" "base_at m < brk m" "brk m \<le> unat USERTOP"
    by (auto simp: heap_def)
  then have "kr (start_list m) bs" by (simp add: kr_def start_list_def set_ptr_def set_size_def)
  moreover have "keeps {base_at m} m (start_list m)" "brk (start_list m) = brk m"
    by (simp_all add: keeps_def start_list_def set_ptr_def set_size_def)
  ultimately show thesis using True by (intro that [of "start_list m"]) (simp_all add: malloc_def Let_def)
next
  case False
  with assms have "kr m bs" by (simp add: heap_def)
  with False show thesis by (intro that [of m]) (simp_all add: malloc_def keeps_def)
qed

lemma units_enough:
  assumes "0 < n" and "n \<le> 2 ^ 31 - 16"
  shows "1 < units n" and "units n < 2 ^ 28" and "n \<le> 8 * (units n - 1)" and "8 * (units n - 1) < n + 8"
proof -
  define d where "d = (n + 7) div 8"
  have u: "units n = d + 1" using assms(2) by (simp add: units_def d_def)
  have "8 * d + (n + 7) mod 8 = n + 7" "(n + 7) mod 8 < 8" by (simp_all add: d_def)
  then show "1 < units n" "units n < 2 ^ 28" "n \<le> 8 * (units n - 1)" "8 * (units n - 1) < n + 8"
    using assms unfolding u by auto
qed



lemma unit_in:
  assumes "n \<le> snd b"
  shows "fst b \<le> unit_at b n" and "unit_at b n + 8 * n = fst b + 8 * snd b"
  using assms by (auto simp: unit_at_def)

text \<open>
  Releasing the block that \<open>malloc\<close> returned last puts the list of the free blocks back as
  it was, when the process did not have to grow for it: what was cut off is joined again.
\<close>

theorem free_undoes_malloc:
  assumes "kr m bs" and "0 < nbytes" and "nbytes \<le> 2 ^ 31 - 16" and "malloc nbytes m = Some (p, m')" and "p \<noteq> 0"
    and "brk m' = brk m"
  shows "\<exists>m2. free p m' = Some m2 \<and> kr m2 bs"
proof -
  define n where "n = units nbytes"
  have h: "freep m \<noteq> 0" using assms(1) kr_bounds(1) [OF assms(1)] by (fastforce simp: kr_def)
  then have ml: "malloc nbytes m = malloc_loop n (freep m) (ptr_of (freep m) m) m"
    by (simp add: malloc_def n_def)
  have n: "0 < n" "n < 2 ^ 28" using units_enough [OF assms(2,3)] by (simp_all add: n_def)
  from assms(1) n show ?thesis
  proof (cases rule: malloc_loop_result)
    case (null m')
    with ml assms(4,5) show ?thesis by simp
  next
    case (block m1 bs1 xs b ys m1')
    have e: "p = unit_at b n + 8" "m1' = m'" using ml block(6) assms(4) by simp_all
    have "brk m1 \<noteq> brk m + 8 * core_units n" using block(10) e(2) assms(6) by (simp add: core_units_def)
    with block(1) have s: "m1 = m" "bs1 = bs" by (auto simp: grown_to_def)
    have bs: "bs = xs @ b # ys" using block(3) s(2) by simp
    note bd = kr_bounds [OF assms(1)]
    have sp: "spaced (xs @ b # ys)" using assms(1) bs by (auto simp: kr_def)
    have yb: "\<forall>c\<in>set ys. unit_at b n + 8 * n < fst c"
      using sp unit_in(2) [OF block(5)] by (auto simp: spaced_append)
    then have yb': "\<forall>c\<in>set ys. unit_at b n + 8 * n \<le> fst c" by (auto intro: less_imp_le)
    from yb have gr: "glue_right (unit_at b n, n) ys = (unit_at b n, n) # ys"
      by (cases ys) (auto simp: glue_right_def)
    have le: "unit_at b n + 8 * n \<le> brk m'" using bd(2) [of b] bs unit_in(2) [OF block(5)] assms(6) by simp
    show ?thesis
    proof (cases "snd b = n")
      case True
      have "\<exists>us u. xs = us @ [u]"
      proof -
        obtain cs where "xs @ b # ys = (base_at m, 0) # cs" using assms(1) unfolding bs by (rule krE)
        with True n show ?thesis by (cases xs rule: rev_cases) auto
      qed
      then obtain us u where u: "xs = us @ [u]" by blast
      have q: "unit_at b n = fst b" using True by (simp add: unit_at_def)
      have ub: "fst u + 8 * snd u < fst b" using sp by (simp add: u spaced_append)
      have uq: "fst u < unit_at b n" "fst u + 8 * snd u \<le> unit_at b n" using ub q by simp_all
      have k: "kr m' (us @ (fst u, snd u) # ys)" using block(8) True e(2) by (simp add: carve_def u)
      have rel: "released us (fst u, snd u) ys (unit_at b n, n) = bs"
        unfolding released_def q gr [unfolded q] using ub by (simp add: glue_left_def bs u True [symmetric])
      have "\<exists>m2. free (unit_at b n + 8) m' = Some m2 \<and> kr m2 (released us (fst u, snd u) ys (unit_at b n, n)) \<and>
          freep m2 = fst u \<and> same_but {fst u, unit_at b n} m' m2"
        by (rule free_joins [OF k block(7) [unfolded e(2)] n(1) uq yb' le])
      with rel e(1) show ?thesis by auto
    next
      case False
      have lt: "n < snd b" using False block(5) by simp
      have k: "kr m' (xs @ (fst b, snd b - n) # ys)" using block(8) False e(2) by (simp add: carve_def)
      have q: "fst b + 8 * (snd b - n) = unit_at b n" "fst b < unit_at b n" using lt by (simp_all add: unit_at_def)
      have rel: "released xs (fst b, snd b - n) ys (unit_at b n, n) = bs"
        using lt q by (simp add: released_def gr glue_left_def bs)
      have "\<exists>m2. free (unit_at b n + 8) m' = Some m2 \<and>
          kr m2 (released xs (fst b, snd b - n) ys (unit_at b n, n)) \<and> freep m2 = fst b \<and>
          same_but {fst b, unit_at b n} m' m2"
        by (rule free_joins [OF k block(7) [unfolded e(2)] n(1) q(2) _ yb' le]) (use q(1) in simp)
      with rel e(1) show ?thesis by auto
    qed
  qed
qed

text \<open>
  A request of one of the 7 greatest sizes wraps: \<open>malloc\<close> answers it with a header and no
  bytes behind it.
\<close>

theorem malloc_size_wraps:
  assumes "kr m bs" and "c \<in> set bs" and "0 < snd c" and "2 ^ 32 - 8 < nbytes" and "nbytes < 2 ^ 32"
  shows "\<exists>xs b ys m'. malloc nbytes m = Some (unit_at b 1 + 8, m') \<and> bs = xs @ b # ys \<and> kr m' (carve xs b ys 1)"
proof -
  have "(nbytes + 8 - 1) mod 2 ^ 32 = nbytes + 7 - 2 ^ 32"
    using assms(4,5) by (subst le_mod_geq) auto
  moreover have "(nbytes + 7 - 2 ^ 32) div 8 = 0" using assms(5) by simp
  ultimately have u: "units nbytes = 1" unfolding units_def by simp
  have h: "freep m \<noteq> 0" using assms(1) kr_bounds(1) [OF assms(1)] by (fastforce simp: kr_def)
  have fr: "freep m \<in> fst ` set bs" using assms(1) by (simp add: kr_def)
  have "find (\<lambda>b. 1 \<le> snd b) (ring_from (freep m) bs) \<noteq> None"
    unfolding find_None_iff ring_from_set [OF fr] using assms(2,3) by (metis One_nat_def Suc_leI)
  then obtain b where "find (\<lambda>b. 1 \<le> snd b) (ring_from (freep m) bs) = Some b" by blast
  from malloc_loop_takes [OF assms(1) zero_less_one this] obtain xs ys m' where
    "bs = xs @ b # ys" "malloc_loop 1 (freep m) (ptr_of (freep m) m) m = Some (unit_at b 1 + 8, m')"
    "kr m' (carve xs b ys 1)" by blast
  moreover have "malloc nbytes m = malloc_loop 1 (freep m) (ptr_of (freep m) m) m"
    using h by (simp add: malloc_def u)
  ultimately show ?thesis by (intro exI [of _ xs] exI [of _ b] exI [of _ ys] exI [of _ m'] conjI) simp_all
qed

text \<open>
  The page that \<open>thread_create\<close> gives a new thread for its stack is a whole page inside the
  two pages it has allocated, wherever these start.
\<close>

theorem thread_stack_inside:
  assumes "stack + 2 * 4096 \<le> 2 ^ 32"
  shows "4096 dvd unat (stack_page stack) \<and> stack \<le> unat (stack_page stack) \<and>
    unat (stack_page stack) + 4096 \<le> stack + 2 * 4096"
proof -
  define q r where "q = stack div 4096" and "r = stack mod 4096"
  have s: "stack = 4096 * q + r" "r < 4096" by (simp_all add: q_def r_def)
  have "and (word_of_nat stack) (0xFFFFF000 :: uint) = PGROUNDDOWN (word_of_nat stack)"
  proof -
    have "(0xFFFFF000 :: uint) + 4096 = 0" by simp
    then have "(0xFFFFF000 :: uint) = - 4096" by (simp only: eq_neg_iff_add_eq_0)
    then show ?thesis by (simp only: PGROUNDDOWN_def) simp
  qed
  moreover have "unat (word_of_nat stack :: uint) = stack" using assms by (simp add: unat_of_nat)
  ultimately have "unat (and (word_of_nat stack) (0xFFFFF000 :: uint)) = 4096 * q"
    by (simp add: unat_PGROUNDDOWN q_def mult.commute)
  then have "unat (stack_page stack) = 4096 * q + 4096"
    using assms s by (simp add: stack_page_def unat_word_ariths)
  with s show ?thesis by simp
qed


section \<open>A client of the allocator\<close>

text \<open>
  The allocator keeps no record of the blocks in use; the state is paired with the set of the blocks
  that are handed out, by the addresses of their headers and their units.
\<close>

definition apart :: "nat \<Rightarrow> nat \<Rightarrow> node list \<Rightarrow> bool" where
  "apart a n bs \<longleftrightarrow> (\<forall>c\<in>set bs. fst c + 8 * snd c \<le> a \<or> a + 8 * n \<le> fst c)"

definition lent_ok :: "umem \<Rightarrow> node list \<Rightarrow> node \<Rightarrow> bool" where
  "lent_ok m bs b \<longleftrightarrow> size_of (fst b) m = snd b \<and> 1 < snd b \<and> base_at m < fst b \<and>
    fst b + 8 * snd b \<le> brk m \<and> apart (fst b) (snd b) bs"

definition is_heap :: "umem \<times> node set \<Rightarrow> bool" where
  "is_heap s \<longleftrightarrow> (freep (fst s) = 0 \<longrightarrow> snd s = {}) \<and>
    (\<exists>bs. heap (fst s) bs \<and> (\<forall>b\<in>snd s. lent_ok (fst s) bs b)) \<and>
    (\<forall>b\<in>snd s. \<forall>c\<in>snd s. b \<noteq> c \<longrightarrow> fst b + 8 * snd b \<le> fst c \<or> fst c + 8 * snd c \<le> fst b)"

definition user_block :: "node \<Rightarrow> nat \<times> nat" where
  "user_block b = (fst b + 8, 8 * (snd b - 1))"

definition lent_malloc :: "nat \<Rightarrow> umem \<times> node set \<Rightarrow> (nat \<times> umem \<times> node set) option" where
  "lent_malloc nbytes s = map_option (\<lambda>(p, m').
    (p, m', if p = 0 then snd s else insert (p - 8, size_of (p - 8) m') (snd s))) (malloc nbytes (fst s))"

definition lent_free :: "nat \<Rightarrow> umem \<times> node set \<Rightarrow> (umem \<times> node set) option" where
  "lent_free p s = map_option (\<lambda>m'. (m', {b \<in> snd s. fst b + 8 \<noteq> p})) (free p (fst s))"

lemma apart_simps [simp]:
  "apart a n []" "apart a n (c # bs) \<longleftrightarrow> (fst c + 8 * snd c \<le> a \<or> a + 8 * n \<le> fst c) \<and> apart a n bs"
  "apart a n (xs @ ys) \<longleftrightarrow> apart a n xs \<and> apart a n ys"
  by (auto simp: apart_def)

lemma apart_node:
  assumes "kr m bs" and "apart a n bs" and "0 < n" and "base_at m < a" and "c \<in> set bs"
  shows "fst c \<noteq> a"
  using kr_bounds(5) [OF assms(1,5)] assms(2-5) by (fastforce simp: apart_def)

lemma apart_grown:
  assumes "grown_to m bs k m1 bs1" and "apart a n bs" and "a + 8 * n \<le> brk m" and "0 < n"
  shows "apart a n bs1"
  using assms(1) unfolding grown_to_def
proof (elim disjE conjE exE)
  fix zs p
  assume "bs = zs @ [p]" "bs1 = zs @ glue_left p [(brk m, core_units k)]"
  with assms(2-4) show ?thesis by (auto simp: glue_left_def)
qed (use assms(2) in simp)

lemma apart_carve: "apart a n (xs @ b # ys) \<Longrightarrow> apart a n (carve xs b ys k)"
  by (auto simp: carve_def)

lemma lent_ok_kept:
  assumes "lent_ok m bs c" and "kr m bs" and "keeps A m m'" and "A \<subseteq> insert x (fst ` set bs)" and "x \<noteq> fst c"
    and "apart (fst c) (snd c) bs'"
  shows "lent_ok m' bs' c"
proof -
  have "fst c \<notin> A"
    using assms(4,5) apart_node [OF assms(2), of "fst c" "snd c"] assms(1) by (force simp: lent_ok_def)
  with assms show ?thesis by (auto simp: lent_ok_def keeps_def)
qed

lemma carved_apart:
  assumes "kr m (xs @ b # ys)" and "n \<le> snd b" and "0 < n"
  shows "apart (unit_at b n) n (carve xs b ys n)" and "base_at m < unit_at b n" and "unit_at b n + 8 * n \<le> brk m"
proof -
  have sp: "spaced (xs @ b # ys)" using assms(1) by (auto simp: kr_def)
  note u = unit_in [OF assms(2)]
  show "apart (unit_at b n) n (carve xs b ys n)"
    using sp u by (fastforce simp: carve_def apart_def spaced_append unit_at_def)
  have b: "b \<in> set (xs @ b # ys)" by simp
  show "base_at m < unit_at b n" "unit_at b n + 8 * n \<le> brk m"
    using kr_bounds(2,5) [OF assms(1) b] u assms(2,3) by auto
qed

lemma is_heapI:
  assumes "kr m bs" and "\<And>b. b \<in> G \<Longrightarrow> lent_ok m bs b"
    and "\<And>b c. b \<in> G \<Longrightarrow> c \<in> G \<Longrightarrow> b \<noteq> c \<Longrightarrow> fst b + 8 * snd b \<le> fst c \<or> fst c + 8 * snd c \<le> fst b"
  shows "is_heap (m, G)"
proof -
  have "freep m \<noteq> 0" using assms(1) kr_bounds(1) [OF assms(1)] by (fastforce simp: kr_def)
  with assms show ?thesis unfolding is_heap_def heap_def by (intro conjI exI [of _ bs]) auto
qed

lemma lent_malloc_step:
  assumes "is_heap (m, G)" and "0 < n" and "n \<le> 2 ^ 31 - 16" and "malloc n m = Some (p, m')"
  shows "p = 0 \<and> is_heap (m', G) \<or> p \<noteq> 0 \<and> is_heap (m', insert (p - 8, size_of (p - 8) m') G) \<and>
    n \<le> 8 * (size_of (p - 8) m' - 1) \<and> 8 \<le> p \<and> (\<forall>b\<in>G. fst b \<noteq> p - 8)"
proof -
  obtain bs where bs: "heap m bs" "\<forall>b\<in>G. lent_ok m bs b" "freep m = 0 \<longrightarrow> G = {}"
    "\<forall>b\<in>G. \<forall>c\<in>G. b \<noteq> c \<longrightarrow> fst b + 8 * snd b \<le> fst c \<or> fst c + 8 * snd c \<le> fst b"
    using assms(1) by (auto simp: is_heap_def)
  obtain m0 where m0: "kr m0 bs" "malloc n m = malloc_loop (units n) (freep m0) (ptr_of (freep m0) m0) m0"
    "freep m \<noteq> 0 \<longrightarrow> m0 = m" using malloc_start [OF bs(1), of n] by metis
  have l0: "\<forall>b\<in>G. lent_ok m0 bs b" using bs(2,3) m0(3) by (cases "freep m = 0") auto
  note u = units_enough [OF assms(2,3)]
  have n: "0 < units n" using u by simp
  from m0(1) n u(2) show ?thesis
  proof (cases rule: malloc_loop_result)
    case (null m1)
    with m0(2) assms(4) have e: "p = 0" "m1 = m'" by simp_all
    have "\<forall>b\<in>G. lent_ok m' bs b"
      using l0 null(3) e(2) null(4) by (auto simp: lent_ok_def keeps_def)
    with null(2) e bs(4) have "is_heap (m', G)" by (intro is_heapI [of _ bs]) auto
    with e show ?thesis by simp
  next
    case (block m1 bs1 xs b ys m2)
    let ?q = "unit_at b (units n)" and ?n = "units n"
    have e: "p = ?q + 8" "m2 = m'" using m0(2) assms(4) block(6) by simp_all
    have b1: "kr m1 (xs @ b # ys)" using block(2,3) by simp
    note ca = carved_apart [OF b1 block(5) n]
    have ap1: "apart (fst c) (snd c) bs1" if "c \<in> G" for c
      by (rule apart_grown [OF block(1)]) (use l0 that in \<open>auto simp: lent_ok_def\<close>)
    have off: "fst c + 8 * snd c \<le> ?q \<or> ?q + 8 * ?n \<le> fst c" if "c \<in> G" for c
      using ap1 [OF that] unit_in [OF block(5)] by (auto simp: block(3))
    have ne: "fst c \<noteq> ?q" if "c \<in> G" for c
      using off [OF that] l0 that n by (fastforce simp: lent_ok_def)
    have l1: "lent_ok m1 bs1 c" if "c \<in> G" for c
    proof -
      have c: "lent_ok m0 bs c" using l0 that by simp
      from block(1) show ?thesis unfolding grown_to_def
      proof (elim disjE conjE)
        assume k: "keeps (insert (brk m0) (fst ` set bs)) m0 m1"
        have "brk m0 \<noteq> fst c" using c by (auto simp: lent_ok_def)
        with ap1 [OF that] show ?thesis by (intro lent_ok_kept [OF c m0(1) k]) auto
      qed (use c in simp)
    qed
    have l2: "lent_ok m' (carve xs b ys ?n) c" if "c \<in> G" for c
    proof -
      have "apart (fst c) (snd c) (carve xs b ys ?n)"
        by (rule apart_carve) (use ap1 [OF that] block(3) in simp)
      with ne [OF that] show ?thesis
        using block(9) unfolding e(2) by (intro lent_ok_kept [OF l1 [OF that] block(2)]) auto
    qed
    have lb: "lent_ok m' (carve xs b ys ?n) (?q, ?n)"
      using ca u(1) block(7,9,10) unfolding e(2) by (auto simp: lent_ok_def keeps_def)
    have sz: "size_of (p - 8) m' = ?n" "p - 8 = ?q" using block(7) e by simp_all
    have "is_heap (m', insert (?q, ?n) G)"
    proof (rule is_heapI)
      show "kr m' (carve xs b ys ?n)" using block(8) e(2) by simp
      show "lent_ok m' (carve xs b ys ?n) c" if "c \<in> insert (?q, ?n) G" for c
        using that l2 lb by blast
      show "fst c + 8 * snd c \<le> fst d \<or> fst d + 8 * snd d \<le> fst c"
        if "c \<in> insert (?q, ?n) G" "d \<in> insert (?q, ?n) G" "c \<noteq> d" for c d
      proof (cases "c \<in> G \<and> d \<in> G")
        case True
        with bs(4) that(3) show ?thesis by blast
      next
        case False
        with that off [of c] off [of d] show ?thesis by auto
      qed
    qed
    with sz e(1) u(3) ne show ?thesis by simp
  qed
qed


lemma lent_free_step:
  assumes "is_heap (m, G)" and "b \<in> G"
  shows "\<exists>m'. free (fst b + 8) m = Some m' \<and> is_heap (m', {c \<in> G. fst c \<noteq> fst b})"
proof -
  obtain bs where bs: "heap m bs" "\<forall>c\<in>G. lent_ok m bs c" "freep m = 0 \<longrightarrow> G = {}"
    "\<forall>b\<in>G. \<forall>c\<in>G. b \<noteq> c \<longrightarrow> fst b + 8 * snd b \<le> fst c \<or> fst c + 8 * snd c \<le> fst b"
    using assms(1) by (auto simp: is_heap_def)
  have k: "kr m bs" using bs(1,3) assms(2) by (auto simp: heap_def)
  have b: "size_of (fst b) m = snd b" "0 < snd b" "base_at m < fst b" "fst b + 8 * snd b \<le> brk m"
    "apart (fst b) (snd b) bs"
    using bs(2) assms(2) by (auto simp: lent_ok_def)
  obtain xs p s ys where p: "bs = xs @ (p, s) # ys" "p < fst b" "p + 8 * s \<le> fst b"
    "\<forall>c\<in>set ys. fst b + 8 * snd b \<le> fst c"
    using place_exists [OF k b(3,2)] b(5) unfolding apart_def by blast
  from free_joins [OF k [unfolded p(1)] b(1,2) p(2-4) b(4)] obtain m' where m': "free (fst b + 8) m = Some m'"
    "kr m' (released xs (p, s) ys (fst b, snd b))" "same_but {p, fst b} m m'" by blast
  have keep: "keeps {p, fst b} m m'" using m'(3) by (auto simp: same_but_def keeps_def)
  have "is_heap (m', {c \<in> G. fst c \<noteq> fst b})"
  proof (rule is_heapI [OF m'(2)])
    fix c assume c: "c \<in> {c \<in> G. fst c \<noteq> fst b}"
    then have lc: "lent_ok m bs c" using bs(2) by simp
    have "c \<noteq> b" using c by auto
    with bs(4) c assms(2) have "fst c + 8 * snd c \<le> fst b \<or> fst b + 8 * snd b \<le> fst c" by blast
    with lc b(2) have "apart (fst c) (snd c) (released xs (p, s) ys (fst b, snd b))"
      unfolding released_def p(1)
      by (auto simp: glue_left_def glue_right_def lent_ok_def split: list.splits)
    with c show "lent_ok m' (released xs (p, s) ys (fst b, snd b)) c"
      by (intro lent_ok_kept [OF lc k keep, where x = "fst b"]) (auto simp: p(1))
  qed (use bs(4) in auto)
  with m'(1) show ?thesis by blast
qed

interpretation um: block_allocator is_heap "\<lambda>s. user_block ` snd s" "2 ^ 31 - 16" lent_malloc lent_free
proof
  fix s n p s'
  assume a: "is_heap s" "0 < n" "n \<le> 2 ^ 31 - 16" "lent_malloc n s = Some (p, s')" "p \<noteq> (0 :: nat)"
  obtain m G where s: "s = (m, G)" by (cases s)
  from a(4) s obtain m' where m': "malloc n m = Some (p, m')" "s' = (m', insert (p - 8, size_of (p - 8) m') G)"
    using a(5) by (auto simp: lent_malloc_def)
  let ?k = "8 * (size_of (p - 8) m' - 1)"
  from lent_malloc_step [OF a(1) [unfolded s] a(2,3) m'(1)] a(5)
  have r: "is_heap s'" "n \<le> ?k" "8 \<le> p" "\<forall>b\<in>G. fst b \<noteq> p - 8" using m'(2) by auto
  have "(p, ?k) \<notin> user_block ` G" using r(3,4) by (auto simp: user_block_def)
  moreover have "user_block ` snd s' = insert (p, ?k) (user_block ` G)"
    using m'(2) r(3) by (simp add: user_block_def)
  ultimately show "is_heap s' \<and> (\<exists>k. n \<le> k \<and> (p, k) \<notin> user_block ` snd s \<and>
      user_block ` snd s' = insert (p, k) (user_block ` snd s))"
    using r(1,2) by (auto simp: s)
next
  fix s n s'
  assume a: "is_heap s" "0 < n" "n \<le> 2 ^ 31 - 16" "lent_malloc n s = Some (0 :: nat, s')"
  obtain m G where s: "s = (m, G)" by (cases s)
  from a(4) s obtain m' where m': "malloc n m = Some (0, m')" "s' = (m', G)"
    by (auto simp: lent_malloc_def)
  from lent_malloc_step [OF a(1) [unfolded s] a(2,3) m'(1)] m'(2)
  show "is_heap s' \<and> user_block ` snd s' = user_block ` snd s" by (simp add: s)
next
  fix s p k s'
  assume a: "is_heap s" "(p, k) \<in> user_block ` snd s" "lent_free p s = Some s'"
  obtain m G where s: "s = (m, G)" by (cases s)
  obtain b where b: "b \<in> G" "p = fst b + 8" "k = 8 * (snd b - 1)" using a(2) s by (auto simp: user_block_def)
  from lent_free_step [OF a(1) [unfolded s] b(1)] obtain m' where m': "free p m = Some m'"
    "is_heap (m', {c \<in> G. fst c \<noteq> fst b})" using b(2) by blast
  have s': "s' = (m', {c \<in> G. fst c \<noteq> fst b})" using a(3) m'(1) b(2) by (simp add: s lent_free_def)
  have "c = b" if "c \<in> G" "fst c = fst b" for c
    using a(1) that b(1) unfolding s is_heap_def by (fastforce simp: lent_ok_def)
  then have "user_block ` {c \<in> G. fst c \<noteq> fst b} = user_block ` G - {(p, k)}"
    using b by (auto simp: user_block_def)
  with m'(2) s' show "is_heap s' \<and> user_block ` snd s' = user_block ` snd s - {(p, k)}" by (simp add: s)
next
  fix s p k q l
  assume a: "is_heap s" "(p, k) \<in> user_block ` snd s" "(q, l) \<in> user_block ` snd s" "(p, k) \<noteq> (q, l)"
  then obtain b c where b: "b \<in> snd s" "c \<in> snd s" "(p, k) = user_block b" "(q, l) = user_block c" by auto
  with a(4) have "b \<noteq> c" by auto
  with a(1) b(1,2) have "fst b + 8 * snd b \<le> fst c \<or> fst c + 8 * snd c \<le> fst b" "0 < snd b" "0 < snd c"
    unfolding is_heap_def lent_ok_def by force+
  with b(3,4) show "p + k \<le> q \<or> q + l \<le> p" by (auto simp: user_block_def)
qed


section \<open>A process that starts\<close>

definition newborn :: umem where
  "newborn = \<lparr>hd_at = (\<lambda>_. \<lparr>h_ptr = 0, h_size = 0\<rparr>), base_at = 0x2000, freep = 0, brk = 0x4000, grants = [True]\<rparr>"

definition warm :: umem where
  "warm = \<lparr>hd_at = (\<lambda>_. \<lparr>h_ptr = 0, h_size = 0\<rparr>)(0x2000 := \<lparr>h_ptr = 0x4000, h_size = 0\<rparr>,
      0x4000 := \<lparr>h_ptr = 0x2000, h_size = 4096\<rparr>),
    base_at = 0x2000, freep = 0x2000, brk = 0xC000, grants = []\<rparr>"

lemma warm: "kr warm [(0x2000, 0), (0x4000, 4096)]"
  by (simp add: kr_def warm_def)

lemma newborn: "heap newborn [(0x2000, 0)]"
  by (simp add: heap_def newborn_def)

lemma warm_malloc: "\<exists>m. malloc 100 warm = Some (0xBF98, m) \<and> brk m = brk warm"
  by (simp add: malloc_def units_def warm_def malloc_loop.simps [of 14] take_units_def Let_def set_size_def padd_def)


lemma free_undoes_malloc_witness:
  "\<exists>m m2. malloc 100 warm = Some (0xBF98, m) \<and> free 0xBF98 m = Some m2 \<and> kr m2 [(0x2000, 0), (0x4000, 4096)]"
proof -
  obtain m where m: "malloc 100 warm = Some (0xBF98, m)" "brk m = brk warm" using warm_malloc by blast
  with free_undoes_malloc [OF warm, of 100 "0xBF98" m] show ?thesis by auto
qed

lemma malloc_size_wraps_witness:
  "\<exists>b m. malloc (2 ^ 32 - 1) warm = Some (unit_at b 1 + 8, m)"
  using malloc_size_wraps [OF warm, of "(0x4000, 4096)" "2 ^ 32 - 1"] by auto

lemma thread_stack_inside_witness: "unat (stack_page 0xBF98) + 4096 \<le> 0xBF98 + 2 * 4096"
  using thread_stack_inside [of "0xBF98"] by simp


end
