(* ===== verification/Mkfs.thy ===== *)
theory Mkfs
  imports Icache FsAlloc
begin

text \<open>
  The program that makes the file system image, \<^verbatim>\<open>tools/mkfs.c\<close>: the image file as its sectors, the
  counters of the next free block and inode, and the copy of a directory of the host with everything
  in it.  The kernel's layout of inodes, directory entries and bitmaps (\<open>put_inode\<close>, \<open>load32\<close>,
  \<open>bit_take\<close>) is the intel byte order that \<open>xint\<close> and \<open>xshort\<close> bring about on any host, so the
  numbers appear here as they are meant.  The counters do not come near \<open>2\<^sup>3\<^sup>2\<close>: the image has 1024
  sectors, and reading behind its end fails.
\<close>

unbundle bit_operations_syntax

section \<open>State\<close>

text \<open>
  What the program finds in the directory of the host, in the order of \<open>readdir_r\<close>: a file as the
  pieces that \<open>read\<close> delivers, a directory, or an entry that cannot be opened.
\<close>

datatype host = HFile "byte list list" | HDir "(byte list \<times> host) list" | HBad

record fsimg =
  img :: "nat \<Rightarrow> bmem"
  img_len :: nat
  freeblock :: nat
  usedblocks :: nat
  freeinode :: nat

text \<open>A failed assertion, an \<open>exit\<close> after a failed call, and the result \<open>-1\<close> of \<open>add_dir\<close>.\<close>

datatype mkfs_err = Assert | Exit | Refused

definition nblocks :: nat where "nblocks = 995"
definition ninodes :: nat where "ninodes = 200"
definition sectors :: nat where "sectors = 1024"

definition no_inode :: inode where
  "no_inode = \<lparr>i_dev = 0, i_inum = 0, i_ref = 0, i_busy = False, i_valid = False, i_type = 0, i_major = 0,
     i_minor = 0, i_nlink = 0, i_size = 0, i_addrs = (\<lambda>_. 0)\<rparr>"

section \<open>Sectors and inodes\<close>

definition wsect :: "nat \<Rightarrow> bmem \<Rightarrow> fsimg \<Rightarrow> fsimg" where
  "wsect sec buf m = m\<lparr>img := (\<lambda>n. if n = sec then buf else if img_len m \<le> n \<and> n < sec then (\<lambda>_. 0) else img m n),
     img_len := max (img_len m) (sec + 1)\<rparr>"

definition rsect :: "nat \<Rightarrow> fsimg \<Rightarrow> mkfs_err + bmem" where
  "rsect sec m = (if sec < img_len m then Inr (img m sec) else Inl Exit)"

definition i2b :: "nat \<Rightarrow> nat" where "i2b inum = inum div IPB + 2"

definition islot :: "nat \<Rightarrow> nat" where "islot inum = DINODE * (inum mod IPB)"

definition winode :: "nat \<Rightarrow> inode \<Rightarrow> fsimg \<Rightarrow> mkfs_err + fsimg" where
  "winode inum ip m = bindR (rsect (i2b inum) m) (\<lambda>buf.
     Inr (wsect (i2b inum) (put_inode ip (islot inum) buf) m))"

definition rinode :: "nat \<Rightarrow> fsimg \<Rightarrow> mkfs_err + inode" where
  "rinode inum m = bindR (rsect (i2b inum) m) (\<lambda>buf. Inr (get_inode buf (islot inum) no_inode))"

definition mk_ialloc :: "16 word \<Rightarrow> fsimg \<Rightarrow> mkfs_err + (nat \<times> fsimg)" where
  "mk_ialloc ty m = (let inum = freeinode m; m = m\<lparr>freeinode := inum + 1\<rparr> in
     bindR (winode inum (no_inode\<lparr>i_type := ty, i_nlink := 1, i_size := 0\<rparr>) m) (\<lambda>m. Inr (inum, m)))"

definition mk_balloc :: "nat \<Rightarrow> fsimg \<Rightarrow> mkfs_err + fsimg" where
  "mk_balloc used m =
     (if \<not> used < 512 * 8 then Inl Assert
      else Inr (wsect (ninodes div IPB + 3) (fold bit_take [0 ..< used] (\<lambda>_. 0)) m))"

section \<open>Appending to a file\<close>

definition next_block :: "fsimg \<Rightarrow> nat \<times> fsimg" where
  "next_block m = (freeblock m, m\<lparr>freeblock := freeblock m + 1, usedblocks := usedblocks m + 1\<rparr>)"

definition set_addr :: "nat \<Rightarrow> nat \<Rightarrow> inode \<Rightarrow> inode" where
  "set_addr k b din = din\<lparr>i_addrs := (i_addrs din)(k := of_nat b)\<rparr>"

text \<open>The block of the file that position \<open>fbn\<close> is in, allocated when there is none.\<close>

definition file_sector :: "nat \<Rightarrow> inode \<Rightarrow> fsimg \<Rightarrow> mkfs_err + (nat \<times> inode \<times> fsimg)" where
  "file_sector fbn din m =
     (if fbn < NDIRECT then
        (let (din, m) = (if i_addrs din fbn = 0 then (let (b, m) = next_block m in (set_addr fbn b din, m)) else (din, m))
         in Inr (unat (i_addrs din fbn), din, m))
      else
        (let (din, m) = (if i_addrs din NDIRECT = 0 then (let (b, m) = next_block m in (set_addr NDIRECT b din, m))
           else (din, m))
         in bindR (rsect (unat (i_addrs din NDIRECT)) m) (\<lambda>indirect.
            let (indirect, m) = (if load32 indirect (4 * (fbn - NDIRECT)) = 0 then
                let (b, m) = next_block m; indirect = store32 indirect (4 * (fbn - NDIRECT)) (of_nat b)
                in (indirect, wsect (unat (i_addrs din NDIRECT)) indirect m)
              else (indirect, m))
            in Inr (unat (load32 indirect (4 * (fbn - NDIRECT))), din, m))))"

definition bcopy :: "byte list \<Rightarrow> nat \<Rightarrow> bmem \<Rightarrow> bmem" where
  "bcopy p a m = (\<lambda>i. if a \<le> i \<and> i < a + length p then p ! (i - a) else m i)"

function iappend_loop :: "byte list \<Rightarrow> nat \<Rightarrow> inode \<Rightarrow> fsimg \<Rightarrow> mkfs_err + (nat \<times> inode \<times> fsimg)" where
  "iappend_loop p off din m =
     (if p = [] then Inr (off, din, m)
      else let fbn = off div 512 in
        if \<not> fbn < MAXFILE then Inl Assert
        else bindR (file_sector fbn din m) (\<lambda>(x, din, m).
          let n1 = min (length p) ((fbn + 1) * 512 - off) in
          bindR (rsect x m) (\<lambda>buf.
          iappend_loop (drop n1 p) (off + n1) din (wsect x (bcopy (take n1 p) (off - fbn * 512) buf) m))))"
  by pat_completeness auto

termination
proof (relation "measure (\<lambda>(p, _). length p)")
  fix p :: "byte list" and off fbn n1 x :: nat
  assume "p \<noteq> []" and "fbn = off div 512" and "n1 = min (length p) ((fbn + 1) * 512 - off)"
  moreover have "off < (off div 512 + 1) * 512" using dividend_less_div_times [of 512 off] by simp
  ultimately show "((drop n1 p, d), p, e) \<in> measure (\<lambda>(p, _). length p)" for d e by auto
qed simp

declare iappend_loop.simps [simp del]

definition iappend :: "nat \<Rightarrow> byte list \<Rightarrow> fsimg \<Rightarrow> mkfs_err + fsimg" where
  "iappend inum p m = bindR (rinode inum m) (\<lambda>din.
     bindR (iappend_loop p (unat (i_size din)) din m) (\<lambda>(off, din, m).
     winode inum (din\<lparr>i_size := of_nat off\<rparr>) m))"

section \<open>Directories\<close>

definition dirent :: "nat \<Rightarrow> byte list \<Rightarrow> byte list" where
  "dirent inum name = [of_nat (inum mod 256), of_nat (inum div 256 mod 256)] @
     take DIRSIZ (name @ replicate DIRSIZ 0)"

fun append_all :: "nat \<Rightarrow> byte list list \<Rightarrow> fsimg \<Rightarrow> mkfs_err + fsimg" where
  "append_all inum [] m = Inr m"
| "append_all inum (buf # chunks) m = bindR (iappend inum buf m) (append_all inum chunks)"

text \<open>The last lines of \<open>add_dir\<close>: the size of a directory becomes that of whole blocks.\<close>

definition fix_size :: "nat \<Rightarrow> fsimg \<Rightarrow> mkfs_err + fsimg" where
  "fix_size inum m = bindR (rinode inum m) (\<lambda>din.
     winode inum (din\<lparr>i_size := (i_size din div of_nat BSIZE + 1) * of_nat BSIZE\<rparr>) m)"

definition add_dots :: "nat \<Rightarrow> nat \<Rightarrow> fsimg \<Rightarrow> mkfs_err + fsimg" where
  "add_dots cur_inode parent_inode m = bindR (iappend cur_inode (dirent cur_inode [46]) m)
     (iappend cur_inode (dirent parent_inode [46, 46]))"

fun add_child :: "nat \<Rightarrow> byte list \<Rightarrow> host \<Rightarrow> fsimg \<Rightarrow> mkfs_err + fsimg"
  and add_children :: "nat \<Rightarrow> (byte list \<times> host) list \<Rightarrow> fsimg \<Rightarrow> mkfs_err + fsimg" where
  "add_child cur_inode name (HFile chunks) m = bindR (mk_ialloc T_FILE m) (\<lambda>(child_inode, m).
     bindR (append_all child_inode chunks m) (iappend cur_inode (dirent child_inode name)))"
| "add_child cur_inode name (HDir es) m = bindR (mk_ialloc T_DIR m) (\<lambda>(child_inode, m).
     bindR (add_dots child_inode cur_inode m) (\<lambda>m.
     bindR (add_children child_inode es m) (\<lambda>m.
     bindR (fix_size child_inode m) (iappend cur_inode (dirent child_inode name)))))"
| "add_child cur_inode name HBad m = Inl Refused"
| "add_children cur_inode [] m = Inr m"
| "add_children cur_inode (e # es) m =
     bindR (if fst e = [46] \<or> fst e = [46, 46] then Inr m else add_child cur_inode (fst e) (snd e) m)
       (add_children cur_inode es)"

text \<open>\<open>add_dir\<close>; the directory of the host is \<open>None\<close> when it could not be opened.\<close>

definition add_dir :: "(byte list \<times> host) list option \<Rightarrow> nat \<Rightarrow> nat \<Rightarrow> fsimg \<Rightarrow> mkfs_err + fsimg" where
  "add_dir cur_dir cur_inode parent_inode m = bindR (add_dots cur_inode parent_inode m) (\<lambda>m.
     case cur_dir of None \<Rightarrow> Inr m
     | Some es \<Rightarrow> bindR (add_children cur_inode es m) (fix_size cur_inode))"

section \<open>The program\<close>

definition bitblocks :: nat where "bitblocks = sectors div (512 * 8) + 1"

definition mkfs :: "fsimg \<Rightarrow> mkfs_err + fsimg" where
  "mkfs m = (let
      used = ninodes div IPB + 3 + bitblocks;
      m = m\<lparr>usedblocks := used, freeblock := used\<rparr>
    in if nblocks + used \<noteq> sectors then Inl Assert
    else let m = fold (\<lambda>i. wsect i (\<lambda>_. 0)) [0 ..< nblocks + used] m;
        buf = store32 (store32 (store32 (\<lambda>_. 0) 0 (of_nat sectors)) 4 (of_nat nblocks)) 8 (of_nat ninodes)
      in Inr (wsect 1 buf m))"

definition new_image :: fsimg where
  "new_image = \<lparr>img = (\<lambda>_ _. 0), img_len = 0, freeblock = 0, usedblocks = 0, freeinode = 1\<rparr>"

definition mkfs_main :: "(byte list \<times> host) list option \<Rightarrow> mkfs_err + fsimg" where
  "mkfs_main root_dir = bindR (mkfs new_image) (\<lambda>m.
     bindR (mk_ialloc T_DIR m) (\<lambda>(root_inode, m).
     if of_nat root_inode \<noteq> ROOTINO then Inl Assert
     else bindR (add_dir root_dir root_inode root_inode m) (\<lambda>m. mk_balloc (usedblocks m) m)))"

end
