(* ===== verification/MkfsInv.thy ===== *)
theory MkfsInv
  imports Mkfs
begin

text \<open>
  Correctness of the program that makes the file system image: appending to a file in the image, the
  tree of directories it builds, and what the kernel finds on the image.
\<close>

unbundle bit_operations_syntax

section \<open>The blocks of a file in the image\<close>

definition ceil512 :: "nat \<Rightarrow> nat" where "ceil512 n = (n + 511) div 512"

text \<open>The blocks that a file of \<open>n\<close> bytes takes, its indirect block included.\<close>

definition blocks_for :: "nat \<Rightarrow> nat" where
  "blocks_for n = ceil512 n + (if NDIRECT < ceil512 n then 1 else 0)"

text \<open>
  The inode \<open>din\<close> has the data blocks \<open>bs\<close> and the indirect block \<open>ib\<close> (\<open>0\<close> for none), which hold
  the bytes \<open>cont\<close> and zeros behind them.
\<close>

definition file_at :: "(nat \<Rightarrow> bmem) \<Rightarrow> inode \<Rightarrow> nat list \<Rightarrow> nat \<Rightarrow> byte list \<Rightarrow> bool" where
  "file_at im din bs ib cont \<longleftrightarrow> length bs \<le> MAXFILE \<and>
    (\<forall>k<NDIRECT. i_addrs din k = (if k < length bs then of_nat (bs ! k) else 0)) \<and>
    i_addrs din NDIRECT = of_nat ib \<and> (ib \<noteq> 0 \<longleftrightarrow> NDIRECT < length bs) \<and>
    (ib \<noteq> 0 \<longrightarrow> (\<forall>k<NINDIRECT. load32 (im ib) (4 * k) =
      (if NDIRECT + k < length bs then of_nat (bs ! (NDIRECT + k)) else 0))) \<and>
    (\<forall>j < length bs * 512. im (bs ! (j div 512)) (j mod 512) = (if j < length cont then cont ! j else 0))"

definition owned :: "nat list \<Rightarrow> nat \<Rightarrow> nat list" where
  "owned bs ib = bs @ (if ib = 0 then [] else [ib])"

definition first_data :: nat where "first_data = ninodes div IPB + 3 + bitblocks"

definition placed :: "nat list \<Rightarrow> nat \<Rightarrow> nat \<Rightarrow> bool" where
  "placed bs ib fb \<longleftrightarrow> distinct (owned bs ib) \<and> set (owned bs ib) \<subseteq> {first_data ..< fb}"

definition room :: "fsimg \<Rightarrow> bool" where
  "room m \<longleftrightarrow> img_len m = sectors \<and> freeblock m \<le> sectors \<and> first_data \<le> freeblock m \<and> usedblocks m = freeblock m \<and>
    (\<forall>n. freeblock m \<le> n \<and> n < sectors \<longrightarrow> img m n = (\<lambda>_. 0))"

lemmas sizes = sectors_def first_data_def ninodes_def IPB_def bitblocks_def NDIRECT_def MAXFILE_def NINDIRECT_def BSIZE_def

text \<open>What an append may change: the file's own blocks, and blocks that were free.\<close>

definition grows :: "nat set \<Rightarrow> nat \<Rightarrow> fsimg \<Rightarrow> fsimg \<Rightarrow> bool" where
  "grows own k m m' \<longleftrightarrow> freeblock m' = freeblock m + k \<and> freeinode m' = freeinode m \<and>
    (\<forall>n. n < freeblock m \<and> n \<notin> own \<longrightarrow> img m' n = img m n)"

lemma ceil512_cases:
  "l mod 512 = 0 \<Longrightarrow> ceil512 l = l div 512" "l mod 512 \<noteq> 0 \<Longrightarrow> ceil512 l = l div 512 + 1"
  "0 < k \<Longrightarrow> l mod 512 + k \<le> 512 \<Longrightarrow> ceil512 (l + k) = l div 512 + 1"
proof -
  define q r where "q = l div 512" and "r = l mod 512"
  have l: "l = 512 * q + r" "r < 512" by (simp_all add: q_def r_def)
  have "r = 0 \<Longrightarrow> (l + 511) div 512 = q" using l by (intro div_nat_eqI) auto
  moreover have "r \<noteq> 0 \<Longrightarrow> (l + 511) div 512 = q + 1" using l by (intro div_nat_eqI) auto
  moreover have "0 < k \<Longrightarrow> r + k \<le> 512 \<Longrightarrow> (l + k + 511) div 512 = q + 1" using l by (intro div_nat_eqI) auto
  ultimately show "l mod 512 = 0 \<Longrightarrow> ceil512 l = l div 512" "l mod 512 \<noteq> 0 \<Longrightarrow> ceil512 l = l div 512 + 1"
    "0 < k \<Longrightarrow> l mod 512 + k \<le> 512 \<Longrightarrow> ceil512 (l + k) = l div 512 + 1"
    by (simp_all add: ceil512_def q_def r_def)
qed

lemma small_word: "n < sectors \<Longrightarrow> unat (of_nat n :: uint) = n" "n < sectors \<Longrightarrow> (of_nat n :: uint) = 0 \<longleftrightarrow> n = 0"
  by (auto simp: sectors_def unat_of_nat word_unat_eq_iff)

lemma rsect_room [simp]: "room m \<Longrightarrow> n < sectors \<Longrightarrow> rsect n m = Inr (img m n)"
  by (simp add: rsect_def room_def)

lemma wsect_room [simp]:
  assumes "room m" and "n < sectors"
  shows "wsect n buf m = m\<lparr>img := (img m)(n := buf)\<rparr>"
proof -
  have "(\<lambda>k. if k = n then buf else if img_len m \<le> k \<and> k < n then (\<lambda>_. 0) else img m k) = (img m)(n := buf)"
    using assms by (auto simp: room_def)
  with assms show ?thesis unfolding wsect_def by (simp add: room_def max_def)
qed

lemma file_at_cong:
  assumes "file_at im din bs ib cont" and "\<And>n. n \<in> set (owned bs ib) \<Longrightarrow> im' n = im n"
  shows "file_at im' din bs ib cont"
proof -
  have b: "im' (bs ! (j div 512)) = im (bs ! (j div 512))" if "j < length bs * 512" for j
  proof -
    have "j div 512 < length bs" using that by (simp add: less_mult_imp_div_less)
    then show ?thesis by (intro assms(2)) (simp add: owned_def)
  qed
  have "ib \<noteq> 0 \<Longrightarrow> im' ib = im ib" by (intro assms(2)) (simp add: owned_def)
  with assms(1) b show ?thesis unfolding file_at_def by simp
qed

lemma write_block:
  assumes "file_at im din bs ib cont" and "distinct (owned bs ib)" and "length bs = length cont div 512 + 1"
    and "length cont mod 512 + length q \<le> 512"
  defines "b \<equiv> bs ! (length cont div 512)"
  shows "file_at (im(b := bcopy q (length cont - length cont div 512 * 512) (im b))) din bs ib (cont @ q)"
proof -
  let ?l = "length cont" and ?f = "length cont div 512"
  let ?im = "im(b := bcopy q (?l - ?f * 512) (im b))"
  have l: "?l = 512 * ?f + ?l mod 512" by simp
  have o: "?l - ?f * 512 = ?l mod 512" by (simp add: minus_div_mult_eq_mod)
  have d: "distinct bs" using assms(2) by (simp add: owned_def)
  have ib: "ib \<noteq> 0 \<Longrightarrow> ?im ib = im ib"
    using assms(2,3) by (auto simp: owned_def b_def)
  have bt: "?im (bs ! (j div 512)) (j mod 512) = (if j < length (cont @ q) then (cont @ q) ! j else 0)"
    if j: "j < length bs * 512" for j
  proof -
    have jd: "j div 512 < length bs" using j by (simp add: less_mult_imp_div_less)
    have jj: "j = 512 * (j div 512) + j mod 512" "j mod 512 < 512" by simp_all
    have old: "im (bs ! (j div 512)) (j mod 512) = (if j < ?l then cont ! j else 0)"
      using assms(1) j by (simp add: file_at_def)
    show ?thesis
    proof (cases "j div 512 = ?f")
      case True
      then have e: "bs ! (j div 512) = b" by (simp add: b_def)
      have "j mod 512 - ?l mod 512 = j - ?l" "?l mod 512 \<le> j mod 512 \<longleftrightarrow> ?l \<le> j"
        "j mod 512 < ?l mod 512 + length q \<longleftrightarrow> j < ?l + length q"
        using True l jj by linarith+
      with old e show ?thesis unfolding o by (auto simp: bcopy_def nth_append)
    next
      case False
      then have "bs ! (j div 512) \<noteq> b" using d jd assms(3) by (auto simp: b_def nth_eq_iff_index_eq)
      moreover have "j < ?l"
      proof -
        have "j div 512 < ?f" using False jd assms(3) by simp
        then show ?thesis using l jj by linarith
      qed
      ultimately show ?thesis using old by (simp add: nth_append)
    qed
  qed
  show ?thesis using assms(1) ib bt unfolding file_at_def by simp
qed


lemma file_at_snoc:
  assumes "file_at im din bs ib cont" and "length cont = length bs * 512" and "length bs < MAXFILE"
    and "im' b = (\<lambda>_. 0)" and "\<And>n. n \<in> set bs \<Longrightarrow> im' n = im n"
    and "\<forall>k<NDIRECT. i_addrs din' k = (if k < length (bs @ [b]) then of_nat ((bs @ [b]) ! k) else 0)"
    and "i_addrs din' NDIRECT = of_nat ib'" and "ib' \<noteq> 0 \<longleftrightarrow> NDIRECT < length bs + 1"
    and "ib' \<noteq> 0 \<longrightarrow> (\<forall>k<NINDIRECT. load32 (im' ib') (4 * k) =
      (if NDIRECT + k < length (bs @ [b]) then of_nat ((bs @ [b]) ! (NDIRECT + k)) else 0))"
  shows "file_at im' din' (bs @ [b]) ib' cont"
proof -
  have "im' ((bs @ [b]) ! (j div 512)) (j mod 512) = (if j < length cont then cont ! j else 0)"
    if j: "j < length (bs @ [b]) * 512" for j
  proof (cases "j < length bs * 512")
    case True
    then have "j div 512 < length bs" by (simp add: less_mult_imp_div_less)
    with True assms(1,5) show ?thesis by (simp add: file_at_def nth_append)
  next
    case False
    with j have "j div 512 = length bs" by (intro div_nat_eqI) auto
    with False assms(2,4) show ?thesis by (simp add: nth_append)
  qed
  with assms(3,6-9) show ?thesis unfolding file_at_def by simp
qed

lemma room_next:
  assumes "room m" and "freeblock m < sectors"
  shows "room (m\<lparr>freeblock := freeblock m + 1, usedblocks := usedblocks m + 1\<rparr>)"
    and "freeblock m \<noteq> 0" and "img m (freeblock m) = (\<lambda>_. 0)"
  using assms by (auto simp: room_def sizes)

lemma room_img:
  assumes "room m" and "\<And>n. freeblock m \<le> n \<Longrightarrow> n < sectors \<Longrightarrow> f n = img m n"
  shows "room (m\<lparr>img := f\<rparr>)"
  using assms by (auto simp: room_def)

lemma set_addr_sel [simp]: "i_addrs (set_addr k b din) j = (if j = k then of_nat b else i_addrs din j)"
  by (simp add: set_addr_def)

definition only_addrs :: "inode \<Rightarrow> inode \<Rightarrow> bool" where
  "only_addrs din din' \<longleftrightarrow> (\<exists>a. din' = din\<lparr>i_addrs := a\<rparr>)"

lemma only_addrs_simps [simp]: "only_addrs din din" "only_addrs din (set_addr k b din)"
  "only_addrs din (set_addr k b (set_addr l c din))"
  by (auto simp: only_addrs_def set_addr_def intro: exI [of _ "i_addrs din"])

lemma only_addrs_trans: "only_addrs a b \<Longrightarrow> only_addrs b c \<Longrightarrow> only_addrs a c"
  by (auto simp: only_addrs_def)

text \<open>The block that the next bytes go to: the last one, or a new one when that is full.\<close>

definition has_sector :: "fsimg \<Rightarrow> inode \<Rightarrow> nat list \<Rightarrow> nat \<Rightarrow> byte list \<Rightarrow> bool" where
  "has_sector m din bs ib cont \<longleftrightarrow> file_at (img m) din bs ib cont \<and> placed bs ib (freeblock m) \<and> room m \<and>
    length bs = length cont div 512 + 1"

lemma placed_less: "placed bs ib fb \<Longrightarrow> fb \<le> sectors \<Longrightarrow> b \<in> set (owned bs ib) \<Longrightarrow> b < sectors \<and> 29 \<le> b \<and> b < fb"
  by (auto simp: placed_def sizes)

lemma sector_old:
  assumes "has_sector m din bs ib cont"
  shows "file_sector (length cont div 512) din m = Inr (bs ! (length cont div 512), din, m)"
proof -
  let ?f = "length cont div 512"
  have h: "file_at (img m) din bs ib cont" "placed bs ib (freeblock m)" "room m" "length bs = ?f + 1"
    using assms by (simp_all add: has_sector_def)
  have fb: "freeblock m \<le> sectors" using h(3) by (simp add: room_def)
  have "bs ! ?f \<in> set (owned bs ib)" using h(4) by (simp add: owned_def)
  from placed_less [OF h(2) fb this] have x: "unat (of_nat (bs ! ?f) :: uint) = bs ! ?f" "(of_nat (bs ! ?f) :: uint) \<noteq> 0"
    using small_word [of "bs ! ?f"] by auto
  show ?thesis
  proof (cases "?f < NDIRECT")
    case True
    with h(1,4) x show ?thesis by (simp add: file_sector_def file_at_def)
  next
    case False
    have f: "NDIRECT + (?f - NDIRECT) = ?f" "?f - NDIRECT < NINDIRECT"
      using False h(1,4) by (auto simp: file_at_def sizes)
    have ib: "ib \<noteq> 0" using h(1,4) False by (simp add: file_at_def)
    then have "ib \<in> set (owned bs ib)" by (simp add: owned_def)
    from placed_less [OF h(2) fb this] have y: "unat (of_nat ib :: uint) = ib" "(of_nat ib :: uint) \<noteq> 0" "ib < sectors"
      using small_word [of ib] by auto
    have "load32 (img m ib) (4 * (?f - NDIRECT)) = of_nat (bs ! ?f)"
      using h(1,4) ib f by (simp add: file_at_def)
    moreover have "i_addrs din NDIRECT = of_nat ib" using h(1) by (simp add: file_at_def)
    ultimately show ?thesis using False x y h(3) by (simp add: file_sector_def)
  qed
qed


definition more_sectors :: "nat list \<Rightarrow> nat" where
  "more_sectors bs = (if length bs = NDIRECT then 2 else 1)"

definition gets_sector :: "fsimg \<Rightarrow> inode \<Rightarrow> nat list \<Rightarrow> nat \<Rightarrow> byte list \<Rightarrow> mkfs_err + (nat \<times> inode \<times> fsimg) \<Rightarrow> bool" where
  "gets_sector m din bs ib cont r \<longleftrightarrow> (\<exists>b ib' din' m'. r = Inr (b, din', m') \<and>
    has_sector m' din' (bs @ [b]) ib' cont \<and> only_addrs din din' \<and> grows (set (owned bs ib)) (more_sectors bs) m m' \<and>
    set (owned (bs @ [b]) ib') \<subseteq> set (owned bs ib) \<union> {freeblock m ..< freeblock m'})"

lemma zero_block: "load32 (\<lambda>_. 0) a = 0"
  by (simp add: load32_def)

lemma sector_new_direct:
  assumes "file_at (img m) din bs ib cont" and "placed bs ib (freeblock m)" and "room m"
    and "length cont = length bs * 512" and "length bs < NDIRECT" and "freeblock m < sectors"
  shows "gets_sector m din bs ib cont (file_sector (length bs) din m)"
proof -
  let ?b = "freeblock m" and ?f = "length bs"
  let ?m = "m\<lparr>freeblock := ?b + 1, usedblocks := usedblocks m + 1\<rparr>" and ?d = "set_addr ?f ?b din"
  note rn = room_next [OF assms(3,6)]
  have ib: "ib = 0" using assms(1,5) by (auto simp: file_at_def)
  have ad: "i_addrs din k = (if k < ?f then of_nat (bs ! k) else 0)" if "k < NDIRECT" for k
    using assms(1) that by (simp add: file_at_def)
  have fs: "file_sector ?f din m = Inr (?b, ?d, ?m)"
    using assms(5) ad [of ?f] small_word(1) [OF assms(6)] by (simp add: file_sector_def next_block_def)
  have "file_at (img m) ?d (bs @ [?b]) ib cont"
    by (rule file_at_snoc [OF assms(1,4)])
      (use assms(1,5) ad rn(3) ib in \<open>auto simp: nth_append sizes file_at_def\<close>)
  moreover have "placed (bs @ [?b]) ib (freeblock ?m)"
    using assms(2,3,6) ib by (auto simp: placed_def owned_def room_def)
  ultimately have "has_sector ?m ?d (bs @ [?b]) ib cont"
    using rn(1) assms(4) by (simp add: has_sector_def)
  with fs ib assms(5) show ?thesis
    unfolding gets_sector_def by (intro exI conjI) (auto simp: more_sectors_def grows_def owned_def)
qed

lemma indirect_table:
  assumes "NDIRECT \<le> length bs" and "k < NINDIRECT"
    and "load32 t (4 * k) = (if NDIRECT + k < length bs then of_nat (bs ! (NDIRECT + k)) else 0)"
  shows "load32 (store32 t (4 * (length bs - NDIRECT)) (of_nat b)) (4 * k) =
    (if NDIRECT + k < length (bs @ [b]) then of_nat ((bs @ [b]) ! (NDIRECT + k)) else 0)"
proof (cases "k = length bs - NDIRECT")
  case True
  with assms(1) show ?thesis by (simp add: nth_append)
next
  case False
  then have "4 * k + 4 \<le> 4 * (length bs - NDIRECT) \<or> 4 * (length bs - NDIRECT) + 4 \<le> 4 * k" by auto
  with False assms show ?thesis by (auto simp: nth_append)
qed

definition second_half :: "nat \<Rightarrow> inode \<Rightarrow> fsimg \<Rightarrow> mkfs_err + (nat \<times> inode \<times> fsimg)" where
  "second_half fbn din m = bindR (rsect (unat (i_addrs din NDIRECT)) m) (\<lambda>indirect.
     let (indirect, m) = (if load32 indirect (4 * (fbn - NDIRECT)) = 0 then
         let (b, m) = next_block m; indirect = store32 indirect (4 * (fbn - NDIRECT)) (of_nat b)
         in (indirect, wsect (unat (i_addrs din NDIRECT)) indirect m)
       else (indirect, m))
     in Inr (unat (load32 indirect (4 * (fbn - NDIRECT))), din, m))"

lemma second_half_new:
  assumes "room m" and "freeblock m < sectors" and "i_addrs din NDIRECT = of_nat ib" and "ib < freeblock m" and "ib \<noteq> 0"
    and "load32 (img m ib) (4 * (f - NDIRECT)) = 0"
  shows "second_half f din m = Inr (freeblock m, din,
    m\<lparr>freeblock := freeblock m + 1, usedblocks := usedblocks m + 1,
      img := (img m)(ib := store32 (img m ib) (4 * (f - NDIRECT)) (of_nat (freeblock m)))\<rparr>)"
proof -
  have ib: "unat (of_nat ib :: uint) = ib" "ib < sectors" using assms(2,4) small_word(1) [of ib] by auto
  note rn = room_next(1) [OF assms(1,2)]
  show ?thesis
    using assms(1,3,6) ib rn small_word(1) [OF assms(2)]
    by (simp add: second_half_def next_block_def wsect_room [OF rn] Let_def)
qed

lemma file_sector_second:
  assumes "\<not> f < NDIRECT" and "i_addrs din NDIRECT \<noteq> 0"
  shows "file_sector f din m = second_half f din m"
  using assms by (simp add: file_sector_def second_half_def)

lemma sector_new_indirect:
  assumes "file_at (img m) din bs ib cont" and "placed bs ib (freeblock m)" and "room m"
    and "length cont = length bs * 512" and "NDIRECT < length bs" and "length bs < MAXFILE" and "freeblock m < sectors"
  shows "gets_sector m din bs ib cont (file_sector (length bs) din m)"
proof -
  let ?b = "freeblock m" and ?f = "length bs"
  have ib: "ib \<noteq> 0" "i_addrs din NDIRECT = of_nat ib" using assms(1,5) by (simp_all add: file_at_def)
  have "freeblock m \<le> sectors" using assms(7) by simp
  from placed_less [OF assms(2) this, of ib] ib(1) have ibl: "ib < sectors" "29 \<le> ib" "ib < ?b"
    by (simp_all add: owned_def)
  have fk: "NDIRECT + (?f - NDIRECT) = ?f" "?f - NDIRECT < NINDIRECT" using assms(5,6) by (auto simp: sizes)
  have tab: "\<forall>k<NINDIRECT. load32 (img m ib) (4 * k) = (if NDIRECT + k < ?f then of_nat (bs ! (NDIRECT + k)) else 0)"
    using assms(1) ib(1) by (simp add: file_at_def)
  then have z: "load32 (img m ib) (4 * (?f - NDIRECT)) = 0" using fk by simp
  let ?im = "(img m)(ib := store32 (img m ib) (4 * (?f - NDIRECT)) (of_nat ?b))"
  let ?m = "m\<lparr>freeblock := ?b + 1, usedblocks := usedblocks m + 1, img := ?im\<rparr>"
  have "(of_nat ib :: uint) \<noteq> 0" using small_word(2) [OF ibl(1)] ib(1) by simp
  then have fs: "file_sector ?f din m = Inr (?b, din, ?m)"
    using file_sector_second [of ?f din m] second_half_new [OF assms(3,7) ib(2) ibl(3) ib(1) z] assms(5) ib(2) by simp
  have rm: "room ?m" using room_img [OF room_next(1) [OF assms(3,7)], of ?im] ibl(3) by simp
  have nib: "ib \<notin> set bs" using assms(2) ib(1) by (auto simp: placed_def owned_def)
  have bb: "b \<noteq> ?b" if "b \<in> set bs" for b using assms(2) that by (auto simp: placed_def owned_def)
  have tab': "\<forall>k<NINDIRECT. load32 (?im ib) (4 * k) =
      (if NDIRECT + k < length (bs @ [?b]) then of_nat ((bs @ [?b]) ! (NDIRECT + k)) else 0)"
    using indirect_table [of bs _ "img m ib" ?b] tab assms(5) by simp
  have "file_at ?im din (bs @ [?b]) ib cont"
    by (rule file_at_snoc [OF assms(1,4,6)])
      (use assms(1,5) ib ibl nib bb tab' room_next(3) [OF assms(3,7)] in \<open>auto simp: nth_append file_at_def\<close>)
  moreover have "placed (bs @ [?b]) ib (freeblock ?m)"
    using assms(2,3) ib(1) ibl bb by (auto simp: placed_def owned_def room_def)
  ultimately have "has_sector ?m din (bs @ [?b]) ib cont"
    using rm assms(4) by (simp add: has_sector_def)
  with fs ib assms(5) show ?thesis
    unfolding gets_sector_def by (intro exI conjI) (auto simp: more_sectors_def grows_def owned_def)
qed

lemma sector_new_table:
  assumes "file_at (img m) din bs ib cont" and "placed bs ib (freeblock m)" and "room m"
    and "length cont = length bs * 512" and "length bs = NDIRECT" and "freeblock m + 1 < sectors"
  shows "gets_sector m din bs ib cont (file_sector (length bs) din m)"
proof -
  let ?i = "freeblock m" and ?f = "length bs"
  have lt: "?i < sectors" using assms(6) by simp
  note rn = room_next [OF assms(3) lt]
  let ?m1 = "m\<lparr>freeblock := ?i + 1, usedblocks := usedblocks m + 1\<rparr>" and ?d = "set_addr NDIRECT ?i din"
  let ?im = "(img m)(?i := store32 (img m ?i) (4 * (?f - NDIRECT)) (of_nat (?i + 1)))"
  let ?m = "?m1\<lparr>freeblock := ?i + 2, usedblocks := usedblocks m + 2, img := ?im\<rparr>"
  have ib: "ib = 0" "i_addrs din NDIRECT = 0" using assms(1,5) by (auto simp: file_at_def)
  have w: "unat (of_nat ?i :: uint) = ?i" "(of_nat ?i :: uint) \<noteq> 0" using small_word [OF lt] rn(2) by simp_all
  have f1: "file_sector ?f din m = second_half ?f ?d ?m1"
    using assms(5) ib w by (simp add: file_sector_def second_half_def next_block_def)
  have f2: "second_half ?f ?d ?m1 = Inr (?i + 1, ?d, ?m)"
    using second_half_new [OF rn(1), of ?d ?i ?f] assms(6) rn(2,3) by (simp add: zero_block)
  have z: "img m (?i + 1) = (\<lambda>_. 0)" using assms(3,6) by (simp add: room_def)
  have rm: "room ?m" using assms(3,6) by (auto simp: room_def)
  have bb: "b < ?i" if "b \<in> set bs" for b using assms(2) that by (auto simp: placed_def owned_def)
  have tab: "\<forall>k<NINDIRECT. load32 (?im ?i) (4 * k) =
      (if NDIRECT + k < length (bs @ [?i + 1]) then of_nat ((bs @ [?i + 1]) ! (NDIRECT + k)) else 0)"
    using indirect_table [of bs _ "img m ?i" "?i + 1"] assms(5) by (simp add: rn(3) zero_block)
  have "file_at ?im ?d (bs @ [?i + 1]) ?i cont"
    by (rule file_at_snoc [OF assms(1,4)])
      (use assms(1,5) rn(2) bb tab z in \<open>auto simp: nth_append file_at_def sizes\<close>)
  moreover have "placed (bs @ [?i + 1]) ?i (freeblock ?m)"
    using assms(2,3) ib(1) bb rn(2) by (force simp: placed_def owned_def room_def)
  ultimately have "has_sector ?m ?d (bs @ [?i + 1]) ?i cont"
    using rm assms(4) by (simp add: has_sector_def)
  with f1 f2 ib assms(5) rn(2) show ?thesis
    unfolding gets_sector_def by (intro exI conjI) (auto simp: more_sectors_def grows_def owned_def)
qed

lemma sector_new:
  assumes "file_at (img m) din bs ib cont" and "placed bs ib (freeblock m)" and "room m"
    and "length cont = length bs * 512" and "length bs < MAXFILE" and "freeblock m + more_sectors bs \<le> sectors"
  shows "gets_sector m din bs ib cont (file_sector (length bs) din m)"
  using sector_new_direct [OF assms(1-4)] sector_new_table [OF assms(1-4)] sector_new_indirect [OF assms(1-4) _ assms(5)]
    assms(6)
  by (cases "length bs" NDIRECT rule: linorder_cases) (auto simp: more_sectors_def)


section \<open>Appending\<close>

lemma ceil512_mono: "a \<le> b \<Longrightarrow> ceil512 a \<le> ceil512 b"
  by (simp add: ceil512_def div_le_mono)

lemma blocks_for_mono: "a \<le> b \<Longrightarrow> blocks_for a \<le> blocks_for b"
  using ceil512_mono [of a b] by (auto simp: blocks_for_def)

lemma grows_trans:
  assumes "grows A k m m1" and "grows B l m1 m2" and "B \<subseteq> A \<union> {freeblock m ..< freeblock m1}"
  shows "grows A (k + l) m m2"
proof -
  have "img m2 n = img m n" if "n < freeblock m" "n \<notin> A" for n
  proof -
    have "n \<notin> B" "n < freeblock m1" using assms(1,3) that by (auto simp: grows_def)
    with assms(1,2) that show ?thesis by (simp add: grows_def)
  qed
  with assms(1,2) show ?thesis by (simp add: grows_def)
qed

lemma sector_gets:
  assumes "file_at (img m) din bs ib cont" and "placed bs ib (freeblock m)" and "room m"
    and "length bs = ceil512 (length cont)" and "length cont div 512 < MAXFILE"
    and "0 < k" and "length cont mod 512 + k \<le> 512"
    and "freeblock m + (blocks_for (length cont + k) - blocks_for (length cont)) \<le> sectors"
  shows "\<exists>bs1 ib1 din1 m1. file_sector (length cont div 512) din m = Inr (bs1 ! (length cont div 512), din1, m1) \<and>
    has_sector m1 din1 bs1 ib1 cont \<and> only_addrs din din1 \<and>
    grows (set (owned bs ib)) (blocks_for (length cont + k) - blocks_for (length cont)) m m1 \<and>
    set (owned bs1 ib1) \<subseteq> set (owned bs ib) \<union> {freeblock m ..< freeblock m1}"
proof (cases "length cont mod 512 = 0")
  case False
  have c: "ceil512 (length cont) = length cont div 512 + 1" "ceil512 (length cont + k) = length cont div 512 + 1"
    using ceil512_cases(2) [OF False] ceil512_cases(3) [OF assms(6,7)] by simp_all
  then have h: "has_sector m din bs ib cont" using assms(1-4) by (simp add: has_sector_def)
  have "grows (set (owned bs ib)) (blocks_for (length cont + k) - blocks_for (length cont)) m m"
    using c by (simp add: grows_def blocks_for_def)
  with h sector_old [OF h] show ?thesis
    by (intro exI [of _ bs] exI [of _ ib] exI [of _ din] exI [of _ m]) simp
next
  case True
  let ?f = "length cont div 512"
  have c: "ceil512 (length cont) = ?f" "ceil512 (length cont + k) = ?f + 1"
    using ceil512_cases(1) [OF True] ceil512_cases(3) [OF assms(6,7)] by simp_all
  then have f: "length bs = ?f" using assms(4) by simp
  have l: "length cont = length bs * 512" using True f by (metis add.right_neutral div_mult_mod_eq)
  have e: "blocks_for (length cont + k) - blocks_for (length cont) = more_sectors bs"
    using c f by (auto simp: blocks_for_def more_sectors_def)
  from sector_new [OF assms(1-3) l] assms(5,8) e f
  have "gets_sector m din bs ib cont (file_sector ?f din m)" by simp
  then obtain b ib' din' m' where g: "file_sector ?f din m = Inr (b, din', m')" "has_sector m' din' (bs @ [b]) ib' cont"
    "only_addrs din din'" "grows (set (owned bs ib)) (more_sectors bs) m m'"
    "set (owned (bs @ [b]) ib') \<subseteq> set (owned bs ib) \<union> {freeblock m ..< freeblock m'}"
    unfolding gets_sector_def by blast
  have "(bs @ [b]) ! ?f = b" using f by (metis nth_append_length)
  with g e show ?thesis by (intro exI [of _ "bs @ [b]"] exI [of _ ib'] exI [of _ din'] exI [of _ m']) simp
qed

definition appended :: "fsimg \<Rightarrow> inode \<Rightarrow> nat list \<Rightarrow> nat \<Rightarrow> byte list \<Rightarrow> byte list \<Rightarrow> inode \<Rightarrow> fsimg \<Rightarrow> bool" where
  "appended m din bs ib cont p din' m' \<longleftrightarrow> (\<exists>bs' ib'. file_at (img m') din' bs' ib' (cont @ p) \<and>
    placed bs' ib' (freeblock m') \<and> room m' \<and> length bs' = ceil512 (length cont + length p) \<and> only_addrs din din' \<and>
    grows (set (owned bs ib)) (blocks_for (length cont + length p) - blocks_for (length cont)) m m' \<and>
    set (owned bs' ib') \<subseteq> set (owned bs ib) \<union> {freeblock m ..< freeblock m'})"

lemma appended_join:
  assumes "appended m2 din1 bs1 ib1 (cont @ q) r din' m'" and "only_addrs din din1"
    and "grows (set (owned bs ib)) k m m1" and "set (owned bs1 ib1) \<subseteq> set (owned bs ib) \<union> {freeblock m ..< freeblock m1}"
    and "grows (set (owned bs1 ib1)) 0 m1 m2"
    and "k = blocks_for (length cont + length q) - blocks_for (length cont)"
    and "blocks_for (length cont) \<le> blocks_for (length cont + length q)"
    and "blocks_for (length cont + length q) \<le> blocks_for (length cont + length q + length r)"
  shows "appended m din bs ib cont (q @ r) din' m'"
proof -
  have e: "length (cont @ q) = length cont + length q" by simp
  from assms(1) obtain bs' ib' where a: "file_at (img m') din' bs' ib' ((cont @ q) @ r)" "placed bs' ib' (freeblock m')"
    "room m'" "length bs' = ceil512 (length cont + length q + length r)" "only_addrs din1 din'"
    "grows (set (owned bs1 ib1)) (blocks_for (length cont + length q + length r) - blocks_for (length cont + length q)) m2 m'"
    "set (owned bs' ib') \<subseteq> set (owned bs1 ib1) \<union> {freeblock m2 ..< freeblock m'}"
    unfolding appended_def e by blast
  have f: "freeblock m2 = freeblock m1" "freeblock m1 = freeblock m + k" "freeblock m2 \<le> freeblock m'"
    using assms(3,5) a(6) by (simp_all add: grows_def)
  have "grows (set (owned bs ib)) (k + 0) m m2" by (rule grows_trans [OF assms(3,5,4)])
  then have g: "grows (set (owned bs ib)) k m m2" by simp
  have "set (owned bs1 ib1) \<subseteq> set (owned bs ib) \<union> {freeblock m ..< freeblock m2}" using assms(4) f(1) by simp
  from grows_trans [OF g a(6) this] assms(6-8)
  have g': "grows (set (owned bs ib)) (blocks_for (length cont + length (q @ r)) - blocks_for (length cont)) m m'"
    by (simp add: add.assoc)
  have "set (owned bs' ib') \<subseteq> set (owned bs ib) \<union> {freeblock m ..< freeblock m'}"
  proof
    fix b assume "b \<in> set (owned bs' ib')"
    then have "b \<in> set (owned bs1 ib1) \<or> freeblock m2 \<le> b \<and> b < freeblock m'" using a(7) by auto
    with assms(4) f show "b \<in> set (owned bs ib) \<union> {freeblock m ..< freeblock m'}" by fastforce
  qed
  with a(1-4) g' only_addrs_trans [OF assms(2) a(5)] show ?thesis
    unfolding appended_def by (intro exI [of _ bs'] exI [of _ ib']) (simp add: add.assoc)
qed

lemma iappend_loop_step:
  assumes "p \<noteq> []" and "off div 512 < MAXFILE" and "file_sector (off div 512) din m = Inr (x, din1, m1)"
    and "rsect x m1 = Inr buf"
  defines "n1 \<equiv> min (length p) ((off div 512 + 1) * 512 - off)"
  shows "iappend_loop p off din m = iappend_loop (drop n1 p) (off + n1) din1
    (wsect x (bcopy (take n1 p) (off - off div 512 * 512) buf) m1)"
  using assms by (subst iappend_loop.simps) (simp add: Let_def)

lemma iappend_loop_appends:
  assumes "file_at (img m) din bs ib cont" and "placed bs ib (freeblock m)" and "room m"
    and "length bs = ceil512 (length cont)" and "length cont + length p \<le> MAXFILE * 512"
    and "freeblock m + (blocks_for (length cont + length p) - blocks_for (length cont)) \<le> sectors"
  shows "\<exists>din' m'. iappend_loop p (length cont) din m = Inr (length cont + length p, din', m') \<and>
    appended m din bs ib cont p din' m'"
  using assms
proof (induction "length p" arbitrary: p cont din bs ib m rule: less_induct)
  case less
  show ?case
  proof (cases "p = []")
    case True
    with less.prems(1-4) show ?thesis
      by (auto simp: iappend_loop.simps appended_def grows_def intro!: exI [of _ bs] exI [of _ ib])
  next
    case False
    let ?l = "length cont" and ?f = "length cont div 512"
    define n1 where "n1 = min (length p) ((?f + 1) * 512 - ?l)"
    define q where "q = take n1 p"
    have l: "?l = 512 * ?f + ?l mod 512" "?l mod 512 < 512" by simp_all
    have n1: "0 < n1" "n1 \<le> length p" "?l mod 512 + n1 \<le> 512"
    proof -
      have "x = 512 * a + r \<Longrightarrow> (a + 1) * 512 - x = 512 - r" for x a r :: nat by simp
      from this [OF l(1)] have "(?f + 1) * 512 - ?l = 512 - ?l mod 512" .
      then show "0 < n1" "n1 \<le> length p" "?l mod 512 + n1 \<le> 512" using False l(2) unfolding n1_def by auto
    qed
    have q: "length q = n1" "length (drop n1 p) < length p" "q @ drop n1 p = p" "length (cont @ q) = ?l + n1"
      "length (cont @ q) + length (drop n1 p) = ?l + length p"
      using n1 by (simp_all add: q_def)
    have f: "?f < MAXFILE" using less.prems(5) n1 l by simp
    have mono: "blocks_for ?l \<le> blocks_for (?l + n1)" "blocks_for (?l + n1) \<le> blocks_for (?l + length p)"
      using n1 by (auto intro: blocks_for_mono)
    let ?k = "blocks_for (?l + n1) - blocks_for ?l"
    have "freeblock m + ?k \<le> sectors" using less.prems(6) mono by simp
    from sector_gets [OF less.prems(1-4) f n1(1,3) this]
    obtain bs1 ib1 din1 m1 where s: "file_sector ?f din m = Inr (bs1 ! ?f, din1, m1)"
      "has_sector m1 din1 bs1 ib1 cont" "only_addrs din din1" "grows (set (owned bs ib)) ?k m m1"
      "set (owned bs1 ib1) \<subseteq> set (owned bs ib) \<union> {freeblock m ..< freeblock m1}" by blast
    from s(2) have h: "file_at (img m1) din1 bs1 ib1 cont" "placed bs1 ib1 (freeblock m1)" "room m1" "length bs1 = ?f + 1"
      by (simp_all add: has_sector_def)
    let ?x = "bs1 ! ?f"
    have "freeblock m1 \<le> sectors" using h(3) by (simp add: room_def)
    moreover have xo: "?x \<in> set (owned bs1 ib1)" using h(4) by (simp add: owned_def)
    ultimately have x: "?x < sectors" "?x < freeblock m1" using placed_less [OF h(2), of ?x] by auto
    let ?im = "(img m1)(?x := bcopy q (?l - ?f * 512) (img m1 ?x))"
    let ?m2 = "m1\<lparr>img := ?im\<rparr>"
    have lq: "?l mod 512 + length q \<le> 512" using n1(3) q(1) by simp
    have "distinct (owned bs1 ib1)" using h(2) by (simp add: placed_def)
    from write_block [OF h(1) this h(4) lq] have w: "file_at (img ?m2) din1 bs1 ib1 (cont @ q)" by simp
    have rm: "room ?m2" by (rule room_img [OF h(3)]) (use x in auto)
    have lb: "length bs1 = ceil512 (length (cont @ q))" using ceil512_cases(3) [OF n1(1,3)] h(4) q(4) by simp
    have g2: "grows (set (owned bs1 ib1)) 0 m1 ?m2" using xo by (auto simp: grows_def)
    have fb1: "freeblock m1 = freeblock m + ?k" using s(4) by (simp add: grows_def)
    have "freeblock ?m2 + (blocks_for (length (cont @ q) + length (drop n1 p)) - blocks_for (length (cont @ q))) \<le> sectors"
    proof -
      have "freeblock m1 + (blocks_for (?l + length p) - blocks_for (?l + n1)) \<le> sectors"
        using less.prems(6) mono fb1 by linarith
      then show ?thesis unfolding q(5) unfolding q(4) by simp
    qed
    moreover have "length (cont @ q) + length (drop n1 p) \<le> MAXFILE * 512" using less.prems(5) unfolding q(5) .
    ultimately obtain din' m' where r: "iappend_loop (drop n1 p) (length (cont @ q)) din1 ?m2 =
        Inr (length (cont @ q) + length (drop n1 p), din', m')" "appended ?m2 din1 bs1 ib1 (cont @ q) (drop n1 p) din' m'"
      using less.hyps [OF q(2) w _ rm lb] h(2) by auto
    have "only_addrs din din1" "freeblock m \<le> freeblock m1" by (rule s(3)) (simp add: fb1)
    with appended_join [OF r(2) _ s(4,5) g2] q(3-5) mono fb1 have "appended m din bs ib cont p din' m'" by simp
    moreover have "iappend_loop p ?l din m = Inr (?l + length p, din', m')"
    proof -
      have "rsect ?x m1 = Inr (img m1 ?x)" "wsect ?x (bcopy q (?l - ?f * 512) (img m1 ?x)) m1 = ?m2"
        using rsect_room [OF h(3) x(1)] wsect_room [OF h(3) x(1)] by simp_all
      note buf = this
      have "iappend_loop p ?l din m = iappend_loop (drop n1 p) (?l + n1) din1 (wsect ?x (bcopy q (?l - ?f * 512) (img m1 ?x)) m1)"
        using iappend_loop_step [OF False f s(1) buf(1)] unfolding q_def n1_def .
      then show ?thesis using r(1) unfolding buf(2) q(5) unfolding q(4) by simp
    qed
    ultimately show ?thesis by blast
  qed
qed

end
