(* ===== verification/MkfsTree.thy ===== *)
theory MkfsTree
  imports MkfsInv
begin

text \<open>
  The tree of directories that \<^verbatim>\<open>mkfs\<close> builds in the image (\<open>add_dir\<close> and \<open>main\<close> of \<^verbatim>\<open>tools/mkfs.c\<close>): the
  inodes and the data of its files, and what the kernel reads of them.
\<close>

unbundle bit_operations_syntax

section \<open>The inodes of the image\<close>

lemma put_inode_other: "b < a \<or> a + 64 \<le> b \<Longrightarrow> put_inode ip a m b = m b"
  by (auto simp: put_inode_def Let_def put_words_other NDIRECT_def store16_def)

lemma get_inode_same:
  assumes "\<And>k. k < 64 \<Longrightarrow> m (a + k) = m' (a + k)"
  shows "get_inode m a p = get_inode m' a p"
proof -
  have c: "m b = m' b" if "a \<le> b" "b < a + 64" for b using assms [of "b - a"] that by simp
  have "load32 m (a + 12 + 4 * i) = load32 m' (a + 12 + 4 * i)" if "i < NDIRECT + 1" for i
    using that by (intro load32_cong c) (auto simp: NDIRECT_def)
  moreover have h: "load16 m (a + k) = load16 m' (a + k)" if "k < 8" for k
    using that by (intro load16_cong c) auto
  moreover have "load32 m (a + 8) = load32 m' (a + 8)" by (intro load32_cong c) auto
  ultimately show ?thesis using load16_cong [of m a m'] c [of a] c [of "a + 1"] h [of 2]
    by (simp add: get_inode_def cong: if_cong)
qed

definition node :: "fsimg \<Rightarrow> nat \<Rightarrow> inode" where
  "node m i = get_inode (img m (i2b i)) (islot i) no_inode"

definition put_node :: "nat \<Rightarrow> inode \<Rightarrow> fsimg \<Rightarrow> fsimg" where
  "put_node i ip m = m\<lparr>img := (img m)(i2b i := put_inode ip (islot i) (img m (i2b i)))\<rparr>"

lemma i2b_range: "i < ninodes \<Longrightarrow> 2 \<le> i2b i \<and> i2b i < 28"
  by (simp add: i2b_def ninodes_def IPB_def less_mult_imp_div_less)

lemma put_node_sel [simp]: "img_len (put_node i ip m) = img_len m" "freeblock (put_node i ip m) = freeblock m"
  "usedblocks (put_node i ip m) = usedblocks m" "freeinode (put_node i ip m) = freeinode m"
  by (simp_all add: put_node_def)

lemma put_node_img: "i < ninodes \<Longrightarrow> n < 2 \<or> 28 \<le> n \<Longrightarrow> img (put_node i ip m) n = img m n"
  using i2b_range [of i] by (auto simp: put_node_def)

lemma room_put_node: "room m \<Longrightarrow> i < ninodes \<Longrightarrow> room (put_node i ip m)"
  using put_node_img [of i _ ip m] by (auto simp: room_def first_data_def sizes)

lemma winode_room: "room m \<Longrightarrow> i < ninodes \<Longrightarrow> winode i ip m = Inr (put_node i ip m)"
  using i2b_range [of i] by (simp add: winode_def put_node_def sectors_def)

lemma rinode_room: "room m \<Longrightarrow> i < ninodes \<Longrightarrow> rinode i m = Inr (node m i)"
  using i2b_range [of i] by (simp add: rinode_def node_def sectors_def)

lemma node_put_node:
  "node (put_node i ip m) i = no_inode\<lparr>i_type := i_type ip, i_major := i_major ip, i_minor := i_minor ip,
     i_nlink := i_nlink ip, i_size := i_size ip, i_addrs := (\<lambda>k. if k < NDIRECT + 1 then i_addrs ip k else 0)\<rparr>"
  by (simp add: node_def put_node_def get_put_inode no_inode_def cong: if_cong)

lemma node_put_other:
  assumes "j \<noteq> i"
  shows "node (put_node i ip m) j = node m j"
proof (cases "i2b j = i2b i")
  case True
  then have d: "j mod IPB \<noteq> i mod IPB" "j mod IPB < 8" "i mod IPB < 8"
    using assms by (auto simp: i2b_def IPB_def) (metis mod_div_decomp)
  have "get_inode (put_inode ip (islot i) (img m (i2b i))) (islot j) no_inode = get_inode (img m (i2b i)) (islot j) no_inode"
  proof (rule get_inode_same)
    fix k :: nat assume "k < 64"
    then have "islot j + k < islot i \<or> islot i + 64 \<le> islot j + k"
      using d(1) by (cases "j mod IPB" "i mod IPB" rule: linorder_cases) (auto simp: islot_def DINODE_def)
    then show "put_inode ip (islot i) (img m (i2b i)) (islot j + k) = img m (i2b i) (islot j + k)" by (rule put_inode_other)
  qed
  with True show ?thesis by (simp add: node_def put_node_def)
qed (simp add: node_def put_node_def)

text \<open>What the image holds: of every inode the type, the bytes in its blocks, and the size.\<close>

type_synonym files = "nat \<Rightarrow> 16 word \<times> byte list \<times> nat"

definition node_ok :: "fsimg \<Rightarrow> nat list \<times> nat \<Rightarrow> inode \<Rightarrow> 16 word \<times> byte list \<times> nat \<Rightarrow> bool" where
  "node_ok m bl din = (\<lambda>(ty, cont, sz). i_type din = ty \<and> i_nlink din = 1 \<and> unat (i_size din) = sz \<and>
     file_at (img m) din (fst bl) (snd bl) cont \<and> placed (fst bl) (snd bl) (freeblock m) \<and>
     length (fst bl) = ceil512 (length cont))"

definition super_block :: bmem where
  "super_block = store32 (store32 (store32 (\<lambda>_. 0) 0 (of_nat sectors)) 4 (of_nat nblocks)) 8 (of_nat ninodes)"

definition apart :: "(nat \<Rightarrow> nat list \<times> nat) \<Rightarrow> nat \<Rightarrow> bool" where
  "apart bl n \<longleftrightarrow> (\<forall>i j. i < n \<and> j < n \<and> 0 < i \<and> 0 < j \<and> i \<noteq> j \<longrightarrow>
     set (owned (fst (bl i)) (snd (bl i))) \<inter> set (owned (fst (bl j)) (snd (bl j))) = {})"

definition laid :: "fsimg \<Rightarrow> (nat \<Rightarrow> nat list \<times> nat) \<Rightarrow> files \<Rightarrow> bool" where
  "laid m bl F \<longleftrightarrow> room m \<and> 0 < freeinode m \<and> freeinode m \<le> ninodes \<and> img m 1 = super_block \<and>
     (\<forall>i. freeinode m \<le> i \<and> i < ninodes \<longrightarrow> i_type (node m i) = 0) \<and>
     apart bl (freeinode m) \<and> (\<forall>i. 0 < i \<and> i < freeinode m \<longrightarrow> node_ok m (bl i) (node m i) (F i))"

definition holds :: "fsimg \<Rightarrow> files \<Rightarrow> bool" where
  "holds m F \<longleftrightarrow> (\<exists>bl. laid m bl F)"

lemma placed_mono: "placed bs ib fb \<Longrightarrow> fb \<le> fb' \<Longrightarrow> placed bs ib fb'"
  by (auto simp: placed_def)

lemma placed_data: "placed bs ib fb \<Longrightarrow> b \<in> set (owned bs ib) \<Longrightarrow> 29 \<le> b \<and> b < fb"
  by (auto simp: placed_def first_data_def sizes)

lemma node_ok_cong:
  assumes "node_ok m bl din nd" and "freeblock m \<le> freeblock m'"
    and "\<And>n. n \<in> set (owned (fst bl) (snd bl)) \<Longrightarrow> img m' n = img m n"
  shows "node_ok m' bl din nd"
  using assms file_at_cong [of "img m" din "fst bl" "snd bl" _ "img m'"] placed_mono
  by (cases nd) (auto simp: node_ok_def)

lemma file_at_node:
  "file_at im ip bs ib cont \<Longrightarrow> i_addrs ip' = (\<lambda>k. if k < NDIRECT + 1 then i_addrs ip k else 0) \<Longrightarrow> file_at im ip' bs ib cont"
  unfolding file_at_def by (auto simp: NDIRECT_def)

text \<open>One inode of the image is written, with data that takes its old blocks and new ones.\<close>

lemma laid_update:
  assumes L: "laid m bl F" and i: "0 < i" "i < freeinode m1" "freeinode m1 \<le> ninodes"
    and fi: "freeinode m1 = freeinode m \<or> freeinode m1 = freeinode m + 1 \<and> i = freeinode m"
    and rm: "room m1" and fb: "freeblock m \<le> freeblock m1"
    and own: "\<And>n. n \<in> own \<Longrightarrow> 29 \<le> n"
      "\<And>j. 0 < j \<Longrightarrow> j < freeinode m \<Longrightarrow> j \<noteq> i \<Longrightarrow> own \<inter> set (owned (fst (bl j)) (snd (bl j))) = {}"
    and frame: "\<And>n. n < freeblock m \<Longrightarrow> n \<notin> own \<Longrightarrow> img m1 n = img m n"
    and b': "set (owned (fst b') (snd b')) \<subseteq> own \<union> {freeblock m ..< freeblock m1}"
    and ok: "node_ok m1 b' ip nd"
  shows "laid (put_node i ip m1) (bl(i := b')) (F(i := nd))"
proof -
  let ?m = "put_node i ip m1"
  have I: "i < ninodes" using i by simp
  have f29: "29 \<le> freeblock m" using L by (simp add: laid_def room_def first_data_def sizes)
  have low: "img m1 n = img m n" if "n < 29" for n using that f29 own(1) [of n] by (intro frame) auto
  have nj: "node ?m j = node m j" if "j \<noteq> i" "j < ninodes" for j
    using node_put_other [OF that(1)] low [of "i2b j"] i2b_range [OF that(2)] by (simp add: node_def)
  have olds: "node_ok ?m (bl j) (node ?m j) (F j)" if j: "0 < j" "j < freeinode m" "j \<noteq> i" for j
  proof -
    have nk: "node_ok m (bl j) (node m j) (F j)" using L j by (simp add: laid_def)
    have "img ?m n = img m n" if n: "n \<in> set (owned (fst (bl j)) (snd (bl j)))" for n
    proof -
      have "29 \<le> n \<and> n < freeblock m" using nk n placed_data by (cases "F j") (auto simp: node_ok_def)
      then show ?thesis using put_node_img [OF I, of n ip m1] frame [of n] own(2) [OF j] n by auto
    qed
    moreover have "j < ninodes" using L j by (simp add: laid_def)
    ultimately show ?thesis using node_ok_cong [OF nk, of ?m] fb nj [OF j(3)] by simp
  qed
  have "file_at (img ?m) (node ?m i) (fst b') (snd b') (fst (snd nd))"
  proof (rule file_at_node)
    have "29 \<le> n" if "n \<in> set (owned (fst b') (snd b'))" for n
      using ok that placed_data by (cases nd) (auto simp: node_ok_def)
    then show "file_at (img ?m) ip (fst b') (snd b') (fst (snd nd))"
      using ok file_at_cong [of "img m1" ip "fst b'" "snd b'" "fst (snd nd)" "img ?m"] put_node_img [OF I, of _ ip m1]
      by (cases nd) (force simp: node_ok_def)
  qed (simp add: node_put_node)
  then have new: "node_ok ?m b' (node ?m i) nd"
    using ok by (cases nd) (simp add: node_ok_def node_put_node)
  have "apart (bl(i := b')) (freeinode m1)"
  proof -
    have "set (owned (fst b') (snd b')) \<inter> set (owned (fst (bl j)) (snd (bl j))) = {}"
      if j: "0 < j" "j < freeinode m" "j \<noteq> i" for j
    proof -
      have "n < freeblock m" if "n \<in> set (owned (fst (bl j)) (snd (bl j)))" for n
        using L j that placed_data by (cases "F j") (force simp: laid_def node_ok_def)
      with b' own(2) [OF j] show ?thesis by fastforce
    qed
    moreover have "apart bl (freeinode m)" using L by (simp add: laid_def)
    ultimately show ?thesis using fi unfolding apart_def by (smt (verit) Int_commute fun_upd_apply less_add_one less_antisym Suc_eq_plus1)
  qed
  moreover have "img ?m 1 = super_block" using L low [of 1] put_node_img [OF I, of 1 ip m1] by (simp add: laid_def)
  moreover have "i_type (node ?m j) = 0" if "freeinode m1 \<le> j" "j < ninodes" for j
    using L nj [of j] that i fi by (auto simp: laid_def)
  moreover have "node_ok ?m ((bl(i := b')) j) (node ?m j) ((F(i := nd)) j)" if "0 < j" "j < freeinode m1" for j
    using olds [of j] new that fi by auto
  ultimately show ?thesis using room_put_node [OF rm I] i L by (simp add: laid_def)
qed

lemma unat_small: "n < 2 ^ 32 \<Longrightarrow> unat (of_nat n :: uint) = n"
  by (simp add: unat_of_nat take_bit_nat_eq_self)

definition grown :: "nat \<Rightarrow> nat \<Rightarrow> nat" where
  "grown l k = blocks_for (l + k) - blocks_for l"

lemma laid_owned:
  assumes "laid m bl F" and "0 < i" and "i < freeinode m"
  shows "n \<in> set (owned (fst (bl i)) (snd (bl i))) \<Longrightarrow> 29 \<le> n"
    and "0 < j \<Longrightarrow> j < freeinode m \<Longrightarrow> j \<noteq> i \<Longrightarrow>
      set (owned (fst (bl i)) (snd (bl i))) \<inter> set (owned (fst (bl j)) (snd (bl j))) = {}"
  using assms placed_data [of "fst (bl i)" "snd (bl i)" "freeblock m" n]
  by (cases "F i"; auto simp: laid_def node_ok_def apart_def)+

lemma iappend_holds:
  assumes "holds m F" and "0 < i" and "i < freeinode m" and "F i = (ty, cont, length cont)"
    and "length cont + length p \<le> MAXFILE * 512" and "freeblock m + grown (length cont) (length p) \<le> sectors"
  shows "\<exists>m'. iappend i p m = Inr m' \<and> holds m' (F(i := (ty, cont @ p, length cont + length p))) \<and>
    freeinode m' = freeinode m \<and> freeblock m' = freeblock m + grown (length cont) (length p)"
proof -
  from assms(1) obtain bl where L: "laid m bl F" by (auto simp: holds_def)
  obtain bs ib where b: "bl i = (bs, ib)" by (cases "bl i")
  have I: "i < ninodes" "room m" and ok: "node_ok m (bs, ib) (node m i) (ty, cont, length cont)"
    using L assms(2-4) b by (auto simp: laid_def)
  let ?n = "length cont + length p" and ?din = "node m i"
  have ok': "i_type ?din = ty" "i_nlink ?din = 1" "unat (i_size ?din) = length cont"
    "file_at (img m) ?din bs ib cont" "placed bs ib (freeblock m)" "length bs = ceil512 (length cont)"
    using ok by (simp_all add: node_ok_def)
  from iappend_loop_appends [OF ok'(4,5) I(2) ok'(6) assms(5)] assms(6) obtain din' m1 where
    r: "iappend_loop p (length cont) ?din m = Inr (?n, din', m1)" "appended m ?din bs ib cont p din' m1"
    by (auto simp: grown_def)
  from r(2) obtain bs' ib' where a: "file_at (img m1) din' bs' ib' (cont @ p)" "placed bs' ib' (freeblock m1)" "room m1"
    "length bs' = ceil512 ?n" "only_addrs ?din din'" "grows (set (owned bs ib)) (grown (length cont) (length p)) m m1"
    "set (owned bs' ib') \<subseteq> set (owned bs ib) \<union> {freeblock m ..< freeblock m1}"
    unfolding appended_def grown_def by blast
  let ?ip = "din'\<lparr>i_size := of_nat ?n\<rparr>"
  have g: "freeblock m1 = freeblock m + grown (length cont) (length p)" "freeinode m1 = freeinode m"
    "\<And>n. n < freeblock m \<Longrightarrow> n \<notin> set (owned bs ib) \<Longrightarrow> img m1 n = img m n"
    using a(6) by (auto simp: grows_def)
  have "file_at (img m1) ?ip bs' ib' (cont @ p)" using a(1) by (simp add: file_at_def)
  moreover have "unat (of_nat ?n :: uint) = ?n"
    using assms(5) by (intro unat_small) (simp add: MAXFILE_def NDIRECT_def NINDIRECT_def BSIZE_def)
  ultimately have "node_ok m1 (bs', ib') ?ip (ty, cont @ p, ?n)"
    using a(2,4,5) ok' by (auto simp: node_ok_def only_addrs_def)
  then have "laid (put_node i ?ip m1) (bl(i := (bs', ib'))) (F(i := (ty, cont @ p, ?n)))"
    using laid_update [OF L assms(2), of m1 "set (owned bs ib)" "(bs', ib')" ?ip "(ty, cont @ p, ?n)"]
      laid_owned [OF L assms(2,3)] b g a(3,7) assms(3) L by (simp add: laid_def)
  moreover have "iappend i p m = Inr (put_node i ?ip m1)"
    using rinode_room [OF I(2,1)] ok'(3) r(1) winode_room [OF a(3) I(1)] by (simp add: iappend_def)
  ultimately show ?thesis using g by (auto simp: holds_def)
qed

lemma fix_size_holds:
  assumes "holds m F" and "0 < i" and "i < freeinode m" and "F i = (ty, cont, length cont)"
    and "length cont \<le> MAXFILE * 512"
  shows "\<exists>m'. fix_size i m = Inr m' \<and> holds m' (F(i := (ty, cont, (length cont div BSIZE + 1) * BSIZE))) \<and>
    freeinode m' = freeinode m \<and> freeblock m' = freeblock m"
proof -
  from assms(1) obtain bl where L: "laid m bl F" by (auto simp: holds_def)
  let ?din = "node m i" and ?sz = "(length cont div BSIZE + 1) * BSIZE" and ?O = "set (owned (fst (bl i)) (snd (bl i)))"
  have I: "i < ninodes" "room m" and ok: "node_ok m (bl i) ?din (ty, cont, length cont)"
    using L assms(2-4) by (auto simp: laid_def)
  let ?ip = "?din\<lparr>i_size := (i_size ?din div of_nat BSIZE + 1) * of_nat BSIZE\<rparr>"
  have sz: "unat (i_size ?ip) = ?sz"
  proof -
    have c: "length cont < 2 ^ 32" "length cont div 512 < 2 ^ 32"
      using assms(5) by (simp_all add: MAXFILE_def NDIRECT_def NINDIRECT_def BSIZE_def)
    have l: "i_size ?din = of_nat (length cont)"
      using ok unat_small [OF c(1)] by (simp add: node_ok_def word_unat_eq_iff)
    have "of_nat (length cont) div 512 = (of_nat (length cont div 512) :: uint)"
      using unat_small [OF c(1)] unat_small [OF c(2)] by (simp add: word_unat_eq_iff unat_div)
    then have "i_size ?ip = of_nat ?sz" by (simp add: l BSIZE_def)
    moreover have "?sz < 2 ^ 32" using assms(5) by (simp add: MAXFILE_def NDIRECT_def NINDIRECT_def BSIZE_def)
    ultimately show ?thesis using unat_small [of ?sz] by simp
  qed
  have "node_ok m (bl i) ?ip (ty, cont, ?sz)" using ok sz by (simp add: node_ok_def file_at_def)
  then have "laid (put_node i ?ip m) (bl(i := bl i)) (F(i := (ty, cont, ?sz)))"
    by (intro laid_update [OF L assms(2), of m ?O])
      (use laid_owned [OF L assms(2,3)] assms(3) L in \<open>auto simp: laid_def\<close>)
  moreover have "fix_size i m = Inr (put_node i ?ip m)"
    using rinode_room [OF I(2,1)] winode_room [OF I(2,1)] by (simp add: fix_size_def)
  ultimately show ?thesis by (auto simp: holds_def)
qed

lemma ialloc_holds:
  assumes "holds m F" and "freeinode m < ninodes"
  shows "\<exists>m'. mk_ialloc ty m = Inr (freeinode m, m') \<and> holds m' (F(freeinode m := (ty, [], 0))) \<and>
    freeinode m' = freeinode m + 1 \<and> freeblock m' = freeblock m"
proof -
  from assms(1) obtain bl where L: "laid m bl F" by (auto simp: holds_def)
  let ?i = "freeinode m" and ?ip = "no_inode\<lparr>i_type := ty, i_nlink := 1, i_size := 0\<rparr>"
  let ?m = "m\<lparr>freeinode := ?i + 1\<rparr>"
  have rm: "room ?m" using L by (simp add: laid_def room_def)
  have "node_ok ?m ([], 0) ?ip (ty, [], 0)"
    by (simp add: node_ok_def no_inode_def file_at_def placed_def owned_def ceil512_def)
  then have "laid (put_node ?i ?ip ?m) (bl(?i := ([], 0))) (F(?i := (ty, [], 0)))"
    by (intro laid_update [OF L, of _ _ "{}"]) (use L assms(2) rm in \<open>auto simp: laid_def owned_def\<close>)
  moreover have "mk_ialloc ty m = Inr (?i, put_node ?i ?ip ?m)"
    using winode_room [OF rm assms(2)] by (simp add: mk_ialloc_def Let_def)
  ultimately show ?thesis by (auto simp: holds_def)
qed

section \<open>The tree\<close>

text \<open>What a directory of the host becomes: the number of its inodes and of its blocks, and the entries.\<close>

definition dots :: "byte list \<Rightarrow> bool" where
  "dots name \<longleftrightarrow> name = [46] \<or> name = [46, 46]"

fun nodes :: "host \<Rightarrow> nat" and nodes_all :: "(byte list \<times> host) list \<Rightarrow> nat" where
  "nodes (HFile chunks) = 1"
| "nodes (HDir es) = 1 + nodes_all es"
| "nodes HBad = 0"
| "nodes_all [] = 0"
| "nodes_all (e # es) = (if dots (fst e) then 0 else nodes (snd e)) + nodes_all es"

fun listing :: "nat \<Rightarrow> (byte list \<times> host) list \<Rightarrow> byte list" where
  "listing n [] = []"
| "listing n (e # es) = (if dots (fst e) then listing n es
     else dirent n (fst e) @ listing (n + nodes (snd e)) es)"

definition dir_bytes :: "nat \<Rightarrow> nat \<Rightarrow> (byte list \<times> host) list \<Rightarrow> byte list" where
  "dir_bytes i parent es = dirent i [46] @ dirent parent [46, 46] @ listing (i + 1) es"

fun takes :: "host \<Rightarrow> nat" and takes_all :: "(byte list \<times> host) list \<Rightarrow> nat" where
  "takes (HFile chunks) = blocks_for (length (concat chunks))"
| "takes (HDir es) = blocks_for (length (dir_bytes 0 0 es)) + takes_all es"
| "takes HBad = 0"
| "takes_all [] = 0"
| "takes_all (e # es) = (if dots (fst e) then 0 else takes (snd e)) + takes_all es"

fun fits :: "host \<Rightarrow> bool" and fits_all :: "(byte list \<times> host) list \<Rightarrow> bool" where
  "fits (HFile chunks) = (length (concat chunks) \<le> MAXFILE * 512)"
| "fits (HDir es) = fits_all es"
| "fits HBad = False"
| "fits_all [] = True"
| "fits_all (e # es) = ((dots (fst e) \<or> fits (snd e)) \<and> fits_all es)"

text \<open>
  The files \<open>F\<close> show the tree: inode \<open>i\<close> has the bytes of the file, or the entries of the directory, whose
  inodes follow in the order of the entries.
\<close>

fun tree_at :: "files \<Rightarrow> nat \<Rightarrow> nat \<Rightarrow> host \<Rightarrow> bool"
  and entries_at :: "files \<Rightarrow> nat \<Rightarrow> nat \<Rightarrow> (byte list \<times> host) list \<Rightarrow> bool" where
  "tree_at F parent i (HFile chunks) = (F i = (T_FILE, concat chunks, length (concat chunks)))"
| "tree_at F parent i (HDir es) = (F i = (T_DIR, dir_bytes i parent es, (length (dir_bytes i parent es) div BSIZE + 1) * BSIZE) \<and>
     entries_at F i (i + 1) es)"
| "tree_at F parent i HBad = False"
| "entries_at F dir n [] = True"
| "entries_at F dir n (e # es) = (if dots (fst e) then entries_at F dir n es
     else tree_at F dir n (snd e) \<and> entries_at F dir (n + nodes (snd e)) es)"

lemma length_dirent [simp]: "length (dirent i name) = 16"
  by (simp add: dirent_def DIRSIZ_def)

lemma length_listing: "length (listing n es) = length (listing 0 es)"
proof (induction es arbitrary: n)
  case (Cons e es)
  show ?case by (simp add: Cons.IH [of "nodes (snd e)"] Cons.IH [of n] Cons.IH [of "n + nodes (snd e)"])
qed simp

lemma length_dir_bytes: "length (dir_bytes i p es) = 32 + length (listing 0 es)"
  using length_listing [of "Suc i" es] by (simp add: dir_bytes_def)

lemma nodes_pos: "fits h \<Longrightarrow> 0 < nodes h"
  by (cases h) auto

lemma listing_bound: "fits_all es \<Longrightarrow> length (listing 0 es) \<le> 16 * nodes_all es"
proof (induction es)
  case (Cons e es)
  then show ?case using nodes_pos [of "snd e"] length_listing [of "nodes (snd e)" es] by (auto split: if_splits)
qed simp

lemma tree_at_cong:
  "(\<And>j. i \<le> j \<Longrightarrow> j < i + nodes h \<Longrightarrow> F j = G j) \<Longrightarrow> tree_at F p i h = tree_at G p i h"
  "(\<And>j. n \<le> j \<Longrightarrow> j < n + nodes_all es \<Longrightarrow> F j = G j) \<Longrightarrow> entries_at F d n es = entries_at G d n es"
proof (induction h and es arbitrary: p i and d n rule: nodes_nodes_all.induct)
  case (2 es)
  have "F i = G i" using 2(2) by simp
  moreover have "entries_at F i (i + 1) es = entries_at G i (i + 1) es" using 2(2) by (intro 2(1)) simp
  ultimately show ?case by simp
next
  case (5 e es)
  show ?case
  proof (cases "dots (fst e)")
    case True
    then have "entries_at F d n es = entries_at G d n es" using 5(3) by (intro 5(2)) simp
    with True show ?thesis by simp
  next
    case False
    then have "tree_at F d n (snd e) = tree_at G d n (snd e)" using 5(3) by (intro 5(1)) auto
    moreover have "entries_at F d (n + nodes (snd e)) es = entries_at G d (n + nodes (snd e)) es"
      using 5(3) False by (intro 5(2)) auto
    ultimately show ?thesis using False by simp
  qed
qed auto

lemma blocks_for_0 [simp]: "blocks_for 0 = 0"
  by (simp add: blocks_for_def ceil512_def)

lemma grown_add: "grown l (a + b) = grown l a + grown (l + a) b"
  using blocks_for_mono [of l "l + a"] blocks_for_mono [of "l + a" "l + a + b"] by (simp add: grown_def add.assoc)

lemma grown_0 [simp]: "grown l 0 = 0" "grown 0 l = blocks_for l"
  by (simp_all add: grown_def)

lemma append_all_holds:
  assumes "holds m F" and "0 < i" and "i < freeinode m" and "F i = (ty, cont, length cont)"
    and "length cont + length (concat cs) \<le> MAXFILE * 512"
    and "freeblock m + grown (length cont) (length (concat cs)) \<le> sectors"
  shows "\<exists>m'. append_all i cs m = Inr m' \<and> holds m' (F(i := (ty, cont @ concat cs, length cont + length (concat cs)))) \<and>
    freeinode m' = freeinode m \<and> freeblock m' = freeblock m + grown (length cont) (length (concat cs))"
  using assms
proof (induction cs arbitrary: cont F m)
  case Nil
  then show ?case by (auto simp: fun_upd_idem)
next
  case (Cons c cs)
  have g: "grown (length cont) (length (concat (c # cs))) = grown (length cont) (length c) + grown (length cont + length c) (length (concat cs))"
    using grown_add by simp
  then have "length cont + length c \<le> MAXFILE * 512" "freeblock m + grown (length cont) (length c) \<le> sectors"
    using Cons.prems(5,6) by simp_all
  from iappend_holds [OF Cons.prems(1-4) this] obtain m1 where
    a: "iappend i c m = Inr m1" "holds m1 (F(i := (ty, cont @ c, length cont + length c)))"
    "freeinode m1 = freeinode m" "freeblock m1 = freeblock m + grown (length cont) (length c)" by blast
  have "\<exists>m'. append_all i cs m1 = Inr m' \<and>
      holds m' ((F(i := (ty, cont @ c, length cont + length c)))(i := (ty, (cont @ c) @ concat cs, length (cont @ c) + length (concat cs)))) \<and>
      freeinode m' = freeinode m1 \<and> freeblock m' = freeblock m1 + grown (length (cont @ c)) (length (concat cs))"
    by (intro Cons.IH) (use Cons.prems(2,3,5,6) a g in \<open>simp_all add: add.assoc del: fun_upd_apply add: fun_upd_same\<close>)
  with a g show ?case by (auto simp: add.assoc simp del: fun_upd_apply)
qed

text \<open>
  A directory under construction: the rest takes \<open>k\<close> inodes, \<open>n\<close> blocks for the files in it, and \<open>l\<close>
  bytes in the directory itself.
\<close>

definition ready :: "fsimg \<Rightarrow> files \<Rightarrow> nat \<Rightarrow> byte list \<Rightarrow> nat \<Rightarrow> nat \<Rightarrow> nat \<Rightarrow> bool" where
  "ready m F cur cont k n l \<longleftrightarrow> holds m F \<and> 0 < cur \<and> cur < freeinode m \<and> F cur = (T_DIR, cont, length cont) \<and>
     freeinode m + k \<le> ninodes \<and> length cont + l \<le> MAXFILE * 512 \<and> freeblock m + n + grown (length cont) l \<le> sectors"

definition built :: "fsimg \<Rightarrow> files \<Rightarrow> nat \<Rightarrow> byte list \<Rightarrow> byte list \<Rightarrow> nat \<Rightarrow> nat \<Rightarrow> (files \<Rightarrow> bool) \<Rightarrow> mkfs_err + fsimg \<Rightarrow> bool" where
  "built m F cur cont new k n Q r \<longleftrightarrow> (\<exists>m' G. r = Inr m' \<and> holds m' G \<and> freeinode m' = freeinode m + k \<and>
     freeblock m' = freeblock m + n + grown (length cont) (length new) \<and>
     G cur = (T_DIR, cont @ new, length cont + length new) \<and> Q G \<and> (\<forall>i<freeinode m. i \<noteq> cur \<longrightarrow> G i = F i))"

lemma dots_built:
  assumes "holds m F" and "0 < c" and "c < freeinode m" and "F c = (T_DIR, [], 0)" and "freeblock m < sectors"
  shows "\<exists>m'. add_dots c p m = Inr m' \<and>
    holds m' (F(c := (T_DIR, dirent c [46] @ dirent p [46, 46], 32))) \<and> freeinode m' = freeinode m \<and>
    freeblock m' = freeblock m + 1"
proof -
  have b: "blocks_for 16 = 1" "grown 16 16 = 0" by (simp_all add: grown_def blocks_for_def ceil512_def NDIRECT_def)
  have m: "(32::nat) \<le> MAXFILE * 512" by (simp add: MAXFILE_def NDIRECT_def NINDIRECT_def BSIZE_def)
  let ?F = "F(c := (T_DIR, [] @ dirent c [46], length ([] :: byte list) + length (dirent c [46])))"
  from iappend_holds [OF assms(1-3), of T_DIR "[]" "dirent c [46]"] assms(4,5) b(1) m obtain m1 where
    1: "iappend c (dirent c [46]) m = Inr m1" "holds m1 ?F" "freeinode m1 = freeinode m" "freeblock m1 = freeblock m + 1"
    by auto
  from iappend_holds [OF 1(2) assms(2), of T_DIR "dirent c [46]" "dirent p [46, 46]"] assms(3,5) 1(3,4) b m obtain m2 where
    2: "iappend c (dirent p [46, 46]) m1 = Inr m2" "freeinode m2 = freeinode m" "freeblock m2 = freeblock m + 1"
      "holds m2 (?F(c := (T_DIR, dirent c [46] @ dirent p [46, 46], length (dirent c [46]) + length (dirent p [46, 46]))))"
    by (auto simp del: fun_upd_apply simp: fun_upd_same)
  with 1 show ?thesis by (simp add: add_dots_def del: fun_upd_apply)
qed

lemma dir_built:
  assumes ih: "\<And>m F cur cont. ready m F cur cont (nodes_all es) (takes_all es) (length (listing 0 es)) \<Longrightarrow>
      built m F cur cont (listing (freeinode m) es) (nodes_all es) (takes_all es)
        (\<lambda>G. entries_at G cur (freeinode m) es) (add_children cur es m)"
    and c: "holds m F" "0 < c" "c + 1 = freeinode m" "F c = (T_DIR, [], 0)"
    and fit: "fits_all es" "freeinode m + nodes_all es \<le> ninodes" "freeblock m + takes (HDir es) \<le> sectors"
  shows "\<exists>m' G. add_dir (Some es) c p m = Inr m' \<and> holds m' G \<and> freeinode m' = freeinode m + nodes_all es \<and>
    freeblock m' = freeblock m + takes (HDir es) \<and> tree_at G p c (HDir es) \<and> (\<forall>i<c. G i = F i)"
proof -
  let ?l = "length (listing 0 es)" and ?ds = "dirent c [46] @ dirent p [46, 46]"
  have l: "?l \<le> 16 * 200" using listing_bound [OF fit(1)] fit(2) by (simp add: ninodes_def)
  have M: "32 + ?l \<le> MAXFILE * 512" using l by (simp add: MAXFILE_def NDIRECT_def NINDIRECT_def BSIZE_def)
  have g: "blocks_for (32 + ?l) = 1 + grown 32 ?l" "blocks_for 32 = 1"
    using grown_add [of 0 32 ?l] by (simp_all add: blocks_for_def ceil512_def NDIRECT_def)
  have t: "takes (HDir es) = 1 + grown 32 ?l + takes_all es" using g by (simp add: length_dir_bytes)
  have "c < freeinode m" "freeblock m < sectors" using c(3) fit(3) t by simp_all
  from dots_built [OF c(1,2) this(1) c(4) this(2)] obtain m1 where
    1: "add_dots c p m = Inr m1" "holds m1 (F(c := (T_DIR, ?ds, 32)))" "freeinode m1 = freeinode m" "freeblock m1 = freeblock m + 1"
    by blast
  have "ready m1 (F(c := (T_DIR, ?ds, 32))) c ?ds (nodes_all es) (takes_all es) ?l"
    unfolding ready_def using 1 c(2,3) fit(2,3) M t by (simp add: fun_upd_same del: fun_upd_apply)
  from ih [OF this] obtain m2 G where
    2: "add_children c es m1 = Inr m2" "holds m2 G" "freeinode m2 = freeinode m + nodes_all es"
      "freeblock m2 = freeblock m + takes (HDir es)" "G c = (T_DIR, dir_bytes c p es, length (dir_bytes c p es))"
      "entries_at G c (c + 1) es" "\<forall>i<freeinode m. i \<noteq> c \<longrightarrow> G i = F i"
    unfolding built_def using 1(3,4) c(3) t length_listing [of "freeinode m" es]
    by (auto simp: dir_bytes_def)
  have "c < freeinode m2" "length (dir_bytes c p es) \<le> MAXFILE * 512" using 2(3) c(3) M by (simp_all add: length_dir_bytes)
  from fix_size_holds [OF 2(2) c(2) this(1) 2(5) this(2)] obtain m3 where
    3: "fix_size c m2 = Inr m3" "freeinode m3 = freeinode m2" "freeblock m3 = freeblock m2"
      "holds m3 (G(c := (T_DIR, dir_bytes c p es, (length (dir_bytes c p es) div BSIZE + 1) * BSIZE)))" by blast
  let ?G = "G(c := (T_DIR, dir_bytes c p es, (length (dir_bytes c p es) div BSIZE + 1) * BSIZE))"
  have "entries_at ?G c (c + 1) es = entries_at G c (c + 1) es" by (rule tree_at_cong(2)) auto
  then have "tree_at ?G p c (HDir es)" using 2(6) by simp
  moreover have "add_dir (Some es) c p m = Inr m3" using 1(1) 2(1) 3(1) by (simp add: add_dir_def)
  moreover have "\<forall>i<c. ?G i = F i" using 2(7) c(3) by auto
  ultimately show ?thesis using 2(3,4) 3(2-4) by (intro exI [of _ m3] exI [of _ ?G]) simp
qed

lemma entry_built:
  assumes rdy: "ready m F cur cont (nodes h) (takes h) 16"
    and h: "holds m2 G" "freeinode m2 = freeinode m + nodes h" "freeblock m2 = freeblock m + takes h"
      "tree_at G cur (freeinode m) h" "\<forall>i<freeinode m. G i = F i"
  shows "built m F cur cont (dirent (freeinode m) name) (nodes h) (takes h) (\<lambda>G. tree_at G cur (freeinode m) h)
    (iappend cur (dirent (freeinode m) name) m2)"
proof -
  let ?p = "dirent (freeinode m) name"
  let ?G = "G(cur := (T_DIR, cont @ ?p, length cont + length ?p))"
  have c: "0 < cur" "cur < freeinode m" "G cur = (T_DIR, cont, length cont)"
    "length cont + 16 \<le> MAXFILE * 512" "freeblock m2 + grown (length cont) 16 \<le> sectors"
    using rdy h by (auto simp: ready_def)
  then have "cur < freeinode m2" using h(2) by simp
  from iappend_holds [OF h(1) c(1) this c(3), of ?p] c(4,5) obtain m3 where
    3: "iappend cur ?p m2 = Inr m3" "freeinode m3 = freeinode m2" "freeblock m3 = freeblock m2 + grown (length cont) (length ?p)"
      "holds m3 ?G" by auto
  have "tree_at ?G cur (freeinode m) h = tree_at G cur (freeinode m) h" using c(2) by (intro tree_at_cong(1)) auto
  with 3 h show ?thesis unfolding built_def by (intro exI [of _ m3] exI [of _ ?G]) simp
qed

lemma add_entry_dir:
  "add_child cur name (HDir es) m = bindR (mk_ialloc T_DIR m) (\<lambda>(child, m).
     bindR (add_dir (Some es) child cur m) (iappend cur (dirent child name)))"
  by (auto simp: add_dir_def bindR_def split: sum.splits)

lemma add_file_built:
  assumes "length (concat chunks) \<le> MAXFILE * 512" and rdy: "ready m F cur cont (nodes (HFile chunks)) (takes (HFile chunks)) 16"
  shows "built m F cur cont (dirent (freeinode m) name) (nodes (HFile chunks)) (takes (HFile chunks))
    (\<lambda>G. tree_at G cur (freeinode m) (HFile chunks)) (add_child cur name (HFile chunks) m)"
proof -
  let ?c = "freeinode m"
  have r: "holds m F" "?c < ninodes" "freeblock m + blocks_for (length (concat chunks)) \<le> sectors" "0 < ?c"
    using rdy by (simp_all add: ready_def)
  from ialloc_holds [OF r(1,2), of T_FILE] obtain m1 where
    1: "mk_ialloc T_FILE m = Inr (?c, m1)" "holds m1 (F(?c := (T_FILE, [], 0)))" "freeinode m1 = ?c + 1"
      "freeblock m1 = freeblock m" by blast
  from append_all_holds [OF 1(2) r(4), of T_FILE "[]" chunks] 1(3,4) assms(1) r(3) obtain m2 where
    2: "append_all ?c chunks m1 = Inr m2" "freeinode m2 = freeinode m + nodes (HFile chunks)"
      "freeblock m2 = freeblock m + takes (HFile chunks)"
      "holds m2 ((F(?c := (T_FILE, [], 0)))(?c := (T_FILE, concat chunks, length (concat chunks))))"
    by (auto simp: fun_upd_same simp del: fun_upd_apply)
  with 1 entry_built [OF rdy 2(4,2,3)] show ?thesis by simp
qed

lemma add_dir_built:
  assumes ih: "\<And>m F cur cont. ready m F cur cont (nodes_all es) (takes_all es) (length (listing 0 es)) \<Longrightarrow>
      built m F cur cont (listing (freeinode m) es) (nodes_all es) (takes_all es)
        (\<lambda>G. entries_at G cur (freeinode m) es) (add_children cur es m)"
    and "fits_all es" and rdy: "ready m F cur cont (nodes (HDir es)) (takes (HDir es)) 16"
  shows "built m F cur cont (dirent (freeinode m) name) (nodes (HDir es)) (takes (HDir es))
    (\<lambda>G. tree_at G cur (freeinode m) (HDir es)) (add_child cur name (HDir es) m)"
proof -
  let ?c = "freeinode m"
  have r: "holds m F" "?c < ninodes" "freeblock m + takes (HDir es) \<le> sectors" "0 < ?c" "?c + 1 + nodes_all es \<le> ninodes"
    using rdy by (simp_all add: ready_def)
  from ialloc_holds [OF r(1,2), of T_DIR] obtain m1 where
    1: "mk_ialloc T_DIR m = Inr (?c, m1)" "holds m1 (F(?c := (T_DIR, [], 0)))" "freeinode m1 = ?c + 1"
      "freeblock m1 = freeblock m" by blast
  have "\<exists>m2 G. add_dir (Some es) ?c cur m1 = Inr m2 \<and> holds m2 G \<and> freeinode m2 = freeinode m1 + nodes_all es \<and>
      freeblock m2 = freeblock m1 + takes (HDir es) \<and> tree_at G cur ?c (HDir es) \<and>
      (\<forall>i<?c. G i = (F(?c := (T_DIR, [], 0))) i)"
    by (rule dir_built [OF ih 1(2) r(4) _ _ assms(2)]) (use 1(3,4) r(3,5) in simp_all)
  then obtain m2 G where 2: "add_dir (Some es) ?c cur m1 = Inr m2" "holds m2 G"
      "freeinode m2 = freeinode m + nodes (HDir es)" "freeblock m2 = freeblock m + takes (HDir es)"
      "tree_at G cur ?c (HDir es)" "\<forall>i<?c. G i = F i"
    using 1(3,4) by auto
  from entry_built [OF rdy 2(2-6)] 1(1) 2(1) show ?thesis unfolding add_entry_dir by simp
qed

lemma built_cons:
  assumes "fits h" and rdy: "ready m F cur cont (nodes h + k) (takes h + n) (16 + l)"
    and h: "ready m F cur cont (nodes h) (takes h) 16 \<Longrightarrow> built m F cur cont (dirent (freeinode m) name) (nodes h) (takes h)
      (\<lambda>G. tree_at G cur (freeinode m) h) (add_child cur name h m)"
    and es: "\<And>m F cont. ready m F cur cont k n l \<Longrightarrow> built m F cur cont (listing (freeinode m) es) k n
      (\<lambda>G. entries_at G cur (freeinode m) es) (add_children cur es m)"
    and l: "length (listing 0 es) = l"
  shows "built m F cur cont (dirent (freeinode m) name @ listing (freeinode m + nodes h) es) (nodes h + k) (takes h + n)
    (\<lambda>G. tree_at G cur (freeinode m) h \<and> entries_at G cur (freeinode m + nodes h) es)
    (bindR (add_child cur name h m) (add_children cur es))"
proof -
  let ?c = "freeinode m" and ?p = "dirent (freeinode m) name"
  have g: "grown (length cont) (16 + l) = grown (length cont) 16 + grown (length cont + 16) l" by (rule grown_add)
  have "ready m F cur cont (nodes h) (takes h) 16" using rdy g by (simp add: ready_def)
  from h [OF this] obtain m1 G where 1: "add_child cur name h m = Inr m1" "holds m1 G" "freeinode m1 = ?c + nodes h"
    "freeblock m1 = freeblock m + takes h + grown (length cont) 16" "G cur = (T_DIR, cont @ ?p, length cont + 16)"
    "tree_at G cur ?c h" "\<forall>i<?c. i \<noteq> cur \<longrightarrow> G i = F i" by (auto simp: built_def)
  have "ready m1 G cur (cont @ ?p) k n l" using rdy 1 g by (simp add: ready_def)
  from es [OF this] obtain m2 H where 2: "add_children cur es m1 = Inr m2" "holds m2 H" "freeinode m2 = ?c + nodes h + k"
    "freeblock m2 = freeblock m1 + n + grown (length cont + 16) l"
    "H cur = (T_DIR, (cont @ ?p) @ listing (?c + nodes h) es, length cont + 16 + l)"
    "entries_at H cur (?c + nodes h) es" "\<forall>i<?c + nodes h. i \<noteq> cur \<longrightarrow> H i = G i"
    using l length_listing [of "?c + nodes h" es] 1(3) by (auto simp: built_def)
  have "cur < ?c" using rdy by (simp add: ready_def)
  then have "tree_at H cur ?c h = tree_at G cur ?c h" using 2(7) by (intro tree_at_cong(1)) auto
  with 1 2 g l length_listing [of "?c + nodes h" es] show ?thesis
    unfolding built_def by (intro exI [of _ m2] exI [of _ H]) simp
qed

lemma tree_built:
  "fits h \<Longrightarrow> ready m F cur cont (nodes h) (takes h) 16 \<Longrightarrow> built m F cur cont (dirent (freeinode m) name) (nodes h) (takes h)
     (\<lambda>G. tree_at G cur (freeinode m) h) (add_child cur name h m)"
  "fits_all es \<Longrightarrow> ready m F cur cont (nodes_all es) (takes_all es) (length (listing 0 es)) \<Longrightarrow>
     built m F cur cont (listing (freeinode m) es) (nodes_all es) (takes_all es)
        (\<lambda>G. entries_at G cur (freeinode m) es) (add_children cur es m)"
proof (induction h and es arbitrary: m F cur cont name and m F cur cont rule: nodes_nodes_all.induct)
  case (1 chunks)
  then show ?case by (intro add_file_built) simp_all
next
  case (2 es)
  then show ?case by (intro add_dir_built) simp_all
next
  case 4
  then show ?case by (auto simp: built_def ready_def)
next
  case (5 e es)
  show ?case
  proof (cases "dots (fst e)")
    case True
    with 5 show ?thesis by (simp add: dots_def)
  next
    case False
    then have f: "fits (snd e)" "fits_all es" using 5(3) by auto
    have l: "length (listing (0 + nodes (snd e)) es) = length (listing 0 es)" by (rule length_listing)
    have "built m F cur cont (dirent (freeinode m) (fst e) @ listing (freeinode m + nodes (snd e)) es)
      (nodes (snd e) + nodes_all es) (takes (snd e) + takes_all es)
      (\<lambda>G. tree_at G cur (freeinode m) (snd e) \<and> entries_at G cur (freeinode m + nodes (snd e)) es)
      (bindR (add_child cur (fst e) (snd e) m) (add_children cur es))"
      by (rule built_cons [OF f(1) _ _ _ refl]) (use 5 f False l in simp_all)
    then show ?thesis using False by (simp add: dots_def)
  qed
qed simp

section \<open>The image\<close>

lemma zero_sector: "wsect n (\<lambda>_. 0) (m\<lparr>img := (\<lambda>_ _. 0), img_len := n\<rparr>) = m\<lparr>img := (\<lambda>_ _. 0), img_len := Suc n\<rparr>"
  by (simp add: wsect_def cong: if_cong)

lemma zero_sectors:
  "fold (\<lambda>i. wsect i (\<lambda>_. 0)) [0 ..< n] (m\<lparr>img := (\<lambda>_ _. 0), img_len := 0\<rparr>) = m\<lparr>img := (\<lambda>_ _. 0), img_len := n\<rparr>"
  by (induction n) (simp_all add: zero_sector)

lemma mkfs_holds:
  "\<exists>m. mkfs new_image = Inr m \<and> holds m F \<and> freeinode m = 1 \<and> freeblock m = first_data"
proof -
  let ?u = "ninodes div IPB + 3 + bitblocks"
  let ?m = "\<lparr>img = (\<lambda>_ _. 0)(1 := super_block), img_len = sectors, freeblock = ?u, usedblocks = ?u, freeinode = 1\<rparr>"
  have s: "nblocks + ?u = sectors" "1 < sectors" "max sectors 2 = sectors" by (simp_all add: sizes nblocks_def)
  have "fold (\<lambda>i. wsect i (\<lambda>_. 0)) [0 ..< sectors] (new_image\<lparr>usedblocks := ?u, freeblock := ?u\<rparr>) =
      \<lparr>img = (\<lambda>_ _. 0), img_len = sectors, freeblock = ?u, usedblocks = ?u, freeinode = 1\<rparr>"
    using zero_sectors [of sectors "new_image\<lparr>usedblocks := ?u, freeblock := ?u\<rparr>"] by (simp add: new_image_def)
  moreover have "wsect 1 super_block \<lparr>img = (\<lambda>_ _. 0), img_len = sectors, freeblock = ?u, usedblocks = ?u, freeinode = 1\<rparr> = ?m"
    using s(2,3) by (auto simp: wsect_def fun_eq_iff)
  ultimately have "mkfs new_image = Inr ?m"
    using s by (simp add: mkfs_def Let_def super_block_def)
  moreover have "i_type (node ?m i) = 0" if "i < ninodes" for i
  proof -
    have "i2b i \<noteq> 1" using i2b_range [OF that] by simp
    then show ?thesis by (simp add: node_def get_inode_def load16_def)
  qed
  moreover have "room ?m" by (simp add: room_def sizes)
  ultimately have "mkfs new_image = Inr ?m \<and> laid ?m (\<lambda>_. ([], 0)) F"
    by (simp add: laid_def apart_def ninodes_def)
  then show ?thesis by (auto simp: holds_def first_data_def)
qed

lemma first_bits: "bit_free (fold bit_take [0 ..< n] (\<lambda>_. 0)) b \<longleftrightarrow> n \<le> b"
  by (induction n) (auto simp: bit_free_take, simp add: bit_free_iff)

lemma holds_bitmap:
  assumes "holds m F"
  shows "holds (m\<lparr>img := (img m)(28 := d)\<rparr>) F"
proof -
  let ?m = "m\<lparr>img := (img m)(28 := d)\<rparr>"
  from assms obtain bl where L: "laid m bl F" by (auto simp: holds_def)
  have n: "node ?m i = node m i" if "i < ninodes" for i using i2b_range [OF that] by (simp add: node_def)
  have "node_ok ?m (bl i) (node ?m i) (F i)" if i: "0 < i" "i < freeinode m" for i
  proof -
    have k: "node_ok m (bl i) (node m i) (F i)" using L i by (simp add: laid_def)
    show ?thesis using node_ok_cong [OF k, of ?m] laid_owned(1) [OF L i] n [of i] i L by (fastforce simp: laid_def)
  qed
  moreover have "room ?m" using L by (auto simp: laid_def room_def first_data_def sizes)
  ultimately have "laid ?m bl F" using L n by (simp add: laid_def)
  then show ?thesis by (auto simp: holds_def)
qed

lemma image_built:
  assumes "fits (HDir es)" and "nodes (HDir es) < ninodes" and "takes (HDir es) \<le> nblocks"
  shows "\<exists>m F. mkfs_main (Some es) = Inr m \<and> holds m F \<and> freeinode m = nodes (HDir es) + 1 \<and> tree_at F 1 1 (HDir es) \<and>
    (\<forall>b < sectors. bit_free (img m 28) b \<longleftrightarrow> first_data + takes (HDir es) \<le> b)"
proof -
  from mkfs_holds obtain m0 where 0: "mkfs new_image = Inr m0" "holds m0 (\<lambda>_. (0, [], 0))" "freeinode m0 = 1"
    "freeblock m0 = first_data" by blast
  have n: "1 < ninodes" "nblocks + first_data = sectors" by (simp_all add: nblocks_def sizes)
  with ialloc_holds [OF 0(2), of T_DIR] 0(3,4) obtain m1 where 1: "mk_ialloc T_DIR m0 = Inr (1, m1)"
    "holds m1 ((\<lambda>_. (0, [], 0))(1 := (T_DIR, [], 0)))" "freeinode m1 = 2" "freeblock m1 = first_data" by auto
  have "\<exists>m2 G. add_dir (Some es) 1 1 m1 = Inr m2 \<and> holds m2 G \<and> freeinode m2 = freeinode m1 + nodes_all es \<and>
      freeblock m2 = freeblock m1 + takes (HDir es) \<and> tree_at G 1 1 (HDir es) \<and>
      (\<forall>i<1. G i = ((\<lambda>_. (0, [], 0))(1 := (T_DIR, [], 0))) i)"
    by (rule dir_built [OF tree_built(2) 1(2)]) (use 1(3,4) assms n in simp_all)
  then obtain m2 G where 2: "add_dir (Some es) 1 1 m1 = Inr m2" "holds m2 G" "freeinode m2 = nodes (HDir es) + 1"
      "freeblock m2 = first_data + takes (HDir es)" "tree_at G 1 1 (HDir es)"
    using 1(3,4) by auto
  let ?d = "fold bit_take [0 ..< usedblocks m2] (\<lambda>_. 0)"
  have r: "room m2" using 2(2) by (auto simp: holds_def laid_def)
  then have u: "usedblocks m2 = freeblock m2" "usedblocks m2 \<le> sectors" by (simp_all add: room_def)
  have b: "ninodes div IPB + 3 = 28" by (simp add: ninodes_def IPB_def)
  have "mk_balloc (usedblocks m2) m2 = Inr (m2\<lparr>img := (img m2)(28 := ?d)\<rparr>)"
    using u(2) wsect_room [OF r, of 28 ?d] unfolding mk_balloc_def b by (simp add: sectors_def)
  then have "mkfs_main (Some es) = Inr (m2\<lparr>img := (img m2)(28 := ?d)\<rparr>)"
    using 0(1) 1(1) 2(1) by (simp add: mkfs_main_def ROOTINO_def)
  with 2 holds_bitmap [OF 2(2)] u first_bits show ?thesis by fastforce
qed

definition small_tree :: "(byte list \<times> host) list" where
  "small_tree = [([46], HBad), ([97], HFile [[1, 2], [3]]), ([98], HDir [([99], HFile [])])]"

lemma small_fits: "fits (HDir small_tree)" "nodes (HDir small_tree) < ninodes" "takes (HDir small_tree) \<le> nblocks"
  by (simp_all add: small_tree_def dots_def ninodes_def nblocks_def length_dir_bytes blocks_for_def ceil512_def sizes)

lemma small_tree_at:
  "tree_at F 1 1 (HDir small_tree) \<Longrightarrow> F 2 = (T_FILE, [1, 2, 3], 3) \<and> F 4 = (T_FILE, [], 0)" "nodes (HDir small_tree) = 4"
proof -
  assume "tree_at F 1 1 (HDir small_tree)"
  then have "F (Suc (Suc 0)) = (T_FILE, [1, 2, 3], 3)" "F (Suc (Suc (Suc (Suc 0)))) = (T_FILE, [], 0)"
    by (simp_all add: small_tree_def dots_def)
  then show "F 2 = (T_FILE, [1, 2, 3], 3) \<and> F 4 = (T_FILE, [], 0)" by (simp add: eval_nat_numeral)
next
  show "nodes (HDir small_tree) = 4" by (simp add: small_tree_def dots_def)
qed

lemma small_image:
  "\<exists>m F. mkfs_main (Some small_tree) = Inr m \<and> holds m F \<and> freeinode m = 5 \<and> F 2 = (T_FILE, [1, 2, 3], 3)"
  using image_built [OF small_fits] small_tree_at by fastforce

text \<open>
  Claim C11.  Of a directory of the host whose files are not longer than \<open>MAXFILE\<close> blocks, with fewer than 200
  files and directories and whose data fits into 995 blocks, \<^verbatim>\<open>mkfs\<close> makes an image, without a failed assertion: the
  root is inode 1, every directory has its entries (\<open>.\<close>, \<open>..\<close> and one for each file or directory of the host, with
  the number of its inode), every file has its bytes, no block belongs to two files, and the bitmap has the blocks in
  use and no other.
\<close>

theorem mkfs_builds_tree:
  assumes "fits (HDir es)" and "nodes (HDir es) < ninodes" and "takes (HDir es) \<le> nblocks"
  shows "\<exists>m F. mkfs_main (Some es) = Inr m \<and> holds m F \<and> freeinode m = nodes (HDir es) + 1 \<and> tree_at F 1 1 (HDir es) \<and>
    (\<forall>b < sectors. bit_free (img m 28) b \<longleftrightarrow> first_data + takes (HDir es) \<le> b)"
  by (rule image_built [OF assms])

theorem mkfs_builds_tree_witness:
  "\<exists>m F. mkfs_main (Some small_tree) = Inr m \<and> holds m F \<and> F 2 = (T_FILE, [1, 2, 3], 3) \<and> F 4 = (T_FILE, [], 0)"
  using mkfs_builds_tree [OF small_fits] small_tree_at(1) by fast

section \<open>The kernel on the image\<close>

text \<open>The kernel's view of a sector number: the blocks of an inode, a sector's inode and its place there.\<close>

lemma kernel_inode:
  assumes "i < ninodes"
  shows "IBLOCK (of_nat i) = of_nat (i2b i)" "dinode_at (of_nat i) = islot i"
proof -
  have i: "i < 200" using assms by (simp add: ninodes_def)
  have "unat (of_nat i :: uint) = i" using i by (simp add: unat_of_nat)
  moreover have "(of_nat i :: uint) div 8 = of_nat (i div 8)"
    using i by (simp add: word_unat_eq_iff unat_div unat_of_nat)
  ultimately show "IBLOCK (of_nat i) = of_nat (i2b i)" "dinode_at (of_nat i) = islot i"
    by (simp_all add: IBLOCK_def i2b_def IPB_def dinode_at_def islot_def)
qed

text \<open>The disk \<open>1\<close> of the kernel has the sectors of the image.\<close>

definition boots :: "'a kfs_scheme \<Rightarrow> fsimg \<Rightarrow> bool" where
  "boots s m \<longleftrightarrow> bc_inv s {} \<and> havedisk1 (bcache s) \<and> (\<forall>b < sectors. bc_stored s (1, of_nat b) = img m b)"

lemma file_at_mapped:
  assumes f: "file_at (img m) din bs ib cont" "placed bs ib (freeblock m)" "freeblock m \<le> sectors"
    and s: "boots s m" "i_dev (ino s ip) = 1" "same_meta (ino s ip) din" and k: "k < length bs"
  shows "file_block s ip k = of_nat (bs ! k)" and "mapped s ip k"
proof -
  have o: "b < sectors \<and> 29 \<le> b" if "b \<in> set (owned bs ib)" for b using placed_less [OF f(2,3) that] by simp
  have u: "bc_usable s (1, of_nat b)" if "b < sectors" for b
    using s(1) that by (simp add: boots_def bc_usable_def sane_def word_less_nat_alt sectors_def unat_of_nat)
  have bk: "bs ! k < sectors" "29 \<le> bs ! k" using o [of "bs ! k"] k by (auto simp: owned_def)
  have M: "k < MAXFILE" using f(1) k by (simp add: file_at_def)
  have ad: "i_addrs (ino s ip) j = i_addrs din j" if "j \<le> NDIRECT" for j using s(3) that by (simp add: same_meta_def)
  show fb: "file_block s ip k = of_nat (bs ! k)"
  proof (cases "k < NDIRECT")
    case True
    with f(1) k ad show ?thesis by (simp add: file_block_def file_at_def)
  next
    case False
    then have n: "ib \<noteq> 0" "k - NDIRECT < NINDIRECT" "NDIRECT + (k - NDIRECT) = k"
      using f(1) k M by (auto simp: file_at_def sizes)
    then have "ib < sectors" using o [of ib] by (simp add: owned_def)
    then have "bc_stored s (1, of_nat ib) = img m ib" using s(1) by (simp add: boots_def)
    then show ?thesis using False f(1) k ad [of NDIRECT] n s(2) by (simp add: file_block_def file_at_def)
  qed
  have "i_addrs (ino s ip) NDIRECT \<noteq> 0 \<and> bc_usable s (1, i_addrs (ino s ip) NDIRECT)" if "NDIRECT \<le> k"
  proof -
    have "ib \<noteq> 0" "i_addrs (ino s ip) NDIRECT = of_nat ib" using f(1) k that ad [of NDIRECT] by (auto simp: file_at_def)
    then show ?thesis using o [of ib] u [of ib] small_word(2) [of ib] by (simp add: owned_def)
  qed
  then show "mapped s ip k" using fb M s(2) u [OF bk(1)] small_word(2) [OF bk(1)] bk(2) by (simp add: mapped_def)
qed

lemma ceil512_less: "k * 512 < l \<Longrightarrow> k < ceil512 l" "j < l \<Longrightarrow> j div 512 < ceil512 l"
proof -
  have less: "k < ceil512 l" if "k * 512 < l" for k
  proof -
    have "k + 1 \<le> (l + 511) div 512" using that by (subst less_eq_div_iff_mult_less_eq) simp_all
    then show ?thesis by (simp add: ceil512_def)
  qed
  then show "k * 512 < l \<Longrightarrow> k < ceil512 l" .
  have "j div 512 * 512 \<le> j" by simp
  then show "j < l \<Longrightarrow> j div 512 < ceil512 l" using less [of "j div 512"] by linarith
qed

lemma same_meta_trans: "same_meta p q \<Longrightarrow> same_meta q r \<Longrightarrow> same_meta p r"
  by (auto simp: same_meta_def)

text \<open>
  Claim C12.  A file that \<^verbatim>\<open>mkfs\<close> has put into the image is what the kernel reads: when the disk has the sectors of
  the image and a slot of the inode cache has what \<^verbatim>\<open>ilock\<close> finds on the disk for the number of the inode,
  \<^verbatim>\<open>readi\<close> at any offset in the file returns the bytes of the file of the host there, up to its end.
\<close>

theorem kernel_reads_image:
  fixes s :: "'a kfs_scheme"
  assumes "holds m F" and "0 < i" and "i < freeinode m" and "F i = (T_FILE, cont, length cont)"
    and "boots s m" and "i_dev (ino s ip) = 1"
    and "same_meta (ino s ip) (get_inode (bc_stored s (1, IBLOCK (of_nat i))) (dinode_at (of_nat i)) no_inode)"
    and "unat off \<le> length cont" and "unat off + unat n < 2 ^ 32"
  shows "let bytes = take (unat n) (drop (unat off) cont) in
    \<exists>s'. readi devs ip ToLocal off n s = Ret (int (length bytes), bytes) s' \<and> same_disk s s'"
proof -
  from assms(1) obtain bl where L: "laid m bl F" by (auto simp: holds_def)
  obtain bs ib where b: "bl i = (bs, ib)" by (cases "bl i")
  have I: "i < ninodes" "freeblock m \<le> sectors" and ok: "node_ok m (bs, ib) (node m i) (T_FILE, cont, length cont)"
    using L assms(2-4) b by (auto simp: laid_def room_def)
  have f: "file_at (img m) (node m i) bs ib cont" "placed bs ib (freeblock m)" "length bs = ceil512 (length cont)"
    "unat (i_size (node m i)) = length cont" "i_type (node m i) = T_FILE"
    using ok by (simp_all add: node_ok_def)
  have i2: "i2b i < sectors" using i2b_range [OF I(1)] by (simp add: sectors_def)
  then have "bc_stored s (1, IBLOCK (of_nat i)) = img m (i2b i)"
    using assms(5) kernel_inode(1) [OF I(1)] by (simp add: boots_def)
  then have sm: "same_meta (ino s ip) (node m i)" using assms(7) kernel_inode(2) [OF I(1)] by (simp add: node_def)
  note fm = file_at_mapped [OF f(1,2) I(2) assms(5,6) sm]
  have sz: "unat (i_size (ino s ip)) = length cont" and ty: "i_type (ino s ip) \<noteq> T_DEV"
    using sm f(4,5) by (simp_all add: same_meta_def T_DEV_def T_FILE_def)
  have mp: "\<forall>bn. bn * BSIZE < unat (i_size (ino s ip)) \<longrightarrow> mapped s ip bn"
    using fm(2) ceil512_less(1) f(3) sz by (simp add: BSIZE_def)
  have byte: "file_byte s ip j = cont ! j" if j: "j < length cont" for j
  proof -
    have k: "j div 512 < length bs" using ceil512_less(2) [OF j] f(3) by simp
    have "bs ! (j div 512) < sectors" using placed_less [OF f(2) I(2), of "bs ! (j div 512)"] k by (simp add: owned_def)
    then have "bc_stored s (1, of_nat (bs ! (j div 512))) = img m (bs ! (j div 512))" using assms(5) by (simp add: boots_def)
    moreover have "j < length bs * 512" using k by (simp add: div_less_iff_less_mult)
    ultimately show ?thesis using f(1) fm(1) [OF k] assms(6) j by (simp add: file_byte_def file_at_def BSIZE_def)
  qed
  let ?k = "min (unat n) (length cont - unat off)" and ?b = "take (unat n) (drop (unat off) cont)"
  have "off \<le> i_size (ino s ip)" using assms(8) sz by (simp add: word_le_nat_alt)
  with readi_reads_file [OF _ ty mp, of off n devs] assms(5,9) sz obtain s' where
    r: "readi devs ip ToLocal off n s = Ret (int ?k, file_bytes s ip (unat off) ?k) s'" "same_disk s s'"
    by (auto simp: boots_def Let_def)
  have "file_bytes s ip (unat off) ?k = ?b"
    using assms(8) by (intro nth_equalityI) (auto simp: file_bytes_def byte min.commute)
  moreover have "length ?b = ?k" by (simp add: min.commute)
  ultimately show ?thesis using r by (auto simp: Let_def)
qed

text \<open>A machine that has booted from the image, with one inode in its cache.\<close>

definition img_boot :: "fsimg \<Rightarrow> inode \<Rightarrow> kfs" where
  "img_boot m din = binit \<lparr>cpus = cpus pipe_boot, lks = lks pipe_boot, me = 0, phys = phys pipe_boot,
     ptable = ptable pipe_boot, bcache = (bcache pipe_boot)\<lparr>disk := (\<lambda>a. img m (unat (snd a)))\<rparr>, pipes = pipes pipe_boot,
     inodes = (\<lambda>_. din\<lparr>i_dev := 1\<rparr>)\<rparr>"

lemma img_boot_boots: "boots (img_boot m din) m" "ino (img_boot m din) ip = din\<lparr>i_dev := 1\<rparr>"
proof -
  have "cli_ok s \<Longrightarrow> lk_free (lks s PtableLk) \<Longrightarrow>
      \<forall>b<NBUF. \<not> b_busy (bf s b) \<and> \<not> b_valid (bf s b) \<and> \<not> b_dirty (bf s b) \<Longrightarrow> bc_inv (binit s) {}" for s :: kfs
    using binit_ok [of s] by blast
  then have "bc_inv (img_boot m din) {}" unfolding img_boot_def
    by (auto simp: pipe_boot_def bio_boot_def boot_defs cli_ok_def lk_free_def)
  moreover have "disk (bcache (img_boot m din)) = (\<lambda>a. img m (unat (snd a)))" "havedisk1 (bcache (img_boot m din))"
    by (simp_all add: img_boot_def binit_def pipe_boot_def bio_boot_def)
  ultimately show "boots (img_boot m din) m"
    by (auto simp: boots_def bc_stored_def sane_def sectors_def unat_of_nat word_less_nat_alt)
  show "ino (img_boot m din) ip = din\<lparr>i_dev := 1\<rparr>" by (simp add: img_boot_def)
qed

theorem kernel_reads_image_witness:
  "\<exists>m s s'. mkfs_main (Some small_tree) = Inr m \<and> readi no_devs 0 ToLocal 1 5 (s :: kfs) = Ret (2, [2, 3]) s'"
proof -
  obtain m F where m: "mkfs_main (Some small_tree) = Inr m" "holds m F" "freeinode m = 5" "F 2 = (T_FILE, [1, 2, 3], 3)"
    using small_image by blast
  let ?s = "img_boot m (node m 2)"
  have i: "2 < ninodes" "i2b 2 < sectors" by (simp_all add: ninodes_def i2b_def IPB_def sectors_def)
  have "same_meta (ino ?s 0) (get_inode (bc_stored ?s (1, IBLOCK (of_nat 2))) (dinode_at (of_nat 2)) no_inode)"
    using img_boot_boots [of m "node m 2"] kernel_inode [OF i(1)] i(2)
    by (auto simp: boots_def same_meta_def node_def)
  with kernel_reads_image [OF m(2), of 2 "[1, 2, 3]" ?s 0 1 5 no_devs] m(3,4) img_boot_boots
  have "\<exists>s'. readi no_devs 0 ToLocal 1 5 ?s = Ret (2, [2, 3]) s'" by (auto simp: Let_def)
  with m(1) show ?thesis by blast
qed

end
