(* ===== verification/Spec2Isabelle.thy ===== *)
theory Spec2Isabelle
  imports FsAlloc IcacheInv Paths SysInv Ide ConsoleInv MfsInv Grep Shell Server Mem1 Mem2 Mem3 Umalloc MkfsTree
begin

text \<open>
  Verification development of the xv6 kernel with threads.
\<close>

end
